(* ===== verification/Prelude.thy ===== *)
theory Prelude
  imports Main "HOL-Library.Word" "HOL-Library.Sublist" "HOL-Library.Code_Target_Nat"
begin

text \<open>
  What the components of the development share: the byte view of C++ \<open>char\<close>, the
  \<open>std::string_view\<close> operations the sources call (\<open>find\<close>, \<open>rfind\<close>, \<open>substr\<close>),
  the standard library's integer conversions (\<open>std::from_chars\<close>, \<open>std::to_chars\<close>),
  the collections of simplification rules, and two interfaces every component uses: a
  codec with a left inverse and a transition system with an invariant.

  A \<open>std::string\<close> or \<open>std::string_view\<close> is a \<^typ>\<open>string\<close>; one \<^typ>\<open>char\<close> is one
  byte. The conversion \<open>static_cast<unsigned char>(c)\<close> is \<open>byte c\<close>, a natural number
  below 256. A \<open>std::size_t\<close> that only ever holds a length or an index of a string in
  memory is a \<^typ>\<open>nat\<close>; where arithmetic can reach the 64-bit limit the bound is
  written out. The value \<open>npos\<close> of a failed search is \<^const>\<open>None\<close>.
\<close>

named_theorems sv_simps \<open>rewriting of string-view operations\<close>
named_theorems inv_intros \<open>operations that keep a component's invariant\<close>

section \<open>Bytes\<close>

abbreviation byte :: "char \<Rightarrow> nat" where
  "byte c \<equiv> of_char c"

abbreviation of_byte :: "nat \<Rightarrow> char" where
  "of_byte n \<equiv> char_of n"

definition char_between :: "char \<Rightarrow> char \<Rightarrow> char \<Rightarrow> bool" where
  "char_between lo hi c \<longleftrightarrow> byte lo \<le> byte c \<and> byte c \<le> byte hi"

lemma byte_less_256 [simp]: "byte c < 256"
  by (fact nat_of_char_less_256)

lemma byte_div_16 [simp]: "byte c div 16 < 16"
  using byte_less_256 [of c] by linarith

lemma of_byte_byte [simp]: "of_byte (byte c) = c"
  by simp

lemma byte_of_byte [simp]: "n < 256 \<Longrightarrow> byte (of_byte n) = n"
  by (simp add: of_char_of)

lemma byte_eq_iff: "byte c = byte d \<longleftrightarrow> c = d"
  by (fact of_char_eq_iff)

lemma of_byte_nibbles [simp]: "of_byte (byte c div 16 * 16 + byte c mod 16) = c"
  by (simp del: mult_div_mod_eq add: div_mult_mod_eq)

section \<open>Searching and slicing\<close>

primrec index_of :: "('a \<Rightarrow> bool) \<Rightarrow> 'a list \<Rightarrow> nat option" where
  "index_of P [] = None"
| "index_of P (x # xs) = (if P x then Some 0 else map_option Suc (index_of P xs))"

definition sv_find :: "string \<Rightarrow> char \<Rightarrow> nat option" where
  "sv_find s c = index_of ((=) c) s"

definition sv_find_from :: "string \<Rightarrow> char \<Rightarrow> nat \<Rightarrow> nat option" where
  "sv_find_from s c pos = map_option ((+) pos) (sv_find (drop pos s) c)"

definition sv_find_first_of :: "string \<Rightarrow> string \<Rightarrow> nat option" where
  "sv_find_first_of s cs = index_of (\<lambda>x. x \<in> set cs) s"

definition sv_rfind :: "string \<Rightarrow> char \<Rightarrow> nat option" where
  "sv_rfind s c = map_option (\<lambda>i. length s - Suc i) (sv_find (rev s) c)"

primrec sv_find_str :: "string \<Rightarrow> string \<Rightarrow> nat option" where
  "sv_find_str [] n = (if n = [] then Some 0 else None)"
| "sv_find_str (x # xs) n =
     (if prefix n (x # xs) then Some 0 else map_option Suc (sv_find_str xs n))"

definition sv_find_str_from :: "string \<Rightarrow> string \<Rightarrow> nat \<Rightarrow> nat option" where
  "sv_find_str_from s n pos = map_option ((+) pos) (sv_find_str (drop pos s) n)"

definition substr :: "string \<Rightarrow> nat \<Rightarrow> nat \<Rightarrow> string" where
  "substr s pos n = take n (drop pos s)"

definition substr_from :: "string \<Rightarrow> nat \<Rightarrow> string" where
  "substr_from s pos = drop pos s"

lemma index_of_None_iff: "index_of P xs = None \<longleftrightarrow> (\<forall>x\<in>set xs. \<not> P x)"
  by (induction xs) auto

lemma index_of_SomeD:
  "index_of P xs = Some i \<Longrightarrow> i < length xs \<and> P (xs ! i) \<and> (\<forall>x\<in>set (take i xs). \<not> P x)"
proof (induction xs arbitrary: i)
  case (Cons x xs)
  then show ?case
    by (auto split: if_splits simp: less_Suc_eq_0_disj)
qed simp

lemma index_of_append_found:
  "\<forall>x\<in>set xs. \<not> P x \<Longrightarrow> P y \<Longrightarrow> index_of P (xs @ y # ys) = Some (length xs)"
  by (induction xs) auto

lemma index_of_split:
  assumes "index_of P xs = Some i"
  shows "xs = take i xs @ xs ! i # drop (Suc i) xs" and "\<forall>x\<in>set (take i xs). \<not> P x"
    and "P (xs ! i)" and "i < length xs"
  using index_of_SomeD [OF assms] by (auto simp: id_take_nth_drop [symmetric])

lemma index_of_Some_append:
  "index_of P xs = Some i \<Longrightarrow> index_of P (xs @ ys) = Some i"
  by (induction xs arbitrary: i) (auto split: if_splits)

lemma sv_find_None_iff: "sv_find s c = None \<longleftrightarrow> c \<notin> set s"
  by (auto simp: sv_find_def index_of_None_iff)

lemma sv_find_notin [simp]: "c \<notin> set s \<Longrightarrow> sv_find s c = None"
  by (simp add: sv_find_None_iff)

lemma sv_find_append_found [simp]: "c \<notin> set xs \<Longrightarrow> sv_find (xs @ c # ys) c = Some (length xs)"
  unfolding sv_find_def by (rule index_of_append_found) auto

lemma sv_find_Nil [simp]: "sv_find [] c = None"
  by (simp add: sv_find_def)

lemma sv_find_Cons: "sv_find (x # xs) c = (if x = c then Some 0 else map_option Suc (sv_find xs c))"
  by (auto simp: sv_find_def)

lemma sv_find_split:
  assumes "sv_find s c = Some i"
  shows "s = take i s @ c # drop (Suc i) s" and "c \<notin> set (take i s)" and "i < length s"
  using index_of_split [OF assms [unfolded sv_find_def]] by auto

lemma sv_find_less: "sv_find s c = Some i \<Longrightarrow> i < length s"
  by (rule sv_find_split(3))

lemma sv_find_from_less: "sv_find_from s c p = Some i \<Longrightarrow> p \<le> i \<and> i < length s"
  by (auto simp: sv_find_from_def dest!: sv_find_less)

lemma sv_rfind_None_iff: "sv_rfind s c = None \<longleftrightarrow> c \<notin> set s"
  by (simp add: sv_rfind_def sv_find_None_iff)

lemma sv_rfind_append_found [simp]:
  assumes "c \<notin> set ys"
  shows "sv_rfind (xs @ c # ys) c = Some (length xs)"
proof -
  have "sv_find (rev ys @ c # rev xs) c = Some (length (rev ys))"
    using assms by (intro sv_find_append_found) simp
  then show ?thesis by (simp add: sv_rfind_def)
qed

lemma sv_rfind_split:
  assumes "sv_rfind s c = Some i"
  shows "s = take i s @ c # drop (Suc i) s" and "c \<notin> set (drop (Suc i) s)" and "i < length s"
proof -
  from assms obtain j where j: "sv_find (rev s) c = Some j" and i: "i = length s - Suc j"
    by (auto simp: sv_rfind_def)
  note sp = sv_find_split [OF j]
  from sp(1) have "rev (rev s) = rev (take j (rev s) @ c # drop (Suc j) (rev s))"
    by (rule arg_cong)
  then have eq: "s = rev (drop (Suc j) (rev s)) @ c # rev (take j (rev s))"
    by simp
  have len: "length (rev (drop (Suc j) (rev s))) = i"
    using i by simp
  have tk: "take i s = rev (drop (Suc j) (rev s))"
    by (subst eq) (simp add: len [symmetric])
  have "drop (Suc i) s = rev (take j (rev s))"
    by (subst eq) (simp add: len [symmetric])
  with tk eq sp(2) show "s = take i s @ c # drop (Suc i) s" "c \<notin> set (drop (Suc i) s)"
    by simp_all
  show "i < length s"
    using i sp(3) by simp
qed

lemma sv_find_str_SomeD:
  "sv_find_str s n = Some i \<Longrightarrow> i + length n \<le> length s \<and> take (length n) (drop i s) = n"
proof (induction s arbitrary: i)
  case (Cons x xs)
  show ?case
  proof (cases "prefix n (x # xs)")
    case True
    with Cons.prems show ?thesis
      using prefix_length_le [OF True] by (auto simp: prefix_def)
  next
    case False
    with Cons show ?thesis by auto
  qed
qed (auto split: if_splits)

lemma sv_find_str_from_SomeD:
  "sv_find_str_from s n p = Some i \<Longrightarrow> n \<noteq> [] \<Longrightarrow>
     p \<le> i \<and> i + length n \<le> length s \<and> take (length n) (drop i s) = n"
  by (cases "p \<le> length s")
    (auto simp: sv_find_str_from_def add.commute dest!: sv_find_str_SomeD)

lemma sv_find_str_from_ge: "sv_find_str_from s n p = Some i \<Longrightarrow> p \<le> i"
  by (auto simp: sv_find_str_from_def)

text \<open>More input after a hit does not move the hit.\<close>

lemma sv_find_str_Some_append:
  "sv_find_str s n = Some i \<Longrightarrow> sv_find_str (s @ t) n = Some i"
proof (induction s arbitrary: i)
  case Nil
  then show ?case by (cases t) (auto split: if_splits)
next
  case (Cons x xs)
  show ?case
  proof (cases "prefix n (x # xs)")
    case True
    then have "prefix n ((x # xs) @ t)" by (rule prefix_prefix) 
    with Cons.prems True show ?thesis by simp
  next
    case False
    with Cons.prems obtain j where j: "sv_find_str xs n = Some j" "i = Suc j" by auto
    have "\<not> prefix n ((x # xs) @ t)"
    proof
      assume "prefix n ((x # xs) @ t)"
      moreover have "length n \<le> length (x # xs)"
        using sv_find_str_SomeD [OF j(1)] by simp
      ultimately have "prefix n (x # xs)"
        by (metis prefix_length_prefix prefixI)
      with False show False ..
    qed
    with Cons.IH [OF j(1)] j(2) show ?thesis by simp
  qed
qed

section \<open>Integer conversions of the standard library\<close>

text \<open>
  \<open>std::from_chars\<close> for an unsigned type with \<open>lim\<close> values reads the longest prefix of
  decimal digits: no digit is \<open>invalid_argument\<close>, a value the type cannot hold is
  \<open>result_out_of_range\<close>, otherwise the value and the number of characters read. For a
  signed type a single leading minus sign is accepted as well.
\<close>

datatype 'n from_chars_result =
    FC_invalid
  | FC_out_of_range
  | FC_ok (fc_value: 'n) (fc_len: nat)

definition is_digit :: "char \<Rightarrow> bool" where
  "is_digit c \<longleftrightarrow> char_between CHR ''0'' CHR ''9'' c"

definition digit_char :: "nat \<Rightarrow> char" where
  "digit_char d = of_byte (48 + d)"

definition dec_value :: "string \<Rightarrow> nat" where
  "dec_value ds = foldl (\<lambda>v c. 10 * v + (byte c - 48)) 0 ds"

definition from_chars_unsigned :: "nat \<Rightarrow> string \<Rightarrow> nat from_chars_result" where
  "from_chars_unsigned lim s =
     (let ds = takeWhile is_digit s
      in if ds = [] then FC_invalid
         else if dec_value ds < lim then FC_ok (dec_value ds) (length ds)
         else FC_out_of_range)"

definition from_chars_signed :: "int \<Rightarrow> string \<Rightarrow> int from_chars_result" where
  "from_chars_signed lim s =
     (if s \<noteq> [] \<and> hd s = CHR ''-'' then
        (let ds = takeWhile is_digit (tl s)
         in if ds = [] then FC_invalid
            else if int (dec_value ds) \<le> lim then FC_ok (- int (dec_value ds)) (Suc (length ds))
            else FC_out_of_range)
      else
        (let ds = takeWhile is_digit s
         in if ds = [] then FC_invalid
            else if int (dec_value ds) < lim then FC_ok (int (dec_value ds)) (length ds)
            else FC_out_of_range))"

text \<open>The idiom \<open>ec == std::errc{} && ptr == last\<close>: the whole text is the number.\<close>

definition parse_whole_unsigned :: "nat \<Rightarrow> string \<Rightarrow> nat option" where
  "parse_whole_unsigned lim s =
     (case from_chars_unsigned lim s of
        FC_ok v n \<Rightarrow> if n = length s then Some v else None
      | _ \<Rightarrow> None)"

fun dec_string :: "nat \<Rightarrow> string" where
  "dec_string n = (if n < 10 then [digit_char n] else dec_string (n div 10) @ [digit_char (n mod 10)])"

declare dec_string.simps [simp del]

lemma byte_digit_char [simp]: "d < 10 \<Longrightarrow> byte (digit_char d) = 48 + d"
  by (simp add: digit_char_def)

lemma is_digit_digit_char [simp]: "d < 10 \<Longrightarrow> is_digit (digit_char d)"
  by (simp add: is_digit_def char_between_def)

lemma dec_value_snoc [simp]: "dec_value (ds @ [c]) = 10 * dec_value ds + (byte c - 48)"
  by (simp add: dec_value_def)

lemma dec_value_Nil [simp]: "dec_value [] = 0"
  by (simp add: dec_value_def)

lemma dec_string_nonempty [simp]: "dec_string n \<noteq> []"
  by (subst dec_string.simps) simp

lemma dec_string_digits: "c \<in> set (dec_string n) \<Longrightarrow> is_digit c"
proof (induction n rule: dec_string.induct)
  case (1 n)
  from "1.prems" show ?case
    by (subst (asm) dec_string.simps) (auto split: if_splits dest: "1.IH")
qed

lemma dec_value_dec_string [simp]: "dec_value (dec_string n) = n"
proof (induction n rule: dec_string.induct)
  case (1 n)
  show ?case
  proof (cases "n < 10")
    case True
    then show ?thesis by (subst dec_string.simps) (simp add: dec_value_def)
  next
    case False
    with "1.IH" show ?thesis by (subst dec_string.simps) simp
  qed
qed

lemma takeWhile_is_digit_dec_string [simp]:
  "takeWhile is_digit (dec_string n) = dec_string n"
  by (simp add: takeWhile_eq_all_conv dec_string_digits)

lemma takeWhile_dec_string_append:
  "\<not> is_digit c \<Longrightarrow> takeWhile is_digit (dec_string n @ c # s) = dec_string n"
  by (simp add: takeWhile_append2 dec_string_digits)

lemma parse_whole_dec_string [simp]:
  "n < lim \<Longrightarrow> parse_whole_unsigned lim (dec_string n) = Some n"
  by (simp add: parse_whole_unsigned_def from_chars_unsigned_def Let_def)

lemma parse_whole_unsigned_Some_iff:
  "parse_whole_unsigned lim s = Some v \<longleftrightarrow>
     s \<noteq> [] \<and> list_all is_digit s \<and> v = dec_value s \<and> dec_value s < lim"
proof -
  have *: "length (takeWhile is_digit s) = length s \<longleftrightarrow> list_all is_digit s"
    by (metis list_all_iff takeWhile_eq_all_conv takeWhile_eq_take take_all order_refl)
  then show ?thesis
    by (auto simp: parse_whole_unsigned_def from_chars_unsigned_def Let_def list_all_iff
        takeWhile_eq_all_conv [THEN iffD2] split: if_splits)
qed

text \<open>\<open>std::format(..., n)\<close> and \<open>to_chars\<close> of a signed integer.\<close>

definition int_string :: "int \<Rightarrow> string" where
  "int_string i = (if i < 0 then CHR ''-'' # dec_string (nat (- i)) else dec_string (nat i))"

section \<open>Splitting at a separator\<close>

primrec split_on :: "char \<Rightarrow> string \<Rightarrow> string list" where
  "split_on c [] = [[]]"
| "split_on c (x # xs) =
     (if x = c then [] # split_on c xs else (x # hd (split_on c xs)) # tl (split_on c xs))"

lemma split_on_notin [simp]: "c \<notin> set s \<Longrightarrow> split_on c s = [s]"
  by (induction s) auto

lemma split_on_found [simp]: "c \<notin> set a \<Longrightarrow> split_on c (a @ c # s) = a # split_on c s"
  by (induction a) auto

section \<open>Two interfaces\<close>

text \<open>
  A codec: an encoder and a partial decoder, where decoding an encoding gives the value
  back. The clients only use these facts.
\<close>

locale codec =
  fixes enc :: "'a \<Rightarrow> 'b" and dec :: "'b \<Rightarrow> 'a option"
  assumes dec_enc: "dec (enc x) = Some x"
begin

lemma enc_eq_iff: "enc x = enc y \<longleftrightarrow> x = y"
  by (metis dec_enc option.inject)

lemma enc_inj: "inj enc"
  by (rule injI) (simp add: enc_eq_iff)

lemma the_dec_enc: "the (dec (enc x)) = x"
  by (simp add: dec_enc)

lemma map_dec_enc: "map (the \<circ> dec) (map enc xs) = xs"
  by (induction xs) (simp_all add: dec_enc)

end

text \<open>
  A stateful component: commands that update a state and an invariant they keep. What
  holds after every command holds after every sequence of commands.
\<close>

definition run_commands :: "('c \<Rightarrow> 's \<Rightarrow> 's) \<Rightarrow> 'c list \<Rightarrow> 's \<Rightarrow> 's" where
  "run_commands exec cs s = fold exec cs s"

lemma run_commands_Nil [simp]: "run_commands exec [] s = s"
  by (simp add: run_commands_def)

lemma run_commands_Cons [simp]:
  "run_commands exec (c # cs) s = run_commands exec cs (exec c s)"
  by (simp add: run_commands_def)

lemma run_commands_append [simp]:
  "run_commands exec (cs @ ds) s = run_commands exec ds (run_commands exec cs s)"
  by (simp add: run_commands_def)

locale invariant_machine =
  fixes exec :: "'c \<Rightarrow> 's \<Rightarrow> 's" and inv :: "'s \<Rightarrow> bool"
  assumes inv_exec: "inv s \<Longrightarrow> inv (exec c s)"
begin

lemma inv_run: "inv s \<Longrightarrow> inv (run_commands exec cs s)"
  by (induction cs arbitrary: s) (simp_all add: inv_exec)

end

text \<open>
  A machine that also implements an abstract one: reading off the abstract state commutes
  with every command, hence with every sequence of commands.
\<close>

locale refinement_machine = invariant_machine +
  fixes abs :: "'s \<Rightarrow> 'a" and spec :: "'c \<Rightarrow> 'a \<Rightarrow> 'a"
  assumes abs_exec: "inv s \<Longrightarrow> abs (exec c s) = spec c (abs s)"
begin

lemma abs_run: "inv s \<Longrightarrow> abs (run_commands exec cs s) = run_commands spec cs (abs s)"
  by (induction cs arbitrary: s) (simp_all add: inv_exec abs_exec)

end

end
