(* ===== verification/Utils.thy ===== *)
theory Utils
  imports Prelude
begin

unbundle bit_operations_syntax

text \<open>
  Models \<open>src/utils.cxx\<close> (module \<open>conflux.utils\<close>): the pseudo-random generator, hex and
  URL percent coding, IP addresses and CIDR blocks, ASCII case mapping, trimming and
  splitting. The portable scalar paths are modelled; the SIMD variants selected at build
  time are separate functions of other files. \<open>inet_pton\<close> belongs to libc and is a
  parameter \<open>pton4\<close>/\<open>pton6\<close> of the definitions that call it.
\<close>

section \<open>The xoshiro256** generator\<close>

type_synonym u64 = "64 word"

definition rotl :: "u64 \<Rightarrow> nat \<Rightarrow> u64" where
  "rotl x k = push_bit k x OR drop_bit (64 - k) x"

record xoshiro =
  rng_s0 :: u64
  rng_s1 :: u64
  rng_s2 :: u64
  rng_s3 :: u64

text \<open>The constructor after the seed bytes have been read: an all-zero seed is replaced.\<close>

definition xoshiro_seed :: "u64 \<Rightarrow> u64 \<Rightarrow> u64 \<Rightarrow> u64 \<Rightarrow> xoshiro" where
  "xoshiro_seed a b c d =
     (if a OR b OR c OR d = 0
      then \<lparr>rng_s0 = 0x9E3779B97F4A7C15, rng_s1 = b, rng_s2 = c, rng_s3 = d\<rparr>
      else \<lparr>rng_s0 = a, rng_s1 = b, rng_s2 = c, rng_s3 = d\<rparr>)"

definition xoshiro_next :: "xoshiro \<Rightarrow> u64 \<times> xoshiro" where
  "xoshiro_next g =
     (let result = rotl (rng_s1 g * 5) 7 * 9;
          t = push_bit 17 (rng_s1 g);
          x2 = rng_s2 g XOR rng_s0 g;
          x3 = rng_s3 g XOR rng_s1 g;
          x1 = rng_s1 g XOR x2;
          x0 = rng_s0 g XOR x3;
          x2' = x2 XOR t;
          x3' = rotl x3 45
      in (result, \<lparr>rng_s0 = x0, rng_s1 = x1, rng_s2 = x2', rng_s3 = x3'\<rparr>))"

text \<open>The invariant of the generator: its state is not all zero.\<close>

definition xoshiro_live :: "xoshiro \<Rightarrow> bool" where
  "xoshiro_live g \<longleftrightarrow> \<not> (rng_s0 g = 0 \<and> rng_s1 g = 0 \<and> rng_s2 g = 0 \<and> rng_s3 g = 0)"

definition le_bytes :: "u64 \<Rightarrow> string" where
  "le_bytes v = map (\<lambda>i. of_byte (unat (drop_bit (8 * i) v) mod 256)) [0..<8]"

text \<open>\<open>fast_random_bytes\<close>: whole words first, then a prefix of one more word.\<close>

function fast_random_bytes :: "nat \<Rightarrow> xoshiro \<Rightarrow> string \<times> xoshiro" where
  "fast_random_bytes n g =
     (if 8 \<le> n then
        (let (v, g') = xoshiro_next g; (rest, g'') = fast_random_bytes (n - 8) g'
         in (le_bytes v @ rest, g''))
      else if 0 < n then
        (let (v, g') = xoshiro_next g in (take n (le_bytes v), g'))
      else ([], g))"
  by pat_completeness auto
termination
  by (relation "measure fst") auto

declare fast_random_bytes.simps [simp del]

section \<open>Hexadecimal\<close>

definition hex_lower :: string where
  "hex_lower = ''0123456789abcdef''"

definition hex_upper :: string where
  "hex_upper = ''0123456789ABCDEF''"

definition hex_encode :: "string \<Rightarrow> string" where
  "hex_encode bs =
     concat (map (\<lambda>b. [hex_lower ! (byte b div 16), hex_lower ! (byte b mod 16)]) bs)"

definition hex_char_to_int :: "char \<Rightarrow> int" where
  "hex_char_to_int c =
     (if char_between CHR ''0'' CHR ''9'' c then int (byte c) - 48
      else if char_between CHR ''a'' CHR ''f'' c then int (byte c) - 97 + 10
      else if char_between CHR ''A'' CHR ''F'' c then int (byte c) - 65 + 10
      else -1)"

fun hex_decode_pairs :: "string \<Rightarrow> string + string" where
  "hex_decode_pairs (x # y # rest) =
     (let hi = hex_char_to_int x; lo = hex_char_to_int y
      in if hi < 0 \<or> lo < 0 then Inl ''hex_decode: invalid hex digit''
         else (case hex_decode_pairs rest of
                 Inl e \<Rightarrow> Inl e
               | Inr out \<Rightarrow> Inr (of_byte (nat (push_bit 4 hi OR lo)) # out)))"
| "hex_decode_pairs _ = Inr []"

definition hex_decode :: "string \<Rightarrow> string + string" where
  "hex_decode s =
     (if length s mod 2 \<noteq> 0 then Inl ''hex_decode: odd-length input''
      else hex_decode_pairs s)"

section \<open>URL percent coding\<close>

definition is_url_unreserved :: "char \<Rightarrow> bool" where
  "is_url_unreserved c \<longleftrightarrow>
     char_between CHR ''A'' CHR ''Z'' c \<or> char_between CHR ''a'' CHR ''z'' c
     \<or> char_between CHR ''0'' CHR ''9'' c
     \<or> c = CHR ''-'' \<or> c = CHR ''_'' \<or> c = CHR ''.'' \<or> c = CHR ''~''"

definition url_needs_component_decode :: "string \<Rightarrow> bool" where
  "url_needs_component_decode s \<longleftrightarrow> sv_find_first_of s ''%+'' \<noteq> None"

definition url_needs_path_decode :: "string \<Rightarrow> bool" where
  "url_needs_path_decode s \<longleftrightarrow> sv_find s CHR ''%'' \<noteq> None"

fun append_url_encoded_impl :: "string \<Rightarrow> string \<Rightarrow> bool \<Rightarrow> string" where
  "append_url_encoded_impl out [] space_as_plus = out"
| "append_url_encoded_impl out (c # cs) space_as_plus =
     append_url_encoded_impl
       (if is_url_unreserved c then out @ [c]
        else if space_as_plus \<and> c = CHR '' '' then out @ ''+''
        else out @ [CHR ''%'', hex_upper ! (byte c div 16), hex_upper ! (byte c mod 16)])
       cs space_as_plus"

definition url_percent_encoded_size :: "string \<Rightarrow> nat" where
  "url_percent_encoded_size s = sum_list (map (\<lambda>c. if is_url_unreserved c then 1 else 3) s)"

definition append_url_percent_encoded :: "string \<Rightarrow> string \<Rightarrow> string" where
  "append_url_percent_encoded out s = append_url_encoded_impl out s False"

definition url_percent_encode :: "string \<Rightarrow> string" where
  "url_percent_encode s = append_url_percent_encoded [] s"

definition url_form_encoded_size :: "string \<Rightarrow> nat" where
  "url_form_encoded_size s =
     sum_list (map (\<lambda>c. if is_url_unreserved c \<or> c = CHR '' '' then 1 else 3) s)"

definition append_url_form_encoded :: "string \<Rightarrow> string \<Rightarrow> string" where
  "append_url_form_encoded out s = append_url_encoded_impl out s True"

definition url_form_encode :: "string \<Rightarrow> string" where
  "url_form_encode s = append_url_form_encoded [] s"

definition scan_url_plain_run :: "string \<Rightarrow> bool \<Rightarrow> nat" where
  "scan_url_plain_run s plus_is_special =
     (case index_of (\<lambda>c. c = CHR ''%'' \<or> plus_is_special \<and> c = CHR ''+'') s of
        Some i \<Rightarrow> i
      | None \<Rightarrow> length s)"

function url_decode_impl :: "string \<Rightarrow> bool \<Rightarrow> string" where
  "url_decode_impl s plus_is_space =
     (if s = [] then []
      else
        let run = scan_url_plain_run s plus_is_space;
            plain = take run s;
            t = drop run s
        in if t = [] then plain
           else if plus_is_space \<and> hd t = CHR ''+'' then
             plain @ CHR '' '' # url_decode_impl (tl t) plus_is_space
           else if hd t = CHR ''%'' \<and> 2 < length t then
             (let hi = hex_char_to_int (t ! 1); lo = hex_char_to_int (t ! 2)
              in if 0 \<le> hi \<and> 0 \<le> lo
                 then plain @ of_byte (nat (push_bit 4 hi OR lo))
                        # url_decode_impl (drop 3 t) plus_is_space
                 else plain @ hd t # url_decode_impl (tl t) plus_is_space)
           else plain @ hd t # url_decode_impl (tl t) plus_is_space)"
  by pat_completeness auto
termination
proof (relation "measure (length \<circ> fst)", goal_cases)
  case 1
  then show ?case by simp
qed (auto simp: neq_Nil_conv)

declare url_decode_impl.simps [simp del]

definition url_decode :: "string \<Rightarrow> string" where
  "url_decode s = url_decode_impl s True"

definition url_decode_path :: "string \<Rightarrow> string" where
  "url_decode_path s = url_decode_impl s False"

section \<open>IP addresses and CIDR blocks\<close>

type_synonym u8 = "8 word"

text \<open>An \<open>in6_addr\<close> is its sixteen bytes in network order.\<close>

type_synonym ip_addr = "u8 list"

record ip_cidr =
  network :: ip_addr
  prefix_len :: nat

type_synonym pton = "string \<Rightarrow> u8 list option"

text \<open>
  \<open>try_pton\<close> stages the text in a 46-byte buffer, so \<open>inet_pton\<close> reads up to the first
  NUL byte.
\<close>

definition try_pton :: "pton \<Rightarrow> string \<Rightarrow> u8 list option" where
  "try_pton pton s =
     (if 46 \<le> length s then None else pton (takeWhile (\<lambda>c. c \<noteq> CHR 0x00) s))"

definition ipv4_mapped :: "u8 list \<Rightarrow> ip_addr" where
  "ipv4_mapped v4 = replicate 10 0 @ [0xFF, 0xFF] @ v4"

definition prefix_mask :: "nat \<Rightarrow> u8" where
  "prefix_mask r = push_bit (8 - r) 0xFF"

definition apply_prefix :: "ip_addr \<Rightarrow> nat \<Rightarrow> ip_addr" where
  "apply_prefix addr plen =
     (let full = plen div 8; r = plen mod 8;
          addr1 = (if 0 < r then addr[full := addr ! full AND prefix_mask r] else addr)
      in fold (\<lambda>i a. a[i := 0]) [full + (if 0 < r then 1 else 0)..<16] addr1)"

definition strip_ip_decorators :: "string \<Rightarrow> string" where
  "strip_ip_decorators s_in =
     (let s = (case sv_find s_in CHR ''%'' of Some z \<Rightarrow> take z s_in | None \<Rightarrow> s_in)
      in if 2 \<le> length s \<and> hd s = CHR ''['' \<and> last s = CHR '']'' then butlast (tl s) else s)"

definition parse_ip :: "pton \<Rightarrow> pton \<Rightarrow> string \<Rightarrow> ip_addr option" where
  "parse_ip pton4 pton6 s_in =
     (let s = strip_ip_decorators s_in
      in case try_pton pton4 s of
           Some v4 \<Rightarrow> Some (ipv4_mapped v4)
         | None \<Rightarrow> try_pton pton6 s)"

definition parse_cidr :: "pton \<Rightarrow> pton \<Rightarrow> string \<Rightarrow> ip_cidr option" where
  "parse_cidr pton4 pton6 s =
     (let slash = sv_find s CHR ''/'';
          ip_stripped =
            strip_ip_decorators (case slash of None \<Rightarrow> s | Some i \<Rightarrow> substr s 0 i);
          v4 = try_pton pton4 ip_stripped;
          v6 = (if v4 \<noteq> None then None else try_pton pton6 ip_stripped)
      in if v4 = None \<and> v6 = None then None
         else
           let max_prefix = (if v4 \<noteq> None then 32 else 128);
               plen =
                 (case slash of
                    None \<Rightarrow> Some max_prefix
                  | Some i \<Rightarrow>
                      (let pfx = substr_from s (i + 1)
                       in if pfx = [] then None
                          else case parse_whole_unsigned (2 ^ 32) pfx of
                                 None \<Rightarrow> None
                               | Some p \<Rightarrow> if max_prefix < p then None else Some p))
           in case plen of
                None \<Rightarrow> None
              | Some p \<Rightarrow>
                  (let net = (case v4 of Some a \<Rightarrow> ipv4_mapped a | None \<Rightarrow> the v6);
                       final_prefix = (if v4 \<noteq> None then 96 + p else p)
                   in Some \<lparr>network = apply_prefix net final_prefix,
                            prefix_len = final_prefix mod 256\<rparr>))"

definition cidr_match :: "ip_cidr \<Rightarrow> ip_addr \<Rightarrow> bool" where
  "cidr_match cidr ip =
     (let full = prefix_len cidr div 8; r = prefix_len cidr mod 8
      in (\<forall>i\<in>set [0..<full]. ip ! i = network cidr ! i)
         \<and> (0 < r \<longrightarrow> ip ! full AND prefix_mask r = network cidr ! full))"

text \<open>Invalid entries of a CIDR list are reported on stderr and skipped.\<close>

definition parse_cidr_list :: "pton \<Rightarrow> pton \<Rightarrow> string list \<Rightarrow> ip_cidr list" where
  "parse_cidr_list pton4 pton6 ss = List.map_filter (parse_cidr pton4 pton6) ss"

section \<open>ASCII case, trimming, splitting\<close>

definition lower_char :: "char \<Rightarrow> char" where
  "lower_char c = (if char_between CHR ''A'' CHR ''Z'' c then of_byte (byte c OR 0x20) else c)"

definition upper_char :: "char \<Rightarrow> char" where
  "upper_char c =
     (if char_between CHR ''a'' CHR ''z'' c then of_byte (byte c AND 0xFFFFFFDF) else c)"

definition ascii_lower :: "string \<Rightarrow> string" where
  "ascii_lower s = map lower_char s"

definition ascii_upper :: "string \<Rightarrow> string" where
  "ascii_upper s = map upper_char s"

definition is_ws :: "char \<Rightarrow> bool" where
  "is_ws c \<longleftrightarrow> c = CHR '' '' \<or> c = CHR 0x09 \<or> c = CHR 0x0D \<or> c = CHR 0x0A"

text \<open>Two loops: leading characters are dropped first, then trailing ones.\<close>

definition trim_with :: "(char \<Rightarrow> bool) \<Rightarrow> string \<Rightarrow> string" where
  "trim_with ws s = rev (dropWhile ws (rev (dropWhile ws s)))"

definition trim :: "string \<Rightarrow> string" where
  "trim s = trim_with is_ws s"

definition strip_cr :: "string \<Rightarrow> string" where
  "strip_cr s = (if s \<noteq> [] \<and> last s = CHR 0x0D then butlast s else s)"

definition split_once :: "string \<Rightarrow> char \<Rightarrow> (string \<times> string) option" where
  "split_once s delim =
     (case sv_find s delim of
        None \<Rightarrow> None
      | Some pos \<Rightarrow> Some (substr s 0 pos, substr_from s (pos + 1)))"

record line_view =
  line_text :: string
  line_no :: nat

record line_iter =
  line_rest :: string
  line_current :: line_view
  next_line_no :: nat
  line_done :: bool

definition line_advance :: "line_iter \<Rightarrow> line_iter" where
  "line_advance it =
     (if line_rest it = [] then it\<lparr>line_done := True, line_current := \<lparr>line_text = [], line_no = 0\<rparr>\<rparr>
      else
        let eol = sv_find (line_rest it) CHR 0x0A;
            line = (case eol of None \<Rightarrow> line_rest it | Some i \<Rightarrow> substr (line_rest it) 0 i)
        in it\<lparr>line_current := \<lparr>line_text = strip_cr line, line_no = next_line_no it\<rparr>,
              next_line_no := next_line_no it + 1,
              line_rest := (case eol of None \<Rightarrow> [] | Some i \<Rightarrow> drop (i + 1) (line_rest it)),
              line_done := False\<rparr>)"

definition line_begin :: "string \<Rightarrow> line_iter" where
  "line_begin t =
     line_advance \<lparr>line_rest = t, line_current = \<lparr>line_text = [], line_no = 0\<rparr>, next_line_no = 1, line_done = False\<rparr>"

text \<open>The range-for loop over a \<open>LineRange\<close>: the views it yields, in order.\<close>

function line_collect :: "line_iter \<Rightarrow> line_view list" where
  "line_collect it =
     (if line_done it then [] else line_current it # line_collect (line_advance it))"
  by pat_completeness auto
termination
proof (relation "measure (\<lambda>it. if line_done it then 0 else Suc (length (line_rest it)))", goal_cases)
  case 1
  then show ?case by simp
next
  case (2 it)
  then show ?case
    by (auto simp: line_advance_def Let_def split: option.splits dest: sv_find_less)
qed

declare line_collect.simps [simp del]

definition line_range :: "string \<Rightarrow> line_view list" where
  "line_range t = line_collect (line_begin t)"

section \<open>Facts\<close>

subsection \<open>The generator never reaches the all-zero state\<close>

lemma push_bit_fixpoint_zero:
  assumes "0 < k" and "push_bit k x = (x :: 'a :: len word)"
  shows "x = 0"
proof -
  have "\<not> bit x n" for n
  proof (induction n rule: less_induct)
    case (less n)
    from assms have "bit x n \<longleftrightarrow> bit (push_bit k x) n" by simp
    also have "\<dots> \<longleftrightarrow> k \<le> n \<and> n < LENGTH('a) \<and> bit x (n - k)"
      by (auto simp: bit_push_bit_iff)
    finally show ?case
      using less.IH [of "n - k"] assms(1) by auto
  qed
  then show ?thesis by (simp add: bit_eq_iff)
qed

lemma rotl_eq_0_iff: 
  assumes "k \<le> 64" shows "rotl x k = 0 \<longleftrightarrow> x = 0"
proof
  assume z: "rotl x k = 0"
  have "\<not> bit x n" for n
  proof (cases "n < 64")
    case True
    have b: "\<not> bit (rotl x k) m" for m by (simp add: z)
    show ?thesis
    proof (cases "n + k < 64")
      case True
      then show ?thesis using b [of "n + k"] by (auto simp: rotl_def bit_or_iff bit_push_bit_iff)
    next
      case False
      with True \<open>n < 64\<close> assms show ?thesis 
        using b [of "n - (64 - k)"] by (auto simp: rotl_def bit_or_iff bit_drop_bit_eq)
    qed
  qed (auto dest: bit_imp_le_length)
  then show "x = 0" by (simp add: bit_eq_iff)
qed (simp add: rotl_def)

lemma xor_eq_0_iff_eq: "a XOR b = 0 \<longleftrightarrow> a = (b :: 'a :: len word)"
  by (auto simp: bit_eq_iff bit_xor_iff)

lemma xoshiro_next_live:
  assumes "xoshiro_live g" shows "xoshiro_live (snd (xoshiro_next g))"
proof (rule ccontr)
  assume dead: "\<not> ?thesis"
  then have e: "rng_s3 g XOR rng_s1 g = 0" "rng_s0 g XOR (rng_s3 g XOR rng_s1 g) = 0"
    "rng_s1 g XOR (rng_s2 g XOR rng_s0 g) = 0" "(rng_s2 g XOR rng_s0 g) XOR push_bit 17 (rng_s1 g) = 0"
    by (auto simp: xoshiro_live_def xoshiro_next_def Let_def rotl_eq_0_iff)
  then have a: "rng_s0 g = 0" "rng_s2 g = rng_s1 g" "rng_s3 g = rng_s1 g"
    by (auto simp: xor_eq_0_iff_eq)
  with e(4) have "push_bit 17 (rng_s1 g) = rng_s1 g"
    by (simp add: xor_eq_0_iff_eq)
  then have "rng_s1 g = 0" by (rule push_bit_fixpoint_zero [rotated]) simp
  with a assms show False by (simp add: xoshiro_live_def)
qed

lemma xoshiro_seed_live: "xoshiro_live (xoshiro_seed a b c d)"
  by (auto simp: xoshiro_live_def xoshiro_seed_def)

lemma length_le_bytes [simp]: "length (le_bytes v) = 8"
  by (simp add: le_bytes_def)

lemma fast_random_bytes_live:
  "xoshiro_live g \<Longrightarrow> xoshiro_live (snd (fast_random_bytes n g)) \<and> length (fst (fast_random_bytes n g)) = n"
proof (induction n g rule: fast_random_bytes.induct)
  case (1 n g)
  have live: "xoshiro_live (snd (xoshiro_next g))" using "1.prems" by (rule xoshiro_next_live)
  show ?case
  proof (cases "8 \<le> n")
    case True
    with "1.IH" [OF True refl, of "fst (xoshiro_next g)" "snd (xoshiro_next g)"] live show ?thesis
      by (subst (1 2) fast_random_bytes.simps) (auto simp: Let_def split: prod.splits)
  next
    case False
    with live "1.prems" show ?thesis
      by (subst (1 2) fast_random_bytes.simps) (auto simp: Let_def split: prod.splits)
  qed
qed

subsection \<open>Hex\<close>

lemma hex_lower_value [simp]: "n < 16 \<Longrightarrow> hex_char_to_int (hex_lower ! n) = int n"
proof -
  have "\<forall>n\<in>set [0..<16]. hex_char_to_int (hex_lower ! n) = int n" by code_simp
  then show "n < 16 \<Longrightarrow> ?thesis" by simp
qed

lemma hex_upper_value [simp]: "n < 16 \<Longrightarrow> hex_char_to_int (hex_upper ! n) = int n"
proof -
  have "\<forall>n\<in>set [0..<16]. hex_char_to_int (hex_upper ! n) = int n" by code_simp
  then show "n < 16 \<Longrightarrow> ?thesis" by simp
qed

lemma nibble_or [simp]: "\<lbrakk>a < 16; b < 16\<rbrakk> \<Longrightarrow> nat (push_bit 4 (int a) OR int b) = a * 16 + b"
proof -
  assume "a < 16" "b < 16"
  have "\<forall>a\<in>set [0..<16]. \<forall>b\<in>set [0..<16]. nat (push_bit 4 (int a) OR int b) = a * 16 + b"
    by code_simp
  with \<open>a < 16\<close> \<open>b < 16\<close> show ?thesis by simp
qed

lemma length_hex_encode [simp]: "length (hex_encode bs) = 2 * length bs"
  by (induction bs) (simp_all add: hex_encode_def)

lemma hex_decode_pairs_encode: "hex_decode_pairs (hex_encode bs) = Inr bs"
  by (induction bs) (simp_all add: hex_encode_def Let_def)

lemma hex_decode_encode: "hex_decode (hex_encode bs) = Inr bs"
  by (simp add: hex_decode_def hex_decode_pairs_encode)

subsection \<open>URL coding round trips\<close>

text \<open>The run-copying loop decodes one escape or one plain byte at a time.\<close>

lemma url_decode_impl_Nil [simp]: "url_decode_impl [] p = []"
  by (simp add: url_decode_impl.simps)

lemma url_decode_impl_plain [simp]:
  assumes "c \<noteq> CHR ''%''" and "\<not> (p \<and> c = CHR ''+'')"
  shows "url_decode_impl (c # s) p = c # url_decode_impl s p"
proof -
  have run: "scan_url_plain_run (c # s) p = Suc (scan_url_plain_run s p)"
    using assms by (auto simp: scan_url_plain_run_def split: option.splits)
  show ?thesis
  proof (cases "s = []")
    case True
    with run show ?thesis
      by (subst url_decode_impl.simps) (simp add: Let_def scan_url_plain_run_def)
  next
    case False
    with run show ?thesis
      unfolding url_decode_impl.simps [of "c # s" p] url_decode_impl.simps [of s p] Let_def
      by (simp only: if_distrib [of "(#) c"] take_Suc_Cons drop_Suc_Cons append_Cons list.simps(3)
          if_False)
  qed
qed

lemma url_decode_impl_plus [simp]: "url_decode_impl (CHR ''+'' # s) True = CHR '' '' # url_decode_impl s True"
  by (subst url_decode_impl.simps) (simp add: Let_def scan_url_plain_run_def)

lemma url_decode_impl_escape:
  "0 \<le> hex_char_to_int h \<Longrightarrow> 0 \<le> hex_char_to_int l \<Longrightarrow>
   url_decode_impl (CHR ''%'' # h # l # s) p =
     of_byte (nat (push_bit 4 (hex_char_to_int h) OR hex_char_to_int l)) # url_decode_impl s p"
  by (subst url_decode_impl.simps) (simp add: Let_def scan_url_plain_run_def)

lemma url_decode_impl_escape_byte [simp]:
  "url_decode_impl (CHR ''%'' # hex_upper ! (byte c div 16) # hex_upper ! (byte c mod 16) # s) p =
     c # url_decode_impl s p"
  by (simp add: url_decode_impl_escape)

definition url_encoded_byte :: "bool \<Rightarrow> char \<Rightarrow> string" where
  "url_encoded_byte space_as_plus c =
     (if is_url_unreserved c then [c]
      else if space_as_plus \<and> c = CHR '' '' then ''+''
      else [CHR ''%'', hex_upper ! (byte c div 16), hex_upper ! (byte c mod 16)])"

lemma append_url_encoded_impl_eq:
  "append_url_encoded_impl out s p = out @ concat (map (url_encoded_byte p) s)"
  by (induction s arbitrary: out) (simp_all add: url_encoded_byte_def)

lemma unreserved_plain: "is_url_unreserved c \<Longrightarrow> c \<noteq> CHR ''%'' \<and> c \<noteq> CHR ''+''"
  by (auto simp: is_url_unreserved_def char_between_def)

lemma url_decode_impl_encoded_byte:
  "(p \<longrightarrow> q) \<Longrightarrow> url_decode_impl (url_encoded_byte p c @ s) q = c # url_decode_impl s q"
  by (auto simp: url_encoded_byte_def dest: unreserved_plain)

lemma url_decode_impl_encoded:
  "(p \<longrightarrow> q) \<Longrightarrow> url_decode_impl (concat (map (url_encoded_byte p) s)) q = s"
  by (induction s) (simp_all add: url_decode_impl_encoded_byte)

lemma url_form_roundtrip: "url_decode (url_form_encode s) = s"
  by (simp add: url_decode_def url_form_encode_def append_url_form_encoded_def
      append_url_encoded_impl_eq url_decode_impl_encoded)

lemma url_percent_roundtrip: "url_decode (url_percent_encode s) = s"
  by (simp add: url_decode_def url_percent_encode_def append_url_percent_encoded_def
      append_url_encoded_impl_eq url_decode_impl_encoded)

lemma url_path_roundtrip: "url_decode_path (url_percent_encode s) = s"
  by (simp add: url_decode_path_def url_percent_encode_def append_url_percent_encoded_def
      append_url_encoded_impl_eq url_decode_impl_encoded)

lemma length_url_percent_encode: "length (url_percent_encode s) = url_percent_encoded_size s"
  by (induction s)
    (auto simp: url_percent_encode_def append_url_percent_encoded_def
      append_url_encoded_impl_eq url_percent_encoded_size_def url_encoded_byte_def)

lemma length_url_form_encode: "length (url_form_encode s) = url_form_encoded_size s"
  by (induction s)
    (auto simp: url_form_encode_def append_url_form_encoded_def
      append_url_encoded_impl_eq url_form_encoded_size_def url_encoded_byte_def)

text \<open>The output alphabet of the encoders: none of the separators of a query or a path.\<close>

lemma hex_upper_unreserved: "n < 16 \<Longrightarrow> is_url_unreserved (hex_upper ! n)"
proof -
  have "\<forall>n\<in>set [0..<16]. is_url_unreserved (hex_upper ! n)" by code_simp
  then show "n < 16 \<Longrightarrow> ?thesis" by simp
qed

lemma url_encoded_byte_alphabet:
  "x \<in> set (url_encoded_byte p c) \<Longrightarrow> is_url_unreserved x \<or> x = CHR ''%'' \<or> p \<and> x = CHR ''+''"
  by (auto simp: url_encoded_byte_def hex_upper_unreserved split: if_splits)

lemma url_percent_encode_alphabet:
  "x \<in> set (url_percent_encode s) \<Longrightarrow> is_url_unreserved x \<or> x = CHR ''%''"
  by (auto simp: url_percent_encode_def append_url_percent_encoded_def append_url_encoded_impl_eq
      dest: url_encoded_byte_alphabet)

lemma url_form_encode_alphabet:
  "x \<in> set (url_form_encode s) \<Longrightarrow> is_url_unreserved x \<or> x = CHR ''%'' \<or> x = CHR ''+''"
  by (auto simp: url_form_encode_def append_url_form_encoded_def append_url_encoded_impl_eq
      dest: url_encoded_byte_alphabet)

lemma not_unreserved [simp]:
  "\<not> is_url_unreserved CHR ''&''" "\<not> is_url_unreserved CHR ''=''" "\<not> is_url_unreserved CHR ''?''"
  "\<not> is_url_unreserved CHR ''/''" "\<not> is_url_unreserved CHR '' ''" "\<not> is_url_unreserved CHR ''%''"
  "\<not> is_url_unreserved CHR ''+''"
  by (simp_all add: is_url_unreserved_def char_between_def)

text \<open>Text without an escape is decoded to itself: the parsers' borrow-without-copy path.\<close>

lemma url_decode_impl_no_escape:
  "CHR ''%'' \<notin> set s \<Longrightarrow> \<not> (p \<and> CHR ''+'' \<in> set s) \<Longrightarrow> url_decode_impl s p = s"
  by (induction s) auto

lemma url_decode_no_escape: "\<not> url_needs_component_decode s \<Longrightarrow> url_decode s = s"
  by (auto simp: url_decode_def url_needs_component_decode_def sv_find_first_of_def
      index_of_None_iff intro!: url_decode_impl_no_escape)

lemma url_decode_path_no_escape: "\<not> url_needs_path_decode s \<Longrightarrow> url_decode_path s = s"
  by (auto simp: url_decode_path_def url_needs_path_decode_def sv_find_None_iff
      intro!: url_decode_impl_no_escape)

subsection \<open>The coders as codecs\<close>

interpretation hex: codec hex_encode "\<lambda>s. case hex_decode s of Inl _ \<Rightarrow> None | Inr bs \<Rightarrow> Some bs"
  by unfold_locales (simp add: hex_decode_encode)

interpretation url_form: codec url_form_encode "\<lambda>s. Some (url_decode s)"
  by unfold_locales (simp add: url_form_roundtrip)

interpretation url_percent: codec url_percent_encode "\<lambda>s. Some (url_decode_path s)"
  by unfold_locales (simp add: url_path_roundtrip)

subsection \<open>CIDR blocks as sets of addresses with a common prefix\<close>

text \<open>Bit \<open>j\<close> of an address, counted from the most significant bit of the first byte.\<close>

definition ip_bit :: "ip_addr \<Rightarrow> nat \<Rightarrow> bool" where
  "ip_bit a j = bit (a ! (j div 8)) (7 - j mod 8)"

text \<open>What \<open>inet_pton\<close> documents of its result: \<open>n\<close> bytes.\<close>

definition pton_ok :: "nat \<Rightarrow> pton \<Rightarrow> bool" where
  "pton_ok n pton \<longleftrightarrow> (\<forall>s v. pton s = Some v \<longrightarrow> length v = n)"

lemma length_fold_zero [simp]: "length (fold (\<lambda>i a. a[i := z]) is a) = length a"
  by (induction "is" arbitrary: a) simp_all

lemma nth_fold_zero:
  "i < length a \<Longrightarrow> fold (\<lambda>i a. a[i := z]) is a ! i = (if i \<in> set is then z else a ! i)"
  by (induction "is" arbitrary: a) (auto simp: nth_list_update)

lemma length_apply_prefix [simp]: "length (apply_prefix a p) = length a"
  by (simp add: apply_prefix_def Let_def)

lemma nth_apply_prefix:
  assumes "length a = 16" and "i < 16"
  shows "apply_prefix a p ! i =
    (if i < p div 8 then a ! i
     else if i = p div 8 \<and> 0 < p mod 8 then a ! i AND prefix_mask (p mod 8)
     else 0)"
  using assms by (auto simp: apply_prefix_def Let_def nth_fold_zero nth_list_update)

lemma bit_prefix_mask: "r \<le> 8 \<Longrightarrow> bit (prefix_mask r) k \<longleftrightarrow> 8 - r \<le> k \<and> k < 8"
proof -
  assume "r \<le> 8"
  have ff: "(0xFF :: u8) = - 1" by simp
  show ?thesis unfolding prefix_mask_def ff by (auto simp: bit_not_iff bit_mask_iff dest: bit_imp_le_length)
qed

lemma bit_prefix_mask_rev: "r \<le> 8 \<Longrightarrow> t < 8 \<Longrightarrow> bit (prefix_mask r) (7 - t) \<longleftrightarrow> t < r"
  by (auto simp: bit_prefix_mask)

lemma and_mask_eq_iff:
  fixes x y :: u8
  assumes "r \<le> 8"
  shows "x AND prefix_mask r = y AND prefix_mask r \<longleftrightarrow> (\<forall>t<r. bit x (7 - t) = bit y (7 - t))"
proof
  assume e: "x AND prefix_mask r = y AND prefix_mask r"
  show "\<forall>t<r. bit x (7 - t) = bit y (7 - t)"
  proof (intro allI impI)
    fix t assume "t < r"
    have "bit (x AND prefix_mask r) (7 - t) = bit (y AND prefix_mask r) (7 - t)" by (simp add: e)
    with \<open>t < r\<close> assms show "bit x (7 - t) = bit y (7 - t)"
      by (auto simp: bit_and_iff bit_prefix_mask)
  qed
next
  assume *: "\<forall>t<r. bit x (7 - t) = bit y (7 - t)"
  show "x AND prefix_mask r = y AND prefix_mask r"
  proof (rule bit_eqI)
    fix k
    show "bit (x AND prefix_mask r) k = bit (y AND prefix_mask r) k"
      using *[rule_format, of "7 - k"] assms by (auto simp: bit_and_iff bit_prefix_mask)
  qed
qed

lemma byte_eq_iff_bits: "(x :: u8) = y \<longleftrightarrow> (\<forall>t<8. bit x (7 - t) = bit y (7 - t))"
proof -
  have "prefix_mask 8 = (- 1 :: u8)" by (simp add: prefix_mask_def)
  then show ?thesis using and_mask_eq_iff [of 8 x y] by simp
qed

lemma ip_bits_split:
  "(\<forall>j<p. P (j div 8) (j mod 8)) \<longleftrightarrow>
     (\<forall>i<p div 8. \<forall>t<8. P i t) \<and> (\<forall>t<p mod (8::nat). P (p div 8) t)"
proof (intro iffI conjI allI impI)
  assume *: "\<forall>j<p. P (j div 8) (j mod 8)"
  fix i t :: nat assume "i < p div 8" "t < 8"
  then have "8 * i + t < p" by linarith
  with * have "P ((8 * i + t) div 8) ((8 * i + t) mod 8)" by blast
  with \<open>t < 8\<close> show "P i t" by simp
next
  assume *: "\<forall>j<p. P (j div 8) (j mod 8)"
  fix t :: nat assume "t < p mod 8"
  then have "8 * (p div 8) + t < p" using mult_div_mod_eq [of 8 p] by linarith
  have "t < 8" using \<open>t < p mod 8\<close> mod_less_divisor [of 8 p] by linarith
  note \<open>8 * (p div 8) + t < p\<close>
  with * have "P ((8 * (p div 8) + t) div 8) ((8 * (p div 8) + t) mod 8)" by blast
  with \<open>t < 8\<close> show "P (p div 8) t" by simp
next
  assume *: "(\<forall>i<p div 8. \<forall>t<8. P i t) \<and> (\<forall>t<p mod 8. P (p div 8) t)"
  fix j assume "j < p"
  then consider "j div 8 < p div 8" | "j div 8 = p div 8" "j mod 8 < p mod 8"
    by (metis div_le_mono less_le_not_le mod_div_mult_eq nat_add_left_cancel_less
        nat_less_le add.commute)
  then show "P (j div 8) (j mod 8)"
    using * by cases auto
qed

lemma cidr_match_bits:
  assumes "length net = 16" and "plen \<le> 128"
  shows "cidr_match \<lparr>network = apply_prefix net plen, prefix_len = plen\<rparr> ip \<longleftrightarrow>
     (\<forall>j<plen. ip_bit ip j = ip_bit net j)"
proof -
  let ?r = "plen mod 8"
  have full: "plen div 8 < 16" if "0 < ?r"
    using assms(2) that by presburger
  have "cidr_match \<lparr>network = apply_prefix net plen, prefix_len = plen\<rparr> ip \<longleftrightarrow>
      (\<forall>i<plen div 8. ip ! i = net ! i) \<and>
      (0 < ?r \<longrightarrow> ip ! (plen div 8) AND prefix_mask ?r = net ! (plen div 8) AND prefix_mask ?r)"
  proof -
    have "\<forall>i<plen div 8. apply_prefix net plen ! i = net ! i"
      using assms by (auto simp: nth_apply_prefix)
    moreover have "0 < ?r \<Longrightarrow> apply_prefix net plen ! (plen div 8) = net ! (plen div 8) AND prefix_mask ?r"
      using assms full by (simp add: nth_apply_prefix)
    ultimately show ?thesis by (auto simp: cidr_match_def Let_def)
  qed
  also have "\<dots> \<longleftrightarrow> (\<forall>j<plen. ip_bit ip j = ip_bit net j)"
    using and_mask_eq_iff [of ?r "ip ! (plen div 8)" "net ! (plen div 8)"]
    unfolding ip_bit_def ip_bits_split [of plen "\<lambda>i t. bit (ip ! i) (7 - t) = bit (net ! i) (7 - t)"]
    by (auto simp: byte_eq_iff_bits)
  finally show ?thesis .
qed

lemma ip_bit_apply_prefix:
  assumes "length a = 16" and "j < 128"
  shows "ip_bit (apply_prefix a p) j \<longleftrightarrow> j < p \<and> ip_bit a j"
proof -
  have i: "j div 8 < 16" using assms(2) by simp
  show ?thesis
  proof (cases "j div 8 < p div 8")
    case True
    then have "j < p" by (meson div_le_mono leD leI)
    with True i assms show ?thesis by (simp add: ip_bit_def nth_apply_prefix)
  next
    case False
    show ?thesis
    proof (cases "j div 8 = p div 8 \<and> 0 < p mod 8")
      case True
      then have "j < p \<longleftrightarrow> j mod 8 < p mod 8"
        by (metis mod_div_mult_eq nat_add_left_cancel_less add.commute)
      with True i assms show ?thesis
        by (simp add: ip_bit_def nth_apply_prefix bit_and_iff bit_prefix_mask_rev conj_commute)
    next
      case zero: False
      with False have "\<not> j < p" by (metis div_le_mono le_neq_implies_less less_imp_le mod_div_mult_eq
            mod_eq_0_iff_dvd mod_less_eq_dividend nat_less_le neq0_conv not_less add_0 mult.commute
            div_mult_self1_is_m less_mult_imp_div_less)
      with zero False i assms show ?thesis by (auto simp: ip_bit_def nth_apply_prefix)
    qed
  qed
qed

lemma try_pton_length: "pton_ok n pton \<Longrightarrow> try_pton pton s = Some v \<Longrightarrow> length v = n"
  by (auto simp: pton_ok_def try_pton_def split: if_splits)

lemma parse_cidr_shape:
  assumes "pton_ok 4 pton4" and "pton_ok 16 pton6" and "parse_cidr pton4 pton6 s = Some c"
  shows "\<exists>net. network c = apply_prefix net (prefix_len c) \<and> length net = 16 \<and> prefix_len c \<le> 128"
  using assms(3) try_pton_length [OF assms(1)] try_pton_length [OF assms(2)]
  by (auto simp: parse_cidr_def Let_def ipv4_mapped_def split: if_splits option.splits)


subsection \<open>Case mapping and trimming\<close>

lemma lower_char_upper: "char_between CHR ''A'' CHR ''Z'' c \<Longrightarrow> byte (lower_char c) = byte c + 32"
proof -
  assume c: "char_between CHR ''A'' CHR ''Z'' c"
  have "\<forall>n\<in>set [65..<91]. n OR 0x20 = n + (32::nat)" by code_simp
  moreover have "byte c \<in> set [65..<91]" and bound: "byte c + 32 < 256"
    using c by (simp_all add: char_between_def set_upt del: upt_conv_Cons upt_rec_numeral)
  ultimately have "byte c OR 0x20 = byte c + 32" by blast
  with c bound show ?thesis by (simp add: lower_char_def)
qed

lemma lower_char_idem [simp]: "lower_char (lower_char c) = lower_char c"
proof (cases "char_between CHR ''A'' CHR ''Z'' c")
  case True
  then have "\<not> char_between CHR ''A'' CHR ''Z'' (lower_char c)"
    using lower_char_upper [OF True] by (simp add: char_between_def)
  then show ?thesis by (simp add: lower_char_def [of "lower_char c"])
qed (simp add: lower_char_def)

lemma ascii_lower_idem [simp]: "ascii_lower (ascii_lower s) = ascii_lower s"
  by (simp add: ascii_lower_def)

lemma length_ascii_lower [simp]: "length (ascii_lower s) = length s"
  by (simp add: ascii_lower_def)

lemma dropWhile_id: "(xs \<noteq> [] \<Longrightarrow> \<not> P (hd xs)) \<Longrightarrow> dropWhile P xs = xs"
  by (cases xs) auto

lemma trim_with_id:
  "(s \<noteq> [] \<Longrightarrow> \<not> ws (hd s)) \<Longrightarrow> (s \<noteq> [] \<Longrightarrow> \<not> ws (last s)) \<Longrightarrow> trim_with ws s = s"
  by (cases "s = []") (simp_all add: trim_with_def dropWhile_id hd_rev)

lemma trim_with_surround:
  assumes "\<forall>c\<in>set a. ws c" and "\<forall>c\<in>set b. ws c"
  shows "trim_with ws (a @ s @ b) = trim_with ws s"
proof (cases "\<forall>c\<in>set s. ws c")
  case True
  with assms show ?thesis
    by (simp add: trim_with_def dropWhile_eq_Nil_conv [THEN iffD2])
next
  case False
  have "dropWhile ws (a @ s @ b) = dropWhile ws s @ b"
    using assms(1) False by (metis dropWhile_append1 dropWhile_append2)
  moreover have "dropWhile ws (rev b @ rev (dropWhile ws s)) = dropWhile ws (rev (dropWhile ws s))"
    by (rule dropWhile_append2) (use assms(2) in simp)
  ultimately show ?thesis by (simp add: trim_with_def)
qed

lemma trim_with_ends:
  assumes "trim_with ws s \<noteq> []"
  shows "\<not> ws (hd (trim_with ws s))" and "\<not> ws (last (trim_with ws s))"
proof -
  let ?d = "dropWhile ws s"
  from assms have r: "dropWhile ws (rev ?d) \<noteq> []" by (simp add: trim_with_def)
  then show "\<not> ws (last (trim_with ws s))"
    by (simp add: trim_with_def last_rev hd_dropWhile)
  have d: "?d \<noteq> []" using r by (metis dropWhile.simps(1) rev.simps(1))
  have "last (dropWhile ws (rev ?d)) = last (rev ?d)"
    using r by (metis last_appendR takeWhile_dropWhile_id)
  then show "\<not> ws (hd (trim_with ws s))"
    using d by (simp add: trim_with_def hd_rev last_rev hd_dropWhile)
qed

lemma trim_with_idem [simp]: "trim_with ws (trim_with ws s) = trim_with ws s"
  by (rule trim_with_id) (simp_all add: trim_with_ends)

lemma trim_with_subset: "set (trim_with ws s) \<subseteq> set s"
  by (auto simp: trim_with_def dest!: set_dropWhileD)

subsection \<open>Lines\<close>

lemma line_collect_advance:
  "line_collect (line_advance it) =
     (if line_rest it = [] then []
      else line_current (line_advance it) # line_collect (line_advance (line_advance it)))"
  by (subst line_collect.simps) (auto simp: line_advance_def Let_def)

lemma strip_cr_append_cr [simp]: "strip_cr (l @ [CHR 0x0D]) = l"
  by (simp add: strip_cr_def)

text \<open>
  A text written as lines, each ended by LF or CR LF, is read back as those lines with
  their numbers.
\<close>

definition line_terminator :: "bool \<Rightarrow> string" where
  "line_terminator crlf = (if crlf then [CHR 0x0D, CHR 0x0A] else [CHR 0x0A])"

definition line_ok :: "string \<times> bool \<Rightarrow> bool" where
  "line_ok = (\<lambda>(l, crlf). CHR 0x0A \<notin> set l \<and> (crlf \<or> l = [] \<or> last l \<noteq> CHR 0x0D))"

lemma line_collect_written:
  assumes "list_all line_ok ls"
    and "line_rest it = concat (map (\<lambda>(l, crlf). l @ line_terminator crlf) ls)"
  shows "line_collect (line_advance it) =
    map2 (\<lambda>l n. \<lparr>line_text = fst l, line_no = n\<rparr>) ls [next_line_no it..<next_line_no it + length ls]"
  using assms
proof (induction ls arbitrary: it)
  case Nil
  then show ?case by (simp add: line_collect_advance)
next
  case (Cons lc ls)
  obtain l crlf where lc: "lc = (l, crlf)" by fastforce
  let ?tail = "concat (map (\<lambda>(l, crlf). l @ line_terminator crlf) ls)"
  let ?pre = "if crlf then l @ [CHR 0x0D] else l"
  from Cons.prems(1) lc have ok: "CHR 0x0A \<notin> set ?pre" "strip_cr ?pre = l"
    by (auto simp: line_ok_def strip_cr_def)
  from Cons.prems(2) lc have r: "line_rest it = ?pre @ CHR 0x0A # ?tail"
    by (simp add: line_terminator_def)
  have f: "sv_find (line_rest it) CHR 0x0A = Some (length ?pre)"
    unfolding r by (rule sv_find_append_found) (fact ok(1))
  have adv: "line_current (line_advance it) = \<lparr>line_text = l, line_no = next_line_no it\<rparr>"
    "next_line_no (line_advance it) = next_line_no it + 1" "line_rest (line_advance it) = ?tail"
    using f ok(2) by (simp_all add: line_advance_def Let_def r substr_def del: append_Cons append_Nil)
  have "line_collect (line_advance (line_advance it)) =
      map2 (\<lambda>l n. \<lparr>line_text = fst l, line_no = n\<rparr>) ls
        [next_line_no (line_advance it)..<next_line_no (line_advance it) + length ls]"
    by (rule Cons.IH) (use Cons.prems(1) adv(3) in simp_all)
  with adv r lc show ?case
    by (simp add: line_collect_advance [of it] upt_conv_Cons del: upt_Suc)
qed

lemma ip_bit_mapped:
  assumes "length v = 4"
  shows "j < 96 \<Longrightarrow> ip_bit (ipv4_mapped v) j = ip_bit (ipv4_mapped w) j"
    and "j < 32 \<Longrightarrow> ip_bit (ipv4_mapped v) (96 + j) = ip_bit v j"
proof -
  show "ip_bit (ipv4_mapped v) j = ip_bit (ipv4_mapped w) j" if "j < 96"
  proof -
    have "j div 8 < 12" using that by simp
    then have "j div 8 < 10 \<or> j div 8 - 10 = 0 \<or> j div 8 - 10 = 1" by linarith
    then show ?thesis by (auto simp: ip_bit_def ipv4_mapped_def nth_append)
  qed
  show "ip_bit (ipv4_mapped v) (96 + j) = ip_bit v j"
    using mod_mult_self3 [of 12 8 j] by (simp add: ip_bit_def ipv4_mapped_def nth_append div_add1_eq)
qed

lemma mapped_prefix_bits:
  assumes "length v = 4" and "length w = 4" and "n \<le> 32"
  shows "(\<forall>j<96 + n. ip_bit (ipv4_mapped w) j = ip_bit (ipv4_mapped v) j)
    \<longleftrightarrow> (\<forall>j<n. ip_bit w j = ip_bit v j)" (is "?L \<longleftrightarrow> ?R")
proof
  assume ?L
  show ?R
  proof (intro allI impI)
    fix j assume "j < n"
    with \<open>?L\<close> have "ip_bit (ipv4_mapped w) (96 + j) = ip_bit (ipv4_mapped v) (96 + j)" by simp
    with \<open>j < n\<close> assms show "ip_bit w j = ip_bit v j" by (simp add: ip_bit_mapped(2))
  qed
next
  assume R: ?R
  show ?L
  proof (intro allI impI)
    fix j assume j: "j < 96 + n"
    show "ip_bit (ipv4_mapped w) j = ip_bit (ipv4_mapped v) j"
    proof (cases "j < 96")
      case True
      then show ?thesis by (rule ip_bit_mapped(1) [OF assms(2)])
    next
      case False
      then obtain i where "j = 96 + i" by (metis le_iff_add not_less)
      with R j assms show ?thesis by (simp add: ip_bit_mapped(2))
    qed
  qed
qed

lemma parse_cidr_v4:
  assumes "pton4 a = Some v" and "length a < 46" and "n \<le> 32"
    and "set a \<inter> set ''/%[]'' = {}" and "CHR 0x00 \<notin> set a"
  shows "parse_cidr pton4 pton6 (a @ ''/'' @ dec_string n) =
    Some \<lparr>network = apply_prefix (ipv4_mapped v) (96 + n), prefix_len = 96 + n\<rparr>"
proof -
  have find: "sv_find (a @ ''/'' @ dec_string n) CHR ''/'' = Some (length a)"
    using assms(4) by simp
  have strip: "strip_ip_decorators a = a"
    using assms(4) by (cases a) (auto simp: strip_ip_decorators_def Let_def)
  have whole: "takeWhile (\<lambda>c. c \<noteq> CHR 0x00) a = a"
    using assms(5) by (intro takeWhile_eq_all_conv [THEN iffD2]) auto
  have "try_pton pton4 a = Some v"
    using assms(1,2) by (simp add: try_pton_def whole)
  with find strip assms(3) show ?thesis
    by (simp add: parse_cidr_def Let_def substr_def substr_from_def del: append_Cons)
qed

text \<open>
  C13: An IPv4 network \<open>a/n\<close> parses to a 128-bit prefix that admits an IPv4 address exactly
  when the two agree on their first \<open>n\<close> bits. \<open>inet_pton\<close> is a parameter; all that is used
  of it is that it reads the text \<open>a\<close> as the four bytes \<open>v\<close>.
\<close>

theorem ipv4_cidr_match:
  assumes "pton4 a = Some v" and "length v = 4" and "length a < 46" and "n \<le> 32"
    and "set a \<inter> set ''/%[]'' = {}" and "CHR 0x00 \<notin> set a" and "length w = 4"
  shows "\<exists>c. parse_cidr pton4 pton6 (a @ ''/'' @ dec_string n) = Some c \<and> prefix_len c = 96 + n
    \<and> (cidr_match c (ipv4_mapped w) \<longleftrightarrow> (\<forall>j<n. ip_bit w j = ip_bit v j))"
proof -
  have "length (ipv4_mapped v) = 16" using assms(2) by (simp add: ipv4_mapped_def)
  then show ?thesis
    unfolding parse_cidr_v4 [of pton4 a v n pton6, OF assms(1,3-6)]
    using assms mapped_prefix_bits [of v w n]
    by (simp add: cidr_match_bits)
qed

theorem ipv4_cidr_match_witness:
  "\<exists>c. parse_cidr (\<lambda>s. if s = ''10.1.0.0'' then Some [10, 1, 0, 0] else None) (\<lambda>_. None)
      (''10.1.0.0'' @ ''/'' @ dec_string 16) = Some c \<and> prefix_len c = 96 + 16
    \<and> (cidr_match c (ipv4_mapped [10, 1, 7, 9]) \<longleftrightarrow>
        (\<forall>j<16. ip_bit [10, 1, 7, 9] j = ip_bit [10, 1, 0, 0] j))"
  by (rule ipv4_cidr_match [of "\<lambda>s. if s = ''10.1.0.0'' then Some [10, 1, 0, 0] else None"
        "''10.1.0.0''" "[10, 1, 0, 0]" 16 "[10, 1, 7, 9]" "\<lambda>_. None"]) simp_all

text \<open>
  Percent-encoding and form-encoding are lossless: the decoders give back every byte
  string, through \<open>url_decode\<close> or \<open>url_decode_path\<close> as the encoding allows, the encoders
  reserve exactly the size they write, and what they write is made of unreserved
  characters, percent signs and (forms only) plus signs.
\<close>

lemma url_codecs_lossless:
  "url_decode (url_form_encode s) = s \<and> url_decode (url_percent_encode s) = s
   \<and> url_decode_path (url_percent_encode s) = s
   \<and> length (url_percent_encode s) = url_percent_encoded_size s
   \<and> length (url_form_encode s) = url_form_encoded_size s
   \<and> list_all (\<lambda>c. is_url_unreserved c \<or> c = CHR ''%'') (url_percent_encode s)
   \<and> list_all (\<lambda>c. is_url_unreserved c \<or> c = CHR ''%'' \<or> c = CHR ''+'') (url_form_encode s)"
  using url_percent_encode_alphabet [of _ s] url_form_encode_alphabet [of _ s]
  by (auto simp: url_form_roundtrip url_percent_roundtrip url_path_roundtrip
      length_url_percent_encode length_url_form_encode list_all_iff)

lemma byte_hex_lower: "n < 16 \<Longrightarrow> byte (hex_lower ! n) = (if n < 10 then 48 + n else 87 + n)"
proof -
  have "\<forall>n\<in>set [0..<16]. byte (hex_lower ! n) = (if n < 10 then 48 + n else 87 + n)" by code_simp
  then show "n < 16 \<Longrightarrow> ?thesis" by simp
qed

lemma byte_lower_char:
  "byte (lower_char c) = (if char_between CHR ''A'' CHR ''Z'' c then byte c + 32 else byte c)"
  using lower_char_upper [of c] by (simp add: lower_char_def)

lemma hex_value_lower:
  assumes "0 \<le> hex_char_to_int c"
  shows "hex_char_to_int c < 16" and "lower_char c = hex_lower ! nat (hex_char_to_int c)"
proof -
  show small: "hex_char_to_int c < 16"
    by (auto simp: hex_char_to_int_def char_between_def)
  have "byte (lower_char c) = (if nat (hex_char_to_int c) < 10 then 48 + nat (hex_char_to_int c)
      else 87 + nat (hex_char_to_int c))"
    using assms by (auto simp: hex_char_to_int_def byte_lower_char char_between_def split: if_splits)
  also have "\<dots> = byte (hex_lower ! nat (hex_char_to_int c))"
    using small assms by (simp add: byte_hex_lower)
  finally show "lower_char c = hex_lower ! nat (hex_char_to_int c)" by (simp add: byte_eq_iff)
qed

lemma hex_value_of_lower: "hex_char_to_int (lower_char c) = hex_char_to_int c"
  by (auto simp: hex_char_to_int_def byte_lower_char char_between_def)

lemma hex_digits_of_value:
  assumes "n = hex_char_to_int x" and "m = hex_char_to_int y" and "0 \<le> n" and "0 \<le> m"
  shows "[hex_lower ! (byte (of_byte (nat (push_bit 4 n OR m))) div 16),
    hex_lower ! (byte (of_byte (nat (push_bit 4 n OR m))) mod 16)] = [lower_char x, lower_char y]"
proof -
  define a b where "a = nat n" and "b = nat m"
  with assms hex_value_lower [of x] hex_value_lower [of y]
  have ab: "n = int a" "m = int b" "a < 16" "b < 16"
    and low: "lower_char x = hex_lower ! a" "lower_char y = hex_lower ! b"
    by auto
  then have "a * 16 + b < 256" by linarith
  then have "byte (of_byte (nat (push_bit 4 n OR m))) = a * 16 + b"
    using ab by (simp only: nibble_or byte_of_byte)
  with ab low show ?thesis by simp
qed

lemma hex_decode_pairs_lower:
  "even (length s) \<Longrightarrow> hex_decode_pairs s = Inr bs \<Longrightarrow> hex_encode bs = ascii_lower s"
proof (induction s arbitrary: bs rule: hex_decode_pairs.induct)
  case (1 x y s)
  from "1.prems"(2) obtain cs where
    nn: "0 \<le> hex_char_to_int x" "0 \<le> hex_char_to_int y" and cs: "hex_decode_pairs s = Inr cs"
    and bs: "bs = of_byte (nat (push_bit 4 (hex_char_to_int x) OR hex_char_to_int y)) # cs"
    by (auto simp: Let_def split: if_splits sum.splits)
  have "hex_encode cs = ascii_lower s"
    by (rule "1.IH" [OF refl refl]) (use nn cs "1.prems"(1) in auto)
  with hex_digits_of_value [OF refl refl nn] show ?case
    by (simp add: bs hex_encode_def ascii_lower_def)
qed (auto simp: hex_encode_def ascii_lower_def)

lemma hex_decode_pairs_of_lower: "hex_decode_pairs (ascii_lower s) = hex_decode_pairs s"
  by (induction s rule: hex_decode_pairs.induct) (auto simp: ascii_lower_def hex_value_of_lower Let_def)

text \<open>
  \<open>hex_decode\<close> succeeds with \<open>bs\<close> exactly on the hexadecimal spellings of \<open>bs\<close> in
  either case: it inverts \<open>hex_encode\<close>, and rejects odd lengths and other characters.
\<close>

lemma hex_decode_iff: "hex_decode s = Inr bs \<longleftrightarrow> ascii_lower s = hex_encode bs"
proof
  assume "hex_decode s = Inr bs"
  then show "ascii_lower s = hex_encode bs"
    using hex_decode_pairs_lower [of s bs]
    by (auto simp: hex_decode_def even_iff_mod_2_eq_zero split: if_splits)
next
  assume lower: "ascii_lower s = hex_encode bs"
  then have "length s = 2 * length bs" by (metis length_ascii_lower length_hex_encode)
  then show "hex_decode s = Inr bs"
    using hex_decode_pairs_of_lower [of s]
    by (simp add: hex_decode_def lower hex_decode_pairs_encode)
qed

text \<open>
  \<open>LineRange\<close> reads back a text written line by line, whichever of LF and CRLF ends
  each line, and numbers the lines from 1.
\<close>

lemma line_range_written:
  assumes "list_all line_ok ls"
  shows "line_range (concat (map (\<lambda>(l, crlf). l @ line_terminator crlf) ls)) =
    map2 (\<lambda>l n. \<lparr>line_text = fst l, line_no = n\<rparr>) ls [1..<1 + length ls]"
  using line_collect_written [OF assms] by (simp add: line_range_def line_begin_def)

lemma line_range_written_witness:
  "line_range (concat (map (\<lambda>(l, crlf). l @ line_terminator crlf) [(''a: 1'', True), ('''', False), (''b'', False)])) =
    map2 (\<lambda>l n. \<lparr>line_text = fst l, line_no = n\<rparr>)
      [(''a: 1'', True), ('''', False), (''b'', False)] [1..<1 + length [(''a: 1'', True), ('''', False), (''b'', False)]]"
  by (rule line_range_written) (simp add: line_ok_def)

text \<open>
  The xoshiro256** generator never reaches the all-zero state, in which it would only
  produce zeros: not from any seed words, and not after any number of random bytes; and
  \<open>fast_random_bytes\<close> fills exactly the buffer it is given.
\<close>

lemma fast_random_bytes_ok:
  "xoshiro_live (snd (fast_random_bytes n (xoshiro_seed a b c d)))
   \<and> length (fst (fast_random_bytes n (xoshiro_seed a b c d))) = n"
  using fast_random_bytes_live [OF xoshiro_seed_live] by blast

end
