(* ===== verification/Support.thy ===== *)
theory Support
  imports Utils "HOL-Library.AList"
begin

unbundle bit_operations_syntax

text \<open>
  Models namespace \<open>conflux::support\<close> of \<open>src/types_api.cxx\<close>: the FNV-1a hashes, the
  path-component iterator and \<open>StringLruMap\<close>, the least-recently-used map behind the
  rate limiter and the response cache.

  A \<open>std::unordered_map\<close> is an association list with distinct keys. The list iterator
  kept in an entry of \<open>StringLruMap\<close> points at the node that holds the entry's key, so it
  is represented by the key itself. A pointer to a value handed to the caller is the value
  together with \<open>lru_store\<close>, the write through that pointer.
\<close>

section \<open>FNV-1a\<close>

definition fnv1a64_step :: "u64 \<Rightarrow> nat \<Rightarrow> u64" where
  "fnv1a64_step hash b = (hash XOR of_nat b) * 1099511628211"

definition fnv1a64 :: "string \<Rightarrow> u64" where
  "fnv1a64 value = foldl (\<lambda>h c. fnv1a64_step h (byte c)) 14695981039346656037 value"

definition fnv1a64_ascii_fold :: "string \<Rightarrow> u64" where
  "fnv1a64_ascii_fold value =
     foldl (\<lambda>h c. fnv1a64_step h
              (if char_between CHR ''A'' CHR ''Z'' c then byte c + 32 else byte c))
       14695981039346656037 value"

section \<open>Path components\<close>

text \<open>
  The callback sees each component in turn and may stop the walk; its captured state is
  threaded through. A trailing slash adds no empty component.
\<close>

function for_each_path_component ::
    "('s \<Rightarrow> string \<Rightarrow> bool \<times> 's) \<Rightarrow> string \<Rightarrow> 's \<Rightarrow> bool \<times> 's" where
  "for_each_path_component fn path st =
     (if path = [] then (True, st)
      else case sv_find path CHR ''/'' of
             None \<Rightarrow> fn st path
           | Some i \<Rightarrow>
               (case fn st (take i path) of
                  (False, st') \<Rightarrow> (False, st')
                | (True, st') \<Rightarrow> for_each_path_component fn (drop (i + 1) path) st'))"
  by pat_completeness auto
termination
  by (relation "measure (\<lambda>(fn, path, st). length path)") (auto dest: sv_find_less)

declare for_each_path_component.simps [simp del]

section \<open>The LRU map\<close>

record 'v lru =
  lru_max :: nat
  lru_order :: "string list"
  lru_entries :: "(string \<times> 'v) list"

definition lru_new :: "nat \<Rightarrow> 'v lru" where
  "lru_new max_entries = \<lparr>lru_max = max max_entries 1, lru_order = [], lru_entries = []\<rparr>"

definition lru_size :: "'v lru \<Rightarrow> nat" where
  "lru_size m = length (lru_entries m)"

text \<open>\<open>order_.splice(order_.end(), order_, it)\<close>\<close>

definition move_to_back :: "string \<Rightarrow> string list \<Rightarrow> string list" where
  "move_to_back k ks = remove1 k ks @ [k]"

definition lru_find :: "string \<Rightarrow> 'v lru \<Rightarrow> 'v option \<times> 'v lru" where
  "lru_find k m =
     (case map_of (lru_entries m) k of
        None \<Rightarrow> (None, m)
      | Some v \<Rightarrow> (Some v, m\<lparr>lru_order := move_to_back k (lru_order m)\<rparr>))"

definition lru_store :: "string \<Rightarrow> 'v \<Rightarrow> 'v lru \<Rightarrow> 'v lru" where
  "lru_store k v m = m\<lparr>lru_entries := AList.update k v (lru_entries m)\<rparr>"

record 'v touch_result =
  touch_value :: 'v
  inserted :: bool
  evicted :: bool

text \<open>
  \<open>order_.front()\<close> of an empty list is undefined behaviour; the model leaves the map
  unchanged there and the invariant below excludes the case.
\<close>

definition drop_front :: "'v lru \<Rightarrow> 'v lru" where
  "drop_front m =
     (case lru_order m of
        [] \<Rightarrow> m
      | f # fs \<Rightarrow> m\<lparr>lru_entries := AList.delete f (lru_entries m), lru_order := fs\<rparr>)"

definition lru_get_or_create :: "string \<Rightarrow> 'v \<Rightarrow> 'v lru \<Rightarrow> 'v touch_result \<times> 'v lru" where
  "lru_get_or_create k made m =
     (case lru_find k m of
        (Some v, m') \<Rightarrow> (\<lparr>touch_value = v, inserted = False, evicted = False\<rparr>, m')
      | (None, m') \<Rightarrow>
          (let full = lru_max m' \<le> lru_size m';
               m1 = (if full then drop_front m' else m')
           in (\<lparr>touch_value = made, inserted = True, evicted = full\<rparr>,
               m1\<lparr>lru_order := lru_order m1 @ [k], lru_entries := AList.update k made (lru_entries m1)\<rparr>)))"

definition lru_erase :: "string \<Rightarrow> 'v lru \<Rightarrow> bool \<times> 'v lru" where
  "lru_erase k m =
     (case map_of (lru_entries m) k of
        None \<Rightarrow> (False, m)
      | Some _ \<Rightarrow>
          (True, m\<lparr>lru_order := remove1 k (lru_order m), lru_entries := AList.delete k (lru_entries m)\<rparr>))"

definition lru_clear :: "'v lru \<Rightarrow> 'v lru" where
  "lru_clear m = m\<lparr>lru_order := [], lru_entries := []\<rparr>"

text \<open>The result is whether something was evicted, and the pair the callback saw.\<close>

definition lru_evict_lru :: "'v lru \<Rightarrow> bool \<times> (string \<times> 'v) option \<times> 'v lru" where
  "lru_evict_lru m =
     (case lru_order m of
        [] \<Rightarrow> (False, None, m)
      | f # fs \<Rightarrow>
          (case map_of (lru_entries m) f of
             None \<Rightarrow> (True, None, m\<lparr>lru_order := fs\<rparr>)
           | Some v \<Rightarrow>
               (True, Some (f, v),
                m\<lparr>lru_order := remove1 f (lru_order m), lru_entries := AList.delete f (lru_entries m)\<rparr>)))"

definition lru_insert_or_assign :: "string \<Rightarrow> 'v \<Rightarrow> 'v lru \<Rightarrow> 'v lru" where
  "lru_insert_or_assign k v m =
     (case map_of (lru_entries m) k of
        Some _ \<Rightarrow>
          m\<lparr>lru_entries := AList.update k v (lru_entries m), lru_order := move_to_back k (lru_order m)\<rparr>
      | None \<Rightarrow>
          (let m1 = (if lru_max m \<le> lru_size m then snd (snd (lru_evict_lru m)) else m)
           in m1\<lparr>lru_order := lru_order m1 @ [k], lru_entries := AList.update k v (lru_entries m1)\<rparr>))"

text \<open>The loop of \<open>erase_if\<close> over the recency list: kept keys, erased keys' count, entries.\<close>

fun erase_if_loop ::
    "(string \<Rightarrow> 'v \<Rightarrow> bool) \<Rightarrow> string list \<Rightarrow> (string \<times> 'v) list
       \<Rightarrow> string list \<times> (string \<times> 'v) list \<times> nat" where
  "erase_if_loop pred [] es = ([], es, 0)"
| "erase_if_loop pred (k # ks) es =
     (case map_of es k of
        None \<Rightarrow> erase_if_loop pred ks es
      | Some v \<Rightarrow>
          (if \<not> pred k v then
             (case erase_if_loop pred ks es of (ks', es', n) \<Rightarrow> (k # ks', es', n))
           else
             (case erase_if_loop pred ks (AList.delete k es) of
                (ks', es', n) \<Rightarrow> (ks', es', Suc n))))"

definition lru_erase_if :: "(string \<Rightarrow> 'v \<Rightarrow> bool) \<Rightarrow> 'v lru \<Rightarrow> nat \<times> 'v lru" where
  "lru_erase_if pred m =
     (case erase_if_loop pred (lru_order m) (lru_entries m) of
        (ks, es, n) \<Rightarrow> (n, m\<lparr>lru_order := ks, lru_entries := es\<rparr>))"

text \<open>
  The invariant: the recency list holds each key exactly once, and there are never more
  entries than the limit.
\<close>

definition lru_inv :: "'v lru \<Rightarrow> bool" where
  "lru_inv m \<longleftrightarrow>
     1 \<le> lru_max m \<and> distinct (lru_order m) \<and> distinct (map fst (lru_entries m))
     \<and> set (lru_order m) = fst ` set (lru_entries m) \<and> length (lru_entries m) \<le> lru_max m"

section \<open>Facts about the LRU map\<close>

datatype 'v lru_cmd =
    LFind string
  | LStore string 'v
  | LGetOrCreate string 'v
  | LErase string
  | LClear
  | LEvict
  | LInsertOrAssign string 'v
  | LEraseIf "string \<Rightarrow> 'v \<Rightarrow> bool"

text \<open>A write through a value pointer happens only while the key is present.\<close>

fun lru_exec :: "'v lru_cmd \<Rightarrow> 'v lru \<Rightarrow> 'v lru" where
  "lru_exec (LFind k) m = snd (lru_find k m)"
| "lru_exec (LStore k v) m = (if map_of (lru_entries m) k = None then m else lru_store k v m)"
| "lru_exec (LGetOrCreate k v) m = snd (lru_get_or_create k v m)"
| "lru_exec (LErase k) m = snd (lru_erase k m)"
| "lru_exec LClear m = lru_clear m"
| "lru_exec LEvict m = snd (snd (lru_evict_lru m))"
| "lru_exec (LInsertOrAssign k v) m = lru_insert_or_assign k v m"
| "lru_exec (LEraseIf p) m = snd (lru_erase_if p m)"

text \<open>
  The contract: a list of key/value pairs from least to most recently used, without
  duplicate keys, that never outgrows the limit.
\<close>

type_synonym 'v recency = "(string \<times> 'v) list"

definition spec_without :: "string \<Rightarrow> 'v recency \<Rightarrow> 'v recency" where
  "spec_without k xs = filter (\<lambda>p. fst p \<noteq> k) xs"

definition spec_insert :: "nat \<Rightarrow> string \<Rightarrow> 'v \<Rightarrow> 'v recency \<Rightarrow> 'v recency" where
  "spec_insert lim k v xs = (if lim \<le> length xs then tl xs else xs) @ [(k, v)]"

fun spec_exec :: "nat \<Rightarrow> 'v lru_cmd \<Rightarrow> 'v recency \<Rightarrow> 'v recency" where
  "spec_exec lim (LFind k) xs =
     (case map_of xs k of None \<Rightarrow> xs | Some v \<Rightarrow> spec_without k xs @ [(k, v)])"
| "spec_exec lim (LStore k v) xs = map (\<lambda>p. if fst p = k then (k, v) else p) xs"
| "spec_exec lim (LGetOrCreate k v) xs =
     (case map_of xs k of None \<Rightarrow> spec_insert lim k v xs | Some u \<Rightarrow> spec_without k xs @ [(k, u)])"
| "spec_exec lim (LErase k) xs = spec_without k xs"
| "spec_exec lim LClear xs = []"
| "spec_exec lim LEvict xs = tl xs"
| "spec_exec lim (LInsertOrAssign k v) xs =
     (case map_of xs k of None \<Rightarrow> spec_insert lim k v xs | Some _ \<Rightarrow> spec_without k xs @ [(k, v)])"
| "spec_exec lim (LEraseIf p) xs = filter (\<lambda>(k, v). \<not> p k v) xs"

definition recency_of :: "'v lru \<Rightarrow> 'v recency" where
  "recency_of m = map (\<lambda>k. (k, the (map_of (lru_entries m) k))) (lru_order m)"

lemma lru_inv_new: "lru_inv (lru_new n)"
  by (simp add: lru_inv_def lru_new_def)

lemma distinct_map_fst_update:
  "distinct (map fst es) \<Longrightarrow> distinct (map fst (AList.update k v es))"
  by (rule distinct_update)

lemma distinct_map_fst_delete:
  "distinct (map fst es) \<Longrightarrow> distinct (map fst (AList.delete k es))"
  by (rule distinct_delete)

lemma fst_image_update: "fst ` set (AList.update k v es) = insert k (fst ` set es)"
  using dom_update [of k v es] by (simp add: dom_map_of_conv_image_fst)

lemma fst_image_delete: "fst ` set (AList.delete k es) = fst ` set es - {k}"
  by (metis delete_keys list.set_map set_removeAll)

lemma length_delete_present:
  "distinct (map fst es) \<Longrightarrow> k \<in> fst ` set es \<Longrightarrow> Suc (length (AList.delete k es)) = length es"
proof (induction es)
  case (Cons e es)
  show ?case
  proof (cases "fst e = k")
    case True
    with Cons.prems have "AList.delete k es = es"
      by (auto simp: delete_idem)
    with True show ?thesis by (cases e) simp
  next
    case False
    with Cons show ?thesis by (cases e) auto
  qed
qed simp

lemma length_update_present: "k \<in> fst ` set es \<Longrightarrow> length (AList.update k v es) = length es"
  by (induction es) auto

lemma length_update_absent: "k \<notin> fst ` set es \<Longrightarrow> length (AList.update k v es) = Suc (length es)"
  by (induction es) auto

lemmas alist_simps = fst_image_update fst_image_delete length_update_present length_update_absent
  distinct_map_fst_update distinct_map_fst_delete

lemma distinct_move_to_back: "distinct ks \<Longrightarrow> distinct (move_to_back k ks)"
  by (simp add: move_to_back_def)

lemma move_to_back_set: "distinct ks \<Longrightarrow> k \<in> set ks \<Longrightarrow> set (move_to_back k ks) = set ks"
  by (auto simp: move_to_back_def)

lemma present_iff: "map_of es k = Some v \<Longrightarrow> k \<in> fst ` set es"
  by (force dest: map_of_SomeD)

lemma lru_inv_find [inv_intros]: "lru_inv m \<Longrightarrow> lru_inv (snd (lru_find k m))"
  by (auto simp: lru_inv_def lru_find_def move_to_back_set distinct_move_to_back present_iff
      split: option.splits)

lemma lru_inv_store [inv_intros]:
  "lru_inv m \<Longrightarrow> map_of (lru_entries m) k = Some u \<Longrightarrow> lru_inv (lru_store k v m)"
  by (auto simp: lru_inv_def lru_store_def alist_simps present_iff insert_absorb)

lemma lru_inv_nonempty:
  "lru_inv m \<Longrightarrow> lru_max m \<le> lru_size m \<Longrightarrow> \<exists>f fs. lru_order m = f # fs"
  by (cases "lru_order m") (auto simp: lru_inv_def lru_size_def)

lemma lru_inv_drop_front:
  assumes "lru_inv m" "lru_order m = f # fs"
  shows "lru_inv (drop_front m)" and "Suc (lru_size (drop_front m)) = lru_size m"
    and "lru_order (drop_front m) = fs" and "lru_max (drop_front m) = lru_max m"
    and "lru_entries (drop_front m) = AList.delete f (lru_entries m)"
proof -
  have f: "f \<in> fst ` set (lru_entries m)"
    using assms by (auto simp: lru_inv_def)
  have len: "Suc (length (AList.delete f (lru_entries m))) = length (lru_entries m)"
    using f assms(1) by (intro length_delete_present) (simp_all add: lru_inv_def)
  show "lru_inv (drop_front m)"
    using assms f len by (auto simp: lru_inv_def drop_front_def alist_simps)
  show "Suc (lru_size (drop_front m)) = lru_size m"
    using assms len by (simp add: drop_front_def lru_size_def)
qed (use assms in \<open>simp_all add: drop_front_def\<close>)

lemma lru_evict_drop_front:
  "lru_inv m \<Longrightarrow> lru_order m = f # fs \<Longrightarrow>
     lru_evict_lru m = (True, Some (f, the (map_of (lru_entries m) f)), drop_front m)"
  by (auto simp: lru_inv_def lru_evict_lru_def drop_front_def map_of_eq_None_iff
      split: option.splits)

text \<open>Appending a new key once there is room.\<close>

definition lru_push :: "string \<Rightarrow> 'v \<Rightarrow> 'v lru \<Rightarrow> 'v lru" where
  "lru_push k v m = m\<lparr>lru_order := lru_order m @ [k], lru_entries := AList.update k v (lru_entries m)\<rparr>"

lemma lru_inv_push:
  "lru_inv m \<Longrightarrow> map_of (lru_entries m) k = None \<Longrightarrow> lru_size m < lru_max m \<Longrightarrow> lru_inv (lru_push k v m)"
  by (auto simp: lru_inv_def lru_push_def lru_size_def alist_simps map_of_eq_None_iff)

definition lru_make_room :: "'v lru \<Rightarrow> 'v lru" where
  "lru_make_room m = (if lru_max m \<le> lru_size m then drop_front m else m)"

lemma lru_make_room:
  assumes "lru_inv m"
  shows "lru_inv (lru_make_room m)" and "lru_size (lru_make_room m) < lru_max (lru_make_room m)"
    and "map_of (lru_entries m) k = None \<Longrightarrow> map_of (lru_entries (lru_make_room m)) k = None"
proof -
  have max: "lru_size m \<le> lru_max m" using assms by (simp add: lru_inv_def lru_size_def)
  have shrink: "lru_size (drop_front m) < lru_size m" if "lru_max m \<le> lru_size m"
    using lru_inv_nonempty [OF assms that] lru_inv_drop_front(2) [OF assms] by (metis lessI)
  show "lru_inv (lru_make_room m)" "lru_size (lru_make_room m) < lru_max (lru_make_room m)"
    using assms lru_inv_nonempty [OF assms] max shrink
    by (auto simp: lru_make_room_def lru_inv_drop_front)
  show "map_of (lru_entries m) k = None \<Longrightarrow> map_of (lru_entries (lru_make_room m)) k = None"
    by (auto simp: lru_make_room_def drop_front_def map_of_delete fun_upd_def delete_conv
        split: list.splits)
qed

lemma lru_get_or_create_push:
  "map_of (lru_entries m) k = None \<Longrightarrow>
     snd (lru_get_or_create k v m) = lru_push k v (lru_make_room m)"
  by (simp add: lru_get_or_create_def lru_find_def lru_push_def lru_make_room_def Let_def)

lemma lru_insert_push:
  "lru_inv m \<Longrightarrow> map_of (lru_entries m) k = None \<Longrightarrow>
     lru_insert_or_assign k v m = lru_push k v (lru_make_room m)"
  using lru_inv_nonempty [of m]
  by (auto simp: lru_insert_or_assign_def lru_push_def lru_make_room_def Let_def lru_evict_drop_front)

lemma lru_inv_get_or_create [inv_intros]:
  assumes "lru_inv m" shows "lru_inv (snd (lru_get_or_create k v m))"
proof (cases "map_of (lru_entries m) k")
  case None
  with assms show ?thesis
    by (simp add: lru_get_or_create_push lru_inv_push lru_make_room)
next
  case (Some u)
  then have "snd (lru_get_or_create k v m) = snd (lru_find k m)"
    by (simp add: lru_get_or_create_def lru_find_def)
  with assms show ?thesis by (simp add: lru_inv_find)
qed

lemma lru_inv_insert_or_assign [inv_intros]:
  assumes "lru_inv m" shows "lru_inv (lru_insert_or_assign k v m)"
proof (cases "map_of (lru_entries m) k")
  case None
  with assms show ?thesis
    by (simp add: lru_insert_push lru_inv_push lru_make_room)
next
  case (Some u)
  with assms show ?thesis
    by (auto simp: lru_insert_or_assign_def lru_inv_def alist_simps present_iff move_to_back_set
        distinct_move_to_back insert_absorb)
qed

lemma lru_inv_erase [inv_intros]: "lru_inv m \<Longrightarrow> lru_inv (snd (lru_erase k m))"
  using length_delete_present [of "lru_entries m" k]
  by (auto simp: lru_inv_def lru_erase_def alist_simps present_iff split: option.splits)

lemma lru_inv_clear [inv_intros]: "lru_inv m \<Longrightarrow> lru_inv (lru_clear m)"
  by (simp add: lru_inv_def lru_clear_def)

lemma lru_inv_evict [inv_intros]: "lru_inv m \<Longrightarrow> lru_inv (snd (snd (lru_evict_lru m)))"
  by (cases "lru_order m") (simp_all add: lru_evict_drop_front lru_inv_drop_front, simp add: lru_evict_lru_def)


lemma erase_if_loop_eq:
  assumes "distinct (map fst es)" and "distinct ks" and "set ks \<subseteq> fst ` set es"
  shows "erase_if_loop p ks es =
    (filter (\<lambda>k. \<not> p k (the (map_of es k))) ks,
     filter (\<lambda>e. \<not> (fst e \<in> set ks \<and> p (fst e) (snd e))) es,
     length (filter (\<lambda>k. p k (the (map_of es k))) ks))"
  using assms
proof (induction p ks es rule: erase_if_loop.induct)
  case (1 p es)
  then show ?case by simp
next
  case (2 p k ks es)
  from "2.prems"(3) obtain v where v: "map_of es k = Some v"
    by (metis insert_subset list.simps(15) map_of_eq_None_iff not_None_eq)
  have uniq: "snd e = v" if "e \<in> set es" "fst e = k" for e
    using that v "2.prems"(1) by (metis map_of_eq_Some_iff option.inject prod.collapse)
  show ?case
  proof (cases "p k v")
    case False
    have "filter (\<lambda>e. \<not> (fst e \<in> set ks \<and> p (fst e) (snd e))) es =
        filter (\<lambda>e. \<not> (fst e \<in> set (k # ks) \<and> p (fst e) (snd e))) es"
      using uniq False by (intro filter_cong) auto
    with 2 v False show ?thesis by simp
  next
    case True
    let ?del = "AList.delete k es"
    have del: "?del = filter (\<lambda>e. fst e \<noteq> k) es" by (auto simp: AList.delete_eq case_prod_unfold intro!: filter_cong)
    have m: "map_of ?del x = map_of es x" if "x \<in> set ks" for x
      using that "2.prems"(2) by (auto simp: delete_conv')
    have "erase_if_loop p ks ?del =
        (filter (\<lambda>x. \<not> p x (the (map_of ?del x))) ks,
         filter (\<lambda>e. \<not> (fst e \<in> set ks \<and> p (fst e) (snd e))) ?del,
         length (filter (\<lambda>x. p x (the (map_of ?del x))) ks))"
      by (rule "2.IH"(3) [OF v])
        (use "2.prems" True in \<open>auto simp: alist_simps\<close>)
    moreover have "filter (\<lambda>e. \<not> (fst e \<in> set ks \<and> p (fst e) (snd e))) ?del =
        filter (\<lambda>e. \<not> (fst e \<in> set (k # ks) \<and> p (fst e) (snd e))) es"
      using uniq True unfolding del by (auto intro!: filter_cong)
    ultimately show ?thesis
      using v True m by (simp cong: filter_cong)
  qed
qed

lemma lru_inv_map_of:
  "lru_inv m \<Longrightarrow> (k, v) \<in> set (lru_entries m) \<longleftrightarrow> map_of (lru_entries m) k = Some v"
  by (simp add: lru_inv_def map_of_eq_Some_iff)

lemma lru_erase_if_eq:
  assumes "lru_inv m"
  shows "snd (lru_erase_if p m) =
    m\<lparr>lru_order := filter (\<lambda>k. \<not> p k (the (map_of (lru_entries m) k))) (lru_order m),
      lru_entries := filter (\<lambda>e. \<not> p (fst e) (snd e)) (lru_entries m)\<rparr>"
proof -
  have "filter (\<lambda>e. \<not> (fst e \<in> set (lru_order m) \<and> p (fst e) (snd e))) (lru_entries m) =
      filter (\<lambda>e. \<not> p (fst e) (snd e)) (lru_entries m)"
    using assms by (intro filter_cong) (auto simp: lru_inv_def)
  with assms show ?thesis
    by (simp add: lru_erase_if_def erase_if_loop_eq lru_inv_def)
qed

lemma distinct_map_fst_filter: "distinct (map fst es) \<Longrightarrow> distinct (map fst (filter P es))"
  by (induction es) auto

lemma lru_inv_erase_if [inv_intros]:
  assumes "lru_inv m" shows "lru_inv (snd (lru_erase_if p m))"
proof -
  have the_of: "the (map_of (lru_entries m) (fst e)) = snd e" if "e \<in> set (lru_entries m)" for e
    using that assms lru_inv_map_of [of m "fst e" "snd e"] by simp
  have "{k \<in> set (lru_order m). \<not> p k (the (map_of (lru_entries m) k))} =
      fst ` {e \<in> set (lru_entries m). \<not> p (fst e) (snd e)}"
    using assms the_of by (auto simp: lru_inv_def image_iff)
  moreover have "length (filter (\<lambda>e. \<not> p (fst e) (snd e)) (lru_entries m)) \<le> lru_max m"
    using assms by (meson length_filter_le le_trans lru_inv_def)
  ultimately show ?thesis
    using assms unfolding lru_erase_if_eq [OF assms]
    by (auto simp: lru_inv_def distinct_map_fst_filter)
qed

lemma lru_inv_exec: "lru_inv m \<Longrightarrow> lru_inv (lru_exec c m)"
  by (cases c) (auto intro: inv_intros)

subsection \<open>Refinement of the recency list\<close>

lemma map_of_recency:
  assumes "lru_inv m" shows "map_of (recency_of m) k = map_of (lru_entries m) k"
proof (cases "k \<in> set (lru_order m)")
  case True
  with assms obtain v where "map_of (lru_entries m) k = Some v"
    by (metis lru_inv_def map_of_eq_None_iff not_None_eq)
  with True show ?thesis
    by (simp add: recency_of_def map_of_map_restrict)
next
  case False
  with assms have "map_of (lru_entries m) k = None"
    by (auto simp: lru_inv_def map_of_eq_None_iff)
  with False show ?thesis
    by (simp add: recency_of_def map_of_map_restrict)
qed

lemma length_recency: "lru_inv m \<Longrightarrow> length (recency_of m) = lru_size m"
  using distinct_card [of "lru_order m"] distinct_card [of "map fst (lru_entries m)"]
  by (simp add: lru_inv_def recency_of_def lru_size_def)

lemma recency_without:
  assumes "lru_inv m"
  shows "map (\<lambda>k. (k, the (map_of (lru_entries m) k))) (remove1 a (lru_order m)) = spec_without a (recency_of m)"
proof -
  have "remove1 a (lru_order m) = filter ((\<noteq>) a) (lru_order m)"
    using assms by (simp add: lru_inv_def distinct_remove1_removeAll removeAll_filter_not_eq)
  then show ?thesis
    by (simp add: spec_without_def recency_of_def filter_map o_def neq_commute)
qed

lemma recency_find:
  assumes "lru_inv m"
  shows "recency_of (snd (lru_find k m)) =
    (case map_of (recency_of m) k of None \<Rightarrow> recency_of m
     | Some v \<Rightarrow> spec_without k (recency_of m) @ [(k, v)])"
  unfolding map_of_recency [OF assms]
  by (auto simp: lru_find_def recency_of_def move_to_back_def recency_without [OF assms, unfolded recency_of_def]
      split: option.splits)

lemma map_of_update_other: "a \<noteq> k \<Longrightarrow> map_of (AList.update k v es) a = map_of es a"
  by (simp add: update_conv')

lemma recency_push:
  assumes "lru_inv m" and "map_of (lru_entries m) k = None"
  shows "recency_of (lru_push k v m) = recency_of m @ [(k, v)]"
proof -
  have "k \<notin> set (lru_order m)"
    using assms by (auto simp: lru_inv_def map_of_eq_None_iff)
  then show ?thesis
    by (auto simp: recency_of_def lru_push_def update_conv')
qed

lemma recency_drop_front:
  assumes "lru_inv m" and "lru_order m = f # fs"
  shows "recency_of (drop_front m) = tl (recency_of m)"
  using assms by (auto simp: recency_of_def drop_front_def delete_conv' lru_inv_def)

lemma recency_make_room:
  assumes "lru_inv m"
  shows "recency_of (lru_make_room m) =
    (if lru_max m \<le> length (recency_of m) then tl (recency_of m) else recency_of m)"
  using assms lru_inv_nonempty [OF assms]
  by (auto simp: lru_make_room_def length_recency recency_drop_front)

lemma recency_insert:
  assumes "lru_inv m" and "map_of (lru_entries m) k = None"
  shows "recency_of (lru_push k v (lru_make_room m)) = spec_insert (lru_max m) k v (recency_of m)"
  using assms by (simp add: recency_push lru_make_room recency_make_room spec_insert_def)

lemma recency_erase:
  assumes "lru_inv m" shows "recency_of (snd (lru_erase k m)) = spec_without k (recency_of m)"
proof (cases "map_of (lru_entries m) k")
  case None
  then have "k \<notin> fst ` set (recency_of m)"
    by (metis map_of_recency [OF assms] map_of_eq_None_iff)
  with None show ?thesis
    by (auto simp: lru_erase_def spec_without_def intro!: filter_True [symmetric])
next
  case (Some v)
  have "recency_of (snd (lru_erase k m)) =
      map (\<lambda>k. (k, the (map_of (lru_entries m) k))) (remove1 k (lru_order m))"
    using Some assms by (auto simp: lru_erase_def recency_of_def delete_conv' lru_inv_def)
  then show ?thesis by (simp add: recency_without [OF assms])
qed

lemma recency_assign:
  assumes "lru_inv m" and "map_of (lru_entries m) k = Some u"
  shows "recency_of (lru_insert_or_assign k v m) = spec_without k (recency_of m) @ [(k, v)]"
proof -
  have k: "k \<notin> set (remove1 k (lru_order m))" using assms by (simp add: lru_inv_def)
  then have "map (\<lambda>x. (x, the (map_of (AList.update k v (lru_entries m)) x))) (remove1 k (lru_order m)) =
      map (\<lambda>x. (x, the (map_of (lru_entries m) x))) (remove1 k (lru_order m))"
    by (auto simp: update_conv')
  then show ?thesis
    using assms by (simp add: lru_insert_or_assign_def recency_of_def move_to_back_def update_conv'
        recency_without [OF assms(1), unfolded recency_of_def])
qed

lemma recency_store:
  assumes "lru_inv m"
  shows "recency_of (if map_of (lru_entries m) k = None then m else lru_store k v m) =
    map (\<lambda>p. if fst p = k then (k, v) else p) (recency_of m)"
proof (cases "map_of (lru_entries m) k")
  case None
  with assms have "k \<notin> set (lru_order m)" by (simp add: lru_inv_def map_of_eq_None_iff)
  with None show ?thesis by (auto simp: recency_of_def)
next
  case (Some u)
  then show ?thesis by (simp add: recency_of_def lru_store_def update_conv')
qed

lemma recency_erase_if:
  assumes "lru_inv m"
  shows "recency_of (snd (lru_erase_if p m)) = filter (\<lambda>(k, v). \<not> p k v) (recency_of m)"
proof -
  have "map_of (filter (\<lambda>e. \<not> p (fst e) (snd e)) (lru_entries m)) k = map_of (lru_entries m) k"
    if k: "k \<in> set (lru_order m)" "\<not> p k (the (map_of (lru_entries m) k))" for k
  proof -
    from k(1) assms obtain v where v: "map_of (lru_entries m) k = Some v"
      by (metis lru_inv_def map_of_eq_None_iff not_None_eq)
    with k(2) assms have "(k, v) \<in> set (filter (\<lambda>e. \<not> p (fst e) (snd e)) (lru_entries m))"
      by (simp add: lru_inv_map_of)
    moreover have "distinct (map fst (filter (\<lambda>e. \<not> p (fst e) (snd e)) (lru_entries m)))"
      using assms by (simp add: lru_inv_def distinct_map_fst_filter)
    ultimately show ?thesis using v by (simp add: map_of_eq_Some_iff)
  qed
  then show ?thesis
    by (auto simp: recency_of_def lru_erase_if_eq [OF assms] filter_map o_def intro!: map_cong)
qed

lemma lru_max_exec: "lru_max (lru_exec c m) = lru_max m"
  by (cases c) (auto simp: lru_find_def lru_store_def lru_get_or_create_def lru_erase_def lru_clear_def
      lru_evict_lru_def lru_insert_or_assign_def lru_erase_if_def drop_front_def Let_def
      split: option.splits list.splits prod.splits)

lemma recency_exec:
  assumes "lru_inv m"
  shows "recency_of (lru_exec c m) = spec_exec (lru_max m) c (recency_of m)"
proof (cases c)
  case (LStore k v)
  with assms show ?thesis by (simp add: recency_store)
next
  case (LGetOrCreate k v)
  show ?thesis
  proof (cases "map_of (lru_entries m) k")
    case None
    with assms LGetOrCreate show ?thesis
      by (simp add: lru_get_or_create_push recency_insert map_of_recency)
  next
    case (Some u)
    then have "snd (lru_get_or_create k v m) = snd (lru_find k m)"
      by (simp add: lru_get_or_create_def lru_find_def)
    with assms LGetOrCreate Some show ?thesis
      by (simp add: recency_find map_of_recency)
  qed
next
  case (LInsertOrAssign k v)
  with assms show ?thesis
    by (auto simp: lru_insert_push recency_insert recency_assign map_of_recency split: option.splits)
next
  case LEvict
  with assms show ?thesis
    by (cases "lru_order m") (simp_all add: lru_evict_drop_front recency_drop_front,
        simp add: lru_evict_lru_def recency_of_def)
qed (use assms in \<open>simp_all add: recency_find recency_erase recency_erase_if, simp add: lru_clear_def recency_of_def\<close>)

interpretation lru_machine: refinement_machine lru_exec lru_inv
    "\<lambda>m. (lru_max m, recency_of m)" "\<lambda>c (lim, xs). (lim, spec_exec lim c xs)"
  by unfold_locales (simp_all add: lru_inv_exec lru_max_exec recency_exec)

lemma run_spec_exec:
  "run_commands (\<lambda>c (lim, xs). (lim, spec_exec lim c xs)) cs (lim, xs)
     = (lim, run_commands (spec_exec lim) cs xs)"
  by (induction cs arbitrary: xs) simp_all

text \<open>
  C12: Whatever sequence of finds, inserts, assignments, writes through a value pointer,
  evictions and conditional erasures a fresh \<open>StringLruMap\<close> goes through, its recency list
  read with its hash table is exactly the abstract recency list that went through the same
  sequence; the two structures agree on the keys, and there are never more entries than
  \<open>max(max_entries, 1)\<close>.
\<close>

theorem lru_refines_recency_list:
  "let m = run_commands lru_exec cs (lru_new n)
   in recency_of m = run_commands (spec_exec (max n 1)) cs []
      \<and> lru_inv m \<and> lru_size m \<le> max n 1"
proof -
  let ?m = "run_commands lru_exec cs (lru_new n)"
  have inv: "lru_inv ?m" by (rule lru_machine.inv_run) (rule lru_inv_new)
  have "(lru_max ?m, recency_of ?m) = (max n 1, run_commands (spec_exec (max n 1)) cs [])"
    using lru_machine.abs_run [OF lru_inv_new [of n], of cs]
    by (simp add: lru_new_def recency_of_def run_spec_exec)
  with inv show ?thesis by (simp add: lru_inv_def lru_size_def)
qed

text \<open>The case-folding hash is the plain hash of the lower-cased text.\<close>

lemma fnv1a64_ascii_fold_lower: "fnv1a64_ascii_fold s = fnv1a64 (ascii_lower s)"
proof -
  have "(if char_between CHR ''A'' CHR ''Z'' c then byte c + 32 else byte c) = byte (lower_char c)" for c
    using lower_char_upper [of c] by (auto simp: lower_char_def)
  then show ?thesis
    by (simp add: fnv1a64_ascii_fold_def fnv1a64_def ascii_lower_def foldl_map)
qed

lemma fnv1a64_ascii_fold_eq: "ascii_lower a = ascii_lower b \<Longrightarrow> fnv1a64_ascii_fold a = fnv1a64_ascii_fold b"
  by (simp add: fnv1a64_ascii_fold_lower)

end
