(* ===== verification/Http_Types.thy ===== *)
theory Http_Types
  imports Support
begin

text \<open>
  Models \<open>src/net/http_types.cxx\<close>: case-insensitive comparison, the vector-backed field maps
  \<open>HttpFields\<close> and \<open>HttpFieldsView\<close>, the iterators over comma-separated tokens and
  semicolon-separated parameters, request targets, authorities, URLs and the hop-by-hop
  header tables.

  A field map is its vector of pairs and its case flag. The reference that the non-const
  \<open>operator[]\<close> returns is an index into the vector, written with \<open>fields_write\<close>. The views
  of \<open>HttpFieldsView\<close> are the strings they point at; the reference-counted storage that
  keeps them alive has no counterpart. An iterator is the record of its members, and a
  range-for loop collects the items it yields.
\<close>

section \<open>Case-insensitive comparison and numbers\<close>

definition ascii_ci_fold :: "char \<Rightarrow> char" where
  "ascii_ci_fold c = (if char_between CHR ''A'' CHR ''Z'' c then of_byte (byte c + 32) else c)"

definition ascii_ci_equal :: "string \<Rightarrow> string \<Rightarrow> bool" where
  "ascii_ci_equal lhs rhs =
     (length lhs = length rhs \<and> list_all2 (\<lambda>x y. ascii_ci_fold x = ascii_ci_fold y) lhs rhs)"

definition ascii_iequals :: "string \<Rightarrow> string \<Rightarrow> bool" where
  "ascii_iequals lhs rhs = ascii_ci_equal lhs rhs"

definition append_decimal :: "string \<Rightarrow> nat \<Rightarrow> string" where
  "append_decimal out value = out @ dec_string value"

text \<open>\<open>to_chars(..., 16)\<close>: lower-case digits without leading zeros.\<close>

fun hex_string :: "nat \<Rightarrow> string" where
  "hex_string n =
     (if n < 16 then [hex_lower ! n] else hex_string (n div 16) @ [hex_lower ! (n mod 16)])"

declare hex_string.simps [simp del]

definition append_hex :: "string \<Rightarrow> nat \<Rightarrow> string" where
  "append_hex out value = out @ hex_string value"

definition field_hash :: "bool \<Rightarrow> string \<Rightarrow> u64" where
  "field_hash ci s = (if ci then fnv1a64_ascii_fold s else fnv1a64 s)"

definition field_eq :: "bool \<Rightarrow> string \<Rightarrow> string \<Rightarrow> bool" where
  "field_eq ci a b = (if ci then ascii_ci_equal a b else a = b)"

section \<open>Field maps\<close>

record http_fields =
  field_data :: "(string \<times> string) list"
  case_insensitive :: bool

definition key_eq :: "http_fields \<Rightarrow> string \<Rightarrow> string \<Rightarrow> bool" where
  "key_eq f a b = (if case_insensitive f then ascii_ci_equal a b else a = b)"

primrec matching_loop ::
    "http_fields \<Rightarrow> string \<Rightarrow> (string \<Rightarrow> 's \<Rightarrow> 's) \<Rightarrow> (string \<times> string) list \<Rightarrow> 's \<Rightarrow> 's" where
  "matching_loop f key fn [] st = st"
| "matching_loop f key fn (p # ps) st =
     matching_loop f key fn ps (if key_eq f (fst p) key then fn (snd p) st else st)"

definition for_each_matching :: "http_fields \<Rightarrow> string \<Rightarrow> (string \<Rightarrow> 's \<Rightarrow> 's) \<Rightarrow> 's \<Rightarrow> 's" where
  "for_each_matching f key fn st = matching_loop f key fn (field_data f) st"

primrec matching_until_loop ::
    "http_fields \<Rightarrow> string \<Rightarrow> (string \<Rightarrow> 's \<Rightarrow> bool \<times> 's) \<Rightarrow> (string \<times> string) list \<Rightarrow> 's \<Rightarrow> bool \<times> 's" where
  "matching_until_loop f key fn [] st = (True, st)"
| "matching_until_loop f key fn (p # ps) st =
     (if \<not> key_eq f (fst p) key then matching_until_loop f key fn ps st
      else case fn (snd p) st of
             (False, st') \<Rightarrow> (False, st')
           | (True, st') \<Rightarrow> matching_until_loop f key fn ps st')"

definition for_each_matching_until ::
    "http_fields \<Rightarrow> string \<Rightarrow> (string \<Rightarrow> 's \<Rightarrow> bool \<times> 's) \<Rightarrow> 's \<Rightarrow> bool \<times> 's" where
  "for_each_matching_until f key fn st = matching_until_loop f key fn (field_data f) st"

definition first_matching :: "http_fields \<Rightarrow> string \<Rightarrow> string option" where
  "first_matching f key = map_option snd (List.find (\<lambda>p. key_eq f (fst p) key) (field_data f))"

definition fields_get :: "http_fields \<Rightarrow> string \<Rightarrow> string option" where
  "fields_get f key = first_matching f key"

definition fields_value_or :: "http_fields \<Rightarrow> string \<Rightarrow> string \<Rightarrow> string" where
  "fields_value_or f key d = (case fields_get f key of None \<Rightarrow> d | Some v \<Rightarrow> v)"

text \<open>The const \<open>operator[]\<close>.\<close>

definition fields_at :: "http_fields \<Rightarrow> string \<Rightarrow> string" where
  "fields_at f key = fields_value_or f key []"

definition fields_count :: "http_fields \<Rightarrow> string \<Rightarrow> nat" where
  "fields_count f key = for_each_matching f key (\<lambda>_ n. n + 1) 0"

definition fields_values :: "http_fields \<Rightarrow> string \<Rightarrow> string list" where
  "fields_values f key = for_each_matching f key (\<lambda>v out. out @ [v]) []"

definition any_value :: "http_fields \<Rightarrow> string \<Rightarrow> (string \<Rightarrow> bool) \<Rightarrow> bool" where
  "any_value f key pred =
     snd (for_each_matching_until f key
            (\<lambda>v matched. if pred v then (False, True) else (True, matched)) False)"

definition fields_contains :: "http_fields \<Rightarrow> string \<Rightarrow> bool" where
  "fields_contains f key = (first_matching f key \<noteq> None)"

definition fields_empty :: "http_fields \<Rightarrow> bool" where
  "fields_empty f = (field_data f = [])"

definition fields_size :: "http_fields \<Rightarrow> nat" where
  "fields_size f = length (field_data f)"

definition http_fields_new :: "bool \<Rightarrow> http_fields" where
  "http_fields_new ci = \<lparr>field_data = [], case_insensitive = ci\<rparr>"

text \<open>The non-const \<open>operator[]\<close> and a write through the reference it returns.\<close>

definition fields_ref :: "http_fields \<Rightarrow> string \<Rightarrow> nat \<times> http_fields" where
  "fields_ref f key =
     (case index_of (\<lambda>p. key_eq f (fst p) key) (field_data f) of
        Some i \<Rightarrow> (i, f)
      | None \<Rightarrow> (length (field_data f), f\<lparr>field_data := field_data f @ [(key, [])]\<rparr>))"

definition fields_write :: "nat \<Rightarrow> string \<Rightarrow> http_fields \<Rightarrow> http_fields" where
  "fields_write i v f = f\<lparr>field_data := (field_data f)[i := (fst (field_data f ! i), v)]\<rparr>"

definition fields_emplace_back :: "string \<Rightarrow> string \<Rightarrow> http_fields \<Rightarrow> http_fields" where
  "fields_emplace_back k v f = f\<lparr>field_data := field_data f @ [(k, v)]\<rparr>"

definition fields_append :: "string \<Rightarrow> string \<Rightarrow> http_fields \<Rightarrow> http_fields" where
  "fields_append k v f = fields_emplace_back k v f"

text \<open>
  The compacting loop of \<open>set\<close>: the first field with the key gets the value, the later ones
  are skipped, every other field is moved down to the write cursor.
\<close>

primrec set_loop ::
    "http_fields \<Rightarrow> string \<Rightarrow> string \<Rightarrow> bool \<Rightarrow> (string \<times> string) list \<Rightarrow> bool \<times> (string \<times> string) list" where
  "set_loop f key v found [] = (found, [])"
| "set_loop f key v found (p # ps) =
     (if key_eq f (fst p) key then
        (if found then set_loop f key v found ps
         else case set_loop f key v True ps of (fd, qs) \<Rightarrow> (fd, (fst p, v) # qs))
      else case set_loop f key v found ps of (fd, qs) \<Rightarrow> (fd, p # qs))"

definition fields_set :: "string \<Rightarrow> string \<Rightarrow> http_fields \<Rightarrow> http_fields" where
  "fields_set key v f =
     (case set_loop f key v False (field_data f) of
        (found, ds) \<Rightarrow>
          if \<not> found then f\<lparr>field_data := field_data f @ [(key, v)]\<rparr> else f\<lparr>field_data := ds\<rparr>)"

definition fields_erase :: "string \<Rightarrow> http_fields \<Rightarrow> nat \<times> http_fields" where
  "fields_erase key f =
     (length (filter (\<lambda>p. key_eq f (fst p) key) (field_data f)),
      f\<lparr>field_data := filter (\<lambda>p. \<not> key_eq f (fst p) key) (field_data f)\<rparr>)"

definition fields_clear :: "http_fields \<Rightarrow> http_fields" where
  "fields_clear f = f\<lparr>field_data := []\<rparr>"

text \<open>\<open>HttpFieldsView\<close> has the same lookups; its own constructors and \<open>to_owned\<close> copy.\<close>

definition fields_view_of :: "http_fields \<Rightarrow> http_fields" where
  "fields_view_of hf =
     foldl (\<lambda>f (k, v). fields_emplace_back k v f) (http_fields_new (case_insensitive hf))
       (field_data hf)"

definition fields_to_owned :: "http_fields \<Rightarrow> http_fields" where
  "fields_to_owned view =
     foldl (\<lambda>f (k, v). fields_emplace_back k v f) (http_fields_new (case_insensitive view))
       (field_data view)"

section \<open>Comma-separated tokens\<close>

record token_iter =
  tok_header :: string
  tok_pos :: nat
  tok_token :: string
  tok_done :: bool

definition token_read_current :: "token_iter \<Rightarrow> token_iter" where
  "token_read_current it =
     (if length (tok_header it) < tok_pos it then it\<lparr>tok_done := True, tok_token := []\<rparr>
      else
        let comma = sv_find_from (tok_header it) CHR '','' (tok_pos it)
        in it\<lparr>tok_token := trim (case comma of
                 None \<Rightarrow> substr_from (tok_header it) (tok_pos it)
               | Some c \<Rightarrow> substr (tok_header it) (tok_pos it) (c - tok_pos it)),
              tok_done := False\<rparr>)"

definition token_begin :: "string \<Rightarrow> token_iter" where
  "token_begin header =
     token_read_current \<lparr>tok_header = header, tok_pos = 0, tok_token = [], tok_done = True\<rparr>"

definition token_next :: "token_iter \<Rightarrow> token_iter" where
  "token_next it =
     (if tok_done it then it
      else case sv_find_from (tok_header it) CHR '','' (tok_pos it) of
             None \<Rightarrow> it\<lparr>tok_done := True, tok_token := []\<rparr>
           | Some c \<Rightarrow> token_read_current (it\<lparr>tok_pos := c + 1\<rparr>))"

function token_collect :: "token_iter \<Rightarrow> string list" where
  "token_collect it =
     (if tok_done it then [] else tok_token it # token_collect (token_next it))"
  by pat_completeness auto
termination
  by (relation "measure (\<lambda>it. if tok_done it then 0 else Suc (Suc (length (tok_header it)) - tok_pos it))")
    (auto simp: token_next_def token_read_current_def Let_def split: option.splits
      dest: sv_find_from_less)

declare token_collect.simps [simp del]

definition header_tokens :: "string \<Rightarrow> string list" where
  "header_tokens header_value = token_collect (token_begin header_value)"

definition join_header_tokens :: "string list \<Rightarrow> string" where
  "join_header_tokens tokens =
     foldl (\<lambda>out token. (if out \<noteq> [] then out @ '', '' else out) @ token) [] tokens"

definition for_each_comma_token :: "string \<Rightarrow> (string \<Rightarrow> 's \<Rightarrow> bool \<times> 's) \<Rightarrow> 's \<Rightarrow> bool \<times> 's" where
  "for_each_comma_token header_value fn st =
     foldl (\<lambda>(go, st) token. if go then fn token st else (go, st)) (True, st) (header_tokens header_value)"

definition header_token_contains :: "string \<Rightarrow> string \<Rightarrow> bool" where
  "header_token_contains header token =
     (if header = [] then False
      else list_ex (\<lambda>part. ascii_iequals part token) (header_tokens header))"


section \<open>Parameters and items\<close>

text \<open>The scan of \<open>find_unquoted_header_delim\<close> from index \<open>i\<close> on, with its two flags.\<close>

primrec unquoted_scan :: "char \<Rightarrow> bool \<Rightarrow> bool \<Rightarrow> nat \<Rightarrow> string \<Rightarrow> nat option" where
  "unquoted_scan needle quoted escaped i [] = None"
| "unquoted_scan needle quoted escaped i (c # cs) =
     (if escaped then unquoted_scan needle quoted False (Suc i) cs
      else if quoted \<and> c = CHR 0x5C then unquoted_scan needle quoted True (Suc i) cs
      else if c = CHR 0x22 then unquoted_scan needle (\<not> quoted) escaped (Suc i) cs
      else if \<not> quoted \<and> c = needle then Some i
      else unquoted_scan needle quoted escaped (Suc i) cs)"

definition find_unquoted_header_delim :: "string \<Rightarrow> char \<Rightarrow> nat \<Rightarrow> nat option" where
  "find_unquoted_header_delim s needle pos = unquoted_scan needle False False pos (drop pos s)"

record header_param =
  param_name :: string
  param_value :: string
  param_has_value :: bool

definition header_param_of_segment :: "string \<Rightarrow> header_param" where
  "header_param_of_segment segment =
     (case find_unquoted_header_delim segment CHR ''='' 0 of
        None \<Rightarrow> \<lparr>param_name = trim segment, param_value = [], param_has_value = False\<rparr>
      | Some eq \<Rightarrow>
          \<lparr>param_name = trim (substr segment 0 eq), param_value = trim (substr_from segment (eq + 1)),
           param_has_value = True\<rparr>)"

record param_iter =
  par_params :: string
  par_pos :: nat
  par_param :: header_param
  par_done :: bool

definition no_param :: header_param where
  "no_param = \<lparr>param_name = [], param_value = [], param_has_value = False\<rparr>"

lemma unquoted_scan_less: "unquoted_scan needle q e i s = Some k \<Longrightarrow> i \<le> k \<and> k < i + length s"
  by (induction s arbitrary: q e i) (fastforce split: if_splits)+

lemma find_unquoted_less:
  "find_unquoted_header_delim s needle pos = Some k \<Longrightarrow> pos \<le> k \<and> k < length s"
  by (auto simp: find_unquoted_header_delim_def dest!: unquoted_scan_less)

text \<open>The loop of \<open>read_current\<close> skips empty segments.\<close>

function param_read_current :: "param_iter \<Rightarrow> param_iter" where
  "param_read_current it =
     (if par_pos it \<le> length (par_params it) then
        (let semi = find_unquoted_header_delim (par_params it) CHR '';'' (par_pos it);
             segment = trim (case semi of
                 None \<Rightarrow> substr_from (par_params it) (par_pos it)
               | Some s \<Rightarrow> substr (par_params it) (par_pos it) (s - par_pos it));
             pos' = (case semi of None \<Rightarrow> length (par_params it) + 1 | Some s \<Rightarrow> s + 1)
         in if segment = [] then param_read_current (it\<lparr>par_pos := pos'\<rparr>)
            else it\<lparr>par_pos := pos', par_param := header_param_of_segment segment, par_done := False\<rparr>)
      else it\<lparr>par_done := True, par_param := no_param\<rparr>)"
  by pat_completeness auto
termination
  by (relation "measure (\<lambda>it. Suc (length (par_params it)) - par_pos it)")
    (auto split: option.splits dest: find_unquoted_less)

declare param_read_current.simps [simp del]

lemma param_read_current_params [simp]: "par_params (param_read_current it) = par_params it"
  by (induction it rule: param_read_current.induct)
    (subst param_read_current.simps, auto simp: Let_def)

lemma param_read_current_advances:
  "\<not> par_done (param_read_current it) \<Longrightarrow> par_pos it < par_pos (param_read_current it)
     \<and> par_pos it \<le> length (par_params it)"
proof (induction it rule: param_read_current.induct)
  case (1 it)
  show ?case
    using "1.prems" "1.IH" [OF _ refl refl refl]
    by (subst (asm) param_read_current.simps, subst param_read_current.simps)
      (auto simp: Let_def split: if_splits option.splits dest: find_unquoted_less)
qed

definition param_begin :: "string \<Rightarrow> param_iter" where
  "param_begin params =
     param_read_current \<lparr>par_params = params, par_pos = 0, par_param = no_param, par_done = True\<rparr>"

definition param_next :: "param_iter \<Rightarrow> param_iter" where
  "param_next it = (if par_done it then it else param_read_current it)"

function param_collect :: "param_iter \<Rightarrow> header_param list" where
  "param_collect it =
     (if par_done it then [] else par_param it # param_collect (param_next it))"
  by pat_completeness auto
termination
  by (relation "measure (\<lambda>it. if par_done it then 0 else Suc (Suc (Suc (length (par_params it))) - par_pos it))")
    (auto simp: param_next_def dest!: param_read_current_advances)

declare param_collect.simps [simp del]

definition header_params :: "string \<Rightarrow> header_param list" where
  "header_params params = param_collect (param_begin params)"

text \<open>The parameters of an item stay a view of their text until they are iterated.\<close>

record header_item =
  item_name :: string
  item_value :: string
  item_has_value :: bool
  item_params :: string

definition header_item_of_token :: "string \<Rightarrow> header_item" where
  "header_item_of_token token =
     (let semi = find_unquoted_header_delim token CHR '';'' 0;
          first = trim (case semi of None \<Rightarrow> token | Some s \<Rightarrow> substr token 0 s);
          eq = find_unquoted_header_delim first CHR ''='' 0
      in \<lparr>item_name = (case eq of None \<Rightarrow> first | Some e \<Rightarrow> trim (substr first 0 e)),
          item_value = (case eq of None \<Rightarrow> [] | Some e \<Rightarrow> trim (substr_from first (e + 1))),
          item_has_value = (eq \<noteq> None),
          item_params = (case semi of None \<Rightarrow> [] | Some s \<Rightarrow> substr_from token (s + 1))\<rparr>)"

definition header_items :: "string \<Rightarrow> header_item list" where
  "header_items header_value = map header_item_of_token (header_tokens header_value)"

definition credentials_for_auth_scheme :: "string \<Rightarrow> string \<Rightarrow> string option" where
  "credentials_for_auth_scheme authorization scheme =
     (if length authorization \<le> length scheme \<or> authorization ! length scheme \<noteq> CHR '' '' then None
      else if \<not> ascii_ci_equal (substr authorization 0 (length scheme)) scheme then None
      else Some (trim (substr_from authorization (length scheme + 1))))"

section \<open>Timeouts\<close>

record http_timeouts =
  t_resolve :: int
  t_connect :: int
  t_tls :: int
  t_write :: int
  t_first_byte :: int
  t_between_bytes :: int

definition built_in_timeouts :: http_timeouts where
  "built_in_timeouts =
     \<lparr>t_resolve = 5000, t_connect = 5000, t_tls = 5000, t_write = 30000, t_first_byte = 30000,
      t_between_bytes = 30000\<rparr>"

definition effective_http_timeouts :: "http_timeouts \<Rightarrow> http_timeouts \<Rightarrow> http_timeouts" where
  "effective_http_timeouts request defaults =
     (let pick = \<lambda>field. if field request \<noteq> field built_in_timeouts then field request else field defaults
      in \<lparr>t_resolve = pick t_resolve, t_connect = pick t_connect, t_tls = pick t_tls,
          t_write = pick t_write, t_first_byte = pick t_first_byte,
          t_between_bytes = pick t_between_bytes\<rparr>)"

section \<open>Request targets and authorities\<close>

record path_query_view =
  pq_path :: string
  pq_query :: string
  pq_query_suffix :: string

definition split_path_query :: "string \<Rightarrow> path_query_view" where
  "split_path_query target =
     (case sv_find target CHR ''?'' of
        None \<Rightarrow> \<lparr>pq_path = target, pq_query = [], pq_query_suffix = []\<rparr>
      | Some q \<Rightarrow>
          \<lparr>pq_path = substr target 0 q, pq_query = substr_from target (q + 1),
           pq_query_suffix = substr_from target q\<rparr>)"

definition path_without_query :: "string \<Rightarrow> string" where
  "path_without_query target = pq_path (split_path_query target)"

definition origin_form_path_from_target :: "string \<Rightarrow> string" where
  "origin_form_path_from_target target =
     (if prefix ''https://'' target then
        (case sv_find_from target CHR ''/'' 8 of Some s \<Rightarrow> substr_from target s | None \<Rightarrow> ''/'')
      else if prefix ''http://'' target then
        (case sv_find_from target CHR ''/'' 7 of Some s \<Rightarrow> substr_from target s | None \<Rightarrow> ''/'')
      else target)"

record authority_view =
  au_host :: string
  au_port :: string
  au_has_port :: bool
  au_bracketed :: bool
  au_invalid_bracket :: bool
  au_invalid_suffix :: bool

definition plain_authority :: "string \<Rightarrow> authority_view" where
  "plain_authority h =
     \<lparr>au_host = h, au_port = [], au_has_port = False, au_bracketed = False,
      au_invalid_bracket = False, au_invalid_suffix = False\<rparr>"

definition split_authority_host_port :: "string \<Rightarrow> authority_view" where
  "split_authority_host_port authority =
     (if prefix ''['' authority then
        (case sv_find authority CHR '']'' of
           None \<Rightarrow> (plain_authority authority)\<lparr>au_bracketed := True, au_invalid_bracket := True\<rparr>
         | Some bracket \<Rightarrow>
             (let after = substr_from authority (bracket + 1)
              in if after = [] then (plain_authority authority)\<lparr>au_bracketed := True\<rparr>
                 else if \<not> prefix '':'' after then
                   (plain_authority (substr authority 0 (bracket + 1)))
                     \<lparr>au_bracketed := True, au_invalid_suffix := True\<rparr>
                 else
                   (plain_authority (substr authority 0 (bracket + 1)))
                     \<lparr>au_port := substr_from after 1, au_has_port := True, au_bracketed := True\<rparr>))
      else
        case sv_rfind authority CHR '':'' of
          None \<Rightarrow> plain_authority authority
        | Some colon \<Rightarrow>
            (plain_authority (substr authority 0 colon))
              \<lparr>au_port := substr_from authority (colon + 1), au_has_port := True\<rparr>)"

definition host_without_port :: "string \<Rightarrow> string" where
  "host_without_port authority =
     (let parts = split_authority_host_port authority
      in if au_invalid_bracket parts \<or> au_invalid_suffix parts then authority else au_host parts)"

definition host_without_port_or_ipv6_brackets :: "string \<Rightarrow> string" where
  "host_without_port_or_ipv6_brackets authority =
     (let parts = split_authority_host_port authority; host = au_host parts
      in if au_invalid_bracket parts \<or> au_invalid_suffix parts then authority
         else if au_bracketed parts \<and> 2 \<le> length host \<and> hd host = CHR ''['' \<and> last host = CHR '']''
         then butlast (tl host) else host)"


section \<open>URLs\<close>

datatype url_error_kind =
    UE_empty | UE_missing_scheme | UE_unsupported_scheme | UE_missing_host | UE_invalid_host
  | UE_invalid_port | UE_invalid_target | UE_too_long

type_synonym url_error = "url_error_kind \<times> string"

record url =
  url_scheme :: string
  url_host :: string
  url_port :: nat
  url_path :: string
  url_query :: string

definition uses_default_port :: "url \<Rightarrow> bool" where
  "uses_default_port u =
     (url_scheme u = ''http'' \<and> url_port u = 80 \<or> url_scheme u = ''https'' \<and> url_port u = 443)"

definition origin_form_target_size :: "url \<Rightarrow> nat" where
  "origin_form_target_size u =
     (if url_path u = [] then 1 else length (url_path u))
     + (if url_query u \<noteq> [] then 1 + length (url_query u) else 0)"

definition append_origin_form_target :: "url \<Rightarrow> string \<Rightarrow> string" where
  "append_origin_form_target u out =
     out @ (if url_path u = [] then ''/'' else url_path u)
         @ (if url_query u \<noteq> [] then CHR ''?'' # url_query u else [])"

fun port_digits :: "nat \<Rightarrow> nat" where
  "port_digits v = (if 10 \<le> v then Suc (port_digits (v div 10)) else 1)"

declare port_digits.simps [simp del]

definition host_header_value_size :: "url \<Rightarrow> string \<Rightarrow> nat" where
  "host_header_value_size u override_host =
     (if override_host \<noteq> [] then length override_host
      else if uses_default_port u then length (url_host u)
      else length (url_host u) + 1 + port_digits (url_port u))"

definition append_host_header_value :: "url \<Rightarrow> string \<Rightarrow> string \<Rightarrow> string" where
  "append_host_header_value u out override_host =
     (if override_host \<noteq> [] then out @ override_host
      else out @ url_host u @ (if \<not> uses_default_port u then CHR '':'' # dec_string (url_port u) else []))"

definition url_str :: "url \<Rightarrow> string" where
  "url_str u =
     url_scheme u @ ''://'' @ url_host u
     @ (if \<not> uses_default_port u then CHR '':'' # dec_string (url_port u) else [])
     @ (if url_path u = [] \<or> hd (url_path u) \<noteq> CHR ''/'' then ''/'' else [])
     @ url_path u
     @ (if url_query u \<noteq> [] then CHR ''?'' # url_query u else [])"

text \<open>Arguments that alias the query are copied first, so the update reads the old values.\<close>

definition set_query_param :: "string \<Rightarrow> string \<Rightarrow> url \<Rightarrow> url" where
  "set_query_param name v u =
     (let q0 = (if url_query u \<noteq> [] then url_query u @ ''&'' else url_query u);
          q1 = append_url_percent_encoded q0 name;
          q2 = append_url_percent_encoded (q1 @ ''='') v
      in u\<lparr>url_query := q2\<rparr>)"

definition bad_target_byte :: "char \<Rightarrow> bool" where
  "bad_target_byte c = (byte c \<le> 0x20 \<or> byte c = 0x7F)"

text \<open>The last steps of \<open>Url::parse\<close>: path, query and the check of their bytes.\<close>

definition url_parse_target :: "url \<Rightarrow> string \<Rightarrow> nat option \<Rightarrow> url_error + url" where
  "url_parse_target u rest authority_end =
     (let u1 =
        (case authority_end of
           None \<Rightarrow> u\<lparr>url_path := ''/''\<rparr>
         | Some e \<Rightarrow>
             (let pq = split_path_query (substr_from rest e)
              in u\<lparr>url_path := (if pq_path pq = [] then ''/'' else pq_path pq),
                   url_query := pq_query pq\<rparr>))
      in if list_ex bad_target_byte (url_path u1) \<or> list_ex bad_target_byte (url_query u1)
         then Inl (UE_invalid_target, ''request target contains control or space bytes'')
         else Inr u1)"

definition url_parse :: "string \<Rightarrow> url_error + url" where
  "url_parse input =
     (if input = [] then Inl (UE_empty, ''empty URL'')
      else if 8192 < length input then Inl (UE_too_long, ''URL exceeds 8192 bytes'')
      else case sv_find_str input ''://'' of
        None \<Rightarrow> Inl (UE_missing_scheme, ''missing '' @ [CHR 0x27] @ ''://'' @ [CHR 0x27])
      | Some scheme_end \<Rightarrow>
        (let scheme = ascii_lower (substr input 0 scheme_end)
         in if scheme \<noteq> ''http'' \<and> scheme \<noteq> ''https'' then
              Inl (UE_unsupported_scheme, ''unsupported scheme '' @ [CHR 0x27] @ scheme @ [CHR 0x27])
            else
        (let rest = substr_from input (scheme_end + 3)
         in if rest = [] then Inl (UE_missing_host, ''missing host'')
            else
        (let authority_end = sv_find_first_of rest ''/?'';
             authority = (case authority_end of None \<Rightarrow> rest | Some e \<Rightarrow> substr rest 0 e)
         in if authority = [] then Inl (UE_missing_host, ''missing host'')
            else
        (let parts = split_authority_host_port authority
         in if au_invalid_bracket parts then Inl (UE_missing_host, ''unterminated IPv6 literal'')
            else if au_invalid_suffix parts then
              Inl (UE_invalid_port, ''std::unexpected character after '' @ [CHR 0x27] @ '']'' @ [CHR 0x27])
            else
        (case (if au_has_port parts then
                 (case parse_whole_unsigned (2 ^ 16) (au_port parts) of
                    None \<Rightarrow> None
                  | Some p \<Rightarrow> if p = 0 then None else Some p)
               else Some (if scheme = ''https'' then 443 else 80)) of
           None \<Rightarrow> Inl (UE_invalid_port, ''invalid port '' @ [CHR 0x27] @ au_port parts @ [CHR 0x27])
         | Some port \<Rightarrow>
             if au_host parts = [] then Inl (UE_missing_host, ''empty host'')
             else if list_ex bad_target_byte (au_host parts) then
               Inl (UE_invalid_host, ''host contains control or space bytes'')
             else
               url_parse_target
                 \<lparr>url_scheme = scheme, url_host = au_host parts, url_port = port, url_path = ''/'',
                  url_query = []\<rparr> rest authority_end))))))"

section \<open>Header classes\<close>

definition kHopByHopHeaders :: "string list" where
  "kHopByHopHeaders =
     [''connection'', ''keep-alive'', ''proxy-authenticate'', ''proxy-authorization'', ''te'',
      ''trailer'', ''trailers'', ''transfer-encoding'', ''upgrade'']"

definition is_hop_by_hop_header :: "string \<Rightarrow> bool" where
  "is_hop_by_hop_header name = list_ex (\<lambda>candidate. ascii_iequals name candidate) kHopByHopHeaders"

definition is_request_controlled_header :: "string \<Rightarrow> bool" where
  "is_request_controlled_header name = (ascii_iequals name ''host'' \<or> is_hop_by_hop_header name)"

definition is_response_framing_header :: "string \<Rightarrow> bool" where
  "is_response_framing_header name =
     (ascii_iequals name ''content-length'' \<or> is_hop_by_hop_header name)"

section \<open>Facts about comparison and field maps\<close>

lemma ascii_ci_fold_lower: "ascii_ci_fold c = lower_char c"
  by (metis ascii_ci_fold_def lower_char_def lower_char_upper of_byte_byte)

lemma ascii_ci_equal_iff: "ascii_ci_equal a b \<longleftrightarrow> ascii_lower a = ascii_lower b"
  by (auto simp: ascii_ci_equal_def ascii_lower_def ascii_ci_fold_lower list_all2_conv_all_nth
      list_eq_iff_nth_eq)

lemma ascii_ci_equal_refl [simp]: "ascii_ci_equal a a"
  by (simp add: ascii_ci_equal_iff)

definition key_norm :: "bool \<Rightarrow> string \<Rightarrow> string" where
  "key_norm ci k = (if ci then ascii_lower k else k)"

lemma key_eq_iff: "key_eq f a b \<longleftrightarrow> key_norm (case_insensitive f) a = key_norm (case_insensitive f) b"
  by (simp add: key_eq_def key_norm_def ascii_ci_equal_iff)

text \<open>Keys that compare equal have equal hashes, as the hash containers require.\<close>

lemma field_eq_hash: "field_eq ci a b \<Longrightarrow> field_hash ci a = field_hash ci b"
  by (auto simp: field_eq_def field_hash_def ascii_ci_equal_iff intro: fnv1a64_ascii_fold_eq
      split: if_splits)

lemma matching_loop_eq:
  "matching_loop f key fn ps st = fold fn (map snd (filter (\<lambda>p. key_eq f (fst p) key) ps)) st"
  by (induction ps arbitrary: st) simp_all

lemma fields_values_eq:
  "fields_values f key = map snd (filter (\<lambda>p. key_eq f (fst p) key) (field_data f))"
proof -
  have "fold (\<lambda>v out. out @ [v]) xs acc = acc @ xs" for xs acc :: "string list"
    by (induction xs arbitrary: acc) simp_all
  then show ?thesis by (simp add: fields_values_def for_each_matching_def matching_loop_eq)
qed

lemma fields_count_eq: "fields_count f key = length (fields_values f key)"
proof -
  have "fold (\<lambda>_ n. n + 1) xs acc = acc + length xs" for xs :: "string list" and acc :: nat
    by (induction xs arbitrary: acc) simp_all
  then show ?thesis
    by (simp add: fields_count_def for_each_matching_def matching_loop_eq fields_values_eq)
qed

lemma fields_get_eq: "fields_get f key = (case fields_values f key of [] \<Rightarrow> None | v # _ \<Rightarrow> Some v)"
proof -
  have "map_option snd (List.find (\<lambda>p. key_eq f (fst p) key) ps) =
      (case map snd (filter (\<lambda>p. key_eq f (fst p) key) ps) of [] \<Rightarrow> None | v # _ \<Rightarrow> Some v)" for ps
    by (induction ps) simp_all
  then show ?thesis by (simp add: fields_get_def first_matching_def fields_values_eq)
qed

lemma any_value_eq: "any_value f key pred \<longleftrightarrow> list_ex pred (fields_values f key)"
proof -
  have "snd (matching_until_loop f key (\<lambda>v matched. if pred v then (False, True) else (True, matched)) ps b)
      \<longleftrightarrow> b \<or> list_ex pred (map snd (filter (\<lambda>p. key_eq f (fst p) key) ps))" for ps b
    by (induction ps arbitrary: b) auto
  then show ?thesis by (simp add: any_value_def for_each_matching_until_def fields_values_eq)
qed

lemma set_loop_found:
  "set_loop f key v True ps = (True, filter (\<lambda>p. \<not> key_eq f (fst p) key) ps)"
  by (induction ps) simp_all

lemma set_loop_eq:
  "set_loop f key v False ps =
     (case index_of (\<lambda>p. key_eq f (fst p) key) ps of
        None \<Rightarrow> (False, ps)
      | Some i \<Rightarrow> (True, take i ps @ (fst (ps ! i), v)
                        # filter (\<lambda>p. \<not> key_eq f (fst p) key) (drop (Suc i) ps)))"
  by (induction ps) (auto simp: set_loop_found split: option.splits)

lemma case_insensitive_set [simp]: "case_insensitive (fields_set key v f) = case_insensitive f"
  by (simp add: fields_set_def split: prod.splits)

lemma key_eq_set [simp]: "key_eq (fields_set key v f) = key_eq f"
  by (simp add: key_eq_def fun_eq_iff)

lemma fields_set_data:
  "field_data (fields_set key v f) =
     (case index_of (\<lambda>p. key_eq f (fst p) key) (field_data f) of
        None \<Rightarrow> field_data f @ [(key, v)]
      | Some i \<Rightarrow> take i (field_data f) @ (fst (field_data f ! i), v)
                 # filter (\<lambda>p. \<not> key_eq f (fst p) key) (drop (Suc i) (field_data f)))"
  by (simp add: fields_set_def set_loop_eq split: option.splits)

lemma filter_other_key:
  "filter (\<lambda>p. \<not> key_eq f (fst p) key \<and> key_eq f (fst p) k) ps =
     (if key_eq f k key then [] else filter (\<lambda>p. key_eq f (fst p) k) ps)"
  by (auto simp: key_eq_iff filter_empty_conv intro: filter_cong)

lemma filter_key_same:
  "key_eq f k key \<Longrightarrow> filter (\<lambda>p. key_eq f (fst p) k) ps = filter (\<lambda>p. key_eq f (fst p) key) ps"
  by (simp add: key_eq_iff)

lemma fields_values_set:
  "fields_values (fields_set key v f) k = (if key_eq f k key then [v] else fields_values f k)"
proof (cases "index_of (\<lambda>p. key_eq f (fst p) key) (field_data f)")
  case None
  then have none: "filter (\<lambda>p. key_eq f (fst p) key) (field_data f) = []"
    by (simp add: index_of_None_iff filter_empty_conv)
  with None filter_key_same [of f k key] show ?thesis
    by (auto simp: fields_values_eq fields_set_data key_eq_iff)
next
  case (Some i)
  note parts = index_of_split [OF Some]
  have none: "filter (\<lambda>p. key_eq f (fst p) key) (take i (field_data f)) = []"
    using parts(2) by (simp add: filter_empty_conv)
  have "fields_values f k = map snd (filter (\<lambda>p. key_eq f (fst p) k)
      (take i (field_data f) @ field_data f ! i # drop (Suc i) (field_data f)))"
    using parts(1) by (simp add: fields_values_eq)
  moreover have "key_eq f (fst (field_data f ! i)) k \<longleftrightarrow> key_eq f k key"
    using parts(3) by (auto simp: key_eq_iff)
  ultimately show ?thesis
    using Some none
    by (cases "key_eq f k key")
      (simp_all add: fields_values_eq fields_set_data filter_other_key filter_key_same [of f k key])
qed

lemma fields_get_set:
  "fields_get (fields_set key v f) k = (if key_eq f k key then Some v else fields_get f k)"
  by (simp add: fields_get_eq fields_values_set)

lemma fields_get_erase:
  "fields_get (snd (fields_erase key f)) k = (if key_eq f k key then None else fields_get f k)"
proof -
  have "key_eq (snd (fields_erase key f)) = key_eq f"
    by (simp add: fields_erase_def key_eq_def fun_eq_iff)
  then show ?thesis
    by (simp add: fields_get_eq fields_values_eq fields_erase_def filter_other_key)
qed

text \<open>\<open>f[key] = v\<close>\<close>

definition fields_assign :: "string \<Rightarrow> string \<Rightarrow> http_fields \<Rightarrow> http_fields" where
  "fields_assign key v f = (case fields_ref f key of (i, f') \<Rightarrow> fields_write i v f')"

lemma case_insensitive_assign [simp]: "case_insensitive (fields_assign key v f) = case_insensitive f"
  by (simp add: fields_assign_def fields_ref_def fields_write_def split: option.splits)

lemma fields_get_assign:
  "fields_get (fields_assign key v f) k = (if key_eq f k key then Some v else fields_get f k)"
proof (cases "index_of (\<lambda>p. key_eq f (fst p) key) (field_data f)")
  case None
  then have none: "filter (\<lambda>p. key_eq f (fst p) key) (field_data f) = []"
    by (simp add: index_of_None_iff filter_empty_conv)
  have "field_data (fields_assign key v f) = field_data f @ [(key, v)]"
    using None by (simp add: fields_assign_def fields_ref_def fields_write_def)
  with none filter_key_same [of f k key] show ?thesis
    by (auto simp: fields_get_eq fields_values_eq key_eq_iff)
next
  case (Some i)
  note parts = index_of_split [OF Some]
  have data: "field_data (fields_assign key v f) =
      take i (field_data f) @ (fst (field_data f ! i), v) # drop (Suc i) (field_data f)"
    using Some parts(4) by (simp add: fields_assign_def fields_ref_def fields_write_def upd_conv_take_nth_drop)
  have none: "filter (\<lambda>p. key_eq f (fst p) key) (take i (field_data f)) = []"
    using parts(2) by (simp add: filter_empty_conv)
  have "fields_get f k = (case map snd (filter (\<lambda>p. key_eq f (fst p) k)
      (take i (field_data f) @ field_data f ! i # drop (Suc i) (field_data f))) of
        [] \<Rightarrow> None | v # _ \<Rightarrow> Some v)"
    using parts(1) by (simp add: fields_get_eq fields_values_eq)
  with data none parts(3) filter_key_same [of f k key] show ?thesis
    by (auto simp: fields_get_eq fields_values_eq key_eq_iff split: list.splits)
qed

lemma to_owned_id: "fields_to_owned v = v" and view_of_id: "fields_view_of f = f"
proof -
  have "foldl (\<lambda>f (k, v). fields_emplace_back k v f) g ps = g\<lparr>field_data := field_data g @ ps\<rparr>" for g :: http_fields and ps
    by (induction ps arbitrary: g) (auto simp: fields_emplace_back_def)
  then show "fields_to_owned v = v" "fields_view_of f = f"
    by (simp_all add: fields_to_owned_def fields_view_of_def http_fields_new_def)
qed

text \<open>
  The interface the middleware uses: what a lookup returns after a header has been put in
  place, for a store whose names are compared by \<open>same\<close>. Two routines of \<open>HttpFields\<close>
  provide it, \<open>set\<close> and assignment through \<open>operator[]\<close>.
\<close>

locale header_store =
  fixes get :: "'f \<Rightarrow> string \<Rightarrow> string option" and put :: "string \<Rightarrow> string \<Rightarrow> 'f \<Rightarrow> 'f"
    and same :: "string \<Rightarrow> string \<Rightarrow> bool" and ok :: "'f \<Rightarrow> bool"
  assumes get_put: "ok f \<Longrightarrow> get (put k v f) k' = (if same k' k then Some v else get f k')"
    and ok_put: "ok f \<Longrightarrow> ok (put k v f)"
begin

definition put_all :: "(string \<times> string) list \<Rightarrow> 'f \<Rightarrow> 'f" where
  "put_all kvs f = fold (\<lambda>(k, v). put k v) kvs f"

lemma ok_put_all: "ok f \<Longrightarrow> ok (put_all kvs f)"
  unfolding put_all_def by (induction kvs arbitrary: f) (auto simp: ok_put)

lemma get_put_all:
  "ok f \<Longrightarrow> get (put_all kvs f) k' =
     (case filter (\<lambda>p. same k' (fst p)) (rev kvs) of [] \<Rightarrow> get f k' | p # _ \<Rightarrow> Some (snd p))"
proof (induction kvs arbitrary: f)
  case Nil
  then show ?case by (simp add: put_all_def)
next
  case (Cons kv kvs)
  obtain k v where kv: "kv = (k, v)" by fastforce
  have "put_all (kv # kvs) f = put_all kvs (put k v f)" by (simp add: put_all_def kv)
  with Cons.IH [OF ok_put [OF Cons.prems]] show ?case
    using Cons.prems by (auto simp: kv get_put split: list.splits)
qed

end

lemma key_eq_ci: "case_insensitive f \<Longrightarrow> key_eq f = ascii_ci_equal"
  by (simp add: key_eq_def fun_eq_iff)

interpretation field_set: header_store fields_get fields_set ascii_ci_equal case_insensitive
  by unfold_locales (simp_all add: fields_get_set key_eq_ci)

interpretation field_assign: header_store fields_get fields_assign ascii_ci_equal case_insensitive
  by unfold_locales (simp_all add: fields_get_assign key_eq_ci)

section \<open>Facts about tokens\<close>

lemma sv_find_from_0 [simp]: "sv_find_from s c 0 = sv_find s c"
  by (simp add: sv_find_from_def option.map_ident_strong)

lemma trim_no_comma [simp]: "CHR '','' \<notin> set s \<Longrightarrow> CHR '','' \<notin> set (trim s)"
  using trim_with_subset [of is_ws s] by (auto simp: trim_def)

lemma token_collect_at:
  assumes "tok_pos it \<le> length (tok_header it)"
  shows "token_collect (token_read_current it) =
    map trim (split_on CHR '','' (drop (tok_pos it) (tok_header it)))"
  using assms
proof (induction "length (tok_header it) - tok_pos it" arbitrary: it rule: less_induct)
  case less
  let ?rest = "drop (tok_pos it) (tok_header it)"
  have cur: "\<not> tok_done (token_read_current it)" "tok_pos (token_read_current it) = tok_pos it"
    "tok_header (token_read_current it) = tok_header it"
    using less.prems by (simp_all add: token_read_current_def Let_def)
  show ?case
  proof (cases "sv_find ?rest CHR '',''")
    case None
    then have "sv_find_from (tok_header it) CHR '','' (tok_pos it) = None" "CHR '','' \<notin> set ?rest"
      by (simp_all add: sv_find_from_def sv_find_None_iff)
    with less.prems cur show ?thesis
      by (simp add: token_collect.simps [of "token_read_current it"] token_next_def
          token_collect.simps [of "_\<lparr>tok_done := True, tok_token := []\<rparr>"])
        (simp add: token_read_current_def substr_from_def)
  next
    case (Some i)
    define a b where "a = take i ?rest" and "b = drop (Suc i) ?rest"
    with sv_find_split [OF Some]
    have ab: "?rest = a @ CHR '','' # b" "CHR '','' \<notin> set a" "length a = i" by auto
    have find: "sv_find_from (tok_header it) CHR '','' (tok_pos it) = Some (tok_pos it + i)"
      using Some by (simp add: sv_find_from_def)
    let ?nx = "(token_read_current it)\<lparr>tok_pos := tok_pos it + i + 1\<rparr>"
    have len: "length ?rest = Suc (i + length b)" using ab by simp
    then have "tok_pos it + i + 1 \<le> length (tok_header it)" by simp
    moreover have "drop (tok_pos it + i + 1) (tok_header it) = drop (Suc i) ?rest" by (simp add: add_ac)
    then have "drop (tok_pos it + i + 1) (tok_header it) = b" using ab by simp
    ultimately have "token_collect (token_read_current ?nx) = map trim (split_on CHR '','' b)"
      using less.hyps [of ?nx] cur len by simp
    moreover have "tok_token (token_read_current it) = trim a"
      using less.prems find ab by (simp add: token_read_current_def Let_def substr_def)
    ultimately show ?thesis
      using cur find ab
      by (simp add: token_collect.simps [of "token_read_current it"] token_next_def)
  qed
qed

lemma header_tokens_eq: "header_tokens s = map trim (split_on CHR '','' s)"
  using token_collect_at [of "\<lparr>tok_header = s, tok_pos = 0, tok_token = [], tok_done = True\<rparr>"]
  by (simp add: header_tokens_def token_begin_def)

text \<open>
  \<open>HttpFields::set\<close> leaves exactly one field with the given name, holding the new value,
  in the place of the first one it had; the values of every other name, and the order of the
  other fields, stay as they were.
\<close>

lemma http_fields_set_values:
  "fields_values (fields_set key v f) k = (if key_eq f k key then [v] else fields_values f k)
   \<and> filter (\<lambda>p. \<not> key_eq f (fst p) key) (field_data (fields_set key v f)) =
       filter (\<lambda>p. \<not> key_eq f (fst p) key) (field_data f)"
proof -
  have "filter (\<lambda>p. \<not> key_eq f (fst p) key) (field_data (fields_set key v f)) =
      filter (\<lambda>p. \<not> key_eq f (fst p) key) (field_data f)"
  proof (cases "index_of (\<lambda>p. key_eq f (fst p) key) (field_data f)")
    case None
    then show ?thesis by (simp add: fields_set_data key_eq_iff)
  next
    case (Some i)
    note parts = index_of_split [OF Some]
    have "filter (\<lambda>p. \<not> key_eq f (fst p) key) (field_data f) = filter (\<lambda>p. \<not> key_eq f (fst p) key)
        (take i (field_data f) @ field_data f ! i # drop (Suc i) (field_data f))"
      using parts(1) by simp
    with Some parts(3) show ?thesis by (simp add: fields_set_data)
  qed
  then show ?thesis by (simp add: fields_values_set)
qed

definition token_ok :: "string \<Rightarrow> bool" where
  "token_ok t \<longleftrightarrow> t \<noteq> [] \<and> CHR '','' \<notin> set t \<and> trim t = t"

lemma join_header_tokens_Cons:
  "list_all token_ok ts \<Longrightarrow> acc \<noteq> [] \<Longrightarrow>
     foldl (\<lambda>out token. (if out \<noteq> [] then out @ '', '' else out) @ token) acc ts =
       acc @ concat (map (\<lambda>a. CHR '','' # CHR '' '' # a) ts)"
  by (induction ts arbitrary: acc) auto

lemma trim_space: "trim (CHR '' '' # t) = trim t"
  by (simp add: trim_def trim_with_def is_ws_def)

lemma tokens_of_joined:
  "list_all token_ok (t # ts) \<Longrightarrow>
     map trim (split_on CHR '','' (t @ concat (map (\<lambda>a. CHR '','' # CHR '' '' # a) ts))) = t # ts"
proof (induction ts arbitrary: t)
  case Nil
  then show ?case by (simp add: token_ok_def)
next
  case (Cons u us)
  let ?tail = "concat (map (\<lambda>a. CHR '','' # CHR '' '' # a) us)"
  from Cons.prems have IH: "map trim (split_on CHR '','' (u @ ?tail)) = u # us"
    by (intro Cons.IH) simp
  have "map trim (split_on CHR '','' (CHR '' '' # u @ ?tail)) = u # us"
    using IH by (cases "split_on CHR '','' (u @ ?tail)") (auto simp: trim_space)
  with Cons.prems show ?case by (simp add: token_ok_def)
qed

text \<open>
  Splitting a joined header value gives the tokens back: \<open>header_tokens\<close> inverts
  \<open>join_header_tokens\<close> on non-empty trimmed tokens without commas.
\<close>

lemma header_tokens_join:
  assumes "list_all token_ok ts" and "ts \<noteq> []"
  shows "header_tokens (join_header_tokens ts) = ts"
proof -
  obtain u us where ts: "ts = u # us" using assms(2) by (cases ts) auto
  with assms(1) have "join_header_tokens ts = u @ concat (map (\<lambda>a. CHR '','' # CHR '' '' # a) us)"
    by (simp add: join_header_tokens_def join_header_tokens_Cons token_ok_def)
  with assms ts show ?thesis by (simp add: header_tokens_eq tokens_of_joined)
qed

lemma header_tokens_join_witness:
  "header_tokens (join_header_tokens [''gzip'', ''br;q=0.5'', ''*'']) = [''gzip'', ''br;q=0.5'', ''*'']"
  by (rule header_tokens_join) (simp_all add: token_ok_def trim_def trim_with_def is_ws_def)

section \<open>Facts about URLs\<close>

lemma sv_find_str_first:
  "n \<noteq> [] \<Longrightarrow> hd n \<notin> set a \<Longrightarrow> sv_find_str (a @ n @ b) n = Some (length a)"
proof (induction a)
  case Nil
  then show ?case by (cases n) (auto simp: prefix_def)
next
  case (Cons x a)
  then have "\<not> prefix n (x # a @ n @ b)" by (cases n) auto
  with Cons show ?case by simp
qed

text \<open>A host that \<open>split_authority_host_port\<close> reads back whole.\<close>

definition host_ok :: "string \<Rightarrow> bool" where
  "host_ok h \<longleftrightarrow>
     h \<noteq> [] \<and> \<not> list_ex bad_target_byte h \<and> CHR ''/'' \<notin> set h \<and> CHR ''?'' \<notin> set h
     \<and> (if hd h = CHR ''['' then last h = CHR '']'' \<and> CHR '']'' \<notin> set (butlast h)
        else CHR '':'' \<notin> set h)"

definition url_ok :: "url \<Rightarrow> bool" where
  "url_ok u \<longleftrightarrow>
     (url_scheme u = ''http'' \<or> url_scheme u = ''https'') \<and> host_ok (url_host u)
     \<and> 0 < url_port u \<and> url_port u < 2 ^ 16
     \<and> url_path u \<noteq> [] \<and> hd (url_path u) = CHR ''/'' \<and> CHR ''?'' \<notin> set (url_path u)
     \<and> \<not> list_ex bad_target_byte (url_path u) \<and> \<not> list_ex bad_target_byte (url_query u)"

lemma host_ok_bracketed:
  assumes "host_ok h" and "hd h = CHR ''[''"
  shows "\<exists>m. h = CHR ''['' # m @ '']'' \<and> CHR '']'' \<notin> set m"
proof -
  from assms have h: "h = butlast h @ '']''" "CHR '']'' \<notin> set (butlast h)"
    unfolding host_ok_def by (metis append_butlast_last_id)+
  with assms(2) obtain m where "butlast h = CHR ''['' # m"
    by (cases "butlast h") (auto split: if_splits)
  with h show ?thesis by (metis append_Cons list.set_intros(2))
qed

lemma dec_string_no: "\<not> is_digit c \<Longrightarrow> c \<notin> set (dec_string n)"
  using dec_string_digits by blast

lemma split_authority_host:
  assumes "host_ok h"
  shows "split_authority_host_port h = (plain_authority h)\<lparr>au_bracketed := (hd h = CHR ''['')\<rparr>"
    and "split_authority_host_port (h @ CHR '':'' # dec_string p) =
      (plain_authority h)\<lparr>au_port := dec_string p, au_has_port := True, au_bracketed := (hd h = CHR ''['')\<rparr>"
proof -
  have "split_authority_host_port h = (plain_authority h)\<lparr>au_bracketed := (hd h = CHR ''['')\<rparr> \<and>
    split_authority_host_port (h @ CHR '':'' # dec_string p) =
      (plain_authority h)\<lparr>au_port := dec_string p, au_has_port := True, au_bracketed := (hd h = CHR ''['')\<rparr>"
  proof (cases "hd h = CHR ''[''")
    case True
    with host_ok_bracketed [OF assms] obtain m where m: "h = CHR ''['' # m @ '']''" "CHR '']'' \<notin> set m"
      by blast
    have "sv_find (CHR ''['' # m @ CHR '']'' # s) CHR '']'' = Some (Suc (length m))" for s
      using m(2) sv_find_append_found [of "CHR '']''" "CHR ''['' # m" s] by simp
    with m show ?thesis
      by (simp add: split_authority_host_port_def substr_from_def substr_def plain_authority_def)
  next
    case False
    with assms have "CHR '':'' \<notin> set h" "\<not> prefix ''['' h" "\<not> prefix ''['' (h @ CHR '':'' # dec_string p)"
      by (auto simp: host_ok_def prefix_def) (cases h; auto)+
    moreover have "sv_rfind (h @ CHR '':'' # dec_string p) CHR '':'' = Some (length h)"
      by (rule sv_rfind_append_found) (simp add: dec_string_no is_digit_def char_between_def)
    ultimately show ?thesis
      using False by (simp add: split_authority_host_port_def substr_from_def substr_def plain_authority_def
          sv_rfind_None_iff [THEN iffD2])
  qed
  then show "split_authority_host_port h = (plain_authority h)\<lparr>au_bracketed := (hd h = CHR ''['')\<rparr>"
    "split_authority_host_port (h @ CHR '':'' # dec_string p) =
      (plain_authority h)\<lparr>au_port := dec_string p, au_has_port := True, au_bracketed := (hd h = CHR ''['')\<rparr>"
    by blast+
qed


lemma split_path_query_parts:
  "CHR ''?'' \<notin> set p \<Longrightarrow> split_path_query p = \<lparr>pq_path = p, pq_query = [], pq_query_suffix = []\<rparr>"
  "CHR ''?'' \<notin> set p \<Longrightarrow> split_path_query (p @ CHR ''?'' # q) =
     \<lparr>pq_path = p, pq_query = q, pq_query_suffix = CHR ''?'' # q\<rparr>"
  by (simp_all add: split_path_query_def substr_def substr_from_def)

definition url_authority :: "url \<Rightarrow> string" where
  "url_authority u = url_host u @ (if \<not> uses_default_port u then CHR '':'' # dec_string (url_port u) else [])"

definition url_target :: "url \<Rightarrow> string" where
  "url_target u = url_path u @ (if url_query u \<noteq> [] then CHR ''?'' # url_query u else [])"

lemma url_str_parts:
  "url_ok u \<Longrightarrow> url_str u = url_scheme u @ ''://'' @ url_authority u @ url_target u"
  by (simp add: url_str_def url_authority_def url_target_def url_ok_def)

lemma url_authority_end:
  assumes "url_ok u"
  shows "sv_find_first_of (url_authority u @ url_target u) ''/?'' = Some (length (url_authority u))"
proof -
  from assms obtain t where t: "url_target u = CHR ''/'' # t"
    by (cases "url_path u") (auto simp: url_ok_def url_target_def)
  have "\<forall>x\<in>set (url_authority u). x \<notin> set ''/?''"
    using assms dec_string_no [of "CHR ''/''"] dec_string_no [of "CHR ''?''"]
    by (auto simp: url_authority_def url_ok_def host_ok_def is_digit_def char_between_def)
  then show ?thesis
    unfolding sv_find_first_of_def t by (intro index_of_append_found) auto
qed

lemma url_parse_target_parts:
  assumes "url_ok u" and "scheme = url_scheme u" and "port = url_port u"
  shows "url_parse_target \<lparr>url_scheme = scheme, url_host = url_host u, url_port = port, url_path = ''/'',
      url_query = []\<rparr> (url_authority u @ url_target u) (Some (length (url_authority u))) = Inr u"
proof -
  have "split_path_query (url_target u) = \<lparr>pq_path = url_path u, pq_query = url_query u,
      pq_query_suffix = (if url_query u = [] then [] else CHR ''?'' # url_query u)\<rparr>"
    using assms by (simp add: url_target_def url_ok_def split_path_query_parts)
  with assms show ?thesis
    by (simp add: url_parse_target_def substr_from_def url_ok_def)
qed

lemma url_parse_str:
  assumes "url_ok u" and "length (url_str u) \<le> 8192"
  shows "url_parse (url_str u) = Inr u"
proof -
  let ?rest = "url_authority u @ url_target u"
  have scheme: "CHR '':'' \<notin> set (url_scheme u)" "ascii_lower (url_scheme u) = url_scheme u"
    and str: "url_str u = url_scheme u @ ''://'' @ ?rest"
    using assms(1) by (auto simp: url_ok_def ascii_lower_def lower_char_def char_between_def url_str_parts)
  have find: "sv_find_str (url_str u) ''://'' = Some (length (url_scheme u))"
    unfolding str by (rule sv_find_str_first) (use scheme in simp_all)
  have host: "host_ok (url_host u)" "url_host u \<noteq> []" "\<not> list_ex bad_target_byte (url_host u)"
    using assms(1) by (auto simp: url_ok_def host_ok_def)
  have parts: "split_authority_host_port (url_authority u) =
      (plain_authority (url_host u))\<lparr>au_port := (if uses_default_port u then [] else dec_string (url_port u)),
        au_has_port := \<not> uses_default_port u, au_bracketed := (hd (url_host u) = CHR ''['')\<rparr>"
    using split_authority_host(1) [OF host(1)] split_authority_host(2) [OF host(1), of "url_port u"]
    by (simp add: url_authority_def plain_authority_def)
  have port: "uses_default_port u \<Longrightarrow> (if url_scheme u = ''https'' then 443 else 80) = url_port u"
    "url_port u \<noteq> 0" "url_port u < 2 ^ 16"
    using assms(1) by (auto simp: uses_default_port_def url_ok_def)
  have "url_str u \<noteq> []" "?rest \<noteq> []" "url_authority u \<noteq> []"
    using host(2) by (simp_all add: str url_authority_def)
  moreover have "url_scheme u = ''http'' \<or> url_scheme u = ''https''"
    using assms(1) by (simp add: url_ok_def)
  moreover have "substr (url_str u) 0 (length (url_scheme u)) = url_scheme u"
    "substr_from (url_str u) (length (url_scheme u) + 3) = ?rest"
    unfolding str by (simp_all add: substr_def substr_from_def)
  ultimately show ?thesis
    using assms(2) find scheme(2) parts host port url_authority_end [OF assms(1)]
    by (auto simp add: url_parse_def Let_def substr_def plain_authority_def
        url_parse_target_parts [OF assms(1)])
qed

lemma set_substr: "set (substr s a n) \<subseteq> set s" "set (substr_from s a) \<subseteq> set s"
  unfolding substr_def substr_from_def by (meson set_drop_subset set_take_subset subset_trans)+

lemma split_authority_host_set: "set (au_host (split_authority_host_port a)) \<subseteq> set a"
  by (auto simp: split_authority_host_port_def plain_authority_def Let_def
      dest: set_substr(1) [THEN subsetD] split: option.splits)

lemma prefix_single: "prefix [c] s \<longleftrightarrow> s \<noteq> [] \<and> hd s = c"
  by (cases s) auto

lemma split_authority_bracket:
  assumes "parts = split_authority_host_port a" and "\<not> au_invalid_bracket parts"
    and "\<not> au_invalid_suffix parts" and "hd (au_host parts) = CHR ''[''" and "au_host parts \<noteq> []"
  shows "last (au_host parts) = CHR '']'' \<and> CHR '']'' \<notin> set (butlast (au_host parts))"
proof (cases "prefix ''['' a")
  case True
  with assms(1,2) obtain b where b: "sv_find a CHR '']'' = Some b"
    by (cases "sv_find a CHR '']''") (simp_all add: split_authority_host_port_def)
  note sp = sv_find_split [OF b]
  have "au_host parts = take (b + 1) a"
    using assms(1-3) True b
    by (auto simp: split_authority_host_port_def plain_authority_def substr_def substr_from_def Let_def
        split: if_splits)
  then have "au_host parts = take b a @ '']''"
    using sp(3) take_Suc_conv_app_nth [of b a] arg_cong [OF sp(1), of "\<lambda>s. s ! b"]
    by (simp add: nth_append)
  with sp(2) show ?thesis by simp
next
  case False
  then have "au_host parts = a \<or> (\<exists>n. au_host parts = take n a)"
    by (auto simp: assms(1) split_authority_host_port_def plain_authority_def substr_def split: option.splits)
  with assms(4,5) False show ?thesis
    by (cases a) (auto simp: prefix_single take_Cons' split: if_splits)
qed

text \<open>
  Everything \<open>Url::parse\<close> accepts is well formed, unless an unbracketed host contains a
  colon, which \<open>parse\<close> lets through.
\<close>

lemma path_first_slash:
  assumes "sv_find_first_of r ''/?'' = Some e"
  shows "pq_path (split_path_query (substr_from r e)) = []
    \<or> hd (pq_path (split_path_query (substr_from r e))) = CHR ''/''"
proof -
  note sp = index_of_split [OF assms [unfolded sv_find_first_of_def]]
  have "substr_from r e = r ! e # drop (Suc e) r"
    unfolding substr_from_def using sp(4) by (metis Cons_nth_drop_Suc)
  with sp(3) show ?thesis
    by (auto simp: split_path_query_def substr_def sv_find_Cons split: option.splits)
qed

lemma split_path_query_no_mark: "CHR ''?'' \<notin> set (pq_path (split_path_query t))"
  by (auto simp: split_path_query_def substr_def sv_find_None_iff split: option.splits dest: sv_find_split(2))

lemma url_parse_target_ok:
  assumes "url_parse_target u r e = Inr v" and "e = sv_find_first_of r ''/?''"
    and "url_query u = []"
  shows "\<exists>p q. v = u\<lparr>url_path := p, url_query := q\<rparr> \<and> p \<noteq> [] \<and> hd p = CHR ''/'' \<and> CHR ''?'' \<notin> set p
    \<and> \<not> list_ex bad_target_byte p \<and> \<not> list_ex bad_target_byte q"
proof (cases e)
  case None
  with assms(1,3) show ?thesis
    by (intro exI [of _ "''/''"] exI [of _ "[]"])
      (auto simp: url_parse_target_def Let_def split: if_splits)
next
  case (Some k)
  let ?pq = "split_path_query (substr_from r k)"
  have "pq_path ?pq = [] \<or> hd (pq_path ?pq) = CHR ''/''"
    using path_first_slash assms(2) Some by metis
  moreover have "v = u\<lparr>url_path := (if pq_path ?pq = [] then ''/'' else pq_path ?pq), url_query := pq_query ?pq\<rparr>"
    "\<not> list_ex bad_target_byte (url_path v)" "\<not> list_ex bad_target_byte (url_query v)"
    using assms(1) Some by (auto simp: url_parse_target_def Let_def split: if_splits)
  ultimately show ?thesis
    using split_path_query_no_mark [of "substr_from r k"]
    by (intro exI [of _ "url_path v"] exI [of _ "url_query v"]) auto
qed

lemma first_of_free:
  assumes "c \<in> set cs"
  shows "c \<notin> set (case sv_find_first_of r cs of None \<Rightarrow> r | Some e \<Rightarrow> substr r 0 e)"
proof (cases "index_of (\<lambda>x. x \<in> set cs) r")
  case None
  then have "\<forall>x\<in>set r. x \<notin> set cs" by (simp only: index_of_None_iff)
  with assms None show ?thesis unfolding sv_find_first_of_def by auto
next
  case (Some e)
  with assms index_of_split(2) [OF Some] show ?thesis
    unfolding sv_find_first_of_def by (auto simp: substr_def)
qed

lemma url_parse_ok:
  assumes "url_parse s = Inr u" and "hd (url_host u) = CHR ''['' \<or> CHR '':'' \<notin> set (url_host u)"
  shows "url_ok u"
proof -
  obtain k where k: "sv_find_str s ''://'' = Some k"
    using assms(1) by (auto simp: url_parse_def split: if_splits option.splits)
  define scheme where "scheme = ascii_lower (substr s 0 k)"
  define r where "r = substr_from s (k + 3)"
  define a where "a = (case sv_find_first_of r ''/?'' of None \<Rightarrow> r | Some e \<Rightarrow> substr r 0 e)"
  define parts where "parts = split_authority_host_port a"
  note run = assms(1) [unfolded url_parse_def Let_def k option.case, folded scheme_def r_def,
      folded a_def, folded parts_def]
  have scheme: "scheme = ''http'' \<or> scheme = ''https''"
    and parts: "\<not> au_invalid_bracket parts" "\<not> au_invalid_suffix parts"
    using run by (auto split: if_splits)
  define chosen where "chosen =
    (if au_has_port parts then
       (case parse_whole_unsigned (2 ^ 16) (au_port parts) of
          None \<Rightarrow> None | Some p \<Rightarrow> if p = 0 then None else Some p)
     else Some (if scheme = ''https'' then 443 else 80))"
  obtain port where p: "chosen = Some port"
    using run [folded chosen_def] by (auto split: if_splits option.splits)
  have port: "0 < port" "port < 2 ^ 16"
    using p by (auto simp: chosen_def parse_whole_unsigned_Some_iff split: if_splits option.splits)
  have host: "au_host parts \<noteq> []" "\<not> list_ex bad_target_byte (au_host parts)"
    and tgt: "url_parse_target \<lparr>url_scheme = scheme, url_host = au_host parts, url_port = port,
        url_path = ''/'', url_query = []\<rparr> r (sv_find_first_of r ''/?'') = Inr u"
    using run [folded chosen_def] by (auto simp: p split: if_splits)
  have "CHR ''/'' \<notin> set a \<and> CHR ''?'' \<notin> set a"
    unfolding a_def by (intro conjI first_of_free) simp_all
  then have "CHR ''/'' \<notin> set (au_host parts)" "CHR ''?'' \<notin> set (au_host parts)"
    using split_authority_host_set [of a] by (auto simp: parts_def)
  moreover note split_authority_bracket [OF parts_def parts]
  moreover have "url_host u = au_host parts"
    using url_parse_target_ok [OF tgt refl, simplified] by auto
  ultimately have "host_ok (au_host parts)"
    using host assms(2) by (auto simp: host_ok_def)
  with url_parse_target_ok [OF tgt refl, simplified] scheme port show ?thesis
    by (auto simp: url_ok_def)
qed

text \<open>
  C14: A URL that \<open>Url::parse\<close> accepts survives printing: parsing \<open>str()\<close> gives the same URL
  again, as long as the printed text is within the length limit and the host is a bracketed
  literal or contains no colon (\<open>parse\<close> also accepts hosts such as \<open>a:b\<close> in
  \<open>http://a:b:80\<close>, whose printed form it then rejects).
\<close>

theorem url_parse_str_parse:
  assumes "url_parse s = Inr u" and "hd (url_host u) = CHR ''['' \<or> CHR '':'' \<notin> set (url_host u)"
    and "length (url_str u) \<le> 8192"
  shows "url_parse (url_str u) = Inr u"
  using url_parse_str [OF url_parse_ok [OF assms(1,2)] assms(3)] .

theorem url_parse_str_parse_witness:
  "url_parse (url_str \<lparr>url_scheme = ''https'', url_host = ''[::1]'', url_port = 8443, url_path = ''/p'',
      url_query = ''q=1''\<rparr>) =
    Inr \<lparr>url_scheme = ''https'', url_host = ''[::1]'', url_port = 8443, url_path = ''/p'', url_query = ''q=1''\<rparr>"
proof (rule url_parse_str_parse)
  show "url_parse ''HTTPS://[::1]:8443/p?q=1'' = Inr \<lparr>url_scheme = ''https'', url_host = ''[::1]'',
      url_port = 8443, url_path = ''/p'', url_query = ''q=1''\<rparr>" by code_simp
  show "length (url_str \<lparr>url_scheme = ''https'', url_host = ''[::1]'', url_port = 8443, url_path = ''/p'',
      url_query = ''q=1''\<rparr>) \<le> 8192" by (simp add: url_str_def uses_default_port_def dec_string.simps)
qed simp

end
