(* ===== verification/Http_Parse.thy ===== *)
theory Http_Parse
  imports Http_Types
begin

text \<open>
  Models \<open>src/net/http_parse_helpers.cxx\<close>: \<open>Content-Length\<close> values, chunk-size lines, media
  types, form bodies and the incremental decoder of chunked transfer coding.

  Out-parameters are results. The decoder's \<open>switch\<close> inside \<open>while (true)\<close> is one step
  function, which either returns a code or asks for another round, and the loop over it.
  \<open>size_t\<close> values are natural numbers; a subtraction whose result could wrap is \<open>usub\<close>.
\<close>

definition usub :: "nat \<Rightarrow> nat \<Rightarrow> nat" where
  "usub a b = (if b \<le> a then a - b else 2 ^ 64 + a - b)"

definition crlf :: string where
  "crlf = [CHR 0x0D, CHR 0x0A]"

section \<open>Content-Length\<close>

definition kMaxChunkHexDigits :: nat where "kMaxChunkHexDigits = 16"

definition kMaxChunkSizeLineBytes :: nat where "kMaxChunkSizeLineBytes = 256"

definition kMaxChunkTrailerLines :: nat where "kMaxChunkTrailerLines = 64"

definition kMaxChunkTrailerBytes :: nat where "kMaxChunkTrailerBytes = 8192"

datatype content_length_error = CL_malformed | CL_too_large

definition parse_content_length_value :: "string \<Rightarrow> content_length_error + nat" where
  "parse_content_length_value v =
     (if v = [] then Inl CL_malformed
      else case parse_whole_unsigned (2 ^ 64) v of
             None \<Rightarrow> Inl CL_malformed
           | Some n \<Rightarrow> Inr n)"

definition parse_content_length_limited :: "string \<Rightarrow> nat \<Rightarrow> content_length_error + nat" where
  "parse_content_length_limited v max_body_size =
     (case parse_content_length_value v of
        Inl e \<Rightarrow> Inl e
      | Inr n \<Rightarrow> if max_body_size < n then Inl CL_too_large else Inr n)"

section \<open>Chunk-size lines and trailers\<close>

text \<open>The digit loop, with the two overflow checks of the compiler builtins.\<close>

primrec chunk_size_digits :: "string \<Rightarrow> nat \<Rightarrow> nat option" where
  "chunk_size_digits [] n = Some n"
| "chunk_size_digits (c # cs) n =
     (let d = hex_char_to_int c
      in if d < 0 then None
         else if 2 ^ 64 \<le> n * 16 then None
         else if 2 ^ 64 \<le> n * 16 + nat d then None
         else chunk_size_digits cs (n * 16 + nat d))"

definition parse_chunk_size_line :: "string \<Rightarrow> nat option" where
  "parse_chunk_size_line size_line_raw =
     (if kMaxChunkSizeLineBytes < length size_line_raw then None
      else
        let size_digits =
          (case sv_find size_line_raw CHR '';'' of
             None \<Rightarrow> size_line_raw
           | Some semi \<Rightarrow> substr size_line_raw 0 semi)
        in if size_digits = [] \<or> kMaxChunkHexDigits < length size_digits then None
           else chunk_size_digits size_digits 0)"

text \<open>The two counters are updated in place, also when the line is refused.\<close>

definition accept_chunk_trailer_line :: "nat \<Rightarrow> nat \<Rightarrow> nat \<Rightarrow> bool \<times> nat \<times> nat" where
  "accept_chunk_trailer_line line_bytes trailer_lines trailer_bytes =
     (if kMaxChunkTrailerLines < trailer_lines + 1 then (False, trailer_lines + 1, trailer_bytes)
      else if kMaxChunkTrailerBytes < line_bytes \<or> kMaxChunkTrailerBytes - line_bytes < trailer_bytes
      then (False, trailer_lines + 1, trailer_bytes)
      else (True, trailer_lines + 1, trailer_bytes + line_bytes))"

section \<open>Media types\<close>

definition content_type_media_type :: "string \<Rightarrow> string" where
  "content_type_media_type content_type =
     trim (case sv_find content_type CHR '';'' of
             None \<Rightarrow> content_type
           | Some semi \<Rightarrow> substr content_type 0 semi)"

definition content_type_matches :: "string \<Rightarrow> string \<Rightarrow> bool" where
  "content_type_matches content_type expected =
     ascii_iequals (content_type_media_type content_type) expected"

definition content_type_is_form_urlencoded :: "string \<Rightarrow> bool" where
  "content_type_is_form_urlencoded content_type =
     content_type_matches content_type ''application/x-www-form-urlencoded''"

definition content_type_is_multipart_form_data :: "string \<Rightarrow> bool" where
  "content_type_is_multipart_form_data content_type =
     content_type_matches content_type ''multipart/form-data''"

definition content_type_is_json_like :: "string \<Rightarrow> bool" where
  "content_type_is_json_like content_type =
     (let media_type = content_type_media_type content_type
      in ascii_iequals media_type ''application/json''
         \<or> (suffix ''+json'' media_type \<and> sv_find media_type CHR ''/'' \<noteq> None))"

section \<open>Form bodies\<close>

definition urlencoded_component :: "string \<Rightarrow> http_fields \<Rightarrow> http_fields" where
  "urlencoded_component p out =
     (case sv_find p CHR ''='' of
        Some eq \<Rightarrow>
          (let key = substr p 0 eq; field_value = substr_from p (eq + 1)
           in if \<not> url_needs_component_decode key \<and> \<not> url_needs_component_decode field_value
              then fields_emplace_back key field_value out
              else fields_emplace_back (url_decode key) (url_decode field_value) out)
      | None \<Rightarrow>
          if p \<noteq> [] then
            (if \<not> url_needs_component_decode p then fields_emplace_back p [] out
             else fields_emplace_back (url_decode p) [] out)
          else out)"

text \<open>The second loop of \<open>parse_urlencoded\<close>; the first only reserves memory.\<close>

function parse_urlencoded :: "string \<Rightarrow> http_fields \<Rightarrow> http_fields" where
  "parse_urlencoded data out =
     (case sv_find data CHR ''&'' of
        None \<Rightarrow> urlencoded_component data out
      | Some amp \<Rightarrow>
          parse_urlencoded (drop (amp + 1) data) (urlencoded_component (take amp data) out))"
  by pat_completeness auto
termination
  by (relation "measure (\<lambda>(data, out). length data)") (auto dest: sv_find_less)

declare parse_urlencoded.simps [simp del]

section \<open>Chunked decoding\<close>

datatype chunk_phase = PhSizeLine | PhData | PhDataCrlf | PhTrailers | PhComplete

record chunk_state =
  cs_active :: bool
  cs_body_start :: nat
  cs_pos :: nat
  cs_chunks_seen :: nat
  cs_current_chunk_size :: nat
  cs_remaining :: nat
  cs_trailer_lines :: nat
  cs_trailer_bytes :: nat
  cs_body_bytes :: nat
  cs_phase :: chunk_phase
  cs_body :: string

definition chunk_reset :: chunk_state where
  "chunk_reset =
     \<lparr>cs_active = False, cs_body_start = 0, cs_pos = 0, cs_chunks_seen = 0,
      cs_current_chunk_size = 0, cs_remaining = 0, cs_trailer_lines = 0, cs_trailer_bytes = 0,
      cs_body_bytes = 0, cs_phase = PhSizeLine, cs_body = []\<rparr>"

definition step_size_line :: "string \<Rightarrow> nat \<Rightarrow> nat \<Rightarrow> chunk_state \<Rightarrow> int option \<times> chunk_state" where
  "step_size_line raw max_body_size max_chunks st =
     (case sv_find_str_from raw crlf (cs_pos st) of
        None \<Rightarrow>
          if kMaxChunkSizeLineBytes < usub (length raw) (cs_pos st) then (Some (-1), st)
          else (Some 0, st)
      | Some e \<Rightarrow>
          (let st1 = st\<lparr>cs_chunks_seen := cs_chunks_seen st + 1\<rparr>
           in if max_chunks < cs_chunks_seen st1 then (Some (-1), st1)
              else case parse_chunk_size_line (substr raw (cs_pos st) (e - cs_pos st)) of
                     None \<Rightarrow> (Some (-1), st1)
                   | Some n \<Rightarrow>
                       (let st2 = st1\<lparr>cs_pos := e + 2, cs_current_chunk_size := n\<rparr>
                        in if n = 0 then (None, st2\<lparr>cs_phase := PhTrailers\<rparr>)
                           else if max_body_size < cs_body_bytes st \<or> max_body_size - cs_body_bytes st < n
                           then (Some (-2), st2)
                           else (None, st2\<lparr>cs_remaining := n, cs_phase := PhData\<rparr>))))"

definition step_data :: "string \<Rightarrow> chunk_state \<Rightarrow> int option \<times> chunk_state" where
  "step_data raw st =
     (if length raw \<le> cs_pos st then (Some 0, st)
      else
        let available = min (cs_remaining st) (length raw - cs_pos st);
            st1 = (if 0 < available then
                     st\<lparr>cs_body := cs_body st @ substr raw (cs_pos st) available,
                        cs_pos := cs_pos st + available,
                        cs_remaining := cs_remaining st - available,
                        cs_body_bytes := cs_body_bytes st + available\<rparr>
                   else st)
        in if 0 < cs_remaining st1 then (Some 0, st1) else (None, st1\<lparr>cs_phase := PhDataCrlf\<rparr>))"

text \<open>
  Reading \<open>raw[pos]\<close> past the end is undefined behaviour in the source; the position never
  passes the end of the buffer (\<open>chunk_pos_ok\<close> below), and the model refuses there.
\<close>

definition step_data_crlf :: "string \<Rightarrow> chunk_state \<Rightarrow> int option \<times> chunk_state" where
  "step_data_crlf raw st =
     (if usub (length raw) (cs_pos st) < 2 then (Some 0, st)
      else if \<not> (cs_pos st + 1 < length raw \<and> raw ! cs_pos st = CHR 0x0D \<and> raw ! (cs_pos st + 1) = CHR 0x0A)
      then (Some (-1), st)
      else (None, st\<lparr>cs_pos := cs_pos st + 2, cs_phase := PhSizeLine\<rparr>))"

definition step_trailers :: "string \<Rightarrow> nat \<Rightarrow> chunk_state \<Rightarrow> int option \<times> chunk_state" where
  "step_trailers raw body_start st =
     (case sv_find_str_from raw crlf (cs_pos st) of
        None \<Rightarrow>
          if kMaxChunkTrailerBytes < (usub (length raw) (cs_pos st) + 2) mod 2 ^ 64 then (Some (-1), st)
          else (Some 0, st)
      | Some e \<Rightarrow>
          if e = cs_pos st then
            (let st1 = st\<lparr>cs_pos := cs_pos st + 2, cs_phase := PhComplete\<rparr>
             in (Some (int (usub (cs_pos st1) body_start)), st1))
          else
            (case accept_chunk_trailer_line (e - cs_pos st + 2) (cs_trailer_lines st) (cs_trailer_bytes st) of
               (ok, lines, bytes) \<Rightarrow>
                 (let st1 = st\<lparr>cs_trailer_lines := lines, cs_trailer_bytes := bytes\<rparr>
                  in if \<not> ok then (Some (-1), st1) else (None, st1\<lparr>cs_pos := e + 2\<rparr>))))"

definition chunk_step ::
    "string \<Rightarrow> nat \<Rightarrow> nat \<Rightarrow> nat \<Rightarrow> chunk_state \<Rightarrow> int option \<times> chunk_state" where
  "chunk_step raw body_start max_body_size max_chunks st =
     (case cs_phase st of
        PhSizeLine \<Rightarrow> step_size_line raw max_body_size max_chunks st
      | PhData \<Rightarrow> step_data raw st
      | PhDataCrlf \<Rightarrow> step_data_crlf raw st
      | PhTrailers \<Rightarrow> step_trailers raw body_start st
      | PhComplete \<Rightarrow> (Some (int (usub (cs_pos st) body_start)), st))"

definition phase_rank :: "chunk_phase \<Rightarrow> nat" where
  "phase_rank ph = (if ph = PhData then 1 else 0)"

definition chunk_measure :: "string \<Rightarrow> chunk_state \<Rightarrow> nat" where
  "chunk_measure raw st = 2 * (length raw + 2 - cs_pos st) + phase_rank (cs_phase st)"

lemma find_crlf_bounds:
  "sv_find_str_from raw crlf p = Some e \<Longrightarrow> p \<le> e \<and> e + 2 \<le> length raw"
  by (auto dest: sv_find_str_from_SomeD simp: crlf_def)

lemma chunk_step_measure:
  assumes "chunk_step raw body_start max_body_size max_chunks st = (None, st')"
  shows "chunk_measure raw st' < chunk_measure raw st"
proof (cases "cs_phase st")
  case PhSizeLine
  with assms show ?thesis
    by (auto simp: chunk_step_def step_size_line_def Let_def chunk_measure_def phase_rank_def
        split: option.splits if_splits dest!: find_crlf_bounds)
next
  case PhData
  with assms show ?thesis
    by (auto simp: chunk_step_def step_data_def Let_def chunk_measure_def phase_rank_def
        split: if_splits)
next
  case PhDataCrlf
  with assms show ?thesis
    by (auto simp: chunk_step_def step_data_crlf_def chunk_measure_def phase_rank_def split: if_splits)
next
  case PhTrailers
  with assms show ?thesis
    by (auto simp: chunk_step_def step_trailers_def Let_def chunk_measure_def phase_rank_def
        split: option.splits if_splits prod.splits dest!: find_crlf_bounds)
next
  case PhComplete
  with assms show ?thesis by (simp add: chunk_step_def)
qed

function chunk_loop :: "string \<Rightarrow> nat \<Rightarrow> nat \<Rightarrow> nat \<Rightarrow> chunk_state \<Rightarrow> int \<times> chunk_state" where
  "chunk_loop raw body_start max_body_size max_chunks st =
     (case chunk_step raw body_start max_body_size max_chunks st of
        (Some rc, st') \<Rightarrow> (rc, st')
      | (None, st') \<Rightarrow> chunk_loop raw body_start max_body_size max_chunks st')"
  by pat_completeness auto
termination
  by (relation "measure (\<lambda>(raw, _, _, _, st). chunk_measure raw st)")
    (auto intro: chunk_step_measure [OF sym])

declare chunk_loop.simps [simp del]

definition chunk_start :: "nat \<Rightarrow> chunk_state \<Rightarrow> chunk_state" where
  "chunk_start body_start st =
     (if \<not> cs_active st \<or> cs_body_start st \<noteq> body_start
      then chunk_reset\<lparr>cs_active := True, cs_body_start := body_start, cs_pos := body_start\<rparr>
      else st)"

definition decode_chunked_incremental ::
    "string \<Rightarrow> nat \<Rightarrow> nat \<Rightarrow> nat \<Rightarrow> chunk_state \<Rightarrow> int \<times> chunk_state" where
  "decode_chunked_incremental raw body_start max_body_size max_chunks st =
     chunk_loop raw body_start max_body_size max_chunks (chunk_start body_start st)"

definition decode_chunked :: "string \<Rightarrow> nat \<Rightarrow> nat \<Rightarrow> int \<times> string" where
  "decode_chunked data max_body_size max_chunks =
     (case decode_chunked_incremental data 0 max_body_size max_chunks chunk_reset of
        (rc, st) \<Rightarrow> (rc, if 0 < rc then cs_body st else []))"

section \<open>Facts about numbers and forms\<close>

text \<open>The value of a string of hexadecimal digits.\<close>

definition hex_value :: "string \<Rightarrow> nat" where
  "hex_value ds = foldl (\<lambda>n c. n * 16 + nat (hex_char_to_int c)) 0 ds"

definition is_hex :: "char \<Rightarrow> bool" where
  "is_hex c \<longleftrightarrow> 0 \<le> hex_char_to_int c"

lemma foldl_hex_bound:
  assumes "list_all is_hex ds"
  shows "foldl (\<lambda>n c. n * 16 + nat (hex_char_to_int c)) n ds < (n + 1) * 16 ^ length ds"
  using assms
proof (induction ds arbitrary: n)
  case (Cons c cs)
  have d: "nat (hex_char_to_int c) < 16"
    using Cons.prems hex_value_lower(1) [of c] by (simp add: is_hex_def)
  let ?m = "n * 16 + nat (hex_char_to_int c)"
  have "foldl (\<lambda>n c. n * 16 + nat (hex_char_to_int c)) ?m cs < (?m + 1) * 16 ^ length cs"
    using Cons by simp
  also have "\<dots> \<le> ((n + 1) * 16) * 16 ^ length cs"
    using d by (intro mult_right_mono) auto
  finally show ?case by (simp add: algebra_simps)
qed simp

lemma chunk_size_digits_eq:
  assumes "length ds \<le> k" and "n < 16 ^ (16 - k)" and "k \<le> 16"
  shows "chunk_size_digits ds n =
    (if list_all is_hex ds then Some (foldl (\<lambda>n c. n * 16 + nat (hex_char_to_int c)) n ds) else None)"
  using assms
proof (induction ds arbitrary: n k)
  case (Cons c cs)
  show ?case
  proof (cases "is_hex c")
    case True
    then have d: "nat (hex_char_to_int c) < 16"
      using hex_value_lower(1) [of c] by (simp add: is_hex_def)
    from Cons.prems obtain k' where k: "k = Suc k'" by (cases k) auto
    have "n * 16 + nat (hex_char_to_int c) < (n + 1) * 16" using d by simp
    also have "\<dots> \<le> 16 ^ (16 - k) * 16" using Cons.prems(2) by (intro mult_right_mono) auto
    also have "\<dots> = 16 ^ (16 - k')" using Cons.prems(3) k by (simp add: Suc_diff_Suc [symmetric] Suc_diff_le)
    finally have small: "n * 16 + nat (hex_char_to_int c) < 16 ^ (16 - k')" .
    also have "\<dots> \<le> (16::nat) ^ 16" by (intro power_increasing) auto
    finally have "n * 16 + nat (hex_char_to_int c) < 2 ^ 64" by simp
    with Cons.IH [OF _ small] Cons.prems k True show ?thesis
      by (simp add: Let_def is_hex_def)
  next
    case False
    then show ?thesis by (simp add: is_hex_def)
  qed
qed simp

text \<open>The digits of a chunk-size line: what precedes an extension.\<close>

definition size_line_digits :: "string \<Rightarrow> string" where
  "size_line_digits l = takeWhile (\<lambda>c. c \<noteq> CHR '';'') l"

lemma sv_find_takeWhile:
  "(case sv_find s c of None \<Rightarrow> s | Some i \<Rightarrow> substr s 0 i) = takeWhile (\<lambda>x. x \<noteq> c) s"
proof (induction s)
  case (Cons x xs)
  then show ?case
    by (cases "sv_find xs c") (auto simp: sv_find_Cons substr_def)
qed simp

lemma parse_chunk_size_line_eq:
  "parse_chunk_size_line l =
     (if length l \<le> 256 \<and> size_line_digits l \<noteq> [] \<and> length (size_line_digits l) \<le> 16
         \<and> list_all is_hex (size_line_digits l)
      then Some (hex_value (size_line_digits l)) else None)"
  using chunk_size_digits_eq [of "size_line_digits l" 16 0]
  by (auto simp: parse_chunk_size_line_def sv_find_takeWhile size_line_digits_def [symmetric]
      hex_value_def kMaxChunkSizeLineBytes_def kMaxChunkHexDigits_def Let_def)

lemma hex_string_hex: "list_all is_hex (hex_string n)"
proof (induction n rule: hex_string.induct)
  case (1 n)
  have "is_hex (hex_lower ! m)" if "m < 16" for m using that by (simp add: is_hex_def)
  with 1 show ?case by (subst hex_string.simps) auto
qed

lemma hex_value_hex_string [simp]: "hex_value (hex_string n) = n"
proof (induction n rule: hex_string.induct)
  case (1 n)
  then show ?case
    by (subst hex_string.simps) (auto simp: hex_value_def)
qed

lemma hex_string_nonempty [simp]: "hex_string n \<noteq> []"
  by (subst hex_string.simps) simp

lemma length_hex_string: "n < 16 ^ k \<Longrightarrow> 0 < k \<Longrightarrow> length (hex_string n) \<le> k"
proof (induction n arbitrary: k rule: hex_string.induct)
  case (1 n)
  show ?case
  proof (cases "n < 16")
    case True
    then show ?thesis using "1.prems" by (subst hex_string.simps) simp
  next
    case False
    with "1.prems" obtain k' where k: "k = Suc k'" "0 < k'"
      by (cases k; cases "k - 1") auto
    have "n div 16 < 16 ^ k'" using "1.prems"(1) k by (simp add: less_mult_imp_div_less mult.commute)
    with "1.IH" [OF False] k False show ?thesis by (subst hex_string.simps) simp
  qed
qed

lemma hex_no_semi: "is_hex c \<Longrightarrow> c \<noteq> CHR '';'' \<and> c \<noteq> CHR 0x0D \<and> c \<noteq> CHR 0x0A"
  by (auto simp: is_hex_def hex_char_to_int_def char_between_def)

lemma hex_string_no: "c = CHR '';'' \<or> c = CHR 0x0D \<or> c = CHR 0x0A \<Longrightarrow> c \<notin> set (hex_string n)"
  using hex_string_hex [of n] hex_no_semi by (auto simp: list_all_iff)

lemma parse_chunk_size_hex_string: "n < 2 ^ 64 \<Longrightarrow> parse_chunk_size_line (hex_string n) = Some n"
proof -
  assume "n < 2 ^ 64"
  then have "length (hex_string n) \<le> 16" by (intro length_hex_string) simp_all
  moreover have "size_line_digits (hex_string n) = hex_string n"
    unfolding size_line_digits_def takeWhile_eq_all_conv
    using hex_string_no [of "CHR '';''" n] by auto
  ultimately show ?thesis by (simp add: parse_chunk_size_line_eq hex_string_hex)
qed

text \<open>
  A chunk-size line is accepted exactly when it has at most 256 bytes and its digits (what
  precedes the first semicolon) are one to sixteen hexadecimal digits; the size is then their
  value, which always fits in 64 bits, so neither overflow check of the digit loop can fire.
\<close>

lemma chunk_size_line_value:
  "parse_chunk_size_line l = Some n \<longleftrightarrow>
     length l \<le> 256 \<and> size_line_digits l \<noteq> [] \<and> length (size_line_digits l) \<le> 16
     \<and> list_all is_hex (size_line_digits l) \<and> n = hex_value (size_line_digits l) \<and> n < 2 ^ 64"
proof -
  have "hex_value ds < 2 ^ 64" if "list_all is_hex ds" "length ds \<le> 16" for ds
  proof -
    have "hex_value ds < 16 ^ length ds" using foldl_hex_bound [OF that(1), of 0] by (simp add: hex_value_def)
    also have "\<dots> \<le> (16::nat) ^ 16" using that(2) by (intro power_increasing) auto
    finally show ?thesis by simp
  qed
  then show ?thesis by (auto simp: parse_chunk_size_line_eq)
qed

text \<open>A form body: the pairs, encoded and joined with ampersands.\<close>

definition form_component :: "string \<times> string \<Rightarrow> string" where
  "form_component kv = url_form_encode (fst kv) @ CHR ''='' # url_form_encode (snd kv)"

fun form_body :: "(string \<times> string) list \<Rightarrow> string" where
  "form_body [] = []"
| "form_body [kv] = form_component kv"
| "form_body (kv # kvs) = form_component kv @ CHR ''&'' # form_body kvs"

lemma form_encode_no: "\<not> is_url_unreserved c \<Longrightarrow> c \<noteq> CHR ''%'' \<Longrightarrow> c \<noteq> CHR ''+'' \<Longrightarrow> c \<notin> set (url_form_encode s)"
  using url_form_encode_alphabet by blast

lemma urlencoded_component_pair:
  "urlencoded_component (form_component kv) out = fields_emplace_back (fst kv) (snd kv) out"
proof -
  have "sv_find (form_component kv) CHR ''='' = Some (length (url_form_encode (fst kv)))"
    unfolding form_component_def by (rule sv_find_append_found) (simp add: form_encode_no)
  then show ?thesis
    using url_decode_no_escape [of "url_form_encode (fst kv)"] url_decode_no_escape [of "url_form_encode (snd kv)"]
    by (auto simp: urlencoded_component_def form_component_def substr_def substr_from_def url_form_roundtrip Let_def)
qed

text \<open>
  \<open>parse_urlencoded\<close> recovers every list of key/value pairs from its form encoding, keys
  and values being arbitrary byte strings, and appends them in order to the fields it is given.
\<close>

lemma urlencoded_roundtrip:
  "field_data (parse_urlencoded (form_body kvs) out) = field_data out @ kvs"
proof (induction kvs arbitrary: out rule: form_body.induct)
  case 1
  then show ?case by (simp add: parse_urlencoded.simps urlencoded_component_def)
next
  case (2 kv)
  have "CHR ''&'' \<notin> set (form_component kv)" by (auto simp: form_component_def form_encode_no)
  then show ?case
    by (simp add: parse_urlencoded.simps urlencoded_component_pair fields_emplace_back_def)
next
  case (3 kv kv' kvs)
  have "CHR ''&'' \<notin> set (form_component kv)" by (auto simp: form_component_def form_encode_no)
  then have "parse_urlencoded (form_body (kv # kv' # kvs)) out =
      parse_urlencoded (form_body (kv' # kvs)) (fields_emplace_back (fst kv) (snd kv) out)"
    by (subst parse_urlencoded.simps) (simp add: urlencoded_component_pair)
  with 3 show ?case by (simp add: fields_emplace_back_def)
qed

section \<open>Facts about the chunked decoder\<close>

subsection \<open>Bounds\<close>

definition chunk_inv :: "nat \<Rightarrow> chunk_state \<Rightarrow> bool" where
  "chunk_inv max_body st \<longleftrightarrow>
     cs_body_bytes st = length (cs_body st)
     \<and> cs_body_bytes st + (if cs_phase st = PhData then cs_remaining st else 0) \<le> max_body
     \<and> cs_trailer_bytes st \<le> kMaxChunkTrailerBytes"

lemma chunk_inv_step:
  assumes "chunk_inv mb st" shows "chunk_inv mb (snd (chunk_step raw bs mb mc st))"
proof (cases "cs_phase st")
  case PhSizeLine
  with assms show ?thesis
    by (auto simp: chunk_step_def step_size_line_def Let_def chunk_inv_def split: option.splits)
next
  case PhData
  with assms show ?thesis
    by (auto simp: chunk_step_def step_data_def Let_def chunk_inv_def substr_def)
next
  case PhDataCrlf
  with assms show ?thesis by (auto simp: chunk_step_def step_data_crlf_def chunk_inv_def)
next
  case PhTrailers
  with assms show ?thesis
    by (auto simp: chunk_step_def step_trailers_def Let_def chunk_inv_def accept_chunk_trailer_line_def
        split: option.splits)
next
  case PhComplete
  with assms show ?thesis by (simp add: chunk_step_def)
qed

lemma chunk_inv_loop: "chunk_inv mb st \<Longrightarrow> chunk_inv mb (snd (chunk_loop raw bs mb mc st))"
proof (induction raw bs mb mc st rule: chunk_loop.induct)
  case (1 raw bs mb mc st)
  have step: "chunk_inv mb (snd (chunk_step raw bs mb mc st))"
    using "1.prems" by (rule chunk_inv_step)
  obtain r st' where s: "chunk_step raw bs mb mc st = (r, st')" by fastforce
  with step have inv: "chunk_inv mb st'" by simp
  show ?case
    by (subst chunk_loop.simps) (use s inv "1.IH" in \<open>cases r; simp\<close>)
qed

lemma chunk_inv_start: "chunk_inv mb st \<Longrightarrow> chunk_inv mb (chunk_start bs st)"
  by (simp add: chunk_start_def chunk_inv_def chunk_reset_def)

lemma chunk_inv_decode:
  "chunk_inv mb st \<Longrightarrow> chunk_inv mb (snd (decode_chunked_incremental raw bs mb mc st))"
  by (simp add: decode_chunked_incremental_def chunk_inv_loop chunk_inv_start)

definition chunk_feed :: "nat \<Rightarrow> string \<times> nat \<times> nat \<Rightarrow> chunk_state \<Rightarrow> chunk_state" where
  "chunk_feed mb c st = (case c of (raw, bs, mc) \<Rightarrow> snd (decode_chunked_incremental raw bs mb mc st))"

interpretation chunk_machine: invariant_machine "chunk_feed mb" "chunk_inv mb" for mb
  by unfold_locales (auto simp: chunk_feed_def chunk_inv_decode split: prod.splits)

text \<open>
  However the input arrives, in however many calls, with whatever buffers and offsets, the
  decoded body never exceeds \<open>max_body_size\<close> and the accepted trailers never exceed 8192 bytes.
\<close>

lemma chunked_body_bounded:
  "length (cs_body (run_commands (chunk_feed max_body_size) calls chunk_reset)) \<le> max_body_size
   \<and> cs_trailer_bytes (run_commands (chunk_feed max_body_size) calls chunk_reset) \<le> 8192"
proof -
  have "chunk_inv max_body_size chunk_reset"
    by (simp add: chunk_inv_def chunk_reset_def)
  from chunk_machine.inv_run [OF this, of calls] show ?thesis
    by (auto simp: chunk_inv_def kMaxChunkTrailerBytes_def)
qed

subsection \<open>Feeding the decoder piecewise\<close>

lemma find_crlf_append:
  "sv_find_str_from raw n p = Some e \<Longrightarrow> p \<le> length raw \<Longrightarrow> sv_find_str_from (raw @ ys) n p = Some e"
  by (auto simp: sv_find_str_from_def sv_find_str_Some_append)

lemma find_crlf_append':
  assumes "sv_find_str_from raw crlf p = Some e"
  shows "sv_find_str_from (raw @ ys) crlf p = Some e" "substr (raw @ ys) p (e - p) = substr raw p (e - p)"
proof -
  have "p \<le> e \<and> e + 2 \<le> length raw" by (rule find_crlf_bounds [OF assms])
  then show "sv_find_str_from (raw @ ys) crlf p = Some e" "substr (raw @ ys) p (e - p) = substr raw p (e - p)"
    using find_crlf_append [OF assms] by (auto simp: substr_def)
qed

lemma chunk_step_append_None:
  assumes "chunk_step raw bs mb mc st = (None, st')"
  shows "chunk_step (raw @ ys) bs mb mc st = (None, st')"
proof (cases "cs_phase st")
  case PhSizeLine
  with assms show ?thesis
    by (auto simp: chunk_step_def step_size_line_def Let_def find_crlf_append' split: option.splits if_splits)
next
  case PhData
  with assms have "cs_pos st < length raw" "cs_remaining st \<le> length raw - cs_pos st"
    by (auto simp: chunk_step_def step_data_def Let_def min_def split: if_splits)
  moreover from this have "min (cs_remaining st) (length (raw @ ys) - cs_pos st) = cs_remaining st"
    "min (cs_remaining st) (length raw - cs_pos st) = cs_remaining st" by auto
  ultimately show ?thesis
    using assms PhData by (auto simp: chunk_step_def step_data_def Let_def substr_def split: if_splits)
next
  case PhDataCrlf
  with assms show ?thesis
    by (auto simp: chunk_step_def step_data_crlf_def usub_def nth_append split: if_splits)
next
  case PhTrailers
  with assms show ?thesis
    by (auto simp: chunk_step_def step_trailers_def Let_def find_crlf_append'
        split: option.splits if_splits prod.splits)
next
  case PhComplete
  with assms show ?thesis by (simp add: chunk_step_def)
qed

lemma chunk_step_append_done:
  assumes "chunk_step raw bs mb mc st = (Some rc, st')" and "0 < rc"
  shows "chunk_step (raw @ ys) bs mb mc st = (Some rc, st')"
proof (cases "cs_phase st")
  case PhTrailers
  with assms show ?thesis
    by (auto simp: chunk_step_def step_trailers_def Let_def find_crlf_append'
        split: option.splits if_splits prod.splits)
qed (use assms in \<open>auto simp: chunk_step_def step_size_line_def step_data_def step_data_crlf_def Let_def
        split: option.splits if_splits\<close>)

text \<open>Waiting for more data loses nothing: the next step reaches the same state.\<close>

lemma chunk_data_resume:
  assumes "step_data raw st = (Some 0, st')" and "cs_phase st = PhData"
  shows "step_data (raw @ ys) st' = step_data (raw @ ys) st"
proof (cases "length raw \<le> cs_pos st")
  case True
  with assms show ?thesis by (auto simp: step_data_def)
next
  case False
  let ?a = "length raw - cs_pos st"
  from assms False have more: "?a < cs_remaining st"
    by (auto simp: step_data_def Let_def min_def split: if_splits)
  with assms False have st': "st' = st\<lparr>cs_body := cs_body st @ drop (cs_pos st) raw, cs_pos := length raw,
      cs_remaining := cs_remaining st - ?a, cs_body_bytes := cs_body_bytes st + ?a\<rparr>"
    by (auto simp: step_data_def Let_def min_def substr_def split: if_splits)
  show ?thesis
  proof (cases ys)
    case Nil
    with assms False st' show ?thesis by (simp add: step_data_def)
  next
    case (Cons y zs)
    have "min (cs_remaining st) (length (raw @ ys) - cs_pos st) =
        ?a + min (cs_remaining st - ?a) (length ys)"
      using False more by auto
    moreover have "0 < min (cs_remaining st - ?a) (length ys)" using more Cons by simp
    moreover have "substr (raw @ ys) (cs_pos st) (?a + k) = drop (cs_pos st) raw @ take k ys" for k
      using False by (simp add: substr_def)
    ultimately show ?thesis
      using False more st' Cons by (simp add: step_data_def Let_def substr_def)
  qed
qed

lemma chunk_step_append_wait:
  assumes "chunk_step raw bs mb mc st = (Some 0, st')"
  shows "chunk_loop (raw @ ys) bs mb mc st' = chunk_loop (raw @ ys) bs mb mc st"
proof (cases "cs_phase st")
  case PhData
  with assms have d: "step_data raw st = (Some 0, st')" by (simp add: chunk_step_def)
  then have "cs_phase st' = PhData" using PhData by (auto simp: step_data_def Let_def split: if_splits)
  with PhData chunk_data_resume [OF d PhData, of ys] show ?thesis
    by (subst (1 2) chunk_loop.simps) (simp add: chunk_step_def)
next
  case PhTrailers
  show ?thesis
  proof (cases "st' = st")
    case False
    with assms PhTrailers have "chunk_step (raw @ ys) bs mb mc st = (Some 0, st')" "cs_phase st' = PhComplete"
      "usub (cs_pos st') bs = 0"
      by (auto simp: chunk_step_def step_trailers_def Let_def find_crlf_append'
          split: option.splits if_splits prod.splits)
    then show ?thesis
      by (subst (1 2) chunk_loop.simps) (simp add: chunk_step_def)
  qed simp
qed (use assms in \<open>auto simp: chunk_step_def step_size_line_def step_data_crlf_def Let_def
        split: option.splits if_splits\<close>)

lemma chunk_loop_append:
  assumes "chunk_loop raw bs mb mc st = (rc, st')"
  shows "0 < rc \<Longrightarrow> chunk_loop (raw @ ys) bs mb mc st = (rc, st')"
    and "rc = 0 \<Longrightarrow> chunk_loop (raw @ ys) bs mb mc st' = chunk_loop (raw @ ys) bs mb mc st"
proof -
  have "(0 < rc \<longrightarrow> chunk_loop (raw @ ys) bs mb mc st = (rc, st')) \<and>
      (rc = 0 \<longrightarrow> chunk_loop (raw @ ys) bs mb mc st' = chunk_loop (raw @ ys) bs mb mc st)"
    using assms
  proof (induction raw bs mb mc st rule: chunk_loop.induct)
    case (1 raw bs mb mc st)
    obtain r st1 where s: "chunk_step raw bs mb mc st = (r, st1)" by fastforce
    show ?case
    proof (cases r)
      case None
      have "chunk_loop (raw @ ys) bs mb mc st = chunk_loop (raw @ ys) bs mb mc st1"
        by (subst chunk_loop.simps) (simp add: chunk_step_append_None [OF s [unfolded None]])
      with "1.IH" [OF s [symmetric] None] "1.prems" s None show ?thesis
        by (simp add: chunk_loop.simps [of raw])
    next
      case (Some k)
      with "1.prems" s have k: "k = rc" "st1 = st'" by (simp_all add: chunk_loop.simps [of raw])
      with s Some chunk_step_append_done [of raw bs mb mc st rc st' ys]
        chunk_step_append_wait [of raw bs mb mc st st' ys]
      show ?thesis by (auto simp: chunk_loop.simps [of "raw @ ys" bs mb mc st])
    qed
  qed
  then show "0 < rc \<Longrightarrow> chunk_loop (raw @ ys) bs mb mc st = (rc, st')"
    and "rc = 0 \<Longrightarrow> chunk_loop (raw @ ys) bs mb mc st' = chunk_loop (raw @ ys) bs mb mc st"
    by blast+
qed

lemma chunk_step_active:
  "chunk_step raw bs mb mc st = (r, st') \<Longrightarrow> cs_active st' = cs_active st \<and> cs_body_start st' = cs_body_start st"
  by (auto simp: chunk_step_def step_size_line_def step_data_def step_data_crlf_def step_trailers_def Let_def
      split: chunk_phase.splits option.splits if_splits prod.splits)

lemma chunk_loop_active:
  "chunk_loop raw bs mb mc st = (rc, st') \<Longrightarrow> cs_active st' = cs_active st \<and> cs_body_start st' = cs_body_start st"
proof (induction raw bs mb mc st rule: chunk_loop.induct)
  case (1 raw bs mb mc st)
  obtain r st1 where s: "chunk_step raw bs mb mc st = (r, st1)" by fastforce
  with chunk_step_active [OF s] "1.IH" [OF s [symmetric]] "1.prems" show ?case
    by (cases r) (auto simp: chunk_loop.simps [of raw bs mb mc st])
qed

lemma decode_resumes:
  assumes "decode_chunked_incremental raw bs mb mc st = (rc, st')"
  shows "0 < rc \<Longrightarrow> decode_chunked_incremental (raw @ ys) bs mb mc st = (rc, st')"
    and "rc = 0 \<Longrightarrow> decode_chunked_incremental (raw @ ys) bs mb mc st' =
      decode_chunked_incremental (raw @ ys) bs mb mc st"
proof -
  have "chunk_start bs st' = st'"
    using chunk_loop_active [OF assms [unfolded decode_chunked_incremental_def]]
    by (auto simp: chunk_start_def split: if_splits)
  with chunk_loop_append [OF assms [unfolded decode_chunked_incremental_def]]
  show "0 < rc \<Longrightarrow> decode_chunked_incremental (raw @ ys) bs mb mc st = (rc, st')"
    and "rc = 0 \<Longrightarrow> decode_chunked_incremental (raw @ ys) bs mb mc st' =
      decode_chunked_incremental (raw @ ys) bs mb mc st"
    by (simp_all add: decode_chunked_incremental_def)
qed

text \<open>The caller's loop: the buffer grows piece by piece and is decoded after each arrival.\<close>

primrec feed_pieces ::
    "nat \<Rightarrow> nat \<Rightarrow> string list \<Rightarrow> string \<Rightarrow> chunk_state \<Rightarrow> int \<times> chunk_state" where
  "feed_pieces mb mc [] buf st = (0, st)"
| "feed_pieces mb mc (p # ps) buf st =
     (case decode_chunked_incremental (buf @ p) 0 mb mc st of
        (rc, st') \<Rightarrow> if rc = 0 then feed_pieces mb mc ps (buf @ p) st' else (rc, st'))"

lemma feed_pieces_whole:
  assumes "feed_pieces mb mc ps buf st = (rc, st')" and "0 \<le> rc" and "ps \<noteq> []"
    and "\<And>zs. decode_chunked_incremental (buf @ zs) 0 mb mc st =
      decode_chunked_incremental (buf @ zs) 0 mb mc st0"
  shows "decode_chunked_incremental (buf @ concat ps) 0 mb mc st0 = (rc, st')"
  using assms
proof (induction ps arbitrary: buf st)
  case (Cons p ps)
  obtain k st1 where s: "decode_chunked_incremental (buf @ p) 0 mb mc st = (k, st1)" by fastforce
  show ?case
  proof (cases "k = 0")
    case True
    have step: "decode_chunked_incremental ((buf @ p) @ zs) 0 mb mc st1 =
        decode_chunked_incremental ((buf @ p) @ zs) 0 mb mc st0" for zs
      using decode_resumes(2) [OF s True, of zs] Cons.prems(4) [of "p @ zs"] by simp
    show ?thesis
    proof (cases ps)
      case Nil
      with Cons.prems(1) s True Cons.prems(4) [of p] show ?thesis by simp
    next
      case Cons': (Cons q qs)
      have "decode_chunked_incremental ((buf @ p) @ concat ps) 0 mb mc st0 = (rc, st')"
        by (rule Cons.IH [OF _ Cons.prems(2) _ step]) (use Cons.prems(1) s True Cons' in simp_all)
      then show ?thesis by simp
    qed
  next
    case False
    with Cons.prems(1) s have "k = rc" "st1 = st'" by simp_all
    with decode_resumes(1) [OF s, of "concat ps"] False Cons.prems(2) Cons.prems(4) [of "p @ concat ps"]
    show ?thesis by simp
  qed
qed simp

text \<open>
  C4: Decoding is independent of how the bytes arrive: if decoding piece by piece does not
  end in an error, then decoding the whole input at once gives the same code, the same body and
  the same decoder state.
\<close>

theorem chunked_pieces_whole:
  assumes "feed_pieces max_body_size max_chunks ps [] chunk_reset = (rc, st)" and "0 \<le> rc" and "ps \<noteq> []"
  shows "decode_chunked_incremental (concat ps) 0 max_body_size max_chunks chunk_reset = (rc, st)"
  using feed_pieces_whole [OF assms refl] by simp

definition sample_pieces :: "string list" where
  "sample_pieces =
     [''3'' @ [CHR 0x0D], CHR 0x0A # ''ab'', ''c'' @ crlf @ ''0'', crlf @ ''X: y'' @ crlf @ crlf]"

theorem chunked_pieces_whole_witness:
  "decode_chunked_incremental (concat sample_pieces) 0 10 4 chunk_reset
     = (19, snd (feed_pieces 10 4 sample_pieces [] chunk_reset))
   \<and> cs_body (snd (feed_pieces 10 4 sample_pieces [] chunk_reset)) = ''abc''"
proof
  have "feed_pieces 10 4 sample_pieces [] chunk_reset =
      (19, snd (feed_pieces 10 4 sample_pieces [] chunk_reset))" by code_simp
  then show "decode_chunked_incremental (concat sample_pieces) 0 10 4 chunk_reset
      = (19, snd (feed_pieces 10 4 sample_pieces [] chunk_reset))"
    by (rule chunked_pieces_whole) (simp_all add: sample_pieces_def)
  show "cs_body (snd (feed_pieces 10 4 sample_pieces [] chunk_reset)) = ''abc''" by code_simp
qed

subsection \<open>Decoding an encoded body\<close>

definition chunk_frame :: "string \<Rightarrow> string" where
  "chunk_frame c = append_hex [] (length c) @ crlf @ c @ crlf"

definition encode_chunked :: "string list \<Rightarrow> string" where
  "encode_chunked cs = concat (map chunk_frame cs) @ ''0'' @ crlf @ crlf"

lemma drop_split: "drop p raw = a @ b \<Longrightarrow> drop (p + length a) raw = b"
  by (metis add.commute append_eq_conv_conj drop_drop)

lemma chunk_loop_step:
  "chunk_step raw bs mb mc st = (None, st') \<Longrightarrow> chunk_loop raw bs mb mc st = chunk_loop raw bs mb mc st'"
  by (subst chunk_loop.simps) simp

lemma size_line_step:
  assumes "cs_phase st = PhSizeLine" and "drop (cs_pos st) raw = hex_string n @ crlf @ tail"
    and "n < 2 ^ 64" and "cs_chunks_seen st < mc" and "0 < n" and "cs_body_bytes st + n \<le> mb"
  shows "chunk_step raw bs mb mc st =
    (None, st\<lparr>cs_chunks_seen := cs_chunks_seen st + 1, cs_pos := cs_pos st + length (hex_string n) + 2,
       cs_current_chunk_size := n, cs_remaining := n, cs_phase := PhData\<rparr>)"
proof -
  have "sv_find_str (hex_string n @ crlf @ tail) crlf = Some (length (hex_string n))"
    by (rule sv_find_str_first) (simp_all add: crlf_def hex_string_no)
  then have "sv_find_str_from raw crlf (cs_pos st) = Some (cs_pos st + length (hex_string n))"
    by (simp add: sv_find_str_from_def assms(2))
  moreover have "substr raw (cs_pos st) (length (hex_string n)) = hex_string n"
    by (simp add: substr_def assms(2))
  ultimately show ?thesis
    using assms(1,3-6) by (simp add: chunk_step_def step_size_line_def parse_chunk_size_hex_string Let_def)
qed

lemma last_size_line_step:
  assumes "cs_phase st = PhSizeLine" and "drop (cs_pos st) raw = ''0'' @ crlf @ tail"
    and "cs_chunks_seen st < mc"
  shows "chunk_step raw bs mb mc st =
    (None, st\<lparr>cs_chunks_seen := cs_chunks_seen st + 1, cs_pos := cs_pos st + 3,
       cs_current_chunk_size := 0, cs_phase := PhTrailers\<rparr>)"
proof -
  have zero: "hex_string 0 = ''0''" by (simp add: hex_string.simps hex_lower_def)
  have "sv_find_str (''0'' @ crlf @ tail) crlf = Some (length ''0'')"
    by (rule sv_find_str_first) (simp_all add: crlf_def)
  then have "sv_find_str_from raw crlf (cs_pos st) = Some (cs_pos st + 1)"
    by (simp add: sv_find_str_from_def assms(2))
  moreover have "substr raw (cs_pos st) 1 = ''0''" by (simp add: substr_def assms(2))
  moreover have "parse_chunk_size_line ''0'' = Some 0"
    using parse_chunk_size_hex_string [of 0] by (simp add: zero)
  ultimately show ?thesis
    using assms(1,3) by (simp add: chunk_step_def step_size_line_def Let_def)
qed

lemma data_step:
  assumes "cs_phase st = PhData" and "drop (cs_pos st) raw = c @ tail" and "cs_remaining st = length c" and "c \<noteq> []"
  shows "chunk_step raw bs mb mc st =
    (None, st\<lparr>cs_body := cs_body st @ c, cs_pos := cs_pos st + length c, cs_remaining := 0,
       cs_body_bytes := cs_body_bytes st + length c, cs_phase := PhDataCrlf\<rparr>)"
proof -
  have "length raw - cs_pos st = length c + length tail"
    using arg_cong [OF assms(2), of length] by simp
  then have "\<not> length raw \<le> cs_pos st" "min (length c) (length raw - cs_pos st) = length c"
    using assms(4) by auto
  then show ?thesis
    using assms by (simp add: chunk_step_def step_data_def Let_def substr_def)
qed

lemma data_crlf_step:
  assumes "cs_phase st = PhDataCrlf" and "drop (cs_pos st) raw = crlf @ tail"
  shows "chunk_step raw bs mb mc st = (None, st\<lparr>cs_pos := cs_pos st + 2, cs_phase := PhSizeLine\<rparr>)"
proof -
  have len: "length raw - cs_pos st = Suc (Suc (length tail))"
    using arg_cong [OF assms(2), of length] by (simp add: crlf_def)
  then have "raw ! cs_pos st = CHR 0x0D" "raw ! (cs_pos st + 1) = CHR 0x0A"
    using nth_drop [of "cs_pos st" raw 0] nth_drop [of "cs_pos st" raw 1] assms(2)
    by (simp_all add: crlf_def)
  with len assms(1) show ?thesis
    by (auto simp: chunk_step_def step_data_crlf_def usub_def)
qed

lemma chunk_frame_loop:
  assumes "cs_phase st = PhSizeLine" and "drop (cs_pos st) raw = chunk_frame c @ tail" and "c \<noteq> []"
    and "length c < 2 ^ 64" and "cs_chunks_seen st < mc" and "cs_body_bytes st + length c \<le> mb"
  shows "chunk_loop raw bs mb mc st = chunk_loop raw bs mb mc
    (st\<lparr>cs_chunks_seen := cs_chunks_seen st + 1, cs_pos := cs_pos st + length (chunk_frame c),
        cs_current_chunk_size := length c, cs_remaining := 0, cs_phase := PhSizeLine,
        cs_body := cs_body st @ c, cs_body_bytes := cs_body_bytes st + length c\<rparr>)"
proof -
  let ?h = "hex_string (length c)"
  let ?st1 = "st\<lparr>cs_chunks_seen := cs_chunks_seen st + 1, cs_pos := cs_pos st + length ?h + 2,
       cs_current_chunk_size := length c, cs_remaining := length c, cs_phase := PhData\<rparr>"
  let ?st2 = "?st1\<lparr>cs_body := cs_body st @ c, cs_pos := cs_pos st + length ?h + 2 + length c,
       cs_remaining := 0, cs_body_bytes := cs_body_bytes st + length c, cs_phase := PhDataCrlf\<rparr>"
  have frame: "drop (cs_pos st) raw = ?h @ crlf @ c @ crlf @ tail"
    using assms(2) by (simp add: chunk_frame_def append_hex_def)
  have d1: "drop (cs_pos ?st1) raw = c @ crlf @ tail"
    using drop_split [of "cs_pos st" raw "?h @ crlf" "c @ crlf @ tail"] frame by (simp add: crlf_def add.assoc)
  have d2: "drop (cs_pos ?st2) raw = crlf @ tail"
    using drop_split [of "cs_pos ?st1" raw c "crlf @ tail"] d1 by simp
  have "chunk_loop raw bs mb mc st = chunk_loop raw bs mb mc ?st1"
    by (rule chunk_loop_step, rule size_line_step [OF assms(1) frame]) (use assms in simp_all)
  also have "\<dots> = chunk_loop raw bs mb mc ?st2"
    by (rule chunk_loop_step, subst data_step [OF _ d1]) (use assms in simp_all)
  also have "\<dots> = chunk_loop raw bs mb mc (?st2\<lparr>cs_pos := cs_pos ?st2 + 2, cs_phase := PhSizeLine\<rparr>)"
    by (rule chunk_loop_step, rule data_crlf_step [OF _ d2]) simp
  also have "?st2\<lparr>cs_pos := cs_pos ?st2 + 2, cs_phase := PhSizeLine\<rparr> =
      st\<lparr>cs_chunks_seen := cs_chunks_seen st + 1, cs_pos := cs_pos st + length (chunk_frame c),
        cs_current_chunk_size := length c, cs_remaining := 0, cs_phase := PhSizeLine,
        cs_body := cs_body st @ c, cs_body_bytes := cs_body_bytes st + length c\<rparr>"
    by (rule chunk_state.equality) (simp_all add: chunk_frame_def append_hex_def crlf_def)
  finally show ?thesis .
qed

lemma chunk_end_loop:
  assumes "cs_phase st = PhSizeLine" and "drop (cs_pos st) raw = ''0'' @ crlf @ crlf @ tail"
    and "cs_chunks_seen st < mc"
  shows "chunk_loop raw 0 mb mc st = (int (cs_pos st + 5),
    st\<lparr>cs_chunks_seen := cs_chunks_seen st + 1, cs_pos := cs_pos st + 5,
       cs_current_chunk_size := 0, cs_phase := PhComplete\<rparr>)"
proof -
  let ?st1 = "st\<lparr>cs_chunks_seen := cs_chunks_seen st + 1, cs_pos := cs_pos st + 3,
       cs_current_chunk_size := 0, cs_phase := PhTrailers\<rparr>"
  have d: "drop (cs_pos st + 3) raw = crlf @ tail"
    using drop_split [of "cs_pos st" raw "''0'' @ crlf" "crlf @ tail"] assms(2) by (simp add: crlf_def numeral_eq_Suc)
  have "sv_find_str (crlf @ tail) crlf = Some 0"
    using sv_find_str_first [of crlf "[]" tail] by (simp add: crlf_def)
  then have "sv_find_str_from raw crlf (cs_pos st + 3) = Some (cs_pos st + 3)"
    by (simp add: sv_find_str_from_def d)
  then have "chunk_step raw 0 mb mc ?st1 = (Some (int (cs_pos st + 5)),
      ?st1\<lparr>cs_pos := cs_pos st + 5, cs_phase := PhComplete\<rparr>)"
    by (simp add: chunk_step_def step_trailers_def Let_def usub_def)
  then have "chunk_loop raw 0 mb mc ?st1 = (int (cs_pos st + 5),
      ?st1\<lparr>cs_pos := cs_pos st + 5, cs_phase := PhComplete\<rparr>)"
    by (subst chunk_loop.simps) (simp only: prod.case option.case)
  moreover have "?st1\<lparr>cs_pos := cs_pos st + 5, cs_phase := PhComplete\<rparr> =
      st\<lparr>cs_chunks_seen := cs_chunks_seen st + 1, cs_pos := cs_pos st + 5,
       cs_current_chunk_size := 0, cs_phase := PhComplete\<rparr>"
    by (rule chunk_state.equality) simp_all
  ultimately show ?thesis
    using chunk_loop_step [OF last_size_line_step [OF assms], of 0 mb] by (simp only: prod.inject)
qed

lemma chunk_frames_loop:
  assumes "cs_phase st = PhSizeLine" and "drop (cs_pos st) raw = encode_chunked cs @ tail"
    and "list_all (\<lambda>c. c \<noteq> [] \<and> length c < 2 ^ 64) cs"
    and "cs_chunks_seen st + length cs < mc" and "cs_body_bytes st + length (concat cs) \<le> mb"
  shows "\<exists>st'. chunk_loop raw 0 mb mc st = (int (cs_pos st + length (encode_chunked cs)), st')
    \<and> cs_body st' = cs_body st @ concat cs"
  using assms
proof (induction cs arbitrary: st)
  case Nil
  with chunk_end_loop [of st raw tail mc mb] show ?case
    by (simp add: encode_chunked_def crlf_def)
next
  case (Cons c cs)
  let ?st = "st\<lparr>cs_chunks_seen := cs_chunks_seen st + 1, cs_pos := cs_pos st + length (chunk_frame c),
        cs_current_chunk_size := length c, cs_remaining := 0, cs_phase := PhSizeLine,
        cs_body := cs_body st @ c, cs_body_bytes := cs_body_bytes st + length c\<rparr>"
  have frame: "drop (cs_pos st) raw = chunk_frame c @ encode_chunked cs @ tail"
    using Cons.prems(2) by (simp add: encode_chunked_def)
  have "chunk_loop raw 0 mb mc st = chunk_loop raw 0 mb mc ?st"
    by (rule chunk_frame_loop [OF Cons.prems(1) frame]) (use Cons.prems in auto)
  moreover have "\<exists>st'. chunk_loop raw 0 mb mc ?st = (int (cs_pos ?st + length (encode_chunked cs)), st')
      \<and> cs_body st' = cs_body ?st @ concat cs"
    by (rule Cons.IH) (use Cons.prems drop_split [OF frame] in auto)
  ultimately show ?case by (auto simp: encode_chunked_def ac_simps)
qed

text \<open>
  C5: A body framed as non-empty chunks and the closing zero chunk decodes to itself within the
  limits: \<open>decode_chunked\<close> consumes exactly the framing, whatever follows it, and returns the
  chunks' bytes.
\<close>

theorem chunked_roundtrip:
  assumes "list_all (\<lambda>c. c \<noteq> [] \<and> length c < 2 ^ 64) cs" and "length cs < max_chunks"
    and "length (concat cs) \<le> max_body_size"
  shows "decode_chunked (encode_chunked cs @ tail) max_body_size max_chunks =
    (int (length (encode_chunked cs)), concat cs)"
proof -
  let ?st = "chunk_start 0 chunk_reset"
  have "\<exists>st'. chunk_loop (encode_chunked cs @ tail) 0 max_body_size max_chunks ?st =
      (int (cs_pos ?st + length (encode_chunked cs)), st') \<and> cs_body st' = cs_body ?st @ concat cs"
    by (rule chunk_frames_loop [where tail = tail]) (use assms in \<open>simp_all add: chunk_start_def chunk_reset_def\<close>)
  then show ?thesis
    by (auto simp: decode_chunked_def decode_chunked_incremental_def chunk_start_def chunk_reset_def
        encode_chunked_def)
qed

theorem chunked_roundtrip_witness:
  "decode_chunked (encode_chunked [''hello'', ''world!''] @ ''GET /'') 11 3 =
    (int (length (encode_chunked [''hello'', ''world!''])), concat [''hello'', ''world!''])"
  by (rule chunked_roundtrip) simp_all

section \<open>The end of a header block\<close>

lemma sv_find_str_skip:
  "n \<noteq> [] \<Longrightarrow> hd n \<notin> set a \<Longrightarrow> sv_find_str (a @ s) n = map_option ((+) (length a)) (sv_find_str s n)"
proof (induction a)
  case Nil
  then show ?case by (simp add: option.map_ident_strong)
next
  case (Cons x a)
  then have "\<not> prefix n (x # a @ s)" by (cases n) auto
  with Cons show ?case by (cases "sv_find_str s n") simp_all
qed

lemma sv_find_str_none: "hd n \<notin> set s \<Longrightarrow> n \<noteq> [] \<Longrightarrow> sv_find_str s n = None"
  using sv_find_str_skip [of n s "[]"] by simp

lemma find_head_end:
  assumes "list_all (\<lambda>l. l \<noteq> [] \<and> CHR 0x0D \<notin> set l) ls"
  shows "sv_find_str (concat (map (\<lambda>l. crlf @ l) ls) @ crlf @ crlf @ body) (crlf @ crlf) =
    Some (length (concat (map (\<lambda>l. crlf @ l) ls)))"
  using assms
proof (induction ls)
  case Nil
  then show ?case using sv_find_str_first [of "crlf @ crlf" "[]" body] by (simp add: crlf_def)
next
  case (Cons l ls)
  let ?s = "concat (map (\<lambda>l. crlf @ l) ls) @ crlf @ crlf @ body"
  have "sv_find_str (l @ ?s) (crlf @ crlf) = Some (length l + length (concat (map (\<lambda>l. crlf @ l) ls)))"
    using Cons sv_find_str_skip [of "crlf @ crlf" l ?s] by (simp add: crlf_def)
  moreover obtain x xs where "l = x # xs" "x \<noteq> CHR 0x0D" using Cons.prems by (cases l) auto
  ultimately show ?case by (auto simp: crlf_def)
qed

lemma crlf_lines: "crlf @ concat (map (\<lambda>h. f h @ crlf) hs) = concat (map (\<lambda>l. crlf @ l) (map f hs)) @ crlf"
  by (induction hs) simp_all

end
