(* ===== verification/Http1_Parser.thy ===== *)
theory Http1_Parser
  imports Http_Parse
begin

text \<open>
  Models \<open>src/net/http1_parser.cxx\<close>: the HTTP/1 request-head parser. A \<open>string_view\<close> into the
  receive buffer is the string it shows. The out-parameter \<open>ParsedRequest &out\<close> is threaded
  through, so a failed parse returns what had been written before the failure.
\<close>

datatype parse_status =
    PS_Ok | PS_Incomplete | PS_BadRequest | PS_UriTooLong | PS_HeaderLineTooLarge
  | PS_HeaderBlockTooLarge | PS_TooManyHeaders

record parsed_request =
  pr_method :: string
  pr_target :: string
  pr_version :: string
  pr_headers :: "(string \<times> string) list"
  pr_header_end_offset :: nat

definition empty_request :: parsed_request where
  "empty_request =
     \<lparr>pr_method = [], pr_target = [], pr_version = [], pr_headers = [], pr_header_end_offset = 0\<rparr>"

text \<open>\<open>ParserLimits\<close> of \<open>src/net/config.cxx\<close>.\<close>

record parser_limits =
  max_request_line_size :: nat
  max_header_line_size :: nat
  max_headers :: nat
  max_header_block_size :: nat
  limit_max_chunks :: nat

definition default_parser_limits :: parser_limits where
  "default_parser_limits =
     \<lparr>max_request_line_size = 8 * 1024, max_header_line_size = 8 * 1024, max_headers = 100,
      max_header_block_size = 64 * 1024, limit_max_chunks = 100000\<rparr>"

definition is_tchar :: "char \<Rightarrow> bool" where
  "is_tchar c =
     (if 0x80 \<le> byte c then False
      else c \<in> set (''!#$%&'' @ [CHR 0x27] @ ''*+-.^_'' @ [CHR 0x60] @ ''|~'')
           \<or> char_between CHR ''0'' CHR ''9'' c \<or> char_between CHR ''a'' CHR ''z'' c
           \<or> char_between CHR ''A'' CHR ''Z'' c)"

definition is_request_target_char :: "char \<Rightarrow> bool" where
  "is_request_target_char c = (0x20 < byte c \<and> byte c \<noteq> 0x7F)"

record header_bounds =
  hb_request_line_end :: nat
  hb_header_start :: nat
  hb_header_end :: nat

definition no_bounds :: header_bounds where
  "no_bounds = \<lparr>hb_request_line_end = 0, hb_header_start = 0, hb_header_end = 0\<rparr>"

text \<open>The scan over the header lines received so far, when the block is not complete yet.\<close>

function pending_scan :: "string \<Rightarrow> parser_limits \<Rightarrow> nat \<Rightarrow> nat \<Rightarrow> parse_status" where
  "pending_scan raw limits header_count pos =
     (if pos < length raw then
        (let line_end = sv_find_str_from raw crlf pos;
             line_size = (case line_end of None \<Rightarrow> length raw - pos | Some e \<Rightarrow> e - pos)
         in if max_header_line_size limits < line_size then PS_HeaderLineTooLarge
            else case line_end of
                   None \<Rightarrow> PS_Incomplete
                 | Some e \<Rightarrow>
                     if max_headers limits < header_count + 1 then PS_TooManyHeaders
                     else pending_scan raw limits (header_count + 1) (e + 2))
      else PS_Incomplete)"
  by pat_completeness auto
termination
  by (relation "measure (\<lambda>(raw, limits, count, pos). length raw - pos)")
    (auto dest: find_crlf_bounds [OF sym])

declare pending_scan.simps [simp del]

definition find_complete_http1_header_block ::
    "string \<Rightarrow> parser_limits \<Rightarrow> parse_status \<times> header_bounds" where
  "find_complete_http1_header_block raw limits =
     (case sv_find_str raw crlf of
        None \<Rightarrow>
          if max_request_line_size limits < length raw then (PS_UriTooLong, no_bounds)
          else (PS_Incomplete, no_bounds)
      | Some eol \<Rightarrow>
          if max_request_line_size limits < eol then (PS_UriTooLong, no_bounds)
          else
            let header_start = eol + 2
            in case sv_find_str_from raw (crlf @ crlf) eol of
                 Some header_end \<Rightarrow>
                   (let block_size = (if header_start < header_end then header_end - header_start else 0)
                    in if max_header_block_size limits < block_size then (PS_HeaderBlockTooLarge, no_bounds)
                       else (PS_Ok, \<lparr>hb_request_line_end = eol, hb_header_start = header_start,
                                     hb_header_end = header_end\<rparr>))
               | None \<Rightarrow>
                   if header_start < length raw \<and> max_header_block_size limits < length raw - header_start
                   then (PS_HeaderBlockTooLarge, no_bounds)
                   else (pending_scan raw limits 0 header_start, no_bounds))"

definition parse_http1_request_line :: "string \<Rightarrow> parsed_request \<Rightarrow> parse_status \<times> parsed_request" where
  "parse_http1_request_line req_line out =
     (case sv_find req_line CHR '' '' of
        None \<Rightarrow> (PS_BadRequest, out)
      | Some sp1 \<Rightarrow>
          if sp1 = 0 then (PS_BadRequest, out)
          else
            let out1 = out\<lparr>pr_method := substr req_line 0 sp1\<rparr>
            in if \<not> list_all is_tchar (pr_method out1) then (PS_BadRequest, out1)
               else
                 let rest = substr_from req_line (sp1 + 1);
                     sp2 = sv_find rest CHR '' '';
                     out2 = out1\<lparr>pr_target := (case sp2 of Some s \<Rightarrow> substr rest 0 s | None \<Rightarrow> rest)\<rparr>
                 in if pr_target out2 = [] then (PS_BadRequest, out2)
                    else if \<not> list_all is_request_target_char (pr_target out2) then (PS_BadRequest, out2)
                    else
                      let out3 = out2\<lparr>pr_version := (case sp2 of Some s \<Rightarrow> substr_from rest (s + 1) | None \<Rightarrow> [])\<rparr>
                      in if pr_version out3 \<noteq> ''HTTP/1.0'' \<and> pr_version out3 \<noteq> ''HTTP/1.1''
                         then (PS_BadRequest, out3)
                         else (PS_Ok, out3))"

definition is_valid_http1_field_value :: "string \<Rightarrow> bool" where
  "is_valid_http1_field_value field_value =
     list_all (\<lambda>c. \<not> (byte c < 0x20 \<and> c \<noteq> CHR 0x09 \<or> byte c = 0x7F)) field_value"

definition is_ows :: "char \<Rightarrow> bool" where
  "is_ows c = (c = CHR '' '' \<or> c = CHR 0x09)"

definition trim_http1_ows :: "string \<Rightarrow> string" where
  "trim_http1_ows field_value = trim_with is_ows field_value"

definition append_http1_header :: "string \<Rightarrow> parsed_request \<Rightarrow> parse_status \<times> parsed_request" where
  "append_http1_header line out =
     (if line = [] \<or> hd line = CHR '' '' \<or> hd line = CHR 0x09 then (PS_BadRequest, out)
      else if sv_find line CHR 0x00 \<noteq> None \<or> sv_find line CHR 0x0D \<noteq> None then (PS_BadRequest, out)
      else case sv_find line CHR '':'' of
             None \<Rightarrow> (PS_BadRequest, out)
           | Some colon \<Rightarrow>
               if colon = 0 then (PS_BadRequest, out)
               else
                 let name = substr line 0 colon
                 in if \<not> list_all is_tchar name then (PS_BadRequest, out)
                    else
                      let field_value = trim_http1_ows (substr_from line (colon + 1))
                      in if \<not> is_valid_http1_field_value field_value then (PS_BadRequest, out)
                         else (PS_Ok, out\<lparr>pr_headers := pr_headers out @ [(name, field_value)]\<rparr>))"

function header_loop ::
    "string \<Rightarrow> parser_limits \<Rightarrow> nat \<Rightarrow> nat \<Rightarrow> nat \<Rightarrow> parsed_request \<Rightarrow> parse_status \<times> parsed_request" where
  "header_loop raw limits header_end header_count pos out =
     (if pos < header_end then
        (case sv_find_str_from raw crlf pos of
           None \<Rightarrow> (PS_BadRequest, out)
         | Some line_end \<Rightarrow>
             if header_end < line_end then (PS_BadRequest, out)
             else
               let line = substr raw pos (line_end - pos)
               in if max_header_line_size limits < length line then (PS_HeaderLineTooLarge, out)
                  else if max_headers limits < header_count + 1 then (PS_TooManyHeaders, out)
                  else case append_http1_header line out of
                         (status, out1) \<Rightarrow>
                           if status \<noteq> PS_Ok then (status, out1)
                           else header_loop raw limits header_end (header_count + 1) (line_end + 2) out1)
      else (PS_Ok, out))"
  by pat_completeness auto
termination
  by (relation "measure (\<lambda>(raw, limits, header_end, count, pos, out). length raw - pos)")
    (auto dest: find_crlf_bounds)

declare header_loop.simps [simp del]

definition parse_request :: "string \<Rightarrow> parser_limits \<Rightarrow> parsed_request \<Rightarrow> parse_status \<times> parsed_request" where
  "parse_request raw limits out0 =
     (let out = out0\<lparr>pr_headers := []\<rparr>
      in case find_complete_http1_header_block raw limits of
           (status, bounds) \<Rightarrow>
             if status \<noteq> PS_Ok then (status, out)
             else case parse_http1_request_line (substr raw 0 (hb_request_line_end bounds)) out of
                    (status1, out1) \<Rightarrow>
                      if status1 \<noteq> PS_Ok then (status1, out1)
                      else case header_loop raw limits (hb_header_end bounds) 0 (hb_header_start bounds) out1 of
                             (status2, out2) \<Rightarrow>
                               if status2 \<noteq> PS_Ok then (status2, out2)
                               else (PS_Ok, out2\<lparr>pr_header_end_offset := hb_header_end bounds\<rparr>))"

section \<open>What an accepted head looks like\<close>

definition method_ok :: "string \<Rightarrow> bool" where
  "method_ok m \<longleftrightarrow> m \<noteq> [] \<and> list_all is_tchar m"

definition target_ok :: "string \<Rightarrow> bool" where
  "target_ok t \<longleftrightarrow> t \<noteq> [] \<and> list_all is_request_target_char t"

definition header_ok :: "string \<times> string \<Rightarrow> bool" where
  "header_ok h \<longleftrightarrow>
     fst h \<noteq> [] \<and> list_all is_tchar (fst h) \<and> is_valid_http1_field_value (snd h)
     \<and> trim_http1_ows (snd h) = snd h"

lemma append_http1_header_OkD:
  assumes "append_http1_header line out = (PS_Ok, out')"
  shows "\<exists>h. header_ok h \<and> out' = out\<lparr>pr_headers := pr_headers out @ [h]\<rparr>"
proof -
  from assms obtain i where i: "line \<noteq> []" "sv_find line CHR '':'' = Some i" "i \<noteq> 0"
    by (auto simp: append_http1_header_def split: if_splits option.splits)
  define h where "h = (substr line 0 i, trim_http1_ows (substr_from line (i + 1)))"
  from assms i have "header_ok h" "out' = out\<lparr>pr_headers := pr_headers out @ [h]\<rparr>"
    by (auto simp: append_http1_header_def header_ok_def h_def Let_def trim_http1_ows_def substr_def
        split: if_splits)
  then show ?thesis by blast
qed

lemma header_loop_OkD:
  assumes "header_loop raw limits hend n pos out = (PS_Ok, out')" and "n \<le> max_headers limits"
  shows "\<exists>hs. list_all header_ok hs \<and> n + length hs \<le> max_headers limits
    \<and> out' = out\<lparr>pr_headers := pr_headers out @ hs\<rparr>"
  using assms
proof (induction raw limits hend n pos out rule: header_loop.induct)
  case (1 raw limits hend n pos out)
  show ?case
  proof (cases "pos < hend")
    case False
    with "1.prems" show ?thesis
      by (intro exI [of _ "[]"]) (simp add: header_loop.simps)
  next
    case True
    then obtain e where e: "sv_find_str_from raw crlf pos = Some e" "\<not> hend < e"
      "\<not> max_header_line_size limits < length (substr raw pos (e - pos))" "\<not> max_headers limits < n + 1"
      using "1.prems"(1)
      by (subst (asm) header_loop.simps) (auto simp: Let_def split: option.splits if_splits)
    obtain st out1 where a: "append_http1_header (substr raw pos (e - pos)) out = (st, out1)" by fastforce
    from "1.prems"(1) True e a have ok: "st = PS_Ok"
      and loop: "header_loop raw limits hend (n + 1) (e + 2) out1 = (PS_Ok, out')"
      by (subst (asm) (1) header_loop.simps, auto simp: Let_def split: if_splits)+
    obtain h where h: "header_ok h" "out1 = out\<lparr>pr_headers := pr_headers out @ [h]\<rparr>"
      using append_http1_header_OkD a ok by blast
    from "1.IH" [OF True e(1,2) refl e(3,4) a [symmetric] _ loop] ok e(4)
    obtain hs where "list_all header_ok hs" "n + 1 + length hs \<le> max_headers limits"
      "out' = out1\<lparr>pr_headers := pr_headers out1 @ hs\<rparr>" by auto
    with h show ?thesis by (intro exI [of _ "h # hs"]) simp
  qed
qed

lemma request_line_OkD:
  assumes "parse_http1_request_line l out = (PS_Ok, out')"
  shows "\<exists>m t v. method_ok m \<and> target_ok t \<and> (v = ''HTTP/1.0'' \<or> v = ''HTTP/1.1'')
    \<and> l = m @ CHR '' '' # t @ CHR '' '' # v \<and> CHR '' '' \<notin> set m
    \<and> out' = out\<lparr>pr_method := m, pr_target := t, pr_version := v\<rparr>"
proof -
  from assms obtain i where i: "sv_find l CHR '' '' = Some i" "i \<noteq> 0"
    by (auto simp: parse_http1_request_line_def split: option.splits if_splits)
  define r where "r = drop (Suc i) l"
  from assms i obtain j where j: "sv_find r CHR '' '' = Some j"
    by (auto simp: parse_http1_request_line_def Let_def substr_from_def r_def split: option.splits if_splits)
  have l: "l = take i l @ CHR '' '' # r" "CHR '' '' \<notin> set (take i l)"
    using sv_find_split [OF i(1)] by (auto simp: r_def)
  have rr: "r = take j r @ CHR '' '' # drop (Suc j) r" using sv_find_split(1) [OF j] .
  from assms i j have "method_ok (take i l)" "target_ok (take j r)"
    "drop (Suc j) r = ''HTTP/1.0'' \<or> drop (Suc j) r = ''HTTP/1.1''"
    "out' = out\<lparr>pr_method := take i l, pr_target := take j r, pr_version := drop (Suc j) r\<rparr>"
    by (auto simp: parse_http1_request_line_def Let_def substr_from_def substr_def r_def [symmetric]
        method_ok_def target_ok_def split: if_splits dest: sv_find_less)
  with l rr show ?thesis by metis
qed

section \<open>Stability under more input\<close>

lemma sv_find_str_from_append:
  "sv_find_str_from a n p = Some e \<Longrightarrow> p \<le> length a \<Longrightarrow> sv_find_str_from (a @ b) n p = Some e"
  by (rule find_crlf_append)

lemma sv_find_str_prefix:
  "sv_find_str (a @ b) n = Some e \<Longrightarrow> e + length n \<le> length a \<Longrightarrow> sv_find_str a n = Some e"
proof (induction a arbitrary: e)
  case Nil
  then show ?case by simp
next
  case (Cons x a)
  show ?case
  proof (cases "prefix n (x # a)")
    case True
    then have "prefix n ((x # a) @ b)" by (rule prefix_prefix)
    with True Cons.prems show ?thesis by simp
  next
    case False
    show ?thesis
    proof (cases "prefix n ((x # a) @ b)")
      case True
      with Cons.prems have "e = 0" by simp
      with Cons.prems True False show ?thesis
        by (metis add_0 append_eq_append_conv_if prefix_def take_append prefix_length_prefix prefixI)
    next
      case F2: False
      with Cons.prems(1) obtain j where "e = Suc j" "sv_find_str (a @ b) n = Some j" by auto
      with Cons.IH [of j] Cons.prems(2) False show ?thesis by simp
    qed
  qed
qed

lemma sv_find_str_from_prefix:
  assumes "sv_find_str_from (a @ b) n p = Some e" and "e + length n \<le> length a" and "n \<noteq> []"
  shows "sv_find_str_from a n p = Some e"
proof -
  have "p \<le> length a" using assms sv_find_str_from_SomeD by fastforce
  with assms show ?thesis
    using sv_find_str_prefix [of "drop p a" b n] by (auto simp: sv_find_str_from_def)
qed

lemma header_loop_cut:
  assumes "hend + 2 \<le> length a"
  shows "header_loop (a @ b) limits hend n pos out = header_loop (a @ c) limits hend n pos out"
proof -
  have one: "header_loop a limits hend n pos out = header_loop (a @ b) limits hend n pos out" for b
    using assms
  proof (induction a limits hend n pos out rule: header_loop.induct)
    case (1 a limits hend n pos out)
    show ?case
    proof (cases "pos < hend")
      case False
      then show ?thesis by (simp add: header_loop.simps)
    next
      case True
      have same: "sv_find_str_from (a @ b) crlf pos = Some e \<longleftrightarrow> sv_find_str_from a crlf pos = Some e"
        if "e \<le> hend" for e
        using that "1.prems" sv_find_str_from_prefix [of a b crlf pos e] find_crlf_append'(1) [of a pos e b]
        by (auto simp: crlf_def)
      show ?thesis
      proof (cases "\<exists>e\<le>hend. sv_find_str_from a crlf pos = Some e")
        case False
        with same have "case sv_find_str_from a crlf pos of None \<Rightarrow> True | Some e \<Rightarrow> hend < e"
          "case sv_find_str_from (a @ b) crlf pos of None \<Rightarrow> True | Some e \<Rightarrow> hend < e"
          by (auto simp: not_le split: option.splits) (metis not_le)+
        with True show ?thesis
          by (subst (1 2) header_loop.simps) (auto split: option.splits)
      next
        case T: True
        then obtain e where e: "e \<le> hend" "sv_find_str_from a crlf pos = Some e" by blast
        note e' = same [OF e(1), THEN iffD2, OF e(2)] find_crlf_append'(2) [OF e(2), of b]
        obtain st out1 where ap: "append_http1_header (substr a pos (e - pos)) out = (st, out1)" by fastforce
        have IH: "header_loop a limits hend (n + 1) (e + 2) out1 = header_loop (a @ b) limits hend (n + 1) (e + 2) out1"
          if "\<not> max_header_line_size limits < length (substr a pos (e - pos))" "\<not> max_headers limits < n + 1"
            "st = PS_Ok"
          by (rule "1.IH" [OF True e(2) _ refl _ _ ap [symmetric]]) (use that e(1) "1.prems" in simp_all)
        show ?thesis
          using True e e' ap IH by (subst (1 2) header_loop.simps) (auto simp: Let_def)
      qed
    qed
  qed
  show ?thesis using one [of b] one [of c] by simp
qed


lemma header_block_OkD:
  assumes "find_complete_http1_header_block raw limits = (PS_Ok, b)"
  shows "sv_find_str raw crlf = Some (hb_request_line_end b)"
    and "sv_find_str_from raw (crlf @ crlf) (hb_request_line_end b) = Some (hb_header_end b)"
    and "hb_header_start b = hb_request_line_end b + 2"
    and "hb_request_line_end b \<le> max_request_line_size limits"
    and "hb_header_end b - hb_header_start b \<le> max_header_block_size limits"
proof -
  have pend: "pending_scan raw limits n p \<noteq> PS_Ok" for n p
    by (induction raw limits n p rule: pending_scan.induct)
      (subst pending_scan.simps, auto simp: Let_def split: option.splits)
  show "sv_find_str raw crlf = Some (hb_request_line_end b)"
    "sv_find_str_from raw (crlf @ crlf) (hb_request_line_end b) = Some (hb_header_end b)"
    "hb_header_start b = hb_request_line_end b + 2"
    "hb_request_line_end b \<le> max_request_line_size limits"
    "hb_header_end b - hb_header_start b \<le> max_header_block_size limits"
    using assms pend
    by (auto simp: find_complete_http1_header_block_def Let_def split: option.splits if_splits)
qed

lemma header_block_cut:
  assumes "find_complete_http1_header_block (a @ b) limits = (PS_Ok, bs)"
    and "hb_header_end bs + 4 \<le> length a"
  shows "find_complete_http1_header_block (a @ c) limits = (PS_Ok, bs)"
proof -
  note ok = header_block_OkD [OF assms(1)]
  have le: "hb_request_line_end bs \<le> hb_header_end bs"
    using sv_find_str_from_SomeD [OF ok(2)] by (simp add: crlf_def)
  have f1: "sv_find_str (a @ c) crlf = Some (hb_request_line_end bs)"
    by (rule sv_find_str_Some_append, rule sv_find_str_prefix [OF ok(1)])
      (use le assms(2) in \<open>simp add: crlf_def\<close>)
  have f2: "sv_find_str_from (a @ c) (crlf @ crlf) (hb_request_line_end bs) = Some (hb_header_end bs)"
    by (rule sv_find_str_from_append, rule sv_find_str_from_prefix [OF ok(2)])
      (use le assms(2) in \<open>simp_all add: crlf_def\<close>)
  show ?thesis
    using assms(1) ok(1,2) f1 f2
    by (auto simp: find_complete_http1_header_block_def Let_def split: if_splits)
qed

lemma parse_request_OkD:
  assumes "parse_request raw limits out0 = (PS_Ok, out)"
  shows "\<exists>bs out1 out2. find_complete_http1_header_block raw limits = (PS_Ok, bs)
    \<and> parse_http1_request_line (substr raw 0 (hb_request_line_end bs)) (out0\<lparr>pr_headers := []\<rparr>) = (PS_Ok, out1)
    \<and> header_loop raw limits (hb_header_end bs) 0 (hb_header_start bs) out1 = (PS_Ok, out2)
    \<and> out = out2\<lparr>pr_header_end_offset := hb_header_end bs\<rparr>"
  using assms by (auto simp: parse_request_def Let_def split: prod.splits if_splits)

text \<open>
  A complete request head is parsed from its own bytes alone: once \<open>parse_request\<close>
  succeeds, replacing everything after the blank line that ends the head, or cutting it off,
  gives the same result. A pipelined request or a body never changes how a head is read.
\<close>

lemma parse_request_head_only:
  assumes "parse_request raw limits out0 = (PS_Ok, out)"
  shows "parse_request (take (pr_header_end_offset out + 4) raw @ extra) limits out0 = (PS_Ok, out)"
proof -
  from parse_request_OkD [OF assms] obtain bs out1 out2 where
    p: "find_complete_http1_header_block raw limits = (PS_Ok, bs)"
    "parse_http1_request_line (substr raw 0 (hb_request_line_end bs)) (out0\<lparr>pr_headers := []\<rparr>) = (PS_Ok, out1)"
    "header_loop raw limits (hb_header_end bs) 0 (hb_header_start bs) out1 = (PS_Ok, out2)"
    "out = out2\<lparr>pr_header_end_offset := hb_header_end bs\<rparr>" by blast
  define a where "a = take (hb_header_end bs + 4) raw"
  have raw: "raw = a @ drop (hb_header_end bs + 4) raw" by (simp add: a_def)
  note ok = header_block_OkD [OF p(1)]
  have le: "hb_request_line_end bs \<le> hb_header_end bs" "hb_header_end bs + 4 \<le> length raw"
    using sv_find_str_from_SomeD [OF ok(2)] by (simp_all add: crlf_def)
  then have len: "length a = hb_header_end bs + 4" by (simp add: a_def)
  have "find_complete_http1_header_block (a @ extra) limits = (PS_Ok, bs)"
    using header_block_cut [of a "drop (hb_header_end bs + 4) raw" limits bs extra] p(1) raw len by simp
  moreover have "substr (a @ extra) 0 (hb_request_line_end bs) = substr raw 0 (hb_request_line_end bs)"
    using le len by (simp add: substr_def a_def)
  moreover have "header_loop (a @ extra) limits (hb_header_end bs) 0 (hb_header_start bs) out1 = (PS_Ok, out2)"
    using header_loop_cut [of "hb_header_end bs" a extra limits 0 "hb_header_start bs" out1
        "drop (hb_header_end bs + 4) raw"] len p(3) raw by simp
  ultimately show ?thesis
    using p(2,4) by (simp add: parse_request_def Let_def a_def)
qed


lemma parse_request_head_only_witness:
  "parse_request (take (pr_header_end_offset (snd (parse_request (''GET / HTTP/1.1'' @ crlf @ ''A: b'' @ crlf @ crlf @ ''xyz'')
       default_parser_limits empty_request)) + 4)
      (''GET / HTTP/1.1'' @ crlf @ ''A: b'' @ crlf @ crlf @ ''xyz'') @ ''PUT'') default_parser_limits
      empty_request =
    (PS_Ok, snd (parse_request (''GET / HTTP/1.1'' @ crlf @ ''A: b'' @ crlf @ crlf @ ''xyz'')
       default_parser_limits empty_request))"
  by (rule parse_request_head_only) code_simp



section \<open>Printing and parsing a request head\<close>

definition header_line :: "string \<times> string \<Rightarrow> string" where
  "header_line h = fst h @ '': '' @ snd h"

definition render_request :: "string \<Rightarrow> string \<Rightarrow> string \<Rightarrow> (string \<times> string) list \<Rightarrow> string" where
  "render_request m t v hs =
     m @ '' '' @ t @ '' '' @ v @ crlf @ concat (map (\<lambda>h. header_line h @ crlf) hs) @ crlf"

lemma tchar_not: "is_tchar c \<Longrightarrow> c \<notin> set ([CHR 0x00, CHR 0x09, CHR 0x0A, CHR 0x0D] @ '' :'')"
  by (auto simp: is_tchar_def char_between_def)

lemma value_not: "is_valid_http1_field_value x \<Longrightarrow> CHR 0x00 \<notin> set x \<and> CHR 0x0D \<notin> set x"
  by (auto simp: is_valid_http1_field_value_def list_all_iff)

lemma append_header_line:
  assumes "header_ok h"
  shows "append_http1_header (header_line h) out = (PS_Ok, out\<lparr>pr_headers := pr_headers out @ [h]\<rparr>)"
    and "CHR 0x0D \<notin> set (header_line h)" and "header_line h \<noteq> []"
proof -
  obtain n x where h: "h = (n, x)" by fastforce
  have n: "n \<noteq> []" "\<forall>c\<in>set n. is_tchar c" and x: "is_valid_http1_field_value x" "trim_with is_ows x = x"
    using assms h by (auto simp: header_ok_def list_all_iff trim_http1_ows_def)
  have no: "CHR 0x00 \<notin> set n" "CHR 0x0D \<notin> set n" "CHR '':'' \<notin> set n" "hd n \<noteq> CHR '' ''" "hd n \<noteq> CHR 0x09"
    using n tchar_not [of "hd n"] by (auto dest!: tchar_not)
  have find: "sv_find (n @ CHR '':'' # CHR '' '' # x) CHR '':'' = Some (length n)"
    using no by simp
  have trim: "trim_with is_ows (CHR '' '' # x) = x"
    using x(2) by (simp add: trim_with_def is_ows_def)
  show "append_http1_header (header_line h) out = (PS_Ok, out\<lparr>pr_headers := pr_headers out @ [h]\<rparr>)"
    using n no value_not [OF x(1)] x find trim
    by (auto simp: append_http1_header_def header_line_def h Let_def substr_def substr_from_def
        trim_http1_ows_def list_all_iff sv_find_None_iff)
  show "CHR 0x0D \<notin> set (header_line h)" "header_line h \<noteq> []"
    using no value_not [OF x(1)] by (auto simp: header_line_def h)
qed

lemma header_loop_rendered:
  assumes "list_all header_ok hs" and "drop pos raw = concat (map (\<lambda>h. header_line h @ crlf) hs) @ crlf @ body"
    and "pos + length (concat (map (\<lambda>h. header_line h @ crlf) hs)) = hend + 2"
    and "list_all (\<lambda>h. length (header_line h) \<le> max_header_line_size limits) hs"
    and "n + length hs \<le> max_headers limits"
  shows "header_loop raw limits hend n pos out = (PS_Ok, out\<lparr>pr_headers := pr_headers out @ hs\<rparr>)"
  using assms
proof (induction hs arbitrary: pos n out)
  case Nil
  then show ?case by (simp add: header_loop.simps)
next
  case (Cons h hs)
  let ?tail = "concat (map (\<lambda>h. header_line h @ crlf) hs) @ crlf @ body"
  from Cons.prems(1) have h: "header_ok h" by simp
  note hl = append_header_line [OF h]
  have raw: "drop pos raw = header_line h @ crlf @ ?tail" using Cons.prems(2) by simp
  have "sv_find_str (header_line h @ crlf @ ?tail) crlf = Some (length (header_line h))"
    by (rule sv_find_str_first) (use hl(2) in \<open>simp_all add: crlf_def\<close>)
  then have find: "sv_find_str_from raw crlf pos = Some (pos + length (header_line h))"
    by (simp add: sv_find_str_from_def raw)
  have line: "substr raw pos (length (header_line h)) = header_line h" by (simp add: substr_def raw)
  have pos: "pos < hend" "pos + length (header_line h) \<le> hend"
    using Cons.prems(3) hl(3) by (simp_all add: crlf_def) (cases "header_line h", auto)
  have drop: "drop (pos + length (header_line h) + 2) raw = ?tail"
    using drop_split [of pos raw "header_line h @ crlf" ?tail] raw by (simp add: crlf_def)
  have "header_loop raw limits hend (n + 1) (pos + length (header_line h) + 2)
      (out\<lparr>pr_headers := pr_headers out @ [h]\<rparr>) =
    (PS_Ok, (out\<lparr>pr_headers := pr_headers out @ [h]\<rparr>)
      \<lparr>pr_headers := pr_headers (out\<lparr>pr_headers := pr_headers out @ [h]\<rparr>) @ hs\<rparr>)"
    by (rule Cons.IH) (use Cons.prems drop in \<open>simp_all add: crlf_def\<close>)
  then show ?case
    using pos find line hl(1) Cons.prems(4,5)
    by (subst header_loop.simps) (simp add: Let_def)
qed

lemma request_line_rendered:
  assumes "method_ok m" and "target_ok t" and "v = ''HTTP/1.0'' \<or> v = ''HTTP/1.1''"
  shows "parse_http1_request_line (m @ '' '' @ t @ '' '' @ v) out =
      (PS_Ok, out\<lparr>pr_method := m, pr_target := t, pr_version := v\<rparr>)"
    and "CHR 0x0D \<notin> set (m @ '' '' @ t @ '' '' @ v)"
proof -
  have m: "CHR '' '' \<notin> set m" "CHR 0x0D \<notin> set m" "m \<noteq> []"
    using assms(1) by (auto simp: method_ok_def list_all_iff dest!: tchar_not)
  have t: "CHR '' '' \<notin> set t" "CHR 0x0D \<notin> set t" "t \<noteq> []"
    using assms(2) by (auto simp: target_ok_def list_all_iff is_request_target_char_def)
  show "parse_http1_request_line (m @ '' '' @ t @ '' '' @ v) out =
      (PS_Ok, out\<lparr>pr_method := m, pr_target := t, pr_version := v\<rparr>)"
    using assms m t
    by (auto simp: parse_http1_request_line_def Let_def substr_def substr_from_def method_ok_def target_ok_def)
  show "CHR 0x0D \<notin> set (m @ '' '' @ t @ '' '' @ v)" using m t assms(3) by auto
qed

text \<open>
  C7: Printing and parsing a request head are inverse: a head written out from a well-formed
  method, target, version and header list is parsed back to exactly these, whatever bytes
  follow, provided it is within the limits.
\<close>

theorem parse_request_rendered:
  assumes "method_ok m" and "target_ok t" and "v = ''HTTP/1.0'' \<or> v = ''HTTP/1.1''"
    and "list_all header_ok hs"
    and "length (m @ '' '' @ t @ '' '' @ v) \<le> max_request_line_size limits"
    and "list_all (\<lambda>h. length (header_line h) \<le> max_header_line_size limits) hs"
    and "length hs \<le> max_headers limits"
    and "length (concat (map (\<lambda>h. header_line h @ crlf) hs)) \<le> max_header_block_size limits"
  shows "\<exists>out. parse_request (render_request m t v hs @ body) limits out0 = (PS_Ok, out)
    \<and> pr_method out = m \<and> pr_target out = t \<and> pr_version out = v \<and> pr_headers out = hs
    \<and> pr_header_end_offset out + 4 = length (render_request m t v hs)"
proof -
  let ?l = "m @ '' '' @ t @ '' '' @ v"
  let ?raw = "render_request m t v hs @ body"
  let ?ls = "concat (map (\<lambda>h. header_line h @ crlf) hs)"
  let ?hend = "length ?l + length (concat (map (\<lambda>l. crlf @ l) (map header_line hs)))"
  note rl = request_line_rendered [OF assms(1-3)]
  have raw: "?raw = ?l @ crlf @ ?ls @ crlf @ body" by (simp add: render_request_def)
  have eol: "sv_find_str ?raw crlf = Some (length ?l)"
    unfolding raw by (rule sv_find_str_first) (use rl(2) in \<open>simp_all add: crlf_def\<close>)
  have "drop (length ?l) ?raw = crlf @ ?ls @ crlf @ body" unfolding raw by simp
  also have "\<dots> = concat (map (\<lambda>l. crlf @ l) (map header_line hs)) @ crlf @ crlf @ body"
    using crlf_lines [of header_line hs] by (metis append.assoc)
  finally have "sv_find_str_from ?raw (crlf @ crlf) (length ?l) = Some ?hend"
    unfolding sv_find_str_from_def
    by (simp only:) (subst find_head_end, use assms(4) append_header_line(2,3) in \<open>auto simp: list_all_iff\<close>)
  moreover have len: "length (concat (map (\<lambda>l. crlf @ l) (map header_line hs))) = length ?ls"
    by (induction hs) simp_all
  ultimately have block: "find_complete_http1_header_block ?raw limits = (PS_Ok,
      \<lparr>hb_request_line_end = length ?l, hb_header_start = length ?l + 2, hb_header_end = ?hend\<rparr>)"
    using eol assms(5,8) by (auto simp: find_complete_http1_header_block_def Let_def)
  have "drop (length ?l + 2) ?raw = ?ls @ crlf @ body"
    using drop_split [of 0 ?raw "?l @ crlf" "?ls @ crlf @ body"] raw by (simp add: crlf_def)
  then have loop: "header_loop ?raw limits ?hend 0 (length ?l + 2) out = (PS_Ok, out\<lparr>pr_headers := pr_headers out @ hs\<rparr>)" for out
    by (rule header_loop_rendered [OF assms(4)]) (use assms(6,7) len in simp_all)
  have "substr ?raw 0 (length ?l) = ?l" unfolding raw by (simp add: substr_def)
  with block rl(1) loop len show ?thesis
    by (simp add: parse_request_def Let_def) (simp add: render_request_def crlf_def)
qed

theorem parse_request_rendered_witness:
  "\<exists>out. parse_request (render_request ''POST'' ''/a?b'' ''HTTP/1.1'' [(''Host'', ''x''), (''X-Empty'', [])] @ ''body'')
      default_parser_limits empty_request = (PS_Ok, out)
    \<and> pr_method out = ''POST'' \<and> pr_target out = ''/a?b'' \<and> pr_version out = ''HTTP/1.1''
    \<and> pr_headers out = [(''Host'', ''x''), (''X-Empty'', [])]
    \<and> pr_header_end_offset out + 4 = length (render_request ''POST'' ''/a?b'' ''HTTP/1.1'' [(''Host'', ''x''), (''X-Empty'', [])])"
  by (rule parse_request_rendered)
    (simp_all add: method_ok_def target_ok_def header_ok_def is_tchar_def is_request_target_char_def
      is_valid_http1_field_value_def trim_http1_ows_def trim_with_def is_ows_def char_between_def
      header_line_def crlf_def default_parser_limits_def)

section \<open>The limit on the request line\<close>

text \<open>
  C11: The limit on the request line depends on where the input is cut. A line of exactly
  \<open>max_request_line_size\<close> bytes passes when its CR and LF arrive together, but is refused as too
  long when the buffer ends between them, because the pending CR is counted as part of the line.
\<close>

theorem request_line_limit_cut:
  assumes "CHR 0x0D \<notin> set l" and "length l = max_request_line_size limits"
  shows "fst (parse_request (l @ [CHR 0x0D]) limits out0) = PS_UriTooLong
    \<and> fst (parse_request (l @ crlf) limits out0) = PS_Incomplete"
proof -
  have "sv_find_str (l @ [CHR 0x0D]) crlf = None"
    using assms(1) sv_find_str_skip [of crlf l "[CHR 0x0D]"] by (simp add: crlf_def)
  moreover have find: "sv_find_str (l @ crlf) crlf = Some (length l)"
    using assms(1) sv_find_str_first [of crlf l "[]"] by (simp add: crlf_def)
  moreover have "sv_find_str_from (l @ crlf) (crlf @ crlf) (length l) = None"
    by (simp add: sv_find_str_from_def crlf_def)
  ultimately show ?thesis
    using assms(2)
    by (simp add: parse_request_def find_complete_http1_header_block_def Let_def)
      (simp add: pending_scan.simps crlf_def)
qed

theorem request_line_limit_cut_witness:
  "fst (parse_request (replicate 8192 CHR ''a'' @ [CHR 0x0D]) default_parser_limits empty_request) = PS_UriTooLong
   \<and> fst (parse_request (replicate 8192 CHR ''a'' @ crlf) default_parser_limits empty_request) = PS_Incomplete"
  by (rule request_line_limit_cut) (simp_all add: default_parser_limits_def)

end
