(* ===== verification/Upload_Body.thy ===== *)
theory Upload_Body
  imports Prelude "HOL-Library.Multiset" "HOL-Library.Sublist"
begin

text \<open>
  \<open>UploadBodyState\<close> of \<open>net/server_types.cxx\<close>: the queue between the connection, which pushes
  body chunks, and the handler, which reads them.  Each operation is one critical section followed
  by the completions it makes outside the lock.  A read is named by a number; the results the
  reads get are recorded in order in \<open>ub_results\<close>, and a read without a result yet is the pending
  one.
\<close>

section \<open>State and operations\<close>

datatype upload_error_kind =
  UE_malformed_body | UE_disconnected | UE_timeout | UE_cancelled | UE_body_too_large
| UE_content_length_mismatch | UE_io_error

record upload_error =
  ue_kind :: upload_error_kind
  ue_detail :: string

fun upload_error_code :: "upload_error_kind \<Rightarrow> string" where
  "upload_error_code UE_malformed_body = ''malformed_body''"
| "upload_error_code UE_disconnected = ''disconnected''"
| "upload_error_code UE_timeout = ''timeout''"
| "upload_error_code UE_cancelled = ''cancelled''"
| "upload_error_code UE_body_too_large = ''body_too_large''"
| "upload_error_code UE_content_length_mismatch = ''content_length_mismatch''"
| "upload_error_code UE_io_error = ''io_error''"

text \<open>\<open>std::expected<std::optional<UploadChunk>, UploadError>\<close>: the inner \<open>None\<close> is the end.\<close>

type_synonym upload_read_result = "upload_error + string option"

record upload_body =
  ub_chunks :: "string list"
  ub_active :: string
  ub_terminal :: "upload_error option"
  ub_eof :: bool
  ub_read_pending :: bool
  ub_pending :: "nat option"
  ub_content_length :: "nat option"
  ub_bytes_read :: nat
  ub_bytes_received :: nat
  ub_body_limit :: nat
  ub_capacity :: nat
  ub_abandoned :: bool
  ub_prelude_rejected :: bool
  ub_results :: "(nat \<times> upload_read_result) list"

definition upload_new :: "nat option \<Rightarrow> nat \<Rightarrow> upload_body" where
  "upload_new cl capacity =
     \<lparr>ub_chunks = [], ub_active = [], ub_terminal = None, ub_eof = False, ub_read_pending = False,
      ub_pending = None, ub_content_length = cl, ub_bytes_read = 0, ub_bytes_received = 0,
      ub_body_limit = 0, ub_capacity = (if capacity = 0 then 1 else capacity), ub_abandoned = False,
      ub_prelude_rejected = False, ub_results = []\<rparr>"

definition locked_next_result :: "upload_body \<Rightarrow> upload_read_result \<times> upload_body" where
  "locked_next_result s =
     (case ub_terminal s of
        Some e \<Rightarrow> (Inl e, s)
      | None \<Rightarrow>
          (case ub_chunks s of
             c # cs \<Rightarrow>
               (Inr (Some c),
                s\<lparr>ub_active := c, ub_chunks := cs, ub_bytes_read := ub_bytes_read s + length c\<rparr>)
           | [] \<Rightarrow>
               if ub_eof s then (Inr None, s)
               else (Inl \<lparr>ue_kind = UE_cancelled, ue_detail = ''upload read is not ready''\<rparr>, s)))"

definition take_pending_locked :: "upload_body \<Rightarrow> nat option \<times> upload_body" where
  "take_pending_locked s = (ub_pending s, s\<lparr>ub_read_pending := False, ub_pending := None\<rparr>)"

definition complete_pending :: "nat option \<Rightarrow> upload_read_result \<Rightarrow> upload_body \<Rightarrow> upload_body" where
  "complete_pending pending result s =
     (case pending of None \<Rightarrow> s | Some i \<Rightarrow> s\<lparr>ub_results := ub_results s @ [(i, result)]\<rparr>)"

text \<open>A read either returns at once, and its result is recorded, or becomes the pending one.\<close>

definition upload_read :: "nat \<Rightarrow> upload_body \<Rightarrow> upload_body" where
  "upload_read i s =
     (if ub_terminal s \<noteq> None \<or> ub_chunks s \<noteq> [] \<or> ub_eof s then
        (case locked_next_result s of (result, s) \<Rightarrow> complete_pending (Some i) result s)
      else if ub_read_pending s then
        (let e = \<lparr>ue_kind = UE_cancelled, ue_detail = ''concurrent UploadBody::read() is not allowed''\<rparr>;
             s = s\<lparr>ub_terminal := Some e, ub_abandoned := True, ub_chunks := [], ub_active := []\<rparr>
         in case take_pending_locked s of (pending, s) \<Rightarrow>
              complete_pending (Some i) (Inl e) (complete_pending pending (Inl e) s))
      else s\<lparr>ub_pending := Some i, ub_read_pending := True\<rparr>)"

definition upload_set_body_limit :: "nat \<Rightarrow> upload_body \<Rightarrow> upload_body" where
  "upload_set_body_limit limit s = s\<lparr>ub_body_limit := limit\<rparr>"

definition upload_mark_prelude_rejected :: "upload_body \<Rightarrow> upload_body" where
  "upload_mark_prelude_rejected s = s\<lparr>ub_prelude_rejected := True\<rparr>"

definition upload_push :: "string \<Rightarrow> upload_body \<Rightarrow> (upload_error + unit) \<times> upload_body" where
  "upload_push chunk s =
     (if ub_terminal s \<noteq> None \<or> ub_eof s then (Inr (), s)
      else if ub_body_limit s \<noteq> 0 \<and>
              (length chunk > ub_body_limit s \<or> ub_bytes_received s > ub_body_limit s - length chunk) then
        (let e = \<lparr>ue_kind = UE_body_too_large, ue_detail = ''upload exceeds body limit''\<rparr>;
             s = s\<lparr>ub_terminal := Some e, ub_chunks := [], ub_active := []\<rparr>
         in if ub_read_pending s
            then (case take_pending_locked s of (pending, s) \<Rightarrow> (Inl e, complete_pending pending (Inl e) s))
            else (Inl e, s))
      else
        (let s = s\<lparr>ub_bytes_received := ub_bytes_received s + length chunk\<rparr>
         in if \<not> ub_read_pending s \<and> length (ub_chunks s) \<ge> ub_capacity s
            then (Inl \<lparr>ue_kind = UE_io_error, ue_detail = ''upload stream queue is full''\<rparr>, s)
            else
              let s = s\<lparr>ub_chunks := ub_chunks s @ [chunk]\<rparr>
              in if ub_read_pending s
                 then (case locked_next_result s of (ready, s) \<Rightarrow>
                       case take_pending_locked s of (pending, s) \<Rightarrow>
                         (Inr (), complete_pending pending ready s))
                 else (Inr (), s)))"

definition upload_finish :: "upload_body \<Rightarrow> upload_body" where
  "upload_finish s =
     (let s = s\<lparr>ub_eof := True\<rparr>
      in if ub_read_pending s \<and> ub_chunks s = [] then
           (case take_pending_locked s of (pending, s) \<Rightarrow> complete_pending pending (Inr None) s)
         else if ub_read_pending s then
           (case locked_next_result s of (ready, s) \<Rightarrow>
            case take_pending_locked s of (pending, s) \<Rightarrow> complete_pending pending ready s)
         else s)"

definition upload_fail :: "upload_error \<Rightarrow> upload_body \<Rightarrow> upload_body" where
  "upload_fail e s =
     (let s = s\<lparr>ub_terminal := Some e, ub_chunks := [], ub_active := []\<rparr>
      in if ub_read_pending s
         then (case take_pending_locked s of (pending, s) \<Rightarrow> complete_pending pending (Inl e) s)
         else s)"

definition upload_abandon_consumer :: "upload_body \<Rightarrow> upload_body" where
  "upload_abandon_consumer s =
     upload_fail
       \<lparr>ue_kind = UE_cancelled,
        ue_detail = ''upload body was destroyed before it was consumed or discarded''\<rparr>
       (s\<lparr>ub_abandoned := True\<rparr>)"

definition upload_terminal_error_kind :: "upload_body \<Rightarrow> upload_error_kind option" where
  "upload_terminal_error_kind s = map_option ue_kind (ub_terminal s)"

section \<open>Sequences of operations\<close>

datatype upload_command =
  Read nat | Push string | Finish | Fail upload_error | Abandon | Set_limit nat | Reject_prelude

fun upload_exec :: "upload_command \<Rightarrow> upload_body \<Rightarrow> upload_body" where
  "upload_exec (Read i) = upload_read i"
| "upload_exec (Push c) = snd \<circ> upload_push c"
| "upload_exec Finish = upload_finish"
| "upload_exec (Fail e) = upload_fail e"
| "upload_exec Abandon = upload_abandon_consumer"
| "upload_exec (Set_limit n) = upload_set_body_limit n"
| "upload_exec Reject_prelude = upload_mark_prelude_rejected"

lemmas upload_defs =
  upload_read_def upload_push_def upload_finish_def upload_fail_def upload_abandon_consumer_def
  upload_set_body_limit_def upload_mark_prelude_rejected_def locked_next_result_def
  take_pending_locked_def complete_pending_def Let_def

text \<open>
  The reading side agrees with itself: a read is pending exactly when its source is stored, and
  only while there is nothing to give it.
\<close>

definition upload_inv :: "upload_body \<Rightarrow> bool" where
  "upload_inv s \<longleftrightarrow>
     (ub_read_pending s \<longleftrightarrow> ub_pending s \<noteq> None) \<and>
     (ub_read_pending s \<longrightarrow> ub_chunks s = [] \<and> ub_terminal s = None \<and> \<not> ub_eof s) \<and>
     (ub_terminal s \<noteq> None \<longrightarrow> ub_chunks s = []) \<and>
     1 \<le> ub_capacity s \<and> length (ub_chunks s) \<le> ub_capacity s"

lemma upload_inv_fail: "upload_inv s \<Longrightarrow> upload_inv (upload_fail e s)"
  by (cases "ub_pending s") (auto simp: upload_inv_def upload_defs)

lemma upload_inv_finish: "upload_inv s \<Longrightarrow> upload_inv (upload_finish s)"
  by (cases "ub_pending s") (auto simp: upload_inv_def upload_defs)

lemma upload_inv_read: "upload_inv s \<Longrightarrow> upload_inv (upload_read i s)"
  by (cases "ub_pending s"; cases "ub_chunks s"; cases "ub_terminal s")
     (auto simp: upload_inv_def upload_defs)

lemma upload_inv_push: "upload_inv s \<Longrightarrow> upload_inv (snd (upload_push c s))"
  by (cases "ub_pending s"; cases "ub_terminal s")
     (auto simp: upload_inv_def upload_defs)

lemma upload_inv_exec: "upload_inv s \<Longrightarrow> upload_inv (upload_exec c s)"
proof (cases c)
  case Abandon
  assume "upload_inv s"
  then have "upload_inv (s\<lparr>ub_abandoned := True\<rparr>)" by (simp add: upload_inv_def)
  with Abandon show ?thesis by (simp add: upload_abandon_consumer_def upload_inv_fail)
qed (simp_all add: upload_inv_read upload_inv_push upload_inv_finish upload_inv_fail,
     simp_all add: upload_inv_def upload_set_body_limit_def upload_mark_prelude_rejected_def)

interpretation upload_machine: invariant_machine upload_exec upload_inv
  by unfold_locales (rule upload_inv_exec)


section \<open>What the readers get\<close>

text \<open>The chunks handed to readers so far, and the chunks a sequence of operations accepts.\<close>

fun chunk_of :: "nat \<times> upload_read_result \<Rightarrow> string list" where
  "chunk_of (i, Inr (Some c)) = [c]"
| "chunk_of _ = []"

definition delivered :: "upload_body \<Rightarrow> string list" where
  "delivered s = concat (map chunk_of (ub_results s))"

definition ended :: "upload_body \<Rightarrow> bool" where
  "ended s \<longleftrightarrow> Inr None \<in> snd ` set (ub_results s)"

fun accepts :: "upload_command \<Rightarrow> upload_body \<Rightarrow> string list" where
  "accepts (Push c) s = (if ub_terminal s = None \<and> \<not> ub_eof s \<and> fst (upload_push c s) = Inr () then [c] else [])"
| "accepts _ s = []"

fun accepted :: "upload_command list \<Rightarrow> upload_body \<Rightarrow> string list" where
  "accepted [] s = []"
| "accepted (c # cs) s = accepts c s @ accepted cs (upload_exec c s)"

definition flow :: "string list \<Rightarrow> upload_body \<Rightarrow> bool" where
  "flow acc s \<longleftrightarrow>
     ub_bytes_read s = length (concat (delivered s)) \<and>
     (ub_terminal s = None \<longrightarrow> acc = delivered s @ ub_chunks s) \<and> prefix (delivered s) acc \<and>
     (ended s \<longrightarrow> ub_eof s \<and> acc = delivered s)"

lemma results_add [simp]:
  "delivered (s\<lparr>ub_results := ub_results s @ [(i, r)]\<rparr>) = delivered s @ chunk_of (i, r)"
  "ended (s\<lparr>ub_results := ub_results s @ [(i, r)]\<rparr>) \<longleftrightarrow> ended s \<or> r = Inr None"
  by (auto simp: delivered_def ended_def)

lemma results_frame [simp]:
  "delivered (s\<lparr>ub_chunks := a\<rparr>) = delivered s"
  "delivered (s\<lparr>ub_active := b\<rparr>) = delivered s"
  "delivered (s\<lparr>ub_terminal := t\<rparr>) = delivered s"
  "delivered (s\<lparr>ub_eof := e\<rparr>) = delivered s"
  "delivered (s\<lparr>ub_read_pending := e\<rparr>) = delivered s"
  "delivered (s\<lparr>ub_pending := q\<rparr>) = delivered s"
  "delivered (s\<lparr>ub_bytes_read := n\<rparr>) = delivered s"
  "delivered (s\<lparr>ub_bytes_received := n\<rparr>) = delivered s"
  "delivered (s\<lparr>ub_body_limit := n\<rparr>) = delivered s"
  "delivered (s\<lparr>ub_abandoned := e\<rparr>) = delivered s"
  "delivered (s\<lparr>ub_prelude_rejected := e\<rparr>) = delivered s"
  "ended (s\<lparr>ub_chunks := a\<rparr>) = ended s"
  "ended (s\<lparr>ub_active := b\<rparr>) = ended s"
  "ended (s\<lparr>ub_terminal := t\<rparr>) = ended s"
  "ended (s\<lparr>ub_eof := e\<rparr>) = ended s"
  "ended (s\<lparr>ub_read_pending := e\<rparr>) = ended s"
  "ended (s\<lparr>ub_pending := q\<rparr>) = ended s"
  "ended (s\<lparr>ub_bytes_read := n\<rparr>) = ended s"
  "ended (s\<lparr>ub_bytes_received := n\<rparr>) = ended s"
  "ended (s\<lparr>ub_body_limit := n\<rparr>) = ended s"
  "ended (s\<lparr>ub_abandoned := e\<rparr>) = ended s"
  "ended (s\<lparr>ub_prelude_rejected := e\<rparr>) = ended s"
  by (simp_all add: delivered_def ended_def)

lemma complete_pending_frame [simp]:
  "ub_chunks (complete_pending p r s) = ub_chunks s"
  "ub_terminal (complete_pending p r s) = ub_terminal s"
  "ub_eof (complete_pending p r s) = ub_eof s"
  "ub_bytes_read (complete_pending p r s) = ub_bytes_read s"
  "delivered (complete_pending (Some i) r s) = delivered s @ chunk_of (i, r)"
  "ended (complete_pending (Some i) r s) \<longleftrightarrow> ended s \<or> r = Inr None"
  by (simp_all add: complete_pending_def split: option.split)

lemma flow_fail: "upload_inv s \<Longrightarrow> flow acc s \<Longrightarrow> flow acc (upload_fail e s)"
  by (cases "ub_pending s")
     (simp_all add: upload_inv_def upload_fail_def Let_def take_pending_locked_def flow_def)

lemma flow_finish: "upload_inv s \<Longrightarrow> flow acc s \<Longrightarrow> flow acc (upload_finish s)"
  by (cases "ub_pending s")
     (simp_all add: upload_inv_def upload_finish_def Let_def take_pending_locked_def flow_def)

lemma flow_read: "upload_inv s \<Longrightarrow> flow acc s \<Longrightarrow> flow acc (upload_read i s)"
proof (cases "ub_terminal s")
  case None
  assume "upload_inv s" "flow acc s"
  with None show ?thesis
    by (cases "ub_chunks s"; cases "ub_pending s")
       (auto simp: upload_inv_def upload_read_def locked_next_result_def take_pending_locked_def
          flow_def Let_def)
next
  case (Some e)
  assume "upload_inv s" "flow acc s"
  with Some show ?thesis by (simp add: upload_inv_def upload_read_def locked_next_result_def flow_def)
qed

lemma flow_push:
  "upload_inv s \<Longrightarrow> flow acc s \<Longrightarrow> flow (acc @ accepts (Push c) s) (snd (upload_push c s))"
  by (cases "ub_pending s"; cases "ub_terminal s")
     (auto simp: upload_inv_def upload_push_def Let_def locked_next_result_def take_pending_locked_def
        flow_def)

lemma abandoned_frame [simp]:
  "upload_inv (s\<lparr>ub_abandoned := b\<rparr>) = upload_inv s" "flow acc (s\<lparr>ub_abandoned := b\<rparr>) = flow acc s"
  by (simp_all add: upload_inv_def flow_def)

lemma flow_exec: "upload_inv s \<Longrightarrow> flow acc s \<Longrightarrow> flow (acc @ accepts c s) (upload_exec c s)"
proof (cases c)
  case (Push x)
  assume "upload_inv s" "flow acc s"
  with Push show ?thesis using flow_push [of s acc x] by simp
qed (simp_all add: flow_read flow_finish flow_fail upload_abandon_consumer_def,
     simp_all add: upload_set_body_limit_def upload_mark_prelude_rejected_def flow_def)

lemma flow_run:
  "upload_inv s \<Longrightarrow> flow acc s \<Longrightarrow> flow (acc @ accepted cs s) (run_commands upload_exec cs s)"
proof (induction cs arbitrary: acc s)
  case (Cons c cs)
  from Cons.IH [OF upload_inv_exec flow_exec] Cons.prems show ?case by simp
qed simp


text \<open>
  C15: The upload queue loses, repeats and reorders nothing.  After any interleaving of reads,
  pushes, finish, failures, abandonment and limit changes on a fresh body, the chunks handed to
  readers are a prefix of the accepted chunks, in order; while there is no terminal error the rest
  is exactly what is queued; a reader that was told the body has ended was given all of it; the
  queue holds at most its capacity; and \<open>bytes_read\<close> is the number of bytes handed out.
\<close>

theorem upload_flow:
  "let s = run_commands upload_exec cs (upload_new cl capacity);
       acc = accepted cs (upload_new cl capacity)
   in prefix (delivered s) acc \<and> (if ub_terminal s = None then acc = delivered s @ ub_chunks s else True) \<and>
      (if ended s then acc = delivered s else True) \<and> ub_bytes_read s = length (concat (delivered s)) \<and>
      length (ub_chunks s) \<le> ub_capacity s"
proof -
  have inv: "upload_inv (upload_new cl capacity)" by (simp add: upload_inv_def upload_new_def)
  have "flow [] (upload_new cl capacity)"
    by (simp add: flow_def upload_new_def delivered_def ended_def)
  from flow_run [OF inv this, of cs] upload_machine.inv_run [OF inv, of cs] show ?thesis
    by (simp add: flow_def upload_inv_def Let_def)
qed

section \<open>Every read is answered once\<close>

fun reads :: "upload_command list \<Rightarrow> nat list" where
  "reads [] = []"
| "reads (Read i # cs) = i # reads cs"
| "reads (_ # cs) = reads cs"

text \<open>The reads started and not lost: those with a result, and the pending one.\<close>

definition open_reads :: "upload_body \<Rightarrow> nat list" where
  "open_reads s = (case ub_pending s of None \<Rightarrow> [] | Some i \<Rightarrow> [i])"

definition known_reads :: "upload_body \<Rightarrow> nat multiset" where
  "known_reads s = mset (map fst (ub_results s)) + mset (open_reads s)"

lemmas read_defs = known_reads_def open_reads_def upload_inv_def

lemma reads_fail: "upload_inv s \<Longrightarrow> known_reads (upload_fail e s) = known_reads s"
  by (cases "ub_pending s") (auto simp: read_defs upload_defs)

lemma reads_finish: "upload_inv s \<Longrightarrow> known_reads (upload_finish s) = known_reads s"
  by (cases "ub_pending s") (auto simp: read_defs upload_defs)

lemma reads_push: "upload_inv s \<Longrightarrow> known_reads (snd (upload_push c s)) = known_reads s"
  by (cases "ub_pending s"; cases "ub_terminal s") (auto simp: read_defs upload_defs)

lemma reads_read: "upload_inv s \<Longrightarrow> known_reads (upload_read i s) = add_mset i (known_reads s)"
  by (cases "ub_pending s"; cases "ub_chunks s"; cases "ub_terminal s") (auto simp: read_defs upload_defs)

lemma reads_exec:
  "upload_inv s \<Longrightarrow> known_reads (upload_exec c s) = known_reads s + mset (reads [c])"
  using reads_fail [of "s\<lparr>ub_abandoned := True\<rparr>"]
  by (cases c)
     (simp_all add: reads_read reads_push reads_finish reads_fail upload_abandon_consumer_def,
      simp_all add: read_defs upload_set_body_limit_def upload_mark_prelude_rejected_def)

lemma reads_Cons: "reads (c # cs) = reads [c] @ reads cs"
  by (cases c) simp_all

lemma reads_run:
  "upload_inv s \<Longrightarrow> known_reads (run_commands upload_exec cs s) = known_reads s + mset (reads cs)"
proof (induction cs arbitrary: s)
  case (Cons c cs)
  from Cons.IH [OF upload_inv_exec [OF Cons.prems, of c]] reads_exec [OF Cons.prems, of c] show ?case
    by (simp add: reads_Cons [of c cs] del: reads.simps)
qed simp

text \<open>
  C16: Every read is answered exactly once.  After any interleaving of operations, the reads that
  were started are, as a multiset, the reads that have a result together with at most one that is
  still pending; and once the body is finished or failed, none is pending.
\<close>

theorem upload_reads_answered:
  "let s = run_commands upload_exec cs (upload_new cl capacity)
   in mset (reads cs) = mset (map fst (ub_results s)) + mset (open_reads s) \<and>
      (open_reads s = [] \<or> (\<not> ub_eof s \<and> ub_terminal s = None))"
proof -
  have inv: "upload_inv (upload_new cl capacity)" by (simp add: upload_inv_def upload_new_def)
  have "known_reads (upload_new cl capacity) = {#}" by (simp add: read_defs upload_new_def)
  with reads_run [OF inv, of cs] have "mset (reads cs) = known_reads (run_commands upload_exec cs (upload_new cl capacity))"
    by simp
  with upload_machine.inv_run [OF inv, of cs] show ?thesis
    by (auto simp: known_reads_def open_reads_def upload_inv_def Let_def split: option.splits)
qed

end
