(* ===== verification/Server_Types.thy ===== *)
theory Server_Types
  imports Http_Types Upload_Body
begin

text \<open>
  The rest of \<open>net/server_types.cxx\<close>: reasons for rejecting a request with their codes, the
  zero-copy send completion machine, typed access to request fields, uploaded files and the
  request records.
\<close>

section \<open>Rejections\<close>

datatype reject_reason =
  RR_none | RR_malformed_request | RR_request_line_too_large | RR_header_line_too_large
| RR_header_block_too_large | RR_too_many_headers | RR_missing_host | RR_duplicate_host
| RR_malformed_content_length | RR_duplicate_content_length
| RR_content_length_with_transfer_encoding | RR_unsupported_transfer_encoding
| RR_invalid_transfer_encoding | RR_invalid_chunk | RR_body_too_large | RR_expectation_failed
| RR_header_timeout | RR_body_timeout

fun reject_reason_code :: "reject_reason \<Rightarrow> string" where
  "reject_reason_code RR_none = ''none''"
| "reject_reason_code RR_malformed_request = ''malformed_request''"
| "reject_reason_code RR_request_line_too_large = ''request_line_too_large''"
| "reject_reason_code RR_header_line_too_large = ''header_line_too_large''"
| "reject_reason_code RR_header_block_too_large = ''header_block_too_large''"
| "reject_reason_code RR_too_many_headers = ''too_many_headers''"
| "reject_reason_code RR_missing_host = ''missing_host''"
| "reject_reason_code RR_duplicate_host = ''duplicate_host''"
| "reject_reason_code RR_malformed_content_length = ''malformed_content_length''"
| "reject_reason_code RR_duplicate_content_length = ''duplicate_content_length''"
| "reject_reason_code RR_content_length_with_transfer_encoding = ''content_length_with_transfer_encoding''"
| "reject_reason_code RR_unsupported_transfer_encoding = ''unsupported_transfer_encoding''"
| "reject_reason_code RR_invalid_transfer_encoding = ''invalid_transfer_encoding''"
| "reject_reason_code RR_invalid_chunk = ''invalid_chunk''"
| "reject_reason_code RR_body_too_large = ''body_too_large''"
| "reject_reason_code RR_expectation_failed = ''expectation_failed''"
| "reject_reason_code RR_header_timeout = ''header_timeout''"
| "reject_reason_code RR_body_timeout = ''body_timeout''"

definition reject_reason_diagnostic_code :: "reject_reason \<Rightarrow> string" where
  "reject_reason_diagnostic_code reason =
     (case reason of
        RR_header_block_too_large \<Rightarrow> ''http.reject.header_block_too_large''
      | RR_content_length_with_transfer_encoding \<Rightarrow> ''http.reject.content_length_with_transfer_encoding''
      | _ \<Rightarrow> reject_reason_code reason)"

definition reject_reason_status :: "reject_reason \<Rightarrow> int" where
  "reject_reason_status reason =
     (case reason of
        RR_request_line_too_large \<Rightarrow> 414
      | RR_header_line_too_large \<Rightarrow> 431
      | RR_header_block_too_large \<Rightarrow> 431
      | RR_too_many_headers \<Rightarrow> 431
      | RR_body_too_large \<Rightarrow> 413
      | RR_expectation_failed \<Rightarrow> 417
      | RR_header_timeout \<Rightarrow> 408
      | RR_body_timeout \<Rightarrow> 408
      | RR_none \<Rightarrow> 200
      | _ \<Rightarrow> 400)"

fun reject_reason_detail :: "reject_reason \<Rightarrow> string" where
  "reject_reason_detail RR_malformed_request = ''request syntax is invalid''"
| "reject_reason_detail RR_request_line_too_large = ''request line exceeds the configured limit''"
| "reject_reason_detail RR_header_line_too_large = ''a header line exceeds the configured limit''"
| "reject_reason_detail RR_header_block_too_large = ''request headers exceed the configured aggregate limit''"
| "reject_reason_detail RR_too_many_headers = ''request contains too many headers''"
| "reject_reason_detail RR_missing_host = ''HTTP/1.1 request is missing a Host header''"
| "reject_reason_detail RR_duplicate_host = ''HTTP/1.1 request contains more than one Host header''"
| "reject_reason_detail RR_malformed_content_length = ''Content-Length is not a valid decimal length''"
| "reject_reason_detail RR_duplicate_content_length = ''request contains more than one Content-Length header''"
| "reject_reason_detail RR_content_length_with_transfer_encoding =
     ''request contains both Content-Length and Transfer-Encoding''"
| "reject_reason_detail RR_unsupported_transfer_encoding = ''Transfer-Encoding is not supported for this request''"
| "reject_reason_detail RR_invalid_transfer_encoding = ''Transfer-Encoding header is invalid''"
| "reject_reason_detail RR_invalid_chunk = ''chunked request body framing is invalid''"
| "reject_reason_detail RR_body_too_large = ''request body exceeds the configured limit''"
| "reject_reason_detail RR_expectation_failed = ''request Expect header cannot be satisfied''"
| "reject_reason_detail RR_header_timeout = ''request headers were not received before the timeout''"
| "reject_reason_detail RR_body_timeout = ''request body was not received before the timeout''"
| "reject_reason_detail RR_none = []"

record rejection_metrics =
  rm_malformed_request :: u64
  rm_request_line_too_large :: u64
  rm_header_line_too_large :: u64
  rm_header_block_too_large :: u64
  rm_too_many_headers :: u64
  rm_missing_host :: u64
  rm_duplicate_host :: u64
  rm_malformed_content_length :: u64
  rm_duplicate_content_length :: u64
  rm_content_length_with_transfer_encoding :: u64
  rm_unsupported_transfer_encoding :: u64
  rm_invalid_transfer_encoding :: u64
  rm_invalid_chunk :: u64
  rm_body_too_large :: u64
  rm_expectation_failed :: u64
  rm_header_timeout :: u64
  rm_body_timeout :: u64

section \<open>Zero-copy send completions\<close>

datatype zc_pending_action =
  Pending_none | Pending_complete_response | Pending_resubmit_response | Pending_close_after_error

datatype zc_cqe_action =
  Action_none | Action_complete_response | Action_resubmit_response | Action_close_after_error
| Action_close_after_notification

text \<open>The counters of \<open>SendZcMetrics\<close> that the completion handler reads or writes.\<close>

record send_zc_metrics =
  zc_attempts :: u64
  zc_bytes_requested :: u64
  zc_bytes_sent :: u64
  zc_notifications :: u64
  zc_copied_notifications :: u64
  zc_sends_without_notification :: u64
  zc_errors_enomem :: u64
  zc_errors_other :: u64
  zc_adaptive_disable_count :: u64

record zc_cqe_state =
  zc_waiting_notification :: bool
  zc_close_after_notification :: bool
  zc_after_notification :: zc_pending_action

record zc_cqe_input =
  zc_result :: int
  zc_notification :: bool
  zc_more :: bool
  zc_copied :: bool
  zc_enomem_error :: bool
  zc_written_before :: u64
  zc_response_total :: u64

record zc_cqe_outcome =
  zc_action :: zc_cqe_action
  zc_out_bytes_sent :: u64
  zc_adaptive_disabled :: bool

definition no_outcome :: zc_cqe_outcome where
  "no_outcome = \<lparr>zc_action = Action_none, zc_out_bytes_sent = 0, zc_adaptive_disabled = False\<rparr>"

definition send_zc_cqe_matches_connection ::
    "32 word \<Rightarrow> 32 word \<Rightarrow> zc_cqe_state \<Rightarrow> bool \<Rightarrow> bool" where
  "send_zc_cqe_matches_connection connection_generation cqe_generation st notification =
     (if connection_generation = cqe_generation then True
      else notification \<and> zc_waiting_notification st \<and> zc_close_after_notification st \<and>
           connection_generation = cqe_generation + 1)"

fun zc_pending_to_action :: "zc_pending_action \<Rightarrow> zc_cqe_action" where
  "zc_pending_to_action Pending_complete_response = Action_complete_response"
| "zc_pending_to_action Pending_resubmit_response = Action_resubmit_response"
| "zc_pending_to_action Pending_close_after_error = Action_close_after_error"
| "zc_pending_to_action Pending_none = Action_none"

definition zc_note_error :: "zc_cqe_input \<Rightarrow> send_zc_metrics \<Rightarrow> send_zc_metrics" where
  "zc_note_error input m =
     (if zc_enomem_error input then m\<lparr>zc_errors_enomem := zc_errors_enomem m + 1\<rparr>
      else m\<lparr>zc_errors_other := zc_errors_other m + 1\<rparr>)"

text \<open>The branch for a notification: adaptive disabling, then the action kept for it.\<close>

definition zc_on_notification ::
    "zc_cqe_state \<Rightarrow> send_zc_metrics \<Rightarrow> zc_cqe_input \<Rightarrow> bool \<Rightarrow>
     zc_cqe_outcome \<times> zc_cqe_state \<times> send_zc_metrics \<times> bool" where
  "zc_on_notification st m input enabled =
     (let m = m\<lparr>zc_notifications := zc_notifications m + 1\<rparr>;
          m = (if zc_copied input then m\<lparr>zc_copied_notifications := zc_copied_notifications m + 1\<rparr> else m);
          disable = (zc_copied input \<and> enabled \<and> zc_attempts m \<ge> 1024 \<and>
                     zc_bytes_requested m \<ge> 16 * 1024 * 1024 \<and>
                     zc_copied_notifications m * 10 > zc_notifications m * 9);
          enabled = (if disable then False else enabled);
          m = (if disable then m\<lparr>zc_adaptive_disable_count := zc_adaptive_disable_count m + 1\<rparr> else m);
          out = no_outcome\<lparr>zc_adaptive_disabled := disable\<rparr>;
          st = st\<lparr>zc_waiting_notification := False\<rparr>
      in if zc_close_after_notification st
         then (out\<lparr>zc_action := Action_close_after_notification\<rparr>,
               st\<lparr>zc_close_after_notification := False, zc_after_notification := Pending_none\<rparr>, m, enabled)
         else (out\<lparr>zc_action := zc_pending_to_action (zc_after_notification st)\<rparr>,
               st\<lparr>zc_after_notification := Pending_none\<rparr>, m, enabled))"

definition observe_send_zc_cqe ::
    "zc_cqe_state \<Rightarrow> send_zc_metrics \<Rightarrow> zc_cqe_input \<Rightarrow> bool \<Rightarrow>
     zc_cqe_outcome \<times> zc_cqe_state \<times> send_zc_metrics \<times> bool" where
  "observe_send_zc_cqe st m input enabled =
     (if zc_notification input then zc_on_notification st m input enabled
      else if zc_more input then
        (let st = st\<lparr>zc_waiting_notification := True\<rparr>
         in if zc_result input < 0
            then (no_outcome, st\<lparr>zc_after_notification := Pending_close_after_error\<rparr>, zc_note_error input m, enabled)
            else let sent = of_int (zc_result input) :: u64
                 in (no_outcome\<lparr>zc_out_bytes_sent := sent\<rparr>,
                     st\<lparr>zc_after_notification :=
                          (if zc_written_before input + sent \<ge> zc_response_total input
                           then Pending_complete_response else Pending_resubmit_response)\<rparr>,
                     m\<lparr>zc_bytes_sent := zc_bytes_sent m + sent\<rparr>, enabled))
      else
        (let m = m\<lparr>zc_sends_without_notification := zc_sends_without_notification m + 1\<rparr>
         in if zc_result input < 0
            then (no_outcome\<lparr>zc_action := Action_close_after_error\<rparr>, st, zc_note_error input m, enabled)
            else let sent = of_int (zc_result input) :: u64
                 in (no_outcome\<lparr>zc_out_bytes_sent := sent,
                       zc_action := (if zc_written_before input + sent < zc_response_total input
                                     then Action_resubmit_response else Action_complete_response)\<rparr>,
                     st, m\<lparr>zc_bytes_sent := zc_bytes_sent m + sent\<rparr>, enabled)))"

section \<open>Typed request fields\<close>

datatype field_source = Source_params | Source_headers | Source_query | Source_form | Source_cookies

datatype field_error_kind = Field_missing | Field_empty | Field_invalid | Field_out_of_range

record field_error =
  fe_kind :: field_error_kind
  fe_source :: field_source
  fe_name :: string
  fe_value :: string
  fe_message :: string

fun http_field_source_name :: "field_source \<Rightarrow> string" where
  "http_field_source_name Source_params = ''params''"
| "http_field_source_name Source_headers = ''headers''"
| "http_field_source_name Source_query = ''query''"
| "http_field_source_name Source_form = ''form''"
| "http_field_source_name Source_cookies = ''cookies''"

definition http_field_token_eq_ci :: "string \<Rightarrow> string \<Rightarrow> bool" where
  "http_field_token_eq_ci a b = (length a = length b \<and> map lower_char a = map lower_char b)"

definition http_field_error ::
    "field_error_kind \<Rightarrow> field_source \<Rightarrow> string \<Rightarrow> string \<Rightarrow> string \<Rightarrow> field_error" where
  "http_field_error kind source n v reason =
     \<lparr>fe_kind = kind, fe_source = source, fe_name = n, fe_value = v,
      fe_message = http_field_source_name source @ '' field '' @ [CHR 0x27] @ n @ [CHR 0x27] @ '' '' @ reason\<rparr>"

text \<open>The instances of \<open>parse_http_field_value\<close> for strings, booleans and integral types.\<close>

definition parse_string_field :: "string \<Rightarrow> field_source \<Rightarrow> string \<Rightarrow> field_error + string" where
  "parse_string_field v source n = Inr v"

definition parse_bool_field :: "string \<Rightarrow> field_source \<Rightarrow> string \<Rightarrow> field_error + bool" where
  "parse_bool_field v source n =
     (if v = [] then Inl (http_field_error Field_empty source n v ''is empty'')
      else if http_field_token_eq_ci v ''true'' \<or> v = ''1'' \<or> http_field_token_eq_ci v ''yes'' \<or>
              http_field_token_eq_ci v ''on'' then Inr True
      else if http_field_token_eq_ci v ''false'' \<or> v = ''0'' \<or> http_field_token_eq_ci v ''no'' \<or>
              http_field_token_eq_ci v ''off'' then Inr False
      else Inl (http_field_error Field_invalid source n v ''is not a boolean''))"

definition field_of_from_chars ::
    "'n from_chars_result \<Rightarrow> string \<Rightarrow> field_source \<Rightarrow> string \<Rightarrow> field_error + 'n" where
  "field_of_from_chars r v source n =
     (if v = [] then Inl (http_field_error Field_empty source n v ''is empty'')
      else case r of
             FC_out_of_range \<Rightarrow> Inl (http_field_error Field_out_of_range source n v ''is out of range'')
           | FC_invalid \<Rightarrow> Inl (http_field_error Field_invalid source n v ''is not an integer'')
           | FC_ok parsed k \<Rightarrow>
               if k \<noteq> length v then Inl (http_field_error Field_invalid source n v ''is not an integer'')
               else Inr parsed)"

text \<open>For an unsigned type with \<open>lim\<close> values and a signed one with values from \<open>- lim\<close> to \<open>lim - 1\<close>.\<close>

definition parse_unsigned_field :: "nat \<Rightarrow> string \<Rightarrow> field_source \<Rightarrow> string \<Rightarrow> field_error + nat" where
  "parse_unsigned_field lim v source n = field_of_from_chars (from_chars_unsigned lim v) v source n"

definition parse_signed_field :: "int \<Rightarrow> string \<Rightarrow> field_source \<Rightarrow> string \<Rightarrow> field_error + int" where
  "parse_signed_field lim v source n = field_of_from_chars (from_chars_signed lim v) v source n"

definition http_field_as ::
    "(string \<Rightarrow> field_source \<Rightarrow> string \<Rightarrow> field_error + 'a) \<Rightarrow> http_fields \<Rightarrow> field_source \<Rightarrow> string \<Rightarrow>
     field_error + 'a" where
  "http_field_as parse_value fs source n =
     (case fields_get fs n of
        None \<Rightarrow> Inl (http_field_error Field_missing source n [] ''is missing'')
      | Some v \<Rightarrow> parse_value v source n)"

definition http_field_optional_as ::
    "(string \<Rightarrow> field_source \<Rightarrow> string \<Rightarrow> field_error + 'a) \<Rightarrow> http_fields \<Rightarrow> field_source \<Rightarrow> string \<Rightarrow>
     field_error + 'a option" where
  "http_field_optional_as parse_value fs source n =
     (case fields_get fs n of
        None \<Rightarrow> Inr None
      | Some v \<Rightarrow> (case parse_value v source n of Inl e \<Rightarrow> Inl e | Inr x \<Rightarrow> Inr (Some x)))"

section \<open>Requests\<close>

text \<open>
  An uploaded file as seen through its views; a borrowed and an owning file with the same content
  differ in their flags only.
\<close>

record uploaded_file =
  uf_name :: string
  uf_filename :: string
  uf_content_type :: string
  uf_data :: string
  uf_owns_metadata :: bool
  uf_owns_data :: bool

definition uploaded_borrowed :: "string \<Rightarrow> string \<Rightarrow> string \<Rightarrow> string \<Rightarrow> uploaded_file" where
  "uploaded_borrowed n fn ct d =
     \<lparr>uf_name = n, uf_filename = fn, uf_content_type = ct, uf_data = d,
      uf_owns_metadata = False, uf_owns_data = False\<rparr>"

definition uploaded_owned :: "string \<Rightarrow> string \<Rightarrow> string \<Rightarrow> string \<Rightarrow> uploaded_file" where
  "uploaded_owned n fn ct d =
     \<lparr>uf_name = n, uf_filename = fn, uf_content_type = ct, uf_data = d,
      uf_owns_metadata = True, uf_owns_data = True\<rparr>"

definition uploaded_to_owned :: "uploaded_file \<Rightarrow> uploaded_file" where
  "uploaded_to_owned f =
     (if uf_owns_metadata f \<and> uf_owns_data f then f
      else uploaded_owned (uf_name f) (uf_filename f) (uf_content_type f) (uf_data f))"

text \<open>\<open>RequestView\<close> and \<open>OwnedRequest\<close> have the same fields; the former views the latter.\<close>

record request =
  req_method :: string
  req_path :: string
  req_version :: string
  req_remote_addr :: string
  req_is_tls :: bool
  req_params :: http_fields
  req_headers :: http_fields
  req_query :: http_fields
  req_form :: http_fields
  req_cookies :: http_fields
  req_files :: "uploaded_file list"
  req_body :: string

definition owned_request_new :: request where
  "owned_request_new =
     \<lparr>req_method = [], req_path = [], req_version = [], req_remote_addr = [], req_is_tls = False,
      req_params = http_fields_new False, req_headers = http_fields_new True,
      req_query = http_fields_new False, req_form = http_fields_new False,
      req_cookies = http_fields_new False, req_files = [], req_body = []\<rparr>"

definition request_to_owned :: "request \<Rightarrow> request" where
  "request_to_owned r =
     owned_request_new
       \<lparr>req_method := req_method r, req_path := req_path r, req_version := req_version r,
        req_remote_addr := req_remote_addr r, req_is_tls := req_is_tls r,
        req_params := fields_to_owned (req_params r), req_headers := fields_to_owned (req_headers r),
        req_query := fields_to_owned (req_query r), req_form := fields_to_owned (req_form r),
        req_cookies := fields_to_owned (req_cookies r),
        req_files := map uploaded_to_owned (req_files r), req_body := req_body r\<rparr>"

definition req_param :: "request \<Rightarrow> string \<Rightarrow> string" where
  "req_param r n = fields_at (req_params r) n"

definition req_header :: "request \<Rightarrow> string \<Rightarrow> string" where
  "req_header r n = fields_at (req_headers r) n"

definition req_query_value :: "request \<Rightarrow> string \<Rightarrow> string" where
  "req_query_value r n = fields_at (req_query r) n"

definition req_form_value :: "request \<Rightarrow> string \<Rightarrow> string" where
  "req_form_value r n = fields_at (req_form r) n"

definition req_cookie :: "request \<Rightarrow> string \<Rightarrow> string" where
  "req_cookie r n = fields_at (req_cookies r) n"

section \<open>Facts\<close>

lemma request_to_owned_eq: "request_to_owned r = r\<lparr>req_files := map uploaded_to_owned (req_files r)\<rparr>"
  by (simp add: request_to_owned_def owned_request_new_def to_owned_id)

lemma uploaded_to_owned_view [simp]:
  "uf_name (uploaded_to_owned f) = uf_name f" "uf_filename (uploaded_to_owned f) = uf_filename f"
  "uf_content_type (uploaded_to_owned f) = uf_content_type f" "uf_data (uploaded_to_owned f) = uf_data f"
  by (simp_all add: uploaded_to_owned_def uploaded_owned_def)

lemma zc_note_error_bytes [simp]: "zc_bytes_sent (zc_note_error i m) = zc_bytes_sent m"
  by (simp add: zc_note_error_def)

lemma zc_on_notification_action:
  "zc_action (fst (zc_on_notification st m n enabled)) =
     (if zc_close_after_notification st then Action_close_after_notification
      else zc_pending_to_action (zc_after_notification st))"
  "\<not> zc_waiting_notification (fst (snd (zc_on_notification st m n enabled)))"
  "zc_after_notification (fst (snd (zc_on_notification st m n enabled))) = Pending_none"
  "zc_bytes_sent (fst (snd (snd (zc_on_notification st m n enabled)))) = zc_bytes_sent m"
  by (simp_all add: zc_on_notification_def no_outcome_def Let_def)

lemma zc_first_phase:
  fixes i :: zc_cqe_input
  defines "two \<equiv> \<lambda>st m enabled. observe_send_zc_cqe st m (i\<lparr>zc_more := True\<rparr>) enabled"
    and "one \<equiv> \<lambda>st m enabled. observe_send_zc_cqe st m (i\<lparr>zc_more := False\<rparr>) enabled"
  assumes "\<not> zc_notification i"
  shows "zc_action (fst (two st m enabled)) = Action_none"
    and "zc_waiting_notification (fst (snd (two st m enabled)))"
    and "zc_pending_to_action (zc_after_notification (fst (snd (two st m enabled)))) =
         zc_action (fst (one st m enabled))"
    and "zc_action (fst (one st m enabled)) \<noteq> Action_none"
    and "zc_out_bytes_sent (fst (two st m enabled)) = zc_out_bytes_sent (fst (one st m enabled))"
    and "zc_bytes_sent (fst (snd (snd (two st m enabled)))) = zc_bytes_sent (fst (snd (snd (one st m enabled))))"
  using assms(3) by (simp_all add: two_def one_def observe_send_zc_cqe_def no_outcome_def Let_def) (meson not_le)

text \<open>
  A zero-copy send reported in two completions is treated as one reported at once.  For a send
  completion and a later notification, the first asks for nothing, leaves the connection waiting,
  and accounts the bytes; the notification then asks for exactly the action (complete, resubmit,
  close) that the same completion without a promised notification asks for at once, unless the
  connection was marked for closing in between, when it asks for the close.
\<close>

lemma send_zc_two_phase:
  assumes "\<not> zc_notification i" and "zc_notification n"
  shows "let (o1, st1, m1, e1) = observe_send_zc_cqe st m (i\<lparr>zc_more := True\<rparr>) enabled;
             (o2, st2, m2, e2) = observe_send_zc_cqe (st1\<lparr>zc_close_after_notification := closing\<rparr>) m1 n e1;
             (once, st', m', e') = observe_send_zc_cqe st m (i\<lparr>zc_more := False\<rparr>) enabled
         in zc_action o1 = Action_none \<and> zc_waiting_notification st1 \<and>
            zc_action o2 = (if closing then Action_close_after_notification else zc_action once) \<and>
            zc_action once \<noteq> Action_none \<and>
            zc_out_bytes_sent o1 = zc_out_bytes_sent once \<and> zc_bytes_sent m2 = zc_bytes_sent m' \<and>
            \<not> zc_waiting_notification st2 \<and> zc_after_notification st2 = Pending_none"
proof -
  note one = zc_first_phase [OF assms(1), of st m enabled]
  obtain o1 st1 m1 e1 where first: "observe_send_zc_cqe st m (i\<lparr>zc_more := True\<rparr>) enabled = (o1, st1, m1, e1)"
    by (metis prod_cases4)
  let ?n = "zc_on_notification (st1\<lparr>zc_close_after_notification := closing\<rparr>) m1 n e1"
  from assms(2) have "observe_send_zc_cqe (st1\<lparr>zc_close_after_notification := closing\<rparr>) m1 n e1 = ?n"
    by (simp add: observe_send_zc_cqe_def)
  with first one zc_on_notification_action [of "st1\<lparr>zc_close_after_notification := closing\<rparr>" m1 n e1]
  show ?thesis by (simp add: case_prod_beta)
qed

definition sample_cqe :: zc_cqe_input where
  "sample_cqe = \<lparr>zc_result = 5, zc_notification = False, zc_more = False, zc_copied = False,
     zc_enomem_error = False, zc_written_before = 0, zc_response_total = 5\<rparr>"

definition sample_zc_metrics :: send_zc_metrics where
  "sample_zc_metrics = \<lparr>zc_attempts = 0, zc_bytes_requested = 0, zc_bytes_sent = 0, zc_notifications = 0,
     zc_copied_notifications = 0, zc_sends_without_notification = 0, zc_errors_enomem = 0,
     zc_errors_other = 0, zc_adaptive_disable_count = 0\<rparr>"

lemma send_zc_two_phase_witness:
  "let st = \<lparr>zc_waiting_notification = False, zc_close_after_notification = False,
             zc_after_notification = Pending_none\<rparr>;
       (o1, st1, m1, e1) = observe_send_zc_cqe st sample_zc_metrics (sample_cqe\<lparr>zc_more := True\<rparr>) True;
       (o2, st2, m2, e2) = observe_send_zc_cqe (st1\<lparr>zc_close_after_notification := False\<rparr>) m1
          (sample_cqe\<lparr>zc_notification := True\<rparr>) e1
   in zc_action o2 = zc_action (fst (observe_send_zc_cqe st sample_zc_metrics (sample_cqe\<lparr>zc_more := False\<rparr>) True)) \<and>
      zc_action o1 = Action_none"
  using send_zc_two_phase [of sample_cqe "sample_cqe\<lparr>zc_notification := True\<rparr>"
      "\<lparr>zc_waiting_notification = False, zc_close_after_notification = False,
        zc_after_notification = Pending_none\<rparr>" sample_zc_metrics True False]
  by (simp add: sample_cqe_def Let_def split: prod.splits)

lemma not_digit_minus: "\<not> is_digit CHR ''-''"
  by (simp add: is_digit_def char_between_def)

lemma from_chars_signed_nonneg:
  assumes "is_digit (hd s)" "s \<noteq> []"
  shows "from_chars_signed lim s =
     (let ds = takeWhile is_digit s
      in if int (dec_value ds) < lim then FC_ok (int (dec_value ds)) (length ds) else FC_out_of_range)"
proof -
  from assms not_digit_minus have "hd s \<noteq> CHR ''-''" by auto
  moreover from assms have "takeWhile is_digit s \<noteq> []" by (cases s) auto
  ultimately show ?thesis by (simp add: from_chars_signed_def)
qed

lemma hd_dec_string: "is_digit (hd (dec_string n))"
  by (rule dec_string_digits [of _ n]) simp

lemma from_chars_signed_neg:
  "from_chars_signed lim (CHR ''-'' # s) =
     (let ds = takeWhile is_digit s
      in if ds = [] then FC_invalid
         else if int (dec_value ds) \<le> lim then FC_ok (- int (dec_value ds)) (Suc (length ds))
         else FC_out_of_range)"
  by (simp add: from_chars_signed_def)

lemma from_chars_signed_int_string:
  assumes "t = [] \<or> \<not> is_digit (hd t)"
  shows "from_chars_signed lim (int_string i @ t) =
           (if - lim \<le> i \<and> i < lim then FC_ok i (length (int_string i)) else FC_out_of_range)"
proof -
  have ds: "takeWhile is_digit (dec_string k @ t) = dec_string k" for k
    using assms by (cases t) (simp_all add: takeWhile_dec_string_append)
  show ?thesis
  proof (cases "i < 0")
    case True
    then show ?thesis by (simp add: int_string_def from_chars_signed_neg ds Let_def)
  next
    case False
    have "is_digit (hd (dec_string (nat i) @ t))" using hd_dec_string by simp
    with False show ?thesis by (simp add: int_string_def from_chars_signed_nonneg ds Let_def)
  qed
qed


end
