(* ===== verification/Http_Response.thy ===== *)
theory Http_Response
  imports Server_Types
begin

text \<open>
  \<open>net/response.cxx\<close>: HTML escaping and error pages, the cookie builder, the response record with
  its body variant, and the two small concurrent objects that carry a response to the send path,
  \<open>StreamedFile\<close> and \<open>DeferredResponse\<close>.  Every critical section of those two is one operation on
  their state; the callbacks, eventfd writes and cancel requests made outside the lock are
  recorded, in order, in fields of the state.
\<close>

section \<open>Escaping and error pages\<close>

definition html_escape_char :: "char \<Rightarrow> string" where
  "html_escape_char c =
     (if c = CHR ''&'' then ''&amp;''
      else if c = CHR ''<'' then ''&lt;''
      else if c = CHR ''>'' then ''&gt;''
      else if c = CHR 0x22 then ''&quot;''
      else if c = CHR 0x27 then ''&#39;''
      else [c])"

definition append_html_escaped :: "string \<Rightarrow> string \<Rightarrow> string" where
  "append_html_escaped out value = foldl (\<lambda>out c. out @ html_escape_char c) out value"

definition html_escaped :: "string \<Rightarrow> string" where
  "html_escaped value = append_html_escaped [] value"

definition response_html_error_body :: "int \<Rightarrow> string \<Rightarrow> string \<Rightarrow> string" where
  "response_html_error_body code phrase detail =
     (let body = ''<html><body><h1>'' @ int_string code @ '' '' @ phrase @ ''</h1>'';
          body = (if detail \<noteq> [] then body @ ''<p>'' @ html_escaped detail @ ''</p>'' else body)
      in body @ ''</body></html>'')"

section \<open>Cookies\<close>

datatype same_site = SameSite_Lax | SameSite_Strict | SameSite_None

fun same_site_token :: "same_site \<Rightarrow> string" where
  "same_site_token SameSite_Lax = ''Lax''"
| "same_site_token SameSite_Strict = ''Strict''"
| "same_site_token SameSite_None = ''None''"

record cookie_builder =
  cookie_name :: string
  cookie_value :: string
  cookie_attributes :: string

definition cookie_new :: "string \<Rightarrow> string \<Rightarrow> cookie_builder" where
  "cookie_new n v = \<lparr>cookie_name = n, cookie_value = v, cookie_attributes = []\<rparr>"

definition cookie_attribute :: "string \<Rightarrow> cookie_builder \<Rightarrow> cookie_builder" where
  "cookie_attribute attr c =
     (if attr = [] then c
      else let c = (if cookie_attributes c \<noteq> []
                    then c\<lparr>cookie_attributes := cookie_attributes c @ ''; ''\<rparr> else c)
           in c\<lparr>cookie_attributes := cookie_attributes c @ attr\<rparr>)"

definition cookie_path :: "string \<Rightarrow> cookie_builder \<Rightarrow> cookie_builder" where
  "cookie_path p = cookie_attribute (''Path='' @ p)"

definition cookie_domain :: "string \<Rightarrow> cookie_builder \<Rightarrow> cookie_builder" where
  "cookie_domain d = cookie_attribute (''Domain='' @ d)"

definition cookie_http_only :: "cookie_builder \<Rightarrow> cookie_builder" where
  "cookie_http_only = cookie_attribute ''HttpOnly''"

definition cookie_secure :: "cookie_builder \<Rightarrow> cookie_builder" where
  "cookie_secure = cookie_attribute ''Secure''"

definition cookie_same_site :: "same_site \<Rightarrow> cookie_builder \<Rightarrow> cookie_builder" where
  "cookie_same_site v = cookie_attribute (''SameSite='' @ same_site_token v)"

text \<open>The age already cast to whole seconds.\<close>

definition cookie_max_age :: "int \<Rightarrow> cookie_builder \<Rightarrow> cookie_builder" where
  "cookie_max_age seconds = cookie_attribute (''Max-Age='' @ int_string seconds)"

definition cookie_expires :: "string \<Rightarrow> cookie_builder \<Rightarrow> cookie_builder" where
  "cookie_expires http_date = cookie_attribute (''Expires='' @ http_date)"

section \<open>Streamed files\<close>

datatype streamed_result = SF_completed | SF_failed

text \<open>
  Callbacks are named by numbers; \<open>sf_calls\<close> records the invocations with the result they got.
\<close>

record streamed_file =
  sf_completed :: bool
  sf_result :: streamed_result
  sf_callbacks :: "nat list"
  sf_calls :: "(nat \<times> streamed_result) list"

definition streamed_new :: streamed_file where
  "streamed_new = \<lparr>sf_completed = False, sf_result = SF_failed, sf_callbacks = [], sf_calls = []\<rparr>"

definition sf_on_complete :: "nat \<Rightarrow> streamed_file \<Rightarrow> streamed_file" where
  "sf_on_complete callback s =
     (if \<not> sf_completed s then s\<lparr>sf_callbacks := sf_callbacks s @ [callback]\<rparr>
      else s\<lparr>sf_calls := sf_calls s @ [(callback, sf_result s)]\<rparr>)"

definition sf_notify :: "streamed_result \<Rightarrow> streamed_file \<Rightarrow> streamed_file" where
  "sf_notify r s =
     (if sf_completed s then s
      else s\<lparr>sf_completed := True, sf_result := r, sf_callbacks := [],
             sf_calls := sf_calls s @ map (\<lambda>cb. (cb, r)) (sf_callbacks s)\<rparr>)"

definition sf_notify_complete :: "streamed_file \<Rightarrow> streamed_file" where
  "sf_notify_complete = sf_notify SF_completed"

definition sf_notify_failed :: "streamed_file \<Rightarrow> streamed_file" where
  "sf_notify_failed = sf_notify SF_failed"

section \<open>Responses\<close>

datatype body_kind =
  BodyKind_text | BodyKind_sse | BodyKind_ws_upgrade | BodyKind_mapped_file | BodyKind_streamed_file
| BodyKind_deferred

text \<open>
  The body variant.  A \<open>shared_ptr\<close> is an address or null; what the pointed-to objects hold is
  read through a store that the operations which follow a pointer take as an argument.
\<close>

type_synonym ptr = "nat option"

datatype body_payload =
  Payload_text string
| Payload_sse ptr
| Payload_ws ptr
| Payload_mapped ptr
| Payload_streamed ptr
| Payload_deferred ptr

record response =
  resp_status :: int
  resp_status_text :: string
  resp_content_type :: string
  resp_headers :: http_fields
  set_cookies :: "string list"
  resp_trailers :: http_fields
  head_only :: bool
  content_length_hint :: nat
  resp_kind :: body_kind
  resp_payload :: body_payload

definition kContentTypeHtmlUtf8 :: string where "kContentTypeHtmlUtf8 = ''text/html; charset=utf-8''"

definition kContentTypeTextUtf8 :: string where "kContentTypeTextUtf8 = ''text/plain; charset=utf-8''"

definition kContentTypeJson :: string where "kContentTypeJson = ''application/json''"

definition kContentTypeProblemJson :: string where "kContentTypeProblemJson = ''application/problem+json''"

definition kContentTypePrometheus :: string where
  "kContentTypePrometheus = ''text/plain; version=0.0.4; charset=utf-8''"

definition kContentTypeEventStream :: string where "kContentTypeEventStream = ''text/event-stream''"

definition response_new :: response where
  "response_new =
     \<lparr>resp_status = 200, resp_status_text = ''OK'', resp_content_type = kContentTypeHtmlUtf8,
      resp_headers = http_fields_new True, set_cookies = [], resp_trailers = http_fields_new True,
      head_only = False, content_length_hint = 0,
      resp_kind = BodyKind_text, resp_payload = Payload_text []\<rparr>"

definition is_text :: "response \<Rightarrow> bool" where "is_text r = (resp_kind r = BodyKind_text)"

definition is_sse :: "response \<Rightarrow> bool" where "is_sse r = (resp_kind r = BodyKind_sse)"

definition is_ws_upgrade :: "response \<Rightarrow> bool" where "is_ws_upgrade r = (resp_kind r = BodyKind_ws_upgrade)"

definition is_mapped_file :: "response \<Rightarrow> bool" where "is_mapped_file r = (resp_kind r = BodyKind_mapped_file)"

definition is_streamed_file :: "response \<Rightarrow> bool" where
  "is_streamed_file r = (resp_kind r = BodyKind_streamed_file)"

definition is_deferred :: "response \<Rightarrow> bool" where "is_deferred r = (resp_kind r = BodyKind_deferred)"

definition text_body :: "response \<Rightarrow> string" where
  "text_body r = (case resp_payload r of Payload_text t \<Rightarrow> t | _ \<Rightarrow> [])"

text \<open>Making the body a text body, and a write through the reference \<open>text_body_mut\<close> returns.\<close>

definition text_body_mut :: "response \<Rightarrow> response" where
  "text_body_mut r =
     (if \<not> is_text r \<or> \<not> (case resp_payload r of Payload_text _ \<Rightarrow> True | _ \<Rightarrow> False)
      then r\<lparr>resp_kind := BodyKind_text, resp_payload := Payload_text []\<rparr> else r)"

definition text_body_write :: "string \<Rightarrow> response \<Rightarrow> response" where
  "text_body_write t r = (text_body_mut r)\<lparr>resp_payload := Payload_text t\<rparr>"

text \<open>
  The \<open>take_\<close> operations move the payload out.  A moved-from \<open>shared_ptr\<close> is null; a moved-from
  string has a value the standard leaves open, the argument \<open>left\<close>.
\<close>

definition take_text_body :: "string \<Rightarrow> response \<Rightarrow> string \<times> response" where
  "take_text_body left r =
     (case resp_payload r of
        Payload_text t \<Rightarrow> (t, r\<lparr>resp_payload := Payload_text left\<rparr>)
      | _ \<Rightarrow> ([], r))"

definition sse_channel_ptr :: "response \<Rightarrow> ptr" where
  "sse_channel_ptr r = (case resp_payload r of Payload_sse p \<Rightarrow> p | _ \<Rightarrow> None)"

definition ws_upgrade_ptr :: "response \<Rightarrow> ptr" where
  "ws_upgrade_ptr r = (case resp_payload r of Payload_ws p \<Rightarrow> p | _ \<Rightarrow> None)"

definition mapped_file_ptr :: "response \<Rightarrow> ptr" where
  "mapped_file_ptr r = (case resp_payload r of Payload_mapped p \<Rightarrow> p | _ \<Rightarrow> None)"

definition streamed_file_ptr :: "response \<Rightarrow> ptr" where
  "streamed_file_ptr r = (case resp_payload r of Payload_streamed p \<Rightarrow> p | _ \<Rightarrow> None)"

definition deferred_response_ptr :: "response \<Rightarrow> ptr" where
  "deferred_response_ptr r = (case resp_payload r of Payload_deferred p \<Rightarrow> p | _ \<Rightarrow> None)"

definition take_sse_channel :: "response \<Rightarrow> ptr \<times> response" where
  "take_sse_channel r =
     (case resp_payload r of Payload_sse p \<Rightarrow> (p, r\<lparr>resp_payload := Payload_sse None\<rparr>) | _ \<Rightarrow> (None, r))"

definition take_ws_upgrade :: "response \<Rightarrow> ptr \<times> response" where
  "take_ws_upgrade r =
     (case resp_payload r of Payload_ws p \<Rightarrow> (p, r\<lparr>resp_payload := Payload_ws None\<rparr>) | _ \<Rightarrow> (None, r))"

definition take_mapped_file :: "response \<Rightarrow> ptr \<times> response" where
  "take_mapped_file r =
     (case resp_payload r of Payload_mapped p \<Rightarrow> (p, r\<lparr>resp_payload := Payload_mapped None\<rparr>) | _ \<Rightarrow> (None, r))"

definition take_streamed_file :: "response \<Rightarrow> ptr \<times> response" where
  "take_streamed_file r =
     (case resp_payload r of
        Payload_streamed p \<Rightarrow> (p, r\<lparr>resp_payload := Payload_streamed None\<rparr>) | _ \<Rightarrow> (None, r))"

definition take_deferred_response :: "response \<Rightarrow> ptr \<times> response" where
  "take_deferred_response r =
     (case resp_payload r of
        Payload_deferred p \<Rightarrow> (p, r\<lparr>resp_payload := Payload_deferred None\<rparr>) | _ \<Rightarrow> (None, r))"

definition set_text_body :: "string \<Rightarrow> response \<Rightarrow> response" where
  "set_text_body t r = r\<lparr>resp_kind := BodyKind_text, resp_payload := Payload_text t\<rparr>"

definition set_sse_channel :: "ptr \<Rightarrow> response \<Rightarrow> response" where
  "set_sse_channel p r = r\<lparr>resp_kind := BodyKind_sse, resp_payload := Payload_sse p\<rparr>"

definition set_ws_upgrade :: "ptr \<Rightarrow> response \<Rightarrow> response" where
  "set_ws_upgrade p r = r\<lparr>resp_kind := BodyKind_ws_upgrade, resp_payload := Payload_ws p\<rparr>"

definition set_mapped_file :: "ptr \<Rightarrow> response \<Rightarrow> response" where
  "set_mapped_file p r = r\<lparr>resp_kind := BodyKind_mapped_file, resp_payload := Payload_mapped p\<rparr>"

definition set_streamed_file :: "ptr \<Rightarrow> response \<Rightarrow> response" where
  "set_streamed_file p r = r\<lparr>resp_kind := BodyKind_streamed_file, resp_payload := Payload_streamed p\<rparr>"

definition set_deferred_response :: "ptr \<Rightarrow> response \<Rightarrow> response" where
  "set_deferred_response p r = r\<lparr>resp_kind := BodyKind_deferred, resp_payload := Payload_deferred p\<rparr>"

text \<open>
  The sizes behind the two file pointers: the mapped window and the number of bytes to stream.
\<close>

record file_store =
  window_size :: "nat \<Rightarrow> nat"
  send_size :: "nat \<Rightarrow> nat"

definition content_length :: "file_store \<Rightarrow> response \<Rightarrow> nat" where
  "content_length h r =
     (if content_length_hint r \<noteq> 0 then content_length_hint r
      else if is_mapped_file r \<and> mapped_file_ptr r \<noteq> None then window_size h (the (mapped_file_ptr r))
      else if is_streamed_file r \<and> streamed_file_ptr r \<noteq> None then send_size h (the (streamed_file_ptr r))
      else length (text_body r))"

section \<open>Constructors\<close>

definition status_text_for :: "int \<Rightarrow> string" where
  "status_text_for code =
     (if code = 200 then ''OK''
      else if code = 201 then ''Created''
      else if code = 204 then ''No Content''
      else if code = 206 then ''Partial Content''
      else if code = 301 then ''Moved Permanently''
      else if code = 302 then ''Found''
      else if code = 304 then ''Not Modified''
      else if code = 307 then ''Temporary Redirect''
      else if code = 308 then ''Permanent Redirect''
      else if code = 400 then ''Bad Request''
      else if code = 401 then ''Unauthorized''
      else if code = 403 then ''Forbidden''
      else if code = 404 then ''Not Found''
      else if code = 405 then ''Method Not Allowed''
      else if code = 408 then ''Request Timeout''
      else if code = 413 then ''Content Too Large''
      else if code = 414 then ''URI Too Long''
      else if code = 417 then ''Expectation Failed''
      else if code = 416 then ''Range Not Satisfiable''
      else if code = 422 then ''Unprocessable Entity''
      else if code = 431 then ''Request Header Fields Too Large''
      else if code = 429 then ''Too Many Requests''
      else if code = 500 then ''Internal Server Error''
      else if code = 502 then ''Bad Gateway''
      else if code = 504 then ''Gateway Timeout''
      else [])"

text \<open>The longest overload of each constructor, and the one that looks the phrase up.\<close>

definition response_with_body_text :: "string \<Rightarrow> string \<Rightarrow> int \<Rightarrow> string \<Rightarrow> response" where
  "response_with_body_text body ct code phrase =
     set_text_body body
       (response_new\<lparr>resp_status := code, resp_status_text := phrase, resp_content_type := ct\<rparr>)"

definition response_with_body :: "string \<Rightarrow> string \<Rightarrow> int \<Rightarrow> response" where
  "response_with_body body ct code = response_with_body_text body ct code (status_text_for code)"

definition response_html :: "string \<Rightarrow> int \<Rightarrow> response" where
  "response_html body code =
     response_with_body_text body kContentTypeHtmlUtf8 code (status_text_for code)"

definition response_json :: "string \<Rightarrow> int \<Rightarrow> response" where
  "response_json body code = response_with_body_text body kContentTypeJson code (status_text_for code)"

definition response_problem_json :: "string \<Rightarrow> int \<Rightarrow> response" where
  "response_problem_json body code =
     response_with_body_text body kContentTypeProblemJson code (status_text_for code)"

definition response_prometheus :: "string \<Rightarrow> response" where
  "response_prometheus body = response_with_body_text body kContentTypePrometheus 200 ''OK''"

definition response_text :: "string \<Rightarrow> int \<Rightarrow> response" where
  "response_text body code =
     response_with_body_text body kContentTypeTextUtf8 code (status_text_for code)"

text \<open>\<open>headers[name] = value\<close>.\<close>

definition put_header :: "string \<Rightarrow> string \<Rightarrow> response \<Rightarrow> response" where
  "put_header name v r = r\<lparr>resp_headers := fields_assign name v (resp_headers r)\<rparr>"

definition response_redirect :: "string \<Rightarrow> int \<Rightarrow> response" where
  "response_redirect location code =
     (let phrase = status_text_for code;
          phrase = (if phrase = [] then ''Found'' else phrase)
      in put_header ''Location'' location
           (response_new\<lparr>resp_status := code, resp_status_text := phrase,
                         resp_content_type := kContentTypeHtmlUtf8\<rparr>))"

definition response_not_found :: "string \<Rightarrow> response" where
  "response_not_found path = response_html (response_html_error_body 404 ''Not Found'' path) 404"

definition response_bad_request :: "string \<Rightarrow> response" where
  "response_bad_request detail = response_html (response_html_error_body 400 ''Bad Request'' detail) 400"

definition response_unauthorized :: "string \<Rightarrow> response" where
  "response_unauthorized www_authenticate =
     (let r = response_html (response_html_error_body 401 ''Unauthorized'' []) 401
      in if www_authenticate \<noteq> [] then put_header ''WWW-Authenticate'' www_authenticate r else r)"

definition response_forbidden :: "string \<Rightarrow> response" where
  "response_forbidden detail = response_html (response_html_error_body 403 ''Forbidden'' detail) 403"

definition response_method_not_allowed :: "string list \<Rightarrow> response" where
  "response_method_not_allowed allowed =
     (let r = response_html (response_html_error_body 405 ''Method Not Allowed'' []) 405
      in if length allowed > 0 then put_header ''Allow'' (join_header_tokens allowed) r else r)"

definition response_unprocessable_entity :: "string \<Rightarrow> response" where
  "response_unprocessable_entity detail =
     response_html (response_html_error_body 422 ''Unprocessable Entity'' detail) 422"

definition response_uri_too_long :: response where
  "response_uri_too_long = response_html (response_html_error_body 414 ''URI Too Long'' []) 414"

definition response_header_fields_too_large :: response where
  "response_header_fields_too_large =
     response_html (response_html_error_body 431 ''Request Header Fields Too Large'' []) 431"

definition response_bad_gateway :: "string \<Rightarrow> response" where
  "response_bad_gateway detail =
     set_text_body (if detail = [] then ''Bad Gateway'' else detail)
       (response_new\<lparr>resp_status := 502, resp_status_text := ''Bad Gateway'',
                     resp_content_type := kContentTypeTextUtf8\<rparr>)"

definition response_gateway_timeout :: response where
  "response_gateway_timeout = response_html (response_html_error_body 504 ''Gateway Timeout'' []) 504"

definition response_sse :: "ptr \<Rightarrow> response" where
  "response_sse ch =
     set_sse_channel ch
       (response_new\<lparr>resp_status := 200, resp_status_text := ''OK'',
                     resp_content_type := kContentTypeEventStream\<rparr>)"

definition response_deferred :: "ptr \<Rightarrow> response" where
  "response_deferred d = set_deferred_response d response_new"

definition response_internal_error :: "string \<Rightarrow> response" where
  "response_internal_error detail =
     response_html (response_html_error_body 500 ''Internal Server Error'' detail) 500"

definition response_no_content :: response where
  "response_no_content = response_new\<lparr>resp_status := 204, resp_status_text := ''No Content''\<rparr>"

definition response_not_modified :: "string \<Rightarrow> response" where
  "response_not_modified etag =
     (let r = response_new\<lparr>resp_status := 304, resp_status_text := ''Not Modified''\<rparr>
      in if etag \<noteq> [] then put_header ''ETag'' etag r else r)"

definition response_content_too_large :: response where
  "response_content_too_large = response_html (response_html_error_body 413 ''Content Too Large'' []) 413"

definition set_cookie :: "string \<Rightarrow> string \<Rightarrow> string \<Rightarrow> response \<Rightarrow> response" where
  "set_cookie n v attributes r =
     (if attributes = [] then r\<lparr>set_cookies := set_cookies r @ [n @ ''='' @ v]\<rparr>
      else r\<lparr>set_cookies := set_cookies r @ [n @ ''='' @ v @ ''; '' @ attributes]\<rparr>)"

definition set_cookie_builder :: "cookie_builder \<Rightarrow> response \<Rightarrow> response" where
  "set_cookie_builder c r = set_cookie (cookie_name c) (cookie_value c) (cookie_attributes c) r"

text \<open>
  The first \<open>headers[...]\<close> of \<open>append_vary\<close> is the non-const one: it adds an empty field when
  there is none.
\<close>

definition append_vary :: "string \<Rightarrow> response \<Rightarrow> response" where
  "append_vary token r =
     (let (i, hs) = fields_ref (resp_headers r) ''Vary'';
          r = r\<lparr>resp_headers := hs\<rparr>;
          current = snd (field_data hs ! i)
      in if current = [] then put_header ''Vary'' token r
         else if trim current = ''*'' then r
         else if list_ex (\<lambda>part. ascii_iequals part token) (header_tokens current) then r
         else put_header ''Vary'' (current @ '', '' @ token) r)"

definition upload_error_response :: "upload_error \<Rightarrow> response" where
  "upload_error_response e =
     (case ue_kind e of
        UE_body_too_large \<Rightarrow> response_content_too_large
      | UE_timeout \<Rightarrow> response_html (response_html_error_body 408 ''Request Timeout'' (ue_detail e)) 408
      | UE_malformed_body \<Rightarrow> response_bad_request (ue_detail e)
      | UE_content_length_mismatch \<Rightarrow> response_bad_request (ue_detail e)
      | UE_disconnected \<Rightarrow> put_header ''Connection'' ''close'' (response_bad_request (ue_detail e))
      | UE_cancelled \<Rightarrow> put_header ''Connection'' ''close'' (response_bad_request (ue_detail e))
      | UE_io_error \<Rightarrow> response_internal_error (ue_detail e))"

section \<open>Deferred responses\<close>

datatype cancel_reason = Reason_requested | Reason_deadline | Reason_shutdown

text \<open>
  The eventfd is the number of wake-ups written to it; a task control is a number, and
  \<open>None\<close> is the empty control.  Requests to cancel are recorded in order.
\<close>

record deferred =
  df_ready :: "response option"
  df_deadline :: int
  df_cancel_ctl :: "nat option"
  df_keep_alive :: "nat list"
  df_wakes :: nat
  df_cancels :: "(nat option \<times> cancel_reason) list"

definition deferred_new :: "int \<Rightarrow> int \<Rightarrow> deferred" where
  "deferred_new now timeout =
     \<lparr>df_ready = None, df_deadline = now + timeout, df_cancel_ctl = None, df_keep_alive = [],
      df_wakes = 0, df_cancels = []\<rparr>"

definition deferred_complete :: "response \<Rightarrow> deferred \<Rightarrow> deferred" where
  "deferred_complete r d =
     (case df_ready d of
        Some _ \<Rightarrow> d
      | None \<Rightarrow> d\<lparr>df_ready := Some r, df_wakes := df_wakes d + 1\<rparr>)"

definition deferred_is_ready :: "deferred \<Rightarrow> bool" where
  "deferred_is_ready d = (df_ready d \<noteq> None)"

definition deferred_take_ready :: "deferred \<Rightarrow> response option \<times> deferred" where
  "deferred_take_ready d =
     (case df_ready d of
        None \<Rightarrow> (None, d)
      | Some r \<Rightarrow> (Some r, d\<lparr>df_ready := None\<rparr>))"

definition deferred_set_deadline :: "int \<Rightarrow> deferred \<Rightarrow> deferred" where
  "deferred_set_deadline t d = d\<lparr>df_deadline := t\<rparr>"

definition deferred_attach_cancel :: "nat option \<Rightarrow> deferred \<Rightarrow> deferred" where
  "deferred_attach_cancel ctl d = d\<lparr>df_cancel_ctl := ctl\<rparr>"

definition deferred_cancel :: "cancel_reason \<Rightarrow> deferred \<Rightarrow> deferred" where
  "deferred_cancel reason d = d\<lparr>df_cancels := df_cancels d @ [(df_cancel_ctl d, reason)]\<rparr>"

definition deferred_cancel_deadline :: "deferred \<Rightarrow> deferred" where
  "deferred_cancel_deadline = deferred_cancel Reason_deadline"

definition deferred_cancel_disconnect :: "deferred \<Rightarrow> deferred" where
  "deferred_cancel_disconnect = deferred_cancel Reason_requested"

definition deferred_cancel_shutdown :: "deferred \<Rightarrow> deferred" where
  "deferred_cancel_shutdown = deferred_cancel Reason_shutdown"

definition deferred_keep_alive :: "nat option \<Rightarrow> deferred \<Rightarrow> deferred" where
  "deferred_keep_alive storage d =
     (case storage of None \<Rightarrow> d | Some p \<Rightarrow> d\<lparr>df_keep_alive := df_keep_alive d @ [p]\<rparr>)"

definition deferred_expire :: "int \<Rightarrow> deferred \<Rightarrow> bool \<times> deferred" where
  "deferred_expire now d =
     (if df_ready d \<noteq> None then (False, d)
      else if now < df_deadline d then (False, d)
      else (True,
            d\<lparr>df_ready := Some response_gateway_timeout,
              df_cancels := df_cancels d @ [(df_cancel_ctl d, Reason_deadline)],
              df_cancel_ctl := None, df_wakes := df_wakes d + 1\<rparr>))"

section \<open>Facts about escaping\<close>

lemma append_html_escaped_eq: "append_html_escaped out s = out @ concat (map html_escape_char s)"
  by (induction s arbitrary: out) (simp_all add: append_html_escaped_def)

lemma html_escaped_Nil [simp]: "html_escaped [] = []"
  by (simp add: html_escaped_def append_html_escaped_eq)

lemma html_escaped_Cons [simp]: "html_escaped (c # s) = html_escape_char c @ html_escaped s"
  by (simp add: html_escaped_def append_html_escaped_eq)

text \<open>The characters that open or close markup or an attribute value.\<close>

definition markup_chars :: "char set" where
  "markup_chars = {CHR ''<'', CHR ''>'', CHR 0x22, CHR 0x27}"

lemma html_escape_char_markup: "set (html_escape_char c) \<inter> markup_chars = {}"
  by (simp add: html_escape_char_def markup_chars_def)

lemma html_escaped_markup: "set (html_escaped s) \<inter> markup_chars = {}"
  by (induction s) (use html_escape_char_markup in fastforce)+

text \<open>Reading the five entities back; anything else stands for itself.\<close>

fun html_unescape :: "string \<Rightarrow> string" where
  "html_unescape [] = []"
| "html_unescape (c # s) =
     (if prefix ''&amp;'' (c # s) then CHR ''&'' # html_unescape (drop 4 s)
      else if prefix ''&lt;'' (c # s) then CHR ''<'' # html_unescape (drop 3 s)
      else if prefix ''&gt;'' (c # s) then CHR ''>'' # html_unescape (drop 3 s)
      else if prefix ''&quot;'' (c # s) then CHR 0x22 # html_unescape (drop 5 s)
      else if prefix ''&#39;'' (c # s) then CHR 0x27 # html_unescape (drop 4 s)
      else c # html_unescape s)"

lemma html_unescape_escaped: "html_unescape (html_escaped s) = s"
  by (induction s) (simp_all add: html_escape_char_def)

text \<open>
  Text put into a page by \<open>html_escaped\<close> cannot leave its place and is not changed by it: no
  character of the result opens or closes a tag or a quoted attribute, and reading the entities
  back gives the text, so different texts stay different.
\<close>

lemma html_escaped_safe:
  "set (html_escaped s) \<inter> {CHR ''<'', CHR ''>'', CHR 0x22, CHR 0x27} = {} \<and>
   html_unescape (html_escaped s) = s"
  using html_escaped_markup [of s] by (simp add: html_unescape_escaped markup_chars_def)

section \<open>Body kind and payload\<close>

text \<open>The tag and the alternative the variant holds agree.\<close>

fun kind_of_payload :: "body_payload \<Rightarrow> body_kind" where
  "kind_of_payload (Payload_text _) = BodyKind_text"
| "kind_of_payload (Payload_sse _) = BodyKind_sse"
| "kind_of_payload (Payload_ws _) = BodyKind_ws_upgrade"
| "kind_of_payload (Payload_mapped _) = BodyKind_mapped_file"
| "kind_of_payload (Payload_streamed _) = BodyKind_streamed_file"
| "kind_of_payload (Payload_deferred _) = BodyKind_deferred"

definition response_ok :: "response \<Rightarrow> bool" where
  "response_ok r = (resp_kind r = kind_of_payload (resp_payload r))"

text \<open>The operations that change a response.\<close>

datatype response_command =
  Put_header string string
| Set_cookie string string string
| Append_vary string
| Write_text string
| Take_text string
| Take_sse | Take_ws | Take_mapped | Take_streamed | Take_deferred
| Set_text string
| Set_sse ptr | Set_ws ptr | Set_mapped ptr | Set_streamed ptr | Set_deferred ptr

fun response_exec :: "response_command \<Rightarrow> response \<Rightarrow> response" where
  "response_exec (Put_header n v) = put_header n v"
| "response_exec (Set_cookie n v a) = set_cookie n v a"
| "response_exec (Append_vary t) = append_vary t"
| "response_exec (Write_text t) = text_body_write t"
| "response_exec (Take_text l) = snd \<circ> take_text_body l"
| "response_exec Take_sse = snd \<circ> take_sse_channel"
| "response_exec Take_ws = snd \<circ> take_ws_upgrade"
| "response_exec Take_mapped = snd \<circ> take_mapped_file"
| "response_exec Take_streamed = snd \<circ> take_streamed_file"
| "response_exec Take_deferred = snd \<circ> take_deferred_response"
| "response_exec (Set_text t) = set_text_body t"
| "response_exec (Set_sse p) = set_sse_channel p"
| "response_exec (Set_ws p) = set_ws_upgrade p"
| "response_exec (Set_mapped p) = set_mapped_file p"
| "response_exec (Set_streamed p) = set_streamed_file p"
| "response_exec (Set_deferred p) = set_deferred_response p"

lemmas take_defs =
  take_text_body_def take_sse_channel_def take_ws_upgrade_def take_mapped_file_def
  take_streamed_file_def take_deferred_response_def

lemmas set_defs =
  set_text_body_def set_sse_channel_def set_ws_upgrade_def set_mapped_file_def
  set_streamed_file_def set_deferred_response_def

lemma put_header_frame [simp]:
  "resp_kind (put_header n v r) = resp_kind r" "resp_payload (put_header n v r) = resp_payload r"
  "resp_status (put_header n v r) = resp_status r" "set_cookies (put_header n v r) = set_cookies r"
  "resp_headers (put_header n v r) = fields_assign n v (resp_headers r)"
  by (simp_all add: put_header_def)

lemma append_vary_frame [simp]:
  "resp_kind (append_vary t r) = resp_kind r" "resp_payload (append_vary t r) = resp_payload r"
  "resp_status (append_vary t r) = resp_status r" "set_cookies (append_vary t r) = set_cookies r"
  by (simp_all add: append_vary_def Let_def split: prod.split)

lemma response_ok_exec: "response_ok r \<Longrightarrow> response_ok (response_exec c r)"
  by (cases c)
     (auto simp: response_ok_def take_defs set_defs set_cookie_def text_body_write_def
        text_body_mut_def is_text_def split: body_payload.splits)

interpretation response_machine: invariant_machine response_exec response_ok
  by unfold_locales (rule response_ok_exec)


text \<open>
  The body tag of a response always names the alternative its variant holds: after any
  sequence of header, cookie, body-setting and body-taking operations on a fresh response, each
  predicate \<open>is_text\<close>, \<open>is_sse\<close>, \<open>is_ws_upgrade\<close>, \<open>is_mapped_file\<close>, \<open>is_streamed_file\<close> and
  \<open>is_deferred\<close> holds exactly when the payload has that alternative.
\<close>

lemma response_body_typed:
  "let r = run_commands response_exec cs response_new
   in (is_text r \<longleftrightarrow> (\<exists>t. resp_payload r = Payload_text t)) \<and>
      (is_sse r \<longleftrightarrow> (\<exists>p. resp_payload r = Payload_sse p)) \<and>
      (is_ws_upgrade r \<longleftrightarrow> (\<exists>p. resp_payload r = Payload_ws p)) \<and>
      (is_mapped_file r \<longleftrightarrow> (\<exists>p. resp_payload r = Payload_mapped p)) \<and>
      (is_streamed_file r \<longleftrightarrow> (\<exists>p. resp_payload r = Payload_streamed p)) \<and>
      (is_deferred r \<longleftrightarrow> (\<exists>p. resp_payload r = Payload_deferred p))"
proof -
  have "response_ok response_new" by (simp add: response_ok_def response_new_def)
  from response_machine.inv_run [OF this, of cs] show ?thesis
    by (cases "resp_payload (run_commands response_exec cs response_new)")
       (simp_all add: response_ok_def is_text_def is_sse_def is_ws_upgrade_def is_mapped_file_def
          is_streamed_file_def is_deferred_def Let_def)
qed

section \<open>The Vary field\<close>

lemma split_on_nonempty [simp]: "split_on c s \<noteq> []"
  by (induction s) simp_all

lemma split_on_append: "split_on c (a @ c # b) = split_on c a @ split_on c b"
proof (induction a rule: length_induct)
  case (1 a)
  show ?case
  proof (cases "c \<in> set a")
    case True
    then obtain x y where a: "a = x @ c # y" and x: "c \<notin> set x" by (meson split_list_first)
    from a have "length y < length a" by simp
    with 1 have "split_on c (y @ c # b) = split_on c y @ split_on c b" by blast
    with a x show ?thesis by simp
  next
    case False
    then show ?thesis by simp
  qed
qed

lemma header_tokens_append:
  "header_tokens (a @ CHR '','' # CHR '' '' # t) = header_tokens a @ header_tokens t"
proof -
  have "map trim (split_on CHR '','' (CHR '' '' # t)) = map trim (split_on CHR '','' t)"
    by (cases "split_on CHR '','' t") (simp_all add: trim_space split_on_nonempty)
  then show ?thesis using split_on_append [of "CHR '',''" a "CHR '' '' # t"]
    by (simp add: header_tokens_eq)
qed

lemma find_index_of: "List.find P xs = map_option ((!) xs) (index_of P xs)"
  by (induction xs) (auto simp: option.map_comp o_def)

lemma fields_ref_at:
  "fields_get f k = Some v \<Longrightarrow> \<exists>i. fields_ref f k = (i, f) \<and> snd (field_data f ! i) = v"
  "fields_get f k = None \<Longrightarrow>
     fields_ref f k = (length (field_data f), f\<lparr>field_data := field_data f @ [(k, [])]\<rparr>)"
  by (auto simp: fields_get_def first_matching_def fields_ref_def find_index_of)

lemma fields_at_get: "fields_at f k = (case fields_get f k of None \<Rightarrow> [] | Some v \<Rightarrow> v)"
  by (simp add: fields_at_def fields_value_or_def)

lemma key_eq_refl [simp]: "key_eq f k k"
  by (simp add: key_eq_iff)

lemma key_eq_field_data [simp]: "key_eq (f\<lparr>field_data := d\<rparr>) = key_eq f"
  by (simp add: key_eq_def fun_eq_iff)

lemma fields_assign_new:
  assumes "fields_get f k = None"
  shows "fields_assign k v (f\<lparr>field_data := field_data f @ [(k, [])]\<rparr>) = fields_assign k v f"
proof -
  from assms have none: "index_of (\<lambda>p. key_eq f (fst p) k) (field_data f) = None"
    by (simp add: fields_get_def first_matching_def find_index_of)
  then have "index_of (\<lambda>p. key_eq f (fst p) k) (field_data f @ [(k, [])]) = Some (length (field_data f))"
    by (intro index_of_append_found) (simp_all add: index_of_None_iff)
  with none show ?thesis by (simp add: fields_assign_def fields_write_def fields_ref_def)
qed

lemma append_vary_eq:
  "append_vary token r =
     (let current = fields_at (resp_headers r) ''Vary''
      in if current = [] then put_header ''Vary'' token r
         else if trim current = ''*'' then r
         else if list_ex (\<lambda>part. ascii_iequals part token) (header_tokens current) then r
         else put_header ''Vary'' (current @ '', '' @ token) r)"
proof (cases "fields_get (resp_headers r) ''Vary''")
  case None
  from fields_ref_at(2) [OF None] fields_assign_new [OF None] show ?thesis
    by (simp add: append_vary_def fields_at_get None put_header_def)
next
  case (Some v)
  from fields_ref_at(1) [OF Some] show ?thesis
    by (auto simp: append_vary_def fields_at_get Some Let_def)
qed

definition vary_covers :: "string \<Rightarrow> string \<Rightarrow> bool" where
  "vary_covers token v \<longleftrightarrow> trim v = ''*'' \<or> list_ex (\<lambda>part. ascii_iequals part token) (header_tokens v)"

lemma fields_at_assign [simp]: "fields_at (fields_assign k v f) k = v"
  by (simp add: fields_at_get fields_get_assign)

lemma ascii_iequals_refl [simp]: "ascii_iequals a a"
  by (simp add: ascii_iequals_def)

text \<open>
  \<open>append_vary\<close> adds a token to the \<open>Vary\<close> field once.  For a token without surrounding
  blanks or commas, the field afterwards names it (in any case) or is \<open>*\<close>; every token the field
  had before is still there; and adding it again changes nothing.
\<close>

lemma append_vary_adds_once:
  assumes "token \<noteq> []" "trim token = token" "CHR '','' \<notin> set token"
  shows "let v = fields_at (resp_headers r) ''Vary'';
             v' = fields_at (resp_headers (append_vary token r)) ''Vary''
         in vary_covers token v' \<and> (v \<noteq> [] \<longrightarrow> set (header_tokens v) \<subseteq> set (header_tokens v')) \<and>
            append_vary token (append_vary token r) = append_vary token r"
proof -
  let ?v = "fields_at (resp_headers r) ''Vary''"
  let ?v' = "fields_at (resp_headers (append_vary token r)) ''Vary''"
  have tok: "header_tokens token = [token]" using assms by (simp add: header_tokens_eq)
  have covers: "vary_covers token ?v'"
    by (auto simp: append_vary_eq [of token r] vary_covers_def Let_def tok header_tokens_append)
  have kept: "?v \<noteq> [] \<longrightarrow> set (header_tokens ?v) \<subseteq> set (header_tokens ?v')"
    by (auto simp: append_vary_eq [of token r] Let_def header_tokens_append)
  have "?v' \<noteq> []" using assms by (auto simp: append_vary_eq [of token r] Let_def)
  with covers have "append_vary token (append_vary token r) = append_vary token r"
    by (subst append_vary_eq) (auto simp: vary_covers_def Let_def)
  with covers kept show ?thesis by (simp add: Let_def)
qed

lemma append_vary_adds_once_witness:
  "let r = put_header ''Vary'' ''Origin, accept-encoding'' response_new;
       v' = fields_at (resp_headers (append_vary ''Cookie'' r)) ''Vary''
   in vary_covers ''Cookie'' v' \<and> v' = ''Origin, accept-encoding, Cookie'' \<and>
      append_vary ''Cookie'' (append_vary ''Cookie'' r) = append_vary ''Cookie'' r"
proof -
  have "''Cookie'' \<noteq> [] \<and> trim ''Cookie'' = ''Cookie'' \<and> CHR '','' \<notin> set ''Cookie''" by code_simp
  moreover have "fields_at (resp_headers (append_vary ''Cookie''
      (put_header ''Vary'' ''Origin, accept-encoding'' response_new))) ''Vary'' = ''Origin, accept-encoding, Cookie''"
    by code_simp
  ultimately show ?thesis
    using append_vary_adds_once [of "''Cookie''" "put_header ''Vary'' ''Origin, accept-encoding'' response_new"]
    unfolding Let_def by (metis (no_types))
qed


section \<open>Completion of streamed files\<close>

datatype sf_command = On_complete nat | Notify streamed_result

fun sf_exec :: "sf_command \<Rightarrow> streamed_file \<Rightarrow> streamed_file" where
  "sf_exec (On_complete cb) = sf_on_complete cb"
| "sf_exec (Notify r) = sf_notify r"

fun registered :: "sf_command list \<Rightarrow> nat list" where
  "registered [] = []"
| "registered (On_complete cb # cs) = cb # registered cs"
| "registered (Notify r # cs) = registered cs"

fun first_result :: "sf_command list \<Rightarrow> streamed_result option" where
  "first_result [] = None"
| "first_result (On_complete cb # cs) = first_result cs"
| "first_result (Notify r # cs) = Some r"

lemma streamed_completed_run:
  "sf_completed s \<Longrightarrow> sf_callbacks s = [] \<Longrightarrow>
     sf_calls (run_commands sf_exec cs s) = sf_calls s @ map (\<lambda>cb. (cb, sf_result s)) (registered cs) \<and>
     sf_callbacks (run_commands sf_exec cs s) = []"
  by (induction cs arbitrary: s rule: registered.induct) (auto simp: sf_on_complete_def sf_notify_def)

lemma streamed_pending_run:
  "\<not> sf_completed s \<Longrightarrow>
     (case first_result cs of
        None \<Rightarrow> sf_calls (run_commands sf_exec cs s) = sf_calls s \<and>
                sf_callbacks (run_commands sf_exec cs s) = sf_callbacks s @ registered cs
      | Some r \<Rightarrow> sf_calls (run_commands sf_exec cs s) =
                    sf_calls s @ map (\<lambda>cb. (cb, r)) (sf_callbacks s @ registered cs) \<and>
                  sf_callbacks (run_commands sf_exec cs s) = [])"
proof (induction cs arbitrary: s rule: registered.induct)
  case (3 r cs)
  then show ?case using streamed_completed_run [of "sf_notify r s" cs] by (simp add: sf_notify_def)
qed (auto simp: sf_on_complete_def split: option.splits)

text \<open>
  Whatever the order of registrations and notifications on a streamed file, every registered
  callback is called exactly once, in the order of registration, with the result of the first
  notification; later notifications change nothing.  While there is no notification, no callback
  is called and all of them are kept.
\<close>

lemma streamed_callbacks_once:
  "let s = run_commands sf_exec cs streamed_new
   in case first_result cs of
        None \<Rightarrow> sf_calls s = [] \<and> sf_callbacks s = registered cs
      | Some r \<Rightarrow> sf_calls s = map (\<lambda>cb. (cb, r)) (registered cs) \<and> sf_callbacks s = []"
  using streamed_pending_run [of streamed_new cs]
  by (simp add: streamed_new_def Let_def split: option.splits)

section \<open>Completion of deferred responses\<close>

datatype df_command =
  Complete response | Take | Set_deadline int | Attach_cancel "nat option" | Cancel cancel_reason
| Keep_alive "nat option" | Expire int

fun df_exec :: "df_command \<Rightarrow> deferred \<times> response list \<Rightarrow> deferred \<times> response list" where
  "df_exec (Complete r) (d, out) = (deferred_complete r d, out)"
| "df_exec Take (d, out) =
     (case deferred_take_ready d of (res, d') \<Rightarrow> (d', case res of None \<Rightarrow> out | Some r \<Rightarrow> out @ [r]))"
| "df_exec (Set_deadline t) (d, out) = (deferred_set_deadline t d, out)"
| "df_exec (Attach_cancel c) (d, out) = (deferred_attach_cancel c d, out)"
| "df_exec (Cancel c) (d, out) = (deferred_cancel c d, out)"
| "df_exec (Keep_alive p) (d, out) = (deferred_keep_alive p d, out)"
| "df_exec (Expire now) (d, out) = (snd (deferred_expire now d), out)"

lemmas df_defs =
  deferred_complete_def deferred_take_ready_def deferred_set_deadline_def deferred_attach_cancel_def
  deferred_cancel_def deferred_keep_alive_def deferred_expire_def

text \<open>
  What is promised: a slot with a deadline, where the first response offered since the last take
  stays until it is taken, and every response put in the slot was announced once.
\<close>

fun df_spec ::
    "df_command \<Rightarrow> response option \<times> int \<times> response list \<Rightarrow> response option \<times> int \<times> response list" where
  "df_spec (Complete r) (slot, t, out) = (if slot = None then Some r else slot, t, out)"
| "df_spec Take (slot, t, out) = (None, t, out @ (case slot of None \<Rightarrow> [] | Some r \<Rightarrow> [r]))"
| "df_spec (Set_deadline t') (slot, t, out) = (slot, t', out)"
| "df_spec (Expire now) (slot, t, out) =
     (if slot = None \<and> t \<le> now then Some response_gateway_timeout else slot, t, out)"
| "df_spec _ st = st"

definition df_abs :: "deferred \<times> response list \<Rightarrow> response option \<times> int \<times> response list" where
  "df_abs = (\<lambda>(d, out). (df_ready d, df_deadline d, out))"

definition df_inv :: "deferred \<times> response list \<Rightarrow> bool" where
  "df_inv = (\<lambda>(d, out). df_wakes d = length out + (if df_ready d = None then 0 else 1))"

lemma df_inv_exec: "df_inv s \<Longrightarrow> df_inv (df_exec c s)"
  by (cases s; cases c) (auto simp: df_inv_def df_defs split: option.splits)

lemma df_abs_exec: "df_abs (df_exec c s) = df_spec c (df_abs s)"
  by (cases s; cases c) (auto simp: df_abs_def df_defs split: option.splits)

interpretation deferred_machine: refinement_machine df_exec df_inv df_abs df_spec
  by unfold_locales (auto simp: df_inv_exec df_abs_exec)

text \<open>
  C17: A deferred response is a one-place mailbox.  After any sequence of completions, takes,
  deadline changes, cancellations and expiry checks, what is ready, the deadline and the responses
  handed out are those of the abstract slot, in which the first completion since the last take
  wins and an expiry only fills an empty slot at or after the deadline; and the eventfd has been
  written exactly once per response, taken or still waiting.
\<close>

theorem deferred_refines_mailbox:
  "let (d, out) = run_commands df_exec cs (deferred_new now timeout, [])
   in (df_ready d, df_deadline d, out) = run_commands df_spec cs (None, now + timeout, []) \<and>
      df_wakes d = length out + (if df_ready d = None then 0 else 1)"
proof -
  have "df_inv (deferred_new now timeout, [])" by (simp add: df_inv_def deferred_new_def)
  from deferred_machine.inv_run [OF this, of cs] deferred_machine.abs_run [OF this, of cs]
  show ?thesis by (auto simp: df_inv_def df_abs_def deferred_new_def split: prod.splits if_splits)
qed

end
