(* ===== verification/Json_Escape.thy ===== *)
theory Json_Escape
  imports Utils
begin

text \<open>
  JSON string escaping (\<open>utils.cxx\<close>) and the builder for problem bodies on top of it
  (\<open>net/http_json_string.cxx\<close>).  The scan for the next byte to escape works on eight bytes at a
  time in a 64-bit word; it is proved equal to the scan byte by byte.
\<close>

unbundle bit_operations_syntax

section \<open>Finding the next byte to escape\<close>

definition json_needs_escape :: "char \<Rightarrow> bool" where
  "json_needs_escape c \<longleftrightarrow> byte c < 0x20 \<or> c = CHR 0x22 \<or> c = CHR 0x5C"

text \<open>\<open>memcpy\<close> of bytes into a word on a little-endian machine.\<close>

definition le_word :: "string \<Rightarrow> u64" where
  "le_word s = foldr (\<lambda>c w. of_nat (byte c) + 256 * w) s 0"

definition kMsb :: u64 where "kMsb = 0x8080808080808080"

definition kOnes :: u64 where "kOnes = 0x0101010101010101"

definition kQuote :: u64 where "kQuote = 0x2222222222222222"

definition kBackslash :: u64 where "kBackslash = 0x5C5C5C5C5C5C5C5C"

definition kSpace :: u64 where "kSpace = 0x2020202020202020"

definition swar_bad :: "u64 \<Rightarrow> u64" where
  "swar_bad w =
     (let q = w XOR kQuote; b = w XOR kBackslash
      in ((q - kOnes) AND NOT q AND kMsb) OR ((b - kOnes) AND NOT b AND kMsb) OR
         ((w - kSpace) AND NOT w AND kMsb))"

definition countr_zero :: "u64 \<Rightarrow> nat" where
  "countr_zero w = length (takeWhile (\<lambda>i. \<not> bit w i) [0..<64])"

function scalar_scan :: "string \<Rightarrow> nat \<Rightarrow> nat" where
  "scalar_scan p i =
     (if i < length p then (if json_needs_escape (p ! i) then i else scalar_scan p (i + 1)) else i)"
  by pat_completeness auto
termination by (relation "measure (\<lambda>(p, i). length p - i)") auto

declare scalar_scan.simps [simp del]

function swar_scan :: "string \<Rightarrow> nat \<Rightarrow> nat" where
  "swar_scan p i =
     (if i + 8 \<le> length p then
        (let bad = swar_bad (le_word (substr p i 8))
         in if bad \<noteq> 0 then i + drop_bit 3 (countr_zero bad) else swar_scan p (i + 8))
      else scalar_scan p i)"
  by pat_completeness auto
termination by (relation "measure (\<lambda>(p, i). length p - i)") auto

declare swar_scan.simps [simp del]

definition json_string_first_escape :: "string \<Rightarrow> nat" where
  "json_string_first_escape p = swar_scan p 0"

section \<open>Escaping\<close>

definition append_json_u_escape :: "string \<Rightarrow> char \<Rightarrow> string" where
  "append_json_u_escape out c =
     out @ [CHR 0x5C] @ ''u00'' @ [hex_lower ! (byte c div 16)] @ [hex_lower ! (byte c mod 16)]"

definition append_json_escape :: "string \<Rightarrow> char \<Rightarrow> string" where
  "append_json_escape out c =
     (if c = CHR 0x22 then out @ [CHR 0x5C, CHR 0x22]
      else if c = CHR 0x5C then out @ [CHR 0x5C, CHR 0x5C]
      else if byte c = 8 then out @ [CHR 0x5C, CHR ''b'']
      else if byte c = 12 then out @ [CHR 0x5C, CHR ''f'']
      else if byte c = 10 then out @ [CHR 0x5C, CHR ''n'']
      else if byte c = 13 then out @ [CHR 0x5C, CHR ''r'']
      else if byte c = 9 then out @ [CHR 0x5C, CHR ''t'']
      else append_json_u_escape out c)"

definition json_string_content_escaped_size :: "string \<Rightarrow> nat" where
  "json_string_content_escaped_size v =
     foldl (\<lambda>out c. if c = CHR 0x22 \<or> c = CHR 0x5C \<or> byte c \<in> {8, 12, 10, 13, 9} then out + 2
                    else if byte c < 0x20 then out + 6 else out + 1) 0 v"

section \<open>The word scan is the byte scan\<close>

text \<open>Words built byte by byte: the low byte and the rest do not interfere.\<close>

lemma le_word_Cons: "le_word (c # s) = of_nat (byte c) + 256 * le_word s"
  by (simp add: le_word_def)

lemma bit_small:
  assumes "x < 256" and "8 \<le> n"
  shows "\<not> bit (of_nat x :: u64) n"
proof -
  have "(2::nat) ^ 8 \<le> 2 ^ n" using assms(2) by (rule power_increasing) simp
  with assms(1) have "x div 2 ^ n = 0" by simp
  then have "\<not> bit x n" by (simp add: bit_iff_odd)
  then show ?thesis by (simp only: bit_of_nat_iff) simp
qed

lemma bit_7: "x < 256 \<Longrightarrow> bit (of_nat x :: u64) 7 \<longleftrightarrow> 128 \<le> x"
proof -
  assume "x < 256"
  then have "x div 128 = (if 128 \<le> x then 1 else 0)" by auto
  then have "bit x 7 \<longleftrightarrow> 128 \<le> x" by (simp add: bit_iff_odd)
  then show ?thesis by (simp only: bit_of_nat_iff) simp
qed

lemma bit_low_byte:
  fixes w :: u64
  assumes "x < 256"
  shows "bit (of_nat x + 256 * w) n \<longleftrightarrow> (if n < 8 then bit (of_nat x :: u64) n else n < 64 \<and> bit w (n - 8))"
proof -
  have p: "256 * w = push_bit 8 w" by (simp add: push_bit_eq_mult)
  have "\<not> bit (of_nat x :: u64) k \<or> \<not> bit (push_bit 8 w) k" for k
    using bit_small [OF assms, of k] by (auto simp: bit_push_bit_iff)
  then have "bit (of_nat x + push_bit 8 w) n \<longleftrightarrow> bit (of_nat x :: u64) n \<or> bit (push_bit 8 w) n"
    by (rule bit_disjunctive_add_iff)
  then show ?thesis using bit_small [OF assms, of n] by (auto simp: p bit_push_bit_iff)
qed

text \<open>A constant with the same byte everywhere.\<close>

lemma broadcast: "kOnes = of_nat 1 + 256 * kOnes" "kSpace = of_nat 32 + 256 * kSpace"
  "kQuote = of_nat 34 + 256 * kQuote" "kBackslash = of_nat 92 + 256 * kBackslash"
  "kMsb = of_nat 128 + 256 * kMsb"
  by (simp_all add: kOnes_def kSpace_def kQuote_def kBackslash_def kMsb_def)

lemma bit_kMsb: "bit kMsb n \<longleftrightarrow> n < 64 \<and> n mod 8 = 7"
proof (induction n rule: less_induct)
  case (less n)
  have "bit kMsb n \<longleftrightarrow> (if n < 8 then bit (of_nat 128 :: u64) n else n < 64 \<and> bit kMsb (n - 8))"
    by (subst broadcast(5)) (rule bit_low_byte, simp)
  moreover have "bit (of_nat 128 :: u64) n \<longleftrightarrow> n = 7"
    using bit_exp_iff [of 7 n, where 'a = u64] by auto
  ultimately show ?case using less [of "n - 8"] by (auto simp: le_mod_geq not_less)
qed

lemma xor_low_byte:
  fixes w k :: u64
  assumes "x < 256" "y < 256"
  shows "(of_nat x + 256 * w) XOR (of_nat y + 256 * k) = of_nat (x XOR y) + 256 * (w XOR k)"
proof (rule bit_word_eqI)
  fix n :: nat assume "n < LENGTH(64)"
  have "take_bit 8 (x XOR y) = x XOR y" using assms by (simp add: take_bit_xor take_bit_nat_eq_self)
  with take_bit_nat_less_exp [of 8 "x XOR y"] have "x XOR y < 256" by simp
  with assms show "bit ((of_nat x + 256 * w) XOR (of_nat y + 256 * k)) n =
      bit (of_nat (x XOR y) + 256 * (w XOR k)) n"
    by (auto simp: bit_low_byte bit_xor_iff bit_of_nat_iff)
qed


text \<open>
  The test for a byte below \<open>y\<close> in every byte at once: the lowest byte is reported correctly, and
  when it is not below \<open>y\<close> there is no borrow and the rest is tested as on its own.
\<close>

definition below_mask :: "u64 \<Rightarrow> u64 \<Rightarrow> u64" where
  "below_mask k w = (w - k) AND NOT w AND kMsb"

lemma bit_below_mask:
  fixes w k u :: u64
  assumes eq: "of_nat x + 256 * w - k = of_nat z + 256 * u" and "x < 256" "z < 256" and "n < 64"
  shows "bit (below_mask k (of_nat x + 256 * w)) n \<longleftrightarrow>
     n mod 8 = 7 \<and>
     (if n < 8 then bit (of_nat z :: u64) n \<and> \<not> bit (of_nat x :: u64) n
      else bit u (n - 8) \<and> \<not> bit w (n - 8))"
  unfolding below_mask_def eq using assms(2-4)
  by (auto simp: bit_and_iff bit_not_iff bit_low_byte bit_kMsb)

lemma sub_no_borrow:
  fixes w k :: u64
  assumes "k = of_nat y + 256 * k" "y \<le> x"
  shows "of_nat x + 256 * w - k = of_nat (x - y) + 256 * (w - k)"
  by (subst assms(1)) (simp add: algebra_simps of_nat_diff assms(2))

lemma sub_borrow:
  fixes w k :: u64
  assumes "k = of_nat y + 256 * k" "x < y" "y \<le> 128"
  obtains z where "128 \<le> z" "z < 256" "of_nat x + 256 * w - k = of_nat z + 256 * (w - k - 1)"
proof
  show "128 \<le> x + 256 - y" "x + 256 - y < 256" using assms(2,3) by simp_all
  have "of_nat (x + 256 - y) = (of_nat x + 256 - of_nat y :: u64)" using assms(3) by (simp add: of_nat_diff)
  then show "of_nat x + 256 * w - k = of_nat (x + 256 - y) + 256 * (w - k - 1)"
    by (subst assms(1)) (simp add: algebra_simps)
qed

lemma below_mask_low:
  fixes w k :: u64
  assumes k: "k = of_nat y + 256 * k" and "x < 256" "y \<le> 128" and "n < 8"
  shows "bit (below_mask k (of_nat x + 256 * w)) n \<longleftrightarrow> n = 7 \<and> x < y"
proof (cases "x < y")
  case True
  obtain z where z: "128 \<le> z" "z < 256" "of_nat x + 256 * w - k = of_nat z + 256 * (w - k - 1)"
    using sub_borrow [OF k True assms(3)] by blast
  from bit_below_mask [OF z(3) assms(2) z(2), of n] True assms(3,4) z(1,2) show ?thesis
    by (auto simp: bit_7)
next
  case False
  obtain z where z: "z = x - y" "of_nat x + 256 * w - k = of_nat z + 256 * (w - k)"
    using sub_no_borrow [OF k, of x w] False by auto
  from bit_below_mask [OF z(2) assms(2), of n] False assms(2-4) z(1) show ?thesis
    by (auto simp: bit_7 simp del: of_nat_diff)
qed

lemma below_mask_high:
  fixes w k :: u64
  assumes k: "k = of_nat y + 256 * k" and "x < 256" "y \<le> x" and "8 \<le> n" "n < 64"
  shows "bit (below_mask k (of_nat x + 256 * w)) n \<longleftrightarrow> bit (below_mask k w) (n - 8)"
proof -
  have "bit (below_mask k w) (n - 8) \<longleftrightarrow> bit (w - k) (n - 8) \<and> \<not> bit w (n - 8) \<and> n mod 8 = 7"
    using assms(4,5) by (auto simp: below_mask_def bit_and_iff bit_not_iff bit_kMsb le_mod_geq)
  moreover have "x - y < 256" using assms(2) by simp
  ultimately show ?thesis
    using bit_below_mask [OF sub_no_borrow [OF k assms(3), of w], of n] assms(2-5) by auto
qed

lemma swar_bad_eq:
  "swar_bad w = below_mask kOnes (w XOR kQuote) OR below_mask kOnes (w XOR kBackslash) OR below_mask kSpace w"
  by (simp add: swar_bad_def below_mask_def Let_def or.assoc)

lemma xor_zero_iff: "x XOR y = 0 \<longleftrightarrow> x = (y :: nat)"
  by (metis xor.assoc xor.left_neutral xor_self_eq)

text \<open>The bytes the three tests look for.\<close>

lemma json_needs_escape_byte: "json_needs_escape c \<longleftrightarrow> byte c XOR 34 < 1 \<or> byte c XOR 92 < 1 \<or> byte c < 32"
proof -
  have "c = CHR 0x22 \<longleftrightarrow> byte c = 34" "c = CHR 0x5C \<longleftrightarrow> byte c = 92"
    using byte_eq_iff [of c "CHR 0x22"] byte_eq_iff [of c "CHR 0x5C"] by simp_all
  then show ?thesis by (auto simp: json_needs_escape_def xor_zero_iff)
qed

lemma xor_byte_less: "x < 256 \<Longrightarrow> y < 256 \<Longrightarrow> x XOR y < (256 :: nat)"
proof -
  assume "x < 256" "y < 256"
  then have "take_bit 8 (x XOR y) = x XOR y" by (simp add: take_bit_xor take_bit_nat_eq_self)
  with take_bit_nat_less_exp [of 8 "x XOR y"] show ?thesis by simp
qed

lemma swar_low:
  assumes "n < 8"
  shows "bit (swar_bad (of_nat (byte c) + 256 * w)) n \<longleftrightarrow> n = 7 \<and> json_needs_escape c"
proof -
  have "(of_nat (byte c) + 256 * w) XOR kQuote = of_nat (byte c XOR 34) + 256 * (w XOR kQuote)"
    "(of_nat (byte c) + 256 * w) XOR kBackslash = of_nat (byte c XOR 92) + 256 * (w XOR kBackslash)"
    by (rule xor_low_byte [of "byte c" 34 w kQuote, folded broadcast(3)]; simp)
       (rule xor_low_byte [of "byte c" 92 w kBackslash, folded broadcast(4)]; simp)
  with assms show ?thesis
    by (auto simp: swar_bad_eq bit_or_iff json_needs_escape_byte xor_byte_less
        below_mask_low [OF broadcast(1)] below_mask_low [OF broadcast(2)] simp del: of_nat_1 of_nat_numeral)
qed

lemma swar_high:
  assumes "8 \<le> n" "n < 64" "\<not> json_needs_escape c"
  shows "bit (swar_bad (of_nat (byte c) + 256 * w)) n \<longleftrightarrow> bit (swar_bad w) (n - 8)"
proof -
  have "(of_nat (byte c) + 256 * w) XOR kQuote = of_nat (byte c XOR 34) + 256 * (w XOR kQuote)"
    "(of_nat (byte c) + 256 * w) XOR kBackslash = of_nat (byte c XOR 92) + 256 * (w XOR kBackslash)"
    by (rule xor_low_byte [of "byte c" 34 w kQuote, folded broadcast(3)]; simp)
       (rule xor_low_byte [of "byte c" 92 w kBackslash, folded broadcast(4)]; simp)
  moreover from assms(3) have "1 \<le> byte c XOR 34" "1 \<le> byte c XOR 92" "32 \<le> byte c"
    by (simp_all add: json_needs_escape_byte)
  ultimately show ?thesis using assms(1,2)
    by (simp add: swar_bad_eq bit_or_iff xor_byte_less
        below_mask_high [OF broadcast(1)] below_mask_high [OF broadcast(2)] del: of_nat_1 of_nat_numeral)
qed


definition run_of :: "(char \<Rightarrow> bool) \<Rightarrow> string \<Rightarrow> nat" where
  "run_of special s = length (takeWhile (\<lambda>c. \<not> special c) s)"

lemma run_of_simps [simp]:
  "run_of special [] = 0" "run_of special (c # s) = (if special c then 0 else Suc (run_of special s))"
  by (simp_all add: run_of_def)

lemma run_of_append:
  "run_of special (a @ b) = (if run_of special a = length a then length a + run_of special b else run_of special a)"
  by (induction a) auto

lemma countr_zero_eq:
  assumes "n < 64" "bit w n" "\<And>m. m < n \<Longrightarrow> \<not> bit w m"
  shows "countr_zero w = n"
proof -
  have "[0..<64] = [0..<n] @ n # [Suc n..<64]"
    using assms(1) by (metis less_imp_le upt_add_eq_append upt_conv_Cons le0 le_add_diff_inverse)
  moreover have "takeWhile (\<lambda>i. \<not> bit w i) ([0..<n] @ n # [Suc n..<64]) = [0..<n]"
    using assms(2,3) by (subst takeWhile_append2) auto
  ultimately show ?thesis by (simp add: countr_zero_def)
qed

text \<open>
  What such a test has to satisfy: it reports the lowest byte in its top bit, and when that byte is
  not special, the others as in the word without it.
\<close>

locale word_scan =
  fixes bad :: "u64 \<Rightarrow> u64" and special :: "char \<Rightarrow> bool"
  assumes low: "n < 8 \<Longrightarrow> bit (bad (of_nat (byte c) + 256 * w)) n \<longleftrightarrow> n = 7 \<and> special c"
    and high: "8 \<le> n \<Longrightarrow> n < 64 \<Longrightarrow> \<not> special c \<Longrightarrow>
      bit (bad (of_nat (byte c) + 256 * w)) n \<longleftrightarrow> bit (bad w) (n - 8)"
begin

lemma bits:
  "length s \<le> 8 \<Longrightarrow> n < 8 * length s \<Longrightarrow> n div 8 \<le> run_of special s \<Longrightarrow>
     bit (bad (le_word s)) n \<longleftrightarrow> run_of special s < length s \<and> n = 8 * run_of special s + 7"
proof (induction s arbitrary: n)
  case (Cons c s)
  show ?case
  proof (cases "n < 8")
    case True
    then show ?thesis using low [OF True, of c "le_word s"] by (auto simp: le_word_Cons)
  next
    case False
    then have "1 \<le> n div 8" by simp
    with Cons.prems(3) have c: "\<not> special c" by (auto split: if_splits)
    have n: "8 \<le> n" "n < 64" using False Cons.prems(1,2) by auto
    from c Cons.prems False have "(n - 8) div 8 \<le> run_of special s" "n - 8 < 8 * length s" "length s \<le> 8"
      by (auto simp: le_div_geq)
    from Cons.IH [OF this(3,2,1)] high [OF n c, of "le_word s"] c n show ?thesis
      by (auto simp: le_word_Cons)
  qed
qed simp

lemma word:
  assumes "length s = 8"
  shows "bad (le_word s) = 0 \<longleftrightarrow> run_of special s = 8"
    and "bad (le_word s) \<noteq> 0 \<Longrightarrow> drop_bit 3 (countr_zero (bad (le_word s))) = run_of special s"
proof -
  let ?w = "bad (le_word s)"
  have le: "run_of special s \<le> 8" using assms length_takeWhile_le [of _ s] by (simp add: run_of_def)
  have bits: "bit ?w n \<longleftrightarrow> run_of special s < 8 \<and> n = 8 * run_of special s + 7"
    if "n < 64" "n \<le> 8 * run_of special s + 7" for n
    using bits [of s n] assms that by auto
  have zero: "?w = 0" if "run_of special s = 8"
    by (rule bit_word_eqI) (use bits that in auto)
  have ctz: "countr_zero ?w = 8 * run_of special s + 7" if "run_of special s < 8"
    by (rule countr_zero_eq) (use bits that in auto)
  show "?w = 0 \<longleftrightarrow> run_of special s = 8"
    using zero bits [of "8 * run_of special s + 7"] le by (cases "run_of special s = 8") auto
  show "?w \<noteq> 0 \<Longrightarrow> drop_bit 3 (countr_zero ?w) = run_of special s"
    using zero ctz le by (cases "run_of special s = 8") (auto simp: drop_bit_eq_div)
qed

text \<open>A loop over whole words with a byte loop for the tail.\<close>

lemma scan_eq:
  assumes rec: "\<And>i. scan i =
      (if i + 8 \<le> length p then
         (let b = bad (le_word (substr p i 8)) in if b \<noteq> 0 then i + drop_bit 3 (countr_zero b) else scan (i + 8))
       else tail i)"
    and tail: "\<And>i. i \<le> length p \<Longrightarrow> tail i = i + run_of special (drop i p)"
  shows "i \<le> length p \<Longrightarrow> scan i = i + run_of special (drop i p)"
proof (induction "length p - i" arbitrary: i rule: less_induct)
  case less
  show ?case
  proof (cases "i + 8 \<le> length p")
    case True
    let ?s = "substr p i 8"
    from True have len: "length ?s = 8" by (simp add: substr_def)
    have d: "drop i p = ?s @ drop (i + 8) p"
      by (metis substr_def append_take_drop_id drop_drop add.commute)
    show ?thesis
    proof (cases "bad (le_word ?s) = 0")
      case bad: True
      have "scan (i + 8) = i + 8 + run_of special (drop (i + 8) p)" using True by (intro less) auto
      with True bad word(1) [OF len] len show ?thesis
        by (subst rec) (simp add: Let_def d run_of_append)
    next
      case False
      with True word [OF len] len show ?thesis
        by (subst rec) (simp add: Let_def d run_of_append)
    qed
  next
    case False
    with less.prems show ?thesis by (subst rec) (simp add: tail)
  qed
qed

end

interpretation escape_scan: word_scan swar_bad json_needs_escape
  by unfold_locales (rule swar_low, simp, rule swar_high)

abbreviation plain_run :: "string \<Rightarrow> nat" where
  "plain_run \<equiv> run_of json_needs_escape"

lemma scalar_scan_eq: "i \<le> length p \<Longrightarrow> scalar_scan p i = i + plain_run (drop i p)"
proof (induction p i rule: scalar_scan.induct)
  case (1 p i)
  then show ?case
    by (subst scalar_scan.simps) (auto simp: Cons_nth_drop_Suc [symmetric])
qed

lemma swar_scan_eq: "i \<le> length p \<Longrightarrow> swar_scan p i = i + plain_run (drop i p)"
  by (rule escape_scan.scan_eq [OF swar_scan.simps scalar_scan_eq])

text \<open>
  The scan for the next byte to escape, which tests eight bytes at a time with word
  arithmetic, stops exactly where a byte-by-byte scan for control bytes, quotes and backslashes
  stops, on every input; the false alarms the word test raises above a real hit never matter.
\<close>

lemma json_first_escape_scan:
  "json_string_first_escape p = length (takeWhile (\<lambda>c. \<not> json_needs_escape c) p)"
  by (simp add: json_string_first_escape_def swar_scan_eq run_of_def)

section \<open>Escaping a whole string\<close>

lemma first_escape_plain_run: "json_string_first_escape p = plain_run p"
  by (simp add: json_string_first_escape_def swar_scan_eq)

function json_escape_loop :: "string \<Rightarrow> nat \<Rightarrow> string \<Rightarrow> string" where
  "json_escape_loop p i out =
     (if i < length p then
        (if json_needs_escape (p ! i) then json_escape_loop p (i + 1) (append_json_escape out (p ! i))
         else
           let run = json_string_first_escape (drop i p)
           in json_escape_loop p (i + run) (out @ substr p i run))
      else out)"
  by pat_completeness auto
termination
proof (relation "measure (\<lambda>(p, i, out). length p - i)", goal_cases)
  case (3 p i out run)
  then have "0 < run" by (simp add: first_escape_plain_run Cons_nth_drop_Suc [symmetric])
  with 3 show ?case by simp
qed simp_all

declare json_escape_loop.simps [simp del]

definition append_json_string_content_fallback :: "string \<Rightarrow> string \<Rightarrow> string" where
  "append_json_string_content_fallback out v = json_escape_loop v 0 out"

definition json_string_content_fallback :: "string \<Rightarrow> string" where
  "json_string_content_fallback v = append_json_string_content_fallback [] v"

definition append_json_string_fallback :: "string \<Rightarrow> string \<Rightarrow> string" where
  "append_json_string_fallback out v =
     append_json_string_content_fallback (out @ [CHR 0x22]) v @ [CHR 0x22]"

definition json_string_fallback :: "string \<Rightarrow> string" where
  "json_string_fallback v = append_json_string_fallback [] v"

section \<open>Problem bodies\<close>

definition append_json_string :: "string \<Rightarrow> string \<Rightarrow> string" where
  "append_json_string out v = append_json_string_fallback out v"

definition json_string :: "string \<Rightarrow> string" where
  "json_string v = json_string_fallback v"

record problem_body =
  pb_body :: string
  pb_first :: bool

definition problem_body_new :: problem_body where
  "problem_body_new = \<lparr>pb_body = ''{'', pb_first = True\<rparr>"

definition pb_append_name :: "string \<Rightarrow> problem_body \<Rightarrow> problem_body" where
  "pb_append_name n b =
     (let b = (if \<not> pb_first b then b\<lparr>pb_body := pb_body b @ '',''\<rparr> else b);
          b = b\<lparr>pb_first := False\<rparr>
      in b\<lparr>pb_body := append_json_string (pb_body b) n @ '':''\<rparr>)"

definition pb_member :: "string \<Rightarrow> string \<Rightarrow> problem_body \<Rightarrow> problem_body" where
  "pb_member n v b =
     (let b = pb_append_name n b in b\<lparr>pb_body := append_json_string (pb_body b) v\<rparr>)"

definition pb_raw_member :: "string \<Rightarrow> string \<Rightarrow> problem_body \<Rightarrow> problem_body" where
  "pb_raw_member n v b = (let b = pb_append_name n b in b\<lparr>pb_body := pb_body b @ v\<rparr>)"

definition pb_finish :: "problem_body \<Rightarrow> string" where
  "pb_finish b = pb_body b @ ''}''"

section \<open>Facts about escaping\<close>

definition json_escape_char :: "char \<Rightarrow> string" where
  "json_escape_char c = (if json_needs_escape c then append_json_escape [] c else [c])"

lemma append_json_escape_eq: "json_needs_escape c \<Longrightarrow> append_json_escape out c = out @ json_escape_char c"
  by (simp add: json_escape_char_def append_json_escape_def append_json_u_escape_def)

lemma plain_run_concat: "concat (map json_escape_char (take (plain_run s) s)) = take (plain_run s) s"
  by (induction s) (auto simp: json_escape_char_def)

lemma plain_run_le: "plain_run s \<le> length s"
  by (simp add: run_of_def length_takeWhile_le)

lemma json_escape_loop_eq: "json_escape_loop p i out = out @ concat (map json_escape_char (drop i p))"
proof (induction p i out rule: json_escape_loop.induct)
  case (1 p i out)
  show ?case
  proof (cases "i < length p")
    case True
    note d = Cons_nth_drop_Suc [OF True, symmetric]
    show ?thesis
    proof (cases "json_needs_escape (p ! i)")
      case esc: True
      from "1.IH"(1) [OF True esc] True esc show ?thesis
        by (subst json_escape_loop.simps) (simp add: d append_json_escape_eq)
    next
      case False
      let ?r = "plain_run (drop i p)"
      have "drop i p = take ?r (drop i p) @ drop (i + ?r) p" by (metis append_take_drop_id drop_drop add.commute)
      then have "concat (map json_escape_char (drop i p)) =
          substr p i ?r @ concat (map json_escape_char (drop (i + ?r) p))"
        by (metis concat_append map_append plain_run_concat substr_def)
      with "1.IH"(2) [OF True False refl] True False show ?thesis
        by (subst json_escape_loop.simps) (simp add: first_escape_plain_run Let_def)
    qed
  qed (subst json_escape_loop.simps, simp)
qed

lemma json_content_eq: "json_string_content_fallback v = concat (map json_escape_char v)"
  by (simp add: json_string_content_fallback_def append_json_string_content_fallback_def json_escape_loop_eq)

text \<open>
  Reading the rest of a JSON string literal: the text up to the closing quote, and what follows
  it.  Control bytes are not allowed; only the escapes for one byte are understood.
\<close>

fun json_read_literal :: "string \<Rightarrow> (string \<times> string) option" where
  "json_read_literal [] = None"
| "json_read_literal (c # s) =
     (if c = CHR 0x22 then Some ([], s)
      else if byte c < 0x20 then None
      else if c \<noteq> CHR 0x5C then map_option (apfst ((#) c)) (json_read_literal s)
      else case s of
        [] \<Rightarrow> None
      | e # t \<Rightarrow>
          if e = CHR 0x22 \<or> e = CHR 0x5C then map_option (apfst ((#) e)) (json_read_literal t)
          else if e = CHR ''b'' then map_option (apfst ((#) (of_byte 8))) (json_read_literal t)
          else if e = CHR ''f'' then map_option (apfst ((#) (of_byte 12))) (json_read_literal t)
          else if e = CHR ''n'' then map_option (apfst ((#) (of_byte 10))) (json_read_literal t)
          else if e = CHR ''r'' then map_option (apfst ((#) (of_byte 13))) (json_read_literal t)
          else if e = CHR ''t'' then map_option (apfst ((#) (of_byte 9))) (json_read_literal t)
          else if e = CHR ''u'' \<and> take 2 t = ''00'' then
            (case hex_decode (take 2 (drop 2 t)) of
               Inr [b] \<Rightarrow> map_option (apfst ((#) b)) (json_read_literal (drop 4 t))
             | _ \<Rightarrow> None)
          else None)"

lemma json_read_char:
  "json_read_literal (json_escape_char c @ s) = map_option (apfst ((#) c)) (json_read_literal s)"
proof (cases "json_needs_escape c")
  case True
  consider "c = CHR 0x22" | "c = CHR 0x5C" | "c \<in> of_byte ` {8, 12, 10, 13, 9}"
    | (u) "c \<noteq> CHR 0x22" "c \<noteq> CHR 0x5C" "byte c \<notin> {8, 12, 10, 13, 9}"
    by (metis imageI of_byte_byte)
  then show ?thesis
  proof cases
    case 3
    with True show ?thesis by (auto simp: json_escape_char_def append_json_escape_def)
  next
    case u
    have "hex_decode [hex_lower ! (byte c div 16), hex_lower ! (byte c mod 16)] = Inr [c]"
      using hex_decode_encode [of "[c]"] by (simp add: hex_encode_def)
    with u True show ?thesis
      by (simp add: json_escape_char_def append_json_escape_def append_json_u_escape_def)
  qed (simp_all add: json_escape_char_def append_json_escape_def json_needs_escape_def)
next
  case False
  then show ?thesis by (simp add: json_escape_char_def json_needs_escape_def)
qed

lemma json_read_content:
  "json_read_literal (concat (map json_escape_char v) @ CHR 0x22 # t) = Some (v, t)"
  by (induction v) (simp_all add: json_read_char)

text \<open>
  A string written by \<open>json_string\<close> is one JSON string literal that stands for it: after the
  opening quote, reading up to the first unescaped quote, with no raw control byte on the way,
  gives the string back and ends exactly where the literal ends, whatever follows; and the size
  reserved for it is the size it has.
\<close>

lemma json_string_reads_back:
  "\<exists>content. json_string v = CHR 0x22 # content @ [CHR 0x22] \<and>
     json_read_literal (content @ CHR 0x22 # t) = Some (v, t) \<and>
     length content = json_string_content_escaped_size v"
proof -
  have size: "foldl (\<lambda>out c. if c = CHR 0x22 \<or> c = CHR 0x5C \<or> byte c \<in> {8, 12, 10, 13, 9} then out + 2
                    else if byte c < 0x20 then out + 6 else out + 1) n v =
      n + length (concat (map json_escape_char v))" for n
    by (induction v arbitrary: n)
       (auto simp: json_escape_char_def json_needs_escape_def append_json_escape_def append_json_u_escape_def)
  have "json_string_content_escaped_size v = length (concat (map json_escape_char v))"
    unfolding json_string_content_escaped_size_def size by simp
  then show ?thesis
    by (intro exI [of _ "concat (map json_escape_char v)"])
       (simp add: json_string_def json_string_fallback_def append_json_string_fallback_def
          append_json_string_content_fallback_def json_escape_loop_eq json_read_content)
qed

end
