(* ===== verification/Server_Helpers.thy ===== *)
theory Server_Helpers
  imports Http_Parse Http_Response Json_Escape
begin

text \<open>
  \<open>net/http_server_helpers.cxx\<close>: serialising responses and chunks, cookies, \<open>Expect\<close> and
  \<open>Transfer-Encoding\<close> checks, multipart bodies, and the assembly of a request's query, form,
  cookies and files.  The current date, the \<open>Sec-WebSocket-Accept\<close> value behind an upgrade
  pointer and the file sizes behind body pointers are arguments.
\<close>

section \<open>Rejections\<close>

definition make_rejection_response :: "reject_reason \<Rightarrow> response" where
  "make_rejection_response reason =
     response_problem_json
       (pb_finish
          (pb_member ''detail'' (reject_reason_detail reason)
             (pb_member ''diagnostic_code'' (reject_reason_diagnostic_code reason)
                (pb_member ''code'' (reject_reason_code reason) problem_body_new))))
       (reject_reason_status reason)"

fun note_rejection :: "reject_reason \<Rightarrow> rejection_metrics \<Rightarrow> rejection_metrics" where
  "note_rejection RR_malformed_request m = m\<lparr>rm_malformed_request := rm_malformed_request m + 1\<rparr>"
| "note_rejection RR_request_line_too_large m = m\<lparr>rm_request_line_too_large := rm_request_line_too_large m + 1\<rparr>"
| "note_rejection RR_header_line_too_large m = m\<lparr>rm_header_line_too_large := rm_header_line_too_large m + 1\<rparr>"
| "note_rejection RR_header_block_too_large m = m\<lparr>rm_header_block_too_large := rm_header_block_too_large m + 1\<rparr>"
| "note_rejection RR_too_many_headers m = m\<lparr>rm_too_many_headers := rm_too_many_headers m + 1\<rparr>"
| "note_rejection RR_missing_host m = m\<lparr>rm_missing_host := rm_missing_host m + 1\<rparr>"
| "note_rejection RR_duplicate_host m = m\<lparr>rm_duplicate_host := rm_duplicate_host m + 1\<rparr>"
| "note_rejection RR_malformed_content_length m = m\<lparr>rm_malformed_content_length := rm_malformed_content_length m + 1\<rparr>"
| "note_rejection RR_duplicate_content_length m = m\<lparr>rm_duplicate_content_length := rm_duplicate_content_length m + 1\<rparr>"
| "note_rejection RR_content_length_with_transfer_encoding m =
     m\<lparr>rm_content_length_with_transfer_encoding := rm_content_length_with_transfer_encoding m + 1\<rparr>"
| "note_rejection RR_unsupported_transfer_encoding m =
     m\<lparr>rm_unsupported_transfer_encoding := rm_unsupported_transfer_encoding m + 1\<rparr>"
| "note_rejection RR_invalid_transfer_encoding m =
     m\<lparr>rm_invalid_transfer_encoding := rm_invalid_transfer_encoding m + 1\<rparr>"
| "note_rejection RR_invalid_chunk m = m\<lparr>rm_invalid_chunk := rm_invalid_chunk m + 1\<rparr>"
| "note_rejection RR_body_too_large m = m\<lparr>rm_body_too_large := rm_body_too_large m + 1\<rparr>"
| "note_rejection RR_expectation_failed m = m\<lparr>rm_expectation_failed := rm_expectation_failed m + 1\<rparr>"
| "note_rejection RR_header_timeout m = m\<lparr>rm_header_timeout := rm_header_timeout m + 1\<rparr>"
| "note_rejection RR_body_timeout m = m\<lparr>rm_body_timeout := rm_body_timeout m + 1\<rparr>"
| "note_rejection RR_none m = m"

section \<open>Serialising responses\<close>

definition header_name_char :: "char \<Rightarrow> bool" where
  "header_name_char c \<longleftrightarrow>
     byte c < 0x80 \<and>
     (char_between CHR ''0'' CHR ''9'' c \<or> char_between CHR ''a'' CHR ''z'' c \<or> char_between CHR ''A'' CHR ''Z'' c \<or>
      c \<in> {CHR ''!'', CHR ''#'', CHR ''$'', CHR ''%'', CHR ''&'', CHR 0x27, CHR ''*'', CHR ''+'', CHR ''-'',
           CHR ''.'', CHR ''^'', CHR ''_'', CHR 0x60, CHR ''|'', CHR ''~''})"

definition is_valid_header_name :: "string \<Rightarrow> bool" where
  "is_valid_header_name n \<longleftrightarrow> n \<noteq> [] \<and> list_all header_name_char n"

definition header_value_char :: "char \<Rightarrow> bool" where
  "header_value_char c \<longleftrightarrow> \<not> (byte c < 0x20 \<and> byte c \<noteq> 9) \<and> byte c \<noteq> 0x7F"

definition is_valid_header_value :: "string \<Rightarrow> bool" where
  "is_valid_header_value v \<longleftrightarrow> list_all header_value_char v"

definition must_not_have_body :: "int \<Rightarrow> bool" where
  "must_not_have_body code \<longleftrightarrow> (code \<ge> 100 \<and> code < 200) \<or> code = 204 \<or> code = 304"

definition is_valid_reason_phrase :: "string \<Rightarrow> bool" where
  "is_valid_reason_phrase v \<longleftrightarrow> list_all header_value_char v"

definition append_response_header :: "string \<Rightarrow> string \<times> string \<Rightarrow> string" where
  "append_response_header out kv =
     (case kv of (k, v) \<Rightarrow>
        if is_response_framing_header k then out
        else if \<not> is_valid_header_name k \<or> \<not> is_valid_header_value v then out
        else out @ k @ '': '' @ v @ crlf)"

definition append_set_cookie :: "string \<Rightarrow> string \<Rightarrow> string" where
  "append_set_cookie out sc =
     (if \<not> is_valid_header_value sc then out else out @ ''Set-Cookie: '' @ sc @ crlf)"

definition format_response ::
    "file_store \<Rightarrow> (nat \<Rightarrow> string) \<Rightarrow> string \<Rightarrow> response \<Rightarrow> string \<Rightarrow> bool \<Rightarrow> string" where
  "format_response files accept_key date r alt_svc close =
     (if is_ws_upgrade r \<and> ws_upgrade_ptr r \<noteq> None then
        ''HTTP/1.1 101 Switching Protocols'' @ crlf @ ''Upgrade: websocket'' @ crlf @
        ''Connection: Upgrade'' @ crlf @ ''Sec-WebSocket-Accept: '' @
        accept_key (the (ws_upgrade_ptr r)) @ crlf @ crlf
      else
        let status_no_body = must_not_have_body (resp_status r);
            suppress_body = (status_no_body \<or> head_only r);
            include_body = (\<not> suppress_body \<and> \<not> is_mapped_file r \<and> \<not> is_streamed_file r);
            out = ''HTTP/1.1 '' @ int_string (resp_status r) @ '' '';
            out = (if is_valid_reason_phrase (resp_status_text r) then out @ resp_status_text r else out);
            out = out @ crlf @ ''Date: '' @ date @ crlf;
            out = (if resp_content_type r \<noteq> [] \<and> is_valid_header_value (resp_content_type r)
                   then out @ ''Content-Type: '' @ resp_content_type r @ crlf else out);
            out = (if resp_status r = 304 then
                     (if content_length_hint r \<noteq> 0
                      then out @ ''Content-Length: '' @ dec_string (content_length_hint r) @ crlf else out)
                   else if \<not> status_no_body
                   then out @ ''Content-Length: '' @ dec_string (content_length files r) @ crlf
                   else out);
            out = foldl append_response_header out (field_data (resp_headers r));
            out = foldl append_set_cookie out (set_cookies r);
            out = (if alt_svc \<noteq> [] then out @ ''Alt-Svc: '' @ alt_svc @ crlf else out);
            out = out @ (if close then ''Connection: close'' @ crlf @ crlf
                         else ''Connection: keep-alive'' @ crlf @ crlf)
        in if include_body then out @ text_body r else out)"

definition format_sse_headers :: "bool \<Rightarrow> string" where
  "format_sse_headers close =
     ''HTTP/1.1 200 OK'' @ crlf @ ''Content-Type: text/event-stream'' @ crlf @
     ''Cache-Control: no-cache'' @ crlf @ ''Transfer-Encoding: chunked'' @ crlf @
     (if close then ''Connection: close'' else ''Connection: keep-alive'') @ crlf @ crlf"

definition format_http_chunk :: "string \<Rightarrow> string" where
  "format_http_chunk payload = append_hex [] (length payload) @ crlf @ payload @ crlf"

section \<open>Parameters and cookies\<close>

text \<open>The index of the closing quote of a quoted value, skipping escaped characters.\<close>

primrec closing_quote :: "string \<Rightarrow> nat \<Rightarrow> bool \<Rightarrow> nat option" where
  "closing_quote [] i escaped = None"
| "closing_quote (c # s) i escaped =
     (if escaped then closing_quote s (i + 1) False
      else if c = CHR 0x5C then closing_quote s (i + 1) True
      else if c = CHR 0x22 then Some i
      else closing_quote s (i + 1) False)"

definition param_text :: "header_param \<Rightarrow> string" where
  "param_text p =
     (let v = trim (param_value p)
      in if v = [] \<or> hd v \<noteq> CHR 0x22 then v
         else let v = tl v
              in case closing_quote v 0 False of Some i \<Rightarrow> take i v | None \<Rightarrow> v)"

definition extract_param :: "string \<Rightarrow> string \<Rightarrow> string" where
  "extract_param header n =
     (case List.find (\<lambda>p. param_has_value p \<and> ascii_iequals (param_name p) n) (header_params header) of
        None \<Rightarrow> []
      | Some p \<Rightarrow> param_text p)"

definition is_cookie_ows :: "char \<Rightarrow> bool" where
  "is_cookie_ows c \<longleftrightarrow> c = CHR '' '' \<or> byte c = 9"

definition trim_cookie_ows :: "string \<Rightarrow> string" where
  "trim_cookie_ows s = trim_with is_cookie_ows s"

definition cookie_pair :: "string \<Rightarrow> http_fields \<Rightarrow> http_fields" where
  "cookie_pair p out =
     (case sv_find p CHR ''='' of
        Some eq \<Rightarrow>
          (let n = trim_cookie_ows (take eq p); v = trim_cookie_ows (drop (eq + 1) p)
           in if n \<noteq> [] then fields_emplace_back n v out else out)
      | None \<Rightarrow> if p \<noteq> [] then fields_emplace_back p [] out else out)"

function parse_cookies_loop :: "string \<Rightarrow> nat \<Rightarrow> http_fields \<Rightarrow> http_fields" where
  "parse_cookies_loop header pos out =
     (if pos < length header then
        (case sv_find_from header CHR '';'' pos of
           None \<Rightarrow> cookie_pair (trim_cookie_ows (substr_from header pos)) out
         | Some sep \<Rightarrow>
             parse_cookies_loop header (sep + 1)
               (cookie_pair (trim_cookie_ows (substr header pos (sep - pos))) out))
      else out)"
  by pat_completeness auto
termination
  by (relation "measure (\<lambda>(h, pos, out). length h - pos)") (auto dest: sv_find_from_less)

declare parse_cookies_loop.simps [simp del]

definition parse_cookies :: "string \<Rightarrow> http_fields \<Rightarrow> http_fields" where
  "parse_cookies header out = parse_cookies_loop header 0 out"

section \<open>Connection, Expect and Transfer-Encoding\<close>

definition has_connection_token :: "http_fields \<Rightarrow> string \<Rightarrow> bool" where
  "has_connection_token headers wanted = any_value headers ''connection'' (\<lambda>v. header_token_contains v wanted)"

datatype expect_state = Expect_none | Expect_continue_100 | Expect_unsupported

fun expect_tokens :: "string list \<Rightarrow> bool \<Rightarrow> expect_state" where
  "expect_tokens [] saw = (if saw then Expect_continue_100 else Expect_none)"
| "expect_tokens (t # ts) saw =
     (if t = [] then expect_tokens ts saw
      else if \<not> ascii_iequals t ''100-continue'' then Expect_unsupported
      else expect_tokens ts True)"

definition parse_expect_value :: "string \<Rightarrow> expect_state" where
  "parse_expect_value v = expect_tokens (header_tokens v) False"

definition parse_expect_header :: "http_fields \<Rightarrow> expect_state" where
  "parse_expect_header headers =
     (case snd (for_each_matching_until headers ''expect''
        (\<lambda>v (saw, unsupported).
           case parse_expect_value v of
             Expect_unsupported \<Rightarrow> (False, (saw, True))
           | Expect_continue_100 \<Rightarrow> (True, (True, unsupported))
           | Expect_none \<Rightarrow> (True, (saw, unsupported))) (False, False)) of
        (saw, unsupported) \<Rightarrow>
          if unsupported then Expect_unsupported else if saw then Expect_continue_100 else Expect_none)"

fun chunked_tokens :: "string list \<Rightarrow> nat \<Rightarrow> bool \<times> nat" where
  "chunked_tokens [] n = (True, n)"
| "chunked_tokens (t # ts) n =
     (if t = [] \<or> \<not> ascii_iequals t ''chunked'' then (False, n) else chunked_tokens ts (n + 1))"

definition has_valid_chunked_transfer_encoding :: "http_fields \<Rightarrow> bool" where
  "has_valid_chunked_transfer_encoding headers =
     (case snd (for_each_matching_until headers ''transfer-encoding''
        (\<lambda>v (valid, n). case chunked_tokens (header_tokens v) n of (ok, n') \<Rightarrow> (ok, (ok, n'))) (True, 0)) of
        (valid, n) \<Rightarrow> valid \<and> n = (1::nat))"

section \<open>Multipart bodies\<close>

record boundary_match =
  delim_pos :: nat
  content_end :: nat

function find_multipart_boundary_line :: "string \<Rightarrow> string \<Rightarrow> nat \<Rightarrow> boundary_match option" where
  "find_multipart_boundary_line body delim search =
     (if search < length body then
        (case sv_find_str_from body delim search of
           None \<Rightarrow> None
         | Some pos \<Rightarrow>
             let at_start = (pos = 0);
                 after_crlf = (pos \<ge> 2 \<and> substr body (pos - 2) 2 = crlf);
                 after_lf = (\<not> after_crlf \<and> pos \<ge> 1 \<and> byte (body ! (pos - 1)) = 10);
                 after = pos + length delim;
                 valid_end = (after = length body \<or> substr body after 2 = ''--'' \<or>
                              substr body after 2 = crlf \<or> byte (body ! after) = 10)
             in if (at_start \<or> after_crlf \<or> after_lf) \<and> valid_end
                then Some \<lparr>delim_pos = pos,
                           content_end = (if after_crlf then pos - 2 else if after_lf then pos - 1 else pos)\<rparr>
                else find_multipart_boundary_line body delim (pos + 1))
      else None)"
  by pat_completeness auto
termination
  by (relation "measure (\<lambda>(body, delim, search). length body - search)")
     (auto dest: sv_find_str_from_ge)

declare find_multipart_boundary_line.simps [simp del]

text \<open>The headers of one part: the disposition and the content type.\<close>

definition part_header_line :: "string \<Rightarrow> string \<times> string \<Rightarrow> string \<times> string" where
  "part_header_line line dt =
     (case sv_find line CHR '':'' of
        None \<Rightarrow> dt
      | Some colon \<Rightarrow>
          let key = take colon line; v = trim (drop (colon + 1) line)
          in if is_valid_header_name key then
               (if ascii_iequals key ''content-disposition'' then (v, snd dt)
                else if ascii_iequals key ''content-type'' then (fst dt, v)
                else dt)
             else dt)"

function part_header_loop :: "string \<Rightarrow> nat \<Rightarrow> string \<times> string \<Rightarrow> string \<times> string" where
  "part_header_loop hs h dt =
     (if h < length hs then
        (case sv_find_str_from hs crlf h of
           None \<Rightarrow> part_header_line (substr_from hs h) dt
         | Some le \<Rightarrow>
             part_header_loop hs (le + 2) (part_header_line (substr hs h (le - h)) dt))
      else dt)"
  by pat_completeness auto
termination
  by (relation "measure (\<lambda>(hs, h, dt). length hs - h)") (auto dest: sv_find_str_from_ge)

declare part_header_loop.simps [simp del]

definition kMaxMultipartParts :: nat where "kMaxMultipartParts = 1000"

definition kMaxPartHeaderBytes :: nat where "kMaxPartHeaderBytes = 16 * 1024"

definition add_part ::
    "string \<Rightarrow> string \<Rightarrow> string \<Rightarrow> http_fields \<times> uploaded_file list \<Rightarrow> http_fields \<times> uploaded_file list" where
  "add_part disposition ct content out =
     (let n = extract_param disposition ''name''; fn = extract_param disposition ''filename''
      in if fn \<noteq> [] then (fst out, snd out @ [uploaded_borrowed n fn ct content])
         else if n \<noteq> [] then (fields_emplace_back n content (fst out), snd out)
         else out)"

text \<open>
  One part per step, from the position of its delimiter; the argument counts the parts still
  allowed.
\<close>

primrec multipart_loop ::
    "nat \<Rightarrow> string \<Rightarrow> string \<Rightarrow> nat \<Rightarrow> http_fields \<times> uploaded_file list \<Rightarrow> http_fields \<times> uploaded_file list" where
  "multipart_loop 0 body delim pos out = out"
| "multipart_loop (Suc parts) body delim pos out =
     (let pos = pos + length delim
      in if pos + 1 \<ge> length body then out
         else if substr body pos 2 = ''--'' then out
         else if substr body pos 2 \<noteq> crlf \<and> byte (body ! pos) \<noteq> 10 then out
         else
           let pos = (if substr body pos 2 = crlf then pos + 2 else pos + 1)
           in case sv_find_str_from body (crlf @ crlf) pos of
                None \<Rightarrow> out
              | Some headers_end \<Rightarrow>
                  if headers_end < pos \<or> headers_end - pos > kMaxPartHeaderBytes then out
                  else
                    let content_start = headers_end + 4
                    in case find_multipart_boundary_line body delim content_start of
                         None \<Rightarrow> out
                       | Some nb \<Rightarrow>
                           if content_end nb < content_start then out
                           else
                             let content = substr body content_start (content_end nb - content_start)
                             in case part_header_loop (substr body pos (headers_end - pos)) 0 ([], ''text/plain'') of
                                  (disposition, ct) \<Rightarrow>
                                    multipart_loop parts body delim (delim_pos nb)
                                      (add_part disposition ct content out))"

definition parse_multipart ::
    "string \<Rightarrow> string \<Rightarrow> http_fields \<Rightarrow> uploaded_file list \<Rightarrow> http_fields \<times> uploaded_file list" where
  "parse_multipart body boundary form files =
     (let delim = ''--'' @ boundary
      in case find_multipart_boundary_line body delim 0 of
           None \<Rightarrow> (form, files)
         | Some first \<Rightarrow> multipart_loop kMaxMultipartParts body delim (delim_pos first) (form, files))"

text \<open>The query, form, cookies and files of a request, each added to what is already there.\<close>

record request_parts =
  rp_query :: http_fields
  rp_form :: http_fields
  rp_cookies :: http_fields
  rp_files :: "uploaded_file list"

definition populate_request_parts ::
    "path_query_view \<Rightarrow> http_fields \<Rightarrow> string \<Rightarrow> request_parts \<Rightarrow> request_parts" where
  "populate_request_parts target headers body rp =
     (let rp = (if pq_query_suffix target \<noteq> [] then rp\<lparr>rp_query := parse_urlencoded (pq_query target) (rp_query rp)\<rparr> else rp);
          content_type = fields_at headers ''content-type'';
          rp = (if content_type_is_form_urlencoded content_type
                then rp\<lparr>rp_form := parse_urlencoded body (rp_form rp)\<rparr> else rp);
          rp = (if content_type_is_multipart_form_data content_type
                then let boundary = extract_param content_type ''boundary''
                     in if boundary \<noteq> []
                        then case parse_multipart body boundary (rp_form rp) (rp_files rp) of
                               (form, files) \<Rightarrow> rp\<lparr>rp_form := form, rp_files := files\<rparr>
                        else rp
                else rp);
          cookie = fields_at headers ''cookie''
      in if cookie \<noteq> [] then rp\<lparr>rp_cookies := parse_cookies cookie (rp_cookies rp)\<rparr> else rp)"

section \<open>A serialised response is what it should be\<close>

definition one_line :: "string \<Rightarrow> bool" where
  "one_line s \<longleftrightarrow> CHR 0x0D \<notin> set s \<and> CHR 0x0A \<notin> set s"

definition emitted_header :: "string \<times> string \<Rightarrow> bool" where
  "emitted_header kv \<longleftrightarrow>
     \<not> is_response_framing_header (fst kv) \<and> is_valid_header_name (fst kv) \<and> is_valid_header_value (snd kv)"

definition length_lines :: "file_store \<Rightarrow> response \<Rightarrow> string list" where
  "length_lines files r =
     (if resp_status r = 304 then
        (if content_length_hint r \<noteq> 0 then [''Content-Length: '' @ dec_string (content_length_hint r)] else [])
      else if \<not> must_not_have_body (resp_status r)
      then [''Content-Length: '' @ dec_string (content_length files r)] else [])"

text \<open>The lines of the head, without their line ends, and the body.\<close>

definition response_lines :: "file_store \<Rightarrow> string \<Rightarrow> response \<Rightarrow> string \<Rightarrow> bool \<Rightarrow> string list" where
  "response_lines files date r alt_svc close =
     [''HTTP/1.1 '' @ int_string (resp_status r) @ '' '' @
        (if is_valid_reason_phrase (resp_status_text r) then resp_status_text r else []),
      ''Date: '' @ date] @
     (if resp_content_type r \<noteq> [] \<and> is_valid_header_value (resp_content_type r)
      then [''Content-Type: '' @ resp_content_type r] else []) @
     length_lines files r @
     map (\<lambda>(k, v). k @ '': '' @ v) (filter emitted_header (field_data (resp_headers r))) @
     map (\<lambda>sc. ''Set-Cookie: '' @ sc) (filter is_valid_header_value (set_cookies r)) @
     (if alt_svc \<noteq> [] then [''Alt-Svc: '' @ alt_svc] else []) @
     [if close then ''Connection: close'' else ''Connection: keep-alive'']"

definition sent_body :: "response \<Rightarrow> string" where
  "sent_body r =
     (if must_not_have_body (resp_status r) \<or> head_only r \<or> is_mapped_file r \<or> is_streamed_file r then []
      else text_body r)"

lemma append_response_headers_eq:
  "foldl append_response_header out kvs =
     out @ concat (map (\<lambda>l. l @ crlf) (map (\<lambda>(k, v). k @ '': '' @ v) (filter emitted_header kvs)))"
  by (induction kvs arbitrary: out) (auto simp: append_response_header_def emitted_header_def)

lemma append_set_cookies_eq:
  "foldl append_set_cookie out scs =
     out @ concat (map (\<lambda>l. l @ crlf) (map (\<lambda>sc. ''Set-Cookie: '' @ sc) (filter is_valid_header_value scs)))"
  by (induction scs arbitrary: out) (simp_all add: append_set_cookie_def)

lemma format_response_lines:
  assumes "\<not> is_ws_upgrade r"
  shows "format_response files accept_key date r alt_svc close =
    concat (map (\<lambda>l. l @ crlf) (response_lines files date r alt_svc close)) @ crlf @ sent_body r"
  using assms
  by (simp add: format_response_def response_lines_def sent_body_def length_lines_def Let_def
      append_response_headers_eq append_set_cookies_eq)

lemma value_char_line: "header_value_char c \<Longrightarrow> c \<noteq> CHR 0x0D \<and> c \<noteq> CHR 0x0A"
  by (auto simp: header_value_char_def)

lemma name_char_line: "header_name_char c \<Longrightarrow> c \<noteq> CHR 0x0D \<and> c \<noteq> CHR 0x0A \<and> c \<noteq> CHR '':''"
  by (auto simp: header_name_char_def char_between_def)

lemma valid_value_line: "is_valid_header_value v \<Longrightarrow> one_line v"
  using value_char_line by (fastforce simp: is_valid_header_value_def one_line_def list_all_iff)

lemma valid_name_line: "is_valid_header_name k \<Longrightarrow> one_line k"
  using name_char_line by (fastforce simp: is_valid_header_name_def one_line_def list_all_iff)

lemma one_line_append [simp]: "one_line (a @ b) \<longleftrightarrow> one_line a \<and> one_line b"
  by (auto simp: one_line_def)

lemma one_line_dec [simp]: "one_line (dec_string n)" "one_line (int_string i)"
  by (auto simp: one_line_def int_string_def is_digit_def char_between_def dest: dec_string_digits)

lemma one_line_simps [simp]: "one_line []" "one_line (c # s) \<longleftrightarrow> c \<noteq> CHR 0x0D \<and> c \<noteq> CHR 0x0A \<and> one_line s"
  by (auto simp: one_line_def)

lemma response_lines_ok:
  assumes "one_line date" "one_line alt_svc"
  shows "list_all (\<lambda>l. l \<noteq> [] \<and> one_line l) (response_lines files date r alt_svc close)"
proof -
  have "is_valid_reason_phrase (resp_status_text r) \<Longrightarrow> one_line (resp_status_text r)"
    using valid_value_line by (simp add: is_valid_reason_phrase_def is_valid_header_value_def)
  moreover have "list_all (\<lambda>l. l \<noteq> [] \<and> one_line l)
      (map (\<lambda>(k, v). k @ '': '' @ v) (filter emitted_header (field_data (resp_headers r))))"
    using valid_value_line valid_name_line by (auto simp: list_all_iff emitted_header_def)
  moreover have "list_all (\<lambda>l. l \<noteq> [] \<and> one_line l)
      (map (\<lambda>sc. ''Set-Cookie: '' @ sc) (filter is_valid_header_value (set_cookies r)))"
    using valid_value_line by (auto simp: list_all_iff)
  ultimately show ?thesis
    using assms valid_value_line by (simp add: response_lines_def length_lines_def)
qed

lemma head_end:
  assumes "list_all (\<lambda>l. l \<noteq> [] \<and> one_line l) (l # ls)"
  shows "sv_find_str (concat (map (\<lambda>l. l @ crlf) (l # ls)) @ crlf @ body) (crlf @ crlf) =
    Some (length (concat (map (\<lambda>l. l @ crlf) (l # ls))) - 2)"
proof -
  have eq: "concat (map (\<lambda>l. l @ crlf) (l # ls)) = l @ concat (map (\<lambda>l. crlf @ l) ls) @ crlf"
    using crlf_lines [of "\<lambda>l. l" ls] by simp
  have "list_all (\<lambda>l. l \<noteq> [] \<and> CHR 0x0D \<notin> set l) ls" "CHR 0x0D \<notin> set l"
    using assms by (auto simp: list_all_iff one_line_def)
  moreover have "hd (crlf @ crlf) = CHR 0x0D" "crlf \<noteq> []" "length crlf = 2" by (simp_all add: crlf_def)
  ultimately show ?thesis
    using find_head_end [of ls body]
      sv_find_str_skip [of "crlf @ crlf" l "concat (map (\<lambda>l. crlf @ l) ls) @ crlf @ crlf @ body"]
    unfolding eq by simp
qed

lemma ascii_lower_append [simp]: "ascii_lower (a @ b) = ascii_lower a @ ascii_lower b"
  by (simp add: ascii_lower_def)

text \<open>A line whose name is \<open>Content-Length\<close>, in any case.\<close>

definition is_length_line :: "string \<Rightarrow> bool" where
  "is_length_line l \<longleftrightarrow> prefix ''content-length:'' (ascii_lower l)"

lemma lower_char_colon: "lower_char c = CHR '':'' \<Longrightarrow> c = CHR '':''"
proof -
  assume l: "lower_char c = CHR '':''"
  then have b: "byte (lower_char c) = 58" by simp
  show ?thesis
  proof (cases "char_between CHR ''A'' CHR ''Z'' c")
    case True
    then have "byte (lower_char c) = byte c + 32" "65 \<le> byte c"
      by (simp_all add: byte_lower_char char_between_def)
    with b show ?thesis by simp
  next
    case False
    with l show ?thesis by (simp add: lower_char_def)
  qed
qed

lemma takeWhile_append_tail:
  "c \<notin> set xs \<Longrightarrow> takeWhile (\<lambda>x. x \<noteq> c) (xs @ c # u) = xs"
  by (induction xs) auto

lemma emitted_not_length:
  assumes "emitted_header (k, v)"
  shows "\<not> is_length_line (k @ '': '' @ v)"
proof
  assume "is_length_line (k @ '': '' @ v)"
  moreover have "ascii_lower (CHR '':'' # CHR '' '' # v) = CHR '':'' # CHR '' '' # ascii_lower v"
    by (simp add: ascii_lower_def lower_char_def char_between_def)
  ultimately obtain t where t: "ascii_lower k @ CHR '':'' # CHR '' '' # ascii_lower v = ''content-length'' @ CHR '':'' # t"
    by (auto simp: is_length_line_def prefix_def)
  have "CHR '':'' \<notin> set k"
    using assms name_char_line by (auto simp: emitted_header_def is_valid_header_name_def list_all_iff)
  then have k: "CHR '':'' \<notin> set (ascii_lower k)"
    unfolding ascii_lower_def by (metis imageE list.set_map lower_char_colon)
  have "takeWhile (\<lambda>c. c \<noteq> CHR '':'') (ascii_lower k @ CHR '':'' # u) = ascii_lower k" for u
    by (rule takeWhile_append_tail [OF k])
  with arg_cong [OF t, of "takeWhile (\<lambda>c. c \<noteq> CHR '':'')"] have "ascii_lower k = ''content-length''" by simp
  moreover have "ascii_lower ''content-length'' = ''content-length''" by code_simp
  ultimately have "is_response_framing_header k"
    by (simp add: is_response_framing_header_def ascii_iequals_def ascii_ci_equal_iff)
  with assms show False by (simp add: emitted_header_def)
qed


lemma other_not_length:
  "\<not> is_length_line (''HTTP/1.1 '' @ s)" "\<not> is_length_line (''Date: '' @ s)"
  "\<not> is_length_line (''Content-Type: '' @ s)" "\<not> is_length_line (''Set-Cookie: '' @ s)"
  "\<not> is_length_line (''Alt-Svc: '' @ s)" "\<not> is_length_line ''Connection: close''"
  "\<not> is_length_line ''Connection: keep-alive''" "is_length_line (''Content-Length: '' @ s)"
  by (simp_all add: is_length_line_def ascii_lower_def lower_char_def char_between_def) code_simp

lemma response_length_lines: "filter is_length_line (response_lines files date r alt_svc close) = length_lines files r"
proof -
  have "filter is_length_line (map (\<lambda>(k, v). k @ '': '' @ v) (filter emitted_header kvs)) = []" for kvs
    using emitted_not_length by (auto simp: filter_empty_conv)
  moreover have "filter is_length_line (map (\<lambda>sc. ''Set-Cookie: '' @ sc) scs) = []" for scs
    using other_not_length by (auto simp: filter_empty_conv)
  moreover have "filter is_length_line (length_lines files r) = length_lines files r"
    using other_not_length by (simp add: length_lines_def)
  ultimately show ?thesis
    using other_not_length by (simp add: response_lines_def)
qed

text \<open>
  C19: A handler cannot split or reframe a response.  Whatever status text, content type, header
  names and values, cookies and body the response has, the bytes sent are a list of head lines,
  none empty and none with a CR or LF inside, each ended by CRLF, then the blank line, then the
  body; the first blank line is the end of that head; and the only \<open>Content-Length\<close> line is the
  one the server computes, handler fields of that name being dropped.  The date and the
  \<open>Alt-Svc\<close> value come from the server and are taken to be single lines.
\<close>

theorem response_not_split:
  assumes "\<not> is_ws_upgrade r" and "one_line date" and "one_line alt_svc"
  shows "let out = format_response files accept_key date r alt_svc close;
             ls = response_lines files date r alt_svc close;
             head = concat (map (\<lambda>l. l @ crlf) ls)
         in out = head @ crlf @ sent_body r \<and> list_all (\<lambda>l. l \<noteq> [] \<and> one_line l) ls \<and>
            sv_find_str out (crlf @ crlf) = Some (length head - 2) \<and>
            filter is_length_line ls = length_lines files r"
proof -
  obtain l ls where ls: "response_lines files date r alt_svc close = l # ls"
    by (simp add: response_lines_def)
  have ok: "list_all (\<lambda>l. l \<noteq> [] \<and> one_line l) (l # ls)"
    using response_lines_ok [OF assms(2,3), of files r close] unfolding ls .
  show ?thesis
    using head_end [OF ok, of "sent_body r"] ok response_length_lines [of files date r alt_svc close]
    unfolding Let_def format_response_lines [OF assms(1)] ls by blast
qed

definition evil_response :: response where
  "evil_response =
     put_header ''X-Name'' (''a'' @ crlf @ ''Content-Length: 99'' @ crlf @ crlf @ ''<html>'')
       (put_header ''content-LENGTH'' ''7'' (put_header ''X-Ok'' ''1'' (response_text ''hi'' 200)))"

theorem response_not_split_witness:
  "let out = format_response \<lparr>window_size = (\<lambda>_. 0), send_size = (\<lambda>_. 0)\<rparr> (\<lambda>_. []) ''now'' evil_response [] True;
       ls = response_lines \<lparr>window_size = (\<lambda>_. 0), send_size = (\<lambda>_. 0)\<rparr> ''now'' evil_response [] True
   in out = concat (map (\<lambda>l. l @ crlf) ls) @ crlf @ ''hi'' \<and>
      filter is_length_line ls = [''Content-Length: 2''] \<and> length ls = 6"
proof -
  have "\<not> is_ws_upgrade evil_response \<and> one_line ''now'' \<and> one_line []" by code_simp
  moreover have "sent_body evil_response = ''hi''"
    "length_lines \<lparr>window_size = (\<lambda>_. 0), send_size = (\<lambda>_. 0)\<rparr> evil_response = [''Content-Length: 2'']"
    "length (response_lines \<lparr>window_size = (\<lambda>_. 0), send_size = (\<lambda>_. 0)\<rparr> ''now'' evil_response [] True) = 6"
    by code_simp+
  ultimately show ?thesis
    using response_not_split [of evil_response "''now''" "[]" "\<lparr>window_size = (\<lambda>_. 0), send_size = (\<lambda>_. 0)\<rparr>" "\<lambda>_. []" True]
    by (simp add: Let_def)
qed

section \<open>Header parameters, read segment by segment\<close>

lemma unquoted_scan_plain:
  "CHR 0x22 \<notin> set s \<Longrightarrow> c \<notin> set s \<Longrightarrow>
   unquoted_scan c False False i (s @ t) = unquoted_scan c False False (i + length s) t"
  by (induction s arbitrary: i) auto

lemma unquoted_scan_quoted:
  "CHR 0x22 \<notin> set s \<Longrightarrow> CHR 0x5C \<notin> set s \<Longrightarrow>
   unquoted_scan c True False i (s @ CHR 0x22 # t) = unquoted_scan c False False (i + length s + 1) t"
  by (induction s arbitrary: i) auto

text \<open>A segment whose scan for a semicolon runs to its end.\<close>

definition whole_segment :: "string \<Rightarrow> bool" where
  "whole_segment seg \<longleftrightarrow>
     (\<forall>i t. unquoted_scan CHR '';'' False False i (seg @ t) = unquoted_scan CHR '';'' False False (i + length seg) t)"

lemma whole_segment_plain: "CHR 0x22 \<notin> set s \<Longrightarrow> CHR '';'' \<notin> set s \<Longrightarrow> whole_segment s"
  by (simp add: whole_segment_def unquoted_scan_plain)

lemma whole_segment_quoted:
  assumes "CHR 0x22 \<notin> set a" "CHR '';'' \<notin> set a" "CHR 0x22 \<notin> set s" "CHR 0x5C \<notin> set s"
  shows "whole_segment (a @ CHR 0x22 # s @ [CHR 0x22])"
  using assms by (simp add: whole_segment_def unquoted_scan_plain unquoted_scan_quoted add.assoc)

definition params_from :: "string \<Rightarrow> nat \<Rightarrow> header_param list" where
  "params_from hdr p = param_collect (param_read_current \<lparr>par_params = hdr, par_pos = p, par_param = no_param, par_done = True\<rparr>)"

lemma param_read_current_flags:
  "param_read_current \<lparr>par_params = hdr, par_pos = p, par_param = x, par_done = d\<rparr> =
   param_read_current \<lparr>par_params = hdr, par_pos = p, par_param = no_param, par_done = True\<rparr>"
proof (induction "Suc (length hdr) - p" arbitrary: p rule: less_induct)
  case less
  show ?case
  proof (cases "find_unquoted_header_delim hdr CHR '';'' p")
    case None
    then show ?thesis
      using less [of "Suc (length hdr)"]
      by (subst (1 2) param_read_current.simps) (auto simp: Let_def)
  next
    case (Some k)
    then show ?thesis
      using less [of "Suc k"] find_unquoted_less [OF Some]
      by (subst (1 2) param_read_current.simps) (auto simp: Let_def)
  qed
qed

lemma param_collect_read:
  "param_collect \<lparr>par_params = hdr, par_pos = p, par_param = x, par_done = False\<rparr> = x # params_from hdr p"
  by (subst param_collect.simps) (simp add: param_next_def params_from_def param_read_current_flags [of hdr p x])

lemma params_from_segment:
  assumes "whole_segment seg" "trim seg \<noteq> []" "p = length pre"
  shows "params_from (pre @ seg @ CHR '';'' # rest) p =
    header_param_of_segment (trim seg) # params_from (pre @ seg @ CHR '';'' # rest) (p + length seg + 1)"
proof -
  have "find_unquoted_header_delim (pre @ seg @ CHR '';'' # rest) CHR '';'' p = Some (p + length seg)"
    using assms(1,3) by (simp add: find_unquoted_header_delim_def whole_segment_def)
  with assms(2,3) show ?thesis
    by (subst params_from_def, subst param_read_current.simps)
       (simp add: Let_def substr_def param_collect_read)
qed

lemma params_from_last:
  assumes "whole_segment seg" "trim seg \<noteq> []" "p = length pre"
  shows "params_from (pre @ seg) p = [header_param_of_segment (trim seg)]"
proof -
  have "find_unquoted_header_delim (pre @ seg) CHR '';'' p = None"
    using assms(1,3) unfolding whole_segment_def find_unquoted_header_delim_def
    by (metis append.right_neutral append_eq_conv_conj unquoted_scan.simps(1))
  moreover have "params_from (pre @ seg) (Suc (length pre + length seg)) = []"
    by (subst params_from_def, subst param_read_current.simps) (simp add: param_collect.simps)
  ultimately show ?thesis
    using assms(2,3)
    by (subst params_from_def, subst param_read_current.simps)
       (simp add: Let_def substr_from_def param_collect_read)
qed


definition quoted_text :: "string \<Rightarrow> bool" where
  "quoted_text s \<longleftrightarrow> CHR 0x22 \<notin> set s \<and> CHR 0x5C \<notin> set s \<and> one_line s"

definition quoted_param :: "string \<Rightarrow> string \<Rightarrow> string" where
  "quoted_param a s = '' '' @ a @ ''='' @ CHR 0x22 # s @ [CHR 0x22]"

definition plain_name :: "string \<Rightarrow> bool" where
  "plain_name a \<longleftrightarrow> a \<noteq> [] \<and> CHR 0x22 \<notin> set a \<and> CHR '';'' \<notin> set a \<and> CHR ''='' \<notin> set a \<and> list_all (\<lambda>c. \<not> is_ws c) a"

lemma plain_name_trim: "plain_name a \<Longrightarrow> trim a = a"
  by (auto simp: plain_name_def trim_def list_all_iff intro!: trim_with_id)

lemma trim_quoted_param:
  assumes "plain_name a"
  shows "trim (quoted_param a s) = a @ ''='' @ CHR 0x22 # s @ [CHR 0x22]"
proof -
  have "trim (quoted_param a s) = trim (a @ ''='' @ CHR 0x22 # s @ [CHR 0x22])"
    by (simp add: quoted_param_def trim_space)
  also have "\<dots> = a @ ''='' @ CHR 0x22 # s @ [CHR 0x22]"
    unfolding trim_def
    by (rule trim_with_id) (use assms in \<open>auto simp: plain_name_def list_all_iff is_ws_def hd_append\<close>)
  finally show ?thesis .
qed

lemma param_of_quoted:
  assumes "plain_name a"
  shows "header_param_of_segment (trim (quoted_param a s)) =
    \<lparr>param_name = a, param_value = CHR 0x22 # s @ [CHR 0x22], param_has_value = True\<rparr>"
proof -
  have "find_unquoted_header_delim (a @ ''='' @ CHR 0x22 # s @ [CHR 0x22]) CHR ''='' 0 = Some (length a)"
    using assms by (simp add: find_unquoted_header_delim_def plain_name_def unquoted_scan_plain)
  moreover have "trim (CHR 0x22 # s @ [CHR 0x22]) = CHR 0x22 # s @ [CHR 0x22]"
    unfolding trim_def by (rule trim_with_id) (simp_all add: is_ws_def)
  ultimately show ?thesis
    unfolding trim_quoted_param [OF assms]
    by (simp add: header_param_of_segment_def substr_def substr_from_def plain_name_trim [OF assms])
qed

lemma closing_quote_found:
  "CHR 0x22 \<notin> set s \<Longrightarrow> CHR 0x5C \<notin> set s \<Longrightarrow> closing_quote (s @ [CHR 0x22]) i False = Some (i + length s)"
  by (induction s arbitrary: i) auto

lemma param_text_quoted:
  assumes "quoted_text s"
  shows "param_text \<lparr>param_name = a, param_value = CHR 0x22 # s @ [CHR 0x22], param_has_value = True\<rparr> = s"
proof -
  have "trim (CHR 0x22 # s @ [CHR 0x22]) = CHR 0x22 # s @ [CHR 0x22]"
    unfolding trim_def by (rule trim_with_id) (simp_all add: is_ws_def)
  with assms show ?thesis by (simp add: param_text_def quoted_text_def closing_quote_found Let_def)
qed

text \<open>The disposition a browser writes: a name and, for a file, a file name.\<close>

definition form_disposition :: "string \<Rightarrow> string option \<Rightarrow> string" where
  "form_disposition n fo =
     ''form-data;'' @ quoted_param ''name'' n @
     (case fo of None \<Rightarrow> [] | Some f \<Rightarrow> CHR '';'' # quoted_param ''filename'' f)"

lemma plain_names: "plain_name ''name''" "plain_name ''filename''"
  by (simp_all add: plain_name_def is_ws_def)

lemma quoted_param_segment:
  assumes "plain_name a" "quoted_text s"
  shows "whole_segment (quoted_param a s)" "trim (quoted_param a s) \<noteq> []"
proof -
  show "whole_segment (quoted_param a s)"
    using whole_segment_quoted [of "'' '' @ a @ ''=''" s] assms
    by (simp add: quoted_param_def quoted_text_def plain_name_def)
  show "trim (quoted_param a s) \<noteq> []" by (simp add: trim_quoted_param [OF assms(1)])
qed

lemma form_data_segment:
  "whole_segment ''form-data''" "trim ''form-data'' = ''form-data''"
  "header_param_of_segment ''form-data'' = \<lparr>param_name = ''form-data'', param_value = [], param_has_value = False\<rparr>"
proof -
  show "whole_segment ''form-data''" by (rule whole_segment_plain) simp_all
  show "trim ''form-data'' = ''form-data''"
    "header_param_of_segment ''form-data'' = \<lparr>param_name = ''form-data'', param_value = [], param_has_value = False\<rparr>"
    by code_simp+
qed

lemma header_params_from: "header_params h = params_from h 0"
  by (simp add: header_params_def param_begin_def params_from_def)

lemma header_params_disposition:
  assumes n: "quoted_text n" and f: "\<And>f. fo = Some f \<Longrightarrow> quoted_text f"
  shows "header_params (form_disposition n fo) =
    [\<lparr>param_name = ''form-data'', param_value = [], param_has_value = False\<rparr>,
     \<lparr>param_name = ''name'', param_value = CHR 0x22 # n @ [CHR 0x22], param_has_value = True\<rparr>] @
    (case fo of None \<Rightarrow> []
     | Some f \<Rightarrow> [\<lparr>param_name = ''filename'', param_value = CHR 0x22 # f @ [CHR 0x22], param_has_value = True\<rparr>])"
proof -
  note q = quoted_param_segment [OF plain_names(1) n] and p = param_of_quoted [OF plain_names(1)]
  have 1: "header_params (''form-data;'' @ r) =
      \<lparr>param_name = ''form-data'', param_value = [], param_has_value = False\<rparr> # params_from (''form-data;'' @ r) 10" for r
    using params_from_segment [OF form_data_segment(1), of 0 "[]" r] form_data_segment
    by (simp add: header_params_from eval_nat_numeral)
  show ?thesis
  proof (cases fo)
    case None
    then show ?thesis
      using 1 [of "quoted_param ''name'' n"] params_from_last [OF q, of 10 "''form-data;''"]
      by (simp add: form_disposition_def p)
  next
    case (Some g)
    note qf = quoted_param_segment [OF plain_names(2) f [OF Some]]
    have "params_from (''form-data;'' @ quoted_param ''name'' n @ CHR '';'' # quoted_param ''filename'' g)
        (10 + length (quoted_param ''name'' n) + 1) =
      [header_param_of_segment (trim (quoted_param ''filename'' g))]"
      using params_from_last [OF qf, of "length (''form-data;'' @ quoted_param ''name'' n) + 1"
          "''form-data;'' @ quoted_param ''name'' n @ '';''"] by (simp add: eval_nat_numeral)
    with Some show ?thesis
      using 1 [of "quoted_param ''name'' n @ CHR '';'' # quoted_param ''filename'' g"]
        params_from_segment [OF q, of 10 "''form-data;''" "quoted_param ''filename'' g"]
        param_of_quoted [OF plain_names(2), of g]
      by (simp add: form_disposition_def p)
  qed
qed

lemma extract_disposition:
  assumes n: "quoted_text n" and f: "\<And>f. fo = Some f \<Longrightarrow> quoted_text f"
  shows "extract_param (form_disposition n fo) ''name'' = n"
    "extract_param (form_disposition n fo) ''filename'' = (case fo of None \<Rightarrow> [] | Some f \<Rightarrow> f)"
proof -
  have ne: "\<not> ascii_iequals ''name'' ''filename''" "ascii_iequals a a" for a
    by (code_simp, simp add: ascii_iequals_def)
  show "extract_param (form_disposition n fo) ''name'' = n"
    using param_text_quoted [OF n] ne
    by (simp add: extract_param_def header_params_disposition [OF n f])
  show "extract_param (form_disposition n fo) ''filename'' = (case fo of None \<Rightarrow> [] | Some f \<Rightarrow> f)"
    using param_text_quoted f ne
    by (cases fo) (simp_all add: extract_param_def header_params_disposition [OF n f])
qed


section \<open>Multipart bodies, written and read back\<close>

lemma crlf_size: "length crlf = 2"
  by (simp add: crlf_def)

lemma find_after_crlf:
  assumes "n \<noteq> []" "one_line n" "\<not> sublist n c"
  shows "sv_find_str (c @ crlf @ n @ t) n = Some (length c + 2)"
  using assms(3)
proof (induction c)
  case Nil
  have "hd n \<noteq> CHR 0x0D" "hd n \<noteq> CHR 0x0A"
    using assms(1,2) by (cases n; simp)+
  then have "hd n \<notin> set crlf" by (simp add: crlf_def)
  with assms(1) show ?case
    using sv_find_str_first [of n crlf t] by (simp add: crlf_def)
next
  case (Cons x c)
  have "\<not> prefix n ((x # c) @ crlf @ n @ t)"
  proof
    assume "prefix n ((x # c) @ crlf @ n @ t)"
    then consider "prefix n (x # c)" | us where "n = (x # c) @ us" "prefix us (crlf @ n @ t)"
      using prefix_append [of n "x # c" "crlf @ n @ t"] by blast
    then show False
    proof cases
      case 1
      with Cons.prems show False by simp
    next
      case 2
      show False
      proof (cases us)
        case Nil
        with 2 Cons.prems show False by simp
      next
        case (Cons u us')
        with 2(2) have "u = CHR 0x0D" by (simp add: crlf_def)
        with 2(1) Cons assms(2) show False by simp
      qed
    qed
  qed
  moreover have "\<not> sublist n c" using Cons.prems by (simp add: sublist_Cons_right)
  ultimately show ?case using Cons.IH by simp
qed

text \<open>What may follow a delimiter that counts: a line end or the closing dashes.\<close>

definition delim_end :: "string \<Rightarrow> bool" where
  "delim_end t \<longleftrightarrow> (\<exists>u. t = crlf @ u \<or> t = ''--'' @ u)"

lemma delim_end_valid:
  "delim_end t \<Longrightarrow> substr (a @ t) (length a) 2 = ''--'' \<or> substr (a @ t) (length a) 2 = crlf"
  by (auto simp: delim_end_def substr_def crlf_def)

lemma boundary_after_content:
  assumes "n \<noteq> []" "one_line n" "\<not> sublist n c" "delim_end t" "p = length a"
  shows "find_multipart_boundary_line (a @ c @ crlf @ n @ t) n p =
    Some \<lparr>delim_pos = p + length c + 2, content_end = p + length c\<rparr>"
proof -
  let ?b = "a @ c @ crlf @ n @ t"
  have f: "sv_find_str_from ?b n p = Some (p + length c + 2)"
    using find_after_crlf [OF assms(1-3), of t] assms(5) by (simp add: sv_find_str_from_def)
  have s: "substr ?b (p + length c) 2 = crlf"
    using assms(5) by (simp add: substr_def crlf_def)
  have e: "substr ?b (p + length c + 2 + length n) 2 = ''--'' \<or> substr ?b (p + length c + 2 + length n) 2 = crlf"
    using delim_end_valid [OF assms(4), of "a @ c @ crlf @ n"] assms(5) by (simp add: crlf_def add.assoc)
  have "p < length ?b" using assms(1,5) by simp
  then show ?thesis
    using s e by (subst find_multipart_boundary_line.simps) (auto simp: f Let_def)
qed

lemma boundary_at_start:
  assumes "n \<noteq> []" "delim_end t"
  shows "find_multipart_boundary_line (n @ t) n 0 = Some \<lparr>delim_pos = 0, content_end = 0\<rparr>"
proof -
  have "sv_find_str_from (n @ t) n 0 = Some 0"
    using sv_find_str_first [of n "[]" t] assms(1) by (simp add: sv_find_str_from_def)
  then show ?thesis
    using delim_end_valid [OF assms(2), of n] assms(1)
    by (subst find_multipart_boundary_line.simps) (auto simp: Let_def)
qed

text \<open>The header lines of a part, read in order.\<close>

lemma part_header_loop_lines:
  assumes "list_all (\<lambda>l. l \<noteq> [] \<and> one_line l) (l # ls)"
  shows "part_header_loop (a @ l @ concat (map (\<lambda>l. crlf @ l) ls)) (length a) dt =
    foldl (\<lambda>dt l. part_header_line l dt) dt (l # ls)"
  using assms
proof (induction ls arbitrary: a l dt)
  case Nil
  have "sv_find_str l crlf = None"
    using Nil by (intro sv_find_str_none) (auto simp: one_line_def crlf_def)
  with Nil show ?case
    by (subst part_header_loop.simps) (simp add: sv_find_str_from_def substr_from_def)
next
  case (Cons l2 ls)
  let ?rest = "l2 @ concat (map (\<lambda>l. crlf @ l) ls)"
  have "sv_find_str (l @ crlf @ ?rest) crlf = Some (length l)"
    using Cons.prems by (intro sv_find_str_first) (auto simp: one_line_def crlf_def)
  then have f: "sv_find_str_from (a @ l @ crlf @ ?rest) crlf (length a) = Some (length a + length l)"
    by (simp add: sv_find_str_from_def)
  have "part_header_loop (a @ l @ crlf @ ?rest) (length a) dt =
      part_header_loop (a @ l @ crlf @ ?rest) (length (a @ l @ crlf)) (part_header_line l dt)"
    using Cons.prems
    by (subst part_header_loop.simps) (simp add: f substr_def crlf_size add.assoc)
  then show ?case using Cons.IH [of l2 "a @ l @ crlf"] Cons.prems by simp
qed


lemma multipart_loop_part:
  assumes "Suc (p + length n) < length B" "substr B (p + length n) 2 = crlf"
    and "sv_find_str_from B (crlf @ crlf) (p + length n + 2) = Some (p + length n + 2 + d)" "d \<le> kMaxPartHeaderBytes"
    and "find_multipart_boundary_line B n (p + length n + 2 + d + 4) =
      Some \<lparr>delim_pos = z, content_end = p + length n + 2 + d + 4 + m\<rparr>"
    and "part_header_loop (substr B (p + length n + 2) d) 0 ([], ''text/plain'') = (disp, ct)"
  shows "multipart_loop (Suc k) B n p out =
    multipart_loop k B n z (add_part disp ct (substr B (p + length n + 2 + d + 4) m) out)"
proof -
  have "crlf \<noteq> ''--''" by (simp add: crlf_def)
  with assms show ?thesis by (simp add: Let_def)
qed

lemma multipart_step:
  assumes n: "n \<noteq> []" "one_line n" and c: "\<not> sublist n c" and t: "delim_end t"
    and ls: "list_all (\<lambda>l. l \<noteq> [] \<and> one_line l) (l # ls)"
    and h: "h = l @ concat (map (\<lambda>l. crlf @ l) ls)" "length h \<le> kMaxPartHeaderBytes"
    and dt: "foldl (\<lambda>dt l. part_header_line l dt) ([], ''text/plain'') (l # ls) = (disp, ct)"
    and a: "p = length a"
  shows "multipart_loop (Suc k) (a @ n @ crlf @ h @ crlf @ crlf @ c @ crlf @ n @ t) n p out =
    multipart_loop k (a @ n @ crlf @ h @ crlf @ crlf @ c @ crlf @ n @ t) n
      (length (a @ n @ crlf @ h @ crlf @ crlf @ c @ crlf)) (add_part disp ct c out)"
proof -
  let ?b = "a @ n @ crlf @ h @ crlf @ crlf @ c @ crlf @ n @ t"
  let ?q = "p + length n + 2"
  have s: "substr ?b (p + length n) 2 = crlf"
    using a by (simp add: substr_def crlf_size)
  have r: "Suc (p + length n) < length ?b" using a by (simp add: crlf_size)
  have "list_all (\<lambda>l. l \<noteq> [] \<and> CHR 0x0D \<notin> set l) ls" "CHR 0x0D \<notin> set l"
    "hd (crlf @ crlf) = CHR 0x0D" "crlf \<noteq> []"
    using ls by (auto simp: list_all_iff one_line_def crlf_def)
  then have "sv_find_str (h @ crlf @ crlf @ c @ crlf @ n @ t) (crlf @ crlf) = Some (length h)"
    using find_head_end [of ls "c @ crlf @ n @ t"]
      sv_find_str_skip [of "crlf @ crlf" l "concat (map (\<lambda>l. crlf @ l) ls) @ crlf @ crlf @ c @ crlf @ n @ t"]
    by (simp add: h(1))
  then have f: "sv_find_str_from ?b (crlf @ crlf) ?q = Some (?q + length h)"
    using a by (simp add: sv_find_str_from_def crlf_size)
  have b: "find_multipart_boundary_line ?b n (?q + length h + 4) =
      Some \<lparr>delim_pos = ?q + length h + 4 + length c + 2, content_end = ?q + length h + 4 + length c\<rparr>"
    using boundary_after_content [OF n c t, of "?q + length h + 4" "a @ n @ crlf @ h @ crlf @ crlf"] a
    by (simp add: crlf_size)
  have hs: "substr ?b ?q (length h) = h" using a by (simp add: substr_def crlf_size)
  have cs: "substr ?b (?q + length h + 4) (length c) = c" using a by (simp add: substr_def crlf_size)
  have ph: "part_header_loop h 0 ([], ''text/plain'') = (disp, ct)"
    using part_header_loop_lines [OF ls, of "[]"] dt h(1) by simp
  have z: "length (a @ n @ crlf @ h @ crlf @ crlf @ c @ crlf) = ?q + length h + 4 + length c + 2"
    using a by (simp add: crlf_size)
  show ?thesis
    unfolding z by (rule multipart_loop_part [OF r s f h(2) b, unfolded cs, unfolded hs, OF ph])
qed


text \<open>A part of a form: a field, or a file with its name and media type.\<close>

record form_part =
  fp_name :: string
  fp_file :: "(string \<times> string) option"
  fp_content :: string

definition part_lines :: "form_part \<Rightarrow> string list" where
  "part_lines p =
     (''Content-Disposition: '' @ form_disposition (fp_name p) (map_option fst (fp_file p))) #
     (case fp_file p of None \<Rightarrow> [] | Some (_, ct) \<Rightarrow> [''Content-Type: '' @ ct])"

definition render_part :: "string \<Rightarrow> form_part \<Rightarrow> string" where
  "render_part b p =
     (''--'' @ b) @ crlf @ (hd (part_lines p) @ concat (map (\<lambda>l. crlf @ l) (tl (part_lines p)))) @ crlf @ crlf @
     fp_content p @ crlf"

definition render_multipart :: "string \<Rightarrow> form_part list \<Rightarrow> string" where
  "render_multipart b ps = concat (map (render_part b) ps) @ (''--'' @ b) @ ''--'' @ crlf"

definition part_ok :: "string \<Rightarrow> form_part \<Rightarrow> bool" where
  "part_ok b p \<longleftrightarrow>
     quoted_text (fp_name p) \<and> \<not> sublist (''--'' @ b) (fp_content p) \<and>
     length (hd (part_lines p) @ concat (map (\<lambda>l. crlf @ l) (tl (part_lines p)))) \<le> kMaxPartHeaderBytes \<and>
     (case fp_file p of
        None \<Rightarrow> fp_name p \<noteq> []
      | Some (fn, ct) \<Rightarrow> fn \<noteq> [] \<and> quoted_text fn \<and> one_line ct \<and> trim ct = ct)"

definition part_result :: "http_fields \<times> uploaded_file list \<Rightarrow> form_part \<Rightarrow> http_fields \<times> uploaded_file list" where
  "part_result out p =
     (case fp_file p of
        None \<Rightarrow> (fields_emplace_back (fp_name p) (fp_content p) (fst out), snd out)
      | Some (fn, ct) \<Rightarrow> (fst out, snd out @ [uploaded_borrowed (fp_name p) fn ct (fp_content p)]))"

lemma form_disposition_line:
  "one_line (form_disposition n fo) \<longleftrightarrow> one_line n \<and> (case fo of None \<Rightarrow> True | Some f \<Rightarrow> one_line f)"
  by (auto simp: form_disposition_def quoted_param_def split: option.splits)

lemma trim_disposition: "trim (CHR '' '' # form_disposition n fo) = form_disposition n fo"
proof -
  have "last (form_disposition n fo) = CHR 0x22"
    by (cases fo) (simp_all add: form_disposition_def quoted_param_def)
  moreover have "hd (form_disposition n fo) = CHR ''f''" by (simp add: form_disposition_def)
  ultimately show ?thesis
    by (simp add: trim_space) (simp add: trim_def trim_with_id is_ws_def)
qed

lemma part_header_line_key:
  assumes "CHR '':'' \<notin> set k" "is_valid_header_name k"
  shows "part_header_line (k @ CHR '':'' # v) dt =
    (if ascii_iequals k ''content-disposition'' then (trim v, snd dt)
     else if ascii_iequals k ''content-type'' then (fst dt, trim v) else dt)"
  using assms by (simp add: part_header_line_def Let_def)

lemma part_header_lines_read:
  assumes "part_ok b p"
  shows "foldl (\<lambda>dt l. part_header_line l dt) ([], ''text/plain'') (part_lines p) =
    (form_disposition (fp_name p) (map_option fst (fp_file p)),
     case fp_file p of None \<Rightarrow> ''text/plain'' | Some (_, ct) \<Rightarrow> ct)"
proof -
  have names: "is_valid_header_name ''Content-Disposition''" "is_valid_header_name ''Content-Type''"
    "ascii_iequals ''Content-Disposition'' ''content-disposition''"
    "ascii_iequals ''Content-Type'' ''content-type''" "\<not> ascii_iequals ''Content-Type'' ''content-disposition''"
    by code_simp+
  have 1: "part_header_line (''Content-Disposition: '' @ form_disposition n fo) dt = (form_disposition n fo, snd dt)" for n fo dt
    using part_header_line_key [of "''Content-Disposition''" "CHR '' '' # form_disposition n fo" dt] names
    by (simp add: trim_disposition)
  have 2: "part_header_line (''Content-Type: '' @ ct) dt = (fst dt, trim ct)" for ct dt
    using part_header_line_key [of "''Content-Type''" "CHR '' '' # ct" dt] names by (simp add: trim_space)
  show ?thesis
    using assms by (cases "fp_file p") (auto simp: part_lines_def part_ok_def 1 [simplified] 2 [simplified])
qed

lemma add_part_result:
  assumes "part_ok b p"
  shows "add_part (form_disposition (fp_name p) (map_option fst (fp_file p)))
      (case fp_file p of None \<Rightarrow> ''text/plain'' | Some (_, ct) \<Rightarrow> ct) (fp_content p) out = part_result out p"
proof -
  have q: "quoted_text (fp_name p)" "\<And>f. map_option fst (fp_file p) = Some f \<Longrightarrow> quoted_text f"
    using assms by (auto simp: part_ok_def)
  have e: "extract_param (form_disposition (fp_name p) (map_option fst (fp_file p))) ''name'' = fp_name p"
    "extract_param (form_disposition (fp_name p) (map_option fst (fp_file p))) ''filename'' =
       (case map_option fst (fp_file p) of None \<Rightarrow> [] | Some f \<Rightarrow> f)"
    by (rule extract_disposition [OF q], assumption)+
  show ?thesis
    using assms e
    by (cases "fp_file p") (auto simp: add_part_def part_result_def part_ok_def Let_def)
qed

lemma part_lines_ok:
  assumes "part_ok b p"
  shows "list_all (\<lambda>l. l \<noteq> [] \<and> one_line l) (part_lines p)"
  using assms by (cases "fp_file p") (auto simp: part_lines_def part_ok_def form_disposition_line quoted_text_def)

lemma multipart_loop_render:
  assumes "one_line b" "list_all (part_ok b) ps" "length ps \<le> k"
  shows "multipart_loop k (a @ render_multipart b ps) (''--'' @ b) (length a) out = foldl part_result out ps"
  using assms(2,3)
proof (induction ps arbitrary: a k out)
  case Nil
  show ?case
    by (cases k) (simp_all add: render_multipart_def substr_def Let_def)
next
  case (Cons p ps)
  obtain l ls where l: "part_lines p = l # ls" by (simp add: part_lines_def)
  obtain k' where k: "k = Suc k'" "length ps \<le> k'" using Cons.prems(2) by (cases k) auto
  have ok: "part_ok b p" using Cons.prems by simp
  let ?n = "''--'' @ b" and ?h = "l @ concat (map (\<lambda>l. crlf @ l) ls)"
  obtain t where t: "render_multipart b ps = ?n @ t" "delim_end t"
    by (cases ps) (auto simp: render_multipart_def render_part_def delim_end_def)
  have n: "?n \<noteq> []" "one_line ?n" "\<not> sublist ?n (fp_content p)" and len: "length ?h \<le> kMaxPartHeaderBytes"
    using assms(1) ok l by (auto simp: part_ok_def)
  have eq: "a @ render_multipart b (p # ps) = a @ ?n @ crlf @ ?h @ crlf @ crlf @ fp_content p @ crlf @ ?n @ t"
    using t(1) by (simp add: render_multipart_def render_part_def l)
  have eq': "a @ render_multipart b (p # ps) = (a @ ?n @ crlf @ ?h @ crlf @ crlf @ fp_content p @ crlf) @ render_multipart b ps"
    unfolding eq t(1) by simp
  have "multipart_loop (Suc k') (a @ render_multipart b (p # ps)) ?n (length a) out =
      multipart_loop k' (a @ render_multipart b (p # ps)) ?n
        (length (a @ ?n @ crlf @ ?h @ crlf @ crlf @ fp_content p @ crlf)) (part_result out p)"
    unfolding eq add_part_result [OF ok, symmetric]
    by (rule multipart_step [OF n t(2) part_lines_ok [OF ok, unfolded l] refl len
          part_header_lines_read [OF ok, unfolded l] refl])
  also have "\<dots> = foldl part_result (part_result out p) ps"
    unfolding eq' by (rule Cons.IH [OF _ k(2)]) (use Cons.prems in simp)
  finally show ?case by (simp add: k)
qed



end
