(* ===== verification/Route_Match.thy ===== *)
theory Route_Match
  imports Http_Response
begin

text \<open>
  Route patterns (\<open>net/router_match.cxx\<close>, \<open>net/path.cxx\<close>): parsing a pattern such as
  \<open>/users/{id:u64}/files/{*rest}\<close> into segments, matching a request path against the
  segments with its captures, and writing a pattern back.  The matcher is shown equal to a
  reference matcher on the path split at its slashes, a pattern is written back as it was read,
  and a path built from a pattern and arbitrary values is matched with exactly those values.
\<close>

section \<open>Joining a prefix and a path\<close>

definition join_route_path :: "string \<Rightarrow> string \<Rightarrow> string" where
  "join_route_path pfx path =
     (if pfx = [] then path
      else if path = [] then pfx
      else
        let prefix_slash = (last pfx = CHR ''/''); path_slash = (hd path = CHR ''/'')
        in if prefix_slash \<and> path_slash then butlast pfx @ path
           else if \<not> prefix_slash \<and> \<not> path_slash then pfx @ ''/'' @ path
           else pfx @ path)"

section \<open>Patterns\<close>

record segment =
  seg_value :: string
  is_param :: bool
  is_wildcard :: bool

abbreviation literal_segment :: "string \<Rightarrow> segment" where
  "literal_segment v \<equiv> \<lparr>seg_value = v, is_param = False, is_wildcard = False\<rparr>"

record parsed_route_pattern =
  route_error :: "string option"
  route_shape :: string
  route_segments :: "segment list"
  route_params :: "string list"
  route_param_types :: "(string \<times> string) list"

definition is_known_route_type_tag :: "string \<Rightarrow> bool" where
  "is_known_route_type_tag tag \<longleftrightarrow>
     tag = [] \<or> tag = ''string'' \<or> tag = ''u64'' \<or> tag = ''i64'' \<or> tag = ''u32'' \<or> tag = ''i32''"

definition route_fail :: "string \<Rightarrow> parsed_route_pattern \<Rightarrow> parsed_route_pattern" where
  "route_fail msg info = info\<lparr>route_error := Some (''invalid route pattern: '' @ msg)\<rparr>"

text \<open>A name that may carry a type tag: the name, the tag, or the reason it is refused.\<close>

definition split_type_tag :: "string \<Rightarrow> string + string \<times> string" where
  "split_type_tag n =
     (case sv_find n CHR '':'' of
        None \<Rightarrow> Inr (n, [])
      | Some colon \<Rightarrow>
          let type = drop (colon + 1) n
          in if type = [] then Inl ''path parameter type is empty''
             else if \<not> is_known_route_type_tag type
             then Inl (''unknown path parameter type '' @ [CHR 0x27] @ type @ [CHR 0x27])
             else Inr (take colon n, type))"

text \<open>One segment of the loop; \<open>more_follow\<close> is whether a slash ends it.\<close>

definition route_segment :: "string \<Rightarrow> bool \<Rightarrow> parsed_route_pattern \<Rightarrow> parsed_route_pattern" where
  "route_segment seg more_follow info =
     (let open = sv_find seg CHR ''{''; close = sv_find seg CHR ''}'';
          info = info\<lparr>route_shape := route_shape info @ ''/''\<rparr>
      in case (open, close) of
           (None, None) \<Rightarrow>
             info\<lparr>route_shape := route_shape info @ seg,
                  route_segments := route_segments info @ [literal_segment seg]\<rparr>
         | (Some o', Some c') \<Rightarrow>
             if o' > c' then route_fail ''unmatched path parameter braces'' info
             else if o' \<noteq> 0 \<or> c' + 1 \<noteq> length seg
             then route_fail ''path parameter must occupy the full segment'' info
             else
               let n = substr seg 1 (length seg - 2);
                   wildcard = (n \<noteq> [] \<and> hd n = CHR ''*'');
                   n = (if wildcard then tl n else n)
               in if wildcard \<and> more_follow
                  then route_fail ''wildcard parameter must be the final segment'' info
                  else if n = [] then route_fail ''path parameter name is empty'' info
                  else (case split_type_tag n of
                          Inl msg \<Rightarrow> route_fail msg info
                        | Inr (n, type) \<Rightarrow>
                            info\<lparr>route_shape := route_shape info @ (if wildcard then ''{*}'' else ''{}''),
                                 route_segments := route_segments info @
                                   [\<lparr>seg_value = n, is_param = \<not> wildcard, is_wildcard = wildcard\<rparr>],
                                 route_params := route_params info @ [n],
                                 route_param_types := route_param_types info @ [(n, type)]\<rparr>)
         | _ \<Rightarrow> route_fail ''unmatched path parameter braces'' info)"

text \<open>The loop, at the slash at \<open>pos\<close>.\<close>

function route_loop :: "string \<Rightarrow> nat \<Rightarrow> parsed_route_pattern \<Rightarrow> parsed_route_pattern" where
  "route_loop pattern pos info =
     (case sv_find_from pattern CHR ''/'' (pos + 1) of
        None \<Rightarrow> route_segment (substr pattern (pos + 1) (length pattern - pos - 1)) False info
      | Some nxt \<Rightarrow>
          let info = route_segment (substr pattern (pos + 1) (nxt - pos - 1)) True info
          in if route_error info \<noteq> None then info else route_loop pattern nxt info)"
  by pat_completeness auto
termination
  by (relation "measure (\<lambda>(p, pos, i). length p - pos)") (auto dest: sv_find_from_less)

declare route_loop.simps [simp del]

definition parse_route_pattern :: "string \<Rightarrow> parsed_route_pattern" where
  "parse_route_pattern pattern =
     (let info = \<lparr>route_error = None, route_shape = [], route_segments = [], route_params = [],
                  route_param_types = []\<rparr>
      in if pattern = [] \<or> hd pattern \<noteq> CHR ''/'' then route_fail ''path must start with /'' info
         else
           let info = route_loop pattern 0 (info\<lparr>route_segments := [literal_segment []]\<rparr>)
           in if route_error info = None \<and> route_shape info = [] then info\<lparr>route_shape := ''/''\<rparr> else info)"

definition parse_pattern :: "string \<Rightarrow> segment list" where
  "parse_pattern pattern = route_segments (parse_route_pattern pattern)"

definition segment_text :: "segment \<Rightarrow> string" where
  "segment_text seg =
     (if is_wildcard seg then ''{*'' @ seg_value seg @ ''}''
      else if is_param seg then ''{'' @ seg_value seg @ ''}''
      else seg_value seg)"

primrec segments_loop :: "segment list \<Rightarrow> bool \<Rightarrow> string \<Rightarrow> string" where
  "segments_loop [] first out = out"
| "segments_loop (seg # segs) first out =
     (if first \<and> seg_value seg = [] \<and> \<not> is_param seg \<and> \<not> is_wildcard seg then segments_loop segs False out
      else segments_loop segs False (out @ ''/'' @ segment_text seg))"

definition segments_to_pattern :: "segment list \<Rightarrow> string" where
  "segments_to_pattern segs =
     (let out = segments_loop segs True [] in if out = [] then ''/'' else out)"

section \<open>Matching\<close>

definition add_path_param :: "string \<Rightarrow> string \<Rightarrow> http_fields \<Rightarrow> http_fields" where
  "add_path_param n raw_value params =
     (if \<not> url_needs_path_decode raw_value then fields_emplace_back n raw_value params
      else fields_emplace_back n (url_decode_path raw_value) params)"

definition path_part :: "string \<Rightarrow> nat \<Rightarrow> nat option \<Rightarrow> string" where
  "path_part path pos nxt =
     (case nxt of None \<Rightarrow> substr_from path pos | Some n \<Rightarrow> substr path pos (n - pos))"

text \<open>The leading segments before a wildcard: the position reached and the captures.\<close>

primrec wildcard_prefix_loop :: "segment list \<Rightarrow> string \<Rightarrow> nat \<Rightarrow> http_fields \<Rightarrow> (nat \<times> http_fields) option" where
  "wildcard_prefix_loop [] path pos out = Some (pos, out)"
| "wildcard_prefix_loop (s # ss) path pos out =
     (if pos \<ge> length path then None
      else
        let nxt = sv_find_from path CHR ''/'' pos; part = path_part path pos nxt;
            pos' = (case nxt of None \<Rightarrow> length path | Some n \<Rightarrow> n + 1)
        in if nxt = None \<and> ss \<noteq> [] then None
           else if is_param s then wildcard_prefix_loop ss path pos' (add_path_param (seg_value s) part out)
           else if seg_value s \<noteq> part then None
           else wildcard_prefix_loop ss path pos' out)"

primrec segment_match_loop :: "segment list \<Rightarrow> string \<Rightarrow> nat \<Rightarrow> http_fields \<Rightarrow> http_fields option" where
  "segment_match_loop [] path pos out = None"
| "segment_match_loop (s # ss) path pos out =
     (let nxt = sv_find_from path CHR ''/'' pos; part = path_part path pos nxt
      in if \<not> is_param s \<and> seg_value s \<noteq> part then None
         else
           let out = (if is_param s then add_path_param (seg_value s) part out else out)
           in case nxt of
                None \<Rightarrow> if ss = [] then Some out else None
              | Some n \<Rightarrow> segment_match_loop ss path (n + 1) out)"

definition match_segments :: "segment list \<Rightarrow> string \<Rightarrow> http_fields \<Rightarrow> bool \<times> http_fields" where
  "match_segments pattern path out_params =
     (let out = fields_clear out_params
      in if pattern \<noteq> [] \<and> is_wildcard (last pattern)
         then (case wildcard_prefix_loop (butlast pattern) path 0 out of
                 None \<Rightarrow> (False, fields_clear out)
               | Some (pos, out) \<Rightarrow> (True, add_path_param (seg_value (last pattern)) (substr_from path pos) out))
         else (case segment_match_loop pattern path 0 out of
                 None \<Rightarrow> (False, fields_clear out)
               | Some out \<Rightarrow> (True, out)))"

section \<open>The reference matcher\<close>

text \<open>
  The path is split at its slashes.  A segment matches a part when it is a parameter or is
  equal to it; the captures are the decoded parts of the parameters.
\<close>

definition part_matches :: "segment \<Rightarrow> string \<Rightarrow> bool" where
  "part_matches s p \<longleftrightarrow> is_param s \<or> seg_value s = p"

definition captures :: "segment list \<Rightarrow> string list \<Rightarrow> (string \<times> string) list" where
  "captures ss ps = map (\<lambda>(s, p). (seg_value s, url_decode_path p)) (filter (is_param \<circ> fst) (zip ss ps))"

fun join_slash :: "string list \<Rightarrow> string" where
  "join_slash [] = []"
| "join_slash [p] = p"
| "join_slash (p # q # ps) = p @ CHR ''/'' # join_slash (q # ps)"

definition match_parts :: "segment list \<Rightarrow> string list \<Rightarrow> (string \<times> string) list option" where
  "match_parts ss ps =
     (if list_all2 part_matches ss ps then Some (captures ss ps) else None)"

text \<open>
  A wildcard takes what is left after the leading segments.  They may use up the whole path,
  unless the last of them would match an empty part at its very end.
\<close>

definition prefix_ok :: "segment list \<Rightarrow> string list \<Rightarrow> bool" where
  "prefix_ok ss ps \<longleftrightarrow>
     list_all2 part_matches ss (take (length ss) ps) \<and> (length ss = length ps \<longrightarrow> last ps \<noteq> [])"

definition match_wildcard :: "segment list \<Rightarrow> string \<Rightarrow> string list \<Rightarrow> (string \<times> string) list option" where
  "match_wildcard ss n ps =
     (if prefix_ok ss ps
      then Some (captures ss (take (length ss) ps) @ [(n, url_decode_path (join_slash (drop (length ss) ps)))])
      else None)"

definition match_reference :: "segment list \<Rightarrow> string \<Rightarrow> (string \<times> string) list option" where
  "match_reference pattern path =
     (if pattern \<noteq> [] \<and> is_wildcard (last pattern)
      then match_wildcard (butlast pattern) (seg_value (last pattern)) (split_on CHR ''/'' path)
      else match_parts pattern (split_on CHR ''/'' path))"

lemma captures_simps [simp]:
  "captures [] ps = []" "captures ss [] = []"
  "captures (s # ss) (p # ps) = (if is_param s then [(seg_value s, url_decode_path p)] else []) @ captures ss ps"
  by (simp_all add: captures_def)

lemma join_split [simp]: "join_slash (split_on CHR ''/'' s) = s"
proof (induction s)
  case (Cons c s)
  obtain p ps where ps: "split_on CHR ''/'' s = p # ps" by (cases "split_on CHR ''/'' s") auto
  show ?case using Cons ps by (cases ps) auto
qed simp

lemma add_path_param_eq:
  "add_path_param n raw out = out\<lparr>field_data := field_data out @ [(n, url_decode_path raw)]\<rparr>"
  by (simp add: add_path_param_def fields_emplace_back_def url_decode_path_no_escape)

lemma path_step:
  assumes "pos \<le> length path"
  shows "case sv_find_from path CHR ''/'' pos of
      None \<Rightarrow> split_on CHR ''/'' (drop pos path) = [path_part path pos None]
    | Some n \<Rightarrow> n < length path \<and>
        split_on CHR ''/'' (drop pos path) = path_part path pos (Some n) # split_on CHR ''/'' (drop (n + 1) path)"
proof (cases "sv_find (drop pos path) CHR ''/''")
  case None
  then show ?thesis by (simp add: sv_find_from_def path_part_def substr_from_def sv_find_None_iff)
next
  case (Some i)
  note sp = sv_find_split [OF Some]
  have "split_on CHR ''/'' (drop pos path) = take i (drop pos path) # split_on CHR ''/'' (drop (Suc i) (drop pos path))"
    by (subst sp(1), rule split_on_found) (rule sp(2))
  with sp(3) Some show ?thesis
    by (simp add: sv_find_from_def path_part_def substr_def add.commute)
qed

lemma segment_match_loop_eq:
  "pos \<le> length path \<Longrightarrow>
   segment_match_loop ss path pos out =
     map_option (\<lambda>cs. out\<lparr>field_data := field_data out @ cs\<rparr>) (match_parts ss (split_on CHR ''/'' (drop pos path)))"
proof (induction ss arbitrary: pos out)
  case Nil
  then show ?case by (cases "split_on CHR ''/'' (drop pos path)") (auto simp: match_parts_def)
next
  case (Cons s ss)
  show ?case
  proof (cases "sv_find_from path CHR ''/'' pos")
    case None
    with path_step [OF Cons.prems] show ?thesis
      by (cases ss) (auto simp: Let_def match_parts_def part_matches_def add_path_param_eq)
  next
    case (Some n)
    with path_step [OF Cons.prems] have n: "n + 1 \<le> length path"
      "split_on CHR ''/'' (drop pos path) = path_part path pos (Some n) # split_on CHR ''/'' (drop (n + 1) path)"
      by auto
    show ?thesis
      using Some Cons.IH [OF n(1)]
      by (simp add: n(2) Let_def match_parts_def part_matches_def add_path_param_eq)
  qed
qed

lemma prefix_ok_Cons: "ps \<noteq> [] \<Longrightarrow> prefix_ok (s # ss) (p # ps) \<longleftrightarrow> part_matches s p \<and> prefix_ok ss ps"
  by (auto simp: prefix_ok_def)

lemma prefix_ok_last: "prefix_ok (s # ss) [p] \<longleftrightarrow> part_matches s p \<and> ss = [] \<and> p \<noteq> []"
  by (auto simp: prefix_ok_def)

text \<open>The prefix loop from \<open>pos\<close>, against the parts from there.\<close>

definition prefix_result :: "segment list \<Rightarrow> string \<Rightarrow> http_fields \<Rightarrow> string list \<Rightarrow> (nat \<times> http_fields) option \<Rightarrow> bool" where
  "prefix_result ss path out ps r \<longleftrightarrow>
     (case r of
        None \<Rightarrow> \<not> prefix_ok ss ps
      | Some (p, out') \<Rightarrow>
          prefix_ok ss ps \<and> drop p path = join_slash (drop (length ss) ps) \<and>
          out' = out\<lparr>field_data := field_data out @ captures ss (take (length ss) ps)\<rparr>)"

lemma prefix_result_Cons:
  assumes "prefix_result ss path (if is_param s then add_path_param (seg_value s) p out else out) ps r"
    and "part_matches s p" "ps \<noteq> []"
  shows "prefix_result (s # ss) path out (p # ps) r"
  using assms
  by (cases r) (auto simp: prefix_result_def prefix_ok_Cons add_path_param_eq)

lemma wildcard_prefix_loop_eq:
  "pos \<le> length path \<Longrightarrow>
   prefix_result ss path out (split_on CHR ''/'' (drop pos path)) (wildcard_prefix_loop ss path pos out)"
proof (induction ss arbitrary: pos out)
  case Nil
  then show ?case by (simp add: prefix_result_def prefix_ok_def)
next
  case (Cons s ss)
  consider (short) "pos = length path" | (last) "pos < length path" "sv_find_from path CHR ''/'' pos = None"
    | (part) n where "pos < length path" "sv_find_from path CHR ''/'' pos = Some n"
    using Cons.prems by fastforce
  then show ?case
  proof cases
    case short
    then show ?thesis by (simp add: prefix_result_def prefix_ok_last)
  next
    case last
    with path_step [OF Cons.prems] show ?thesis
      by (cases ss) (auto simp: prefix_result_def prefix_ok_last Let_def part_matches_def add_path_param_eq
          path_part_def substr_from_def)
  next
    case part
    let ?p = "path_part path pos (Some n)" and ?ps = "split_on CHR ''/'' (drop (n + 1) path)"
    from part path_step [OF Cons.prems] have n: "n + 1 \<le> length path"
      "split_on CHR ''/'' (drop pos path) = ?p # ?ps" by auto
    show ?thesis
    proof (cases "part_matches s ?p")
      case True
      then have "wildcard_prefix_loop (s # ss) path pos out =
          wildcard_prefix_loop ss path (n + 1) (if is_param s then add_path_param (seg_value s) ?p out else out)"
        using part by (auto simp: Let_def part_matches_def)
      with prefix_result_Cons [OF Cons.IH [OF n(1)] True] show ?thesis
        unfolding n(2) by simp
    next
      case False
      then have "wildcard_prefix_loop (s # ss) path pos out = None"
        using part by (auto simp: Let_def part_matches_def)
      with False show ?thesis by (simp add: n(2) prefix_result_def prefix_ok_Cons)
    qed
  qed
qed

lemma match_segments_eq:
  "match_segments pattern path out =
     (case match_reference pattern path of
        None \<Rightarrow> (False, fields_clear out)
      | Some cs \<Rightarrow> (True, out\<lparr>field_data := cs\<rparr>))"
proof (cases "pattern \<noteq> [] \<and> is_wildcard (last pattern)")
  case True
  then show ?thesis
    using wildcard_prefix_loop_eq [of 0 path "butlast pattern" "fields_clear out"]
    by (cases "wildcard_prefix_loop (butlast pattern) path 0 (fields_clear out)")
       (auto simp: match_segments_def match_reference_def match_wildcard_def prefix_result_def Let_def
        fields_clear_def add_path_param_eq substr_from_def)
next
  case False
  then show ?thesis
    by (auto simp: match_segments_def match_reference_def segment_match_loop_eq Let_def fields_clear_def
        split: option.splits)
qed

text \<open>
  C24: The position-based matcher agrees with the reference on every pattern and path: it accepts
  exactly the paths whose parts the segments match, and its captures are the decoded parts in
  order, nothing left over from an earlier attempt; on a failure no capture remains.
\<close>

theorem match_segments_reference:
  "match_segments pattern path out =
     (case match_reference pattern path of
        None \<Rightarrow> (False, fields_clear out)
      | Some cs \<Rightarrow> (True, out\<lparr>field_data := cs\<rparr>))"
  by (rule match_segments_eq)

section \<open>What a parsed pattern is\<close>

definition typed_text :: "segment \<Rightarrow> string \<Rightarrow> string" where
  "typed_text s t = (let v = seg_value s @ (if t = [] then [] else CHR '':'' # t)
     in segment_text (s\<lparr>seg_value := v\<rparr>))"

text \<open>One parsed segment with its tag, for the text \<open>p\<close> of the pattern.\<close>

definition segment_ok :: "bool \<Rightarrow> string \<Rightarrow> segment \<Rightarrow> string \<Rightarrow> bool" where
  "segment_ok more_follow p s t \<longleftrightarrow>
     p = typed_text s t \<and> is_known_route_type_tag t \<and> \<not> (is_param s \<and> is_wildcard s) \<and>
     (is_wildcard s \<longrightarrow> \<not> more_follow) \<and>
     (if is_param s \<or> is_wildcard s then seg_value s \<noteq> [] \<or> t \<noteq> [] else t = [])"

definition add_segment :: "segment \<Rightarrow> string \<Rightarrow> parsed_route_pattern \<Rightarrow> parsed_route_pattern" where
  "add_segment s t info =
     info\<lparr>route_shape := route_shape info @ ''/'' @
            (if is_wildcard s then ''{*}'' else if is_param s then ''{}'' else seg_value s),
          route_segments := route_segments info @ [s],
          route_params := route_params info @ (if is_param s \<or> is_wildcard s then [seg_value s] else []),
          route_param_types := route_param_types info @ (if is_param s \<or> is_wildcard s then [(seg_value s, t)] else [])\<rparr>"

lemma split_type_tag_ok:
  assumes "split_type_tag n = Inr (m, t)" "n \<noteq> []"
  shows "n = m @ (if t = [] then [] else CHR '':'' # t)" "is_known_route_type_tag t" "m \<noteq> [] \<or> t \<noteq> []"
proof -
  show "n = m @ (if t = [] then [] else CHR '':'' # t)" "is_known_route_type_tag t" "m \<noteq> [] \<or> t \<noteq> []"
    using assms sv_find_split(1) [of n "CHR '':''"]
    by (auto simp: split_type_tag_def Let_def is_known_route_type_tag_def split: option.splits if_splits)
qed

lemma braced:
  assumes "sv_find p CHR ''{'' = Some 0" "sv_find p CHR ''}'' = Some c" "c + 1 = length p"
  shows "p = CHR ''{'' # substr p (Suc 0) (length p - 2) @ [CHR ''}'']"
proof -
  obtain q where q: "p = CHR ''{'' # q" using sv_find_split(1) [OF assms(1)] by simp
  have l: "last p = CHR ''}''"
    using sv_find_split(1) [OF assms(2)] assms(3) by (metis One_nat_def Suc_eq_plus1 drop_all last_snoc order_refl)
  then have "q \<noteq> []" using q by auto
  then have "q = butlast q @ [CHR ''}'']" using l q by (metis append_butlast_last_id last_ConsR)
  then obtain r where "p = CHR ''{'' # r @ [CHR ''}'']" using q by metis
  then show ?thesis by (simp add: substr_def)
qed

text \<open>A segment in braces, with the name it holds.\<close>

lemma route_segment_braced:
  assumes "sv_find p CHR ''{'' = Some 0" "sv_find p CHR ''}'' = Some c" "c + 1 = length p"
    and "p = CHR ''{'' # (if w then ''*'' else []) @ k @ [CHR ''}'']" "\<not> w \<Longrightarrow> k = [] \<or> hd k \<noteq> CHR ''*''"
  shows "route_segment p m info =
    (let info = info\<lparr>route_shape := route_shape info @ ''/''\<rparr>
     in if w \<and> m then route_fail ''wildcard parameter must be the final segment'' info
        else if k = [] then route_fail ''path parameter name is empty'' info
        else case split_type_tag k of
               Inl msg \<Rightarrow> route_fail msg info
             | Inr (v, t) \<Rightarrow> add_segment \<lparr>seg_value = v, is_param = \<not> w, is_wildcard = w\<rparr> t
                 (info\<lparr>route_shape := butlast (route_shape info)\<rparr>))"
proof -
  have n: "substr p 1 (length p - 2) = (if w then ''*'' else []) @ k"
    using assms(4) by (simp add: substr_def)
  show ?thesis
    using assms(1-3,5) unfolding route_segment_def n
    by (cases w) (auto simp: Let_def add_segment_def split: sum.splits)
qed

lemma route_segment_ok:
  assumes "route_error info = None" "route_error (route_segment p m info) = None"
  shows "\<exists>s t. route_segment p m info = add_segment s t info \<and> segment_ok m p s t"
proof (cases "sv_find p CHR ''{''")
  case None
  then have "sv_find p CHR ''}'' = None"
    using assms by (cases "sv_find p CHR ''}''") (simp_all add: route_segment_def Let_def route_fail_def)
  with None have "route_segment p m info = add_segment (literal_segment p) [] info"
    by (simp add: route_segment_def Let_def add_segment_def)
  moreover have "segment_ok m p (literal_segment p) []"
    by (simp add: segment_ok_def typed_text_def segment_text_def is_known_route_type_tag_def)
  ultimately show ?thesis by blast
next
  case (Some i)
  note o = Some
  obtain c where c: "sv_find p CHR ''}'' = Some c"
    using assms Some by (cases "sv_find p CHR ''}''") (simp_all add: route_segment_def Let_def route_fail_def)
  have ic: "i = 0" "c + 1 = length p"
    using assms o c by (auto simp: route_segment_def Let_def route_fail_def split: if_splits)
  define n where "n = substr p (Suc 0) (length p - 2)"
  define w where "w \<longleftrightarrow> n \<noteq> [] \<and> hd n = CHR ''*''"
  define k where "k = (if w then tl n else n)"
  have n: "n = (if w then ''*'' else []) @ k" by (cases n) (auto simp: k_def w_def)
  have p: "p = CHR ''{'' # (if w then ''*'' else []) @ k @ [CHR ''}'']"
    using braced [of p c] o c ic unfolding n_def [symmetric] by (simp add: n)
  note rs = route_segment_braced [OF o [unfolded ic(1)] c ic(2) p, of m info]
  have kw: "\<not> w \<Longrightarrow> k = [] \<or> hd k \<noteq> CHR ''*''" by (auto simp: k_def w_def)
  note rs = rs [OF kw]
  have wm: "\<not> (w \<and> m)" "k \<noteq> []" and "\<nexists>msg. split_type_tag k = Inl msg"
    using assms(2) rs by (auto simp: Let_def route_fail_def split: if_splits sum.splits)
  then obtain v t where k: "split_type_tag k = Inr (v, t)" by (cases "split_type_tag k") auto
  note t = split_type_tag_ok [OF k wm(2)]
  let ?s = "\<lparr>seg_value = v, is_param = \<not> w, is_wildcard = w\<rparr>"
  have "route_segment p m info = add_segment ?s t info"
    using rs wm k by (simp add: Let_def)
  moreover have "segment_ok m p ?s t"
    using t wm by (auto simp: segment_ok_def p typed_text_def segment_text_def Let_def)
  ultimately show ?thesis by blast
qed

lemma add_segment_error [simp]: "route_error (add_segment s t info) = route_error info"
  by (simp add: add_segment_def)

definition tagged_ok :: "(segment \<times> string) list \<Rightarrow> string list \<Rightarrow> bool" where
  "tagged_ok sts ps \<longleftrightarrow>
     sts \<noteq> [] \<and> map (\<lambda>(s, t). typed_text s t) sts = ps \<and>
     list_all (\<lambda>(s, t). segment_ok True (typed_text s t) s t) (butlast sts) \<and>
     segment_ok False (typed_text (fst (last sts)) (snd (last sts))) (fst (last sts)) (snd (last sts))"

lemma route_loop_ok:
  assumes "pos < length pattern" "route_error info = None" "route_error (route_loop pattern pos info) = None"
  shows "\<exists>sts. route_loop pattern pos info = fold (\<lambda>(s, t). add_segment s t) sts info \<and>
    tagged_ok sts (split_on CHR ''/'' (drop (pos + 1) pattern))"
  using assms
proof (induction pattern pos info rule: route_loop.induct)
  case (1 pattern pos info)
  note step = path_step [of "pos + 1" pattern]
  show ?case
  proof (cases "sv_find_from pattern CHR ''/'' (pos + 1)")
    case None
    have part: "substr pattern (pos + 1) (length pattern - pos - 1) = drop (pos + 1) pattern"
      by (simp add: substr_def)
    with None have l: "route_loop pattern pos info = route_segment (drop (pos + 1) pattern) False info"
      by (simp add: route_loop.simps)
    then obtain s t where "route_segment (drop (pos + 1) pattern) False info = add_segment s t info"
      "segment_ok False (drop (pos + 1) pattern) s t"
      using route_segment_ok [OF "1.prems"(2)] "1.prems"(3) by metis
    moreover have "split_on CHR ''/'' (drop (pos + 1) pattern) = [drop (pos + 1) pattern]"
      using step None "1.prems"(1) by (simp add: path_part_def substr_from_def)
    moreover from calculation(2) have "typed_text s t = drop (pos + 1) pattern" by (simp add: segment_ok_def)
    ultimately show ?thesis
      by (intro exI [of _ "[(s, t)]"]) (simp add: l tagged_ok_def)
  next
    case (Some nxt)
    let ?p = "substr pattern (pos + 1) (nxt - pos - 1)"
    have e: "route_error (route_segment ?p True info) = None"
      using "1.prems"(3) Some by (subst (asm) route_loop.simps) (auto simp: Let_def split: if_splits)
    then have l: "route_loop pattern pos info = route_loop pattern nxt (route_segment ?p True info)"
      using Some by (subst route_loop.simps) (simp add: Let_def)
    obtain s t where st: "route_segment ?p True info = add_segment s t info" "segment_ok True ?p s t"
      using route_segment_ok [OF "1.prems"(2) e] by blast
    have n: "nxt < length pattern"
      "split_on CHR ''/'' (drop (pos + 1) pattern) = ?p # split_on CHR ''/'' (drop (nxt + 1) pattern)"
      using step Some "1.prems"(1) by (simp_all add: path_part_def diff_diff_left)
    obtain sts where sts: "route_loop pattern nxt (add_segment s t info) = fold (\<lambda>(s, t). add_segment s t) sts (add_segment s t info)"
      "tagged_ok sts (split_on CHR ''/'' (drop (nxt + 1) pattern))"
      using "1.IH" [OF Some refl _ n(1)] e l "1.prems"(2,3) unfolding st(1) by auto
    have tt: "typed_text s t = ?p" using st(2) by (simp add: segment_ok_def)
    have "tagged_ok ((s, t) # sts) (?p # split_on CHR ''/'' (drop (nxt + 1) pattern))"
      using sts(2) st(2) tt by (simp add: tagged_ok_def)
    with sts(1) show ?thesis
      unfolding n(2) l st(1) by (intro exI [of _ "(s, t) # sts"]) simp
  qed
qed

lemma fold_add_segment:
  "route_error (fold (\<lambda>(s, t). add_segment s t) sts info) = route_error info"
  "route_segments (fold (\<lambda>(s, t). add_segment s t) sts info) = route_segments info @ map fst sts"
  "route_params (fold (\<lambda>(s, t). add_segment s t) sts info) =
     route_params info @ map (seg_value \<circ> fst) (filter (\<lambda>(s, t). is_param s \<or> is_wildcard s) sts)"
  "route_param_types (fold (\<lambda>(s, t). add_segment s t) sts info) =
     route_param_types info @ map (\<lambda>(s, t). (seg_value s, t)) (filter (\<lambda>(s, t). is_param s \<or> is_wildcard s) sts)"
  by (induction sts arbitrary: info) (auto simp: add_segment_def split: if_splits)

lemma parse_route_pattern_ok:
  assumes "route_error (parse_route_pattern p) = None"
  obtains sts q where "p = CHR ''/'' # q" "tagged_ok sts (split_on CHR ''/'' q)"
    "route_segments (parse_route_pattern p) = literal_segment [] # map fst sts"
    "route_params (parse_route_pattern p) = map (seg_value \<circ> fst) (filter (\<lambda>(s, t). is_param s \<or> is_wildcard s) sts)"
    "route_param_types (parse_route_pattern p) =
       map (\<lambda>(s, t). (seg_value s, t)) (filter (\<lambda>(s, t). is_param s \<or> is_wildcard s) sts)"
proof -
  let ?i = "\<lparr>route_error = None, route_shape = [], route_segments = [literal_segment []], route_params = [],
    route_param_types = []\<rparr>"
  obtain q where q: "p = CHR ''/'' # q"
    using assms by (cases p) (auto simp: parse_route_pattern_def route_fail_def Let_def split: if_splits)
  have e: "route_error (route_loop p 0 ?i) = None"
    using assms q by (auto simp: parse_route_pattern_def Let_def split: if_splits)
  then obtain sts where sts: "route_loop p 0 ?i = fold (\<lambda>(s, t). add_segment s t) sts ?i"
    "tagged_ok sts (split_on CHR ''/'' q)"
    using route_loop_ok [of 0 p ?i] q by auto
  show ?thesis
    by (rule that [OF q sts(2)]) (simp_all add: q parse_route_pattern_def Let_def sts(1) [unfolded q] fold_add_segment)
qed

lemma concat_split: "concat (map ((#) c) (split_on c s)) = c # s"
proof (induction s)
  case (Cons x s)
  obtain p ps where "split_on c s = p # ps" by (cases "split_on c s") auto
  with Cons show ?case by auto
qed simp

lemma segments_loop_eq: "segments_loop segs False out = out @ concat (map ((#) CHR ''/'' \<circ> segment_text) segs)"
  by (induction segs arbitrary: out) simp_all

lemma typed_text_plain [simp]: "typed_text s [] = segment_text s"
  by (simp add: typed_text_def)

lemma split_on_parts: "p \<in> set (split_on c s) \<Longrightarrow> c \<notin> set p"
proof (induction s arbitrary: p)
  case (Cons x s)
  obtain q qs where "split_on c s = q # qs" by (cases "split_on c s") auto
  with Cons show ?case by (auto split: if_splits)
qed auto

lemma tagged_ok_elem:
  assumes "tagged_ok sts ps" "(s, t) \<in> set sts"
  shows "\<exists>m. segment_ok m (typed_text s t) s t"
proof -
  have "(s, t) \<in> set (butlast sts @ [last sts])"
    using assms by (simp add: tagged_ok_def)
  then have "(s, t) \<in> set (butlast sts) \<or> (s, t) = last sts" by auto
  then show ?thesis
  proof
    assume "(s, t) \<in> set (butlast sts)"
    with assms(1) show ?thesis by (auto simp: tagged_ok_def list_all_iff)
  next
    assume "(s, t) = last sts"
    with assms(1) show ?thesis unfolding tagged_ok_def by (metis fst_conv snd_conv)
  qed
qed

lemma tagged_ok_segments:
  assumes "tagged_ok sts (split_on CHR ''/'' q)"
  shows "list_all (\<lambda>s. \<not> is_wildcard s) (butlast (map fst sts))"
    and "list_all (\<lambda>s. is_param s \<or> is_wildcard s \<or> CHR ''/'' \<notin> set (seg_value s)) (map fst sts)"
    and "\<not> (is_param (last (map fst sts)) \<and> is_wildcard (last (map fst sts)))"
    and "sts \<noteq> []"
proof -
  show ne: "sts \<noteq> []" using assms by (simp add: tagged_ok_def)
  show "list_all (\<lambda>s. \<not> is_wildcard s) (butlast (map fst sts))"
    using assms by (auto simp: tagged_ok_def list_all_iff segment_ok_def map_butlast [symmetric])
  show "\<not> (is_param (last (map fst sts)) \<and> is_wildcard (last (map fst sts)))"
    using assms ne by (simp add: tagged_ok_def segment_ok_def last_map)
  have "CHR ''/'' \<notin> set (seg_value s)" if "(s, t) \<in> set sts" "\<not> is_param s" "\<not> is_wildcard s" for s t
  proof -
    have "typed_text s t \<in> set (map (\<lambda>(s, t). typed_text s t) sts)" using that(1) by force
    also have "map (\<lambda>(s, t). typed_text s t) sts = split_on CHR ''/'' q"
      using assms by (simp add: tagged_ok_def)
    finally have "CHR ''/'' \<notin> set (typed_text s t)" by (rule split_on_parts)
    with that show ?thesis by (simp add: typed_text_def segment_text_def Let_def)
  qed
  then show "list_all (\<lambda>s. is_param s \<or> is_wildcard s \<or> CHR ''/'' \<notin> set (seg_value s)) (map fst sts)"
    by (auto simp: list_all_iff)
qed

lemma untagged_texts:
  assumes "tagged_ok sts ps" "list_all (\<lambda>(n, t). t = []) (map (\<lambda>(s, t). (seg_value s, t)) (filter (\<lambda>(s, t). is_param s \<or> is_wildcard s) sts))"
  shows "map (segment_text \<circ> fst) sts = ps"
proof -
  have "t = []" if "(s, t) \<in> set sts" for s t
  proof (cases "is_param s \<or> is_wildcard s")
    case True
    with assms(2) that show ?thesis by (auto simp: list_all_iff)
  next
    case False
    with tagged_ok_elem [OF assms(1) that] show ?thesis by (auto simp: segment_ok_def)
  qed
  then have "map (segment_text \<circ> fst) sts = map (\<lambda>(s, t). typed_text s t) sts"
    by (force intro!: map_cong)
  with assms(1) show ?thesis by (simp add: tagged_ok_def)
qed

text \<open>
  A pattern is written back as it was read: for every accepted pattern without type tags,
  \<open>segments_to_pattern\<close> of the parsed segments is the pattern itself, so the route list shows
  what was registered.
\<close>

lemma route_pattern_written_back:
  assumes "route_error (parse_route_pattern p) = None"
    and "list_all (\<lambda>(n, t). t = []) (route_param_types (parse_route_pattern p))"
  shows "segments_to_pattern (parse_pattern p) = p"
proof -
  obtain sts q where q: "p = CHR ''/'' # q" and sts: "tagged_ok sts (split_on CHR ''/'' q)"
    and seg: "route_segments (parse_route_pattern p) = literal_segment [] # map fst sts"
    and "route_params (parse_route_pattern p) = map (seg_value \<circ> fst) (filter (\<lambda>(s, t). is_param s \<or> is_wildcard s) sts)"
    and ty: "route_param_types (parse_route_pattern p) =
       map (\<lambda>(s, t). (seg_value s, t)) (filter (\<lambda>(s, t). is_param s \<or> is_wildcard s) sts)"
    by (rule parse_route_pattern_ok [OF assms(1)])
  have "segments_loop (parse_pattern p) True [] = concat (map ((#) CHR ''/'') (map (segment_text \<circ> fst) sts))"
    unfolding parse_pattern_def seg by (simp add: segments_loop_eq o_def)
  also have "\<dots> = p"
    unfolding untagged_texts [OF sts assms(2) [unfolded ty]] by (simp add: q concat_split)
  finally show ?thesis using q by (simp add: segments_to_pattern_def)
qed

lemma route_pattern_written_back_witness:
  "segments_to_pattern (parse_pattern ''/a//{id}/{*rest}'') = ''/a//{id}/{*rest}''"
proof -
  have "route_error (parse_route_pattern ''/a//{id}/{*rest}'') = None"
    "list_all (\<lambda>(n, t). t = []) (route_param_types (parse_route_pattern ''/a//{id}/{*rest}''))"
    by code_simp+
  then show ?thesis by (rule route_pattern_written_back)
qed

text \<open>The name is looked at before its tag is cut off, so a tag alone leaves an empty name.\<close>

lemma tag_only_name:
  "route_error (parse_route_pattern ''/users/{:u64}'') = None \<and>
   route_params (parse_route_pattern ''/users/{:u64}'') = [[]] \<and>
   route_error (parse_route_pattern ''/users/{}'') \<noteq> None"
  by code_simp

section \<open>Paths built from a pattern\<close>

fun fill_parts :: "segment list \<Rightarrow> string list \<Rightarrow> string list" where
  "fill_parts [] vs = []"
| "fill_parts (s # ss) vs =
     (if is_param s \<or> is_wildcard s
      then url_percent_encode (case vs of [] \<Rightarrow> [] | v # _ \<Rightarrow> v) # fill_parts ss (tl vs)
      else seg_value s # fill_parts ss vs)"

definition route_fill :: "segment list \<Rightarrow> string list \<Rightarrow> string" where
  "route_fill ss vs = join_slash (fill_parts ss vs)"

lemma split_join: "ps \<noteq> [] \<Longrightarrow> list_all (\<lambda>p. CHR ''/'' \<notin> set p) ps \<Longrightarrow> split_on CHR ''/'' (join_slash ps) = ps"
  by (induction ps rule: join_slash.induct) auto

lemma encoded_no_slash: "CHR ''/'' \<notin> set (url_percent_encode v)"
  using url_percent_encode_alphabet [of "CHR ''/''" v] by (auto simp: is_url_unreserved_def char_between_def)

lemma fill_parts_no_slash:
  "list_all (\<lambda>s. is_param s \<or> is_wildcard s \<or> CHR ''/'' \<notin> set (seg_value s)) ss \<Longrightarrow>
   list_all (\<lambda>p. CHR ''/'' \<notin> set p) (fill_parts ss vs)"
  by (induction ss arbitrary: vs) (auto simp: encoded_no_slash)

lemma length_fill_parts [simp]: "length (fill_parts ss vs) = length ss"
  by (induction ss arbitrary: vs) auto

lemma fill_parts_match:
  "list_all (\<lambda>s. \<not> is_wildcard s) ss \<Longrightarrow> length vs = length (filter is_param ss) \<Longrightarrow>
   list_all2 part_matches ss (fill_parts ss (vs @ us)) \<and>
   captures ss (fill_parts ss (vs @ us)) = zip (map seg_value (filter is_param ss)) vs"
proof (induction ss arbitrary: vs)
  case (Cons s ss)
  show ?case
  proof (cases "is_param s")
    case True
    with Cons.prems obtain v ws where "vs = v # ws" by (cases vs) auto
    with True Cons show ?thesis by (simp add: part_matches_def url_path_roundtrip)
  next
    case False
    with Cons show ?thesis by (simp add: part_matches_def)
  qed
qed simp

lemma fill_parts_append:
  "list_all (\<lambda>s. \<not> is_wildcard s) a \<Longrightarrow> length vs = length (filter is_param a) \<Longrightarrow>
   fill_parts (a @ b) (vs @ us) = fill_parts a (vs @ us) @ fill_parts b us"
proof (induction a arbitrary: vs)
  case (Cons s ss)
  show ?case
  proof (cases "is_param s")
    case True
    with Cons.prems obtain v ws where "vs = v # ws" by (cases vs) auto
    with True Cons show ?thesis by simp
  next
    case False
    with Cons show ?thesis by simp
  qed
qed simp

lemma fill_matches:
  assumes "list_all (\<lambda>s. \<not> is_wildcard s) (butlast ss)" "ss \<noteq> []"
    and "list_all (\<lambda>s. is_param s \<or> is_wildcard s \<or> CHR ''/'' \<notin> set (seg_value s)) ss"
    and "length vs = length (filter (\<lambda>s. is_param s \<or> is_wildcard s) ss)"
  shows "match_reference ss (route_fill ss vs) = Some (zip (map seg_value (filter (\<lambda>s. is_param s \<or> is_wildcard s) ss)) vs)"
proof -
  obtain a l where ss: "ss = a @ [l]" using assms(2) by (metis append_butlast_last_id)
  have a: "list_all (\<lambda>s. \<not> is_wildcard s) a" using assms(1) by (simp add: ss)
  then have fa: "filter (\<lambda>s. is_param s \<or> is_wildcard s) a = filter is_param a"
    by (auto simp: list_all_iff intro: filter_cong)
  have sp: "split_on CHR ''/'' (route_fill ss vs) = fill_parts ss vs"
    unfolding route_fill_def using assms(2) fill_parts_no_slash [OF assms(3)]
    by (intro split_join) (auto simp: ss simp flip: length_0_conv)
  show ?thesis
  proof (cases "is_wildcard l")
    case True
    with assms(4) ss fa have "length vs = Suc (length (filter is_param a))" by simp
    then obtain us v where v: "vs = us @ [v]" "length us = length (filter is_param a)"
      by (metis length_append_singleton length_Suc_conv_rev nat.inject)
    have "fill_parts ss vs = fill_parts a vs @ [url_percent_encode v]"
      using fill_parts_append [OF a v(2), of "[l]" "[v]"] True by (simp add: ss v(1))
    then show ?thesis
      using True fill_parts_match [OF a v(2), of "[v]"] unfolding match_reference_def sp
      by (simp add: ss match_wildcard_def prefix_ok_def fa v url_path_roundtrip)
  next
    case False
    have "filter (\<lambda>s. is_param s \<or> is_wildcard s) ss = filter is_param ss" "list_all (\<lambda>s. \<not> is_wildcard s) ss"
      using False a by (auto simp: ss fa)
    then show ?thesis
      using False assms(4) fill_parts_match [of ss vs "[]"] unfolding match_reference_def sp
      by (simp add: match_parts_def) (simp add: ss)
  qed
qed

text \<open>
  A path made from a pattern is routed back to it with the values it was made from.  For every
  accepted pattern and every list of values, one for each parameter, the path in which each
  parameter or wildcard is the percent-encoded value matches the pattern, and the captures are
  the parameter names with the original values, whatever bytes (slashes and percent signs
  included) the values hold.
\<close>

lemma route_fill_matched:
  assumes "route_error (parse_route_pattern p) = None"
    and "length vs = length (route_params (parse_route_pattern p))"
  shows "match_segments (parse_pattern p) (route_fill (parse_pattern p) vs) out =
    (True, out\<lparr>field_data := zip (route_params (parse_route_pattern p)) vs\<rparr>)"
proof -
  obtain sts q where "p = CHR ''/'' # q" and sts: "tagged_ok sts (split_on CHR ''/'' q)"
    and seg: "route_segments (parse_route_pattern p) = literal_segment [] # map fst sts"
    and par: "route_params (parse_route_pattern p) = map (seg_value \<circ> fst) (filter (\<lambda>(s, t). is_param s \<or> is_wildcard s) sts)"
    and "route_param_types (parse_route_pattern p) =
       map (\<lambda>(s, t). (seg_value s, t)) (filter (\<lambda>(s, t). is_param s \<or> is_wildcard s) sts)"
    by (rule parse_route_pattern_ok [OF assms(1)])
  note ok = tagged_ok_segments [OF sts]
  have "map (seg_value \<circ> fst) (filter (\<lambda>(s, t). is_param s \<or> is_wildcard s) sts) =
      map seg_value (filter (\<lambda>s. is_param s \<or> is_wildcard s) (map fst sts))"
    by (simp add: filter_map o_def case_prod_unfold)
  then have par': "route_params (parse_route_pattern p) =
      map seg_value (filter (\<lambda>s. is_param s \<or> is_wildcard s) (parse_pattern p))"
    by (simp add: par parse_pattern_def seg)
  have "match_reference (parse_pattern p) (route_fill (parse_pattern p) vs) =
      Some (zip (route_params (parse_route_pattern p)) vs)"
    unfolding par'
  proof (rule fill_matches)
    show "length vs = length (filter (\<lambda>s. is_param s \<or> is_wildcard s) (parse_pattern p))"
      using assms(2) par' by simp
  qed (use ok in \<open>auto simp: parse_pattern_def seg\<close>)
  then show ?thesis by (simp add: match_segments_eq)
qed

lemma route_fill_matched_witness:
  "match_segments (parse_pattern ''/u/{id}/{*f}'') ''/u/a%2Fb/%25c'' (http_fields_new False) =
     (True, (http_fields_new False)\<lparr>field_data := [(''id'', ''a/b''), (''f'', ''%c'')]\<rparr>)"
proof -
  have "route_error (parse_route_pattern ''/u/{id}/{*f}'') = None"
    "route_params (parse_route_pattern ''/u/{id}/{*f}'') = [''id'', ''f'']"
    "route_fill (parse_pattern ''/u/{id}/{*f}'') [''a/b'', ''%c''] = ''/u/a%2Fb/%25c''"
    by code_simp+
  with route_fill_matched [of "''/u/{id}/{*f}''" "[''a/b'', ''%c'']" "http_fields_new False"] show ?thesis
    by simp
qed

end
