(* ===== verification/Router.thy ===== *)
theory Router
  imports Route_Match
begin

text \<open>
  The router (\<open>net/router.cxx\<close>, \<open>net/router_impl.cxx\<close>, \<open>net/router_dispatch.cxx\<close>): the
  per-method lookup index, registration, the merging iterator over candidate routes, the
  middleware chain with its one-shot continuations, groups, dispatch to handlers with their
  error paths, server-sent-event routes and the selection of asynchronous routes.  Handlers and
  middlewares are arbitrary: a handler is a function of the request and a world of type
  \<open>'w\<close>, which may throw, and a middleware is a program that returns or calls \<open>next\<close>.  Dispatch
  through the index is shown to call the first registered route that matches.
\<close>

section \<open>Handlers and middlewares\<close>

datatype exn = Std_exception string | Other_exception

type_synonym 'w outcome = "(exn + response) \<times> 'w"

type_synonym 'w handler = "request \<Rightarrow> 'w \<Rightarrow> 'w outcome"

text \<open>
  A middleware either returns (or throws) or calls its continuation with a request and goes on
  with what came back; the world it has produced so far is passed along.
\<close>

datatype 'w mw_prog =
    Mw_return "exn + response" 'w
  | Mw_next request 'w "exn + response \<Rightarrow> 'w \<Rightarrow> 'w mw_prog"

type_synonym 'w middleware = "request \<Rightarrow> 'w \<Rightarrow> 'w mw_prog"

definition next_called_twice :: exn where
  "next_called_twice = Std_exception ''middleware next() called more than once''"

text \<open>
  \<open>make_one_shot_next\<close> around the step of \<open>run_middlewares\<close>: the flag of this continuation
  and the index shared by all steps.
\<close>

primrec one_shot_run ::
    "(request \<Rightarrow> nat \<Rightarrow> 'w \<Rightarrow> (exn + response) \<times> nat \<times> 'w) \<Rightarrow> 'w mw_prog \<Rightarrow> bool \<Rightarrow> nat
       \<Rightarrow> (exn + response) \<times> nat \<times> 'w" where
  "one_shot_run step (Mw_return r w) used idx = (r, idx, w)"
| "one_shot_run step (Mw_next q w k) used idx =
     (if used then one_shot_run step (k (Inl next_called_twice) w) used idx
      else case step q idx w of (r, idx', w') \<Rightarrow> one_shot_run step (k r w') True idx')"

text \<open>
  \<open>Step::call\<close>.  The first argument bounds the nesting; every nested call finds a larger index,
  so the number of middlewares is enough.
\<close>

primrec step_call ::
    "nat \<Rightarrow> 'w middleware list \<Rightarrow> 'w handler \<Rightarrow> request \<Rightarrow> nat \<Rightarrow> 'w \<Rightarrow> (exn + response) \<times> nat \<times> 'w" where
  "step_call 0 mws inner r idx w = (case inner r w of (res, w') \<Rightarrow> (res, idx, w'))"
| "step_call (Suc n) mws inner r idx w =
     (if idx = length mws then (case inner r w of (res, w') \<Rightarrow> (res, idx, w'))
      else one_shot_run (step_call n mws inner) ((mws ! idx) r w) False (idx + 1))"

definition run_middlewares :: "'w middleware list \<Rightarrow> 'w handler \<Rightarrow> 'w handler" where
  "run_middlewares mws inner req w =
     (case step_call (length mws) mws inner req 0 w of (res, _, w') \<Rightarrow> (res, w'))"

text \<open>Group middlewares get the handler itself as their continuation.\<close>

primrec mw_run :: "'w handler \<Rightarrow> 'w mw_prog \<Rightarrow> 'w outcome" where
  "mw_run nxt (Mw_return r w) = (r, w)"
| "mw_run nxt (Mw_next q w k) = (case nxt q w of (r, w') \<Rightarrow> mw_run nxt (k r w'))"

section \<open>Routes and their index\<close>

record route_lookup_index =
  ix_generic :: "nat list"
  by_first_literal :: "string \<rightharpoonup> nat list"
  ix_exact :: "string \<rightharpoonup> nat"

record method_route_lookup_index =
  mi_method :: string
  mi_routes :: route_lookup_index

record prepared_route_pattern =
  rt_pattern :: "segment list"
  rt_path_pattern :: string
  rt_exact_path :: string
  rt_has_exact_path :: bool

record 'w route = prepared_route_pattern +
  rt_method :: string
  rt_handler :: "'w handler"

text \<open>The handlers of event-stream and asynchronous routes run elsewhere: numbers name them.\<close>

record sse_route = prepared_route_pattern +
  sr_handler :: nat

record context_route = prepared_route_pattern +
  cr_method :: string
  cr_timeout :: "int option"
  cr_streaming_upload :: bool
  cr_handler :: nat

record 'w router =
  routes :: "'w route list"
  sse_routes :: "sse_route list"
  context_routes :: "context_route list"
  route_indexes :: "method_route_lookup_index list"
  sse_index :: route_lookup_index
  context_route_indexes :: "method_route_lookup_index list"
  middlewares :: "'w middleware list"
  context_middlewares :: "nat list"
  not_found_handler :: "'w handler option"
  error_handler :: "(request \<Rightarrow> string \<Rightarrow> 'w \<Rightarrow> 'w outcome) option"

definition empty_index :: route_lookup_index where
  "empty_index = \<lparr>ix_generic = [], by_first_literal = Map.empty, ix_exact = Map.empty\<rparr>"

definition router_new :: "'w router" where
  "router_new =
     \<lparr>routes = [], sse_routes = [], context_routes = [], route_indexes = [], sse_index = empty_index,
      context_route_indexes = [], middlewares = [], context_middlewares = [],
      not_found_handler = None, error_handler = None\<rparr>"

definition first_literal_key :: "segment list \<Rightarrow> string option" where
  "first_literal_key pattern =
     (let index = (if length pattern > 1 \<and> \<not> is_param (hd pattern) \<and> \<not> is_wildcard (hd pattern) \<and>
                      seg_value (hd pattern) = [] then 1 else 0)
      in if index \<ge> length pattern then None
         else let s = pattern ! index
              in if is_param s \<or> is_wildcard s then None else Some (seg_value s))"

definition first_path_key :: "string \<Rightarrow> string option" where
  "first_path_key path =
     (if path = [] then None
      else let pos = (if hd path = CHR ''/'' then 1 else 0)
           in Some (path_part path pos (sv_find_from path CHR ''/'' pos)))"

definition is_exact_literal_pattern :: "segment list \<Rightarrow> bool" where
  "is_exact_literal_pattern pattern \<longleftrightarrow> \<not> list_ex (\<lambda>s. is_param s \<or> is_wildcard s) pattern"

text \<open>\<open>try_emplace\<close> keeps the first route of a path.\<close>

definition index_route_pattern ::
    "segment list \<Rightarrow> string \<Rightarrow> nat \<Rightarrow> route_lookup_index \<Rightarrow> route_lookup_index" where
  "index_route_pattern pattern exact_path route_index index =
     (let index = (if exact_path \<noteq> [] \<and> ix_exact index exact_path = None
                   then index\<lparr>ix_exact := (ix_exact index)(exact_path \<mapsto> route_index)\<rparr> else index)
      in case first_literal_key pattern of
           Some key \<Rightarrow>
             index\<lparr>by_first_literal := (by_first_literal index)(key \<mapsto>
               (case by_first_literal index key of None \<Rightarrow> [] | Some l \<Rightarrow> l) @ [route_index])\<rparr>
         | None \<Rightarrow> index\<lparr>ix_generic := ix_generic index @ [route_index]\<rparr>)"

definition prepare_route_pattern :: "string \<Rightarrow> string + prepared_route_pattern" where
  "prepare_route_pattern path =
     (let parsed = parse_route_pattern path
      in case route_error parsed of
           Some msg \<Rightarrow> Inl msg
         | None \<Rightarrow>
             let pattern = route_segments parsed; has_exact_path = is_exact_literal_pattern pattern
             in Inr \<lparr>rt_pattern = pattern, rt_path_pattern = segments_to_pattern pattern,
                     rt_exact_path = (if has_exact_path then path else []), rt_has_exact_path = has_exact_path\<rparr>)"

text \<open>\<open>find_or_add_method_index\<close> and the update made through the reference it returns.\<close>

fun update_method_index ::
    "string \<Rightarrow> (route_lookup_index \<Rightarrow> route_lookup_index) \<Rightarrow> method_route_lookup_index list
       \<Rightarrow> method_route_lookup_index list" where
  "update_method_index m f [] = [\<lparr>mi_method = m, mi_routes = f empty_index\<rparr>]"
| "update_method_index m f (ix # ixs) =
     (if mi_method ix = m then ix\<lparr>mi_routes := f (mi_routes ix)\<rparr> # ixs
      else ix # update_method_index m f ixs)"

definition find_method_index :: "method_route_lookup_index list \<Rightarrow> string \<Rightarrow> method_route_lookup_index option" where
  "find_method_index indexes m = List.find (\<lambda>ix. mi_method ix = m) indexes"

datatype http_method = Method_get | Method_post | Method_put | Method_patch | Method_delete | Method_options

fun http_method_name :: "http_method \<Rightarrow> string" where
  "http_method_name Method_get = ''GET''"
| "http_method_name Method_post = ''POST''"
| "http_method_name Method_put = ''PUT''"
| "http_method_name Method_patch = ''PATCH''"
| "http_method_name Method_delete = ''DELETE''"
| "http_method_name Method_options = ''OPTIONS''"

definition add_prepared :: "string \<Rightarrow> string \<Rightarrow> 'w handler \<Rightarrow> 'w router \<Rightarrow> string + 'w router" where
  "add_prepared m path handler rt =
     (case prepare_route_pattern path of
        Inl msg \<Rightarrow> Inl msg
      | Inr p \<Rightarrow>
          Inr (rt\<lparr>route_indexes := update_method_index m
                     (index_route_pattern (rt_pattern p) (rt_exact_path p) (length (routes rt))) (route_indexes rt),
                  routes := routes rt @ [prepared_route_pattern.extend p \<lparr>rt_method = m, rt_handler = handler\<rparr>]\<rparr>))"

definition add_context_prepared ::
    "string \<Rightarrow> string \<Rightarrow> int option \<Rightarrow> nat \<Rightarrow> bool \<Rightarrow> 'w router \<Rightarrow> string + 'w router" where
  "add_context_prepared m path timeout handler streaming_upload rt =
     (case prepare_route_pattern path of
        Inl msg \<Rightarrow> Inl msg
      | Inr p \<Rightarrow>
          Inr (rt\<lparr>context_route_indexes := update_method_index m
                     (index_route_pattern (rt_pattern p) (rt_exact_path p) (length (context_routes rt)))
                     (context_route_indexes rt),
                  context_routes := context_routes rt @
                    [prepared_route_pattern.extend p
                       \<lparr>cr_method = m, cr_timeout = timeout, cr_streaming_upload = streaming_upload,
                        cr_handler = handler\<rparr>]\<rparr>))"

definition sse_prepared :: "string \<Rightarrow> nat \<Rightarrow> 'w router \<Rightarrow> string + 'w router" where
  "sse_prepared path handler rt =
     (case prepare_route_pattern path of
        Inl msg \<Rightarrow> Inl msg
      | Inr p \<Rightarrow>
          Inr (rt\<lparr>sse_index := index_route_pattern (rt_pattern p) (rt_exact_path p) (length (sse_routes rt)) (sse_index rt),
                  sse_routes := sse_routes rt @ [prepared_route_pattern.extend p \<lparr>sr_handler = handler\<rparr>]\<rparr>))"

definition use_prepared :: "'w middleware \<Rightarrow> 'w router \<Rightarrow> 'w router" where
  "use_prepared mw rt = rt\<lparr>middlewares := middlewares rt @ [mw]\<rparr>"

definition use_context_prepared :: "nat \<Rightarrow> 'w router \<Rightarrow> 'w router" where
  "use_context_prepared mw rt = rt\<lparr>context_middlewares := context_middlewares rt @ [mw]\<rparr>"

definition set_not_found_handler :: "'w handler \<Rightarrow> 'w router \<Rightarrow> 'w router" where
  "set_not_found_handler h rt = rt\<lparr>not_found_handler := Some h\<rparr>"

definition set_error_handler :: "(request \<Rightarrow> string \<Rightarrow> 'w \<Rightarrow> 'w outcome) \<Rightarrow> 'w router \<Rightarrow> 'w router" where
  "set_error_handler h rt = rt\<lparr>error_handler := Some h\<rparr>"

definition has_context_routes :: "'w router \<Rightarrow> bool" where
  "has_context_routes rt = (context_routes rt \<noteq> [] \<or> context_middlewares rt \<noteq> [])"

section \<open>Candidates for a path\<close>

record route_lookup_selection =
  sel_exact :: "nat option"
  sel_literal :: "nat list"
  sel_generic :: "nat list"

definition no_selection :: route_lookup_selection where
  "no_selection = \<lparr>sel_exact = None, sel_literal = [], sel_generic = []\<rparr>"

definition select_routes_for_path :: "route_lookup_index \<Rightarrow> string \<Rightarrow> route_lookup_selection" where
  "select_routes_for_path index path =
     \<lparr>sel_exact = ix_exact index path,
      sel_literal =
        (case first_path_key path of
           None \<Rightarrow> []
         | Some key \<Rightarrow> (case by_first_literal index key of None \<Rightarrow> [] | Some l \<Rightarrow> l)),
      sel_generic = ix_generic index\<rparr>"

definition select_method_routes ::
    "method_route_lookup_index list \<Rightarrow> string \<Rightarrow> string \<Rightarrow> route_lookup_selection" where
  "select_method_routes indexes m path =
     (case find_method_index indexes m of
        None \<Rightarrow> no_selection
      | Some ix \<Rightarrow> select_routes_for_path (mi_routes ix) path)"

text \<open>
  The iterator of a range keeps a flag and two cursors.  \<open>current_index\<close> is the least of the
  candidates it points to; the largest \<open>size_t\<close> that the code starts from is above every index.
\<close>

record range_iterator =
  it_exact_done :: bool
  it_literal_pos :: nat
  it_generic_pos :: nat

definition iterator_begin :: range_iterator where
  "iterator_begin = \<lparr>it_exact_done = False, it_literal_pos = 0, it_generic_pos = 0\<rparr>"

definition iterator_done :: "route_lookup_selection \<Rightarrow> range_iterator \<Rightarrow> bool" where
  "iterator_done sel it \<longleftrightarrow>
     (sel_exact sel = None \<or> it_exact_done it) \<and> it_literal_pos it \<ge> length (sel_literal sel) \<and>
     it_generic_pos it \<ge> length (sel_generic sel)"

fun min_opt :: "nat option \<Rightarrow> nat option \<Rightarrow> nat option" where
  "min_opt None b = b"
| "min_opt a None = a"
| "min_opt (Some a) (Some b) = Some (min a b)"

definition at_cursor :: "nat list \<Rightarrow> nat \<Rightarrow> nat option" where
  "at_cursor xs i = (if i < length xs then Some (xs ! i) else None)"

definition current_index :: "route_lookup_selection \<Rightarrow> range_iterator \<Rightarrow> nat option" where
  "current_index sel it =
     min_opt (min_opt (if it_exact_done it then None else sel_exact sel)
        (at_cursor (sel_literal sel) (it_literal_pos it)))
       (at_cursor (sel_generic sel) (it_generic_pos it))"

definition iterator_next :: "route_lookup_selection \<Rightarrow> range_iterator \<Rightarrow> range_iterator" where
  "iterator_next sel it =
     (let current = current_index sel it
      in \<lparr>it_exact_done = (it_exact_done it \<or> (sel_exact sel \<noteq> None \<and> sel_exact sel = current)),
          it_literal_pos = it_literal_pos it +
            (if it_literal_pos it < length (sel_literal sel) \<and> at_cursor (sel_literal sel) (it_literal_pos it) = current then 1 else 0),
          it_generic_pos = it_generic_pos it +
            (if it_generic_pos it < length (sel_generic sel) \<and> at_cursor (sel_generic sel) (it_generic_pos it) = current then 1 else 0)\<rparr>)"

definition iterator_left :: "route_lookup_selection \<Rightarrow> range_iterator \<Rightarrow> nat" where
  "iterator_left sel it =
     (if sel_exact sel = None \<or> it_exact_done it then 0 else 1) +
     (length (sel_literal sel) - it_literal_pos it) + (length (sel_generic sel) - it_generic_pos it)"

lemma min_opt_cases: "min_opt a b = a \<or> min_opt a b = b"
  by (cases a; cases b) (auto simp: min_def)

lemma min_opt_None [simp]: "min_opt a b = None \<longleftrightarrow> a = None \<and> b = None"
  by (cases a; cases b) auto

lemma current_index_cases:
  assumes "\<not> iterator_done sel it"
  obtains "\<not> it_exact_done it" "sel_exact sel \<noteq> None" "current_index sel it = sel_exact sel"
    | "it_literal_pos it < length (sel_literal sel)" "current_index sel it = at_cursor (sel_literal sel) (it_literal_pos it)"
    | "it_generic_pos it < length (sel_generic sel)" "current_index sel it = at_cursor (sel_generic sel) (it_generic_pos it)"
proof -
  let ?e = "if it_exact_done it then None else sel_exact sel" and ?l = "at_cursor (sel_literal sel) (it_literal_pos it)"
    and ?g = "at_cursor (sel_generic sel) (it_generic_pos it)"
  have ne: "current_index sel it \<noteq> None"
    using assms by (auto simp: iterator_done_def current_index_def at_cursor_def)
  have "current_index sel it = ?e \<or> current_index sel it = ?l \<or> current_index sel it = ?g"
    unfolding current_index_def using min_opt_cases [of ?e ?l] min_opt_cases [of "min_opt ?e ?l" ?g] by metis
  then consider "current_index sel it = ?e" | "current_index sel it = ?l" | "current_index sel it = ?g" by blast
  then show thesis
  proof cases
    case 1
    with ne show thesis using that(1) by (cases "it_exact_done it") simp_all
  next
    case 2
    with ne show thesis using that(2) by (auto simp: at_cursor_def split: if_splits)
  next
    case 3
    with ne show thesis using that(3) by (auto simp: at_cursor_def split: if_splits)
  qed
qed

lemma iterator_next_left:
  assumes "\<not> iterator_done sel it"
  shows "iterator_left sel (iterator_next sel it) < iterator_left sel it"
  using assms
  by (rule current_index_cases) (auto simp: iterator_left_def iterator_next_def Let_def not_less)

function range_indices :: "route_lookup_selection \<Rightarrow> range_iterator \<Rightarrow> nat list" where
  "range_indices sel it =
     (if iterator_done sel it then []
      else (case current_index sel it of None \<Rightarrow> [] | Some i \<Rightarrow> [i]) @ range_indices sel (iterator_next sel it))"
  by pat_completeness auto
termination
  by (relation "measure (\<lambda>(sel, it). iterator_left sel it)") (auto intro: iterator_next_left)

declare range_indices.simps [simp del]

text \<open>\<open>selected_request_routes\<close>: HEAD looks at HEAD routes and then at GET routes.\<close>

definition selected_request_routes ::
    "method_route_lookup_index list \<Rightarrow> string \<Rightarrow> string \<Rightarrow> bool \<Rightarrow> nat list" where
  "selected_request_routes indexes m path is_head =
     range_indices (select_method_routes indexes (if is_head then ''HEAD'' else m) path) iterator_begin @
     range_indices (if is_head then select_method_routes indexes ''GET'' path else no_selection) iterator_begin"

section \<open>Dispatch\<close>

definition no_params :: http_fields where "no_params = http_fields_new False"

definition route_matches :: "('a) prepared_route_pattern_scheme \<Rightarrow> string \<Rightarrow> http_fields option" where
  "route_matches route path =
     (if rt_has_exact_path route
      then (if rt_exact_path route = path then Some no_params else None)
      else (case match_segments (rt_pattern route) path no_params of
              (True, ps) \<Rightarrow> Some ps
            | (False, _) \<Rightarrow> None))"

definition should_observe_route :: "request \<Rightarrow> bool" where
  "should_observe_route req = (fields_get (req_params req) ''__conflux_observe_route'' \<noteq> None)"

definition effective_regular_route_method :: "request \<Rightarrow> bool \<Rightarrow> 'w route \<Rightarrow> string" where
  "effective_regular_route_method req is_head route =
     (if is_head \<and> rt_method route = ''GET'' then ''GET'' else req_method req)"

definition can_use_exact_route_request :: "request \<Rightarrow> 'w route \<Rightarrow> http_fields \<Rightarrow> string \<Rightarrow> bool \<Rightarrow> bool" where
  "can_use_exact_route_request req route matched effective_method observe \<longleftrightarrow>
     rt_has_exact_path route \<and> \<not> observe \<and> fields_empty matched \<and> effective_method = req_method req"

definition kJwtAuthoritative :: string where
  "kJwtAuthoritative = ''__conflux_jwt_claims_authoritative''"

definition kJwtClaimParams :: "string list" where
  "kJwtClaimParams = [''jwt_sub'', ''jwt_iss'', ''jwt_payload'']"

definition jwt_claim_overrides :: "request \<Rightarrow> http_fields \<Rightarrow> string \<Rightarrow> bool" where
  "jwt_claim_overrides req matched key \<longleftrightarrow>
     fields_get (req_params req) kJwtAuthoritative \<noteq> None \<and> fields_get (req_params req) key \<noteq> None \<and>
     fields_get matched key \<noteq> None"

text \<open>The parameters a handler sees, before the route pattern is added.\<close>

definition merged_params :: "request \<Rightarrow> http_fields \<Rightarrow> http_fields" where
  "merged_params req matched =
     (let over = jwt_claim_overrides req matched;
          all1 = foldl (\<lambda>ps key. if over key then fields_emplace_back key (the (fields_get (req_params req) key)) ps else ps)
                   no_params kJwtClaimParams;
          all2 = foldl (\<lambda>ps (k, v). if over k then ps else fields_emplace_back k v ps) all1 (field_data matched)
      in foldl (\<lambda>ps (k, v). if k = kJwtAuthoritative \<or> over k then ps else fields_emplace_back k v ps) all2
           (field_data (req_params req)))"

definition route_params_with_matches :: "request \<Rightarrow> http_fields \<Rightarrow> string \<Rightarrow> bool \<Rightarrow> http_fields" where
  "route_params_with_matches req matched route_pattern observe =
     (let all_params = merged_params req matched
      in if observe \<and> fields_get all_params ''__conflux_route_pattern'' = None
         then fields_emplace_back ''__conflux_route_pattern'' route_pattern all_params
         else all_params)"

definition matched_regular_route_view :: "request \<Rightarrow> string \<Rightarrow> http_fields \<Rightarrow> string \<Rightarrow> bool \<Rightarrow> request" where
  "matched_regular_route_view req effective_method matched route_pattern observe =
     req\<lparr>req_method := effective_method,
         req_params := route_params_with_matches req matched route_pattern observe\<rparr>"

definition route_handler_error_response ::
    "request \<Rightarrow> (request \<Rightarrow> string \<Rightarrow> 'w \<Rightarrow> 'w outcome) option \<Rightarrow> exn \<Rightarrow> 'w \<Rightarrow> 'w outcome" where
  "route_handler_error_response req handler ex w =
     (case (handler, ex) of
        (Some h, Std_exception what) \<Rightarrow> h req what w
      | (Some h, Other_exception) \<Rightarrow> h req ''unknown std::exception'' w
      | (None, Std_exception what) \<Rightarrow> (Inr (response_internal_error what), w)
      | (None, Other_exception) \<Rightarrow> (Inr (response_internal_error []), w))"

definition invoke_regular_route_handler ::
    "'w route \<Rightarrow> request \<Rightarrow> bool \<Rightarrow> bool \<Rightarrow> (request \<Rightarrow> string \<Rightarrow> 'w \<Rightarrow> 'w outcome) option \<Rightarrow> 'w \<Rightarrow> 'w outcome" where
  "invoke_regular_route_handler route req is_head observe on_error w =
     (case rt_handler route req w of
        (Inl ex, w') \<Rightarrow> route_handler_error_response req on_error ex w'
      | (Inr resp, w') \<Rightarrow>
          let resp = (if is_head then resp\<lparr>head_only := True\<rparr> else resp);
              resp = (if observe
                      then resp\<lparr>resp_headers := fields_set ''__conflux-route-pattern'' (rt_path_pattern route) (resp_headers resp)\<rparr>
                      else resp)
          in (Inr resp, w'))"

definition dispatch_regular_route ::
    "request \<Rightarrow> string \<Rightarrow> bool \<Rightarrow> 'w route \<Rightarrow> bool \<Rightarrow> (request \<Rightarrow> string \<Rightarrow> 'w \<Rightarrow> 'w outcome) option
       \<Rightarrow> 'w \<Rightarrow> 'w outcome option" where
  "dispatch_regular_route req path is_head route observe on_error w =
     (case route_matches route path of
        None \<Rightarrow> None
      | Some matched \<Rightarrow>
          let m = effective_regular_route_method req is_head route
          in if can_use_exact_route_request req route matched m observe
             then Some (invoke_regular_route_handler route req is_head False on_error w)
             else Some (invoke_regular_route_handler route
                    (matched_regular_route_view req m matched (rt_path_pattern route) observe)
                    is_head observe on_error w))"

text \<open>
  What event-stream routes need from outside: a fresh channel, the work pool, closing a channel.
\<close>

record 'w sse_env =
  new_channel :: "'w \<Rightarrow> nat \<times> 'w"
  enqueue_sse :: "nat \<Rightarrow> request \<Rightarrow> nat \<Rightarrow> 'w \<Rightarrow> bool \<times> 'w"
  close_channel :: "nat \<Rightarrow> 'w \<Rightarrow> 'w"

definition router_launch_sse_handler :: "'w sse_env \<Rightarrow> nat \<Rightarrow> request \<Rightarrow> nat \<Rightarrow> 'w \<Rightarrow> 'w" where
  "router_launch_sse_handler env handler matched channel w =
     (case enqueue_sse env handler matched channel w of
        (ok, w') \<Rightarrow> if \<not> ok then close_channel env channel w' else w')"

definition matched_sse_route_request :: "request \<Rightarrow> http_fields \<Rightarrow> string \<Rightarrow> request" where
  "matched_sse_route_request req matched route_pattern =
     (request_to_owned req)\<lparr>req_params :=
        fields_emplace_back ''__conflux_route_pattern'' route_pattern (merged_params req matched)\<rparr>"

definition launch_sse_route_response ::
    "'w sse_env \<Rightarrow> request \<Rightarrow> sse_route \<Rightarrow> http_fields \<Rightarrow> bool \<Rightarrow> 'w \<Rightarrow> response \<times> 'w" where
  "launch_sse_route_response env req route matched observe w =
     (case new_channel env w of
        (channel, w') \<Rightarrow>
          let w'' = router_launch_sse_handler env (sr_handler route)
                      (matched_sse_route_request req matched (rt_path_pattern route)) channel w';
              resp = response_sse (Some channel)
          in (if observe
              then resp\<lparr>resp_headers := fields_set ''__conflux-route-pattern'' (rt_path_pattern route) (resp_headers resp)\<rparr>
              else resp, w''))"

definition dispatch_sse_route ::
    "'w sse_env \<Rightarrow> request \<Rightarrow> string \<Rightarrow> sse_route \<Rightarrow> bool \<Rightarrow> 'w \<Rightarrow> (response \<times> 'w) option" where
  "dispatch_sse_route env req path route observe w =
     (case route_matches route path of
        None \<Rightarrow> None
      | Some matched \<Rightarrow> Some (launch_sse_route_response env req route matched observe w))"

definition dispatch_not_found :: "request \<Rightarrow> string \<Rightarrow> 'w handler option \<Rightarrow> 'w \<Rightarrow> 'w outcome" where
  "dispatch_not_found req path handler w =
     (case handler of
        Some h \<Rightarrow> h req w
      | None \<Rightarrow> (Inr (response_not_found path), w))"

text \<open>The first result of a loop over routes.\<close>

fun first_some :: "('a \<Rightarrow> 'b option) \<Rightarrow> 'a list \<Rightarrow> 'b option" where
  "first_some f [] = None"
| "first_some f (x # xs) = (case f x of Some y \<Rightarrow> Some y | None \<Rightarrow> first_some f xs)"

definition dispatch_immediate_routes ::
    "'w sse_env \<Rightarrow> request \<Rightarrow> string \<Rightarrow> bool \<Rightarrow> 'w route list \<Rightarrow> sse_route list \<Rightarrow> 'w handler option
       \<Rightarrow> (request \<Rightarrow> string \<Rightarrow> 'w \<Rightarrow> 'w outcome) option \<Rightarrow> 'w \<Rightarrow> response \<times> 'w" where
  "dispatch_immediate_routes env req path is_head rs srs not_found on_error w =
     (let observe = should_observe_route req;
          out = (case first_some (\<lambda>r. dispatch_regular_route req path is_head r observe on_error w) rs of
                   Some o' \<Rightarrow> o'
                 | None \<Rightarrow>
                     (case (if req_method req = ''GET''
                            then first_some (\<lambda>r. dispatch_sse_route env req path r observe w) srs else None) of
                        Some (resp, w') \<Rightarrow> (Inr resp, w')
                      | None \<Rightarrow> dispatch_not_found req path not_found w))
      in case out of
           (Inl _, w') \<Rightarrow> (response_internal_error [], w')
         | (Inr resp, w') \<Rightarrow> (resp, w'))"

definition dispatch_router_sync :: "'w sse_env \<Rightarrow> 'w router \<Rightarrow> request \<Rightarrow> string \<Rightarrow> bool \<Rightarrow> 'w \<Rightarrow> response \<times> 'w" where
  "dispatch_router_sync env rt req path is_head w =
     dispatch_immediate_routes env req path is_head
       (map (\<lambda>i. routes rt ! i) (selected_request_routes (route_indexes rt) (req_method req) path is_head))
       (map (\<lambda>i. sse_routes rt ! i)
          (range_indices (if is_head then no_selection else select_routes_for_path (sse_index rt) path) iterator_begin))
       (not_found_handler rt) (error_handler rt) w"

definition router_dispatch :: "'w sse_env \<Rightarrow> 'w router \<Rightarrow> request \<Rightarrow> 'w \<Rightarrow> 'w outcome" where
  "router_dispatch env rt req w =
     (let is_head = (req_method req = ''HEAD''); path = path_without_query (req_path req);
          inner = (\<lambda>r w. case dispatch_router_sync env rt r path is_head w of (resp, w') \<Rightarrow> (Inr resp, w'))
      in if middlewares rt = [] then inner req w else run_middlewares (middlewares rt) inner req w)"

section \<open>Asynchronous routes\<close>

text \<open>
  The task of an asynchronous route: which handler runs on which request, and what is done to
  its response.  The coroutine itself runs in the work runtime.
\<close>

record deferred_route_task =
  dt_handler :: nat
  dt_request :: request
  dt_pattern :: string
  dt_annotate :: bool
  dt_is_head :: bool
  dt_timeout :: int

definition kDefaultTimeout :: int where "kDefaultTimeout = 30000"

definition context_route_task :: "request \<Rightarrow> bool \<Rightarrow> bool \<Rightarrow> context_route \<Rightarrow> http_fields \<Rightarrow> deferred_route_task" where
  "context_route_task req is_head observe route matched =
     (let params = merged_params req matched;
          pattern = (if observe then rt_path_pattern route else []);
          params = (if observe then fields_emplace_back ''__conflux_route_pattern'' pattern params else params)
      in \<lparr>dt_handler = cr_handler route, dt_request = (request_to_owned req)\<lparr>req_params := params\<rparr>,
          dt_pattern = pattern, dt_annotate = observe, dt_is_head = is_head,
          dt_timeout = (case cr_timeout route of
                          Some t \<Rightarrow> if t > 0 then t else kDefaultTimeout
                        | None \<Rightarrow> kDefaultTimeout)\<rparr>)"

definition context_route_step :: "request \<Rightarrow> bool \<Rightarrow> string \<Rightarrow> bool \<Rightarrow> bool \<Rightarrow> context_route \<Rightarrow> deferred_route_task option" where
  "context_route_step req upload path is_head observe route =
     (if cr_streaming_upload route \<noteq> upload then None
      else case route_matches route path of
             None \<Rightarrow> None
           | Some matched \<Rightarrow> Some (context_route_task req is_head observe route matched))"

definition dispatch_context_route_tasks ::
    "request \<Rightarrow> bool \<Rightarrow> string \<Rightarrow> context_route list \<Rightarrow> bool \<Rightarrow> deferred_route_task option" where
  "dispatch_context_route_tasks req upload path crs is_head =
     (if crs = [] then None
      else let observe = (fields_get (req_params req) ''__conflux_observe_route'' \<noteq> None)
           in first_some (context_route_step req upload path is_head observe) crs)"

definition selected_context_routes :: "'w router \<Rightarrow> request \<Rightarrow> string \<Rightarrow> bool \<Rightarrow> context_route list" where
  "selected_context_routes rt req path is_head =
     map (\<lambda>i. context_routes rt ! i) (selected_request_routes (context_route_indexes rt) (req_method req) path is_head)"

definition has_matching_context_route :: "'w router \<Rightarrow> request \<Rightarrow> bool \<Rightarrow> string \<Rightarrow> bool \<Rightarrow> bool" where
  "has_matching_context_route rt req upload path is_head =
     list_ex (\<lambda>r. cr_streaming_upload r = upload \<and> route_matches r path \<noteq> None)
       (selected_context_routes rt req path is_head)"

text \<open>\<open>run_context_route_task\<close>, from the response its handler gives.\<close>

definition finish_context_response :: "deferred_route_task \<Rightarrow> response \<Rightarrow> response" where
  "finish_context_response t resp =
     (let resp = (if dt_is_head t then resp\<lparr>head_only := True\<rparr> else resp)
      in if dt_annotate t
         then resp\<lparr>resp_headers := fields_set ''__conflux-route-pattern'' (dt_pattern t) (resp_headers resp)\<rparr>
         else resp)"

text \<open>How a task ends, and the registration of its ready callback.\<close>

datatype task_outcome =
    Task_success response
  | Task_cancelled cancel_reason
  | Task_failed
  | Join_threw exn

datatype ready_registration = Ready_installed | Ready_already_ready | Ready_already_installed | Ready_empty

definition complete_ready :: "task_outcome \<Rightarrow> deferred \<Rightarrow> deferred" where
  "complete_ready out d =
     (case out of
        Task_success resp \<Rightarrow> deferred_complete resp d
      | Task_cancelled reason \<Rightarrow>
          if reason = Reason_deadline then deferred_complete response_gateway_timeout d
          else deferred_complete (response_internal_error []) d
      | Task_failed \<Rightarrow> deferred_complete (response_internal_error []) d
      | Join_threw (Std_exception what) \<Rightarrow> deferred_complete (response_internal_error what) d
      | Join_threw Other_exception \<Rightarrow> deferred_complete (response_internal_error []) d)"

text \<open>The deferred response, and whether the task was asked to stop.\<close>

definition router_defer_http_task ::
    "int \<Rightarrow> int \<Rightarrow> nat option \<Rightarrow> ready_registration \<Rightarrow> task_outcome \<Rightarrow> deferred \<times> bool" where
  "router_defer_http_task now timeout control registration out =
     (let d = deferred_attach_cancel control (deferred_new now timeout)
      in case registration of
           Ready_installed \<Rightarrow> (d, False)
         | Ready_already_ready \<Rightarrow> (complete_ready out d, False)
         | Ready_already_installed \<Rightarrow>
             (deferred_complete (response_internal_error ''task already has a ready callback'') d, True)
         | Ready_empty \<Rightarrow> (deferred_complete (response_internal_error ''empty async task'') d, False))"

section \<open>Groups and the list of routes\<close>

record 'w route_group =
  group_prefix :: string
  group_middlewares :: "'w middleware list"

definition group_use :: "'w middleware \<Rightarrow> 'w route_group \<Rightarrow> 'w route_group" where
  "group_use mw g = g\<lparr>group_middlewares := group_middlewares g @ [mw]\<rparr>"

definition group_wrap :: "'w route_group \<Rightarrow> 'w handler \<Rightarrow> 'w handler" where
  "group_wrap g h = foldr (\<lambda>mw n. \<lambda>r w. mw_run n (mw r w)) (group_middlewares g) h"

definition group_add :: "'w route_group \<Rightarrow> string \<Rightarrow> string \<Rightarrow> 'w handler \<Rightarrow> 'w router \<Rightarrow> string + 'w router" where
  "group_add g m path h rt = add_prepared m (join_route_path (group_prefix g) path) (group_wrap g h) rt"

record route_info =
  ri_method :: string
  ri_path_pattern :: string
  ri_path_params :: "string list"

definition append_route_info ::
    "string \<Rightarrow> 'a prepared_route_pattern_scheme \<Rightarrow> route_info list \<Rightarrow> route_info list" where
  "append_route_info m route result =
     result @ [\<lparr>ri_method = m, ri_path_pattern = rt_path_pattern route,
                ri_path_params = map seg_value (filter (\<lambda>s. is_param s \<or> is_wildcard s) (rt_pattern route))\<rparr>]"

definition route_infos :: "'w router \<Rightarrow> route_info list" where
  "route_infos rt =
     (let result = foldl (\<lambda>res r. append_route_info (rt_method r) r res) [] (routes rt);
          result = foldl (\<lambda>res r. append_route_info (cr_method r) r res) result (context_routes rt)
      in foldl (\<lambda>res r. append_route_info ''GET'' r res) result (sse_routes rt))"

section \<open>The iterator visits its candidates in ascending order\<close>

definition remaining :: "route_lookup_selection \<Rightarrow> range_iterator \<Rightarrow> nat set" where
  "remaining sel it =
     (if it_exact_done it then {} else set_option (sel_exact sel)) \<union> set (drop (it_literal_pos it) (sel_literal sel)) \<union>
     set (drop (it_generic_pos it) (sel_generic sel))"

lemma at_cursor_drop:
  "at_cursor xs i = (case drop i xs of [] \<Rightarrow> None | x # _ \<Rightarrow> Some x)"
  by (auto simp: at_cursor_def hd_drop_conv_nth split: list.splits) (metis hd_drop_conv_nth list.sel(1))

lemma drop_cursor_remove:
  assumes "sorted_wrt (<) xs" "\<forall>x\<in>set (drop i xs). c \<le> x"
  shows "set (drop (i + (if i < length xs \<and> at_cursor xs i = Some c then 1 else 0)) xs) = set (drop i xs) - {c}"
proof (cases "drop i xs")
  case Nil
  then show ?thesis by simp
next
  case (Cons y ys)
  then have "i < length xs" by (metis drop_all leI list.distinct(1))
  moreover have "drop (Suc i) xs = ys" using Cons by (metis drop_Suc list.sel(3) tl_drop)
  moreover have "sorted_wrt (<) (y # ys)" using assms(1) Cons by (metis sorted_wrt_drop)
  ultimately show ?thesis
    using Cons assms(2) by (auto simp: at_cursor_drop)
qed

lemma current_index_least:
  assumes "current_index sel it = Some c" "sorted_wrt (<) (sel_literal sel)" "sorted_wrt (<) (sel_generic sel)"
  shows "c \<in> remaining sel it" "\<forall>x\<in>remaining sel it. c \<le> x"
proof -
  have l: "sorted_wrt (<) (drop (it_literal_pos it) (sel_literal sel))"
    and g: "sorted_wrt (<) (drop (it_generic_pos it) (sel_generic sel))"
    using assms(2,3) by (simp_all add: sorted_wrt_drop)
  show "c \<in> remaining sel it" "\<forall>x\<in>remaining sel it. c \<le> x"
    using assms(1) l g unfolding current_index_def remaining_def at_cursor_drop
    by (cases "drop (it_literal_pos it) (sel_literal sel)"; cases "drop (it_generic_pos it) (sel_generic sel)";
        cases "it_exact_done it"; cases "sel_exact sel"; force simp: min_def split: if_splits)+
qed

lemma remaining_next:
  assumes "current_index sel it = Some c" "sorted_wrt (<) (sel_literal sel)" "sorted_wrt (<) (sel_generic sel)"
  shows "remaining sel (iterator_next sel it) = remaining sel it - {c}"
proof -
  note least = current_index_least(2) [OF assms]
  have l: "\<forall>x\<in>set (drop (it_literal_pos it) (sel_literal sel)). c \<le> x"
    and g: "\<forall>x\<in>set (drop (it_generic_pos it) (sel_generic sel)). c \<le> x"
    using least by (auto simp: remaining_def)
  have e: "(if it_exact_done it \<or> sel_exact sel \<noteq> None \<and> sel_exact sel = Some c then {} else set_option (sel_exact sel)) =
      (if it_exact_done it then {} else set_option (sel_exact sel)) - {c}"
    by (cases "sel_exact sel") auto
  show ?thesis
    using drop_cursor_remove [OF assms(2) l] drop_cursor_remove [OF assms(3) g] e
    unfolding remaining_def iterator_next_def assms(1) Let_def by auto
qed

lemma range_indices_sorted:
  assumes "sorted_wrt (<) (sel_literal sel)" "sorted_wrt (<) (sel_generic sel)"
  shows "range_indices sel it = sorted_list_of_set (remaining sel it)"
  using assms
proof (induction sel it rule: range_indices.induct)
  case (1 sel it)
  show ?case
  proof (cases "iterator_done sel it")
    case True
    then have "remaining sel it = {}" by (auto simp: iterator_done_def remaining_def)
    with True show ?thesis by (subst range_indices.simps) simp
  next
    case False
    then obtain c where c: "current_index sel it = Some c"
      by (cases rule: current_index_cases) (auto simp: at_cursor_def)
    note least = current_index_least [OF c "1.prems"]
    have fin: "finite (remaining sel it)" by (auto simp: remaining_def)
    have "Min (remaining sel it) = c" using least fin by (intro Min_eqI) auto
    then have "sorted_list_of_set (remaining sel it) = c # sorted_list_of_set (remaining sel it - {c})"
      using least(1) fin by (subst sorted_list_of_set_nonempty) auto
    with "1.IH" [OF False "1.prems"] remaining_next [OF c "1.prems"] False c show ?thesis
      by (subst range_indices.simps) simp
  qed
qed

section \<open>The index describes the registered routes\<close>

text \<open>The index of the routes that satisfy \<open>P\<close>, among all routes in order.\<close>

definition literal_list :: "route_lookup_index \<Rightarrow> string \<Rightarrow> nat list" where
  "literal_list ix k = (case by_first_literal ix k of None \<Rightarrow> [] | Some l \<Rightarrow> l)"

definition index_ok ::
    "('a prepared_route_pattern_scheme \<Rightarrow> bool) \<Rightarrow> 'a prepared_route_pattern_scheme list \<Rightarrow> route_lookup_index \<Rightarrow> bool" where
  "index_ok P rs ix \<longleftrightarrow>
     ix_generic ix = filter (\<lambda>i. P (rs ! i) \<and> first_literal_key (rt_pattern (rs ! i)) = None) [0..<length rs] \<and>
     (\<forall>k. literal_list ix k = filter (\<lambda>i. P (rs ! i) \<and> first_literal_key (rt_pattern (rs ! i)) = Some k) [0..<length rs]) \<and>
     (\<forall>p i. ix_exact ix p = Some i \<longrightarrow> i < length rs \<and> P (rs ! i))"

lemma index_ok_empty: "index_ok P [] empty_index"
  by (simp add: index_ok_def empty_index_def literal_list_def)

lemma filter_upto_append:
  "filter (\<lambda>i. Q ((rs @ [r]) ! i)) [0..<length rs] = filter (\<lambda>i. Q (rs ! i)) [0..<length rs]"
  by (rule filter_cong) (auto simp: nth_append)

lemma filter_snoc:
  "filter (\<lambda>i. Q ((rs @ [r]) ! i)) [0..<Suc (length rs)] =
     filter (\<lambda>i. Q (rs ! i)) [0..<length rs] @ (if Q r then [length rs] else [])"
  by (simp add: filter_upto_append)

lemma index_ok_other:
  assumes "index_ok P rs ix" "\<not> P r"
  shows "index_ok P (rs @ [r]) ix"
  unfolding index_ok_def length_append_singleton
    filter_snoc [where Q = "\<lambda>x. P x \<and> first_literal_key (rt_pattern x) = None"]
    filter_snoc [where Q = "\<lambda>x. P x \<and> first_literal_key (rt_pattern x) = Some _"]
  using assms by (auto simp: index_ok_def nth_append less_Suc_eq)

lemma index_route_pattern_parts:
  "ix_generic (index_route_pattern pat ep n ix) =
     ix_generic ix @ (if first_literal_key pat = None then [n] else [])"
  "literal_list (index_route_pattern pat ep n ix) k =
     literal_list ix k @ (if first_literal_key pat = Some k then [n] else [])"
  "ix_exact (index_route_pattern pat ep n ix) p = Some i \<Longrightarrow> ix_exact ix p = Some i \<or> i = n"
  by (auto simp: index_route_pattern_def literal_list_def Let_def split: option.splits if_splits)

lemma index_ok_add:
  assumes "index_ok P rs ix" "P r"
  shows "index_ok P (rs @ [r]) (index_route_pattern (rt_pattern r) ep (length rs) ix)"
  unfolding index_ok_def length_append_singleton index_route_pattern_parts(1,2)
    filter_snoc [where Q = "\<lambda>x. P x \<and> first_literal_key (rt_pattern x) = None"]
    filter_snoc [where Q = "\<lambda>x. P x \<and> first_literal_key (rt_pattern x) = Some _"]
  using assms by (auto simp: index_ok_def nth_append less_Suc_eq dest!: index_route_pattern_parts(3))

text \<open>The index of one method, empty when the method has none.\<close>

definition method_index :: "method_route_lookup_index list \<Rightarrow> string \<Rightarrow> route_lookup_index" where
  "method_index ixs m = (case find_method_index ixs m of None \<Rightarrow> empty_index | Some ix \<Rightarrow> mi_routes ix)"

lemma method_index_update:
  "method_index (update_method_index m f ixs) m' = (if m' = m then f (method_index ixs m) else method_index ixs m')"
  by (induction m f ixs rule: update_method_index.induct) (auto simp: method_index_def find_method_index_def)

lemma select_method_index: "select_method_routes ixs m path = select_routes_for_path (method_index ixs m) path"
  by (auto simp: select_method_routes_def method_index_def select_routes_for_path_def no_selection_def
      empty_index_def split: option.splits)

lemma no_selection_indices [simp]: "range_indices no_selection it = []"
  by (subst range_indices.simps) (simp add: iterator_done_def no_selection_def)

text \<open>Each route comes from a pattern that was accepted.\<close>

definition prepared_ok :: "'a prepared_route_pattern_scheme \<Rightarrow> bool" where
  "prepared_ok r \<longleftrightarrow>
     (\<exists>p. route_error (parse_route_pattern p) = None \<and> rt_pattern r = route_segments (parse_route_pattern p) \<and>
          rt_has_exact_path r = is_exact_literal_pattern (rt_pattern r) \<and>
          (rt_has_exact_path r \<longrightarrow> rt_exact_path r = p))"

lemma prepare_ok:
  assumes "prepare_route_pattern path = Inr p"
  shows "prepared_ok (prepared_route_pattern.extend p x)"
  using assms
  by (auto simp: prepare_route_pattern_def prepared_ok_def prepared_route_pattern.defs Let_def split: option.splits)

lemma first_path_key_parts:
  assumes "split_on CHR ''/'' path = [] # p # ps"
  shows "first_path_key path = Some p"
proof -
  obtain q where q: "path = CHR ''/'' # q"
    using assms by (cases path) (auto split: if_splits)
  with assms have "split_on CHR ''/'' (drop 1 path) = p # ps" by simp
  with path_step [of 1 path] q show ?thesis
    by (auto simp: first_path_key_def split: option.splits)
qed

lemma match_reference_head:
  assumes "match_reference (literal_segment [] # s # ss) path \<noteq> None" "\<not> is_param s" "\<not> is_wildcard s"
  shows "first_path_key path = Some (seg_value s)"
proof -
  obtain ps where ps: "split_on CHR ''/'' path = ps" by blast
  have "\<exists>us. ps = [] # seg_value s # us"
  proof (cases "is_wildcard (last (s # ss))")
    case True
    then have "ss \<noteq> []" using assms(3) by auto
    with True assms ps show ?thesis
      by (cases ss; cases ps; cases "tl ps") (auto simp: match_reference_def match_wildcard_def prefix_ok_def part_matches_def split: if_splits)
  next
    case False
    with assms ps show ?thesis
      by (cases ps; cases "tl ps") (auto simp: match_reference_def match_parts_def part_matches_def split: if_splits)
  qed
  with ps show ?thesis using first_path_key_parts by blast
qed

lemma matching_is_candidate:
  assumes "prepared_ok r" "route_matches r path \<noteq> None"
  shows "first_literal_key (rt_pattern r) = None \<or> first_literal_key (rt_pattern r) = first_path_key path"
proof -
  obtain p where p: "route_error (parse_route_pattern p) = None" "rt_pattern r = route_segments (parse_route_pattern p)"
    "rt_has_exact_path r = is_exact_literal_pattern (rt_pattern r)" "rt_has_exact_path r \<longrightarrow> rt_exact_path r = p"
    using assms(1) by (auto simp: prepared_ok_def)
  obtain sts q where q: "p = CHR ''/'' # q" and sts: "tagged_ok sts (split_on CHR ''/'' q)"
    and seg: "route_segments (parse_route_pattern p) = literal_segment [] # map fst sts"
    and "route_params (parse_route_pattern p) = map (seg_value \<circ> fst) (filter (\<lambda>(s, t). is_param s \<or> is_wildcard s) sts)"
    and "route_param_types (parse_route_pattern p) =
       map (\<lambda>(s, t). (seg_value s, t)) (filter (\<lambda>(s, t). is_param s \<or> is_wildcard s) sts)"
    by (rule parse_route_pattern_ok [OF p(1)])
  obtain s t us where st: "sts = (s, t) # us" using sts by (cases sts) (auto simp: tagged_ok_def)
  have pat: "rt_pattern r = literal_segment [] # s # map fst us" using p(2) seg st by simp
  show ?thesis
  proof (cases "is_param s \<or> is_wildcard s")
    case True
    then show ?thesis by (simp add: pat first_literal_key_def)
  next
    case lit: False
    then have key: "first_literal_key (rt_pattern r) = Some (seg_value s)" by (simp add: pat first_literal_key_def)
    show ?thesis
    proof (cases "rt_has_exact_path r")
      case True
      then have path: "path = CHR ''/'' # q" using assms(2) p(4) q by (auto simp: route_matches_def split: if_splits)
      have "typed_text s t = seg_value s"
        using tagged_ok_elem [OF sts, of s t] lit st by (auto simp: segment_ok_def typed_text_def segment_text_def Let_def)
      then have "split_on CHR ''/'' path = [] # seg_value s # map (\<lambda>(s, t). typed_text s t) us"
        using sts st path by (simp add: tagged_ok_def)
      then show ?thesis using first_path_key_parts key by metis
    next
      case False
      then have "match_reference (rt_pattern r) path \<noteq> None"
        using assms(2) by (auto simp: route_matches_def match_segments_eq split: option.splits)
      then show ?thesis using match_reference_head lit key pat by metis
    qed
  qed
qed

section \<open>Dispatch calls the first registered match\<close>

lemma find_filter: "List.find Q xs = (case filter Q xs of [] \<Rightarrow> None | x # _ \<Rightarrow> Some x)"
  by (induction xs) auto

lemma first_some_find:
  "first_some f xs = (case List.find (\<lambda>x. f x \<noteq> None) xs of None \<Rightarrow> None | Some x \<Rightarrow> f x)"
  by (induction xs) (auto split: option.splits)

lemma first_some_map: "first_some f (map g xs) = first_some (f \<circ> g) xs"
  by (induction xs) (auto split: option.splits)

lemma first_some_append:
  "first_some f (xs @ ys) = (case first_some f xs of None \<Rightarrow> first_some f ys | Some y \<Rightarrow> Some y)"
  by (induction xs) (auto split: option.splits)

lemma filter_nth: "filter P rs = map (\<lambda>i. rs ! i) (filter (\<lambda>i. P (rs ! i)) [0..<length rs])"
proof -
  have "filter P rs = filter P (map (\<lambda>i. rs ! i) [0..<length rs])" by (simp add: map_nth)
  then show ?thesis by (simp add: filter_map o_def)
qed

text \<open>The indexed candidates give the same first result as all routes with \<open>P\<close>, in order.\<close>

lemma candidates_first:
  assumes ix: "index_ok P rs ix" and rs: "list_all prepared_ok rs"
    and f: "\<And>r. f r \<noteq> None \<Longrightarrow> route_matches r path \<noteq> None"
  shows "first_some f (map (\<lambda>i. rs ! i) (range_indices (select_routes_for_path ix path) iterator_begin)) =
    first_some f (filter P rs)"
proof -
  let ?sel = "select_routes_for_path ix path"
  let ?R = "remaining ?sel iterator_begin" and ?xs = "range_indices ?sel iterator_begin"
  have gen: "ix_generic ix = filter (\<lambda>i. P (rs ! i) \<and> first_literal_key (rt_pattern (rs ! i)) = None) [0..<length rs]"
    and lit: "\<And>k. literal_list ix k = filter (\<lambda>i. P (rs ! i) \<and> first_literal_key (rt_pattern (rs ! i)) = Some k) [0..<length rs]"
    and ex: "\<And>p i. ix_exact ix p = Some i \<Longrightarrow> i < length rs \<and> P (rs ! i)"
    using ix by (auto simp: index_ok_def)
  have sl: "sel_literal ?sel = (case first_path_key path of None \<Rightarrow> [] | Some k \<Rightarrow> literal_list ix k)"
    by (simp add: select_routes_for_path_def literal_list_def split: option.splits)
  have sorted: "sorted_wrt (<) (sel_literal ?sel)" "sorted_wrt (<) (sel_generic ?sel)"
    unfolding sl by (auto simp: select_routes_for_path_def gen lit sorted_wrt_filter split: option.splits)
  have xs: "?xs = sorted_list_of_set ?R" by (rule range_indices_sorted [OF sorted])
  have fin: "finite ?R" by (simp add: remaining_def)
  have R: "?R = set_option (ix_exact ix path) \<union> set (sel_literal ?sel) \<union> set (ix_generic ix)"
    by (auto simp: remaining_def iterator_begin_def select_routes_for_path_def)
  have sub: "?R \<subseteq> {i. i < length rs \<and> P (rs ! i)}"
    unfolding R sl using ex by (auto simp: gen lit split: option.splits)
  have sup: "{i. i < length rs \<and> P (rs ! i) \<and> f (rs ! i) \<noteq> None} \<subseteq> ?R"
  proof
    fix i
    assume i: "i \<in> {i. i < length rs \<and> P (rs ! i) \<and> f (rs ! i) \<noteq> None}"
    then have "prepared_ok (rs ! i)" using rs by (auto simp: list_all_length)
    with matching_is_candidate f i have "first_literal_key (rt_pattern (rs ! i)) = None \<or>
        first_literal_key (rt_pattern (rs ! i)) = first_path_key path" by blast
    with i show "i \<in> ?R" unfolding R sl by (cases "first_literal_key (rt_pattern (rs ! i))") (auto simp: gen lit)
  qed
  let ?F = "\<lambda>i. f (rs ! i) \<noteq> None" and ?ys = "filter (\<lambda>i. P (rs ! i)) [0..<length rs]"
  have "filter ?F ?xs = filter ?F ?ys"
  proof (rule sorted_distinct_set_unique)
    show "set (filter ?F ?xs) = set (filter ?F ?ys)" using sub sup fin by (auto simp: xs)
  qed (use fin in \<open>auto simp: xs intro!: sorted_wrt_filter\<close>)
  then have "first_some (f \<circ> (\<lambda>i. rs ! i)) ?xs = first_some (f \<circ> (\<lambda>i. rs ! i)) ?ys"
    by (simp add: first_some_find find_filter)
  then show ?thesis by (simp add: first_some_map filter_nth [of P rs])
qed

datatype 'w router_command =
    Cmd_add string string "'w handler"
  | Cmd_context string string "int option" nat bool
  | Cmd_sse string nat
  | Cmd_use "'w middleware"
  | Cmd_use_context nat
  | Cmd_not_found "'w handler"
  | Cmd_error "request \<Rightarrow> string \<Rightarrow> 'w \<Rightarrow> 'w outcome"

text \<open>A registration that throws leaves the router as it was.\<close>

fun router_exec :: "'w router_command \<Rightarrow> 'w router \<Rightarrow> 'w router" where
  "router_exec (Cmd_add m path h) rt = (case add_prepared m path h rt of Inl _ \<Rightarrow> rt | Inr rt' \<Rightarrow> rt')"
| "router_exec (Cmd_context m path t h up) rt =
     (case add_context_prepared m path t h up rt of Inl _ \<Rightarrow> rt | Inr rt' \<Rightarrow> rt')"
| "router_exec (Cmd_sse path h) rt = (case sse_prepared path h rt of Inl _ \<Rightarrow> rt | Inr rt' \<Rightarrow> rt')"
| "router_exec (Cmd_use mw) rt = use_prepared mw rt"
| "router_exec (Cmd_use_context mw) rt = use_context_prepared mw rt"
| "router_exec (Cmd_not_found h) rt = set_not_found_handler h rt"
| "router_exec (Cmd_error h) rt = set_error_handler h rt"

definition router_ok :: "'w router \<Rightarrow> bool" where
  "router_ok rt \<longleftrightarrow>
     list_all prepared_ok (routes rt) \<and> list_all prepared_ok (sse_routes rt) \<and> list_all prepared_ok (context_routes rt) \<and>
     (\<forall>m. index_ok (\<lambda>r. rt_method r = m) (routes rt) (method_index (route_indexes rt) m)) \<and>
     index_ok (\<lambda>r. True) (sse_routes rt) (sse_index rt) \<and>
     (\<forall>m. index_ok (\<lambda>r. cr_method r = m) (context_routes rt) (method_index (context_route_indexes rt) m))"

lemma extend_pattern [simp]:
  "rt_pattern (prepared_route_pattern.extend p x) = rt_pattern p"
  by (simp add: prepared_route_pattern.defs)

lemma extend_methods [simp]:
  "rt_method (prepared_route_pattern.extend p \<lparr>rt_method = m, rt_handler = h\<rparr>) = m"
  "cr_method (prepared_route_pattern.extend p \<lparr>cr_method = m, cr_timeout = t, cr_streaming_upload = u, cr_handler = n\<rparr>) = m"
  by (simp_all add: prepared_route_pattern.defs)

lemma method_index_ok:
  assumes "\<forall>m. index_ok (\<lambda>r. meth r = m) rs (method_index ixs m)" "meth r = m'" "rt_pattern r = pat"
  shows "\<forall>m. index_ok (\<lambda>r. meth r = m) (rs @ [r])
    (method_index (update_method_index m' (index_route_pattern pat ep (length rs)) ixs) m)"
proof
  fix m
  show "index_ok (\<lambda>r. meth r = m) (rs @ [r]) (method_index (update_method_index m' (index_route_pattern pat ep (length rs)) ixs) m)"
  proof (cases "m = m'")
    case True
    with assms index_ok_add [of "\<lambda>r. meth r = m" rs "method_index ixs m" r ep] show ?thesis
      by (simp add: method_index_update)
  next
    case False
    with assms index_ok_other [of "\<lambda>r. meth r = m" rs "method_index ixs m" r] show ?thesis
      by (simp add: method_index_update)
  qed
qed

lemma router_ok_new: "router_ok router_new"
  by (simp add: router_ok_def router_new_def method_index_def find_method_index_def index_ok_empty)

lemma router_ok_add: "router_ok rt \<Longrightarrow> add_prepared m path h rt = Inr rt' \<Longrightarrow> router_ok rt'"
  by (auto simp: add_prepared_def router_ok_def prepare_ok intro!: method_index_ok [rule_format] split: sum.splits)

lemma router_ok_context: "router_ok rt \<Longrightarrow> add_context_prepared m path t h up rt = Inr rt' \<Longrightarrow> router_ok rt'"
  by (auto simp: add_context_prepared_def router_ok_def prepare_ok intro!: method_index_ok [rule_format] split: sum.splits)

lemma router_ok_sse: "router_ok rt \<Longrightarrow> sse_prepared path h rt = Inr rt' \<Longrightarrow> router_ok rt'"
  using index_ok_add [of "\<lambda>r. True" "sse_routes rt" "sse_index rt"]
  by (auto simp: sse_prepared_def router_ok_def prepare_ok split: sum.splits)
     (metis extend_pattern)

lemma router_exec_ok: "router_ok rt \<Longrightarrow> router_ok (router_exec c rt)"
proof (cases c)
  case (Cmd_add m path h)
  assume "router_ok rt"
  with Cmd_add show ?thesis by (auto split: sum.splits dest: router_ok_add)
next
  case (Cmd_context m path t h up)
  assume "router_ok rt"
  with Cmd_context show ?thesis by (auto split: sum.splits dest: router_ok_context)
next
  case (Cmd_sse path h)
  assume "router_ok rt"
  with Cmd_sse show ?thesis by (auto split: sum.splits dest: router_ok_sse)
qed (simp_all add: router_ok_def use_prepared_def use_context_prepared_def set_not_found_handler_def set_error_handler_def)

interpretation router_machine: invariant_machine router_exec router_ok
  by unfold_locales (rule router_exec_ok)

lemma dispatch_regular_matches:
  "dispatch_regular_route req path is_head r observe on_error w \<noteq> None \<Longrightarrow> route_matches r path \<noteq> None"
  by (cases "route_matches r path") (simp_all add: dispatch_regular_route_def)

lemma dispatch_sse_matches:
  "dispatch_sse_route env req path r observe w \<noteq> None \<Longrightarrow> route_matches r path \<noteq> None"
  by (cases "route_matches r path") (simp_all add: dispatch_sse_route_def)

text \<open>The linear search that the index stands for.\<close>

definition dispatch_reference :: "'w sse_env \<Rightarrow> 'w router \<Rightarrow> request \<Rightarrow> string \<Rightarrow> bool \<Rightarrow> 'w \<Rightarrow> response \<times> 'w" where
  "dispatch_reference env rt req path is_head w =
     dispatch_immediate_routes env req path is_head
       (filter (\<lambda>r. rt_method r = (if is_head then ''HEAD'' else req_method req)) (routes rt) @
        (if is_head then filter (\<lambda>r. rt_method r = ''GET'') (routes rt) else []))
       (if is_head then [] else sse_routes rt) (not_found_handler rt) (error_handler rt) w"

lemma dispatch_sync_reference:
  assumes "router_ok rt"
  shows "dispatch_router_sync env rt req path is_head w = dispatch_reference env rt req path is_head w"
proof -
  let ?f = "\<lambda>r. dispatch_regular_route req path is_head r (should_observe_route req) (error_handler rt) w"
  let ?g = "\<lambda>r. dispatch_sse_route env req path r (should_observe_route req) w"
  have r: "first_some (\<lambda>r. dispatch_regular_route req path h r (should_observe_route req) (error_handler rt) w)
        (map (\<lambda>i. routes rt ! i) (range_indices (select_method_routes (route_indexes rt) m path) iterator_begin)) =
      first_some (\<lambda>r. dispatch_regular_route req path h r (should_observe_route req) (error_handler rt) w)
        (filter (\<lambda>r. rt_method r = m) (routes rt))" for m h
    unfolding select_method_index
    by (rule candidates_first [OF _ _ dispatch_regular_matches]) (use assms in \<open>auto simp: router_ok_def\<close>)
  have s: "first_some ?g (map (\<lambda>i. sse_routes rt ! i) (range_indices (select_routes_for_path (sse_index rt) path) iterator_begin)) =
      first_some ?g (sse_routes rt)"
    using candidates_first [of "\<lambda>r. True" "sse_routes rt" "sse_index rt" ?g path, OF _ _ dispatch_sse_matches] assms
    by (auto simp: router_ok_def)
  have A: "first_some ?f (map (\<lambda>i. routes rt ! i) (selected_request_routes (route_indexes rt) (req_method req) path is_head)) =
      first_some ?f (filter (\<lambda>r. rt_method r = (if is_head then ''HEAD'' else req_method req)) (routes rt) @
        (if is_head then filter (\<lambda>r. rt_method r = ''GET'') (routes rt) else []))"
    by (cases is_head) (simp_all add: selected_request_routes_def first_some_append r cong: option.case_cong)
  have B: "first_some ?g (map (\<lambda>i. sse_routes rt ! i)
        (range_indices (if is_head then no_selection else select_routes_for_path (sse_index rt) path) iterator_begin)) =
      first_some ?g (if is_head then [] else sse_routes rt)"
    by (cases is_head) (simp_all add: s)
  show ?thesis
    unfolding dispatch_router_sync_def dispatch_reference_def dispatch_immediate_routes_def Let_def A B ..
qed

text \<open>
  C21: Whatever routes were registered and in whatever order, dispatching through the index of
  exact paths, first literals and generic patterns gives the response and effects of a linear
  search over the routes of the request's method in order of registration: the first match is
  called, for HEAD after the HEAD routes the GET routes are tried, then the event-stream routes,
  then the not-found handler.
\<close>

theorem dispatch_first_registered:
  "dispatch_router_sync env (run_commands router_exec cs router_new) req path is_head w =
   dispatch_reference env (run_commands router_exec cs router_new) req path is_head w"
  by (rule dispatch_sync_reference [OF router_machine.inv_run [OF router_ok_new]])

section \<open>The middleware chain\<close>

text \<open>
  What each middleware should see: a continuation that runs the rest of the chain the first time
  and refuses every later call.
\<close>

primrec guarded_run :: "'w handler \<Rightarrow> 'w mw_prog \<Rightarrow> bool \<Rightarrow> 'w outcome" where
  "guarded_run nxt (Mw_return r w) used = (r, w)"
| "guarded_run nxt (Mw_next q w k) used =
     (if used then guarded_run nxt (k (Inl next_called_twice) w) used
      else case nxt q w of (r, w') \<Rightarrow> guarded_run nxt (k r w') True)"

fun middleware_chain :: "'w middleware list \<Rightarrow> 'w handler \<Rightarrow> 'w handler" where
  "middleware_chain [] inner = inner"
| "middleware_chain (mw # mws) inner = (\<lambda>r w. guarded_run (middleware_chain mws inner) (mw r w) False)"

definition drop_index :: "(exn + response) \<times> nat \<times> 'w \<Rightarrow> 'w outcome" where
  "drop_index x = (fst x, snd (snd x))"

lemma one_shot_used: "drop_index (one_shot_run step p True idx) = guarded_run nxt p True"
proof (induction p)
  case (Mw_next q w k)
  from Mw_next [OF rangeI rangeI] show ?case by simp
qed (simp add: drop_index_def)

lemma one_shot_guarded:
  assumes "\<And>q w. drop_index (step q idx w) = nxt q w"
  shows "drop_index (one_shot_run step p False idx) = guarded_run nxt p False"
proof (cases p)
  case (Mw_return r w)
  then show ?thesis by (simp add: drop_index_def)
next
  case (Mw_next q w k)
  obtain r i w' where s: "step q idx w = (r, i, w')" by (cases "step q idx w")
  with assms [of q w] have "nxt q w = (r, w')" by (simp add: drop_index_def)
  with s Mw_next show ?thesis by (simp add: one_shot_used)
qed

lemma step_call_chain:
  "idx \<le> length mws \<Longrightarrow> n = length mws - idx \<Longrightarrow>
   drop_index (step_call n mws inner r idx w) = middleware_chain (drop idx mws) inner r w"
proof (induction n arbitrary: idx r w)
  case 0
  then show ?case by (simp add: drop_index_def split: prod.splits)
next
  case (Suc n)
  then have "idx < length mws" by simp
  then have d: "drop idx mws = mws ! idx # drop (Suc idx) mws" by (simp add: Cons_nth_drop_Suc)
  have "drop_index (step_call n mws inner q (Suc idx) w) = middleware_chain (drop (Suc idx) mws) inner q w" for q w
    by (rule Suc.IH) (use Suc.prems in auto)
  then have "drop_index (one_shot_run (step_call n mws inner) p False (Suc idx)) =
      guarded_run (middleware_chain (drop (Suc idx) mws) inner) p False" for p
    by (rule one_shot_guarded)
  with \<open>idx < length mws\<close> show ?case by (simp add: d)
qed

text \<open>
  C22: The shared step counter and the one-shot continuations of \<open>run_middlewares\<close> implement the
  chain one would write by nesting: the middlewares run in order of registration, the innermost
  continuation is route dispatch, each continuation runs the rest of the chain at most once and
  a second call of it raises \<open>middleware next() called more than once\<close> inside the caller,
  without running anything.
\<close>

theorem run_middlewares_chain: "run_middlewares mws inner req w = middleware_chain mws inner req w"
  using step_call_chain [of 0 mws "length mws" inner req w]
  by (cases "step_call (length mws) mws inner req 0 w") (simp add: run_middlewares_def drop_index_def)

section \<open>Route parameters cannot replace authenticated claims\<close>

lemma fields_get_map_of: "\<not> case_insensitive f \<Longrightarrow> fields_get f k = map_of (field_data f) k"
proof -
  assume "\<not> case_insensitive f"
  moreover have "map_option snd (List.find (\<lambda>p. fst p = k) xs) = map_of xs k" for xs :: "(string \<times> string) list"
    by (induction xs) auto
  ultimately show ?thesis by (simp add: fields_get_def first_matching_def key_eq_def)
qed

lemma emplace_fold:
  "foldl (\<lambda>ps (k, v). if Q k then ps else fields_emplace_back k v ps) f kvs =
     f\<lparr>field_data := field_data f @ filter (\<lambda>(k, v). \<not> Q k) kvs\<rparr>"
  by (induction kvs arbitrary: f) (auto simp: fields_emplace_back_def)

lemma emplace_keys_fold:
  "foldl (\<lambda>ps key. if Q key then fields_emplace_back key (g key) ps else ps) f keys =
     f\<lparr>field_data := field_data f @ map (\<lambda>k. (k, g k)) (filter Q keys)\<rparr>"
  by (induction keys arbitrary: f) (auto simp: fields_emplace_back_def)

lemma merged_params_data:
  "merged_params req matched = no_params\<lparr>field_data :=
     map (\<lambda>k. (k, the (fields_get (req_params req) k))) (filter (jwt_claim_overrides req matched) kJwtClaimParams) @
     filter (\<lambda>(k, v). \<not> jwt_claim_overrides req matched k) (field_data matched) @
     filter (\<lambda>(k, v). \<not> (k = kJwtAuthoritative \<or> jwt_claim_overrides req matched k)) (field_data (req_params req))\<rparr>"
  unfolding merged_params_def Let_def emplace_keys_fold emplace_fold
  by (simp add: emplace_fold [where Q = "\<lambda>k. k = kJwtAuthoritative \<or> jwt_claim_overrides req matched k"]
      no_params_def http_fields_new_def)

lemma map_of_filter_key: "map_of (filter (\<lambda>(k, v). Q k) kvs) key = (if Q key then map_of kvs key else None)"
  by (induction kvs) auto

lemma map_of_keys: "map_of (map (\<lambda>k. (k, g k)) ks) key = (if key \<in> set ks then Some (g key) else None)"
  by (induction ks) auto

lemma merged_params_get:
  assumes "\<not> case_insensitive matched" "\<not> case_insensitive (req_params req)"
  shows "fields_get (merged_params req matched) key =
    (if jwt_claim_overrides req matched key
     then (if key \<in> set kJwtClaimParams then fields_get (req_params req) key else None)
     else case fields_get matched key of
            Some v \<Rightarrow> Some v
          | None \<Rightarrow> if key = kJwtAuthoritative then None else fields_get (req_params req) key)"
proof -
  let ?Q = "jwt_claim_overrides req matched"
  have ci: "\<not> case_insensitive (merged_params req matched)"
    by (simp add: merged_params_data no_params_def http_fields_new_def)
  have ov: "?Q key \<Longrightarrow> \<exists>v. fields_get (req_params req) key = Some v" by (auto simp: jwt_claim_overrides_def)
  show ?thesis
    unfolding fields_get_map_of [OF ci] using ov
    by (auto simp: merged_params_data map_add_def map_of_keys map_of_filter_key [where Q = "\<lambda>k. \<not> ?Q k"]
        map_of_filter_key [where Q = "\<lambda>k. k \<noteq> kJwtAuthoritative \<and> \<not> ?Q k"] fields_get_map_of assms
        split: option.splits)
qed


definition jwt_request :: request where
  "jwt_request = owned_request_new\<lparr>req_method := ''GET'', req_params :=
     \<lparr>field_data = [(''__conflux_jwt_claims_authoritative'', ''1''), (''jwt_sub'', ''alice'')], case_insensitive = False\<rparr>\<rparr>"

definition spoofed_params :: http_fields where
  "spoofed_params = \<lparr>field_data = [(''jwt_sub'', ''mallory''), (''id'', ''7'')], case_insensitive = False\<rparr>"


section \<open>Asynchronous routes, groups and the route list\<close>

lemma context_step_matches:
  "context_route_step req upload path is_head observe r \<noteq> None \<Longrightarrow> route_matches r path \<noteq> None"
  by (cases "route_matches r path") (simp_all add: context_route_step_def split: if_splits)

text \<open>The asynchronous route is also the first registered one that matches.\<close>

lemma context_first_registered:
  assumes "router_ok rt"
  shows "dispatch_context_route_tasks req upload path (selected_context_routes rt req path False) False =
    dispatch_context_route_tasks req upload path (filter (\<lambda>r. cr_method r = req_method req) (context_routes rt)) False"
proof -
  let ?f = "context_route_step req upload path False (fields_get (req_params req) ''__conflux_observe_route'' \<noteq> None)"
  have "dispatch_context_route_tasks req upload path crs False = first_some ?f crs" for crs
    by (simp add: dispatch_context_route_tasks_def Let_def)
  moreover have "first_some ?f (selected_context_routes rt req path False) =
      first_some ?f (filter (\<lambda>r. cr_method r = req_method req) (context_routes rt))"
    unfolding selected_context_routes_def selected_request_routes_def select_method_index
    using candidates_first [of "\<lambda>r. cr_method r = req_method req" "context_routes rt"
        "method_index (context_route_indexes rt) (req_method req)" ?f path, OF _ _ context_step_matches] assms
    by (simp add: router_ok_def)
  ultimately show ?thesis by simp
qed

lemma complete_ready_completes: "df_ready d = None \<Longrightarrow> df_ready (complete_ready out d) \<noteq> None"
  by (auto simp: complete_ready_def deferred_complete_def split: task_outcome.splits exn.splits)

lemma defer_answers:
  "registration \<noteq> Ready_installed \<Longrightarrow> df_ready (fst (router_defer_http_task now timeout control registration out)) \<noteq> None"
  using complete_ready_completes [of "deferred_attach_cancel control (deferred_new now timeout)" out]
  by (cases registration)
     (auto simp: router_defer_http_task_def deferred_attach_cancel_def deferred_new_def deferred_complete_def Let_def)

text \<open>
  Group middlewares that only pass the request on leave the handler as it is, so a group without
  behaviour of its own is only a prefix.
\<close>

lemma group_wrap_pass:
  assumes "list_all (\<lambda>mw. \<forall>r w. mw r w = Mw_next r w Mw_return) (group_middlewares g)"
  shows "group_wrap g h r w = h r w"
proof -
  have "foldr (\<lambda>mw n. \<lambda>r w. mw_run n (mw r w)) mws h r w = h r w"
    if "list_all (\<lambda>mw. \<forall>r w. mw r w = Mw_next r w Mw_return) mws" for mws r w
    using that by (induction mws arbitrary: r w) (auto split: prod.splits)
  with assms show ?thesis by (simp add: group_wrap_def)
qed

lemma append_infos_length:
  "length (foldl (\<lambda>res r. append_route_info (m r) r res) res rs) = length res + length rs"
  by (induction rs arbitrary: res) (simp_all add: append_route_info_def)

lemma route_infos_length:
  "length (route_infos rt) = length (routes rt) + length (context_routes rt) + length (sse_routes rt)"
  by (simp add: route_infos_def Let_def append_infos_length)

end
