(* ===== verification/Response_Cache.thy ===== *)
theory Response_Cache
  imports Router Support "HOL-Library.List_Lexorder" "HOL-Library.Char_ord"
begin

text \<open>
  The response cache (\<open>net/response_cache.cxx\<close>): the least-recently-used map of responses with
  its byte budget, the variant headers recorded per path, the cache key, the rules that decide
  what may be stored and for how long, and the middleware.

  The mutex makes the lookup and the store of a request two critical sections; a history of the
  cache is any interleaving of lookups and stores.  \<open>steady_clock\<close> time points are nanoseconds in
  a signed 64-bit integer.  C++ leaves the overflow of the sum of a time and a duration
  undefined; the model takes the wrapped value.  Byte counts are sums of lengths of strings in
  memory.
\<close>

section \<open>State\<close>

record response_cache_options =
  rco_max_entries :: nat
  rco_max_bytes :: nat
  rco_default_ttl :: int
  rco_respect_vary :: bool

definition response_cache_options_new :: response_cache_options where
  "response_cache_options_new =
     \<lparr>rco_max_entries = 256, rco_max_bytes = 64 * 1024 * 1024, rco_default_ttl = 60, rco_respect_vary = True\<rparr>"

record cache_entry =
  ce_resp :: response
  ce_expires :: int

record resp_lru =
  rc_max :: nat
  rc_max_bytes :: nat
  rc_total_bytes :: nat
  rc_entries :: "cache_entry lru"
  rc_path_vary :: "(string \<times> string list) list"

definition resp_lru_new :: "nat \<Rightarrow> nat \<Rightarrow> resp_lru" where
  "resp_lru_new max_entries max_bytes =
     \<lparr>rc_max = max_entries, rc_max_bytes = max_bytes, rc_total_bytes = 0,
      rc_entries = lru_new (max max_entries 1), rc_path_vary = []\<rparr>"

definition entry_size :: "cache_entry \<Rightarrow> nat" where
  "entry_size e = length (text_body (ce_resp e))"

section \<open>Operations\<close>

definition rc_erase :: "string \<Rightarrow> cache_entry \<Rightarrow> resp_lru \<Rightarrow> resp_lru" where
  "rc_erase key e c =
     c\<lparr>rc_total_bytes := rc_total_bytes c - entry_size e, rc_entries := snd (lru_erase key (rc_entries c))\<rparr>"

definition rc_get :: "string \<Rightarrow> int \<Rightarrow> resp_lru \<Rightarrow> cache_entry option \<times> resp_lru" where
  "rc_get key now c =
     (case lru_find key (rc_entries c) of
        (None, es) \<Rightarrow> (None, c\<lparr>rc_entries := es\<rparr>)
      | (Some e, es) \<Rightarrow>
          (let c = c\<lparr>rc_entries := es\<rparr>
           in if now < ce_expires e then (Some e, c) else (None, rc_erase key e c)))"

text \<open>The callback of \<open>evict_lru\<close> subtracts the size of the evicted entry.\<close>

definition rc_evict :: "resp_lru \<Rightarrow> bool \<times> resp_lru" where
  "rc_evict c =
     (case lru_evict_lru (rc_entries c) of
        (done, old, es) \<Rightarrow>
          (done, c\<lparr>rc_entries := es,
                   rc_total_bytes := rc_total_bytes c - (case old of None \<Rightarrow> 0 | Some (k, e) \<Rightarrow> entry_size e)\<rparr>))"

definition rc_full :: "nat \<Rightarrow> resp_lru \<Rightarrow> bool" where
  "rc_full entry_bytes c \<longleftrightarrow>
     rc_max_bytes c > 0 \<and> rc_total_bytes c + entry_bytes > rc_max_bytes c \<or> lru_size (rc_entries c) \<ge> rc_max c"

lemma rc_evict_shrinks:
  "rc_evict c = (True, c') \<Longrightarrow> length (lru_order (rc_entries c')) < length (lru_order (rc_entries c))"
  by (auto simp: rc_evict_def lru_evict_lru_def split: list.splits option.splits)

text \<open>The loop of \<open>put\<close>; the flag is false when nothing was left to evict.\<close>

function rc_make_room :: "nat \<Rightarrow> resp_lru \<Rightarrow> bool \<times> resp_lru" where
  "rc_make_room entry_bytes c =
     (if rc_full entry_bytes c then
        (case rc_evict c of (done, c') \<Rightarrow> if done then rc_make_room entry_bytes c' else (False, c'))
      else (True, c))"
  by pat_completeness auto
termination
  by (relation "measure (\<lambda>(n, c). length (lru_order (rc_entries c)))") (auto dest: rc_evict_shrinks [OF sym])

declare rc_make_room.simps [simp del]

definition rc_put :: "string \<Rightarrow> cache_entry \<Rightarrow> resp_lru \<Rightarrow> resp_lru" where
  "rc_put key entry c =
     (if rc_max c = 0 then c
      else
        let entry_bytes = entry_size entry
        in if rc_max_bytes c > 0 \<and> entry_bytes > rc_max_bytes c then c
           else
             let c = (case lru_find key (rc_entries c) of
                        (None, es) \<Rightarrow> c\<lparr>rc_entries := es\<rparr>
                      | (Some existing, es) \<Rightarrow> rc_erase key existing (c\<lparr>rc_entries := es\<rparr>))
             in case rc_make_room entry_bytes c of
                  (False, c) \<Rightarrow> c
                | (True, c) \<Rightarrow>
                    c\<lparr>rc_total_bytes := rc_total_bytes c + entry_bytes,
                      rc_entries := lru_insert_or_assign key entry (rc_entries c)\<rparr>)"

definition rc_vary_for :: "string \<Rightarrow> resp_lru \<Rightarrow> string list option" where
  "rc_vary_for path c = map_of (rc_path_vary c) path"

definition rc_set_vary :: "string \<Rightarrow> string list \<Rightarrow> resp_lru \<Rightarrow> resp_lru" where
  "rc_set_vary path headers c = c\<lparr>rc_path_vary := AList.update path headers (rc_path_vary c)\<rparr>"

section \<open>Directives and keys\<close>

definition cache_control_directive_contains :: "string \<Rightarrow> string \<Rightarrow> bool" where
  "cache_control_directive_contains cc directive =
     list_ex (\<lambda>item. ascii_iequals (item_name item) directive \<or>
       list_ex (\<lambda>param. ascii_iequals (param_name param) directive) (header_params (item_params item))) (header_items cc)"

definition max_age_value :: "header_item \<Rightarrow> int" where
  "max_age_value item =
     (if header_params (item_params item) \<noteq> [] then 0
      else
        let val = trim (item_value item)
        in case from_chars_signed (2 ^ 63) val of
             FC_ok v n \<Rightarrow> if n = length val then v else 0
           | _ \<Rightarrow> 0)"

text \<open>The loop skips items up to the first \<open>max-age\<close> with a value, which decides.\<close>

definition parse_max_age :: "string \<Rightarrow> int" where
  "parse_max_age cc =
     (case filter (\<lambda>item. item_has_value item \<and> ascii_iequals (item_name item) ''max-age'') (header_items cc) of
        [] \<Rightarrow> 0
      | item # _ \<Rightarrow> max_age_value item)"

definition parse_vary :: "string \<Rightarrow> string list" where
  "parse_vary vary =
     remdups_adj (sort (map ascii_lower (filter (\<lambda>token. token \<noteq> [] \<and> token \<noteq> ''*'') (header_tokens vary))))"

definition append_len_field :: "string \<Rightarrow> nat \<Rightarrow> string" where
  "append_len_field out n = out @ dec_string n @ '':''"

definition append_query_pair :: "string \<Rightarrow> string \<times> string \<Rightarrow> string" where
  "append_query_pair key kv =
     (case kv of (name, v) \<Rightarrow> append_len_field (append_len_field key (length name) @ name) (length v) @ v)"

definition build_cache_key :: "string \<Rightarrow> http_fields \<Rightarrow> string list \<Rightarrow> http_fields \<Rightarrow> string" where
  "build_cache_key path query vary headers =
     (let key = path;
          key = (if \<not> fields_empty query then foldl append_query_pair (key @ ''|q:'') (field_data query) else key)
      in foldl (\<lambda>key h. key @ ''|'' @ h @ ''='' @ fields_at headers h) key vary)"

section \<open>The middleware\<close>

definition i64_wrap :: "int \<Rightarrow> int" where
  "i64_wrap x = (x + 2 ^ 63) mod 2 ^ 64 - 2 ^ 63"

text \<open>The time to live of a response the cache may store, \<open>None\<close> for one it must not.\<close>

definition cache_ttl :: "response_cache_options \<Rightarrow> response \<Rightarrow> int option" where
  "cache_ttl opts resp =
     (let cc = fields_at (resp_headers resp) ''Cache-Control''; vary_hdr = fields_at (resp_headers resp) ''Vary''
      in if resp_status resp \<noteq> 200 then None
         else if set_cookies resp \<noteq> [] then None
         else if \<not> is_text resp then None
         else if cache_control_directive_contains cc ''no-store'' then None
         else if cache_control_directive_contains cc ''no-cache'' then None
         else if cache_control_directive_contains cc ''private'' then None
         else if rco_respect_vary opts \<and> sv_find vary_hdr CHR ''*'' \<noteq> None then None
         else
           let ttl = parse_max_age cc
           in if ttl = 0 \<and> cache_control_directive_contains cc ''max-age'' then None
              else if ttl = 0 then Some (rco_default_ttl opts) else Some ttl)"

definition response_vary :: "response \<Rightarrow> string list" where
  "response_vary resp = parse_vary (fields_at (resp_headers resp) ''Vary'')"

definition cache_lookup :: "request \<Rightarrow> int \<Rightarrow> resp_lru \<Rightarrow> response option \<times> resp_lru" where
  "cache_lookup req now c =
     (let vary_headers = (case rc_vary_for (req_path req) c of None \<Rightarrow> [] | Some vary \<Rightarrow> vary);
          lookup_key = build_cache_key (req_path req) (req_query req) vary_headers (req_headers req)
      in case rc_get lookup_key now c of
           (None, c) \<Rightarrow> (None, c)
         | (Some entry, c) \<Rightarrow>
             (Some (if req_method req = ''HEAD'' then (ce_resp entry)\<lparr>head_only := True\<rparr> else ce_resp entry), c))"

definition cache_store :: "response_cache_options \<Rightarrow> request \<Rightarrow> response \<Rightarrow> int \<Rightarrow> resp_lru \<Rightarrow> resp_lru" where
  "cache_store opts req resp now c =
     (case cache_ttl opts resp of
        None \<Rightarrow> c
      | Some ttl \<Rightarrow>
          (let vary_list = response_vary resp;
               c = (if vary_list \<noteq> [] then rc_set_vary (req_path req) vary_list c else c);
               store_key = build_cache_key (req_path req) (req_query req) vary_list (req_headers req)
           in rc_put store_key \<lparr>ce_resp = resp, ce_expires = i64_wrap (now + ttl * 10 ^ 9)\<rparr> c))"

text \<open>The world holds the cache shared by all requests; \<open>now\<close> reads the clock.\<close>

definition response_cache_middleware ::
    "('w \<Rightarrow> int) \<Rightarrow> response_cache_options \<Rightarrow> (resp_lru \<times> 'w) middleware" where
  "response_cache_middleware now opts req cw =
     (let is_head = (req_method req = ''HEAD'')
      in if req_method req \<noteq> ''GET'' \<and> \<not> is_head then Mw_next req cw Mw_return
         else
           case cw of (c, w) \<Rightarrow>
             (case cache_lookup req (now w) c of
                (Some resp, c) \<Rightarrow> Mw_return (Inr resp) (c, w)
              | (None, c) \<Rightarrow>
                  Mw_next req (c, w) (\<lambda>res (c, w).
                    case res of
                      Inl e \<Rightarrow> Mw_return (Inl e) (c, w)
                    | Inr resp \<Rightarrow>
                        Mw_return (Inr resp) (if is_head then c else cache_store opts req resp (now w) c, w))))"


section \<open>Budget\<close>

definition es_bytes :: "(string \<times> cache_entry) list \<Rightarrow> nat" where
  "es_bytes es = sum_list (map (\<lambda>(k, e). entry_size e) es)"

definition rc_ok :: "resp_lru \<Rightarrow> bool" where
  "rc_ok c \<longleftrightarrow>
     lru_inv (rc_entries c) \<and> lru_max (rc_entries c) = max (rc_max c) 1
     \<and> rc_total_bytes c = es_bytes (lru_entries (rc_entries c))
     \<and> lru_size (rc_entries c) \<le> rc_max c
     \<and> (rc_max_bytes c > 0 \<longrightarrow> rc_total_bytes c \<le> rc_max_bytes c)"

lemma es_bytes_delete:
  assumes "distinct (map fst es)" and "map_of es k = Some e"
  shows "es_bytes (AList.delete k es) = es_bytes es - entry_size e" and "entry_size e \<le> es_bytes es"
proof -
  have "es_bytes (AList.delete k es) + entry_size e = es_bytes es"
    using assms
  proof (induction es)
    case (Cons x xs)
    then show ?case
      by (cases x) (auto simp: es_bytes_def split: if_splits)
  qed simp
  then show "es_bytes (AList.delete k es) = es_bytes es - entry_size e" and "entry_size e \<le> es_bytes es" by auto
qed

lemma update_absent: "k \<notin> fst ` set es \<Longrightarrow> AList.update k v es = es @ [(k, v)]"
  by (induction es) auto

lemma es_bytes_update: "k \<notin> fst ` set es \<Longrightarrow> es_bytes (AList.update k e es) = es_bytes es + entry_size e"
proof (induction es)
  case (Cons x xs)
  then show ?case by (cases x) (auto simp: es_bytes_def)
qed (simp add: es_bytes_def)

lemma rc_ok_new: "rc_ok (resp_lru_new n b)"
  by (simp add: rc_ok_def resp_lru_new_def lru_inv_def lru_new_def es_bytes_def lru_size_def)

lemma rc_ok_find:
  assumes "rc_ok c" and "lru_find key (rc_entries c) = (r, es)"
  shows "rc_ok (c\<lparr>rc_entries := es\<rparr>)" and "lru_entries es = lru_entries (rc_entries c)"
    and "r = map_of (lru_entries es) key"
proof -
  from assms(2) show e: "lru_entries es = lru_entries (rc_entries c)" and "r = map_of (lru_entries es) key"
    by (auto simp: lru_find_def split: option.splits)
  have "lru_inv es" and "lru_max es = lru_max (rc_entries c)"
    using assms lru_inv_find [of "rc_entries c" key]
    by (auto simp: rc_ok_def lru_find_def split: option.splits)
  with assms(1) e show "rc_ok (c\<lparr>rc_entries := es\<rparr>)" by (auto simp: rc_ok_def lru_size_def)
qed

lemma rc_ok_erase:
  assumes "rc_ok c" and "map_of (lru_entries (rc_entries c)) key = Some e"
  shows "rc_ok (rc_erase key e c)"
    and "lru_entries (rc_entries (rc_erase key e c)) = AList.delete key (lru_entries (rc_entries c))"
proof -
  have d: "distinct (map fst (lru_entries (rc_entries c)))" using assms(1) by (simp add: rc_ok_def lru_inv_def)
  have inv: "lru_inv (snd (lru_erase key (rc_entries c)))"
    using assms(1) by (intro lru_inv_erase) (simp add: rc_ok_def)
  have l: "length (AList.delete key (lru_entries (rc_entries c))) \<le> length (lru_entries (rc_entries c))"
    by (fact length_delete_le)
  show "lru_entries (rc_entries (rc_erase key e c)) = AList.delete key (lru_entries (rc_entries c))"
    using assms(2) by (simp add: rc_erase_def lru_erase_def)
  show "rc_ok (rc_erase key e c)"
    using assms inv l es_bytes_delete [OF d assms(2)]
    by (auto simp: rc_ok_def rc_erase_def lru_erase_def lru_size_def)
qed

lemma rc_evict_cases:
  assumes "rc_ok c"
  shows "rc_evict c = (False, c) \<and> lru_entries (rc_entries c) = [] \<or>
    (\<exists>k e. map_of (lru_entries (rc_entries c)) k = Some e \<and> rc_evict c = (True, rc_erase k e c))"
proof (cases "lru_order (rc_entries c)")
  case Nil
  with assms have "lru_entries (rc_entries c) = []" by (simp add: rc_ok_def lru_inv_def)
  with Nil show ?thesis by (simp add: rc_evict_def lru_evict_lru_def)
next
  case (Cons f fs)
  with assms have "f \<in> fst ` set (lru_entries (rc_entries c))" by (auto simp: rc_ok_def lru_inv_def)
  then obtain e where e: "map_of (lru_entries (rc_entries c)) f = Some e"
    by (metis domIff dom_map_of_conv_image_fst not_None_eq)
  with Cons have "rc_evict c = (True, rc_erase f e c)"
    by (simp add: rc_evict_def lru_evict_lru_def rc_erase_def lru_erase_def)
  with e show ?thesis by blast
qed

text \<open>
  Room can always be made for an entry that fits the budget on its own: the loop never gives up.
\<close>

lemma rc_make_room_ok:
  assumes "rc_ok c" and "rc_max c > 0" and "rc_max_bytes c > 0 \<longrightarrow> n \<le> rc_max_bytes c"
  shows "\<exists>c'. rc_make_room n c = (True, c') \<and> rc_ok c' \<and> \<not> rc_full n c' \<and> rc_max c' = rc_max c \<and>
    rc_max_bytes c' = rc_max_bytes c \<and> rc_path_vary c' = rc_path_vary c \<and>
    set (lru_entries (rc_entries c')) \<subseteq> set (lru_entries (rc_entries c))"
  using assms
proof (induction n c rule: rc_make_room.induct)
  case (1 n c)
  show ?case
  proof (cases "rc_full n c")
    case False
    with 1 show ?thesis by (subst rc_make_room.simps) simp
  next
    case True
    with 1 have "lru_entries (rc_entries c) \<noteq> []"
      by (auto simp: rc_full_def rc_ok_def es_bytes_def lru_size_def)
    then obtain k e where e: "map_of (lru_entries (rc_entries c)) k = Some e"
      and ev: "rc_evict c = (True, rc_erase k e c)"
      using rc_evict_cases [OF "1.prems"(1)] by blast
    note ok = rc_ok_erase [OF "1.prems"(1) e]
    have "\<exists>c'. rc_make_room n (rc_erase k e c) = (True, c') \<and> rc_ok c' \<and> \<not> rc_full n c' \<and>
      rc_max c' = rc_max (rc_erase k e c) \<and> rc_max_bytes c' = rc_max_bytes (rc_erase k e c) \<and>
      rc_path_vary c' = rc_path_vary (rc_erase k e c) \<and>
      set (lru_entries (rc_entries c')) \<subseteq> set (lru_entries (rc_entries (rc_erase k e c)))"
      using True ok(1) "1.prems" by (intro "1.IH" [OF True ev [symmetric]]) (auto simp: rc_erase_def)
    moreover have "rc_make_room n c = rc_make_room n (rc_erase k e c)"
      using True ev by (subst rc_make_room.simps) simp
    moreover have "set (AList.delete k (lru_entries (rc_entries c))) \<subseteq> set (lru_entries (rc_entries c))"
      by (auto simp: AList.delete_eq)
    moreover have "rc_max (rc_erase k e c) = rc_max c" and "rc_max_bytes (rc_erase k e c) = rc_max_bytes c"
      and "rc_path_vary (rc_erase k e c) = rc_path_vary c" by (simp_all add: rc_erase_def)
    ultimately show ?thesis using ok(2) by fastforce
  qed
qed

text \<open>The state \<open>put\<close> hands to the eviction loop: the old entry of the key is gone.\<close>

definition rc_without :: "string \<Rightarrow> resp_lru \<Rightarrow> resp_lru" where
  "rc_without key c =
     (case lru_find key (rc_entries c) of
        (None, es) \<Rightarrow> c\<lparr>rc_entries := es\<rparr>
      | (Some existing, es) \<Rightarrow> rc_erase key existing (c\<lparr>rc_entries := es\<rparr>))"

lemma rc_without_ok:
  assumes "rc_ok c"
  shows "rc_ok (rc_without key c)" and "key \<notin> fst ` set (lru_entries (rc_entries (rc_without key c)))"
    and "set (lru_entries (rc_entries (rc_without key c))) \<subseteq> set (lru_entries (rc_entries c))"
    and "rc_max (rc_without key c) = rc_max c" and "rc_max_bytes (rc_without key c) = rc_max_bytes c"
    and "rc_path_vary (rc_without key c) = rc_path_vary c"
proof -
  obtain r es where f: "lru_find key (rc_entries c) = (r, es)" by (cases "lru_find key (rc_entries c)")
  note ok = rc_ok_find [OF assms f]
  have "rc_ok (rc_without key c) \<and> key \<notin> fst ` set (lru_entries (rc_entries (rc_without key c))) \<and>
    set (lru_entries (rc_entries (rc_without key c))) \<subseteq> set (lru_entries (rc_entries c))"
  proof (cases r)
    case None
    with ok(3) have "key \<notin> fst ` set (lru_entries es)" by (metis map_of_eq_None_iff)
    with None ok f show ?thesis by (simp add: rc_without_def)
  next
    case (Some e)
    then have m: "map_of (lru_entries (rc_entries (c\<lparr>rc_entries := es\<rparr>))) key = Some e" using ok(3) by simp
    from rc_ok_erase [OF ok(1) m] ok(2) Some f show ?thesis
      by (simp add: rc_without_def) (auto simp: AList.delete_eq)
  qed
  then show "rc_ok (rc_without key c)" and "key \<notin> fst ` set (lru_entries (rc_entries (rc_without key c)))"
    and "set (lru_entries (rc_entries (rc_without key c))) \<subseteq> set (lru_entries (rc_entries c))" by auto
  show "rc_max (rc_without key c) = rc_max c" and "rc_max_bytes (rc_without key c) = rc_max_bytes c"
    and "rc_path_vary (rc_without key c) = rc_path_vary c"
    using f by (cases r; simp add: rc_without_def rc_erase_def)+
qed

lemma rc_put_eq:
  "rc_put key entry c =
     (if rc_max c = 0 \<or> rc_max_bytes c > 0 \<and> entry_size entry > rc_max_bytes c then c
      else case rc_make_room (entry_size entry) (rc_without key c) of
             (False, c) \<Rightarrow> c
           | (True, c) \<Rightarrow>
               c\<lparr>rc_total_bytes := rc_total_bytes c + entry_size entry,
                 rc_entries := lru_insert_or_assign key entry (rc_entries c)\<rparr>)"
  by (simp add: rc_put_def rc_without_def Let_def)

text \<open>An entry that fits is stored, and only entries that were there remain beside it.\<close>

lemma rc_put_fits:
  assumes "rc_ok c" and "rc_max c > 0" and "rc_max_bytes c > 0 \<longrightarrow> entry_size e \<le> rc_max_bytes c"
  shows "rc_ok (rc_put key e c)" and "map_of (lru_entries (rc_entries (rc_put key e c))) key = Some e"
    and "set (lru_entries (rc_entries (rc_put key e c))) \<subseteq> insert (key, e) (set (lru_entries (rc_entries c)))"
    and "rc_path_vary (rc_put key e c) = rc_path_vary c" and "rc_max (rc_put key e c) = rc_max c"
    and "rc_max_bytes (rc_put key e c) = rc_max_bytes c"
proof -
  let ?w = "rc_without key c"
  note w = rc_without_ok [OF assms(1), of key]
  have "\<exists>c'. rc_make_room (entry_size e) ?w = (True, c') \<and> rc_ok c' \<and> \<not> rc_full (entry_size e) c' \<and>
      rc_max c' = rc_max ?w \<and> rc_max_bytes c' = rc_max_bytes ?w \<and> rc_path_vary c' = rc_path_vary ?w \<and>
      set (lru_entries (rc_entries c')) \<subseteq> set (lru_entries (rc_entries ?w))"
    using w assms by (intro rc_make_room_ok) auto
  then obtain c' where room: "rc_make_room (entry_size e) ?w = (True, c')" and ok: "rc_ok c'"
    and free: "\<not> rc_full (entry_size e) c'"
    and same: "rc_max c' = rc_max c" "rc_max_bytes c' = rc_max_bytes c" "rc_path_vary c' = rc_path_vary c"
    and sub: "set (lru_entries (rc_entries c')) \<subseteq> set (lru_entries (rc_entries ?w))"
    using w by auto
  have absent: "key \<notin> fst ` set (lru_entries (rc_entries c'))" using sub w(2) by (meson image_mono subsetD)
  then have none: "map_of (lru_entries (rc_entries c')) key = None" by (simp add: map_of_eq_None_iff)
  have put: "rc_put key e c = c'\<lparr>rc_total_bytes := rc_total_bytes c' + entry_size e,
      rc_entries := lru_insert_or_assign key e (rc_entries c')\<rparr>"
    using assms room by (auto simp: rc_put_eq)
  have size: "lru_size (rc_entries c') < rc_max c'" using free by (simp add: rc_full_def)
  with ok have "\<not> lru_max (rc_entries c') \<le> lru_size (rc_entries c')" by (simp add: rc_ok_def)
  with none have ins: "lru_entries (lru_insert_or_assign key e (rc_entries c')) =
      AList.update key e (lru_entries (rc_entries c'))"
    and mx: "lru_max (lru_insert_or_assign key e (rc_entries c')) = lru_max (rc_entries c')"
    by (simp_all add: lru_insert_or_assign_def Let_def)
  have inv: "lru_inv (lru_insert_or_assign key e (rc_entries c'))"
    using ok by (intro lru_inv_insert_or_assign) (simp add: rc_ok_def)
  show "rc_ok (rc_put key e c)"
    using ok inv free size absent
    by (auto simp: put rc_ok_def ins mx es_bytes_update lru_size_def length_update_absent rc_full_def)
  show "map_of (lru_entries (rc_entries (rc_put key e c))) key = Some e"
    by (simp add: put ins update_conv')
  show "set (lru_entries (rc_entries (rc_put key e c))) \<subseteq> insert (key, e) (set (lru_entries (rc_entries c)))"
    using sub w(3) absent by (auto simp: put ins update_absent)
  show "rc_path_vary (rc_put key e c) = rc_path_vary c" "rc_max (rc_put key e c) = rc_max c"
    "rc_max_bytes (rc_put key e c) = rc_max_bytes c" using same by (simp_all add: put)
qed

lemma rc_put_ok:
  assumes "rc_ok c"
  shows "rc_ok (rc_put key e c)"
    and "set (lru_entries (rc_entries (rc_put key e c))) \<subseteq> insert (key, e) (set (lru_entries (rc_entries c)))"
    and "rc_max (rc_put key e c) = rc_max c" and "rc_max_bytes (rc_put key e c) = rc_max_bytes c"
    and "rc_path_vary (rc_put key e c) = rc_path_vary c"
proof -
  have "rc_put key e c = c \<or> rc_max c > 0 \<and> (rc_max_bytes c > 0 \<longrightarrow> entry_size e \<le> rc_max_bytes c)"
    by (auto simp: rc_put_eq)
  then have "rc_ok (rc_put key e c) \<and>
    set (lru_entries (rc_entries (rc_put key e c))) \<subseteq> insert (key, e) (set (lru_entries (rc_entries c))) \<and>
    rc_max (rc_put key e c) = rc_max c \<and> rc_max_bytes (rc_put key e c) = rc_max_bytes c \<and>
    rc_path_vary (rc_put key e c) = rc_path_vary c"
    using assms rc_put_fits [OF assms, of e key] by auto
  then show "rc_ok (rc_put key e c)"
    and "set (lru_entries (rc_entries (rc_put key e c))) \<subseteq> insert (key, e) (set (lru_entries (rc_entries c)))"
    and "rc_max (rc_put key e c) = rc_max c" and "rc_max_bytes (rc_put key e c) = rc_max_bytes c"
    and "rc_path_vary (rc_put key e c) = rc_path_vary c" by auto
qed

lemma rc_get_ok:
  assumes "rc_ok c" and "rc_get key now c = (r, c')"
  shows "rc_ok c'" and "set (lru_entries (rc_entries c')) \<subseteq> set (lru_entries (rc_entries c))"
    and "rc_max c' = rc_max c" and "rc_max_bytes c' = rc_max_bytes c" and "rc_path_vary c' = rc_path_vary c"
    and "r = (case map_of (lru_entries (rc_entries c)) key of
                None \<Rightarrow> None | Some e \<Rightarrow> if now < ce_expires e then Some e else None)"
proof -
  obtain f es where f: "lru_find key (rc_entries c) = (f, es)" by (cases "lru_find key (rc_entries c)")
  note ok = rc_ok_find [OF assms(1) f]
  have "rc_ok c' \<and> set (lru_entries (rc_entries c')) \<subseteq> set (lru_entries (rc_entries c)) \<and> rc_max c' = rc_max c \<and>
    rc_max_bytes c' = rc_max_bytes c \<and> rc_path_vary c' = rc_path_vary c \<and>
    r = (case map_of (lru_entries (rc_entries c)) key of
           None \<Rightarrow> None | Some e \<Rightarrow> if now < ce_expires e then Some e else None)"
  proof (cases f)
    case None
    with assms f ok show ?thesis by (auto simp: rc_get_def)
  next
    case (Some e)
    then have m: "map_of (lru_entries (rc_entries (c\<lparr>rc_entries := es\<rparr>))) key = Some e" using ok(3) by simp
    let ?e = "rc_erase key e (c\<lparr>rc_entries := es\<rparr>)"
    have "rc_get key now c = (if now < ce_expires e then (Some e, c\<lparr>rc_entries := es\<rparr>) else (None, ?e))"
      using f Some by (simp add: rc_get_def Let_def)
    moreover have "rc_max ?e = rc_max c" "rc_max_bytes ?e = rc_max_bytes c" "rc_path_vary ?e = rc_path_vary c"
      by (simp_all add: rc_erase_def)
    moreover have "set (lru_entries (rc_entries ?e)) \<subseteq> set (lru_entries (rc_entries c))"
      using rc_ok_erase(2) [OF ok(1) m] ok(2) by (auto simp: AList.delete_eq)
    moreover have "map_of (lru_entries (rc_entries c)) key = Some e" using m ok(2) by simp
    ultimately show ?thesis using assms(2) ok(1,2) rc_ok_erase(1) [OF ok(1) m] by (simp split: if_splits)
  qed
  then show "rc_ok c'" and "set (lru_entries (rc_entries c')) \<subseteq> set (lru_entries (rc_entries c))"
    and "rc_max c' = rc_max c" and "rc_max_bytes c' = rc_max_bytes c" and "rc_path_vary c' = rc_path_vary c"
    and "r = (case map_of (lru_entries (rc_entries c)) key of
                None \<Rightarrow> None | Some e \<Rightarrow> if now < ce_expires e then Some e else None)" by auto
qed

section \<open>Histories of the cache\<close>

datatype cache_cmd =
    Cache_lookup request int
  | Cache_store request response int

fun cache_exec :: "response_cache_options \<Rightarrow> cache_cmd \<Rightarrow> resp_lru \<Rightarrow> resp_lru" where
  "cache_exec opts (Cache_lookup req now) c = snd (cache_lookup req now c)"
| "cache_exec opts (Cache_store req resp now) c = cache_store opts req resp now c"

definition cache_after :: "response_cache_options \<Rightarrow> cache_cmd list \<Rightarrow> resp_lru" where
  "cache_after opts cs =
     run_commands (cache_exec opts) cs (resp_lru_new (rco_max_entries opts) (rco_max_bytes opts))"

lemma cache_lookup_snd:
  "snd (cache_lookup req now c) =
     snd (rc_get (build_cache_key (req_path req) (req_query req)
       (case rc_vary_for (req_path req) c of None \<Rightarrow> [] | Some vary \<Rightarrow> vary) (req_headers req)) now c)"
  by (auto simp: cache_lookup_def Let_def split: prod.split option.split)

lemma rc_ok_set_vary [simp]: "rc_ok (rc_set_vary path headers c) = rc_ok c"
  by (simp add: rc_ok_def rc_set_vary_def)

definition cache_state_ok :: "response_cache_options \<Rightarrow> resp_lru \<Rightarrow> bool" where
  "cache_state_ok opts c \<longleftrightarrow> rc_ok c \<and> rc_max c = rco_max_entries opts \<and> rc_max_bytes c = rco_max_bytes opts"

lemma cache_state_ok_exec: "cache_state_ok opts c \<Longrightarrow> cache_state_ok opts (cache_exec opts cmd c)"
proof (cases cmd)
  case (Cache_lookup req now)
  assume ok: "cache_state_ok opts c"
  then show ?thesis
    using Cache_lookup rc_get_ok(1,3,4) [of c, OF _ prod.collapse [symmetric]]
    by (simp add: cache_state_ok_def cache_lookup_snd)
next
  case (Cache_store req resp now)
  assume ok: "cache_state_ok opts c"
  show ?thesis
  proof (cases "cache_ttl opts resp")
    case None
    with ok Cache_store show ?thesis by (simp add: cache_store_def)
  next
    case (Some ttl)
    let ?c = "if response_vary resp \<noteq> [] then rc_set_vary (req_path req) (response_vary resp) c else c"
    have "rc_ok ?c" "rc_max ?c = rco_max_entries opts" "rc_max_bytes ?c = rco_max_bytes opts"
      using ok by (simp_all add: cache_state_ok_def) (simp_all add: rc_set_vary_def)
    then show ?thesis
      using Some Cache_store rc_put_ok [of ?c] by (simp add: cache_store_def Let_def cache_state_ok_def)
  qed
qed

interpretation cache_machine: invariant_machine "cache_exec opts" "cache_state_ok opts" for opts
  by unfold_locales (rule cache_state_ok_exec)

lemma cache_after_ok: "cache_state_ok opts (cache_after opts cs)"
  unfolding cache_after_def
  by (rule cache_machine.inv_run) (simp add: cache_state_ok_def rc_ok_new, simp add: resp_lru_new_def)

text \<open>
  C28: In every interleaving of lookups and stores the cache holds at most the configured number of
  entries, its byte count is the exact size of the bodies it holds, so no subtraction of the code
  wraps around, and that count stays within the configured budget unless the budget is unlimited.
\<close>

theorem cache_within_budget:
  "length (lru_entries (rc_entries (cache_after opts cs))) \<le> rco_max_entries opts
   \<and> rc_total_bytes (cache_after opts cs) =
       sum_list (map (\<lambda>(k, e). length (text_body (ce_resp e))) (lru_entries (rc_entries (cache_after opts cs))))
   \<and> (rco_max_bytes opts = 0 \<or> rc_total_bytes (cache_after opts cs) \<le> rco_max_bytes opts)"
  using cache_after_ok [of opts cs]
  by (auto simp: cache_state_ok_def rc_ok_def lru_size_def es_bytes_def entry_size_def)

section \<open>Keys\<close>

definition query_part :: "(string \<times> string) list \<Rightarrow> string" where
  "query_part q =
     concat (map (\<lambda>(n, v). dec_string (length n) @ CHR '':'' # n @ dec_string (length v) @ CHR '':'' # v) q)"

definition vary_part :: "string list \<Rightarrow> http_fields \<Rightarrow> string" where
  "vary_part vary headers = concat (map (\<lambda>h. CHR ''|'' # h @ CHR ''='' # fields_at headers h) vary)"

lemma foldl_append_query: "foldl append_query_pair key q = key @ query_part q"
  by (induction q arbitrary: key) (auto simp: append_query_pair_def append_len_field_def query_part_def)

lemma foldl_append_vary:
  "foldl (\<lambda>key h. key @ ''|'' @ h @ ''='' @ fields_at headers h) key vary = key @ vary_part vary headers"
  by (induction vary arbitrary: key) (auto simp: vary_part_def)

lemma build_cache_key_eq:
  "build_cache_key path query vary headers =
     path @ (if field_data query = [] then [] else ''|q:'' @ query_part (field_data query)) @ vary_part vary headers"
  by (auto simp: build_cache_key_def Let_def foldl_append_query foldl_append_vary [simplified] fields_empty_def)

lemma len_field_inj:
  assumes "dec_string n @ CHR '':'' # s = dec_string m @ CHR '':'' # t"
  shows "n = m \<and> s = t"
proof -
  have nd: "\<not> is_digit CHR '':''" by code_simp
  have "dec_string n = dec_string m"
    using arg_cong [OF assms, of "takeWhile is_digit"] nd by (simp add: takeWhile_dec_string_append)
  then show ?thesis using assms by (metis append_same_eq dec_value_dec_string list.inject same_append_eq)
qed

lemma len_text_inj:
  assumes "dec_string (length a) @ CHR '':'' # a @ s = dec_string (length b) @ CHR '':'' # b @ t"
  shows "a = b \<and> s = t"
  using len_field_inj [OF assms] append_eq_append_conv by blast

definition bar_next :: "string \<Rightarrow> bool" where
  "bar_next s \<longleftrightarrow> s = [] \<or> hd s = CHR ''|''"

lemma dec_string_not_bar: "\<not> bar_next (dec_string n @ s)"
proof -
  have "\<not> is_digit CHR ''|''" by code_simp
  moreover have "is_digit (hd (dec_string n))" by (meson dec_string_digits dec_string_nonempty hd_in_set)
  ultimately show ?thesis by (auto simp: bar_next_def)
qed

lemma query_part_inj:
  "query_part q @ s = query_part q' @ t \<Longrightarrow> bar_next s \<Longrightarrow> bar_next t \<Longrightarrow> q = q' \<and> s = t"
proof (induction q arbitrary: q')
  case Nil
  then show ?case
    using dec_string_not_bar by (cases q') (auto simp: query_part_def split: prod.splits)
next
  case (Cons x q)
  obtain n v where x: "x = (n, v)" by (cases x)
  show ?case
  proof (cases q')
    case Nil
    with Cons.prems show ?thesis using dec_string_not_bar by (auto simp: query_part_def split: prod.splits)
  next
    case (Cons x' q2)
    obtain n' v' where x': "x' = (n', v')" by (cases x')
    from Cons.prems(1) have
      "dec_string (length n) @ CHR '':'' # n @ (dec_string (length v) @ CHR '':'' # v @ query_part q @ s) =
       dec_string (length n') @ CHR '':'' # n' @ (dec_string (length v') @ CHR '':'' # v' @ query_part q2 @ t)"
      by (simp add: Cons x x' query_part_def)
    from len_text_inj [OF this] have n: "n = n'"
      and "dec_string (length v) @ CHR '':'' # v @ query_part q @ s =
           dec_string (length v') @ CHR '':'' # v' @ query_part q2 @ t" by auto
    from len_text_inj [OF this(2)] have "v = v'" and "query_part q @ s = query_part q2 @ t" by auto
    with Cons.IH [OF this(2) Cons.prems(2,3)] n Cons x x' show ?thesis by simp
  qed
qed

lemma bar_next_vary_part: "bar_next (vary_part vary headers)"
  by (cases vary) (auto simp: bar_next_def vary_part_def)

lemma split_first:
  assumes "xs @ ys = xs' @ ys'" and "c \<notin> set xs" and "c \<notin> set xs'"
    and "ys = [] \<or> hd ys = c" and "ys' = [] \<or> hd ys' = c"
  shows "xs = xs' \<and> ys = ys'"
proof -
  have t: "takeWhile (\<lambda>x. x \<noteq> c) (us @ vs) = us" if "c \<notin> set us" "vs = [] \<or> hd vs = c" for us vs
    using that by (cases vs) (auto simp: takeWhile_append takeWhile_eq_all_conv)
  from t [OF assms(2,4)] t [OF assms(3,5)] assms(1) have "xs = xs'" by metis
  with assms(1) show ?thesis by simp
qed

lemma bar_next_cases: "bar_next s \<longleftrightarrow> s = [] \<or> hd s = CHR ''|''"
  by (fact bar_next_def)

definition plain_vary :: "string list \<Rightarrow> http_fields \<Rightarrow> bool" where
  "plain_vary vary headers \<longleftrightarrow>
     list_all (\<lambda>h. CHR ''|'' \<notin> set h \<and> CHR ''='' \<notin> set h \<and> CHR '':'' \<notin> set h
       \<and> CHR ''|'' \<notin> set (fields_at headers h)) vary"

lemma vary_part_inj:
  "vary_part vary headers = vary_part vary' headers' \<Longrightarrow> plain_vary vary headers \<Longrightarrow> plain_vary vary' headers' \<Longrightarrow>
   vary = vary' \<and> map (fields_at headers) vary = map (fields_at headers') vary"
proof (induction vary arbitrary: vary')
  case Nil
  then show ?case by (cases vary') (auto simp: vary_part_def)
next
  case (Cons h hs)
  show ?case
  proof (cases vary')
    case Nil
    with Cons.prems show ?thesis by (auto simp: vary_part_def)
  next
    case (Cons h' hs')
    have e: "(h @ CHR ''='' # fields_at headers h) @ vary_part hs headers =
        (h' @ CHR ''='' # fields_at headers' h') @ vary_part hs' headers'"
      using Cons.prems(1) by (simp add: Cons vary_part_def)
    have "h @ CHR ''='' # fields_at headers h = h' @ CHR ''='' # fields_at headers' h'
        \<and> vary_part hs headers = vary_part hs' headers'"
      using Cons.prems(2,3) Cons bar_next_vary_part
      by (intro split_first [OF e, of "CHR ''|''"]) (auto simp: plain_vary_def bar_next_cases)
    then have seg: "h @ CHR ''='' # fields_at headers h = h' @ CHR ''='' # fields_at headers' h'"
      and rest: "vary_part hs headers = vary_part hs' headers'" by auto
    have "h = h' \<and> CHR ''='' # fields_at headers h = CHR ''='' # fields_at headers' h'"
      using Cons.prems(2,3) Cons by (intro split_first [OF seg, of "CHR ''=''"]) (auto simp: plain_vary_def)
    moreover have "hs = hs' \<and> map (fields_at headers) hs = map (fields_at headers') hs"
      using Cons.prems(2,3) Cons by (intro Cons.IH [OF rest]) (auto simp: plain_vary_def)
    ultimately show ?thesis using Cons by auto
  qed
qed

lemma query_then_vary_inj:
  assumes "(if q = [] then [] else ''|q:'' @ query_part q) @ vary_part vary headers =
      (if q' = [] then [] else ''|q:'' @ query_part q') @ vary_part vary' headers'"
    and "plain_vary vary headers" and "plain_vary vary' headers'"
  shows "q = q' \<and> vary_part vary headers = vary_part vary' headers'"
proof -
  have no: "vary_part us hs \<noteq> ''|q:'' @ s" if "plain_vary us hs" for us hs s
  proof
    assume a: "vary_part us hs = ''|q:'' @ s"
    then obtain h r where u: "us = h # r" by (cases us) (auto simp: vary_part_def)
    with a have b: "h @ CHR ''='' # (fields_at hs h @ vary_part r hs) = CHR ''q'' # CHR '':'' # s"
      by (simp add: vary_part_def)
    have "CHR '':'' \<notin> set h" "CHR ''='' \<notin> set h" using that u by (auto simp: plain_vary_def)
    with b show False by (cases h; cases "tl h") auto
  qed
  show ?thesis
  proof (cases "q = [] \<or> q' = []")
    case True
    with assms no [OF assms(2)] no [OF assms(3)] show ?thesis
      by (auto split: if_splits) (metis append.assoc append_Cons append_Nil)+
  next
    case False
    with assms(1) have "query_part q @ vary_part vary headers = query_part q' @ vary_part vary' headers'" by simp
    from query_part_inj [OF this bar_next_vary_part bar_next_vary_part] show ?thesis .
  qed
qed

lemma cache_key_inj:
  assumes "build_cache_key path query vary headers = build_cache_key path' query' vary' headers'"
    and "CHR ''|'' \<notin> set path" and "CHR ''|'' \<notin> set path'"
    and "plain_vary vary headers" and "plain_vary vary' headers'"
  shows "path = path' \<and> field_data query = field_data query' \<and> vary = vary' \<and>
    map (fields_at headers) vary = map (fields_at headers') vary"
proof -
  let ?t = "\<lambda>q vary headers. (if field_data q = [] then [] else ''|q:'' @ query_part (field_data q)) @ vary_part vary headers"
  have n: "?t q vs hs = [] \<or> hd (?t q vs hs) = CHR ''|''" for q vs hs
    using bar_next_vary_part [of vs hs] by (auto simp: bar_next_def)
  have "path = path' \<and> ?t query vary headers = ?t query' vary' headers'"
    by (rule split_first [OF assms(1) [unfolded build_cache_key_eq] assms(2,3) n n])
  then have p: "path = path'" and "?t query vary headers = ?t query' vary' headers'" by blast+
  from query_then_vary_inj [OF this(2) assms(4,5)] have "field_data query = field_data query'"
    and "vary_part vary headers = vary_part vary' headers'" by auto
  with vary_part_inj [OF this(2) assms(4,5)] p show ?thesis by simp
qed

section \<open>Where a hit comes from\<close>

definition stored_entry :: "response_cache_options \<Rightarrow> cache_cmd \<Rightarrow> string \<Rightarrow> cache_entry \<Rightarrow> bool" where
  "stored_entry opts cmd k e =
     (case cmd of
        Cache_lookup _ _ \<Rightarrow> False
      | Cache_store req resp t \<Rightarrow>
          (case cache_ttl opts resp of
             None \<Rightarrow> False
           | Some ttl \<Rightarrow>
               k = build_cache_key (req_path req) (req_query req) (response_vary resp) (req_headers req) \<and>
               e = \<lparr>ce_resp = resp, ce_expires = i64_wrap (t + ttl * 10 ^ 9)\<rparr>))"

definition stores_vary :: "cache_cmd \<Rightarrow> string list \<Rightarrow> bool" where
  "stores_vary cmd vary =
     (case cmd of Cache_lookup _ _ \<Rightarrow> False | Cache_store req resp t \<Rightarrow> vary = response_vary resp)"

definition from_history :: "response_cache_options \<Rightarrow> cache_cmd list \<Rightarrow> resp_lru \<Rightarrow> bool" where
  "from_history opts cs c \<longleftrightarrow>
     (\<forall>(k, e)\<in>set (lru_entries (rc_entries c)). \<exists>cmd\<in>set cs. stored_entry opts cmd k e) \<and>
     (\<forall>(p, vary)\<in>set (rc_path_vary c). \<exists>cmd\<in>set cs. stores_vary cmd vary)"

lemma set_update_subset: "set (AList.update k v es) \<subseteq> insert (k, v) (set es)"
  by (induction es) auto

lemma from_history_exec:
  assumes "rc_ok c" and "from_history opts cs c"
  shows "from_history opts (cs @ [cmd]) (cache_exec opts cmd c)"
proof (cases cmd)
  case (Cache_lookup req now)
  have "set (lru_entries (rc_entries (snd (rc_get k now c)))) \<subseteq> set (lru_entries (rc_entries c))"
    and "rc_path_vary (snd (rc_get k now c)) = rc_path_vary c" for k
    using rc_get_ok [OF assms(1) prod.collapse [symmetric]] by auto
  with assms(2) Cache_lookup show ?thesis
    by (simp add: cache_lookup_snd from_history_def) blast
next
  case (Cache_store req resp t)
  show ?thesis
  proof (cases "cache_ttl opts resp")
    case None
    with assms(2) Cache_store show ?thesis by (auto simp: cache_store_def from_history_def)
  next
    case (Some ttl)
    define c1 where "c1 = (if response_vary resp \<noteq> [] then rc_set_vary (req_path req) (response_vary resp) c else c)"
    define k where "k = build_cache_key (req_path req) (req_query req) (response_vary resp) (req_headers req)"
    define e where "e = \<lparr>ce_resp = resp, ce_expires = i64_wrap (t + ttl * 10 ^ 9)\<rparr>"
    have c1: "rc_ok c1" "lru_entries (rc_entries c1) = lru_entries (rc_entries c)"
      "set (rc_path_vary c1) \<subseteq> insert (req_path req, response_vary resp) (set (rc_path_vary c))"
      using assms(1) set_update_subset [of "req_path req" "response_vary resp" "rc_path_vary c"]
      by (auto simp: c1_def) (auto simp: rc_set_vary_def)
    note v = rc_put_ok(5) [OF c1(1), of k e]
    have "cache_exec opts cmd c = rc_put k e c1"
      using Cache_store Some by (simp add: cache_store_def c1_def k_def e_def Let_def)
    moreover have "stored_entry opts cmd k e" "stores_vary cmd (response_vary resp)"
      using Cache_store Some by (simp_all add: stored_entry_def stores_vary_def k_def e_def)
    ultimately show ?thesis
      using rc_put_ok(2) [OF c1(1), of k e] c1 v assms(2) unfolding from_history_def by fastforce
  qed
qed

lemma from_history_after: "from_history opts cs (cache_after opts cs)"
proof (induction cs rule: rev_induct)
  case Nil
  then show ?case by (simp add: from_history_def cache_after_def resp_lru_new_def lru_new_def)
next
  case (snoc cmd cs)
  have "rc_ok (cache_after opts cs)" using cache_after_ok by (simp add: cache_state_ok_def)
  from from_history_exec [OF this snoc] show ?case by (simp add: cache_after_def)
qed

lemma fields_at_in: "fields_at f k = [] \<or> fields_at f k \<in> snd ` set (field_data f)"
proof -
  have "set (fields_values f k) \<subseteq> snd ` set (field_data f)" by (auto simp: fields_values_eq)
  then show ?thesis
    by (cases "fields_values f k") (auto simp: fields_at_def fields_value_or_def fields_get_eq)
qed

text \<open>Histories whose paths and header values have no bar and whose variant headers are tokens.\<close>

definition plain_request :: "request \<Rightarrow> bool" where
  "plain_request req \<longleftrightarrow>
     CHR ''|'' \<notin> set (req_path req) \<and> list_all (\<lambda>(k, v). CHR ''|'' \<notin> set v) (field_data (req_headers req))"

fun plain_command :: "cache_cmd \<Rightarrow> bool" where
  "plain_command (Cache_lookup req now) \<longleftrightarrow> True"
| "plain_command (Cache_store req resp now) \<longleftrightarrow>
     plain_request req \<and>
     list_all (\<lambda>h. CHR ''|'' \<notin> set h \<and> CHR ''='' \<notin> set h \<and> CHR '':'' \<notin> set h) (response_vary resp)"

lemma plain_varyI:
  assumes "plain_request req"
    and "list_all (\<lambda>h. CHR ''|'' \<notin> set h \<and> CHR ''='' \<notin> set h \<and> CHR '':'' \<notin> set h) vary"
  shows "plain_vary vary (req_headers req)"
proof -
  have "CHR ''|'' \<notin> set (fields_at (req_headers req) h)" for h
    using fields_at_in [of "req_headers req" h] assms(1) by (fastforce simp: plain_request_def list_all_iff)
  with assms(2) show ?thesis by (auto simp: plain_vary_def list_all_iff)
qed



text \<open>
  Without that restriction keys collide: a path with a bar can spell the query of another request,
  and a header value can spell the next variant header.
\<close>

lemma cache_key_collision:
  "build_cache_key ''/a|q:1:k1:v'' (http_fields_new False) [] (http_fields_new True) =
   build_cache_key ''/a'' (fields_emplace_back ''k'' ''v'' (http_fields_new False)) [] (http_fields_new True)"
  by code_simp

text \<open>
  C30: After any history, a response the rules allow and that fits the budget on its own is stored,
  whatever has to be evicted for it: until it expires the next lookup of the same request is
  answered with it.  The response must name its variant headers, or none may have been recorded
  for the path, since a response without \<open>Vary\<close> does not clear what an earlier one recorded.
\<close>

theorem cache_store_then_hit:
  assumes "cache_ttl opts resp = Some ttl" and "now < i64_wrap (t + ttl * 10 ^ 9)"
    and "rco_max_entries opts > 0" and "rco_max_bytes opts = 0 \<or> length (text_body resp) \<le> rco_max_bytes opts"
    and "response_vary resp \<noteq> [] \<or> rc_vary_for (req_path req) (cache_after opts cs) = None"
  shows "fst (cache_lookup req now (cache_after opts (cs @ [Cache_store req resp t]))) =
    Some (if req_method req = ''HEAD'' then resp\<lparr>head_only := True\<rparr> else resp)"
proof -
  let ?c = "cache_after opts cs"
  define c1 where "c1 = (if response_vary resp \<noteq> [] then rc_set_vary (req_path req) (response_vary resp) ?c else ?c)"
  define k where "k = build_cache_key (req_path req) (req_query req) (response_vary resp) (req_headers req)"
  define e where "e = \<lparr>ce_resp = resp, ce_expires = i64_wrap (t + ttl * 10 ^ 9)\<rparr>"
  have "rc_ok c1" "rc_max c1 = rco_max_entries opts" "rc_max_bytes c1 = rco_max_bytes opts"
    using cache_after_ok [of opts cs]
    by (simp_all add: c1_def cache_state_ok_def) (simp_all add: rc_set_vary_def)
  with assms(3,4) have ok: "rc_ok (rc_put k e c1)"
    and m: "map_of (lru_entries (rc_entries (rc_put k e c1))) k = Some e"
    and v: "rc_path_vary (rc_put k e c1) = rc_path_vary c1"
    using rc_put_fits [of c1 e k] by (auto simp: e_def entry_size_def)
  have after: "cache_after opts (cs @ [Cache_store req resp t]) = rc_put k e c1"
    using assms(1) by (simp add: cache_after_def [of opts "cs @ _"] cache_store_def Let_def k_def e_def
        cache_after_def [symmetric] c1_def)
  have "(case rc_vary_for (req_path req) (rc_put k e c1) of None \<Rightarrow> [] | Some vary \<Rightarrow> vary) = response_vary resp"
    using assms(5) unfolding rc_vary_for_def v by (auto simp: c1_def rc_set_vary_def update_conv')
  moreover obtain r c' where g: "rc_get k now (rc_put k e c1) = (r, c')" by (cases "rc_get k now (rc_put k e c1)")
  moreover have "r = Some e" using rc_get_ok(6) [OF ok g] m assms(2) by (simp add: e_def)
  ultimately show ?thesis
    by (simp add: after cache_lookup_def Let_def k_def [symmetric]) (simp add: e_def)
qed

theorem cache_store_then_hit_witness:
  "let req = owned_request_new\<lparr>req_method := ''GET'', req_path := ''/a''\<rparr>; resp = response_text ''hello'' 200
   in fst (cache_lookup req 0 (cache_after response_cache_options_new ([] @ [Cache_store req resp 0]))) = Some resp"
proof -
  let ?req = "owned_request_new\<lparr>req_method := ''GET'', req_path := ''/a''\<rparr>" and ?resp = "response_text ''hello'' 200"
  have "cache_ttl response_cache_options_new ?resp = Some 60" "0 < i64_wrap (0 + 60 * 10 ^ 9)"
    "rco_max_entries response_cache_options_new > 0" "length (text_body ?resp) \<le> rco_max_bytes response_cache_options_new"
    "rc_vary_for (req_path ?req) (cache_after response_cache_options_new []) = None" by code_simp+
  then show ?thesis
    using cache_store_then_hit [of response_cache_options_new ?resp 60 0 0 ?req "[]"] by (simp add: Let_def)
qed

end
