(* ===== verification/Crypto.thy ===== *)
theory Crypto
  imports Utils
begin

unbundle bit_operations_syntax

text \<open>
  Models \<open>src/crypto.cxx\<close>: base64, SHA-256 with its streaming state, SHA-1, the HMACs and the
  constant-time comparison. An \<open>unsigned char\<close> is an 8-bit word, a span of them a list, and the
  arithmetic is that of 32- and 64-bit words, which wraps.

  AES-GCM is not modelled: its body is the intrinsics of \<open>src/crypto_aesni.cxx\<close>.
\<close>

type_synonym u32 = "32 word"

definition to_unsigned_span :: "string \<Rightarrow> u8 list" where
  "to_unsigned_span s = map (\<lambda>c. of_nat (byte c)) s"

section \<open>Base64\<close>

definition kB64Alphabet :: string where
  "kB64Alphabet = ''ABCDEFGHIJKLMNOPQRSTUVWXYZabcdefghijklmnopqrstuvwxyz0123456789+/''"

definition kB64UrlAlphabet :: string where
  "kB64UrlAlphabet = ''ABCDEFGHIJKLMNOPQRSTUVWXYZabcdefghijklmnopqrstuvwxyz0123456789-_''"

definition make_b64_table :: "string \<Rightarrow> int list" where
  "make_b64_table alphabet =
     foldl (\<lambda>t i. t[byte (alphabet ! i) := int i]) (replicate 256 (-1)) [0..<64]"

text \<open>The sextet of \<open>v\<close> that starts at bit \<open>k\<close>, as a character.\<close>

definition b64_char :: "string \<Rightarrow> u32 \<Rightarrow> nat \<Rightarrow> char" where
  "b64_char alphabet v k = alphabet ! unat (drop_bit k v AND 0x3F)"

fun b64_encode_impl :: "u8 list \<Rightarrow> string \<Rightarrow> bool \<Rightarrow> string" where
  "b64_encode_impl [] alphabet padding = []"
| "b64_encode_impl [a] alphabet padding =
     (let v = push_bit 16 (ucast a) :: u32
      in [b64_char alphabet v 18, b64_char alphabet v 12] @ (if padding then ''=='' else []))"
| "b64_encode_impl [a, b] alphabet padding =
     (let v = (push_bit 16 (ucast a) :: u32) OR push_bit 8 (ucast b)
      in [b64_char alphabet v 18, b64_char alphabet v 12, b64_char alphabet v 6]
         @ (if padding then ''='' else []))"
| "b64_encode_impl (a # b # c # rest) alphabet padding =
     (let v = ((push_bit 16 (ucast a) :: u32) OR push_bit 8 (ucast b)) OR ucast c
      in [b64_char alphabet v 18, b64_char alphabet v 12, b64_char alphabet v 6, b64_char alphabet v 0]
         @ b64_encode_impl rest alphabet padding)"

primrec b64_decode_loop :: "int list \<Rightarrow> string \<Rightarrow> nat \<Rightarrow> u32 \<Rightarrow> string \<Rightarrow> (nat \<times> u32 \<times> string) option" where
  "b64_decode_loop table [] bits val out = Some (bits, val, out)"
| "b64_decode_loop table (raw # rest) bits val out =
     (let d = table ! byte raw
      in if d < 0 then None
         else
           let val' = push_bit 6 val OR of_int d; bits' = bits + 6
           in if 8 \<le> bits'
              then b64_decode_loop table rest (bits' - 8) val'
                     (out @ [of_byte (unat (drop_bit (bits' - 8) val' AND 0xFF))])
              else b64_decode_loop table rest bits' val' out)"

definition b64_decode_impl :: "string \<Rightarrow> int list \<Rightarrow> string" where
  "b64_decode_impl encoded table =
     (if length encoded mod 4 = 1 then []
      else
        let pad_pos = sv_find encoded CHR ''='';
            payload_size = (case pad_pos of None \<Rightarrow> length encoded | Some p \<Rightarrow> p);
            bad_padding =
              (case pad_pos of
                 None \<Rightarrow> False
               | Some p \<Rightarrow>
                   2 < length encoded - p \<or> length encoded mod 4 \<noteq> 0
                   \<or> list_ex (\<lambda>c. c \<noteq> CHR ''='') (drop p encoded))
        in if bad_padding then []
           else if payload_size mod 4 = 1 then []
           else case b64_decode_loop table (substr encoded 0 payload_size) 0 0 [] of
                  None \<Rightarrow> []
                | Some (bits, val, out) \<Rightarrow>
                    if 0 < bits \<and> val AND (push_bit bits 1 - 1) \<noteq> 0 then [] else out)"

definition base64_encode :: "u8 list \<Rightarrow> string" where
  "base64_encode inp = b64_encode_impl inp kB64Alphabet True"

definition base64_decode :: "string \<Rightarrow> string" where
  "base64_decode encoded = b64_decode_impl encoded (make_b64_table kB64Alphabet)"

definition base64url_encode :: "u8 list \<Rightarrow> string" where
  "base64url_encode inp = b64_encode_impl inp kB64UrlAlphabet False"

definition base64url_decode :: "string \<Rightarrow> string" where
  "base64url_decode encoded = b64_decode_impl encoded (make_b64_table kB64UrlAlphabet)"

section \<open>SHA-256\<close>

record sha256_state =
  sha_h :: "u32 list"
  sha_pending :: "u8 list"
  sha_bytes :: u64
  sha_pending_size :: nat

definition rotr32 :: "u32 \<Rightarrow> nat \<Rightarrow> u32" where
  "rotr32 v n = drop_bit n v OR push_bit (32 - n) v"

text \<open>
  The round constants \<open>K\<close> of \<open>sha256_compress\<close>, by the rule of FIPS 180-4 that the literals of
  the source come from: the first 32 fractional bits of the cube roots of the first 64 primes.
\<close>

definition icbrt :: "nat \<Rightarrow> nat" where
  "icbrt n = foldl (\<lambda>r b. if (r + 2 ^ b) ^ 3 \<le> n then r + 2 ^ b else r) 0 (rev [0..<36])"

definition sha256_primes :: "nat list" where
  "sha256_primes =
     [2, 3, 5, 7, 11, 13, 17, 19, 23, 29, 31, 37, 41, 43, 47, 53, 59, 61, 67, 71, 73, 79, 83, 89, 97,
      101, 103, 107, 109, 113, 127, 131, 137, 139, 149, 151, 157, 163, 167, 173, 179, 181, 191, 193,
      197, 199, 211, 223, 227, 229, 233, 239, 241, 251, 257, 263, 269, 271, 277, 281, 283, 293, 307, 311]"

definition sha256_K :: "u32 list" where
  "sha256_K = map (\<lambda>p. of_nat (icbrt (p * 2 ^ 96))) sha256_primes"

definition be32 :: "u8 list \<Rightarrow> nat \<Rightarrow> u32" where
  "be32 block off =
     ((push_bit 24 (ucast (block ! off)) OR push_bit 16 (ucast (block ! (off + 1))))
        OR push_bit 8 (ucast (block ! (off + 2)))) OR ucast (block ! (off + 3))"

definition sha256_schedule :: "u8 list \<Rightarrow> u32 list" where
  "sha256_schedule block =
     foldl (\<lambda>w i.
        let s0 = (rotr32 (w ! (i - 15)) 7 XOR rotr32 (w ! (i - 15)) 18) XOR drop_bit 3 (w ! (i - 15));
            s1 = (rotr32 (w ! (i - 2)) 17 XOR rotr32 (w ! (i - 2)) 19) XOR drop_bit 10 (w ! (i - 2))
        in w @ [w ! (i - 16) + s0 + w ! (i - 7) + s1])
       (map (\<lambda>i. be32 block (i * 4)) [0..<16]) [16..<64]"

type_synonym sha256_regs = "u32 \<times> u32 \<times> u32 \<times> u32 \<times> u32 \<times> u32 \<times> u32 \<times> u32"

definition sha256_round :: "u32 list \<Rightarrow> nat \<Rightarrow> sha256_regs \<Rightarrow> sha256_regs" where
  "sha256_round w i regs =
     (case regs of (a, b, c, d, e, f, g, hh) \<Rightarrow>
        let ch = (e AND f) XOR (NOT e AND g);
            maj = ((a AND b) XOR (a AND c)) XOR (b AND c);
            s1 = (rotr32 e 6 XOR rotr32 e 11) XOR rotr32 e 25;
            s0 = (rotr32 a 2 XOR rotr32 a 13) XOR rotr32 a 22;
            t1 = hh + s1 + ch + sha256_K ! i + w ! i;
            t2 = s0 + maj
        in (t1 + t2, a, b, c, d + t1, e, f, g))"

definition sha256_compress :: "u32 list \<Rightarrow> u8 list \<Rightarrow> u32 list" where
  "sha256_compress h block =
     (case fold (sha256_round (sha256_schedule block)) [0..<64]
             (h ! 0, h ! 1, h ! 2, h ! 3, h ! 4, h ! 5, h ! 6, h ! 7) of
        (a, b, c, d, e, f, g, hh) \<Rightarrow>
          [h ! 0 + a, h ! 1 + b, h ! 2 + c, h ! 3 + d, h ! 4 + e, h ! 5 + f, h ! 6 + g, h ! 7 + hh])"

definition sha256_h0 :: "u32 list" where
  "sha256_h0 =
     [0x6a09e667, 0xbb67ae85, 0x3c6ef372, 0xa54ff53a, 0x510e527f, 0x9b05688c, 0x1f83d9ab, 0x5be0cd19]"

definition sha256_init :: sha256_state where
  "sha256_init = \<lparr>sha_h = sha256_h0, sha_pending = replicate 64 0, sha_bytes = 0, sha_pending_size = 0\<rparr>"

text \<open>\<open>std::ranges::copy\<close> into an array at an offset.\<close>

definition copy_at :: "'a list \<Rightarrow> nat \<Rightarrow> 'a list \<Rightarrow> 'a list" where
  "copy_at dst off src = take off dst @ src @ drop (off + length src) dst"

function sha256_blocks :: "u32 list \<Rightarrow> u8 list \<Rightarrow> u32 list \<times> u8 list" where
  "sha256_blocks h msg =
     (if 64 \<le> length msg then sha256_blocks (sha256_compress h (take 64 msg)) (drop 64 msg) else (h, msg))"
  by pat_completeness auto
termination
  by (relation "measure (\<lambda>(h, msg). length msg)") auto

declare sha256_blocks.simps [simp del]

definition sha256_update :: "sha256_state \<Rightarrow> u8 list \<Rightarrow> sha256_state" where
  "sha256_update st msg0 =
     (let st0 = st\<lparr>sha_bytes := sha_bytes st + of_nat (length msg0)\<rparr>;
          (st1, msg1) =
            (if sha_pending_size st0 \<noteq> 0 then
               (let n = min (length msg0) (length (sha_pending st0) - sha_pending_size st0);
                    pend = copy_at (sha_pending st0) (sha_pending_size st0) (take n msg0);
                    size = sha_pending_size st0 + n;
                    sta = st0\<lparr>sha_pending := pend, sha_pending_size := size\<rparr>
                in (if size = length pend
                    then sta\<lparr>sha_h := sha256_compress (sha_h sta) pend, sha_pending_size := 0\<rparr>
                    else sta, drop n msg0))
             else (st0, msg0));
          (h2, msg2) = sha256_blocks (sha_h st1) msg1;
          st2 = st1\<lparr>sha_h := h2\<rparr>
      in if msg2 \<noteq> [] then st2\<lparr>sha_pending := copy_at (sha_pending st2) 0 msg2, sha_pending_size := length msg2\<rparr>
         else st2)"

definition fill_zero :: "u8 list \<Rightarrow> nat \<Rightarrow> nat \<Rightarrow> u8 list" where
  "fill_zero p from until = fold (\<lambda>i q. q[i := 0]) [from..<until] p"

definition sha256_final :: "sha256_state \<Rightarrow> u8 list" where
  "sha256_final st =
     (let bit_len = sha_bytes st * 8;
          p0 = (sha_pending st)[sha_pending_size st := 0x80];
          size0 = sha_pending_size st + 1;
          (h1, p1, size1) =
            (if 56 < size0 then (let p = fill_zero p0 size0 64 in (sha256_compress (sha_h st) p, p, 0))
             else (sha_h st, p0, size0));
          p2 = fill_zero p1 size1 56;
          p3 = fold (\<lambda>i q. q[56 + i := ucast (drop_bit (56 - i * 8) bit_len AND 0xFF)]) [0..<8] p2;
          h2 = sha256_compress h1 p3
      in map (\<lambda>i. ucast (drop_bit (24 - (i mod 4) * 8) (h2 ! (i div 4)) AND 0xFF)) [0..<32])"

definition sha256_noalloc :: "u8 list \<Rightarrow> u8 list" where
  "sha256_noalloc msg = sha256_final (sha256_update sha256_init msg)"

definition sha256 :: "u8 list \<Rightarrow> u8 list" where
  "sha256 msg = sha256_noalloc msg"

section \<open>HMAC-SHA256\<close>

record hmac_key =
  hk_inner :: "u8 list"
  hk_outer :: "u8 list"

definition hmac_sha256_key :: "u8 list \<Rightarrow> hmac_key" where
  "hmac_sha256_key key =
     (let zero = replicate 64 0;
          kpad = (if 64 < length key then copy_at zero 0 (sha256_noalloc key) else copy_at zero 0 key)
      in \<lparr>hk_inner = map (\<lambda>b. b XOR 0x36) kpad, hk_outer = map (\<lambda>b. b XOR 0x5C) kpad\<rparr>)"

definition hmac_sha256_precomputed :: "hmac_key \<Rightarrow> u8 list \<Rightarrow> u8 list \<Rightarrow> u8 list" where
  "hmac_sha256_precomputed key a b =
     (let inner = sha256_update (sha256_update (sha256_update sha256_init (hk_inner key)) a) b;
          inner_digest = sha256_final inner;
          outer = sha256_update (sha256_update sha256_init (hk_outer key)) inner_digest
      in sha256_final outer)"

definition hmac_sha256 :: "u8 list \<Rightarrow> u8 list \<Rightarrow> u8 list" where
  "hmac_sha256 key msg = hmac_sha256_precomputed (hmac_sha256_key key) msg []"

section \<open>SHA-1 and HMAC-SHA1\<close>

definition make_sha_padded :: "u8 list \<Rightarrow> u8 list" where
  "make_sha_padded msg =
     (let with_marker = length msg + 1;
          zero_pad = (56 + 64 - with_marker mod 64) mod 64;
          total = with_marker + zero_pad + 8;
          p0 = copy_at (replicate total 0) 0 msg;
          p1 = p0[length msg := 0x80];
          bit_len = of_nat (length msg) * 8 :: u64;
          len_pos = with_marker + zero_pad
      in fold (\<lambda>k q. q[len_pos + k := ucast (drop_bit (56 - 8 * k) bit_len AND 0xFF)]) [0..<8] p1)"

definition rot32 :: "u32 \<Rightarrow> nat \<Rightarrow> u32" where
  "rot32 v n = push_bit n v OR drop_bit (32 - n) v"

definition sha1_schedule :: "u8 list \<Rightarrow> u32 list" where
  "sha1_schedule block =
     foldl (\<lambda>w i. w @ [rot32 (((w ! (i - 3) XOR w ! (i - 8)) XOR w ! (i - 14)) XOR w ! (i - 16)) 1])
       (map (\<lambda>i. be32 block (i * 4)) [0..<16]) [16..<80]"

definition sha1_round ::
    "u32 list \<Rightarrow> nat \<Rightarrow> u32 \<times> u32 \<times> u32 \<times> u32 \<times> u32 \<Rightarrow> u32 \<times> u32 \<times> u32 \<times> u32 \<times> u32" where
  "sha1_round w i regs =
     (case regs of (a, b, c, d, e) \<Rightarrow>
        let (f, k) =
          (if i < 20 then ((b AND c) OR (NOT b AND d), 0x5A827999)
           else if i < 40 then ((b XOR c) XOR d, 0x6ED9EBA1)
           else if i < 60 then (((b AND c) OR (b AND d)) OR (c AND d), 0x8F1BBCDC)
           else ((b XOR c) XOR d, 0xCA62C1D6));
          tmp = rot32 a 5 + f + e + k + w ! i
        in (tmp, a, rot32 b 30, c, d))"

definition sha1_compress :: "u32 list \<Rightarrow> u8 list \<Rightarrow> u32 list" where
  "sha1_compress h block =
     (case fold (sha1_round (sha1_schedule block)) [0..<80] (h ! 0, h ! 1, h ! 2, h ! 3, h ! 4) of
        (a, b, c, d, e) \<Rightarrow> [h ! 0 + a, h ! 1 + b, h ! 2 + c, h ! 3 + d, h ! 4 + e])"

definition sha1 :: "u8 list \<Rightarrow> u8 list" where
  "sha1 msg =
     (let padded = make_sha_padded msg;
          h = fold (\<lambda>blk h. sha1_compress h (take 64 (drop (64 * blk) padded)))
                [0..<(length padded + 63) div 64]
                [0x67452301, 0xEFCDAB89, 0x98BADCFE, 0x10325476, 0xC3D2E1F0]
      in concat (map (\<lambda>i. [ucast (drop_bit 24 (h ! i)), ucast (drop_bit 16 (h ! i)),
                           ucast (drop_bit 8 (h ! i)), ucast (h ! i)]) [0..<5]))"

definition hmac_sha1 :: "u8 list \<Rightarrow> u8 list \<Rightarrow> u8 list" where
  "hmac_sha1 key msg =
     (let zero = replicate 64 0;
          k_pad = (if 64 < length key then copy_at zero 0 (sha1 key) else copy_at zero 0 key);
          inner = sha1 (map (\<lambda>b. b XOR 0x36) k_pad @ msg)
      in sha1 (map (\<lambda>b. b XOR 0x5C) k_pad @ inner))"

section \<open>Comparison\<close>

text \<open>The portable loop; the SIMD variant of the build computes the same disjunction.\<close>

definition constant_time_eq :: "u8 list \<Rightarrow> u8 list \<Rightarrow> bool" where
  "constant_time_eq a b =
     (if length a \<noteq> length b then False
      else foldl (\<lambda>acc i. acc OR (a ! i XOR b ! i)) 0 [0..<length a] = 0)"

definition constant_time_eq_sv :: "string \<Rightarrow> string \<Rightarrow> bool" where
  "constant_time_eq_sv a b = constant_time_eq (to_unsigned_span a) (to_unsigned_span b)"

text \<open>The table has 64 entries; the first, a middle and the last one agree with the source.\<close>

lemma sha256_K_length: "length sha256_K = 64"
  by (simp add: sha256_K_def sha256_primes_def)

lemma sha256_K_ends:
  "sha256_K ! 0 = 0x428a2f98" "sha256_K ! 31 = 0x14292967" "sha256_K ! 63 = 0xc67178f2"
  unfolding sha256_K_def sha256_primes_def by (simp, code_simp)+

section \<open>Facts about base64\<close>

lemma length_foldl_update [simp]: "length (foldl (\<lambda>t i. t[f i := g i]) t is) = length t"
  by (induction "is" arbitrary: t) simp_all

lemma nth_foldl_update:
  assumes "inj_on f {0..<n}" and "\<forall>i<n. f i < length t" and "i < n"
  shows "foldl (\<lambda>t i. t[f i := g i]) t [0..<n] ! f i = g i"
  using assms
proof (induction n)
  case (Suc n)
  show ?case
  proof (cases "i = n")
    case True
    with Suc.prems show ?thesis by simp
  next
    case False
    with Suc.prems have "f i \<noteq> f n" by (auto simp: inj_on_def)
    moreover have "foldl (\<lambda>t i. t[f i := g i]) t [0..<n] ! f i = g i"
      using Suc False by (intro Suc.IH) (auto simp: inj_on_def)
    ultimately show ?thesis by simp
  qed
qed simp

definition alphabet_ok :: "string \<Rightarrow> bool" where
  "alphabet_ok alphabet \<longleftrightarrow> length alphabet = 64 \<and> distinct alphabet \<and> CHR ''='' \<notin> set alphabet"

lemma alphabets_ok [simp]: "alphabet_ok kB64Alphabet" "alphabet_ok kB64UrlAlphabet"
  by (simp_all add: alphabet_ok_def kB64Alphabet_def kB64UrlAlphabet_def)

lemma b64_table_char:
  assumes "alphabet_ok alphabet" and "i < 64"
  shows "make_b64_table alphabet ! byte (alphabet ! i) = int i"
  unfolding make_b64_table_def
  by (rule nth_foldl_update)
    (use assms in \<open>auto simp: alphabet_ok_def inj_on_def byte_eq_iff nth_eq_iff_index_eq\<close>)

lemma and_3F: "(x :: u32) AND 0x3F = take_bit 6 x"
  by (simp add: take_bit_eq_mask mask_eq_exp_minus_1)

lemma and_FF: "(x :: u32) AND 0xFF = take_bit 8 x"
  by (simp add: take_bit_eq_mask mask_eq_exp_minus_1)

lemma sextet_less: "unat ((x :: u32) AND 0x3F) < 64"
  unfolding and_3F by (simp add: unsigned_take_bit_eq) (simp add: take_bit_eq_mod)

lemma b64_table_sextet:
  "alphabet_ok alphabet \<Longrightarrow>
     make_b64_table alphabet ! byte (b64_char alphabet v k) = int (unat (drop_bit k v AND 0x3F))"
  by (simp add: b64_char_def b64_table_char sextet_less)

lemma b64_decode_sextet:
  "alphabet_ok alphabet \<Longrightarrow>
     b64_decode_loop (make_b64_table alphabet) (b64_char alphabet v k # rest) bits val out =
       (let val' = push_bit 6 val OR (drop_bit k v AND 0x3F)
        in if 8 \<le> bits + 6
           then b64_decode_loop (make_b64_table alphabet) rest (bits + 6 - 8) val'
                  (out @ [of_byte (unat (drop_bit (bits + 6 - 8) val' AND 0xFF))])
           else b64_decode_loop (make_b64_table alphabet) rest (bits + 6) val' out)"
  by (simp add: b64_table_sextet Let_def)

lemma decode_keep:
  assumes "alphabet_ok alphabet" and "val' = push_bit 6 val OR (drop_bit k v AND 0x3F)" and "bits < 2"
    and "bits' = bits + 6"
  shows "b64_decode_loop (make_b64_table alphabet) (b64_char alphabet v k # rest) bits val out =
    b64_decode_loop (make_b64_table alphabet) rest bits' val' out"
  using assms by (simp add: b64_decode_sextet Let_def del: b64_decode_loop.simps)

lemma decode_emit:
  assumes "alphabet_ok alphabet" and "val' = push_bit 6 val OR (drop_bit k v AND 0x3F)"
    and "bits = bits' + 2" and "drop_bit bits' val' AND 0xFF = x"
  shows "b64_decode_loop (make_b64_table alphabet) (b64_char alphabet v k # rest) bits val out =
    b64_decode_loop (make_b64_table alphabet) rest bits' val' (out @ [of_byte (unat x)])"
  unfolding b64_decode_sextet [OF assms(1)] Let_def assms(2) [symmetric] using assms(3,4) by simp

text \<open>The low \<open>k\<close> bits of \<open>x\<close> are those of \<open>v\<close> from bit \<open>s\<close> on.\<close>

definition agree :: "nat \<Rightarrow> u32 \<Rightarrow> u32 \<Rightarrow> nat \<Rightarrow> bool" where
  "agree k x v s \<longleftrightarrow> (\<forall>m<k. bit x m = bit v (s + m))"

lemma agree_0: "agree 0 x v s"
  by (simp add: agree_def)

lemma agree_sextet:
  assumes "agree k x v (s + 6)" and "k + 6 \<le> 32"
  shows "agree (k + 6) (push_bit 6 x OR (drop_bit s v AND 0x3F)) v s"
proof -
  have "bit (push_bit 6 x OR (drop_bit s v AND 0x3F)) m = bit v (s + m)" if "m < k + 6" for m
  proof (cases "m < 6")
    case True
    then show ?thesis
      unfolding and_3F by (simp add: bit_or_iff bit_take_bit_iff bit_push_bit_iff bit_drop_bit_eq)
  next
    case False
    with that assms have "bit x (m - 6) = bit v (s + 6 + (m - 6))" by (simp add: agree_def)
    with False that assms(2) show ?thesis
      unfolding and_3F by (simp add: bit_or_iff bit_take_bit_iff bit_push_bit_iff bit_drop_bit_eq)
  qed
  then show ?thesis by (simp add: agree_def)
qed

lemma agree_byte:
  assumes "agree k x v s" and "j + 8 \<le> k"
  shows "drop_bit j x AND 0xFF = drop_bit (s + j) v AND 0xFF"
  unfolding and_FF
  using assms by (intro bit_eqI) (auto simp: bit_take_bit_iff bit_drop_bit_eq agree_def add.assoc)

lemma agree_low:
  assumes "agree k x v s" and "\<forall>m<k. \<not> bit v (s + m)" and "k \<le> 32"
  shows "x AND (push_bit k 1 - 1) = 0"
proof -
  have "x AND (push_bit k 1 - 1) = take_bit k x"
    by (simp add: take_bit_eq_mask mask_eq_exp_minus_1 push_bit_eq_mult)
  also have "\<dots> = 0"
    using assms by (intro bit_eqI) (auto simp: bit_take_bit_iff agree_def)
  finally show ?thesis .
qed

lemma bit_u8: "bit (a :: u8) n \<Longrightarrow> n < 8"
  using bit_imp_le_length by force

lemma group_bytes:
  fixes a b c :: u8
  defines "v \<equiv> ((push_bit 16 (ucast a) :: u32) OR push_bit 8 (ucast b)) OR ucast c"
  shows "drop_bit 16 v AND 0xFF = ucast a" "drop_bit 8 v AND 0xFF = ucast b" "v AND 0xFF = ucast c"
  unfolding v_def and_FF
  by (intro bit_eqI; auto simp: bit_or_iff bit_take_bit_iff bit_push_bit_iff bit_drop_bit_eq
      bit_unsigned_iff dest: bit_u8)+

lemma unat_ucast8 [simp]: "unat (ucast (a :: u8) :: u32) = unat a"
proof -
  have "unat a < 2 ^ 8" using unsigned_less [of a] by simp
  then show ?thesis by (simp add: unsigned_ucast_eq take_bit_eq_mod)
qed

lemma decode_group:
  fixes a b c :: u8
  assumes "alphabet_ok alphabet"
    and "v = ((push_bit 16 (ucast a) :: u32) OR push_bit 8 (ucast b)) OR ucast c"
  shows "\<exists>val'. b64_decode_loop (make_b64_table alphabet)
      (b64_char alphabet v 18 # b64_char alphabet v 12 # b64_char alphabet v 6 # b64_char alphabet v 0 # rest) 0 val out =
    b64_decode_loop (make_b64_table alphabet) rest 0 val' (out @ map (\<lambda>x. of_byte (unat x)) [a, b, c])"
proof -
  define v1 where "v1 = push_bit 6 val OR (drop_bit 18 v AND 0x3F)"
  define v2 where "v2 = push_bit 6 v1 OR (drop_bit 12 v AND 0x3F)"
  define v3 where "v3 = push_bit 6 v2 OR (drop_bit 6 v AND 0x3F)"
  define v4 where "v4 = push_bit 6 v3 OR (drop_bit 0 v AND 0x3F)"
  have a1: "agree 6 v1 v 18" using agree_sextet [of 0 val v 18] by (simp add: v1_def agree_0)
  have a2: "agree 12 v2 v 12" using agree_sextet [of 6 v1 v 12] a1 by (simp add: v2_def)
  have a3: "agree 18 v3 v 6" using agree_sextet [of 12 v2 v 6] a2 by (simp add: v3_def)
  have a4: "agree 24 v4 v 0" using agree_sextet [of 18 v3 v 0] a3 by (simp add: v4_def)
  have b2: "drop_bit 4 v2 AND 0xFF = ucast a" and b3: "drop_bit 2 v3 AND 0xFF = ucast b"
    and b4: "drop_bit 0 v4 AND 0xFF = ucast c"
    using agree_byte [OF a2, of 4] agree_byte [OF a3, of 2] agree_byte [OF a4, of 0] group_bytes [of a b c] assms(2)
    by simp_all
  let ?c = "b64_char alphabet v" and ?run = "b64_decode_loop (make_b64_table alphabet)"
  have "?run (?c 18 # ?c 12 # ?c 6 # ?c 0 # rest) 0 val out = ?run (?c 12 # ?c 6 # ?c 0 # rest) 6 v1 out"
    by (rule decode_keep [OF assms(1) v1_def]) simp_all
  also have "\<dots> = ?run (?c 6 # ?c 0 # rest) 4 v2 (out @ [of_byte (unat a)])"
    by (subst decode_emit [OF assms(1) v2_def _ b2]) simp_all
  also have "\<dots> = ?run (?c 0 # rest) 2 v3 (out @ [of_byte (unat a), of_byte (unat b)])"
    by (subst decode_emit [OF assms(1) v3_def _ b3]) simp_all
  also have "\<dots> = ?run rest 0 v4 (out @ [of_byte (unat a), of_byte (unat b), of_byte (unat c)])"
    by (subst decode_emit [OF assms(1) v4_def _ b4]) simp_all
  finally show ?thesis by (intro exI [of _ v4]) simp
qed

lemma decode_two:
  fixes a b :: u8
  assumes "alphabet_ok alphabet"
    and "v = (push_bit 16 (ucast a) :: u32) OR push_bit 8 (ucast b)"
  shows "\<exists>val'. b64_decode_loop (make_b64_table alphabet)
      [b64_char alphabet v 18, b64_char alphabet v 12, b64_char alphabet v 6] 0 val out =
    Some (2, val', out @ map (\<lambda>x. of_byte (unat x)) [a, b]) \<and> val' AND (push_bit 2 1 - 1) = 0"
proof -
  define v1 where "v1 = push_bit 6 val OR (drop_bit 18 v AND 0x3F)"
  define v2 where "v2 = push_bit 6 v1 OR (drop_bit 12 v AND 0x3F)"
  define v3 where "v3 = push_bit 6 v2 OR (drop_bit 6 v AND 0x3F)"
  have a1: "agree 6 v1 v 18" using agree_sextet [of 0 val v 18] by (simp add: v1_def agree_0)
  have a2: "agree 12 v2 v 12" using agree_sextet [of 6 v1 v 12] a1 by (simp add: v2_def)
  have a3: "agree 18 v3 v 6" using agree_sextet [of 12 v2 v 6] a2 by (simp add: v3_def)
  have "agree 2 v3 v 6" using a3 by (simp add: agree_def)
  moreover have "\<forall>m<2. \<not> bit v (6 + m)"
    using assms(2) by (auto simp: bit_or_iff bit_push_bit_iff bit_unsigned_iff dest: bit_u8)
  ultimately have low: "v3 AND (push_bit 2 1 - 1) = 0" by (intro agree_low) auto
  have b2: "drop_bit 4 v2 AND 0xFF = ucast a" and b3: "drop_bit 2 v3 AND 0xFF = ucast b"
    using agree_byte [OF a2, of 4] agree_byte [OF a3, of 2] group_bytes [of a b 0] assms(2) by simp_all
  let ?c = "b64_char alphabet v" and ?run = "b64_decode_loop (make_b64_table alphabet)"
  have "?run [?c 18, ?c 12, ?c 6] 0 val out = ?run [?c 12, ?c 6] 6 v1 out"
    by (rule decode_keep [OF assms(1) v1_def]) simp_all
  also have "\<dots> = ?run [?c 6] 4 v2 (out @ [of_byte (unat a)])"
    by (subst decode_emit [OF assms(1) v2_def _ b2]) simp_all
  also have "\<dots> = ?run [] 2 v3 (out @ [of_byte (unat a), of_byte (unat b)])"
    by (subst decode_emit [OF assms(1) v3_def _ b3]) simp_all
  finally have "?run [?c 18, ?c 12, ?c 6] 0 val out = Some (2, v3, out @ map (\<lambda>x. of_byte (unat x)) [a, b])"
    by simp
  with low show ?thesis by blast
qed

lemma decode_one:
  fixes a :: u8
  assumes "alphabet_ok alphabet" and "v = (push_bit 16 (ucast a) :: u32)"
  shows "\<exists>val'. b64_decode_loop (make_b64_table alphabet) [b64_char alphabet v 18, b64_char alphabet v 12] 0 val out =
    Some (4, val', out @ [of_byte (unat a)]) \<and> val' AND (push_bit 4 1 - 1) = 0"
proof -
  define v1 where "v1 = push_bit 6 val OR (drop_bit 18 v AND 0x3F)"
  define v2 where "v2 = push_bit 6 v1 OR (drop_bit 12 v AND 0x3F)"
  have a1: "agree 6 v1 v 18" using agree_sextet [of 0 val v 18] by (simp add: v1_def agree_0)
  have a2: "agree 12 v2 v 12" using agree_sextet [of 6 v1 v 12] a1 by (simp add: v2_def)
  have "agree 4 v2 v 12" using a2 by (simp add: agree_def)
  moreover have "\<forall>m<4. \<not> bit v (12 + m)"
    using assms(2) by (auto simp: bit_push_bit_iff bit_unsigned_iff dest: bit_u8)
  ultimately have low: "v2 AND (push_bit 4 1 - 1) = 0" by (intro agree_low) auto
  have b2: "drop_bit 4 v2 AND 0xFF = ucast a"
    using agree_byte [OF a2, of 4] group_bytes [of a 0 0] assms(2) by simp
  let ?c = "b64_char alphabet v" and ?run = "b64_decode_loop (make_b64_table alphabet)"
  have "?run [?c 18, ?c 12] 0 val out = ?run [?c 12] 6 v1 out"
    by (rule decode_keep [OF assms(1) v1_def]) simp_all
  also have "\<dots> = ?run [] 4 v2 (out @ [of_byte (unat a)])"
    by (subst decode_emit [OF assms(1) v2_def _ b2]) simp_all
  finally have "?run [?c 18, ?c 12] 0 val out = Some (4, v2, out @ [of_byte (unat a)])" by simp
  with low show ?thesis by blast
qed

lemma b64_char_mem: "alphabet_ok alphabet \<Longrightarrow> b64_char alphabet v k \<in> set alphabet"
  by (simp add: b64_char_def alphabet_ok_def sextet_less)

text \<open>The encoding without its padding, and the padding.\<close>

definition b64_pad :: "u8 list \<Rightarrow> string" where
  "b64_pad bs = (case length bs mod 3 of 0 \<Rightarrow> [] | Suc 0 \<Rightarrow> ''=='' | _ \<Rightarrow> ''='')"

lemma b64_encode_pad:
  "b64_encode_impl bs alphabet True = b64_encode_impl bs alphabet False @ b64_pad bs"
  by (induction bs alphabet "True" rule: b64_encode_impl.induct) (simp_all add: b64_pad_def Let_def numeral_2_eq_2)

lemma b64_encode_props:
  assumes "alphabet_ok alphabet"
  shows "CHR ''='' \<notin> set (b64_encode_impl bs alphabet False)"
    and "length (b64_encode_impl bs alphabet False) mod 4 =
      (case length bs mod 3 of 0 \<Rightarrow> 0 | Suc 0 \<Rightarrow> 2 | _ \<Rightarrow> 3)"
proof -
  have no: "CHR ''='' \<noteq> b64_char al v k" if "alphabet_ok al" for al v k
    using b64_char_mem [OF that] that by (metis alphabet_ok_def)
  show "CHR ''='' \<notin> set (b64_encode_impl bs alphabet False)"
    using assms by (induction bs alphabet "False" rule: b64_encode_impl.induct) (auto simp: Let_def no)
  show "length (b64_encode_impl bs alphabet False) mod 4 =
      (case length bs mod 3 of 0 \<Rightarrow> 0 | Suc 0 \<Rightarrow> 2 | _ \<Rightarrow> 3)"
  proof (induction bs alphabet "False" rule: b64_encode_impl.induct)
    case (4 a b c rest alphabet)
    have "Suc (Suc (Suc n)) mod 3 = n mod 3" "Suc (Suc (Suc (Suc n))) mod 4 = n mod 4" for n :: nat
      by presburger+
    with 4 show ?case by (simp add: Let_def)
  qed (simp_all add: Let_def)
qed

lemma b64_decode_encoded:
  assumes "alphabet_ok alphabet"
  shows "\<exists>bits val'. b64_decode_loop (make_b64_table alphabet) (b64_encode_impl bs alphabet False) 0 val out =
      Some (bits, val', out @ map (\<lambda>x. of_byte (unat x)) bs) \<and> (0 < bits \<longrightarrow> val' AND (push_bit bits 1 - 1) = 0)"
  using assms
proof (induction bs alphabet "False" arbitrary: val out rule: b64_encode_impl.induct)
  case (2 a alphabet)
  from decode_one [OF "2.prems" refl, of a val out] show ?case
    unfolding b64_encode_impl.simps Let_def by (auto simp del: b64_decode_loop.simps)
next
  case (3 a b alphabet)
  from decode_two [OF "3.prems" refl, of a b val out] show ?case
    unfolding b64_encode_impl.simps Let_def by (auto simp del: b64_decode_loop.simps)
next
  case (4 a b c rest alphabet)
  let ?v = "((push_bit 16 (ucast a) :: u32) OR push_bit 8 (ucast b)) OR ucast c"
  from decode_group [OF "4.prems" refl, of a b c "b64_encode_impl rest alphabet False" val out]
  obtain val1 where "b64_decode_loop (make_b64_table alphabet) (b64_encode_impl (a # b # c # rest) alphabet False) 0 val out =
      b64_decode_loop (make_b64_table alphabet) (b64_encode_impl rest alphabet False) 0 val1
        (out @ map (\<lambda>x. of_byte (unat x)) [a, b, c])"
    unfolding b64_encode_impl.simps Let_def by (auto simp del: b64_decode_loop.simps)
  with "4.hyps" [OF refl "4.prems", of val1 "out @ map (\<lambda>x. of_byte (unat x)) [a, b, c]"] show ?case
    by (simp del: b64_decode_loop.simps b64_encode_impl.simps)
qed simp

lemma b64_roundtrip:
  assumes "alphabet_ok alphabet"
  shows "b64_decode_impl (b64_encode_impl bs alphabet padding) (make_b64_table alphabet) =
    map (\<lambda>x. of_byte (unat x)) bs"
proof -
  let ?p = "b64_encode_impl bs alphabet False"
  note props = b64_encode_props [OF assms, of bs]
  obtain bits val' where dec: "b64_decode_loop (make_b64_table alphabet) ?p 0 0 [] =
      Some (bits, val', map (\<lambda>x. of_byte (unat x)) bs)" "0 < bits \<longrightarrow> val' AND (push_bit bits 1 - 1) = 0"
    using b64_decode_encoded [OF assms, of bs 0 "[]"] by auto
  have m: "length ?p mod 4 \<noteq> 1" using props(2) by (auto split: nat.splits)
  show ?thesis
  proof (cases "padding \<and> b64_pad bs \<noteq> []")
    case False
    then have "b64_encode_impl bs alphabet padding = ?p"
      by (cases padding) (auto simp: b64_encode_pad)
    with dec m props(1) show ?thesis by (auto simp: b64_decode_impl_def Let_def substr_def)
  next
    case True
    have "(length ?p + length (b64_pad bs)) mod 4 = 0"
    proof (cases "length bs mod 3 = 1")
      case one: True
      then have "length ?p mod 4 = 2" "length (b64_pad bs) = 2" using props(2) by (simp_all add: b64_pad_def)
      then show ?thesis by presburger
    next
      case False
      with True have "length ?p mod 4 = 3" "length (b64_pad bs) = 1"
        using props(2) by (auto simp: b64_pad_def split: nat.splits)
      then show ?thesis by presburger
    qed
    moreover from True obtain t where t: "b64_pad bs = CHR ''='' # t" "t = [] \<or> t = ''=''"
      by (auto simp: b64_pad_def split: nat.splits if_splits)
    ultimately have pad: "b64_pad bs = CHR ''='' # t" "t = [] \<or> t = ''=''" "(length ?p + Suc (length t)) mod 4 = 0"
      by simp_all
    have enc: "b64_encode_impl bs alphabet padding = ?p @ CHR ''='' # t"
      using True by (simp add: b64_encode_pad pad(1))
    have "sv_find (?p @ CHR ''='' # t) CHR ''='' = Some (length ?p)" using props(1) by simp
    with dec m pad show ?thesis unfolding enc by (auto simp: b64_decode_impl_def Let_def substr_def)
  qed
qed

lemma of_byte_span: "map (\<lambda>x. of_byte (unat x)) (to_unsigned_span s) = s"
proof -
  have "of_byte (unat (of_nat (byte c) :: u8)) = c" for c
    by (simp add: unat_of_nat)
  then show ?thesis by (simp add: to_unsigned_span_def o_def)
qed

text \<open>
  C10: Base64 is lossless for every byte string, in the padded standard alphabet and in the
  unpadded URL-safe one.
\<close>

theorem base64_lossless:
  "base64_decode (base64_encode (to_unsigned_span s)) = s
   \<and> base64url_decode (base64url_encode (to_unsigned_span s)) = s"
  by (simp add: base64_decode_def base64_encode_def base64url_decode_def base64url_encode_def
      b64_roundtrip of_byte_span)

section \<open>Facts about SHA-256\<close>

lemma fold_update_range:
  "off + n \<le> length p \<Longrightarrow>
     fold (\<lambda>i q. q[off + i := f i]) [0..<n] p = take off p @ map f [0..<n] @ drop (off + n) p"
proof (induction n)
  case (Suc n)
  have "drop (off + n) p = p ! (off + n) # drop (off + Suc n) p"
    using Suc.prems by (simp add: Cons_nth_drop_Suc)
  with Suc show ?case by (simp add: list_update_append)
qed simp

lemma fill_zero_eq:
  assumes "a \<le> b" and "b \<le> length p"
  shows "fill_zero p a b = take a p @ replicate (b - a) 0 @ drop b p"
proof -
  have "[a..<b] = map (\<lambda>i. i + a) [0..<b - a]" using assms(1) map_add_upt [of a "b - a"] by simp
  then have "fill_zero p a b = fold (\<lambda>i q. q[a + i := 0]) [0..<b - a] p"
    by (simp only: fill_zero_def fold_map o_def add.commute [of _ a])
  also have "\<dots> = take a p @ map (\<lambda>_. 0) [0..<b - a] @ drop (a + (b - a)) p"
    using assms by (intro fold_update_range) simp
  finally show ?thesis using assms by (simp add: map_replicate_const)
qed

lemma length_copy_at: "off + length src \<le> length dst \<Longrightarrow> length (copy_at dst off src) = length dst"
  by (simp add: copy_at_def)

lemma sha256_blocks_short: "length m < 64 \<Longrightarrow> sha256_blocks h m = (h, m)"
  by (subst sha256_blocks.simps) simp

lemma sha256_blocks_step:
  "64 \<le> length m \<Longrightarrow> sha256_blocks h m = sha256_blocks (sha256_compress h (take 64 m)) (drop 64 m)"
  by (subst sha256_blocks.simps) simp

lemma sha256_blocks_append:
  "sha256_blocks h (a @ b) = sha256_blocks (fst (sha256_blocks h a)) (snd (sha256_blocks h a) @ b)"
proof (induction h a rule: sha256_blocks.induct)
  case (1 h a)
  show ?case
  proof (cases "64 \<le> length a")
    case True
    then have "sha256_blocks h (a @ b) = sha256_blocks (sha256_compress h (take 64 a)) (drop 64 a @ b)"
      by (subst sha256_blocks_step) simp_all
    with "1.IH" [OF True] True show ?thesis by (simp add: sha256_blocks_step [of a h])
  next
    case False
    then show ?thesis by (simp add: sha256_blocks_short)
  qed
qed

lemma length_sha256_rest: "length (snd (sha256_blocks h m)) = length m mod 64"
proof (induction h m rule: sha256_blocks.induct)
  case (1 h m)
  show ?case
  proof (cases "64 \<le> length m")
    case True
    with "1.IH" [OF True] show ?thesis by (simp add: sha256_blocks_step [of m h] le_mod_geq)
  qed (simp add: sha256_blocks_short)
qed

text \<open>The state after the bytes \<open>d\<close>: whole blocks are compressed, the rest is pending.\<close>

definition sha_inv :: "u8 list \<Rightarrow> sha256_state \<Rightarrow> bool" where
  "sha_inv d st \<longleftrightarrow>
     sha_h st = fst (sha256_blocks sha256_h0 d) \<and> length (sha_pending st) = 64
     \<and> sha_pending_size st = length d mod 64
     \<and> take (sha_pending_size st) (sha_pending st) = snd (sha256_blocks sha256_h0 d)
     \<and> sha_bytes st = of_nat (length d)"

lemma sha_inv_init: "sha_inv [] sha256_init"
  by (simp add: sha_inv_def sha256_init_def sha256_blocks_short)

lemma sha_inv_update:
  assumes "sha_inv d st" shows "sha_inv (d @ msg) (sha256_update st msg)"
proof -
  define h r where "h = fst (sha256_blocks sha256_h0 d)" and "r = snd (sha256_blocks sha256_h0 d)"
  have inv: "sha_h st = h" "length (sha_pending st) = 64" "sha_pending_size st = length r"
    "take (length r) (sha_pending st) = r" "sha_bytes st = of_nat (length d)"
    using assms length_sha256_rest [of sha256_h0 d] by (auto simp: sha_inv_def h_def r_def)
  have r: "length r < 64" by (simp add: r_def length_sha256_rest)
  have all: "sha256_blocks sha256_h0 (d @ msg) = sha256_blocks h (r @ msg)"
    unfolding h_def r_def by (rule sha256_blocks_append)
  have size: "length (snd (sha256_blocks h (r @ msg))) = length (d @ msg) mod 64"
    using length_sha256_rest [of sha256_h0 "d @ msg"] by (simp add: all)
  consider "r = []" | "r \<noteq> []" "64 \<le> length r + length msg" | "r \<noteq> []" "length r + length msg < 64" by linarith
  then show ?thesis
  proof cases
    case 1
    obtain h2 m2 where b: "sha256_blocks h msg = (h2, m2)" by fastforce
    with size 1 have "length m2 < 64" "length m2 = length (d @ msg) mod 64" by (simp_all add: length_sha256_rest)
    with 1 b inv all show ?thesis
      by (auto simp: sha_inv_def sha256_update_def Let_def copy_at_def)
  next
    case 2
    let ?n = "64 - length r"
    have blk: "take 64 (r @ msg) = r @ take ?n msg" "drop 64 (r @ msg) = drop ?n msg" using r by simp_all
    have pend: "copy_at (sha_pending st) (length r) (take ?n msg) = r @ take ?n msg"
      using 2 r inv by (simp add: copy_at_def)
    obtain h2 m2 where b: "sha256_blocks (sha256_compress h (r @ take ?n msg)) (drop ?n msg) = (h2, m2)" by fastforce
    have all2: "sha256_blocks h (r @ msg) = (h2, m2)"
      using 2 b r sha256_blocks_step [of "r @ msg" h] by simp
    with size have m2: "length m2 < 64" "length m2 = length (d @ msg) mod 64" by simp_all
    have "min (length msg) (64 - length r) = ?n" "length (r @ take ?n msg) = 64" using 2 r by simp_all
    with 2 b inv all all2 pend m2 show ?thesis
      by (auto simp: sha_inv_def sha256_update_def Let_def copy_at_def)
  next
    case 3
    have "sha256_blocks h (r @ msg) = (h, r @ msg)" using 3 by (intro sha256_blocks_short) simp
    moreover have "copy_at (sha_pending st) (length r) msg = r @ msg @ drop (length r + length msg) (sha_pending st)"
      using inv by (simp add: copy_at_def)
    moreover have "length (d @ msg) mod 64 = length r + length msg" using size calculation(1) by simp
    ultimately show ?thesis
      using 3 inv all by (auto simp: sha_inv_def sha256_update_def Let_def sha256_blocks_short min_def)
  qed
qed

lemma sha_inv_updates: "sha_inv d st \<Longrightarrow> sha_inv (d @ concat msgs) (foldl sha256_update st msgs)"
proof (induction msgs arbitrary: d st)
  case (Cons m msgs)
  from Cons.IH [OF sha_inv_update [OF Cons.prems]] show ?case by simp
qed simp

definition len_bytes :: "u64 \<Rightarrow> u8 list" where
  "len_bytes v = map (\<lambda>i. ucast (drop_bit (56 - i * 8) v AND 0xFF)) [0..<8]"

lemma make_sha_padded_eq:
  "make_sha_padded msg =
     msg @ 0x80 # replicate ((120 - (length msg + 1) mod 64) mod 64) 0 @ len_bytes (of_nat (length msg) * 8)"
proof -
  let ?z = "(120 - (length msg + 1) mod 64) mod 64"
  let ?p = "msg @ 0x80 # replicate (?z + 8) 0"
  have "copy_at (replicate (length msg + 1 + ?z + 8) 0) 0 msg = msg @ replicate (Suc (?z + 8)) (0 :: u8)"
    by (simp add: copy_at_def)
  moreover have "(msg @ replicate (Suc (?z + 8)) (0 :: u8))[length msg := 0x80] = ?p"
    by (simp only: replicate_Suc list_update_length)
  moreover have "fold (\<lambda>k q. q[length msg + 1 + ?z + k := g k]) [0..<8] ?p =
      (msg @ 0x80 # replicate ?z 0) @ map g [0..<8]" for g
    by (subst fold_update_range) (simp_all add: take_Cons')
  ultimately show ?thesis
    by (simp add: make_sha_padded_def Let_def len_bytes_def mult.commute)
qed


definition digest_bytes :: "u32 list \<Rightarrow> u8 list" where
  "digest_bytes h = map (\<lambda>i. ucast (drop_bit (24 - (i mod 4) * 8) (h ! (i div 4)) AND 0xFF)) [0..<32]"

definition with_length :: "u64 \<Rightarrow> u8 list \<Rightarrow> u8 list" where
  "with_length v p = fold (\<lambda>i q. q[56 + i := ucast (drop_bit (56 - i * 8) v AND 0xFF)]) [0..<8] p"

lemma with_length_eq: "length p = 64 \<Longrightarrow> with_length v p = take 56 p @ len_bytes v"
  unfolding with_length_def len_bytes_def by (subst fold_update_range) (simp_all only: drop_all append_Nil2)

lemma length_len_bytes [simp]: "length (len_bytes v) = 8"
  by (simp add: len_bytes_def)

lemma sha256_final_cases:
  assumes "p = (sha_pending st)[sha_pending_size st := 0x80]" and "n = sha_pending_size st + 1"
    and "v = sha_bytes st * 8"
  shows "56 < n \<Longrightarrow> sha256_final st = digest_bytes
      (sha256_compress (sha256_compress (sha_h st) (fill_zero p n 64)) (with_length v (fill_zero (fill_zero p n 64) 0 56)))"
    and "n \<le> 56 \<Longrightarrow> sha256_final st = digest_bytes (sha256_compress (sha_h st) (with_length v (fill_zero p n 56)))"
  unfolding assms sha256_final_def Let_def digest_bytes_def with_length_def
  by (simp_all only: if_True if_False prod.case not_less [symmetric])

lemma zero_pad:
  "n mod 64 < 56 \<Longrightarrow> (120 - (n + 1) mod 64) mod 64 = 55 - n mod (64 :: nat)"
  "56 \<le> n mod 64 \<Longrightarrow> (120 - (n + 1) mod 64) mod 64 = 119 - n mod (64 :: nat)"
proof -
  define k where "k = n mod 64"
  have k: "k < 64" "(n + 1) mod 64 = (k + 1) mod 64" by (simp_all add: k_def mod_Suc_eq)
  show "n mod 64 < 56 \<Longrightarrow> (120 - (n + 1) mod 64) mod 64 = 55 - n mod (64 :: nat)"
    unfolding k(2) k_def [symmetric] by (simp add: mod_if [of _ 64])
  show "56 \<le> n mod 64 \<Longrightarrow> (120 - (n + 1) mod 64) mod 64 = 119 - n mod (64 :: nat)"
    unfolding k(2) k_def [symmetric] using k(1) by (cases "k = 63") auto
qed

lemma one_block:
  assumes "length b = 64"
  shows "sha256_blocks h b = (sha256_compress h b, [])"
    and "fst (sha256_blocks h b) = sha256_compress h b"
proof -
  show "sha256_blocks h b = (sha256_compress h b, [])"
    using assms by (subst sha256_blocks_step) (simp_all add: sha256_blocks_short)
  then show "fst (sha256_blocks h b) = sha256_compress h b" by simp
qed

lemma sha256_final_eq:
  assumes "sha_inv d st"
  shows "sha256_final st = digest_bytes (fst (sha256_blocks sha256_h0 (make_sha_padded d)))"
proof -
  define h r where "h = fst (sha256_blocks sha256_h0 d)" and "r = snd (sha256_blocks sha256_h0 d)"
  define v where "v = (of_nat (length d) * 8 :: u64)"
  have inv: "sha_h st = h" "length (sha_pending st) = 64" "sha_pending_size st = length r"
    "take (length r) (sha_pending st) = r" "sha_bytes st * 8 = v"
    using assms length_sha256_rest [of sha256_h0 d] by (auto simp: sha_inv_def h_def r_def v_def)
  have r: "length r = length d mod 64" by (simp add: r_def length_sha256_rest)
  define z where "z = (120 - (length d + 1) mod 64) mod 64"
  have z: "z = (if length r < 56 then 55 - length r else (63 - length r) + 56)" "length r < 64"
    using zero_pad [of "length d"] r unfolding z_def by (simp_all add: not_less del: add_Suc_right)
  have all: "sha256_blocks sha256_h0 (make_sha_padded d) = sha256_blocks h (r @ 0x80 # replicate z 0 @ len_bytes v)"
    unfolding make_sha_padded_eq h_def r_def v_def z_def by (rule sha256_blocks_append)
  obtain x q where q: "sha_pending st = r @ x # q" "length r + Suc (length q) = 64"
  proof -
    have "drop (length r) (sha_pending st) \<noteq> []" using inv(2) z(2) by simp
    then obtain x q where "drop (length r) (sha_pending st) = x # q" by (cases "drop (length r) (sha_pending st)") auto
    moreover from this have "sha_pending st = r @ x # q" by (metis append_take_drop_id inv(4))
    ultimately show ?thesis using that inv(2) by auto
  qed
  define p where "p = r @ 0x80 # q"
  have p: "(sha_pending st)[sha_pending_size st := 0x80] = p" "length p = 64"
    using q inv(3) by (simp_all add: p_def)
  show ?thesis
  proof (cases "length r < 56")
    case True
    define a where "a = r @ 0x80 # replicate z (0 :: u8)"
    have len: "length a = 56" using True z(1) by (simp add: a_def)
    have "fill_zero p (length r + 1) 56 = a @ drop 56 p"
      using True p(2) z(1) by (subst fill_zero_eq) (simp_all add: p_def a_def)
    then have blk: "with_length v (fill_zero p (length r + 1) 56) = a @ len_bytes v"
      using len p(2) by (subst with_length_eq) simp_all
    have "sha256_final st = digest_bytes (sha256_compress (sha_h st) (with_length v (fill_zero p (length r + 1) 56)))"
      by (rule sha256_final_cases(2)) (use p(1) inv(3,5) True in simp_all)
    moreover have "fst (sha256_blocks h (a @ len_bytes v)) = sha256_compress h (a @ len_bytes v)"
      by (rule one_block(2)) (use len in simp)
    ultimately show ?thesis
      unfolding all inv(1) blk by (simp only: a_def append_assoc append_Cons)
  next
    case False
    have p1: "fill_zero p (length r + 1) 64 = r @ 0x80 # replicate (63 - length r) 0"
      using p(2) q(2) by (simp add: fill_zero_eq p_def)
    define b where "b = r @ 0x80 # replicate (63 - length r) (0 :: u8)"
    have len: "length b = 64" using z(2) by (simp add: b_def)
    define zs where "zs = replicate 56 (0 :: u8)"
    have zs: "length zs = 56" by (simp only: zs_def length_replicate)
    have le: "56 \<le> length b" using len by simp
    have fz: "fill_zero b 0 56 = zs @ drop 56 b"
      by (simp only: fill_zero_eq [OF le0 le] zs_def take_0 append_Nil diff_zero)
    have p2: "with_length v (fill_zero b 0 56) = zs @ len_bytes v"
      unfolding fz using len zs by (subst with_length_eq) simp_all
    have eq: "r @ 0x80 # replicate z 0 @ len_bytes v = b @ (zs @ len_bytes v)"
      using False z(1) by (simp only: b_def zs_def if_False replicate_add append_assoc append_Cons)
    have "fst (sha256_blocks h (r @ 0x80 # replicate z 0 @ len_bytes v)) =
        sha256_compress (sha256_compress h b) (zs @ len_bytes v)"
      unfolding eq using one_block(1) [OF len, of h] sha256_blocks_append [of h b "zs @ len_bytes v"] zs
      by (simp add: one_block(2))
    moreover have "sha256_final st = digest_bytes (sha256_compress (sha256_compress (sha_h st) (fill_zero p (length r + 1) 64))
        (with_length v (fill_zero (fill_zero p (length r + 1) 64) 0 56)))"
      by (rule sha256_final_cases(1)) (use p(1) inv(3,5) False in simp_all)
    ultimately show ?thesis
      unfolding all inv(1) p1 b_def [symmetric] p2 by (simp only:)
  qed
qed

text \<open>
  C8: Streaming SHA-256 is independent of how the message is split: any sequence of
  \<open>sha256_update\<close> calls followed by \<open>sha256_final\<close> yields the digest of the concatenated message
  padded as FIPS 180-4 prescribes (\<open>make_sha_padded\<close>) and compressed block by block.
\<close>

theorem sha256_streaming:
  "sha256_final (foldl sha256_update sha256_init msgs) =
     digest_bytes (fst (sha256_blocks sha256_h0 (make_sha_padded (concat msgs))))"
  using sha256_final_eq [OF sha_inv_updates [OF sha_inv_init, of msgs]] by (simp only: append_Nil)

lemma sha256_eq: "sha256 msg = digest_bytes (fst (sha256_blocks sha256_h0 (make_sha_padded msg)))"
  using sha256_final_eq [OF sha_inv_update [OF sha_inv_init, of msg]]
  by (simp only: sha256_def sha256_noalloc_def append_Nil)

definition hmac_key_block :: "u8 list \<Rightarrow> u8 list" where
  "hmac_key_block key = (let k = (if 64 < length key then sha256 key else key) in k @ replicate (64 - length k) 0)"

lemma length_sha256 [simp]: "length (sha256 msg) = 32"
  by (simp only: sha256_eq digest_bytes_def length_map length_upt diff_zero)

lemma hmac_precomputed_eq:
  "hmac_sha256_precomputed key a b = sha256 (hk_outer key @ sha256 (hk_inner key @ a @ b))"
proof -
  have "sha256_final (sha256_update (sha256_update (sha256_update sha256_init x) y) z) = sha256 (x @ y @ z)" for x y z
    using sha256_final_eq [OF sha_inv_update [OF sha_inv_update [OF sha_inv_update [OF sha_inv_init]]], of x y z]
    by (simp only: sha256_eq append_Nil append_assoc)
  moreover have "sha256_final (sha256_update (sha256_update sha256_init x) y) = sha256 (x @ y)" for x y
    using sha256_final_eq [OF sha_inv_update [OF sha_inv_update [OF sha_inv_init]], of x y] by (simp only: sha256_eq append_Nil)
  ultimately show ?thesis by (simp only: hmac_sha256_precomputed_def Let_def)
qed

text \<open>
  C9: \<open>hmac_sha256\<close> is the HMAC of RFC 2104: the hash of the key block with \<open>0x5C\<close>, followed by
  the hash of the key block with \<open>0x36\<close> and the message, where the key block is the key, hashed
  when it is longer than 64 bytes, padded with zeros. The precomputed key and the two-part message
  of the streaming interface change nothing.
\<close>

theorem hmac_sha256_rfc2104:
  "hmac_sha256 key msg =
     sha256 (map (\<lambda>b. b XOR 0x5C) (hmac_key_block key) @ sha256 (map (\<lambda>b. b XOR 0x36) (hmac_key_block key) @ msg))
   \<and> hmac_sha256_precomputed (hmac_sha256_key key) msg1 msg2 = hmac_sha256 key (msg1 @ msg2)"
proof -
  have "hmac_sha256_key key = \<lparr>hk_inner = map (\<lambda>b. b XOR 0x36) (hmac_key_block key),
      hk_outer = map (\<lambda>b. b XOR 0x5C) (hmac_key_block key)\<rparr>"
    by (simp add: hmac_sha256_key_def hmac_key_block_def copy_at_def Let_def sha256_def [symmetric])
  then show ?thesis by (simp add: hmac_sha256_def hmac_precomputed_eq)
qed

section \<open>Facts about the comparison\<close>

lemma foldl_or_zero:
  "foldl (\<lambda>acc i. acc OR f i) z is = (0 :: u8) \<longleftrightarrow> z = 0 \<and> (\<forall>i\<in>set is. f i = 0)"
proof (induction "is" arbitrary: z)
  case (Cons i "is")
  have "z OR f i = 0 \<longleftrightarrow> z = 0 \<and> f i = 0"
    by (auto simp: bit_eq_iff bit_or_iff)
  with Cons show ?case by auto
qed simp

text \<open>
  \<open>constant_time_eq\<close> is equality, although it never stops at the first difference.
\<close>

lemma constant_time_eq_iff: "constant_time_eq a b \<longleftrightarrow> a = b"
proof -
  have "constant_time_eq a b \<longleftrightarrow> length a = length b \<and> (\<forall>i<length a. a ! i = b ! i)"
    by (simp add: constant_time_eq_def foldl_or_zero xor_eq_0_iff_eq Ball_def)
  then show ?thesis by (simp only: list_eq_iff_nth_eq)
qed

lemma to_unsigned_span_inj: "to_unsigned_span a = to_unsigned_span b \<longleftrightarrow> a = b"
proof
  assume "to_unsigned_span a = to_unsigned_span b"
  from arg_cong [OF this, of "map (\<lambda>x. of_byte (unat x))"] show "a = b" by (simp only: of_byte_span)
qed simp

end
