(* ===== verification/Middleware.thy ===== *)
theory Middleware
  imports Router Http_Parse Crypto Support
begin

unbundle bit_operations_syntax

text \<open>
  The middlewares that ship with the server: CORS, CSRF, security headers, redirects, cache
  control, trailing slashes, forwarded headers, the IP filter, entity tags, request ids and
  signed cookies.  Each is the program its factory returns, over the continuation of the router.
  The facts say which requests reach the continuation and what the response carries.
\<close>

section \<open>Shared shapes\<close>

text \<open>Code that runs after \<open>next\<close>: an exception passes through, a response is changed.\<close>

definition after_next :: "(response \<Rightarrow> response) \<Rightarrow> exn + response \<Rightarrow> 'w \<Rightarrow> 'w mw_prog" where
  "after_next f res w = Mw_return (case res of Inl e \<Rightarrow> Inl e | Inr resp \<Rightarrow> Inr (f resp)) w"

definition pass_on :: "request \<Rightarrow> 'w \<Rightarrow> 'w mw_prog" where
  "pass_on req w = Mw_next req w Mw_return"

definition reply :: "response \<Rightarrow> 'w \<Rightarrow> 'w mw_prog" where
  "reply resp w = Mw_return (Inr resp) w"

definition kHttpForbidden :: int where "kHttpForbidden = 403"

section \<open>CORS\<close>

record cors_options =
  allowed_origins :: "string list"
  allowed_methods :: "string list"
  allowed_headers :: "string list"
  expose_headers :: "string list"
  cors_max_age :: nat
  allow_credentials :: bool

definition kCorsDefaultMaxAge :: nat where "kCorsDefaultMaxAge = 86400"

definition cors_options_new :: cors_options where
  "cors_options_new =
     \<lparr>allowed_origins = [''*''],
      allowed_methods = [''GET'', ''POST'', ''PUT'', ''DELETE'', ''PATCH'', ''OPTIONS''],
      allowed_headers = [''Content-Type'', ''Authorization'', ''Accept''], expose_headers = [],
      cors_max_age = kCorsDefaultMaxAge, allow_credentials = False\<rparr>"

record prepared_cors_options =
  pc_opts :: cors_options
  pc_allowed_methods :: string
  pc_allowed_headers :: string
  pc_expose_headers :: string
  pc_max_age :: string
  pc_wildcard_origin :: bool

definition prepare_cors :: "cors_options \<Rightarrow> prepared_cors_options" where
  "prepare_cors opts =
     \<lparr>pc_opts = opts, pc_allowed_methods = join_header_tokens (allowed_methods opts),
      pc_allowed_headers = join_header_tokens (allowed_headers opts),
      pc_expose_headers = join_header_tokens (expose_headers opts), pc_max_age = dec_string (cors_max_age opts),
      pc_wildcard_origin = (allowed_origins opts = [''*''])\<rparr>"

definition resolve_origin :: "prepared_cors_options \<Rightarrow> string \<Rightarrow> string" where
  "resolve_origin policy origin =
     (if pc_wildcard_origin policy then (if allow_credentials (pc_opts policy) then origin else ''*'')
      else if List.member (allowed_origins (pc_opts policy)) origin then origin else [])"

definition inject_cors_headers :: "prepared_cors_options \<Rightarrow> string \<Rightarrow> response \<Rightarrow> response" where
  "inject_cors_headers policy request_origin resp =
     (let origin = resolve_origin policy request_origin
      in if origin = [] then resp
         else
           let resp = put_header ''Access-Control-Allow-Origin'' origin resp;
               resp = (if allow_credentials (pc_opts policy)
                       then put_header ''Access-Control-Allow-Credentials'' ''true'' resp else resp);
               resp = (if pc_expose_headers policy \<noteq> []
                       then put_header ''Access-Control-Expose-Headers'' (pc_expose_headers policy) resp else resp)
           in append_vary ''Origin'' resp)"

definition cors_preflight :: "prepared_cors_options \<Rightarrow> string \<Rightarrow> response" where
  "cors_preflight policy request_origin =
     (let preflight = response_no_content\<lparr>resp_content_type := ''text/plain''\<rparr>;
          origin = resolve_origin policy request_origin
      in if origin = [] then preflight
         else
           let r = put_header ''Access-Control-Allow-Origin'' origin preflight;
               r = put_header ''Access-Control-Allow-Methods'' (pc_allowed_methods policy) r;
               r = put_header ''Access-Control-Allow-Headers'' (pc_allowed_headers policy) r;
               r = put_header ''Access-Control-Max-Age'' (pc_max_age policy) r;
               r = (if allow_credentials (pc_opts policy)
                    then put_header ''Access-Control-Allow-Credentials'' ''true'' r else r)
           in put_header ''Vary'' ''Origin'' r)"

definition cors_middleware :: "cors_options \<Rightarrow> 'w middleware" where
  "cors_middleware opts req w =
     (let policy = prepare_cors opts; request_origin = req_header req ''origin''
      in if req_method req = ''OPTIONS'' \<and> request_origin \<noteq> [] \<and> req_header req ''access-control-request-method'' \<noteq> []
         then reply (cors_preflight policy request_origin) w
         else Mw_next req w (after_next (\<lambda>resp.
                if request_origin \<noteq> [] then inject_cors_headers policy request_origin resp else resp)))"

section \<open>CSRF\<close>

record csrf_options =
  csrf_cookie_name :: string
  csrf_header_name :: string
  csrf_form_field :: string
  csrf_cookie_attrs :: string
  protected_methods :: "string list"

definition csrf_options_new :: csrf_options where
  "csrf_options_new =
     \<lparr>csrf_cookie_name = ''csrf_token'', csrf_header_name = ''X-CSRF-Token'', csrf_form_field = ''csrf_token'',
      csrf_cookie_attrs = ''Path=/; Secure; SameSite=Strict'',
      protected_methods = [''POST'', ''PUT'', ''PATCH'', ''DELETE'']\<rparr>"

text \<open>\<open>random24\<close> is the 24 bytes of system randomness drawn from the world.\<close>

definition generate_token :: "('w \<Rightarrow> u8 list \<times> 'w) \<Rightarrow> 'w \<Rightarrow> string \<times> 'w" where
  "generate_token random24 w = (case random24 w of (bytes, w') \<Rightarrow> (base64url_encode bytes, w'))"

definition csrf_refresh ::
    "('w \<Rightarrow> u8 list \<times> 'w) \<Rightarrow> csrf_options \<Rightarrow> request \<Rightarrow> exn + response \<Rightarrow> 'w \<Rightarrow> 'w mw_prog" where
  "csrf_refresh random24 opts req res w =
     (case res of
        Inl e \<Rightarrow> Mw_return (Inl e) w
      | Inr resp \<Rightarrow>
          (let token = req_cookie req (ascii_lower (csrf_cookie_name opts))
           in case (if token = [] then generate_token random24 w else (token, w)) of
                (token, w') \<Rightarrow>
                  reply (put_header (csrf_header_name opts) token
                    (set_cookie (csrf_cookie_name opts) token (csrf_cookie_attrs opts) resp)) w'))"

definition csrf_middleware :: "('w \<Rightarrow> u8 list \<times> 'w) \<Rightarrow> csrf_options \<Rightarrow> 'w middleware" where
  "csrf_middleware random24 opts req w =
     (let lower_cookie = ascii_lower (csrf_cookie_name opts);
          lower_header = ascii_lower (csrf_header_name opts);
          lower_field = ascii_lower (csrf_form_field opts);
          go = Mw_next req w (csrf_refresh random24 opts req)
      in if list_ex (\<lambda>m. m = req_method req) (protected_methods opts) then
           let cookie_token = req_cookie req lower_cookie
           in if cookie_token = [] then reply (response_text ''CSRF token missing'' kHttpForbidden) w
              else
                let submitted = req_header req lower_header;
                    submitted = (if submitted = [] then req_form_value req lower_field else submitted)
                in if \<not> constant_time_eq_sv cookie_token submitted
                   then reply (response_text ''CSRF token invalid'' kHttpForbidden) w
                   else go
         else go)"

section \<open>Security headers, redirects, cache control\<close>

record security_options =
  hsts_max_age :: nat
  hsts_include_subdomains :: bool
  frame_options :: string
  nosniff :: bool
  xss_protection :: string
  referrer_policy :: string
  permissions_policy :: string
  csp :: string
  hsts_only_on_tls :: bool

definition put_if :: "bool \<Rightarrow> string \<Rightarrow> string \<Rightarrow> response \<Rightarrow> response" where
  "put_if b k v r = (if b then put_header k v r else r)"

definition security_headers :: "security_options \<Rightarrow> request \<Rightarrow> response \<Rightarrow> response" where
  "security_headers opts req resp =
     (let hsts = ''max-age='' @ dec_string (hsts_max_age opts) @
            (if hsts_include_subdomains opts then ''; includeSubDomains'' else []);
          resp = put_if (hsts_max_age opts > 0 \<and> (\<not> hsts_only_on_tls opts \<or> req_is_tls req))
                   ''Strict-Transport-Security'' hsts resp;
          resp = put_if (frame_options opts \<noteq> []) ''X-Frame-Options'' (frame_options opts) resp;
          resp = put_if (nosniff opts) ''X-Content-Type-Options'' ''nosniff'' resp;
          resp = put_if (xss_protection opts \<noteq> []) ''X-XSS-Protection'' (xss_protection opts) resp;
          resp = put_if (referrer_policy opts \<noteq> []) ''Referrer-Policy'' (referrer_policy opts) resp;
          resp = put_if (permissions_policy opts \<noteq> []) ''Permissions-Policy'' (permissions_policy opts) resp
      in put_if (csp opts \<noteq> []) ''Content-Security-Policy'' (csp opts) resp)"

definition security_headers_middleware :: "security_options \<Rightarrow> 'w middleware" where
  "security_headers_middleware opts req w = Mw_next req w (after_next (security_headers opts req))"

definition is_safe_redirect_suffix :: "string \<Rightarrow> bool" where
  "is_safe_redirect_suffix s \<longleftrightarrow>
     \<not> prefix ''//'' s \<and> \<not> prefix [CHR ''/'', CHR 0x5C] s \<and>
     list_all (\<lambda>c. c \<noteq> CHR ''@'' \<and> c \<noteq> CHR 0x5C \<and> c \<noteq> CHR 0x0D \<and> c \<noteq> CHR 0x0A) s"

record redirect_rule =
  rr_from :: string
  rr_to :: string
  rr_status :: int
  rr_prefix_match :: bool

fun redirect_loop :: "redirect_rule list \<Rightarrow> request \<Rightarrow> 'w \<Rightarrow> 'w mw_prog" where
  "redirect_loop [] req w = pass_on req w"
| "redirect_loop (rule # rules) req w =
     (if rr_prefix_match rule then
        (if prefix (rr_from rule) (req_path req) then
           (let suffix = drop (length (rr_from rule)) (req_path req)
            in if \<not> is_safe_redirect_suffix suffix then reply (response_not_found (req_path req)) w
               else reply (response_redirect (rr_to rule @ suffix) (rr_status rule)) w)
         else redirect_loop rules req w)
      else if req_path req = rr_from rule then reply (response_redirect (rr_to rule) (rr_status rule)) w
      else redirect_loop rules req w)"

definition redirect_middleware :: "redirect_rule list \<Rightarrow> 'w middleware" where
  "redirect_middleware rules req w = redirect_loop rules req w"

record cache_rule =
  mime_prefix :: string
  directive :: string

record cache_control_options =
  cache_rules :: "cache_rule list"
  default_directive :: string

fun cache_rule_loop :: "cache_rule list \<Rightarrow> string \<Rightarrow> string \<Rightarrow> response \<Rightarrow> response" where
  "cache_rule_loop [] mime dflt resp = (if dflt \<noteq> [] then put_header ''Cache-Control'' dflt resp else resp)"
| "cache_rule_loop (rule # rules) mime dflt resp =
     (if mime_prefix rule = [] \<or> prefix (mime_prefix rule) mime
      then (if directive rule \<noteq> [] then put_header ''Cache-Control'' (directive rule) resp else resp)
      else cache_rule_loop rules mime dflt resp)"

text \<open>The test goes through the non-const \<open>operator[]\<close>, which adds the field when it is absent.\<close>

definition cache_control_apply :: "cache_control_options \<Rightarrow> response \<Rightarrow> response" where
  "cache_control_apply opts resp =
     (case fields_ref (resp_headers resp) ''Cache-Control'' of
        (i, headers) \<Rightarrow>
          let resp = resp\<lparr>resp_headers := headers\<rparr>
          in if snd (field_data headers ! i) \<noteq> [] then resp
             else cache_rule_loop (cache_rules opts) (content_type_media_type (resp_content_type resp))
                    (default_directive opts) resp)"

definition cache_control_middleware :: "cache_control_options \<Rightarrow> 'w middleware" where
  "cache_control_middleware opts req w = Mw_next req w (after_next (cache_control_apply opts))"

section \<open>Trailing slashes\<close>

datatype trailing_slash_mode = Slash_remove | Slash_add

fun build_query_loop :: "(string \<times> string) list \<Rightarrow> bool \<Rightarrow> string \<Rightarrow> string" where
  "build_query_loop [] first out = out"
| "build_query_loop ((k, v) # kvs) first out =
     build_query_loop kvs False
       (append_url_percent_encoded (append_url_percent_encoded (if first then out else out @ ''&'') k @ ''='') v)"

definition build_query :: "http_fields \<Rightarrow> string" where
  "build_query query = build_query_loop (field_data query) True []"

definition slash_redirect :: "int \<Rightarrow> request \<Rightarrow> string \<Rightarrow> response" where
  "slash_redirect code req new_path =
     (let new_path = (if \<not> fields_empty (req_query req) then new_path @ ''?'' @ build_query (req_query req) else new_path)
      in (response_redirect new_path code)\<lparr>resp_content_type := ''text/plain; charset=utf-8''\<rparr>)"

definition trailing_slash_middleware :: "trailing_slash_mode \<Rightarrow> int \<Rightarrow> 'w middleware" where
  "trailing_slash_middleware mode code req w =
     (let path = req_path req
      in if path = ''/'' \<or> path = [] then pass_on req w
         else
           let has_slash = (last path = CHR ''/'')
           in if mode = Slash_remove \<and> has_slash then reply (slash_redirect code req (butlast path)) w
              else if mode = Slash_add \<and> \<not> has_slash then reply (slash_redirect code req (path @ ''/'')) w
              else pass_on req w)"

section \<open>Client addresses\<close>

text \<open>
  \<open>inet_pton\<close> and \<open>inet_ntop\<close> for both families are arguments, as in the address utilities.  An address that cannot be read counts as the all-zero address.
\<close>

record forwarded_options =
  trusted_proxies :: "string list"
  use_x_forwarded_for :: bool
  use_x_real_ip :: bool

definition zero_ip :: ip_addr where "zero_ip = replicate 16 0"

definition peer_ip :: "pton \<Rightarrow> pton \<Rightarrow> string \<Rightarrow> ip_addr" where
  "peer_ip pton4 pton6 addr = (case parse_ip pton4 pton6 addr of None \<Rightarrow> zero_ip | Some ip \<Rightarrow> ip)"

definition ip_to_string :: "(u8 list \<Rightarrow> string) \<Rightarrow> (u8 list \<Rightarrow> string) \<Rightarrow> ip_addr \<Rightarrow> string" where
  "ip_to_string ntop4 ntop6 ip =
     (if take 12 ip = replicate 10 0 @ [0xFF, 0xFF] then ntop4 (drop 12 ip) else ntop6 ip)"

definition in_cidrs :: "ip_cidr list \<Rightarrow> ip_addr \<Rightarrow> bool" where
  "in_cidrs cidrs ip = list_ex (\<lambda>c. cidr_match c ip) cidrs"

definition xff_first :: "string \<Rightarrow> string" where
  "xff_first v = trim (case sv_find v CHR '','' of None \<Rightarrow> v | Some comma \<Rightarrow> take comma v)"

definition forwarded_real_ip :: "forwarded_options \<Rightarrow> request \<Rightarrow> string" where
  "forwarded_real_ip opts req =
     (let xff = req_header req ''x-forwarded-for'';
          real_ip = (if use_x_forwarded_for opts \<and> xff \<noteq> [] then xff_first xff else []);
          xri = req_header req ''x-real-ip''
      in if real_ip = [] \<and> use_x_real_ip opts \<and> xri \<noteq> [] then trim xri else real_ip)"

definition forwarded_sanitize :: "request \<Rightarrow> request" where
  "forwarded_sanitize req =
     (let r = request_to_owned req
      in r\<lparr>req_headers := fields_assign ''x-real-ip'' [] (fields_assign ''x-forwarded-for'' [] (req_headers r))\<rparr>)"

definition forwarded_middleware ::
    "pton \<Rightarrow> pton \<Rightarrow> (u8 list \<Rightarrow> string) \<Rightarrow> (u8 list \<Rightarrow> string) \<Rightarrow> forwarded_options \<Rightarrow> 'w middleware" where
  "forwarded_middleware pton4 pton6 ntop4 ntop6 opts req w =
     (let cidrs = parse_cidr_list pton4 pton6 (trusted_proxies opts)
      in if \<not> in_cidrs cidrs (peer_ip pton4 pton6 (req_remote_addr req)) then pass_on (forwarded_sanitize req) w
         else
           let real_ip = forwarded_real_ip opts req
           in if real_ip = [] then pass_on req w
              else
                let real_ip = (case parse_ip pton4 pton6 real_ip of Some ip \<Rightarrow> ip_to_string ntop4 ntop6 ip | None \<Rightarrow> real_ip)
                in pass_on ((request_to_owned req)\<lparr>req_remote_addr := real_ip\<rparr>) w)"

datatype ip_filter_mode = Mode_allowlist | Mode_blocklist

definition ip_filter_middleware :: "pton \<Rightarrow> pton \<Rightarrow> ip_filter_mode \<Rightarrow> string list \<Rightarrow> 'w middleware" where
  "ip_filter_middleware pton4 pton6 mode cidrs req w =
     (let matched = in_cidrs (parse_cidr_list pton4 pton6 cidrs) (peer_ip pton4 pton6 (req_remote_addr req));
          forbidden = reply (response_text ''Forbidden'' kHttpForbidden) w
      in if mode = Mode_allowlist then (if matched then pass_on req w else forbidden)
         else if matched then forbidden else pass_on req w)"

section \<open>Entity tags and request ids\<close>

definition weak_value :: "string \<Rightarrow> string" where
  "weak_value tag = (if prefix ''W/'' tag then drop 2 tag else tag)"

definition weak_match :: "string \<Rightarrow> string \<Rightarrow> bool" where
  "weak_match lhs rhs \<longleftrightarrow> weak_value lhs = weak_value rhs"

definition etag_of_body :: "bool \<Rightarrow> string \<Rightarrow> string" where
  "etag_of_body weak body =
     (if weak then ''W/'' else []) @ CHR 0x22 # append_hex [] (unat (fnv1a64 body)) @ [CHR 0x22]"

definition etag_apply :: "bool \<Rightarrow> request \<Rightarrow> response \<Rightarrow> response" where
  "etag_apply weak req resp =
     (if fields_at (resp_headers resp) ''ETag'' \<noteq> [] then resp
      else if \<not> is_text resp then resp
      else if text_body resp = [] then resp
      else
        let etag = etag_of_body weak (text_body resp); resp = put_header ''ETag'' etag resp;
            inm = req_header req ''if-none-match''
        in if inm \<noteq> [] \<and> list_ex (\<lambda>t. t = ''*'' \<or> weak_match t etag) (header_tokens inm)
           then response_not_modified etag else resp)"

definition etag_middleware :: "bool \<Rightarrow> 'w middleware" where
  "etag_middleware weak req w = Mw_next req w (after_next (etag_apply weak req))"

definition set_uuid_bits :: "u8 list \<Rightarrow> u8 list" where
  "set_uuid_bits bytes =
     (let bytes = bytes[6 := (bytes ! 6 AND 0x0F) OR 0x40]
      in bytes[8 := (bytes ! 8 AND 0x3F) OR 0x80])"

definition uuid_text :: "u8 list \<Rightarrow> string" where
  "uuid_text bytes =
     foldl (\<lambda>out i. (if i = 4 \<or> i = 6 \<or> i = 8 \<or> i = 10 then out @ ''-'' else out) @
         [hex_lower ! unat (drop_bit 4 (bytes ! i)), hex_lower ! unat (bytes ! i AND 0xF)]) [] [0..<16]"

definition generate_uuid :: "('w \<Rightarrow> u8 list \<times> 'w) \<Rightarrow> 'w \<Rightarrow> string \<times> 'w" where
  "generate_uuid random16 w = (case random16 w of (bytes, w') \<Rightarrow> (uuid_text (set_uuid_bits bytes), w'))"

definition request_id_middleware :: "('w \<Rightarrow> u8 list \<times> 'w) \<Rightarrow> string \<Rightarrow> bool \<Rightarrow> 'w middleware" where
  "request_id_middleware random16 header trust_incoming req w =
     (let lower_header = ascii_lower header;
          existing = (if trust_incoming then req_header req lower_header else [])
      in case (if existing = [] then generate_uuid random16 w else (existing, w)) of
           (rid, w') \<Rightarrow>
             let r = request_to_owned req
             in Mw_next (r\<lparr>req_headers := fields_assign lower_header rid (req_headers r)\<rparr>) w'
                  (after_next (put_header header rid)))"

section \<open>Signed cookies\<close>

record resolved_secret_rotation =
  secret_active :: string
  secret_previous :: "string list"
  min_secret_bytes :: nat

definition validate_secret_bytes :: "string \<Rightarrow> string \<Rightarrow> nat \<Rightarrow> string option" where
  "validate_secret_bytes secret n min_bytes =
     (if secret = [] then Some (''auth secret '' @ [CHR 0x27] @ n @ [CHR 0x27] @ '': resolved secret is empty'')
      else if length secret < min_bytes
      then Some (''auth secret '' @ [CHR 0x27] @ n @ [CHR 0x27] @ '': resolved secret must be at least '' @
             dec_string min_bytes @ '' bytes'')
      else None)"

fun validate_previous :: "string list \<Rightarrow> nat \<Rightarrow> string \<Rightarrow> nat \<Rightarrow> string option" where
  "validate_previous [] i n min_bytes = None"
| "validate_previous (s # ss) i n min_bytes =
     (case validate_secret_bytes s (n @ ''.previous['' @ dec_string i @ '']'') min_bytes of
        Some e \<Rightarrow> Some e
      | None \<Rightarrow> validate_previous ss (i + 1) n min_bytes)"

text \<open>\<open>None\<close> is success.\<close>

definition validate_secret_rotation :: "resolved_secret_rotation \<Rightarrow> string \<Rightarrow> string option" where
  "validate_secret_rotation secrets n =
     (case validate_secret_bytes (secret_active secrets) n (min_secret_bytes secrets) of
        Some e \<Rightarrow> Some e
      | None \<Rightarrow> validate_previous (secret_previous secrets) 0 n (min_secret_bytes secrets))"

definition mac_b64 :: "string \<Rightarrow> string \<Rightarrow> string" where
  "mac_b64 v secret = base64url_encode (hmac_sha256 (to_unsigned_span secret) (to_unsigned_span v))"

definition signed_value_matches :: "string \<Rightarrow> string \<Rightarrow> string \<Rightarrow> bool" where
  "signed_value_matches v sig secret = constant_time_eq_sv sig (mac_b64 v secret)"

definition verify_cookie_with_validated_secrets :: "string \<Rightarrow> resolved_secret_rotation \<Rightarrow> string option" where
  "verify_cookie_with_validated_secrets raw secrets =
     (case sv_rfind raw CHR ''.'' of
        None \<Rightarrow> None
      | Some dot \<Rightarrow>
          let v = take dot raw; sig = drop (dot + 1) raw
          in if signed_value_matches v sig (secret_active secrets) then Some v
             else if list_ex (signed_value_matches v sig) (secret_previous secrets) then Some v
             else None)"

definition sign_cookie_unchecked :: "string \<Rightarrow> string \<Rightarrow> string" where
  "sign_cookie_unchecked v secret = v @ ''.'' @ mac_b64 v secret"

definition sign_cookie :: "string \<Rightarrow> resolved_secret_rotation \<Rightarrow> string + string" where
  "sign_cookie v secrets =
     (case validate_secret_rotation secrets ''cookie'' of
        Some e \<Rightarrow> Inl e
      | None \<Rightarrow> Inr (sign_cookie_unchecked v (secret_active secrets)))"

definition verify_cookie_unchecked :: "string \<Rightarrow> string \<Rightarrow> string option" where
  "verify_cookie_unchecked raw secret =
     (case sv_rfind raw CHR ''.'' of
        None \<Rightarrow> None
      | Some dot \<Rightarrow>
          if \<not> signed_value_matches (take dot raw) (drop (dot + 1) raw) secret then None
          else Some (take dot raw))"

definition verify_cookie :: "string \<Rightarrow> resolved_secret_rotation \<Rightarrow> string option" where
  "verify_cookie raw secrets =
     (case validate_secret_rotation secrets ''cookie'' of
        Some _ \<Rightarrow> None
      | None \<Rightarrow> verify_cookie_with_validated_secrets raw secrets)"

definition signed_cookie_value :: "resolved_secret_rotation \<Rightarrow> bool \<Rightarrow> string \<Rightarrow> string" where
  "signed_cookie_value secrets strip_invalid v =
     (if CHR ''.'' \<notin> set v then v
      else case verify_cookie_with_validated_secrets v secrets of
             Some plain \<Rightarrow> plain
           | None \<Rightarrow> if strip_invalid then [] else v)"

text \<open>The factory throws on secrets that are not acceptable.\<close>

definition cookie_signing_middleware ::
    "resolved_secret_rotation \<Rightarrow> bool \<Rightarrow> exn + 'w middleware" where
  "cookie_signing_middleware secrets strip_invalid =
     (case validate_secret_rotation secrets ''cookie'' of
        Some e \<Rightarrow> Inl (Std_exception e)
      | None \<Rightarrow>
          Inr (\<lambda>req w.
            let r = request_to_owned req
            in pass_on (r\<lparr>req_cookies := (req_cookies r)\<lparr>field_data :=
                 map (\<lambda>(k, v). (k, signed_cookie_value secrets strip_invalid v)) (field_data (req_cookies r))\<rparr>\<rparr>) w))"

section \<open>Virtual hosts\<close>

record 'w vhost_router =
  vhosts :: "(string \<times> 'w router) list"
  vhost_default :: "'w router option"

text \<open>\<open>emplace\<close> keeps the router already registered for a host.\<close>

definition vhost_add :: "string \<Rightarrow> 'w router \<Rightarrow> 'w vhost_router \<Rightarrow> 'w vhost_router" where
  "vhost_add host rt vr =
     (if map_of (vhosts vr) (ascii_lower host) = None
      then vr\<lparr>vhosts := vhosts vr @ [(ascii_lower host, rt)]\<rparr> else vr)"

definition vhost_set_default :: "'w router \<Rightarrow> 'w vhost_router \<Rightarrow> 'w vhost_router" where
  "vhost_set_default rt vr = vr\<lparr>vhost_default := Some rt\<rparr>"

definition vhost_resolve :: "'w vhost_router \<Rightarrow> string \<Rightarrow> 'w router option" where
  "vhost_resolve vr host_header =
     (case map_of (vhosts vr) (ascii_lower (host_without_port host_header)) of
        Some rt \<Rightarrow> Some rt
      | None \<Rightarrow> vhost_default vr)"

definition vhost_dispatch :: "'w sse_env \<Rightarrow> 'w vhost_router \<Rightarrow> request \<Rightarrow> 'w \<Rightarrow> 'w outcome" where
  "vhost_dispatch env vr req w =
     (case vhost_resolve vr (req_header req ''host'') of
        Some rt \<Rightarrow> router_dispatch env rt req w
      | None \<Rightarrow> (Inr (response_not_found (req_path req)), w))"

definition vhost_has_context_routes :: "'w vhost_router \<Rightarrow> bool" where
  "vhost_has_context_routes vr \<longleftrightarrow>
     list_ex (\<lambda>(h, rt). has_context_routes rt) (vhosts vr) \<or>
     (case vhost_default vr of None \<Rightarrow> False | Some rt \<Rightarrow> has_context_routes rt)"


section \<open>Which requests reach the handlers\<close>

lemma chain_reply [simp]:
  "mw req w = reply resp w' \<Longrightarrow> middleware_chain (mw # mws) inner req w = (Inr resp, w')"
  by (simp add: reply_def)

lemma chain_pass_on [simp]:
  "mw req w = pass_on q w' \<Longrightarrow> middleware_chain (mw # mws) inner req w = middleware_chain mws inner q w'"
  by (simp add: pass_on_def split: prod.split)

lemma chain_after_next:
  "mw req w = Mw_next q w' (after_next f) \<Longrightarrow>
   middleware_chain (mw # mws) inner req w =
     (case middleware_chain mws inner q w' of (res, w'') \<Rightarrow> (map_sum (\<lambda>e. e) f res, w''))"
  by (simp add: after_next_def split: prod.split sum.split)

lemma constant_time_eq_sv_iff: "constant_time_eq_sv a b \<longleftrightarrow> a = b"
  by (simp add: constant_time_eq_sv_def constant_time_eq_iff to_unsigned_span_inj)

definition csrf_submitted :: "csrf_options \<Rightarrow> request \<Rightarrow> string" where
  "csrf_submitted opts req =
     (let h = req_header req (ascii_lower (csrf_header_name opts))
      in if h = [] then req_form_value req (ascii_lower (csrf_form_field opts)) else h)"

text \<open>
  C25: On a protected method the CSRF middleware lets a request through to the rest of the chain only
  when its cookie token is not empty and equals the submitted one; then the response carries that
  token as cookie and header, and an exception passes.  Every other request is answered with 403
  and nothing behind the middleware runs: the world is unchanged.
\<close>

theorem csrf_guard:
  assumes "req_method req \<in> set (protected_methods opts)"
  shows "middleware_chain (csrf_middleware random24 opts # mws) inner req w =
    (let token = req_cookie req (ascii_lower (csrf_cookie_name opts))
     in if token = [] then (Inr (response_text ''CSRF token missing'' 403), w)
        else if csrf_submitted opts req \<noteq> token then (Inr (response_text ''CSRF token invalid'' 403), w)
        else case middleware_chain mws inner req w of
               (Inl e, w') \<Rightarrow> (Inl e, w')
             | (Inr resp, w') \<Rightarrow>
                 (Inr (put_header (csrf_header_name opts) token
                    (set_cookie (csrf_cookie_name opts) token (csrf_cookie_attrs opts) resp)), w'))"
proof -
  have p: "list_ex (\<lambda>m. m = req_method req) (protected_methods opts)" using assms by (simp add: list_ex_iff)
  show ?thesis
    using p
    by (auto simp: csrf_middleware_def csrf_submitted_def Let_def constant_time_eq_sv_iff reply_def csrf_refresh_def
        kHttpForbidden_def split: prod.split sum.split)
qed

theorem csrf_guard_witness:
  "middleware_chain [csrf_middleware (\<lambda>w :: nat. ([], w)) csrf_options_new]
     (\<lambda>r w. (Inr (response_text ''ok'' 200), w + 1)) (owned_request_new\<lparr>req_method := ''POST''\<rparr>) 7 =
   (Inr (response_text ''CSRF token missing'' 403), 7)"
proof -
  have t: "req_cookie (owned_request_new\<lparr>req_method := ''POST''\<rparr>) (ascii_lower ''csrf_token'') = []" by code_simp
  show ?thesis
    by (subst csrf_guard) (simp_all add: csrf_options_new_def t)
qed

section \<open>Signed cookies are the ones that were signed\<close>

lemma b64_char_in: "alphabet_ok alphabet \<Longrightarrow> b64_char alphabet v k \<in> set alphabet"
  using sextet_less by (auto simp: b64_char_def alphabet_ok_def intro!: nth_mem)

lemma b64_impl_chars:
  "alphabet_ok alphabet \<Longrightarrow> set (b64_encode_impl bs alphabet padding) \<subseteq> insert CHR ''='' (set alphabet)"
  by (induction bs alphabet padding rule: b64_encode_impl.induct) (auto simp: Let_def b64_char_in)

lemma mac_b64_no_dot: "CHR ''.'' \<notin> set (mac_b64 v k)"
proof -
  have "CHR ''.'' \<notin> set kB64UrlAlphabet" by (simp add: kB64UrlAlphabet_def)
  then show ?thesis
    using b64_impl_chars [OF alphabets_ok(2)] by (fastforce simp: mac_b64_def base64url_encode_def)
qed

lemma verify_validated_iff:
  "verify_cookie_with_validated_secrets raw secrets = Some v \<longleftrightarrow>
   (\<exists>k\<in>set (secret_active secrets # secret_previous secrets). raw = sign_cookie_unchecked v k)"
  (is "?L \<longleftrightarrow> ?R")
proof
  assume ?L
  then obtain dot where d: "sv_rfind raw CHR ''.'' = Some dot" and v: "v = take dot raw"
    and m: "signed_value_matches v (drop (dot + 1) raw) (secret_active secrets) \<or>
            list_ex (signed_value_matches v (drop (dot + 1) raw)) (secret_previous secrets)"
    by (auto simp: verify_cookie_with_validated_secrets_def Let_def split: option.splits if_splits)
  from m obtain k where "k \<in> set (secret_active secrets # secret_previous secrets)"
    and "drop (dot + 1) raw = mac_b64 v k"
    by (auto simp: signed_value_matches_def constant_time_eq_sv_iff list_ex_iff)
  with v sv_rfind_split(1) [OF d] show ?R by (auto simp: sign_cookie_unchecked_def)
next
  assume ?R
  then obtain k where k: "k \<in> set (secret_active secrets # secret_previous secrets)"
    and r: "raw = v @ CHR ''.'' # mac_b64 v k" by (auto simp: sign_cookie_unchecked_def)
  have "sv_rfind raw CHR ''.'' = Some (length v)" unfolding r by (rule sv_rfind_append_found [OF mac_b64_no_dot])
  with k r show ?L
    by (auto simp: verify_cookie_with_validated_secrets_def signed_value_matches_def constant_time_eq_sv_iff
        list_ex_iff Let_def)
qed

text \<open>
  C26: A cookie verifies to a value exactly when the configured secrets are acceptable and the cookie
  is that value signed under the active or a previous secret: nothing else is accepted, a rotated
  secret goes on working, and a value with dots of its own is recovered whole.
\<close>

theorem cookie_verify_iff:
  "verify_cookie raw secrets = Some v \<longleftrightarrow>
   validate_secret_rotation secrets ''cookie'' = None \<and>
   (\<exists>k\<in>set (secret_active secrets # secret_previous secrets). raw = sign_cookie_unchecked v k)"
  by (simp only: verify_cookie_def verify_validated_iff [symmetric]) (auto split: option.split)

text \<open>The value of a signed cookie comes back, under the active secret and after it was rotated out.\<close>

lemma sign_verify_cookie: "sign_cookie v secrets = Inr raw \<Longrightarrow> verify_cookie raw secrets = Some v"
  by (simp add: sign_cookie_def verify_cookie_def verify_validated_iff split: option.splits)

lemma verify_after_rotation:
  assumes "secret_active old \<in> set (secret_previous secrets)"
    and "validate_secret_rotation secrets ''cookie'' = None" and "sign_cookie v old = Inr raw"
  shows "verify_cookie raw secrets = Some v"
  using assms by (auto simp: sign_cookie_def verify_cookie_def verify_validated_iff split: option.splits)

section \<open>A slash redirect keeps the query\<close>

definition query_component :: "string \<times> string \<Rightarrow> string" where
  "query_component kv = url_percent_encode (fst kv) @ CHR ''='' # url_percent_encode (snd kv)"

fun query_body :: "(string \<times> string) list \<Rightarrow> string" where
  "query_body [] = []"
| "query_body [kv] = query_component kv"
| "query_body (kv # kvs) = query_component kv @ CHR ''&'' # query_body kvs"

lemma append_percent: "append_url_percent_encoded out s = out @ url_percent_encode s"
  by (simp add: url_percent_encode_def append_url_percent_encoded_def append_url_encoded_impl_eq)

lemma build_query_loop_eq:
  "build_query_loop kvs first out =
     out @ (if kvs = [] \<or> first then query_body kvs else CHR ''&'' # query_body kvs)"
proof (induction kvs arbitrary: first out)
  case (Cons kv kvs)
  then show ?case by (cases kv; cases kvs) (auto simp: append_percent query_component_def)
qed simp

lemma percent_encode_no: "\<not> is_url_unreserved c \<Longrightarrow> c \<noteq> CHR ''%'' \<Longrightarrow> c \<notin> set (url_percent_encode s)"
  using url_percent_encode_alphabet by blast

lemma query_component_parsed:
  "urlencoded_component (query_component kv) out = fields_emplace_back (fst kv) (snd kv) out"
proof -
  have "sv_find (query_component kv) CHR ''='' = Some (length (url_percent_encode (fst kv)))"
    unfolding query_component_def by (rule sv_find_append_found) (simp add: percent_encode_no)
  then show ?thesis
    using url_decode_no_escape [of "url_percent_encode (fst kv)"] url_decode_no_escape [of "url_percent_encode (snd kv)"]
    by (auto simp: urlencoded_component_def query_component_def substr_def substr_from_def url_percent_roundtrip Let_def)
qed

lemma query_body_parsed: "field_data (parse_urlencoded (query_body kvs) out) = field_data out @ kvs"
proof (induction kvs arbitrary: out rule: query_body.induct)
  case 1
  then show ?case by (simp add: parse_urlencoded.simps urlencoded_component_def)
next
  case (2 kv)
  have "CHR ''&'' \<notin> set (query_component kv)" by (auto simp: query_component_def percent_encode_no)
  then show ?case by (simp add: parse_urlencoded.simps query_component_parsed fields_emplace_back_def)
next
  case (3 kv kv' kvs)
  have "CHR ''&'' \<notin> set (query_component kv)" by (auto simp: query_component_def percent_encode_no)
  then have "parse_urlencoded (query_body (kv # kv' # kvs)) out =
      parse_urlencoded (query_body (kv' # kvs)) (fields_emplace_back (fst kv) (snd kv) out)"
    by (subst parse_urlencoded.simps) (simp add: query_component_parsed)
  with 3 show ?case by (simp add: fields_emplace_back_def)
qed

text \<open>The query a redirect writes is parsed back to the fields of the request that was redirected.\<close>

lemma build_query_parsed: "field_data (parse_urlencoded (build_query q) out) = field_data out @ field_data q"
  by (simp add: build_query_def build_query_loop_eq query_body_parsed)

section \<open>Identifiers and validators\<close>

lemma uuid_text_shape:
  assumes "length bytes = 16"
  shows "length (uuid_text bytes) = 36"
  by (simp add: uuid_text_def upt_rec)

lemma uuid_version_and_variant:
  assumes "length bytes = 16"
  shows "drop_bit 4 (set_uuid_bits bytes ! 6) = 4" and "drop_bit 6 (set_uuid_bits bytes ! 8) = 2"
    and "length (set_uuid_bits bytes) = 16"
  using assms
  by (auto simp: set_uuid_bits_def Let_def drop_bit_and drop_bit_or intro!: bit_word_eqI)

text \<open>A 304 is sent for a text response without a validator of its own, when a listed tag matches.\<close>

lemma etag_not_modified:
  assumes "fields_at (resp_headers resp) ''ETag'' = []" and "is_text resp" and "text_body resp \<noteq> []"
    and "t \<in> set (header_tokens (req_header req ''if-none-match''))"
    and "weak_match t (etag_of_body weak (text_body resp))"
    and "req_header req ''if-none-match'' \<noteq> []"
  shows "etag_apply weak req resp = response_not_modified (etag_of_body weak (text_body resp))"
  using assms by (auto simp: etag_apply_def Let_def list_ex_iff)

section \<open>The address the filter sees\<close>

definition client_address :: "pton \<Rightarrow> pton \<Rightarrow> (u8 list \<Rightarrow> string) \<Rightarrow> (u8 list \<Rightarrow> string) \<Rightarrow> forwarded_options \<Rightarrow> request \<Rightarrow> string" where
  "client_address pton4 pton6 ntop4 ntop6 opts req =
     (if in_cidrs (parse_cidr_list pton4 pton6 (trusted_proxies opts)) (peer_ip pton4 pton6 (req_remote_addr req))
         \<and> forwarded_real_ip opts req \<noteq> []
      then case parse_ip pton4 pton6 (forwarded_real_ip opts req) of
             Some ip \<Rightarrow> ip_to_string ntop4 ntop6 ip
           | None \<Rightarrow> forwarded_real_ip opts req
      else req_remote_addr req)"

definition address_blocked :: "pton \<Rightarrow> pton \<Rightarrow> ip_filter_mode \<Rightarrow> string list \<Rightarrow> string \<Rightarrow> bool" where
  "address_blocked pton4 pton6 mode cidrs addr \<longleftrightarrow>
     in_cidrs (parse_cidr_list pton4 pton6 cidrs) (peer_ip pton4 pton6 addr) = (mode = Mode_blocklist)"

lemma ip_filter_cases:
  "ip_filter_middleware pton4 pton6 mode cidrs req w =
   (if address_blocked pton4 pton6 mode cidrs (req_remote_addr req)
    then reply (response_text ''Forbidden'' 403) w else pass_on req w)"
  by (cases mode) (auto simp: ip_filter_middleware_def address_blocked_def kHttpForbidden_def Let_def)

lemma forwarded_passes:
  "\<exists>q. forwarded_middleware pton4 pton6 ntop4 ntop6 opts req w = pass_on q w \<and>
       req_remote_addr q = client_address pton4 pton6 ntop4 ntop6 opts req \<and>
       req_method q = req_method req \<and> req_path q = req_path req \<and> req_body q = req_body req"
  by (auto simp: forwarded_middleware_def client_address_def Let_def forwarded_sanitize_def request_to_owned_def
      split: option.split)


end
