(* ===== verification/Rate_Limit.thy ===== *)
theory Rate_Limit
  imports Middleware
begin

text \<open>
  The rate limiter (\<open>net/rate_limit.cxx\<close>, \<open>net/rate_limit_impl.cxx\<close>): the sharded store of token
  buckets, the key of a client and the middleware.  Times are \<open>steady_clock\<close> nanoseconds;
  \<open>std::hash\<close> is an argument.  A shard's mutex makes each request one step on the store.
  The facts bound what a client is granted in any stretch of time as long as window, however the
  requests of other clients are interleaved.
\<close>

section \<open>Buckets and shards\<close>

record rate_limit_options =
  rl_requests :: u32
  rl_window :: int
  rl_burst :: u32
  rl_max_clients :: nat

definition rate_limit_options_new :: rate_limit_options where
  "rate_limit_options_new = \<lparr>rl_requests = 100, rl_window = 60, rl_burst = 0, rl_max_clients = 65536\<rparr>"

record bucket =
  tokens :: u32
  window_start :: int

type_synonym rl_store = "bucket lru list"

definition target_shards :: nat where "target_shards = 64"
definition min_clients_per_shard :: nat where "min_clients_per_shard = 1024"

definition shard_count :: "nat \<Rightarrow> nat" where
  "shard_count max_clients = min target_shards (max 1 (max max_clients 1 div min_clients_per_shard))"

definition store_new :: "nat \<Rightarrow> rl_store" where
  "store_new max_clients =
     (let total = max max_clients 1; n = shard_count max_clients; base = total div n; extra = total mod n
      in map (\<lambda>i. lru_new (base + (if i < extra then 1 else 0))) [0..<n])"

text \<open>\<open>fn\<close> updates the bucket it is given and returns a result.\<close>

definition with_bucket ::
    "(string \<Rightarrow> nat) \<Rightarrow> string \<Rightarrow> bucket \<Rightarrow> (bucket \<Rightarrow> 'a \<times> bucket) \<Rightarrow> rl_store \<Rightarrow> 'a \<times> rl_store" where
  "with_bucket hash key made fn shards =
     (let i = hash key mod length shards
      in case lru_get_or_create key made (shards ! i) of
           (touched, m) \<Rightarrow>
             (case fn (touch_value touched) of (r, b) \<Rightarrow> (r, shards[i := lru_store key b m])))"

section \<open>The key of a client\<close>

definition decimal_port :: "string \<Rightarrow> bool" where
  "decimal_port v \<longleftrightarrow> v \<noteq> [] \<and> list_all is_digit v"

definition canonical_endpoint_ip ::
    "pton \<Rightarrow> pton \<Rightarrow> (u8 list \<Rightarrow> string) \<Rightarrow> (u8 list \<Rightarrow> string) \<Rightarrow> string \<Rightarrow> string option" where
  "canonical_endpoint_ip pton4 pton6 ntop4 ntop6 remote_addr =
     (let canon = (\<lambda>s. map_option (ip_to_string ntop4 ntop6) (parse_ip pton4 pton6 s))
      in if prefix ''['' remote_addr then
           (case sv_find remote_addr CHR '']'' of
              None \<Rightarrow> None
            | Some close \<Rightarrow>
                if close + 1 \<ge> length remote_addr \<or> remote_addr ! (close + 1) \<noteq> CHR '':'' then None
                else if \<not> decimal_port (drop (close + 2) remote_addr) then None
                else canon (substr remote_addr 1 (close - 1)))
         else
           (case sv_rfind remote_addr CHR '':'' of
              None \<Rightarrow> None
            | Some colon \<Rightarrow>
                if sv_find remote_addr CHR '':'' \<noteq> Some colon then None
                else if \<not> decimal_port (drop (colon + 1) remote_addr) then None
                else canon (take colon remote_addr)))"

definition rate_limit_remote_key ::
    "pton \<Rightarrow> pton \<Rightarrow> (u8 list \<Rightarrow> string) \<Rightarrow> (u8 list \<Rightarrow> string) \<Rightarrow> string \<Rightarrow> string" where
  "rate_limit_remote_key pton4 pton6 ntop4 ntop6 remote_addr =
     (if remote_addr = [] then ''unknown''
      else case parse_ip pton4 pton6 remote_addr of
             Some parsed \<Rightarrow> ip_to_string ntop4 ntop6 parsed
           | None \<Rightarrow>
               (case canonical_endpoint_ip pton4 pton6 ntop4 ntop6 remote_addr of
                  Some parsed \<Rightarrow> parsed
                | None \<Rightarrow> remote_addr))"

section \<open>The middleware\<close>

definition second :: int where "second = 10 ^ 9"

text \<open>\<open>requests + burst\<close> wraps around at 32 bits.\<close>

definition rl_capacity :: "rate_limit_options \<Rightarrow> u32" where
  "rl_capacity opts = rl_requests opts + rl_burst opts"

text \<open>
  The body run on the bucket; the result is the seconds to wait when the request is refused.
  \<open>duration_cast\<close> truncates toward zero.
\<close>

definition seconds_between :: "int \<Rightarrow> int \<Rightarrow> int" where
  "seconds_between start now = sgn (now - start) * (\<bar>now - start\<bar> div second)"

definition bucket_step :: "rate_limit_options \<Rightarrow> int \<Rightarrow> bucket \<Rightarrow> u32 option \<times> bucket" where
  "bucket_step opts now b =
     (let elapsed = seconds_between (window_start b) now;
          reset = elapsed \<ge> rl_window opts;
          b = (if reset then \<lparr>tokens = rl_capacity opts, window_start = now\<rparr> else b);
          elapsed = (if reset then 0 else elapsed)
      in if tokens b > 0 then (None, b\<lparr>tokens := tokens b - 1\<rparr>)
         else (Some (word_of_int (rl_window opts - elapsed)), b))"

definition rate_limit_step ::
    "(string \<Rightarrow> nat) \<Rightarrow> rate_limit_options \<Rightarrow> string \<Rightarrow> int \<Rightarrow> rl_store \<Rightarrow> u32 option \<times> rl_store" where
  "rate_limit_step hash opts key now =
     with_bucket hash key \<lparr>tokens = rl_capacity opts, window_start = now\<rparr> (bucket_step opts now)"

definition kHttpTooManyRequests :: int where "kHttpTooManyRequests = 429"

definition too_many_requests :: "u32 \<Rightarrow> response" where
  "too_many_requests retry_after =
     put_header ''Retry-After'' (dec_string (unat retry_after)) (response_text ''Too Many Requests'' kHttpTooManyRequests)"

definition rate_limit_middleware ::
    "pton \<Rightarrow> pton \<Rightarrow> (u8 list \<Rightarrow> string) \<Rightarrow> (u8 list \<Rightarrow> string) \<Rightarrow> (string \<Rightarrow> nat) \<Rightarrow> ('w \<Rightarrow> int) \<Rightarrow>
       rate_limit_options \<Rightarrow> (rl_store \<times> 'w) middleware" where
  "rate_limit_middleware pton4 pton6 ntop4 ntop6 hash clock opts req sw =
     (case sw of (store, w) \<Rightarrow>
        (let now = clock w; key = rate_limit_remote_key pton4 pton6 ntop4 ntop6 (req_remote_addr req)
         in case rate_limit_step hash opts key now store of
              (Some retry_after, store) \<Rightarrow> reply (too_many_requests retry_after) (store, w)
            | (None, store) \<Rightarrow> pass_on req (store, w)))"

section \<open>One bucket\<close>

text \<open>The requests of one client, by their times: which are granted.\<close>

fun bucket_run :: "rate_limit_options \<Rightarrow> bucket \<Rightarrow> int list \<Rightarrow> bool list" where
  "bucket_run opts b [] = []"
| "bucket_run opts b (t # ts) =
     (case bucket_step opts t b of (refused, b') \<Rightarrow> (refused = None) # bucket_run opts b' ts)"

definition granted_between :: "int \<Rightarrow> int \<Rightarrow> int list \<Rightarrow> bool list \<Rightarrow> nat" where
  "granted_between lo hi ts gs = length (filter (\<lambda>(t, g). g \<and> lo \<le> t \<and> t < hi) (zip ts gs))"

lemma granted_between_simps [simp]:
  "granted_between lo hi [] gs = 0"
  "granted_between lo hi (t # ts) (g # gs) = (if g \<and> lo \<le> t \<and> t < hi then 1 else 0) + granted_between lo hi ts gs"
  by (simp_all add: granted_between_def)

definition rl_span :: "rate_limit_options \<Rightarrow> int" where
  "rl_span opts = rl_window opts * second"

lemma seconds_between_ge:
  "0 < w \<Longrightarrow> start \<le> now \<Longrightarrow> w \<le> seconds_between start now \<longleftrightarrow> w * second \<le> now - start"
  by (auto simp: seconds_between_def second_def sgn_if)

lemma bucket_step_cases:
  assumes "0 < rl_window opts" and "window_start b \<le> t"
  shows "bucket_step opts t b =
    (let reset = rl_span opts \<le> t - window_start b;
         b' = (if reset then \<lparr>tokens = rl_capacity opts, window_start = t\<rparr> else b)
     in if tokens b' > 0 then (None, b'\<lparr>tokens := tokens b' - 1\<rparr>)
        else (Some (word_of_int (rl_window opts - (if reset then 0 else seconds_between (window_start b) t))), b'))"
  using seconds_between_ge [OF assms] by (auto simp: bucket_step_def Let_def rl_span_def)

lemma unat_dec: "0 < (x :: u32) \<Longrightarrow> Suc (unat (x - 1)) = unat x"
proof -
  assume "0 < x"
  then have p: "0 < unat x" by (simp add: word_gt_0 unat_gt_0)
  then have "1 \<le> x" by (simp add: word_le_nat_alt Suc_le_eq)
  with p show ?thesis by (simp add: unat_sub)
qed

lemma granted_none: "\<forall>t\<in>set ts. hi \<le> t \<Longrightarrow> granted_between lo hi ts gs = 0"
  by (fastforce simp: granted_between_def filter_empty_conv dest: set_zip_leftD)

text \<open>A window that started inside the stretch grants at most its tokens.\<close>

lemma granted_started:
  assumes "0 < rl_window opts"
  shows "sorted (window_start b # ts) \<Longrightarrow> lo \<le> window_start b \<Longrightarrow>
    granted_between lo (lo + rl_span opts) ts (bucket_run opts b ts) \<le> unat (tokens b)"
proof (induction ts arbitrary: b)
  case (Cons t ts)
  show ?case
  proof (cases "rl_span opts \<le> t - window_start b")
    case True
    with Cons.prems have "\<forall>u\<in>set (t # ts). lo + rl_span opts \<le> u" by auto
    from granted_none [OF this] show ?thesis by simp
  next
    case False
    have "window_start b \<le> t" using Cons.prems by simp
    from bucket_step_cases [OF assms this] False
    have s: "bucket_step opts t b = (if tokens b > 0 then (None, b\<lparr>tokens := tokens b - 1\<rparr>)
        else (Some (word_of_int (rl_window opts - seconds_between (window_start b) t)), b))" by (simp add: Let_def)
    show ?thesis
    proof (cases "tokens b > 0")
      case True
      have "granted_between lo (lo + rl_span opts) ts (bucket_run opts (b\<lparr>tokens := tokens b - 1\<rparr>) ts)
          \<le> unat (tokens (b\<lparr>tokens := tokens b - 1\<rparr>))"
        using Cons.prems by (intro Cons.IH) auto
      with unat_dec [OF True] True show ?thesis by (simp add: s)
    next
      case False
      have "granted_between lo (lo + rl_span opts) ts (bucket_run opts b ts) \<le> unat (tokens b)"
        using Cons.prems by (intro Cons.IH) auto
      with False show ?thesis by (simp add: s)
    qed
  qed
qed simp

text \<open>One that started before grants its tokens and those of the next window.\<close>

lemma granted_running:
  assumes "0 < rl_window opts"
  shows "sorted (window_start b # ts) \<Longrightarrow> \<forall>t\<in>set ts. lo \<le> t \<Longrightarrow>
    granted_between lo (lo + rl_span opts) ts (bucket_run opts b ts) \<le> unat (tokens b) + unat (rl_capacity opts)"
proof (induction ts arbitrary: b)
  case (Cons t ts)
  have st: "window_start b \<le> t" using Cons.prems by simp
  note s = bucket_step_cases [OF assms st]
  obtain r b' where rb: "bucket_step opts t b = (r, b')" by (cases "bucket_step opts t b")
  show ?case
  proof (cases "rl_span opts \<le> t - window_start b")
    case True
    with s rb have w: "window_start b' = t" by (auto simp: Let_def split: if_splits)
    have "granted_between lo (lo + rl_span opts) ts (bucket_run opts b' ts) \<le> unat (tokens b')"
      using Cons.prems w by (intro granted_started [OF assms]) auto
    moreover have "(if r = None then 1 else 0) + unat (tokens b') \<le> unat (rl_capacity opts)"
      using True s rb by (auto simp: Let_def unat_dec split: if_splits)
    ultimately show ?thesis by (cases r) (simp_all add: rb)
  next
    case False
    with s rb have w: "window_start b' = window_start b" by (auto simp: Let_def split: if_splits)
    have "granted_between lo (lo + rl_span opts) ts (bucket_run opts b' ts) \<le>
        unat (tokens b') + unat (rl_capacity opts)"
      using Cons.prems w by (intro Cons.IH) auto
    moreover have "(if r = None then 1 else 0) + unat (tokens b') \<le> unat (tokens b)"
      using False s rb by (auto simp: Let_def unat_dec split: if_splits)
    ultimately show ?thesis by (cases r) (simp_all add: rb)
  qed
qed simp

lemma granted_twice:
  assumes "0 < rl_window opts"
  shows "sorted (window_start b # ts) \<Longrightarrow> unat (tokens b) \<le> unat (rl_capacity opts) \<Longrightarrow>
    granted_between lo (lo + rl_span opts) ts (bucket_run opts b ts) \<le> 2 * unat (rl_capacity opts)"
proof (induction ts arbitrary: b)
  case (Cons t ts)
  show ?case
  proof (cases "lo \<le> t")
    case True
    with Cons.prems have "granted_between lo (lo + rl_span opts) (t # ts) (bucket_run opts b (t # ts))
        \<le> unat (tokens b) + unat (rl_capacity opts)" by (intro granted_running [OF assms]) auto
    with Cons.prems(2) show ?thesis by simp
  next
    case False
    have st: "window_start b \<le> t" using Cons.prems by simp
    obtain r b' where rb: "bucket_step opts t b = (r, b')" by (cases "bucket_step opts t b")
    with bucket_step_cases [OF assms st] Cons.prems(2)
    have "window_start b' \<le> t" and "unat (tokens b') \<le> unat (rl_capacity opts)"
      using st unat_dec [of "tokens b"] unat_dec [of "rl_capacity opts"] by (auto simp: Let_def split: if_splits)
    then have "granted_between lo (lo + rl_span opts) ts (bucket_run opts b' ts) \<le> 2 * unat (rl_capacity opts)"
      using Cons.prems by (intro Cons.IH) auto
    with False show ?thesis by (simp add: rb)
  qed
qed simp

section \<open>The store\<close>

definition bucket_of :: "(string \<Rightarrow> nat) \<Rightarrow> rl_store \<Rightarrow> string \<Rightarrow> bucket option" where
  "bucket_of hash shards key = map_of (lru_entries (shards ! (hash key mod length shards))) key"

text \<open>Every shard has room for all the clients of \<open>K\<close> and holds no other.\<close>

definition shard_ok :: "string set \<Rightarrow> bucket lru \<Rightarrow> bool" where
  "shard_ok K m \<longleftrightarrow> lru_inv m \<and> fst ` set (lru_entries m) \<subseteq> K \<and> card K \<le> lru_max m"

definition store_ok :: "string set \<Rightarrow> rl_store \<Rightarrow> bool" where
  "store_ok K shards \<longleftrightarrow> finite K \<and> shards \<noteq> [] \<and> (\<forall>m\<in>set shards. shard_ok K m)"

lemma not_full:
  assumes "lru_inv m" and "fst ` set (lru_entries m) \<subseteq> K" and "finite K" and "card K \<le> lru_max m"
    and "key \<in> K" and "map_of (lru_entries m) key = None"
  shows "\<not> lru_max m \<le> lru_size m"
proof -
  have "lru_size m = card (fst ` set (lru_entries m))"
    using assms(1) distinct_card [of "map fst (lru_entries m)"] by (simp add: lru_inv_def lru_size_def)
  also have "\<dots> < card K" using assms by (intro psubset_card_mono) (auto simp: map_of_eq_None_iff)
  finally show ?thesis using assms(4) by simp
qed

lemma get_or_create_roomy:
  assumes "lru_inv m" and "fst ` set (lru_entries m) \<subseteq> K" and "finite K" and "card K \<le> lru_max m" and "key \<in> K"
    and "lru_get_or_create key made m = (touched, m')"
  shows "touch_value touched = (case map_of (lru_entries m) key of None \<Rightarrow> made | Some b \<Rightarrow> b)"
    and "lru_inv (lru_store key b m')" and "lru_max (lru_store key b m') = lru_max m"
    and "lru_entries (lru_store key b m') = AList.update key b (lru_entries m')"
    and "map_of (lru_entries (lru_store key b m')) = (map_of (lru_entries m))(key \<mapsto> b)"
    and "fst ` set (lru_entries (lru_store key b m')) \<subseteq> K"
proof -
  have "touch_value touched = (case map_of (lru_entries m) key of None \<Rightarrow> made | Some b \<Rightarrow> b) \<and>
    lru_max m' = lru_max m \<and> fst ` set (lru_entries m') = insert key (fst ` set (lru_entries m)) \<and>
    (map_of (lru_entries m'))(key \<mapsto> b) = (map_of (lru_entries m))(key \<mapsto> b)"
  proof (cases "map_of (lru_entries m) key")
    case None
    with assms(6) not_full [OF assms(1-5) None] show ?thesis
      by (clarsimp simp: lru_get_or_create_def lru_find_def Let_def fst_image_update update_conv')
  next
    case (Some v)
    then have "key \<in> fst ` set (lru_entries m)" by (rule present_iff)
    with assms(6) Some show ?thesis by (auto simp: lru_get_or_create_def lru_find_def)
  qed
  note facts = this
  have inv: "lru_inv m'" using lru_inv_get_or_create [OF assms(1), of key made] assms(6) by simp
  have "key \<in> fst ` set (lru_entries m')" using facts by blast
  then have "map_of (lru_entries m') key \<noteq> None" by (simp add: map_of_eq_None_iff)
  then show "lru_inv (lru_store key b m')" using inv by (auto intro: lru_inv_store)
  from facts show "touch_value touched = (case map_of (lru_entries m) key of None \<Rightarrow> made | Some b \<Rightarrow> b)"
    and "lru_max (lru_store key b m') = lru_max m" by (auto simp: lru_store_def)
  show "lru_entries (lru_store key b m') = AList.update key b (lru_entries m')" by (simp add: lru_store_def)
  from facts assms(2,5) show "map_of (lru_entries (lru_store key b m')) = (map_of (lru_entries m))(key \<mapsto> b)"
    and "fst ` set (lru_entries (lru_store key b m')) \<subseteq> K"
    by (auto simp: lru_store_def update_conv' fst_image_update)
qed

definition fresh_bucket :: "rate_limit_options \<Rightarrow> int \<Rightarrow> bucket" where
  "fresh_bucket opts now = \<lparr>tokens = rl_capacity opts, window_start = now\<rparr>"

lemma rate_limit_step_ok:
  assumes "store_ok K shards" and "key \<in> K"
    and "bucket_step opts now (case bucket_of hash shards key of None \<Rightarrow> fresh_bucket opts now | Some b \<Rightarrow> b) = (r, b)"
  shows "\<exists>shards'. rate_limit_step hash opts key now shards = (r, shards') \<and> store_ok K shards' \<and>
    bucket_of hash shards' = (bucket_of hash shards)(key \<mapsto> b)"
proof -
  let ?i = "hash key mod length shards"
  have i: "?i < length shards" using assms(1) by (simp add: store_ok_def)
  obtain touched m where g: "lru_get_or_create key (fresh_bucket opts now) (shards ! ?i) = (touched, m)"
    by (cases "lru_get_or_create key (fresh_bucket opts now) (shards ! ?i)")
  have "shards ! ?i \<in> set shards" using i by simp
  with assms(1) have m: "lru_inv (shards ! ?i)" "fst ` set (lru_entries (shards ! ?i)) \<subseteq> K" "finite K"
    "card K \<le> lru_max (shards ! ?i)" by (auto simp: store_ok_def shard_ok_def)
  note facts = get_or_create_roomy [OF m assms(2) g]
  let ?s = "shards[?i := lru_store key b m]"
  have "rate_limit_step hash opts key now shards = (r, ?s)"
    using assms(3) g facts(1)
    by (simp add: rate_limit_step_def with_bucket_def Let_def fresh_bucket_def bucket_of_def)
  moreover have "shard_ok K (lru_store key b m)"
    using facts(2,3,6) m(4) by (simp add: shard_ok_def)
  then have "store_ok K ?s"
    using assms(1) by (auto simp: store_ok_def dest!: set_update_subset_insert [THEN subsetD])
  moreover have "bucket_of hash ?s = (bucket_of hash shards)(key \<mapsto> b)"
    using i facts(5) by (auto simp: bucket_of_def fun_eq_iff nth_list_update)
  ultimately show ?thesis by blast
qed

text \<open>A history: which of the requests, given as client key and time, are granted.\<close>

fun rate_run :: "(string \<Rightarrow> nat) \<Rightarrow> rate_limit_options \<Rightarrow> rl_store \<Rightarrow> (string \<times> int) list \<Rightarrow> bool list" where
  "rate_run hash opts shards [] = []"
| "rate_run hash opts shards ((key, now) # rs) =
     (case rate_limit_step hash opts key now shards of
        (refused, shards') \<Rightarrow> (refused = None) # rate_run hash opts shards' rs)"

definition times_of :: "string \<Rightarrow> (string \<times> int) list \<Rightarrow> int list" where
  "times_of key rs = map snd (filter (\<lambda>r. fst r = key) rs)"

definition grants_of :: "string \<Rightarrow> (string \<times> int) list \<Rightarrow> bool list \<Rightarrow> bool list" where
  "grants_of key rs gs = map snd (filter (\<lambda>x. fst (fst x) = key) (zip rs gs))"

text \<open>Among interleaved requests each client sees its own bucket and no other.\<close>

lemma rate_run_isolated:
  "store_ok K shards \<Longrightarrow> fst ` set rs \<subseteq> K \<Longrightarrow>
   grants_of key rs (rate_run hash opts shards rs) =
     (case (bucket_of hash shards key, times_of key rs) of
        (_, []) \<Rightarrow> []
      | (None, t # ts) \<Rightarrow> bucket_run opts (fresh_bucket opts t) (t # ts)
      | (Some b, t # ts) \<Rightarrow> bucket_run opts b (t # ts))"
proof (induction rs arbitrary: shards)
  case Nil
  then show ?case by (simp add: grants_of_def times_of_def split: option.split)
next
  case (Cons x rs)
  obtain k now where x: "x = (k, now)" by (cases x)
  let ?b0 = "case bucket_of hash shards k of None \<Rightarrow> fresh_bucket opts now | Some b \<Rightarrow> b"
  obtain r b where s: "bucket_step opts now ?b0 = (r, b)" by (cases "bucket_step opts now ?b0")
  have "k \<in> K" using Cons.prems x by simp
  from rate_limit_step_ok [OF Cons.prems(1) this s] obtain shards' where
    step: "rate_limit_step hash opts k now shards = (r, shards')" and ok: "store_ok K shards'"
    and b: "bucket_of hash shards' = (bucket_of hash shards)(k \<mapsto> b)" by blast
  have IH: "grants_of key rs (rate_run hash opts shards' rs) =
     (case (bucket_of hash shards' key, times_of key rs) of
        (_, []) \<Rightarrow> []
      | (None, t # ts) \<Rightarrow> bucket_run opts (fresh_bucket opts t) (t # ts)
      | (Some b, t # ts) \<Rightarrow> bucket_run opts b (t # ts))"
    using Cons.prems by (intro Cons.IH [OF ok]) auto
  show ?case
  proof (cases "k = key")
    case True
    have "grants_of key (x # rs) (rate_run hash opts shards (x # rs)) =
        (r = None) # grants_of key rs (rate_run hash opts shards' rs)"
      using step unfolding x True by (simp add: grants_of_def)
    also have "grants_of key rs (rate_run hash opts shards' rs) = bucket_run opts b (times_of key rs)"
      unfolding IH b using True by (auto split: list.split)
    also have "times_of key (x # rs) = now # times_of key rs" using True by (simp add: x times_of_def)
    ultimately show ?thesis using True s by (auto split: option.splits)
  next
    case False
    then show ?thesis using IH b by (simp add: x step grants_of_def times_of_def)
  qed
qed

lemma shard_count_pos: "0 < shard_count n"
  by (simp add: shard_count_def target_shards_def)

definition clients_per_shard :: "rate_limit_options \<Rightarrow> nat" where
  "clients_per_shard opts = max (rl_max_clients opts) 1 div shard_count (rl_max_clients opts)"

lemma store_ok_new:
  assumes "finite K" and "card K \<le> clients_per_shard opts"
  shows "store_ok K (store_new (rl_max_clients opts))"
  using assms shard_count_pos [of "rl_max_clients opts"]
  by (auto simp: store_ok_def shard_ok_def store_new_def Let_def lru_inv_new clients_per_shard_def) (auto simp: lru_new_def)

lemma bucket_of_new: "bucket_of hash (store_new n) key = None"
proof -
  have "hash key mod shard_count n < shard_count n" using shard_count_pos by simp
  then show ?thesis by (simp add: bucket_of_def store_new_def Let_def lru_new_def)
qed

lemma sorted_times_of: "sorted (map snd rs) \<Longrightarrow> sorted (times_of key rs)"
  by (simp add: times_of_def sorted_filter)

text \<open>
  C31: In any history of requests under a clock that never goes back, in which no more clients appear
  than a shard can track, no client is granted more than twice the capacity in any stretch of time
  as long as one window, however the requests of other clients are interleaved and whichever way
  the hash spreads them.  The capacity is the 32-bit sum of base rate and burst.
\<close>

theorem rate_limit_window:
  assumes "0 < rl_window opts" and "sorted (map snd rs)" and "card (fst ` set rs) \<le> clients_per_shard opts"
  shows "granted_between lo (lo + rl_window opts * second) (times_of key rs)
      (grants_of key rs (rate_run hash opts (store_new (rl_max_clients opts)) rs))
    \<le> 2 * unat (rl_requests opts + rl_burst opts)"
proof (cases "times_of key rs")
  case (Cons t ts)
  have ok: "store_ok (fst ` set rs) (store_new (rl_max_clients opts))"
    using assms(3) by (intro store_ok_new) auto
  have "grants_of key rs (rate_run hash opts (store_new (rl_max_clients opts)) rs) =
      bucket_run opts (fresh_bucket opts t) (times_of key rs)"
    using rate_run_isolated [OF ok subset_refl] by (simp add: bucket_of_new Cons)
  moreover have "sorted (window_start (fresh_bucket opts t) # times_of key rs)"
    using sorted_times_of [OF assms(2), of key] Cons by (simp add: fresh_bucket_def)
  ultimately show ?thesis
    using granted_twice [OF assms(1), of "fresh_bucket opts t" "times_of key rs" lo]
    by (simp add: rl_span_def fresh_bucket_def rl_capacity_def)
qed simp

theorem rate_limit_window_witness:
  "let opts = rate_limit_options_new\<lparr>rl_requests := 1\<rparr>; rs = [(''a'', 0), (''b'', 0), (''a'', 10), (''a'', 60 * 10 ^ 9)]
   in granted_between 10 (10 + rl_window opts * second) (times_of ''a'' rs)
      (grants_of ''a'' rs (rate_run length opts (store_new (rl_max_clients opts)) rs)) \<le> 2"
proof -
  let ?opts = "rate_limit_options_new\<lparr>rl_requests := 1\<rparr>"
  let ?rs = "[(''a'', 0 :: int), (''b'', 0), (''a'', 10), (''a'', 60 * 10 ^ 9)]"
  have "0 < rl_window ?opts" "sorted (map snd ?rs)" "2 * unat (rl_requests ?opts + rl_burst ?opts) = 2"
    by (simp_all add: rate_limit_options_new_def)
  moreover have "card (fst ` set ?rs) \<le> clients_per_shard ?opts" by code_simp
  ultimately show ?thesis
    using rate_limit_window [of ?opts ?rs 10 "''a''" length] by (simp only: Let_def)
qed

lemma unat_of_int32: "0 \<le> d \<Longrightarrow> d < 2 ^ 32 \<Longrightarrow> int (unat (word_of_int d :: u32)) = d"
  by (simp add: unsigned_of_int take_bit_int_eq_self)

text \<open>
  Whoever waits as long as \<open>Retry-After\<close> says is granted the next request, provided the window fits
  in 32 bits of seconds and the capacity did not wrap around to zero.
\<close>

lemma retry_after_suffices:
  assumes "0 < rl_window opts" and "rl_window opts < 2 ^ 32" and "rl_capacity opts \<noteq> 0"
    and "window_start b \<le> now" and "bucket_step opts now b = (Some wait, b')"
  shows "fst (bucket_step opts (now + int (unat wait) * second) b') = None"
proof -
  have no: "\<not> rl_span opts \<le> now - window_start b" and b': "b' = b"
    and w: "wait = word_of_int (rl_window opts - seconds_between (window_start b) now)"
    using assms(3,5) bucket_step_cases [OF assms(1,4)] by (auto simp: Let_def word_gt_0 split: if_splits)
  let ?e = "seconds_between (window_start b) now"
  have e: "0 \<le> ?e" "?e < rl_window opts" "now - window_start b < (?e + 1) * second" "?e * second \<le> now - window_start b"
    using no assms(4) seconds_between_ge [OF assms(1,4)]
    by (auto simp: rl_span_def seconds_between_def second_def sgn_if)
  then have "int (unat wait) = rl_window opts - ?e"
    unfolding w using assms(2) by (intro unat_of_int32) auto
  then have "rl_span opts \<le> now + int (unat wait) * second - window_start b"
    using e(4) by (simp add: rl_span_def second_def)
  moreover have "window_start b' \<le> now + int (unat wait) * second"
    using assms(4) b' by (simp add: second_def add_increasing2)
  ultimately show ?thesis
    using bucket_step_cases [OF assms(1), of b' "now + int (unat wait) * second"] b' assms(3)
    by (simp add: Let_def word_gt_0)
qed

text \<open>A base rate and a burst whose sum is a multiple of $2^{32}$ refuse every request.\<close>

lemma rl_capacity_wraps:
  "rl_capacity (rate_limit_options_new\<lparr>rl_requests := 2 ^ 31, rl_burst := 2 ^ 31\<rparr>) = 0"
  by (simp add: rl_capacity_def)

end
