(* ===== verification/Static_Core.thy ===== *)
theory Static_Core
  imports Support
begin

text \<open>
  The core of static file serving (\<open>net/static_core.cxx\<close>): the cache of file bodies, keyed by path
  and content encoding and checked against the file's status on every hit, and the normalisation
  of a requested path.  The facts say that a normalised path stays below the root and that the
  cache keeps its byte budget.

  A \<open>std::unordered_map\<close> is an association list with distinct keys; the order in which it is
  walked is not specified by the language, and only the choice between entries of equal age
  depends on it.  Byte counts are sums of lengths of strings in memory.
\<close>

section \<open>The cache of file bodies\<close>

record file_stat =
  st_size :: int
  st_mtime :: int
  st_dev :: u64
  st_ino :: u64

record static_cache_entry =
  sce_body :: string
  sce_mime :: string
  sce_etag :: string
  sce_last_modified :: string
  sce_content_encoding :: string
  sce_size :: int
  sce_mtime :: int
  sce_dev :: u64
  sce_ino :: u64
  sce_tick :: u64

type_synonym static_cache_key = "string \<times> string"

record static_cache =
  sc_entries :: "(static_cache_key \<times> static_cache_entry) list"
  sc_total_bytes :: nat
  sc_tick :: u64

definition static_cache_new :: static_cache where
  "static_cache_new = \<lparr>sc_entries = [], sc_total_bytes = 0, sc_tick = 0\<rparr>"

definition body_size :: "static_cache_entry \<Rightarrow> nat" where
  "body_size e = length (sce_body e)"

text \<open>Subtracting the size of an entry and erasing it.\<close>

definition sc_erase :: "static_cache_key \<Rightarrow> static_cache_entry \<Rightarrow> static_cache \<Rightarrow> static_cache" where
  "sc_erase key e c =
     c\<lparr>sc_total_bytes := sc_total_bytes c - body_size e, sc_entries := AList.delete key (sc_entries c)\<rparr>"

definition with_cached ::
    "string \<Rightarrow> string \<Rightarrow> file_stat \<Rightarrow> (static_cache_entry \<Rightarrow> 'r) \<Rightarrow> static_cache \<Rightarrow> 'r option \<times> static_cache" where
  "with_cached path content_encoding st fn c =
     (let key = (path, content_encoding)
      in case map_of (sc_entries c) key of
           None \<Rightarrow> (None, c)
         | Some e \<Rightarrow>
             if sce_size e \<noteq> st_size st \<or> sce_mtime e \<noteq> st_mtime st \<or> sce_dev e \<noteq> st_dev st \<or> sce_ino e \<noteq> st_ino st
             then (None, sc_erase key e c)
             else
               let t = sc_tick c + 1; e = e\<lparr>sce_tick := t\<rparr>
               in (Some (fn e), c\<lparr>sc_tick := t, sc_entries := AList.update key e (sc_entries c)\<rparr>))"

definition sc_get :: "string \<Rightarrow> string \<Rightarrow> file_stat \<Rightarrow> static_cache \<Rightarrow> static_cache_entry option \<times> static_cache" where
  "sc_get path content_encoding st c = with_cached path content_encoding st (\<lambda>entry. entry) c"

text \<open>The scan for the entry with the smallest tick.\<close>

fun oldest :: "static_cache_key \<times> static_cache_entry \<Rightarrow> (static_cache_key \<times> static_cache_entry) list
    \<Rightarrow> static_cache_key \<times> static_cache_entry" where
  "oldest victim [] = victim"
| "oldest victim (it # rest) = oldest (if sce_tick (snd it) < sce_tick (snd victim) then it else victim) rest"

lemma oldest_in: "oldest v xs \<in> insert v (set xs)"
  by (induction xs arbitrary: v) auto

lemma length_delete_in: "k \<in> fst ` set xs \<Longrightarrow> length (AList.delete k xs) < length xs"
  by (induction xs) (auto simp: less_Suc_eq_le length_delete_le rev_image_eqI)

lemma erase_oldest_shrinks:
  assumes "sc_entries c = first # rest" and "(key, e) = oldest first rest"
  shows "length (sc_entries (sc_erase key e c)) < Suc (length rest)"
proof -
  have "(key, e) \<in> set (sc_entries c)" using oldest_in [of first rest] assms by (metis list.simps(15))
  then have "key \<in> fst ` set (sc_entries c)" by (simp add: rev_image_eqI)
  from length_delete_in [OF this] show ?thesis by (simp add: sc_erase_def assms(1))
qed

function sc_make_room :: "nat \<Rightarrow> nat \<Rightarrow> static_cache \<Rightarrow> static_cache" where
  "sc_make_room n max_total_bytes c =
     (if sc_total_bytes c + n > max_total_bytes then
        (case sc_entries c of
           [] \<Rightarrow> c
         | first # rest \<Rightarrow>
             (case oldest first rest of (key, e) \<Rightarrow> sc_make_room n max_total_bytes (sc_erase key e c)))
      else c)"
  by pat_completeness auto
termination
  by (relation "measure (\<lambda>(n, m, c). length (sc_entries c))") (auto intro: erase_oldest_shrinks)

declare sc_make_room.simps [simp del]

definition sc_put :: "string \<Rightarrow> string \<Rightarrow> static_cache_entry \<Rightarrow> nat \<Rightarrow> static_cache \<Rightarrow> static_cache" where
  "sc_put path content_encoding entry max_total_bytes c =
     (let key = (path, content_encoding)
      in if body_size entry > max_total_bytes then c
         else
           let c = (case map_of (sc_entries c) key of None \<Rightarrow> c | Some old \<Rightarrow> sc_erase key old c);
               c = sc_make_room (body_size entry) max_total_bytes c;
               t = sc_tick c + 1;
               entry = entry\<lparr>sce_tick := t\<rparr>
           in c\<lparr>sc_tick := t, sc_total_bytes := sc_total_bytes c + body_size entry,
                sc_entries := AList.update key entry (sc_entries c)\<rparr>)"

definition sc_evict :: "string \<Rightarrow> string \<Rightarrow> static_cache \<Rightarrow> static_cache" where
  "sc_evict path content_encoding c =
     (case map_of (sc_entries c) (path, content_encoding) of
        None \<Rightarrow> c
      | Some e \<Rightarrow> sc_erase (path, content_encoding) e c)"

definition evict_all_encodings :: "string \<Rightarrow> static_cache \<Rightarrow> static_cache" where
  "evict_all_encodings path c = sc_evict path ''gzip'' (sc_evict path ''br'' (sc_evict path [] c))"

definition evict_path_and_sidecars :: "string \<Rightarrow> static_cache \<Rightarrow> static_cache" where
  "evict_path_and_sidecars path c =
     evict_all_encodings (path @ ''.gz'') (evict_all_encodings (path @ ''.br'') (evict_all_encodings path c))"

section \<open>Paths\<close>

text \<open>
  The body of the walk.  The state is \<open>None\<close> once \<open>erase\<close> threw because no slash was found.
\<close>

definition static_segment :: "string option \<Rightarrow> string \<Rightarrow> bool \<times> string option" where
  "static_segment st seg =
     (case st of
        None \<Rightarrow> (False, None)
      | Some result \<Rightarrow>
          if CHR 0x00 \<in> set seg then (False, Some result)
          else if seg = ''..'' then
            (if result = [] then (False, Some result)
             else case sv_rfind result CHR ''/'' of
                    None \<Rightarrow> (False, None)
                  | Some slash \<Rightarrow> (True, Some (if slash = 0 then [] else take slash result)))
          else if seg \<noteq> [] \<and> seg \<noteq> ''.'' then (True, Some (result @ ''/'' @ seg))
          else (True, Some result))"

datatype static_path = Path_throws | Path_rejected | Path_ok string

definition normalize_static_path :: "string \<Rightarrow> static_path" where
  "normalize_static_path raw =
     (case for_each_path_component static_segment raw (Some []) of
        (_, None) \<Rightarrow> Path_throws
      | (ok, Some result) \<Rightarrow> if \<not> ok then Path_rejected else Path_ok result)"

section \<open>A normalised path stays below the root\<close>

text \<open>What the walk computes: the stack of names a path leads to, innermost first.\<close>

fun resolve_names :: "string list \<Rightarrow> string list \<Rightarrow> string list option" where
  "resolve_names [] stack = Some stack"
| "resolve_names (seg # segs) stack =
     (if CHR 0x00 \<in> set seg then None
      else if seg = ''..'' then (case stack of [] \<Rightarrow> None | _ # outer \<Rightarrow> resolve_names segs outer)
      else if seg = [] \<or> seg = ''.'' then resolve_names segs stack
      else resolve_names segs (seg # stack))"

definition render_names :: "string list \<Rightarrow> string" where
  "render_names stack = concat (map (\<lambda>n. CHR ''/'' # n) (rev stack))"

lemma render_names_simps [simp]:
  "render_names [] = []" "render_names (n # stack) = render_names stack @ CHR ''/'' # n"
  by (simp_all add: render_names_def)

lemma render_eq_Nil [simp]: "render_names stack = [] \<longleftrightarrow> stack = []"
  by (cases stack) simp_all

definition plain_name :: "string \<Rightarrow> bool" where
  "plain_name n \<longleftrightarrow> n \<noteq> [] \<and> n \<noteq> ''.'' \<and> n \<noteq> ''..'' \<and> CHR ''/'' \<notin> set n \<and> CHR 0x00 \<notin> set n"

lemma static_segment_stack:
  assumes "list_all plain_name stack" and "CHR ''/'' \<notin> set seg"
  shows "static_segment (Some (render_names stack)) seg =
    (case resolve_names [seg] stack of
       None \<Rightarrow> (False, Some (render_names stack))
     | Some stack' \<Rightarrow> (True, Some (render_names stack')))"
proof (cases "seg = ''..''")
  case True
  show ?thesis
  proof (cases stack)
    case (Cons n outer)
    then have "sv_rfind (render_names outer @ CHR ''/'' # n) CHR ''/'' = Some (length (render_names outer))"
      using assms(1) by (intro sv_rfind_append_found) (simp add: plain_name_def)
    with True Cons show ?thesis by (auto simp: static_segment_def)
  qed (use True in \<open>simp add: static_segment_def\<close>)
qed (auto simp: static_segment_def)

lemma resolve_names_append:
  "resolve_names (xs @ ys) stack = Option.bind (resolve_names xs stack) (resolve_names ys)"
  by (induction xs arbitrary: stack) (auto split: list.split)

lemma resolve_names_plain:
  "resolve_names segs stack = Some stack' \<Longrightarrow> list_all plain_name stack \<Longrightarrow>
   \<forall>s\<in>set segs. CHR ''/'' \<notin> set s \<Longrightarrow> list_all plain_name stack'"
  by (induction segs stack rule: resolve_names.induct) (auto simp: plain_name_def split: if_splits list.splits)

lemma split_on_not_Nil [simp]: "split_on c s \<noteq> []"
  by (cases s) auto

lemma split_on_no_sep: "x \<in> set (split_on c s) \<Longrightarrow> c \<notin> set x"
proof (induction s arbitrary: x)
  case (Cons a s)
  then show ?case by (cases "split_on c s") (auto split: if_splits)
qed simp

lemma walk_resolves:
  "list_all plain_name stack \<Longrightarrow>
   (case resolve_names (split_on CHR ''/'' raw) stack of
      None \<Rightarrow> \<exists>r. for_each_path_component static_segment raw (Some (render_names stack)) = (False, Some r)
    | Some stack' \<Rightarrow>
        for_each_path_component static_segment raw (Some (render_names stack)) = (True, Some (render_names stack')))"
proof (induction raw arbitrary: stack rule: measure_induct_rule [of length])
  case (less raw)
  show ?case
  proof (cases "raw = []")
    case True
    then show ?thesis by (simp add: for_each_path_component.simps [of _ "[]"])
  next
    case nonempty: False
    show ?thesis
    proof (cases "sv_find raw CHR ''/''")
      case None
      then have no: "CHR ''/'' \<notin> set raw" by (simp add: sv_find_None_iff)
      with nonempty None static_segment_stack [OF less.prems no] show ?thesis
        by (subst (1 2) for_each_path_component.simps) (auto split: option.splits)
    next
      case (Some i)
      define a b where "a = take i raw" and "b = drop (i + 1) raw"
      from sv_find_split [OF Some] have raw: "raw = a @ CHR ''/'' # b" and a: "CHR ''/'' \<notin> set a"
        by (simp_all add: a_def b_def)
      note seg = static_segment_stack [OF less.prems a]
      have walk: "for_each_path_component static_segment raw (Some (render_names stack)) =
          (case static_segment (Some (render_names stack)) a of
             (False, st') \<Rightarrow> (False, st') | (True, st') \<Rightarrow> for_each_path_component static_segment b st')"
        unfolding a_def b_def using Some nonempty by (subst for_each_path_component.simps) simp
      have res: "resolve_names (split_on CHR ''/'' raw) stack =
          Option.bind (resolve_names [a] stack) (resolve_names (split_on CHR ''/'' b))"
        using resolve_names_append [of "[a]" "split_on CHR ''/'' b" stack] a by (simp add: raw)
      show ?thesis
      proof (cases "resolve_names [a] stack")
        case None
        with seg show ?thesis by (simp only: walk res) simp
      next
        case (Some stack1)
        from resolve_names_plain [OF this less.prems] a have "list_all plain_name stack1" by simp
        from less.IH [OF _ this, of b] have IH: "case resolve_names (split_on CHR ''/'' b) stack1 of
            None \<Rightarrow> \<exists>r. for_each_path_component static_segment b (Some (render_names stack1)) = (False, Some r)
          | Some stack' \<Rightarrow>
              for_each_path_component static_segment b (Some (render_names stack1)) = (True, Some (render_names stack'))"
          by (simp add: raw)
        have "static_segment (Some (render_names stack)) a = (True, Some (render_names stack1))"
          using seg by (simp only: Some option.case)
        then have "for_each_path_component static_segment raw (Some (render_names stack)) =
            for_each_path_component static_segment b (Some (render_names stack1))" by (simp add: walk)
        moreover have "resolve_names (split_on CHR ''/'' raw) stack = resolve_names (split_on CHR ''/'' b) stack1"
          by (simp only: res Some bind.simps)
        ultimately show ?thesis using IH by (simp only:)
      qed
    qed
  qed
qed

lemma normalize_static_path_eq:
  "normalize_static_path raw =
     (case resolve_names (split_on CHR ''/'' raw) [] of
        None \<Rightarrow> Path_rejected | Some stack \<Rightarrow> Path_ok (render_names stack))"
  using walk_resolves [of "[]" raw] by (auto simp: normalize_static_path_def split: option.splits)

lemma split_render:
  "list_all plain_name stack \<Longrightarrow> stack \<noteq> [] \<Longrightarrow> split_on CHR ''/'' (render_names stack) = [] # rev stack"
proof (induction stack)
  case (Cons n stack)
  have s: "split_on c (xs @ c # ys) = split_on c xs @ split_on c ys" for c xs ys
  proof (induction xs)
    case (Cons x xs)
    then show ?case by (cases "split_on c xs") auto
  qed simp
  from Cons show ?case by (cases "stack = []") (auto simp: s plain_name_def)
qed simp

lemma resolve_plain: "list_all plain_name names \<Longrightarrow> resolve_names names stack = Some (rev names @ stack)"
  by (induction names arbitrary: stack) (auto simp: plain_name_def)

text \<open>
  C32: Path normalisation never throws, and it computes what walking the components from the root
  computes: a NUL byte or a step above the root rejects the path, otherwise the result is the
  names left on the stack, each behind a slash, none of them empty, a dot or two dots and none
  with a slash or a NUL.  A normalised path is its own normal form.
\<close>

theorem static_path_confined:
  "case resolve_names (split_on CHR ''/'' raw) [] of
     None \<Rightarrow> normalize_static_path raw = Path_rejected
   | Some stack \<Rightarrow> normalize_static_path raw = Path_ok (render_names stack) \<and> list_all plain_name stack \<and>
       normalize_static_path (render_names stack) = Path_ok (render_names stack)"
proof (cases "resolve_names (split_on CHR ''/'' raw) []")
  case None
  then show ?thesis by (simp add: normalize_static_path_eq)
next
  case (Some stack)
  then have p: "list_all plain_name stack"
    by (rule resolve_names_plain) (auto dest: split_on_no_sep)
  have "normalize_static_path (render_names stack) = Path_ok (render_names stack)"
  proof (cases "stack = []")
    case False
    with p have "resolve_names (split_on CHR ''/'' (render_names stack)) [] = Some stack"
      using resolve_plain [of "rev stack" "[]"] by (simp add: split_render)
    then show ?thesis by (simp add: normalize_static_path_eq)
  qed (simp add: normalize_static_path_eq)
  with Some p show ?thesis by (simp add: normalize_static_path_eq)
qed

section \<open>The byte budget\<close>

definition bodies_bytes :: "(static_cache_key \<times> static_cache_entry) list \<Rightarrow> nat" where
  "bodies_bytes es = sum_list (map (\<lambda>(k, e). body_size e) es)"

definition sc_ok :: "static_cache \<Rightarrow> bool" where
  "sc_ok c \<longleftrightarrow> distinct (map fst (sc_entries c)) \<and> sc_total_bytes c = bodies_bytes (sc_entries c)"

lemma bodies_bytes_delete:
  assumes "distinct (map fst es)" and "(k, e) \<in> set es"
  shows "bodies_bytes (AList.delete k es) + body_size e = bodies_bytes es"
  using assms
proof (induction es)
  case (Cons x xs)
  show ?case
  proof (cases "fst x = k")
    case True
    with Cons.prems have "k \<notin> fst ` set xs" "x = (k, e)" by (auto simp: rev_image_eqI)
    then show ?thesis by (simp add: bodies_bytes_def AList.delete_id)
  next
    case False
    with Cons show ?thesis by (cases x) (auto simp: bodies_bytes_def)
  qed
qed simp

lemma bodies_bytes_update:
  "distinct (map fst es) \<Longrightarrow> map_of es k = Some old \<Longrightarrow> body_size e = body_size old \<Longrightarrow>
   bodies_bytes (AList.update k e es) = bodies_bytes es"
  by (induction es) (auto simp: bodies_bytes_def split: if_splits)

lemma bodies_bytes_insert: "k \<notin> fst ` set es \<Longrightarrow> bodies_bytes (AList.update k e es) = bodies_bytes es + body_size e"
  by (induction es) (auto simp: bodies_bytes_def)

lemma sc_ok_erase:
  assumes "sc_ok c" and "(k, e) \<in> set (sc_entries c)"
  shows "sc_ok (sc_erase k e c)" and "sc_total_bytes (sc_erase k e c) \<le> sc_total_bytes c"
    and "k \<notin> fst ` set (sc_entries (sc_erase k e c))"
    and "fst ` set (sc_entries (sc_erase k e c)) \<subseteq> fst ` set (sc_entries c)"
  using assms bodies_bytes_delete [of "sc_entries c" k e] distinct_map_fst_delete [of "sc_entries c" k]
  by (auto simp: sc_ok_def sc_erase_def fst_image_delete)

text \<open>The loop ends with room for the new body, or with an empty cache.\<close>

lemma sc_make_room_ok:
  "sc_ok c \<Longrightarrow> n \<le> m \<Longrightarrow>
   sc_ok (sc_make_room n m c) \<and> sc_total_bytes (sc_make_room n m c) + n \<le> m \<and>
   fst ` set (sc_entries (sc_make_room n m c)) \<subseteq> fst ` set (sc_entries c)"
proof (induction n m c rule: sc_make_room.induct)
  case (1 n m c)
  show ?case
  proof (cases "sc_total_bytes c + n > m")
    case False
    then show ?thesis using 1 by (simp add: sc_make_room.simps [of n m c])
  next
    case big: True
    then obtain first rest where es: "sc_entries c = first # rest"
      using 1 by (cases "sc_entries c") (auto simp: sc_ok_def bodies_bytes_def)
    obtain k e where old: "oldest first rest = (k, e)" by (cases "oldest first rest")
    then have "(k, e) \<in> set (sc_entries c)" using oldest_in [of first rest] es by simp
    note er = sc_ok_erase [OF "1.prems"(1) this]
    have "sc_make_room n m c = sc_make_room n m (sc_erase k e c)"
      using big es old by (subst sc_make_room.simps) simp
    moreover have "sc_ok (sc_make_room n m (sc_erase k e c)) \<and> sc_total_bytes (sc_make_room n m (sc_erase k e c)) + n \<le> m \<and>
        fst ` set (sc_entries (sc_make_room n m (sc_erase k e c))) \<subseteq> fst ` set (sc_entries (sc_erase k e c))"
      using big es old er(1) "1.prems" by (intro "1.IH") auto
    ultimately show ?thesis using subset_trans [OF _ er(4)] by simp
  qed
qed

lemma sc_put_ok:
  assumes "sc_ok c" and "sc_total_bytes c \<le> b" and "m \<le> b"
  shows "sc_ok (sc_put path enc e m c)" and "sc_total_bytes (sc_put path enc e m c) \<le> b"
    and "body_size e \<le> m \<Longrightarrow>
      map_of (sc_entries (sc_put path enc e m c)) (path, enc) =
        Some (e\<lparr>sce_tick := sc_tick (sc_put path enc e m c)\<rparr>)"
proof -
  let ?k = "(path, enc)"
  define c1 where "c1 = (case map_of (sc_entries c) ?k of None \<Rightarrow> c | Some old \<Rightarrow> sc_erase ?k old c)"
  define c2 where "c2 = sc_make_room (body_size e) m c1"
  have c1: "sc_ok c1" "?k \<notin> fst ` set (sc_entries c1)"
    using assms(1) sc_ok_erase(1,3) [OF assms(1) map_of_SomeD, of ?k]
    by (cases "map_of (sc_entries c) ?k"; simp add: c1_def map_of_eq_None_iff [symmetric])+
  have "(sc_put path enc e m c = c \<and> body_size e > m) \<or>
    (body_size e \<le> m \<and> sc_put path enc e m c =
      c2\<lparr>sc_tick := sc_tick c2 + 1, sc_total_bytes := sc_total_bytes c2 + body_size e,
         sc_entries := AList.update ?k (e\<lparr>sce_tick := sc_tick c2 + 1\<rparr>) (sc_entries c2)\<rparr>)"
    by (auto simp: sc_put_def Let_def c1_def c2_def body_size_def)
  moreover have "sc_ok c2 \<and> sc_total_bytes c2 + body_size e \<le> m \<and> ?k \<notin> fst ` set (sc_entries c2)"
    if "body_size e \<le> m"
    using sc_make_room_ok [OF c1(1) that] c1(2) by (auto simp: c2_def)
  ultimately show "sc_ok (sc_put path enc e m c)" and "sc_total_bytes (sc_put path enc e m c) \<le> b"
    and "body_size e \<le> m \<Longrightarrow>
      map_of (sc_entries (sc_put path enc e m c)) ?k = Some (e\<lparr>sce_tick := sc_tick (sc_put path enc e m c)\<rparr>)"
    using assms
    by (auto simp: sc_ok_def bodies_bytes_insert distinct_map_fst_update update_conv' body_size_def)
qed

lemma with_cached_ok:
  assumes "sc_ok c"
  shows "sc_ok (snd (with_cached path enc st fn c))"
    and "sc_total_bytes (snd (with_cached path enc st fn c)) \<le> sc_total_bytes c"
proof -
  let ?k = "(path, enc)"
  have "sc_ok (snd (with_cached path enc st fn c)) \<and>
      sc_total_bytes (snd (with_cached path enc st fn c)) \<le> sc_total_bytes c"
  proof (cases "map_of (sc_entries c) ?k")
    case None
    with assms show ?thesis by (simp add: with_cached_def)
  next
    case (Some e)
    note er = sc_ok_erase [OF assms map_of_SomeD [OF Some]]
    have "bodies_bytes (AList.update ?k (e\<lparr>sce_tick := t\<rparr>) (sc_entries c)) = bodies_bytes (sc_entries c)" for t
      using assms Some by (intro bodies_bytes_update) (auto simp: sc_ok_def body_size_def)
    then show ?thesis
      using assms Some er by (auto simp: with_cached_def Let_def sc_ok_def distinct_map_fst_update)
  qed
  then show "sc_ok (snd (with_cached path enc st fn c))"
    and "sc_total_bytes (snd (with_cached path enc st fn c)) \<le> sc_total_bytes c" by auto
qed

lemma sc_evict_ok:
  "sc_ok c \<and> sc_total_bytes c \<le> b \<Longrightarrow> sc_ok (sc_evict path enc c) \<and> sc_total_bytes (sc_evict path enc c) \<le> b"
  using sc_ok_erase(1,2) [OF _ map_of_SomeD, of c "(path, enc)"]
  by (cases "map_of (sc_entries c) (path, enc)") (force simp: sc_evict_def)+

datatype static_cache_cmd =
    Static_get string string file_stat
  | Static_put string string static_cache_entry nat
  | Static_evict string string
  | Static_evict_path string

fun static_cache_exec :: "static_cache_cmd \<Rightarrow> static_cache \<Rightarrow> static_cache" where
  "static_cache_exec (Static_get path enc st) c = snd (sc_get path enc st c)"
| "static_cache_exec (Static_put path enc e m) c = sc_put path enc e m c"
| "static_cache_exec (Static_evict path enc) c = sc_evict path enc c"
| "static_cache_exec (Static_evict_path path) c = evict_path_and_sidecars path c"

fun put_limit :: "static_cache_cmd \<Rightarrow> nat" where
  "put_limit (Static_put path enc e m) = m"
| "put_limit _ = 0"

lemma static_exec_ok:
  assumes "sc_ok c" and "sc_total_bytes c \<le> b" and "put_limit cmd \<le> b"
  shows "sc_ok (static_cache_exec cmd c) \<and> sc_total_bytes (static_cache_exec cmd c) \<le> b"
proof (cases cmd)
  case (Static_get path enc st)
  with with_cached_ok [OF assms(1), of path enc st "\<lambda>entry. entry"] assms(2) show ?thesis by (simp add: sc_get_def)
next
  case (Static_put path enc e m)
  with assms sc_put_ok [OF assms(1,2)] show ?thesis by simp
next
  case (Static_evict path enc)
  with assms sc_evict_ok show ?thesis by simp
next
  case (Static_evict_path path)
  show ?thesis
    unfolding Static_evict_path evict_path_and_sidecars_def evict_all_encodings_def static_cache_exec.simps
    by (intro sc_evict_ok) (simp add: assms)
qed

text \<open>
  In every history of lookups, insertions and evictions the byte count of the file cache is the
  exact size of the bodies it holds, so no subtraction of the code wraps around; no key is held
  twice; and the count never exceeds the largest limit an insertion was given.
\<close>

lemma static_cache_within_budget:
  "let c = run_commands static_cache_exec cs static_cache_new
   in sc_total_bytes c = sum_list (map (\<lambda>(k, e). length (sce_body e)) (sc_entries c))
      \<and> distinct (map fst (sc_entries c)) \<and> sc_total_bytes c \<le> Max (insert 0 (set (map put_limit cs)))"
proof -
  define b where "b = Max (insert 0 (set (map put_limit cs)))"
  have step: "sc_ok c \<and> sc_total_bytes c \<le> b \<Longrightarrow> \<forall>cmd\<in>set ds. put_limit cmd \<le> b \<Longrightarrow>
      sc_ok (run_commands static_cache_exec ds c) \<and> sc_total_bytes (run_commands static_cache_exec ds c) \<le> b" for ds c
    by (induction ds arbitrary: c) (auto simp: static_exec_ok)
  have "\<forall>cmd\<in>set cs. put_limit cmd \<le> b" by (auto simp: b_def intro: Max_ge)
  from step [OF _ this, of static_cache_new] show ?thesis
    by (simp add: static_cache_new_def sc_ok_def bodies_bytes_def body_size_def Let_def b_def)
qed

text \<open>What was put is found while the file's status is the one recorded with it.\<close>

lemma sc_put_get:
  assumes "sc_ok c" and "body_size e \<le> m" and "st_size st = sce_size e" and "st_mtime st = sce_mtime e"
    and "st_dev st = sce_dev e" and "st_ino st = sce_ino e"
  shows "\<exists>t. fst (sc_get path enc st (sc_put path enc e m c)) = Some (e\<lparr>sce_tick := t\<rparr>)"
proof -
  have "map_of (sc_entries (sc_put path enc e m c)) (path, enc) =
      Some (e\<lparr>sce_tick := sc_tick (sc_put path enc e m c)\<rparr>)"
    using sc_put_ok(3) [OF assms(1), of "max m (sc_total_bytes c)" m e path enc] assms(2) by simp
  with assms show ?thesis by (auto simp: sc_get_def with_cached_def Let_def)
qed

text \<open>A changed file is never served from the cache.\<close>

lemma sc_get_current:
  assumes "fst (sc_get path enc st c) = Some e"
  shows "sce_size e = st_size st \<and> sce_mtime e = st_mtime st \<and> sce_dev e = st_dev st \<and> sce_ino e = st_ino st"
  using assms by (auto simp: sc_get_def with_cached_def Let_def split: option.splits if_splits)

end
