(* ===== verification/Sse_Channel.thy ===== *)
theory Sse_Channel
  imports Support
begin

text \<open>
  Server-sent events (\<open>net/realtime.cxx\<close>): the bounded queue of frames between a handler and a
  connection, with its three overflow policies, and the broadcaster.  Each operation under the
  mutex is one step; a write to the event descriptor is counted, and the callbacks that were run
  are recorded.  Byte counts are sums of lengths of strings in memory.
\<close>

section \<open>The channel\<close>

datatype sse_overflow_policy = Drop_newest | Drop_oldest | Disconnect

datatype overflow_policy = OP_reject | OP_drop_oldest | OP_drop_newest | OP_close_connection | OP_backpressure

fun to_overflow_policy :: "sse_overflow_policy \<Rightarrow> overflow_policy" where
  "to_overflow_policy Drop_newest = OP_drop_newest"
| "to_overflow_policy Drop_oldest = OP_drop_oldest"
| "to_overflow_policy Disconnect = OP_close_connection"

fun sse_overflow_policy_of :: "overflow_policy \<Rightarrow> sse_overflow_policy" where
  "sse_overflow_policy_of OP_drop_oldest = Drop_oldest"
| "sse_overflow_policy_of OP_close_connection = Disconnect"
| "sse_overflow_policy_of OP_drop_newest = Drop_newest"
| "sse_overflow_policy_of OP_reject = Drop_newest"
| "sse_overflow_policy_of OP_backpressure = Drop_newest"

record sse_channel =
  pending :: "string list"
  sse_closed :: bool
  queued_bytes :: nat
  max_queue_bytes :: nat
  overflow :: sse_overflow_policy
  dropped :: u64
  dropped_newest :: u64
  dropped_oldest :: u64
  disconnected_for_pressure :: u64
  close_callbacks :: "nat list"
  callbacks_run :: "nat list"
  wakes :: nat

definition kDefaultMaxQueueBytes :: nat where "kDefaultMaxQueueBytes = 4 * 1024 * 1024"

definition sse_channel_new :: "nat \<Rightarrow> sse_overflow_policy \<Rightarrow> sse_channel" where
  "sse_channel_new n policy =
     \<lparr>pending = [], sse_closed = False, queued_bytes = 0, max_queue_bytes = n, overflow = policy, dropped = 0,
      dropped_newest = 0, dropped_oldest = 0, disconnected_for_pressure = 0, close_callbacks = [],
      callbacks_run = [], wakes = 0\<rparr>"

text \<open>The loop that drops the oldest frames until the new one fits or the queue is empty.\<close>

fun drop_oldest_loop :: "nat \<Rightarrow> nat \<Rightarrow> string list \<Rightarrow> nat \<Rightarrow> nat \<Rightarrow> string list \<times> nat \<times> nat" where
  "drop_oldest_loop frame_bytes limit [] queued n = ([], queued, n)"
| "drop_oldest_loop frame_bytes limit (front # rest) queued n =
     (if queued + frame_bytes > limit
      then drop_oldest_loop frame_bytes limit rest (queued - length front) (Suc n)
      else (front # rest, queued, n))"

definition sse_make_room :: "nat \<Rightarrow> sse_channel \<Rightarrow> sse_channel" where
  "sse_make_room frame_bytes ch =
     (case drop_oldest_loop frame_bytes (max_queue_bytes ch) (pending ch) (queued_bytes ch) 0 of
        (ps, queued, n) \<Rightarrow>
          ch\<lparr>pending := ps, queued_bytes := queued, dropped := dropped ch + of_nat n,
             dropped_oldest := dropped_oldest ch + of_nat n\<rparr>)"

definition sse_enqueue :: "string \<Rightarrow> sse_channel \<Rightarrow> bool \<times> sse_channel" where
  "sse_enqueue frame ch =
     (True, ch\<lparr>queued_bytes := queued_bytes ch + length frame, pending := pending ch @ [frame], wakes := Suc (wakes ch)\<rparr>)"

definition sse_send :: "string \<Rightarrow> sse_channel \<Rightarrow> bool \<times> sse_channel" where
  "sse_send frame ch =
     (if sse_closed ch then (False, ch)
      else if queued_bytes ch + length frame > max_queue_bytes ch \<and> max_queue_bytes ch \<noteq> 0 then
        (case overflow ch of
           Drop_newest \<Rightarrow> (False, ch\<lparr>dropped := dropped ch + 1, dropped_newest := dropped_newest ch + 1\<rparr>)
         | Drop_oldest \<Rightarrow> sse_enqueue frame (sse_make_room (length frame) ch)
         | Disconnect \<Rightarrow>
             (False, ch\<lparr>sse_closed := True, dropped := dropped ch + 1,
                        disconnected_for_pressure := disconnected_for_pressure ch + 1, wakes := Suc (wakes ch)\<rparr>))
      else sse_enqueue frame ch)"

definition has_nl :: "string \<Rightarrow> bool" where
  "has_nl s \<longleftrightarrow> sv_find s CHR 0x0A \<noteq> None \<or> sv_find s CHR 0x0D \<noteq> None"

definition event_frame :: "string \<Rightarrow> string \<Rightarrow> string" where
  "event_frame event data = ''event: '' @ event @ CHR 0x0A # ''data: '' @ data @ [CHR 0x0A, CHR 0x0A]"

definition data_frame :: "string \<Rightarrow> string" where
  "data_frame data = ''data: '' @ data @ [CHR 0x0A, CHR 0x0A]"

text \<open>\<open>None\<close> is the exception.\<close>

definition sse_send_event :: "string \<Rightarrow> string \<Rightarrow> sse_channel \<Rightarrow> (bool \<times> sse_channel) option" where
  "sse_send_event event data ch =
     (if has_nl event \<or> has_nl data then None else Some (sse_send (event_frame event data) ch))"

definition sse_close :: "sse_channel \<Rightarrow> sse_channel" where
  "sse_close ch =
     (if sse_closed ch then ch
      else ch\<lparr>sse_closed := True, close_callbacks := [], callbacks_run := callbacks_run ch @ close_callbacks ch,
              wakes := Suc (wakes ch)\<rparr>)"

definition sse_on_close :: "nat \<Rightarrow> sse_channel \<Rightarrow> sse_channel" where
  "sse_on_close callback ch =
     (if \<not> sse_closed ch then ch\<lparr>close_callbacks := close_callbacks ch @ [callback]\<rparr>
      else ch\<lparr>callbacks_run := callbacks_run ch @ [callback]\<rparr>)"

definition sse_drain :: "sse_channel \<Rightarrow> string \<times> sse_channel" where
  "sse_drain ch = (concat (pending ch), ch\<lparr>pending := [], queued_bytes := 0\<rparr>)"

section \<open>The broadcaster\<close>

text \<open>
  Channels live in a store; a number with no channel is a \<open>weak_ptr\<close> whose object is gone.
\<close>

record sse_broadcaster =
  sb_channels :: "nat list"
  sb_store :: "nat \<Rightarrow> sse_channel option"

definition sb_subscribe :: "nat \<Rightarrow> sse_broadcaster \<Rightarrow> sse_broadcaster" where
  "sb_subscribe fresh b =
     b\<lparr>sb_store := (sb_store b)(fresh \<mapsto> sse_channel_new kDefaultMaxQueueBytes Drop_newest),
       sb_channels := sb_channels b @ [fresh]\<rparr>"

fun broadcast_loop :: "string \<Rightarrow> nat list \<Rightarrow> (nat \<Rightarrow> sse_channel option) \<Rightarrow> nat list \<times> (nat \<Rightarrow> sse_channel option)" where
  "broadcast_loop frame [] store = ([], store)"
| "broadcast_loop frame (i # is) store =
     (case store i of
        None \<Rightarrow> broadcast_loop frame is store
      | Some ch \<Rightarrow>
          if sse_closed ch then broadcast_loop frame is store
          else (case broadcast_loop frame is (store(i \<mapsto> snd (sse_send frame ch))) of
                  (kept, store') \<Rightarrow> (i # kept, store')))"

definition broadcast_raw :: "string \<Rightarrow> sse_broadcaster \<Rightarrow> sse_broadcaster" where
  "broadcast_raw frame b =
     (case broadcast_loop frame (sb_channels b) (sb_store b) of
        (kept, store) \<Rightarrow> b\<lparr>sb_channels := kept, sb_store := store\<rparr>)"

definition sb_broadcast :: "string \<Rightarrow> string \<Rightarrow> sse_broadcaster \<Rightarrow> sse_broadcaster" where
  "sb_broadcast event data b = broadcast_raw (event_frame event data) b"

definition sb_broadcast_data :: "string \<Rightarrow> sse_broadcaster \<Rightarrow> sse_broadcaster" where
  "sb_broadcast_data data b = broadcast_raw (data_frame data) b"

section \<open>Facts about the channel\<close>

datatype sse_cmd =
    Sse_send string
  | Sse_close
  | Sse_on_close nat
  | Sse_drain

text \<open>A command on the channel and what the connection has received so far.\<close>

fun sse_exec :: "sse_cmd \<Rightarrow> sse_channel \<times> string list \<Rightarrow> sse_channel \<times> string list" where
  "sse_exec (Sse_send frame) (ch, got) = (snd (sse_send frame ch), got)"
| "sse_exec Sse_close (ch, got) = (sse_close ch, got)"
| "sse_exec (Sse_on_close f) (ch, got) = (sse_on_close f ch, got)"
| "sse_exec Sse_drain (ch, got) = (snd (sse_drain ch), got @ pending ch)"

fun sent_frames :: "sse_cmd list \<Rightarrow> string list" where
  "sent_frames [] = []"
| "sent_frames (Sse_send frame # cs) = frame # sent_frames cs"
| "sent_frames (_ # cs) = sent_frames cs"

definition frames_bytes :: "string list \<Rightarrow> nat" where
  "frames_bytes fs = sum_list (map length fs)"

definition sse_ok :: "nat \<Rightarrow> sse_channel \<Rightarrow> bool" where
  "sse_ok big ch \<longleftrightarrow>
     queued_bytes ch = frames_bytes (pending ch) \<and>
     (max_queue_bytes ch \<noteq> 0 \<longrightarrow>
        queued_bytes ch \<le> (if overflow ch = Drop_oldest then max (max_queue_bytes ch) big else max_queue_bytes ch))"

lemma drop_oldest_loop_ok:
  assumes "drop_oldest_loop n limit ps q k = (ps', q', k')" and "q = frames_bytes ps"
  shows "q' = frames_bytes ps' \<and> (q' + n \<le> limit \<or> ps' = []) \<and> suffix ps' ps \<and> k' + length ps' = k + length ps"
  using assms
proof (induction ps arbitrary: q k)
  case (Cons f fs)
  show ?case
  proof (cases "q + n > limit")
    case True
    with Cons.prems have "drop_oldest_loop n limit fs (q - length f) (Suc k) = (ps', q', k')" by simp
    moreover have "q - length f = frames_bytes fs" using Cons.prems by (simp add: frames_bytes_def)
    ultimately show ?thesis using Cons.IH by (fastforce intro: suffix_ConsI)
  next
    case False
    with Cons.prems show ?thesis by auto
  qed
qed (simp add: frames_bytes_def)

lemma sse_make_room_ok:
  assumes "queued_bytes ch = frames_bytes (pending ch)"
  shows "queued_bytes (sse_make_room n ch) = frames_bytes (pending (sse_make_room n ch))"
    and "queued_bytes (sse_make_room n ch) + n \<le> max (max_queue_bytes ch) n"
    and "suffix (pending (sse_make_room n ch)) (pending ch)"
    and "max_queue_bytes (sse_make_room n ch) = max_queue_bytes ch" and "overflow (sse_make_room n ch) = overflow ch"
proof -
  obtain ps q k where l: "drop_oldest_loop n (max_queue_bytes ch) (pending ch) (queued_bytes ch) 0 = (ps, q, k)"
    by (cases "drop_oldest_loop n (max_queue_bytes ch) (pending ch) (queued_bytes ch) 0")
  note ok = drop_oldest_loop_ok [OF l assms]
  from l have m: "pending (sse_make_room n ch) = ps" "queued_bytes (sse_make_room n ch) = q"
    "max_queue_bytes (sse_make_room n ch) = max_queue_bytes ch" "overflow (sse_make_room n ch) = overflow ch"
    by (simp_all add: sse_make_room_def)
  from ok m show "queued_bytes (sse_make_room n ch) = frames_bytes (pending (sse_make_room n ch))"
    and "suffix (pending (sse_make_room n ch)) (pending ch)"
    and "max_queue_bytes (sse_make_room n ch) = max_queue_bytes ch" and "overflow (sse_make_room n ch) = overflow ch"
    by simp_all
  from ok m show "queued_bytes (sse_make_room n ch) + n \<le> max (max_queue_bytes ch) n"
    by (auto simp: frames_bytes_def)
qed

lemma sse_send_ok:
  assumes "sse_ok big ch" and "length frame \<le> big"
  shows "sse_ok big (snd (sse_send frame ch))" and "max_queue_bytes (snd (sse_send frame ch)) = max_queue_bytes ch"
    and "overflow (snd (sse_send frame ch)) = overflow ch"
proof -
  have q: "queued_bytes ch = frames_bytes (pending ch)" using assms(1) by (simp add: sse_ok_def)
  note room = sse_make_room_ok [OF q, of "length frame"]
  show "sse_ok big (snd (sse_send frame ch))"
    using assms room
    by (cases "overflow ch") (auto simp: sse_send_def sse_enqueue_def sse_ok_def frames_bytes_def)
  show "max_queue_bytes (snd (sse_send frame ch)) = max_queue_bytes ch"
    and "overflow (snd (sse_send frame ch)) = overflow ch"
    using room by (cases "overflow ch"; simp add: sse_send_def sse_enqueue_def)+
qed

definition sse_history :: "nat \<Rightarrow> sse_overflow_policy \<Rightarrow> sse_cmd list \<Rightarrow> sse_channel \<times> string list" where
  "sse_history limit policy cs = run_commands sse_exec cs (sse_channel_new limit policy, [])"

definition largest_frame :: "string list \<Rightarrow> nat" where
  "largest_frame fs = Max (insert 0 (set (map length fs)))"

lemma sent_frames_append [simp]: "sent_frames (cs @ ds) = sent_frames cs @ sent_frames ds"
  by (induction cs rule: sent_frames.induct) auto

lemma largest_frame_ge: "f \<in> set fs \<Longrightarrow> length f \<le> largest_frame fs"
  by (auto simp: largest_frame_def intro: Max_ge)

lemma sse_ok_mono: "sse_ok big ch \<Longrightarrow> big \<le> big' \<Longrightarrow> sse_ok big' ch"
  by (auto simp: sse_ok_def split: if_splits)

lemma largest_frame_snoc: "largest_frame fs \<le> largest_frame (fs @ gs)"
  unfolding largest_frame_def by (rule Max_mono) auto

lemma sse_send_pending:
  assumes "sse_ok big ch"
  shows "(\<exists>ps. suffix ps (pending ch) \<and> pending (snd (sse_send frame ch)) = ps @ [frame])
    \<or> pending (snd (sse_send frame ch)) = pending ch"
proof -
  have q: "queued_bytes ch = frames_bytes (pending ch)" using assms by (simp add: sse_ok_def)
  have "suffix (pending (sse_make_room (length frame) ch)) (pending ch)" by (rule sse_make_room_ok(3) [OF q])
  then show ?thesis by (cases "overflow ch") (auto simp: sse_send_def sse_enqueue_def)
qed

lemma subseq_suffix: "suffix ps qs \<Longrightarrow> subseq (got @ qs) fs \<Longrightarrow> subseq (got @ ps) fs"
  by (meson list_emb_append_mono subseq_order.order_refl subseq_order.order_trans suffix_imp_subseq)

definition sse_inv :: "nat \<Rightarrow> sse_overflow_policy \<Rightarrow> string list \<Rightarrow> sse_channel \<times> string list \<Rightarrow> bool" where
  "sse_inv limit policy fs s \<longleftrightarrow>
     sse_ok (largest_frame fs) (fst s) \<and> max_queue_bytes (fst s) = limit \<and> overflow (fst s) = policy \<and>
     subseq (snd s @ pending (fst s)) fs"

lemma sse_inv_exec:
  assumes "sse_inv limit policy fs s"
  shows "sse_inv limit policy (fs @ sent_frames [c]) (sse_exec c s)"
proof -
  obtain ch got where s: "s = (ch, got)" by (cases s)
  have ok: "sse_ok (largest_frame fs) ch" and same: "max_queue_bytes ch = limit" "overflow ch = policy"
    and sub: "subseq (got @ pending ch) fs" using assms s by (auto simp: sse_inv_def)
  show ?thesis
  proof (cases c)
    case (Sse_send frame)
    have "sse_ok (largest_frame (fs @ [frame])) ch" using ok largest_frame_snoc by (rule sse_ok_mono)
    note snd = sse_send_ok [OF this, of frame, OF largest_frame_ge]
    have "subseq (got @ pending (snd (sse_send frame ch))) (fs @ [frame])"
      using sse_send_pending [OF ok, of frame]
    proof
      assume "\<exists>ps. suffix ps (pending ch) \<and> pending (snd (sse_send frame ch)) = ps @ [frame]"
      then obtain ps where ps: "suffix ps (pending ch)" "pending (snd (sse_send frame ch)) = ps @ [frame]" by blast
      have "subseq ((got @ ps) @ [frame]) (fs @ [frame])"
        using subseq_suffix [OF ps(1) sub] by (rule list_emb_append_mono) simp
      then show ?thesis by (simp add: ps(2))
    next
      assume "pending (snd (sse_send frame ch)) = pending ch"
      with list_emb_append_mono [OF sub list_emb_Nil, of "[frame]"] show ?thesis by simp
    qed
    with snd same show ?thesis by (simp add: Sse_send s sse_inv_def)
  next
    case Sse_close
    with ok same sub show ?thesis by (auto simp: s sse_inv_def sse_close_def sse_ok_def)
  next
    case (Sse_on_close f)
    with ok same sub show ?thesis by (auto simp: s sse_inv_def sse_on_close_def sse_ok_def)
  next
    case Sse_drain
    with ok same sub show ?thesis by (auto simp: s sse_inv_def sse_drain_def sse_ok_def frames_bytes_def)
  qed
qed

lemma sse_inv_history: "sse_inv limit policy (sent_frames cs) (sse_history limit policy cs)"
proof (induction cs rule: rev_induct)
  case Nil
  then show ?case by (simp add: sse_history_def sse_inv_def sse_ok_def sse_channel_new_def frames_bytes_def)
next
  case (snoc c cs)
  from sse_inv_exec [OF this, of c] show ?case by (simp add: sse_history_def del: sent_frames.simps)
qed

text \<open>
  C36: In every history of a channel the frames a connection has received, followed by those still
  queued, are a subsequence of the frames sent: nothing is reordered, repeated or made up.  The
  byte count is exact, and unless the limit is zero it stays within the limit, except that the
  policy of dropping the oldest frames lets a single frame larger than the limit through.
\<close>

theorem sse_queue_bounded:
  "case sse_history limit policy cs of
     (ch, got) \<Rightarrow>
       subseq (got @ pending ch) (sent_frames cs) \<and> queued_bytes ch = sum_list (map length (pending ch)) \<and>
       (limit = 0 \<or>
        queued_bytes ch \<le> (if policy = Drop_oldest then max limit (largest_frame (sent_frames cs)) else limit))"
  using sse_inv_history [of limit policy cs]
  by (auto simp: sse_inv_def sse_ok_def frames_bytes_def split: if_splits)

text \<open>A closed channel accepts nothing, and an open one below its limit accepts every frame.\<close>

lemma sse_send_closed: "sse_closed ch \<Longrightarrow> sse_send frame ch = (False, ch)"
  by (simp add: sse_send_def)

lemma sse_send_accepts:
  "\<not> sse_closed ch \<Longrightarrow> queued_bytes ch + length frame \<le> max_queue_bytes ch \<Longrightarrow> fst (sse_send frame ch)"
  by (simp add: sse_send_def sse_enqueue_def)

text \<open>
  A frame larger than the limit gets through under the policy of dropping the oldest frames, and
  a channel that was disconnected for pressure never runs its close callbacks.
\<close>

lemma drop_oldest_admits_oversized:
  "let ch = fst (sse_history 4 Drop_oldest [Sse_send ''abcdefgh'']) in queued_bytes ch = 8 \<and> pending ch = [''abcdefgh'']"
  by code_simp

lemma disconnect_skips_callbacks:
  "callbacks_run (fst (sse_history 4 Disconnect [Sse_on_close 7, Sse_send ''abcdefgh'', Sse_close])) = []"
  "callbacks_run (fst (sse_history 4 Disconnect [Sse_on_close 7, Sse_close])) = [7]"
  by code_simp+

text \<open>An event sent through \<open>send_event\<close> cannot smuggle in a second one.\<close>

lemma event_frame_lines:
  assumes "sse_send_event event data ch = Some r"
  shows "CHR 0x0A \<notin> set event" and "CHR 0x0A \<notin> set data" and "CHR 0x0D \<notin> set event" and "CHR 0x0D \<notin> set data"
  using assms by (auto simp: sse_send_event_def has_nl_def sv_find_None_iff split: if_splits)

text \<open>A broadcast reaches every open subscriber and forgets the others.\<close>

lemma broadcast_loop_eq:
  "distinct is \<Longrightarrow> broadcast_loop frame is store =
    (let live = filter (\<lambda>i. \<exists>ch. store i = Some ch \<and> \<not> sse_closed ch) is
     in (live, \<lambda>i. if i \<in> set live then map_option (\<lambda>ch. snd (sse_send frame ch)) (store i) else store i))"
proof (induction "is" arbitrary: store)
  case (Cons i "is")
  show ?case
  proof (cases "\<exists>ch. store i = Some ch \<and> \<not> sse_closed ch")
    case True
    then obtain ch where ch: "store i = Some ch" "\<not> sse_closed ch" by blast
    have "filter (\<lambda>j. \<exists>c. (store(i \<mapsto> snd (sse_send frame ch))) j = Some c \<and> \<not> sse_closed c) is =
        filter (\<lambda>j. \<exists>c. store j = Some c \<and> \<not> sse_closed c) is"
      using Cons.prems by (intro filter_cong) auto
    with Cons ch show ?thesis by (auto simp: Let_def fun_eq_iff)
  next
    case False
    with Cons show ?thesis by (auto simp: Let_def split: option.splits)
  qed
qed (simp add: Let_def)

end
