(* ===== verification/Utf8.thy ===== *)
theory Utf8
  imports Prelude
begin

unbundle bit_operations_syntax

text \<open>
  UTF-8 validation (\<open>utf8_is_valid\<close> of \<open>net/realtime.cxx\<close>) and the proof that it accepts exactly the
  encodings of sequences of Unicode scalar values.  The bit tests are the code's; the lemmas on
  masks turn them into arithmetic on bytes.
\<close>

section \<open>The validator\<close>

text \<open>The lead byte of a sequence: how many bytes follow, the least code point, the first bits.\<close>

definition utf8_lead :: "nat \<Rightarrow> (nat \<times> nat \<times> nat) option" where
  "utf8_lead b =
     (if b AND 0xE0 = 0xC0 then Some (1, 0x80, b AND 0x1F)
      else if b AND 0xF0 = 0xE0 then Some (2, 0x800, b AND 0x0F)
      else if b AND 0xF8 = 0xF0 then Some (3, 0x10000, b AND 0x07)
      else None)"

fun utf8_tail :: "string \<Rightarrow> nat \<Rightarrow> nat option" where
  "utf8_tail [] cp = Some cp"
| "utf8_tail (c # cs) cp =
     (if byte c AND 0xC0 \<noteq> 0x80 then None else utf8_tail cs (push_bit 6 cp OR (byte c AND 0x3F)))"

function utf8_is_valid :: "string \<Rightarrow> bool" where
  "utf8_is_valid s =
     (case s of
        [] \<Rightarrow> True
      | c # rest \<Rightarrow>
          let b = byte c
          in if b < 0x80 then utf8_is_valid rest
             else
               case utf8_lead b of
                 None \<Rightarrow> False
               | Some (extra, min_cp, cp) \<Rightarrow>
                   if extra \<ge> length s then False
                   else
                     case utf8_tail (take extra rest) cp of
                       None \<Rightarrow> False
                     | Some cp \<Rightarrow>
                         if cp < min_cp then False
                         else if cp \<ge> 0xD800 \<and> cp \<le> 0xDFFF then False
                         else if cp > 0x10FFFF then False
                         else utf8_is_valid (drop extra rest))"
  by pat_completeness auto
termination
  by (relation "measure length") auto

declare utf8_is_valid.simps [simp del]

section \<open>Facts\<close>

definition scalar_value :: "nat \<Rightarrow> bool" where
  "scalar_value cp \<longleftrightarrow> cp < 0xD800 \<or> 0xDFFF < cp \<and> cp \<le> 0x10FFFF"

definition utf8_encode :: "nat \<Rightarrow> string" where
  "utf8_encode cp =
     (if cp < 0x80 then [of_byte cp]
      else if cp < 0x800 then [of_byte (0xC0 + cp div 64), of_byte (0x80 + cp mod 64)]
      else if cp < 0x10000
      then [of_byte (0xE0 + cp div 4096), of_byte (0x80 + cp div 64 mod 64), of_byte (0x80 + cp mod 64)]
      else [of_byte (0xF0 + cp div 262144), of_byte (0x80 + cp div 4096 mod 64), of_byte (0x80 + cp div 64 mod 64),
            of_byte (0x80 + cp mod 64)])"

lemma and_field: "(b :: nat) AND push_bit n (mask m) = 2 ^ n * (b div 2 ^ n mod 2 ^ m)"
proof -
  have "b AND push_bit n (mask m) = push_bit n (take_bit m (drop_bit n b))"
    by (rule bit_eqI) (auto simp: bit_simps)
  then show ?thesis by (simp add: push_bit_eq_mult take_bit_eq_mod drop_bit_eq_div mult.commute)
qed

lemma and_masks:
  "(b :: nat) AND 0x3F = b mod 64" "b AND 0x1F = b mod 32" "b AND 0x0F = b mod 16" "b AND 0x07 = b mod 8"
  "b AND 0x7F = b mod 128" "b AND 3 = b mod 4"
  using and_field [of b 0 6] and_field [of b 0 5] and_field [of b 0 4] and_field [of b 0 3] and_field [of b 0 7]
    and_field [of b 0 2]
  by (simp_all add: mask_eq_exp_minus_1)

lemma div_eq_between: "0 < n \<Longrightarrow> (b :: nat) div n = q \<longleftrightarrow> q * n \<le> b \<and> b < q * n + n"
proof -
  assume n: "0 < n"
  have "b div n * n \<le> b" "b < b div n * n + n"
    using mod_less_divisor [OF n, of b] div_mult_mod_eq [of b n] by linarith+
  then show ?thesis using n by (auto intro: div_nat_eqI simp: algebra_simps)
qed

lemma and_top:
  assumes "(b :: nat) < 2 ^ (n + m)"
  shows "b AND push_bit n (mask m) = 2 ^ n * q \<longleftrightarrow> q * 2 ^ n \<le> b \<and> b < q * 2 ^ n + 2 ^ n"
proof -
  have "b div 2 ^ n < 2 ^ m" using assms by (simp add: less_mult_imp_div_less power_add mult.commute)
  then show ?thesis unfolding and_field by (simp add: div_eq_between)
qed

lemma byte_tests:
  assumes "(b :: nat) < 256"
  shows "b AND 0xC0 = 0x80 \<longleftrightarrow> 0x80 \<le> b \<and> b < 0xC0" and "b AND 0xE0 = 0xC0 \<longleftrightarrow> 0xC0 \<le> b \<and> b < 0xE0"
    and "b AND 0xF0 = 0xE0 \<longleftrightarrow> 0xE0 \<le> b \<and> b < 0xF0" and "b AND 0xF8 = 0xF0 \<longleftrightarrow> 0xF0 \<le> b \<and> b < 0xF8"
    and "b AND 0x80 = 0 \<longleftrightarrow> b < 0x80" and "b AND 0x70 = 0 \<longleftrightarrow> b mod 128 < 16"
proof -
  show "b AND 0xC0 = 0x80 \<longleftrightarrow> 0x80 \<le> b \<and> b < 0xC0" and "b AND 0xE0 = 0xC0 \<longleftrightarrow> 0xC0 \<le> b \<and> b < 0xE0"
    and "b AND 0xF0 = 0xE0 \<longleftrightarrow> 0xE0 \<le> b \<and> b < 0xF0" and "b AND 0xF8 = 0xF0 \<longleftrightarrow> 0xF0 \<le> b \<and> b < 0xF8"
    and "b AND 0x80 = 0 \<longleftrightarrow> b < 0x80"
    using assms and_top [of b 6 2 2] and_top [of b 5 3 6] and_top [of b 4 4 14] and_top [of b 3 5 30] and_top [of b 7 1 0]
    by (simp_all add: mask_eq_exp_minus_1 push_bit_eq_mult)
  have "b AND 0x70 = 16 * (b div 16 mod 8)"
    using and_field [of b 4 3] by (simp add: mask_eq_exp_minus_1 push_bit_eq_mult)
  moreover have "b mod 128 = 16 * (b div 16 mod 8) + b mod 16"
    using mod_mult2_eq [of b 16 8] by simp
  ultimately show "b AND 0x70 = 0 \<longleftrightarrow> b mod 128 < 16" by (cases "b div 16 mod 8") auto
qed

lemma or_sextet: "y < 64 \<Longrightarrow> push_bit 6 x OR y = x * 64 + (y :: nat)"
proof -
  assume "y < 64"
  then have y: "take_bit 6 y = y" by (simp add: take_bit_eq_mod)
  have "\<not> bit (push_bit 6 x) n \<or> \<not> bit y n" for n
    using y by (metis bit_push_bit_iff bit_take_bit_iff linorder_not_less)
  then have "push_bit 6 x + y = push_bit 6 x OR y" by (rule disjunctive_add)
  then show ?thesis by (simp add: push_bit_eq_mult)
qed

lemma utf8_tail_Cons:
  "utf8_tail (c # cs) cp = (if 0x80 \<le> byte c \<and> byte c < 0xC0 then utf8_tail cs (cp * 64 + byte c mod 64) else None)"
  by (simp add: byte_tests and_masks or_sextet)


declare utf8_tail.simps(2) [simp del]

lemma mod_offset: "x < n \<Longrightarrow> (k * n + x) mod n = (x :: nat)"
  by simp

lemma utf8_leads:
  "x < 32 \<Longrightarrow> utf8_lead (0xC0 + x) = Some (1, 0x80, x)"
  "x < 16 \<Longrightarrow> utf8_lead (0xE0 + x) = Some (2, 0x800, x)"
  "x < 8 \<Longrightarrow> utf8_lead (0xF0 + x) = Some (3, 0x10000, x)"
  using mod_offset [of x 32 6] mod_offset [of x 16 14] mod_offset [of x 8 30]
  by (simp_all add: utf8_lead_def byte_tests and_masks)

lemma utf8_lead_cases:
  assumes "utf8_lead b = Some (e, m, p)" and "b < 256"
  shows "e = 1 \<and> m = 0x80 \<and> p < 32 \<and> b = 0xC0 + p \<or> e = 2 \<and> m = 0x800 \<and> p < 16 \<and> b = 0xE0 + p
    \<or> e = 3 \<and> m = 0x10000 \<and> p < 8 \<and> b = 0xF0 + p"
proof -
  consider x where "b = 0xC0 + x" "x < 32" | x where "b = 0xE0 + x" "x < 16" | x where "b = 0xF0 + x" "x < 8"
    | "b < 0xC0" | "0xF8 \<le> b"
  proof -
    have "(\<exists>x. b = 0xC0 + x \<and> x < 32) \<or> (\<exists>x. b = 0xE0 + x \<and> x < 16) \<or> (\<exists>x. b = 0xF0 + x \<and> x < 8) \<or>
        b < 0xC0 \<or> 0xF8 \<le> b" using assms(2) by presburger
    then show thesis using that by blast
  qed
  then show ?thesis
  proof cases
    case 4
    with assms show ?thesis by (simp add: utf8_lead_def byte_tests)
  next
    case 5
    with assms show ?thesis by (simp add: utf8_lead_def byte_tests)
  qed (use assms(1) in \<open>simp_all add: utf8_leads\<close>)
qed

lemma utf8_tail_cont: "y < 64 \<Longrightarrow> utf8_tail (of_byte (0x80 + y) # cs) p = utf8_tail cs (p * 64 + y)"
proof -
  assume y: "y < 64"
  then have "(0x80 + y) mod 64 = y" using mod_offset [of y 64 2] by simp
  with y show ?thesis by (simp add: utf8_tail_Cons)
qed

lemma utf8_tail_SomeD: "utf8_tail (c # cs) p = Some cp \<Longrightarrow> \<exists>y<64. c = of_byte (0x80 + y) \<and> utf8_tail cs (p * 64 + y) = Some cp"
proof -
  assume a: "utf8_tail (c # cs) p = Some cp"
  then have b: "0x80 \<le> byte c" "byte c < 0xC0" by (simp_all add: utf8_tail_Cons split: if_splits)
  then have "\<exists>y<64. byte c = 0x80 + y" by presburger
  then obtain y where y: "y < 64" "byte c = 0x80 + y" by blast
  then have "c = of_byte (0x80 + y)" by (metis of_byte_byte)
  with a y show ?thesis using utf8_tail_cont by metis
qed

lemma utf8_step:
  assumes "0x80 \<le> byte c" and "utf8_lead (byte c) = Some (e, m, p)"
  shows "utf8_is_valid (c # rest) \<longleftrightarrow> e \<le> length rest \<and>
    (\<exists>cp. utf8_tail (take e rest) p = Some cp \<and> m \<le> cp \<and> scalar_value cp \<and> utf8_is_valid (drop e rest))"
  using assms by (auto simp: utf8_is_valid.simps [of "c # rest"] Let_def scalar_value_def split: option.splits)

lemma utf8_one: "byte c < 0x80 \<Longrightarrow> utf8_is_valid (c # s) = utf8_is_valid s"
  by (simp add: utf8_is_valid.simps [of "c # s"])

lemma utf8_is_valid_Nil [simp]: "utf8_is_valid []"
  by (simp add: utf8_is_valid.simps [of "[]"])

lemma utf8_steps:
  "x < 32 \<Longrightarrow> utf8_is_valid (of_byte (0xC0 + x) # rest) \<longleftrightarrow> 1 \<le> length rest \<and>
    (\<exists>cp. utf8_tail (take 1 rest) x = Some cp \<and> 0x80 \<le> cp \<and> scalar_value cp \<and> utf8_is_valid (drop 1 rest))"
  "x < 16 \<Longrightarrow> utf8_is_valid (of_byte (0xE0 + x) # rest) \<longleftrightarrow> 2 \<le> length rest \<and>
    (\<exists>cp. utf8_tail (take 2 rest) x = Some cp \<and> 0x800 \<le> cp \<and> scalar_value cp \<and> utf8_is_valid (drop 2 rest))"
  "x < 8 \<Longrightarrow> utf8_is_valid (of_byte (0xF0 + x) # rest) \<longleftrightarrow> 3 \<le> length rest \<and>
    (\<exists>cp. utf8_tail (take 3 rest) x = Some cp \<and> 0x10000 \<le> cp \<and> scalar_value cp \<and> utf8_is_valid (drop 3 rest))"
  by (rule utf8_step; simp add: utf8_leads)+

lemma sextets:
  "cp div 64 * 64 + cp mod 64 = (cp :: nat)"
  "(cp div 4096 * 64 + cp div 64 mod 64) * 64 + cp mod 64 = cp"
  "((cp div 262144 * 64 + cp div 4096 mod 64) * 64 + cp div 64 mod 64) * 64 + cp mod 64 = cp"
proof -
  have d: "cp div 4096 = cp div 64 div 64" "cp div 262144 = cp div 64 div 64 div 64"
    by (simp_all add: div_mult2_eq [symmetric])
  show "cp div 64 * 64 + cp mod 64 = cp" "(cp div 4096 * 64 + cp div 64 mod 64) * 64 + cp mod 64 = cp"
    "((cp div 262144 * 64 + cp div 4096 mod 64) * 64 + cp div 64 mod 64) * 64 + cp mod 64 = cp"
    unfolding d by (simp_all only: div_mult_mod_eq)
qed

lemma utf8_tails:
  "y < 64 \<Longrightarrow> utf8_tail [of_byte (0x80 + y)] p = Some (p * 64 + y)"
  "x < 64 \<Longrightarrow> y < 64 \<Longrightarrow> utf8_tail [of_byte (0x80 + x), of_byte (0x80 + y)] p = Some ((p * 64 + x) * 64 + y)"
  "w < 64 \<Longrightarrow> x < 64 \<Longrightarrow> y < 64 \<Longrightarrow>
    utf8_tail [of_byte (0x80 + w), of_byte (0x80 + x), of_byte (0x80 + y)] p = Some (((p * 64 + w) * 64 + x) * 64 + y)"
  by (simp_all only: utf8_tail_cont utf8_tail.simps(1))

lemma utf8_sextet_tails:
  "utf8_tail [of_byte (0x80 + cp mod 64)] (cp div 64) = Some cp"
  "utf8_tail [of_byte (0x80 + cp div 64 mod 64), of_byte (0x80 + cp mod 64)] (cp div 4096) = Some cp"
  "utf8_tail [of_byte (0x80 + cp div 4096 mod 64), of_byte (0x80 + cp div 64 mod 64), of_byte (0x80 + cp mod 64)]
     (cp div 262144) = Some cp"
  using utf8_tails(1) [of "cp mod 64" "cp div 64"] utf8_tails(2) [of "cp div 64 mod 64" "cp mod 64" "cp div 4096"]
    utf8_tails(3) [of "cp div 4096 mod 64" "cp div 64 mod 64" "cp mod 64" "cp div 262144"]
  unfolding sextets by simp_all

lemma utf8_valid_encode:
  assumes "scalar_value cp"
  shows "utf8_is_valid (utf8_encode cp @ s) = utf8_is_valid s"
proof -
  consider "cp < 0x80" | "0x80 \<le> cp" "cp < 0x800" | "0x800 \<le> cp" "cp < 0x10000" | "0x10000 \<le> cp" by linarith
  then show ?thesis
  proof cases
    case 1
    then show ?thesis by (simp add: utf8_encode_def utf8_one)
  next
    case 2
    then have x: "cp div 64 < 32" by (simp add: less_mult_imp_div_less)
    from 2 assms show ?thesis
      by (simp add: utf8_encode_def utf8_steps(1) [OF x] utf8_sextet_tails)
  next
    case 3
    then have x: "cp div 4096 < 16" by (simp add: less_mult_imp_div_less)
    from 3 assms show ?thesis
      by (simp add: utf8_encode_def utf8_steps(2) [OF x] utf8_sextet_tails numeral_2_eq_2)
  next
    case 4
    then have x: "cp div 262144 < 8" using assms by (simp add: scalar_value_def less_mult_imp_div_less)
    from 4 assms show ?thesis
      by (simp add: utf8_encode_def utf8_steps(3) [OF x] utf8_sextet_tails numeral_3_eq_3)
  qed
qed

lemma sextet_digits:
  "y < 64 \<Longrightarrow> (x * 64 + y) div 64 = (x :: nat)" "y < 64 \<Longrightarrow> (x * 64 + y) mod 64 = y"
  by simp_all

lemma sextet_digits_2:
  assumes "cp = (p * 64 + x) * 64 + (y :: nat)" and "x < 64" and "y < 64"
  shows "cp mod 64 = y" "cp div 64 mod 64 = x" "cp div 4096 = p"
proof -
  have d: "cp div 64 = p * 64 + x" unfolding assms(1) by (rule sextet_digits(1) [OF assms(3)])
  show "cp mod 64 = y" unfolding assms(1) by (rule sextet_digits(2) [OF assms(3)])
  show "cp div 64 mod 64 = x" unfolding d by (rule sextet_digits(2) [OF assms(2)])
  have "cp div 4096 = cp div 64 div 64" by (simp add: div_mult2_eq [symmetric])
  then show "cp div 4096 = p" unfolding d using sextet_digits(1) [OF assms(2)] by simp
qed

lemma sextet_digits_3:
  assumes "cp = ((p * 64 + w) * 64 + x) * 64 + (y :: nat)" and "w < 64" and "x < 64" and "y < 64"
  shows "cp mod 64 = y" "cp div 64 mod 64 = x" "cp div 4096 mod 64 = w" "cp div 262144 = p"
proof -
  note d = sextet_digits_2 [OF assms(1,3,4)]
  show "cp mod 64 = y" "cp div 64 mod 64 = x" by (fact d)+
  show "cp div 4096 mod 64 = w" unfolding d(3) by (rule sextet_digits(2) [OF assms(2)])
  have "cp div 262144 = cp div 4096 div 64" by (simp add: div_mult2_eq [symmetric])
  then show "cp div 262144 = p" unfolding d(3) using sextet_digits(1) [OF assms(2)] by simp
qed

text \<open>The decoded value of an accepted sequence encodes to that sequence.\<close>

lemma utf8_step_encodes:
  assumes "utf8_lead (byte c) = Some (e, m, p)" and "e \<le> length rest"
    and "utf8_tail (take e rest) p = Some cp" and "m \<le> cp"
  shows "utf8_encode cp = c # take e rest"
proof -
  from utf8_lead_cases [OF assms(1)] consider
      "e = 1" "m = 0x80" "p < 32" "byte c = 0xC0 + p" | "e = 2" "m = 0x800" "p < 16" "byte c = 0xE0 + p"
    | "e = 3" "m = 0x10000" "p < 8" "byte c = 0xF0 + p" by force
  then show ?thesis
  proof cases
    case 1
    then obtain d r where r: "rest = d # r" using assms(2) by (cases rest) auto
    then obtain y where y: "y < 64" "d = of_byte (0x80 + y)" "cp = p * 64 + y"
      using assms(3) 1 by (auto dest!: utf8_tail_SomeD)
    moreover have "c = of_byte (0xC0 + p)" using 1 by (metis of_byte_byte)
    ultimately show ?thesis using 1 r assms(4) by (simp add: utf8_encode_def sextet_digits)
  next
    case 2
    then obtain d d' r where r: "rest = d # d' # r"
      using assms(2) by (metis Suc_le_length_iff numeral_2_eq_2)
    then obtain x y where y: "x < 64" "y < 64" "d = of_byte (0x80 + x)" "d' = of_byte (0x80 + y)" "cp = (p * 64 + x) * 64 + y"
      using assms(3) 2 by (auto simp: numeral_2_eq_2 dest!: utf8_tail_SomeD)
    have "c = of_byte (0xE0 + p)" using 2 by (metis of_byte_byte)
    moreover have "cp < 0x10000" using y 2 by simp
    ultimately show ?thesis using sextet_digits_2 [OF y(5,1,2)] y(3,4) 2 r assms(4)
      by (simp add: utf8_encode_def numeral_2_eq_2)
  next
    case 3
    then obtain d d' d'' r where r: "rest = d # d' # d'' # r"
      using assms(2) by (metis Suc_le_length_iff numeral_3_eq_3)
    then obtain w x y where y: "w < 64" "x < 64" "y < 64" "d = of_byte (0x80 + w)" "d' = of_byte (0x80 + x)"
      "d'' = of_byte (0x80 + y)" "cp = ((p * 64 + w) * 64 + x) * 64 + y"
      using assms(3) 3 by (auto simp: numeral_3_eq_3 dest!: utf8_tail_SomeD)
    have "c = of_byte (0xF0 + p)" using 3 by (metis of_byte_byte)
    then show ?thesis using sextet_digits_3 [OF y(7,1,2,3)] y(4,5,6) 3 r assms(4)
      by (simp add: utf8_encode_def numeral_3_eq_3)
  qed
qed

lemma utf8_valid_encoded:
  "utf8_is_valid s \<longleftrightarrow> (\<exists>cps. list_all scalar_value cps \<and> s = concat (map utf8_encode cps))"
proof
  show "\<exists>cps. list_all scalar_value cps \<and> s = concat (map utf8_encode cps)" if "utf8_is_valid s"
    using that
  proof (induction s rule: measure_induct_rule [of length])
    case (less s)
    show ?case
    proof (cases s)
      case Nil
      then show ?thesis by (intro exI [of _ "[]"]) simp
    next
      case (Cons c rest)
      show ?thesis
      proof (cases "byte c < 0x80")
        case True
        with less Cons obtain cps where "list_all scalar_value cps" "rest = concat (map utf8_encode cps)"
          by (auto simp: utf8_one)
        with Cons True show ?thesis
          by (intro exI [of _ "byte c # cps"]) (simp add: utf8_encode_def [of "byte c"] scalar_value_def [of "byte c"])
      next
        case False
        with less.prems Cons obtain e m p where l: "utf8_lead (byte c) = Some (e, m, p)"
          by (auto simp: utf8_is_valid.simps [of "c # rest"] Let_def split: option.splits)
        with less.prems Cons False utf8_step [of c e m p rest] obtain cp where
          e: "e \<le> length rest" and t: "utf8_tail (take e rest) p = Some cp" "m \<le> cp"
          and sc: "scalar_value cp" and v: "utf8_is_valid (drop e rest)" by auto
        have "length (drop e rest) < length s" using Cons by simp
        from less.IH [OF this v] obtain cps where "list_all scalar_value cps" "drop e rest = concat (map utf8_encode cps)"
          by auto
        with utf8_step_encodes [OF l e t] sc Cons show ?thesis
          by (intro exI [of _ "cp # cps"]) (simp, metis append_take_drop_id)
      qed
    qed
  qed
  show "utf8_is_valid s" if "\<exists>cps. list_all scalar_value cps \<and> s = concat (map utf8_encode cps)"
  proof -
    have "list_all scalar_value cps \<Longrightarrow> utf8_is_valid (concat (map utf8_encode cps))" for cps
      by (induction cps) (simp_all add: utf8_valid_encode)
    with that show ?thesis by blast
  qed
qed

text \<open>
  C35: The validator accepts exactly the byte strings that are the UTF-8 encoding of a sequence of
  Unicode scalar values: overlong forms, surrogates, values above U+10FFFF, stray and missing
  continuation bytes are all rejected, and nothing else is.
\<close>

theorem utf8_is_valid_iff:
  "utf8_is_valid s \<longleftrightarrow> (\<exists>cps. list_all scalar_value cps \<and> s = concat (map utf8_encode cps))"
  by (rule utf8_valid_encoded)

end
