(* ===== verification/Web_Socket.thy ===== *)
theory Web_Socket
  imports Utf8 Crypto Server_Helpers
begin

unbundle bit_operations_syntax

text \<open>
  WebSocket connections (\<open>net/realtime.cxx\<close>): the opening handshake, frame headers, UTF-8
  validation and the connection object with fragmentation, control frames and closing.

  The bytes the socket will deliver are a list of chunks, one per call of \<open>recv\<close>; an empty chunk
  or the end of the list is the end of the stream or an error.  Frames written are recorded, and
  \<open>send_ok\<close> says for each whether the transport takes it.  The plain and the TLS transport behave
  alike here and are not told apart.  The keep-alive thread, which only sends pings, is reduced
  to the flag that asks it to stop; close callbacks are numbers, recorded when they run.
\<close>

section \<open>Handshake\<close>

definition ws_magic :: string where
  "ws_magic = ''258EAFA5-E914-47DA-95CA-C5AB0DC85B11''"

definition ws_accept_key :: "string \<Rightarrow> string" where
  "ws_accept_key client_key = base64_encode (sha1 (to_unsigned_span (client_key @ ws_magic)))"

definition is_valid_client_key :: "string \<Rightarrow> bool" where
  "is_valid_client_key key \<longleftrightarrow>
     length key = 24 \<and>
     (let decoded = base64_decode key
      in length decoded = 16 \<and> base64_encode (to_unsigned_span decoded) = key)"

definition is_valid_handshake :: "request \<Rightarrow> bool" where
  "is_valid_handshake req \<longleftrightarrow>
     header_token_contains (req_header req ''upgrade'') ''websocket''
     \<and> header_token_contains (req_header req ''connection'') ''upgrade''
     \<and> trim (req_header req ''sec-websocket-version'') = ''13''
     \<and> is_valid_client_key (trim (req_header req ''sec-websocket-key''))"

section \<open>Frames\<close>

text \<open>\<open>n\<close> big-endian bytes of a number.\<close>

fun be_bytes :: "nat \<Rightarrow> nat \<Rightarrow> string" where
  "be_bytes 0 v = []"
| "be_bytes (Suc n) v = of_byte (v div 256 ^ n mod 256) # be_bytes n v"

definition ws_length_bytes :: "nat \<Rightarrow> nat \<Rightarrow> string" where
  "ws_length_bytes mask_bit len =
     (if len < 126 then [of_byte (mask_bit + len)]
      else if len \<le> 0xFFFF then of_byte (mask_bit + 126) # be_bytes 2 len
      else of_byte (mask_bit + 127) # be_bytes 8 len)"

definition ws_build_frame :: "nat \<Rightarrow> string \<Rightarrow> string" where
  "ws_build_frame opcode payload = of_byte (0x80 OR opcode) # ws_length_bytes 0 (length payload) @ payload"

definition is_valid_close_code :: "nat \<Rightarrow> bool" where
  "is_valid_close_code code =
     (if code < 1000 then False
      else if code \<le> 1003 then True
      else if code \<le> 1006 then False
      else if code \<le> 1014 then True
      else if code \<le> 4999 then code \<ge> 3000
      else False)"

record frame_header =
  fh_opcode :: nat
  fh_fin :: bool
  fh_masked :: bool
  fh_payload_len :: nat
  fh_mask :: "nat list"
  fh_header_size :: nat

datatype frame_parse = Frame_ok frame_header | Frame_incomplete | Frame_protocol_error | Frame_control_too_large

text \<open>Big-endian reading; eight bytes cannot overflow the 64-bit accumulator.\<close>

definition be_value :: "string \<Rightarrow> nat" where
  "be_value s = foldl (\<lambda>v c. v * 256 + byte c) 0 s"

text \<open>The extended length at offset 2: the length and the next offset.\<close>

datatype ext_len = Ext nat nat | Ext_incomplete | Ext_bad

definition parse_ext_len :: "string \<Rightarrow> nat \<Rightarrow> ext_len" where
  "parse_ext_len buf plen =
     (if plen = 126 then
        (if length buf < 4 then Ext_incomplete
         else let v = be_value (take 2 (drop 2 buf)) in if v < 126 then Ext_bad else Ext v 4)
      else if plen = 127 then
        (if length buf < 10 then Ext_incomplete
         else let v = be_value (take 8 (drop 2 buf)) in if v \<le> 0xFFFF then Ext_bad else Ext v 10)
      else Ext plen 2)"

definition parse_frame_header :: "string \<Rightarrow> frame_parse" where
  "parse_frame_header buf =
     (if length buf < 2 then Frame_incomplete
      else
        let b0 = byte (buf ! 0); b1 = byte (buf ! 1);
            fin = (b0 AND 0x80 \<noteq> 0); opcode = b0 AND 0x0F; masked = (b1 AND 0x80 \<noteq> 0); plen = b1 AND 0x7F;
            is_control = (opcode AND 0x08 \<noteq> 0)
        in if b0 AND 0x70 \<noteq> 0 then Frame_protocol_error
           else if opcode \<ge> 3 \<and> opcode \<le> 7 \<or> opcode \<ge> 0xB then Frame_protocol_error
           else if is_control \<and> (\<not> fin \<or> plen > 125) then Frame_control_too_large
           else if \<not> masked then Frame_protocol_error
           else
             case parse_ext_len buf plen of
               Ext_incomplete \<Rightarrow> Frame_incomplete
             | Ext_bad \<Rightarrow> Frame_protocol_error
             | Ext plen off \<Rightarrow>
                 if length buf < off + 4 then Frame_incomplete
                 else Frame_ok \<lparr>fh_opcode = opcode, fh_fin = fin, fh_masked = masked, fh_payload_len = plen,
                   fh_mask = map byte (take 4 (drop off buf)), fh_header_size = off + 4\<rparr>)"

section \<open>The connection\<close>

datatype ws_opcode = Op_text | Op_binary

record ws_frame =
  wf_opcode :: ws_opcode
  wf_payload :: string

record ws_conn =
  wc_closed :: bool
  wc_pressure_counted :: bool
  wc_pressure :: "u64 option"
  wc_callbacks :: "nat list"
  wc_callbacks_run :: "nat list"
  wc_keepalive_stopped :: bool
  wc_shut :: bool
  wc_buf :: string
  wc_buf_pos :: nat
  wc_frag_opcode :: "ws_opcode option"
  wc_frag_payload :: string
  wc_in :: "string list"
  wc_out :: "string list"

definition ws_conn_new :: "string \<Rightarrow> u64 option \<Rightarrow> string list \<Rightarrow> ws_conn" where
  "ws_conn_new initial_buf pressure chunks =
     \<lparr>wc_closed = False, wc_pressure_counted = False, wc_pressure = pressure, wc_callbacks = [],
      wc_callbacks_run = [], wc_keepalive_stopped = False, wc_shut = False, wc_buf = initial_buf, wc_buf_pos = 0,
      wc_frag_opcode = None, wc_frag_payload = [], wc_in = chunks, wc_out = []\<rparr>"

definition kMaxMessageSize :: nat where "kMaxMessageSize = 16 * 1024 * 1024"

definition note_pressure_close :: "ws_conn \<Rightarrow> ws_conn" where
  "note_pressure_close c =
     (case wc_pressure c of
        None \<Rightarrow> c
      | Some n \<Rightarrow>
          if wc_pressure_counted c then c else c\<lparr>wc_pressure_counted := True, wc_pressure := Some (n + 1)\<rparr>)"

text \<open>The frame is written as one buffer; \<open>send_ok\<close> is the outcome of the \<open>i\<close>-th write.\<close>

definition do_send_frame :: "(nat \<Rightarrow> bool) \<Rightarrow> nat \<Rightarrow> string \<Rightarrow> ws_conn \<Rightarrow> bool \<times> ws_conn" where
  "do_send_frame send_ok opcode payload c =
     (let ok = send_ok (length (wc_out c)); c = c\<lparr>wc_out := wc_out c @ [ws_build_frame opcode payload]\<rparr>
      in (ok, if ok then c else note_pressure_close c))"

definition notify_close :: "ws_conn \<Rightarrow> ws_conn" where
  "notify_close c = c\<lparr>wc_callbacks := [], wc_callbacks_run := wc_callbacks_run c @ wc_callbacks c\<rparr>"

definition stop_keepalive :: "ws_conn \<Rightarrow> ws_conn" where
  "stop_keepalive c = c\<lparr>wc_keepalive_stopped := True\<rparr>"

definition mark_remote_close :: "ws_conn \<Rightarrow> ws_conn" where
  "mark_remote_close c = (if wc_closed c then c else stop_keepalive (notify_close (c\<lparr>wc_closed := True\<rparr>)))"

definition send_data_frame :: "(nat \<Rightarrow> bool) \<Rightarrow> nat \<Rightarrow> string \<Rightarrow> ws_conn \<Rightarrow> bool \<times> ws_conn" where
  "send_data_frame send_ok opcode payload c =
     (case do_send_frame send_ok opcode payload c of (ok, c) \<Rightarrow> (ok, if ok then c else mark_remote_close c))"

definition send_text :: "(nat \<Rightarrow> bool) \<Rightarrow> string \<Rightarrow> ws_conn \<Rightarrow> bool \<times> ws_conn" where
  "send_text send_ok data c = send_data_frame send_ok 1 data c"

definition send_binary :: "(nat \<Rightarrow> bool) \<Rightarrow> string \<Rightarrow> ws_conn \<Rightarrow> bool \<times> ws_conn" where
  "send_binary send_ok data c = send_data_frame send_ok 2 data c"

datatype ws_error = Ping_too_large | Invalid_close_code | Reason_too_large | Reason_not_utf8

definition send_ping :: "(nat \<Rightarrow> bool) \<Rightarrow> string \<Rightarrow> ws_conn \<Rightarrow> ws_error + bool \<times> ws_conn" where
  "send_ping send_ok data c = (if length data > 125 then Inl Ping_too_large else Inr (send_data_frame send_ok 9 data c))"

definition close_unchecked :: "(nat \<Rightarrow> bool) \<Rightarrow> nat \<Rightarrow> string \<Rightarrow> ws_conn \<Rightarrow> ws_conn" where
  "close_unchecked send_ok code reason c =
     (if wc_closed c then c
      else
        let c = stop_keepalive (notify_close (c\<lparr>wc_closed := True\<rparr>));
            c = snd (do_send_frame send_ok 8 (be_bytes 2 code @ reason) c)
        in c\<lparr>wc_shut := True\<rparr>)"

definition ws_close :: "(nat \<Rightarrow> bool) \<Rightarrow> nat \<Rightarrow> string \<Rightarrow> ws_conn \<Rightarrow> ws_error + ws_conn" where
  "ws_close send_ok code reason c =
     (if \<not> is_valid_close_code code then Inl Invalid_close_code
      else if length reason > 123 then Inl Reason_too_large
      else if \<not> utf8_is_valid reason then Inl Reason_not_utf8
      else Inr (close_unchecked send_ok code reason c))"

definition ws_on_close :: "nat \<Rightarrow> ws_conn \<Rightarrow> ws_conn" where
  "ws_on_close callback c =
     (if wc_closed c then c\<lparr>wc_callbacks_run := wc_callbacks_run c @ [callback]\<rparr>
      else c\<lparr>wc_callbacks := wc_callbacks c @ [callback]\<rparr>)"

subsection \<open>Receiving\<close>

text \<open>
  The calls of \<open>close\<close> below pass valid codes and short ASCII reasons, so they do not throw.
\<close>

definition close_with :: "(nat \<Rightarrow> bool) \<Rightarrow> nat \<Rightarrow> string \<Rightarrow> ws_conn \<Rightarrow> ws_conn" where
  "close_with send_ok code reason c = (case ws_close send_ok code reason c of Inl _ \<Rightarrow> c | Inr c' \<Rightarrow> c')"

definition buffered :: "ws_conn \<Rightarrow> string" where
  "buffered c = drop (wc_buf_pos c) (wc_buf c)"

definition compact :: "ws_conn \<Rightarrow> ws_conn" where
  "compact c =
     (if wc_buf_pos c > 0 \<and> (wc_buf_pos c \<ge> 4096 \<or> wc_buf_pos c * 2 \<ge> length (wc_buf c))
      then c\<lparr>wc_buf := drop (wc_buf_pos c) (wc_buf c), wc_buf_pos := 0\<rparr> else c)"

function ws_fill :: "nat \<Rightarrow> ws_conn \<Rightarrow> bool \<times> ws_conn" where
  "ws_fill n c =
     (if length (buffered c) < n then
        let c = compact c
        in case wc_in c of
             [] \<Rightarrow> (False, mark_remote_close c)
           | chunk # rest \<Rightarrow>
               if chunk = [] then (False, mark_remote_close (c\<lparr>wc_in := rest\<rparr>))
               else ws_fill n (c\<lparr>wc_in := rest, wc_buf := wc_buf c @ chunk\<rparr>)
      else (True, c))"
  by pat_completeness auto
termination
  by (relation "measure (\<lambda>(n, c). length (wc_in c))") (auto simp: compact_def split: if_splits)

declare ws_fill.simps [simp del]

definition ws_consume :: "nat \<Rightarrow> ws_conn \<Rightarrow> ws_conn" where
  "ws_consume n c =
     (let pos = wc_buf_pos c + n
      in if pos \<ge> length (wc_buf c) then c\<lparr>wc_buf := [], wc_buf_pos := 0\<rparr> else c\<lparr>wc_buf_pos := pos\<rparr>)"

definition emit_ws_protocol_close :: "(nat \<Rightarrow> bool) \<Rightarrow> ws_conn \<Rightarrow> ws_conn" where
  "emit_ws_protocol_close send_ok c =
     (let b0 = byte (wc_buf c ! wc_buf_pos c); op = b0 AND 0x0F
      in if b0 AND 0x70 \<noteq> 0 then close_with send_ok 1002 ''rsv bits set'' c
         else if op \<ge> 3 \<and> op \<le> 7 \<or> op \<ge> 0xB then close_with send_ok 1002 ''reserved opcode'' c
         else close_with send_ok 1002 ''unmasked frame'' c)"

definition ext_size :: "nat \<Rightarrow> nat" where
  "ext_size len7 = (if len7 = 126 then 2 else if len7 = 127 then 8 else 0)"

text \<open>The second half of \<open>read_ws_frame_header\<close>, once the size of the header is known.\<close>

definition read_full_header :: "(nat \<Rightarrow> bool) \<Rightarrow> nat \<Rightarrow> ws_conn \<Rightarrow> frame_header option \<times> ws_conn" where
  "read_full_header send_ok header_needed c =
     (case ws_fill header_needed c of
        (False, c) \<Rightarrow> (None, c)
      | (True, c) \<Rightarrow>
          (case parse_frame_header (take header_needed (buffered c)) of
             Frame_ok hdr \<Rightarrow> (Some hdr, ws_consume (fh_header_size hdr) c)
           | Frame_protocol_error \<Rightarrow> (None, close_with send_ok 1002 ''invalid frame header'' c)
           | Frame_control_too_large \<Rightarrow> (None, close_with send_ok 1002 ''invalid control frame'' c)
           | Frame_incomplete \<Rightarrow> (None, c)))"

definition read_ws_frame_header :: "(nat \<Rightarrow> bool) \<Rightarrow> ws_conn \<Rightarrow> frame_header option \<times> ws_conn" where
  "read_ws_frame_header send_ok c =
     (case ws_fill 2 c of
        (False, c) \<Rightarrow> (None, c)
      | (True, c) \<Rightarrow>
          (case parse_frame_header (take 2 (buffered c)) of
             Frame_protocol_error \<Rightarrow> (None, emit_ws_protocol_close send_ok c)
           | Frame_control_too_large \<Rightarrow> (None, close_with send_ok 1002 ''invalid control frame'' c)
           | _ \<Rightarrow> read_full_header send_ok (2 + ext_size (byte (wc_buf c ! (wc_buf_pos c + 1)) AND 0x7F) + 4) c))"

definition unmask_ws_payload :: "string \<Rightarrow> nat list \<Rightarrow> string" where
  "unmask_ws_payload payload mask_key =
     map (\<lambda>(i, c). of_byte (byte c XOR mask_key ! (i AND 3))) (enumerate 0 payload)"

definition read_ws_payload :: "(nat \<Rightarrow> bool) \<Rightarrow> frame_header \<Rightarrow> ws_conn \<Rightarrow> string option \<times> ws_conn" where
  "read_ws_payload send_ok hdr c =
     (let plen = fh_payload_len hdr
      in if plen > kMaxMessageSize then (None, close_with send_ok 1009 ''message too big'' c)
         else if fh_opcode hdr AND 0x08 = 0 \<and> length (wc_frag_payload c) + plen > kMaxMessageSize
         then (None, close_with send_ok 1009 ''message too big'' c)
         else
           case ws_fill plen c of
             (False, c) \<Rightarrow> (None, c)
           | (True, c) \<Rightarrow> (Some (unmask_ws_payload (take plen (buffered c)) (fh_mask hdr)), ws_consume plen c))"

text \<open>The result is whether receiving goes on.\<close>

definition handle_ws_control_frame :: "(nat \<Rightarrow> bool) \<Rightarrow> frame_header \<Rightarrow> string \<Rightarrow> ws_conn \<Rightarrow> bool \<times> ws_conn" where
  "handle_ws_control_frame send_ok hdr payload c =
     (if fh_opcode hdr = 9 then (True, snd (send_data_frame send_ok 10 payload c))
      else if fh_opcode hdr = 0xA then (True, c)
      else if fh_opcode hdr \<noteq> 8 then (False, close_with send_ok 1002 ''reserved opcode'' c)
      else if fh_payload_len hdr = 1 then (False, close_with send_ok 1002 ''invalid close payload'' c)
      else if fh_payload_len hdr \<ge> 2 then
        (let echo_code = byte (payload ! 0) * 256 + byte (payload ! 1)
         in if \<not> is_valid_close_code echo_code then (False, close_with send_ok 1002 ''invalid close code'' c)
            else if length payload > 2 \<and> \<not> utf8_is_valid (drop 2 payload)
            then (False, close_with send_ok 1007 ''invalid utf-8'' c)
            else (False, close_with send_ok echo_code [] c))
      else (False, close_with send_ok 1000 [] c))"

definition handle_ws_continuation_frame ::
    "(nat \<Rightarrow> bool) \<Rightarrow> bool \<Rightarrow> string \<Rightarrow> ws_conn \<Rightarrow> ws_frame option \<times> ws_conn" where
  "handle_ws_continuation_frame send_ok fin payload c =
     (case wc_frag_opcode c of
        None \<Rightarrow> (None, close_with send_ok 1002 ''std::unexpected continuation'' c)
      | Some final_op \<Rightarrow>
          let final_payload = wc_frag_payload c @ payload
          in if \<not> fin then (None, c\<lparr>wc_frag_payload := final_payload\<rparr>)
             else
               let c = c\<lparr>wc_frag_opcode := None, wc_frag_payload := []\<rparr>
               in if final_op = Op_text \<and> \<not> utf8_is_valid final_payload
                  then (None, close_with send_ok 1007 ''invalid utf-8'' c)
                  else (Some \<lparr>wf_opcode = final_op, wf_payload = final_payload\<rparr>, c))"

definition handle_ws_data_frame ::
    "(nat \<Rightarrow> bool) \<Rightarrow> bool \<Rightarrow> nat \<Rightarrow> string \<Rightarrow> ws_conn \<Rightarrow> ws_frame option \<times> ws_conn" where
  "handle_ws_data_frame send_ok fin opcode_raw payload c =
     (if opcode_raw \<noteq> 1 \<and> opcode_raw \<noteq> 2 then (None, close_with send_ok 1002 ''reserved opcode'' c)
      else if wc_frag_opcode c \<noteq> None then (None, close_with send_ok 1002 ''nested data frame'' c)
      else
        let opcode = (if opcode_raw = 1 then Op_text else Op_binary)
        in if \<not> fin then (None, c\<lparr>wc_frag_opcode := Some opcode, wc_frag_payload := payload\<rparr>)
           else if opcode = Op_text \<and> \<not> utf8_is_valid payload
           then (None, close_with send_ok 1007 ''invalid utf-8'' c)
           else (Some \<lparr>wf_opcode = opcode, wf_payload = payload\<rparr>, c))"

text \<open>One turn of the loop: the result of \<open>recv\<close>, or \<open>None\<close> to go round again.\<close>

definition ws_recv_turn :: "(nat \<Rightarrow> bool) \<Rightarrow> ws_conn \<Rightarrow> ws_frame option option \<times> ws_conn" where
  "ws_recv_turn send_ok c =
     (case read_ws_frame_header send_ok c of
        (None, c) \<Rightarrow> (Some None, c)
      | (Some hdr, c) \<Rightarrow>
          (case read_ws_payload send_ok hdr c of
             (None, c) \<Rightarrow> (Some None, c)
           | (Some payload, c) \<Rightarrow>
               if fh_opcode hdr AND 0x08 \<noteq> 0 then
                 (case handle_ws_control_frame send_ok hdr payload c of
                    (go_on, c) \<Rightarrow> (if go_on then None else Some None, c))
               else
                 (case (if fh_opcode hdr = 0 then handle_ws_continuation_frame send_ok (fh_fin hdr) payload c
                        else handle_ws_data_frame send_ok (fh_fin hdr) (fh_opcode hdr) payload c) of
                    (frame, c) \<Rightarrow> (if frame = None \<and> \<not> wc_closed c then None else Some frame, c))))"

partial_function (option) ws_recv :: "(nat \<Rightarrow> bool) \<Rightarrow> ws_conn \<Rightarrow> (ws_frame option \<times> ws_conn) option" where
  "ws_recv send_ok c =
     (case ws_recv_turn send_ok c of
        (Some r, c) \<Rightarrow> Some (r, c)
      | (None, c) \<Rightarrow> ws_recv send_ok c)"

section \<open>Reading from the stream\<close>

text \<open>The bytes still to be read, whether buffered or not yet delivered.\<close>

definition ws_stream :: "ws_conn \<Rightarrow> string" where
  "ws_stream c = buffered c @ concat (wc_in c)"

definition buf_ok :: "ws_conn \<Rightarrow> bool" where
  "buf_ok c \<longleftrightarrow> wc_buf_pos c \<le> length (wc_buf c)"

text \<open>\<open>c'\<close> is \<open>c\<close> after reading \<open>s\<close>: nothing but the input has changed.\<close>

definition no_input :: "ws_conn \<Rightarrow> ws_conn" where
  "no_input c = c\<lparr>wc_buf := [], wc_buf_pos := 0, wc_in := []\<rparr>"

definition ws_reads :: "ws_conn \<Rightarrow> string \<Rightarrow> ws_conn \<Rightarrow> bool" where
  "ws_reads c s c' \<longleftrightarrow>
     buf_ok c' \<and> ws_stream c = s @ ws_stream c' \<and> no_input c' = no_input c \<and> set (wc_in c') \<subseteq> set (wc_in c)"

lemma no_input_fields:
  assumes "no_input c' = no_input c"
  shows "wc_closed c' = wc_closed c" "wc_out c' = wc_out c" "wc_frag_opcode c' = wc_frag_opcode c"
    "wc_frag_payload c' = wc_frag_payload c"
  using arg_cong [OF assms, of wc_closed] arg_cong [OF assms, of wc_out] arg_cong [OF assms, of wc_frag_opcode]
    arg_cong [OF assms, of wc_frag_payload]
  by (simp_all add: no_input_def)

lemma readsD:
  assumes "ws_reads c s c'"
  shows "buf_ok c'" "ws_stream c = s @ ws_stream c'" "wc_closed c' = wc_closed c" "wc_out c' = wc_out c"
    "wc_frag_opcode c' = wc_frag_opcode c" "wc_frag_payload c' = wc_frag_payload c" "set (wc_in c') \<subseteq> set (wc_in c)"
  using assms no_input_fields [of c' c] by (auto simp: ws_reads_def)

lemma reads_trans: "ws_reads c s c' \<Longrightarrow> ws_reads c' t c'' \<Longrightarrow> ws_reads c (s @ t) c''"
  by (auto simp: ws_reads_def)

lemma reads_refl: "buf_ok c \<Longrightarrow> ws_reads c [] c"
  by (simp add: ws_reads_def)

lemma compact_reads: "buf_ok c \<Longrightarrow> ws_reads c [] (compact c)"
  by (simp add: compact_def ws_reads_def buf_ok_def ws_stream_def buffered_def no_input_def)

lemma take_chunk_reads:
  assumes "buf_ok c" and "wc_in c = chunk # rest"
  shows "ws_reads c [] (c\<lparr>wc_in := rest, wc_buf := wc_buf c @ chunk\<rparr>)"
  using assms by (auto simp: ws_reads_def buf_ok_def ws_stream_def buffered_def no_input_def)

text \<open>
  Filling either succeeds, having only moved bytes into the buffer, or the connection is closed.
\<close>

lemma ws_fill_cases:
  "buf_ok c \<Longrightarrow> (\<exists>c'. ws_fill n c = (True, c') \<and> ws_reads c [] c' \<and> n \<le> length (buffered c')) \<or>
    (\<exists>c'. ws_fill n c = (False, c') \<and> wc_closed c' \<and> buf_ok c' \<and> wc_frag_payload c' = wc_frag_payload c)"
proof (induction n c rule: ws_fill.induct)
  case (1 n c)
  show ?case
  proof (cases "length (buffered c) < n")
    case False
    then show ?thesis using reads_refl [OF "1.prems"] by (simp add: ws_fill.simps [of n c])
  next
    case low: True
    note cr = compact_reads [OF "1.prems"]
    have closes: "wc_closed (mark_remote_close d) \<and> buf_ok (mark_remote_close d) = buf_ok d \<and>
        wc_frag_payload (mark_remote_close d) = wc_frag_payload d" for d
      by (simp add: mark_remote_close_def stop_keepalive_def notify_close_def buf_ok_def)
    show ?thesis
    proof (cases "wc_in (compact c)")
      case Nil
      with low closes [of "compact c"] readsD [OF cr] show ?thesis by (simp add: ws_fill.simps [of n c])
    next
      case (Cons chunk rest)
      show ?thesis
      proof (cases "chunk = []")
        case True
        with low Cons closes [of "(compact c)\<lparr>wc_in := rest\<rparr>"] readsD [OF cr] show ?thesis
          by (simp add: ws_fill.simps [of n c]) (simp add: buf_ok_def)
      next
        case False
        let ?d = "(compact c)\<lparr>wc_in := rest, wc_buf := wc_buf (compact c) @ chunk\<rparr>"
        have d: "ws_reads (compact c) [] ?d" using readsD(1) [OF cr] Cons by (rule take_chunk_reads)
        have "ws_fill n c = ws_fill n ?d" using low Cons False by (simp add: ws_fill.simps [of n c] Let_def)
        moreover have "(\<exists>c'. ws_fill n ?d = (True, c') \<and> ws_reads ?d [] c' \<and> n \<le> length (buffered c')) \<or>
            (\<exists>c'. ws_fill n ?d = (False, c') \<and> wc_closed c' \<and> buf_ok c' \<and> wc_frag_payload c' = wc_frag_payload ?d)"
          using low Cons False readsD(1) [OF d] by (intro "1.IH") auto
        moreover have "wc_frag_payload ?d = wc_frag_payload c" using readsD(6) [OF cr] by simp
        moreover have "ws_reads ?d [] c' \<Longrightarrow> ws_reads c [] c'" for c'
          using reads_trans [OF reads_trans [OF cr d], of "[]" c'] by simp
        ultimately show ?thesis by metis
      qed
    qed
  qed
qed

lemma ws_fill_reads:
  assumes "buf_ok c" and "n \<le> length (ws_stream c)" and "[] \<notin> set (wc_in c)"
  shows "\<exists>c'. ws_fill n c = (True, c') \<and> ws_reads c [] c' \<and> n \<le> length (buffered c')"
  using assms
proof (induction n c rule: ws_fill.induct)
  case (1 n c)
  show ?case
  proof (cases "length (buffered c) < n")
    case False
    then show ?thesis using reads_refl [OF "1.prems"(1)] by (simp add: ws_fill.simps [of n c])
  next
    case low: True
    note cr = compact_reads [OF "1.prems"(1)]
    have str: "ws_stream (compact c) = ws_stream c" and inn: "wc_in (compact c) = wc_in c"
      using readsD(2) [OF cr] by (simp, simp add: compact_def)
    obtain chunk rest where i: "wc_in (compact c) = chunk # rest"
      using low "1.prems"(2) inn by (cases "wc_in c") (auto simp: ws_stream_def)
    with "1.prems"(3) inn have ne: "chunk \<noteq> []" by (metis list.set_intros(1))
    let ?d = "(compact c)\<lparr>wc_in := rest, wc_buf := wc_buf (compact c) @ chunk\<rparr>"
    have d: "ws_reads (compact c) [] ?d" using readsD(1) [OF cr] i by (rule take_chunk_reads)
    have "ws_fill n c = ws_fill n ?d" using low i ne by (simp add: ws_fill.simps [of n c] Let_def)
    moreover have "\<exists>c'. ws_fill n ?d = (True, c') \<and> ws_reads ?d [] c' \<and> n \<le> length (buffered c')"
      using low i ne readsD [OF d] "1.prems" str inn by (intro "1.IH") auto
    moreover have "ws_reads ?d [] c' \<Longrightarrow> ws_reads c [] c'" for c'
      using reads_trans [OF reads_trans [OF cr d], of "[]" c'] by simp
    ultimately show ?thesis by metis
  qed
qed

lemma ws_consume_reads:
  assumes "buf_ok c" and "n \<le> length (buffered c)"
  shows "ws_reads c (take n (buffered c)) (ws_consume n c)"
  unfolding ws_reads_def
proof (intro conjI)
  have n: "wc_buf_pos c + n \<le> length (wc_buf c)" using assms by (simp add: buffered_def buf_ok_def)
  then show "buf_ok (ws_consume n c)" by (simp add: ws_consume_def buf_ok_def Let_def)
  have "buffered c = take n (buffered c) @ buffered (ws_consume n c)"
    using n append_take_drop_id [of n "drop (wc_buf_pos c) (wc_buf c)"]
    by (auto simp: ws_consume_def buffered_def Let_def add.commute)
  moreover have "wc_in (ws_consume n c) = wc_in c" by (simp add: ws_consume_def Let_def)
  ultimately show "ws_stream c = take n (buffered c) @ ws_stream (ws_consume n c)"
    by (metis append_assoc ws_stream_def)
  show "no_input (ws_consume n c) = no_input c" "set (wc_in (ws_consume n c)) \<subseteq> set (wc_in c)"
    by (simp_all add: ws_consume_def no_input_def Let_def)
qed

lemma fill_consume_reads:
  assumes "buf_ok c" and "n \<le> length (ws_stream c)" and "[] \<notin> set (wc_in c)"
  shows "\<exists>c'. ws_fill n c = (True, c') \<and> ws_reads c [] c' \<and> n \<le> length (buffered c')
    \<and> take n (buffered c') = take n (ws_stream c) \<and> ws_reads c (take n (ws_stream c)) (ws_consume n c')"
proof -
  obtain c' where c': "ws_fill n c = (True, c')" "ws_reads c [] c'" "n \<le> length (buffered c')"
    using ws_fill_reads [OF assms] by blast
  have t: "take n (buffered c') = take n (ws_stream c)"
    using c'(2,3) by (auto simp: ws_reads_def ws_stream_def)
  have "ws_reads c ([] @ take n (buffered c')) (ws_consume n c')"
    using readsD(1) [OF c'(2)] c'(3) by (intro reads_trans [OF c'(2)] ws_consume_reads)
  with c' t show ?thesis by auto
qed

section \<open>Receiving returns\<close>

lemma close_unchecked_closed: "wc_closed (close_unchecked send_ok code reason c)"
  by (simp add: close_unchecked_def Let_def do_send_frame_def note_pressure_close_def stop_keepalive_def notify_close_def
      split: option.split)

text \<open>The reasons and codes the connection itself closes with are accepted.\<close>

lemma close_with_ok:
  "is_valid_close_code code \<Longrightarrow> length reason \<le> 123 \<Longrightarrow> utf8_is_valid reason \<Longrightarrow>
   close_with send_ok code reason c = close_unchecked send_ok code reason c"
  by (simp add: close_with_def ws_close_def)

lemma internal_reasons_valid:
  "list_all utf8_is_valid [''rsv bits set'', ''reserved opcode'', ''unmasked frame'', ''invalid control frame'',
     ''invalid frame header'', ''message too big'', ''invalid close payload'', ''invalid close code'', ''invalid utf-8'',
     ''std::unexpected continuation'', ''nested data frame'', []]"
  by code_simp

lemma close_with_closed:
  assumes "is_valid_close_code code" and "reason \<in> set [''rsv bits set'', ''reserved opcode'', ''unmasked frame'',
     ''invalid control frame'', ''invalid frame header'', ''message too big'', ''invalid close payload'',
     ''invalid close code'', ''invalid utf-8'', ''std::unexpected continuation'', ''nested data frame'', []]"
  shows "close_with send_ok code reason c = close_unchecked send_ok code reason c"
    and "wc_closed (close_with send_ok code reason c)"
proof -
  have "utf8_is_valid reason" using internal_reasons_valid assms(2) by (auto simp only: list_all_iff)
  moreover have "length reason \<le> 123" using assms(2) by auto
  ultimately show e: "close_with send_ok code reason c = close_unchecked send_ok code reason c"
    using assms(1) by (intro close_with_ok)
  show "wc_closed (close_with send_ok code reason c)" unfolding e by (rule close_unchecked_closed)
qed

lemma close_codes [simp]: "is_valid_close_code 1000" "is_valid_close_code 1002" "is_valid_close_code 1007" "is_valid_close_code 1009"
  by (simp_all add: is_valid_close_code_def)

lemma parse_not_incomplete:
  "length buf = 2 + ext_size (byte (buf ! 1) AND 0x7F) + 4 \<Longrightarrow> parse_frame_header buf \<noteq> Frame_incomplete"
  by (auto simp: parse_frame_header_def parse_ext_len_def ext_size_def Let_def split: ext_len.splits)

lemma parse_header_size: "parse_frame_header buf = Frame_ok hdr \<Longrightarrow> 6 \<le> fh_header_size hdr \<and> fh_header_size hdr \<le> length buf"
  by (auto simp: parse_frame_header_def parse_ext_len_def Let_def split: ext_len.splits if_splits)

lemma buffered_nth: "i < length (buffered c) \<Longrightarrow> wc_buf c ! (wc_buf_pos c + i) = buffered c ! i"
  by (simp add: buffered_def)

lemma emit_closed: "wc_closed (emit_ws_protocol_close send_ok c)"
  unfolding emit_ws_protocol_close_def by (auto simp: Let_def intro!: close_with_closed)

lemma read_full_header_cases:
  assumes "buf_ok c" and "2 \<le> length (buffered c)" and "n = 2 + ext_size (byte (buffered c ! 1) AND 0x7F) + 4"
  shows "(\<exists>c'. read_full_header send_ok n c = (None, c') \<and> wc_closed c') \<or>
    (\<exists>hdr s c'. read_full_header send_ok n c = (Some hdr, c') \<and> ws_reads c s c' \<and> s \<noteq> [])"
proof -
  consider c2 where "ws_fill n c = (True, c2)" "ws_reads c [] c2" "n \<le> length (buffered c2)"
    | c2 where "ws_fill n c = (False, c2)" "wc_closed c2"
    using ws_fill_cases [OF assms(1), of n] by blast
  then show ?thesis
  proof cases
    case 2
    then show ?thesis by (simp add: read_full_header_def)
  next
    case 1
    have n: "2 \<le> n" using assms(3) by simp
    have "buffered c ! 1 = ws_stream c ! 1" "buffered c2 ! 1 = ws_stream c2 ! 1"
      using assms(2) 1(3) n by (simp_all add: ws_stream_def nth_append)
    then have "take n (buffered c2) ! 1 = buffered c ! 1" using readsD(2) [OF 1(2)] n by simp
    then have ni: "parse_frame_header (take n (buffered c2)) \<noteq> Frame_incomplete"
      using 1(3) assms(3) by (intro parse_not_incomplete) simp
    show ?thesis
    proof (cases "parse_frame_header (take n (buffered c2))")
      case (Frame_ok hdr)
      from parse_header_size [OF Frame_ok] 1(3)
      have sz: "6 \<le> fh_header_size hdr" "fh_header_size hdr \<le> length (buffered c2)" by auto
      have "ws_reads c (take (fh_header_size hdr) (buffered c2)) (ws_consume (fh_header_size hdr) c2)"
        using reads_trans [OF 1(2) ws_consume_reads [OF readsD(1) [OF 1(2)] sz(2)]] by simp
      moreover have "take (fh_header_size hdr) (buffered c2) \<noteq> []" using sz by auto
      moreover have "read_full_header send_ok n c = (Some hdr, ws_consume (fh_header_size hdr) c2)"
        using 1(1) Frame_ok by (simp add: read_full_header_def)
      ultimately show ?thesis by blast
    qed (use 1(1) ni in \<open>auto simp: read_full_header_def intro!: close_with_closed\<close>)
  qed
qed

lemma read_header_cases:
  assumes "buf_ok c"
  shows "(\<exists>c'. read_ws_frame_header send_ok c = (None, c') \<and> wc_closed c') \<or>
    (\<exists>hdr s c'. read_ws_frame_header send_ok c = (Some hdr, c') \<and> ws_reads c s c' \<and> s \<noteq> [])"
proof -
  consider c1 where "ws_fill 2 c = (True, c1)" "ws_reads c [] c1" "2 \<le> length (buffered c1)"
    | c1 where "ws_fill 2 c = (False, c1)" "wc_closed c1"
    using ws_fill_cases [OF assms, of 2] by blast
  then show ?thesis
  proof cases
    case 2
    then show ?thesis by (simp add: read_ws_frame_header_def)
  next
    case 1
    let ?pre = "parse_frame_header (take 2 (buffered c1))"
    let ?n = "2 + ext_size (byte (buffered c1 ! 1) AND 0x7F) + 4"
    show ?thesis
    proof (cases "?pre = Frame_protocol_error \<or> ?pre = Frame_control_too_large")
      case True
      with 1 show ?thesis by (auto simp: read_ws_frame_header_def emit_closed intro!: close_with_closed)
    next
      case False
      then have "read_ws_frame_header send_ok c = read_full_header send_ok ?n c1"
        using 1 buffered_nth [of 1 c1] by (cases ?pre) (simp_all add: read_ws_frame_header_def)
      moreover have "ws_reads c1 s c' \<Longrightarrow> ws_reads c s c'" for s c' using reads_trans [OF 1(2), of s c'] by simp
      ultimately show ?thesis
        using read_full_header_cases [OF readsD(1) [OF 1(2)] 1(3) refl, of send_ok] by metis
    qed
  qed
qed

lemma length_unmask [simp]: "length (unmask_ws_payload p m) = length p"
  by (simp add: unmask_ws_payload_def)

lemma read_payload_cases:
  assumes "buf_ok c"
  shows "(\<exists>c'. read_ws_payload send_ok hdr c = (None, c') \<and> wc_closed c') \<or>
    (\<exists>p s c'. read_ws_payload send_ok hdr c = (Some p, c') \<and> ws_reads c s c' \<and> length p = fh_payload_len hdr \<and>
       length p \<le> kMaxMessageSize \<and> (fh_opcode hdr AND 0x08 = 0 \<longrightarrow> length (wc_frag_payload c) + length p \<le> kMaxMessageSize))"
proof (cases "fh_payload_len hdr > kMaxMessageSize \<or>
    fh_opcode hdr AND 0x08 = 0 \<and> length (wc_frag_payload c) + fh_payload_len hdr > kMaxMessageSize")
  case True
  then show ?thesis by (auto simp: read_ws_payload_def Let_def intro!: close_with_closed)
next
  case small: False
  let ?n = "fh_payload_len hdr"
  consider c1 where "ws_fill ?n c = (True, c1)" "ws_reads c [] c1" "?n \<le> length (buffered c1)"
    | c1 where "ws_fill ?n c = (False, c1)" "wc_closed c1"
    using ws_fill_cases [OF assms, of ?n] by blast
  then show ?thesis
  proof cases
    case 1
    have "ws_reads c (take ?n (buffered c1)) (ws_consume ?n c1)"
      using reads_trans [OF 1(2) ws_consume_reads [OF readsD(1) [OF 1(2)] 1(3)]] by simp
    moreover have "read_ws_payload send_ok hdr c =
        (Some (unmask_ws_payload (take ?n (buffered c1)) (fh_mask hdr)), ws_consume ?n c1)"
      using small 1(1) by (auto simp: read_ws_payload_def Let_def)
    ultimately show ?thesis using small 1(3) by auto
  next
    case 2
    with small show ?thesis by (auto simp: read_ws_payload_def Let_def)
  qed
qed

lemma send_data_frame_input:
  "ws_stream (snd (send_data_frame send_ok op p c)) = ws_stream c"
  "buf_ok (snd (send_data_frame send_ok op p c)) = buf_ok c"
  "wc_frag_payload (snd (send_data_frame send_ok op p c)) = wc_frag_payload c"
  "wc_frag_opcode (snd (send_data_frame send_ok op p c)) = wc_frag_opcode c"
  "wc_in (snd (send_data_frame send_ok op p c)) = wc_in c"
  by (auto simp: send_data_frame_def do_send_frame_def Let_def note_pressure_close_def mark_remote_close_def
      stop_keepalive_def notify_close_def ws_stream_def buffered_def buf_ok_def split: option.split)

text \<open>What holds of a connection between calls.\<close>

definition ws_ok :: "ws_conn \<Rightarrow> bool" where
  "ws_ok c \<longleftrightarrow> buf_ok c \<and> length (wc_frag_payload c) \<le> kMaxMessageSize"

definition frame_ok :: "ws_frame \<Rightarrow> bool" where
  "frame_ok f \<longleftrightarrow> length (wf_payload f) \<le> kMaxMessageSize \<and> (wf_opcode f = Op_text \<longrightarrow> utf8_is_valid (wf_payload f))"

lemma control_frame_cases:
  assumes "length payload = fh_payload_len hdr"
  shows "fst (handle_ws_control_frame send_ok hdr payload c) \<or> wc_closed (snd (handle_ws_control_frame send_ok hdr payload c))"
    and "fst (handle_ws_control_frame send_ok hdr payload c) \<Longrightarrow>
      ws_stream (snd (handle_ws_control_frame send_ok hdr payload c)) = ws_stream c \<and>
      ws_ok (snd (handle_ws_control_frame send_ok hdr payload c)) = ws_ok c"
  unfolding handle_ws_control_frame_def
  by (auto simp: Let_def send_data_frame_input ws_ok_def intro!: close_with_closed split: if_splits)

definition data_outcome_ok :: "ws_conn \<Rightarrow> ws_frame option \<times> ws_conn \<Rightarrow> bool" where
  "data_outcome_ok c r =
     (case r of
        (None, c') \<Rightarrow> wc_closed c' \<or> ws_ok c' \<and> ws_stream c' = ws_stream c
      | (Some frame, c') \<Rightarrow> frame_ok frame \<and> ws_ok c' \<and> wc_closed c' = wc_closed c \<and> ws_stream c' = ws_stream c)"

lemma data_outcome_closed: "wc_closed c' \<Longrightarrow> data_outcome_ok c (None, c')"
  by (simp add: data_outcome_ok_def)

lemma frag_fields:
  "ws_stream (c\<lparr>wc_frag_opcode := a, wc_frag_payload := b\<rparr>) = ws_stream c" "ws_stream (c\<lparr>wc_frag_payload := b\<rparr>) = ws_stream c"
  "ws_stream (c\<lparr>wc_frag_opcode := a\<rparr>) = ws_stream c" "buf_ok (c\<lparr>wc_frag_opcode := a\<rparr>) = buf_ok c"
  "ws_ok (c\<lparr>wc_frag_opcode := a, wc_frag_payload := b\<rparr>) \<longleftrightarrow> buf_ok c \<and> length b \<le> kMaxMessageSize"
  "ws_ok (c\<lparr>wc_frag_payload := b\<rparr>) \<longleftrightarrow> buf_ok c \<and> length b \<le> kMaxMessageSize"
  by (simp_all add: ws_stream_def buffered_def ws_ok_def buf_ok_def)

lemma continuation_frame_cases:
  assumes "ws_ok c" and "length (wc_frag_payload c) + length payload \<le> kMaxMessageSize"
  shows "data_outcome_ok c (handle_ws_continuation_frame send_ok fin payload c)"
proof (cases "wc_frag_opcode c")
  case None
  then show ?thesis by (auto simp: handle_ws_continuation_frame_def intro!: data_outcome_closed close_with_closed)
next
  case (Some op)
  show ?thesis
  proof (cases "fin \<and> op = Op_text \<and> \<not> utf8_is_valid (wc_frag_payload c @ payload)")
    case True
    with Some show ?thesis
      by (auto simp: handle_ws_continuation_frame_def Let_def intro!: data_outcome_closed close_with_closed)
  next
    case False
    have "buf_ok c" using assms(1) by (simp add: ws_ok_def)
    with False Some assms(2) show ?thesis
      by (auto simp: handle_ws_continuation_frame_def Let_def data_outcome_ok_def frag_fields frame_ok_def)
  qed
qed

lemma data_frame_cases:
  assumes "ws_ok c" and "length payload \<le> kMaxMessageSize"
  shows "data_outcome_ok c (handle_ws_data_frame send_ok fin op payload c)"
proof (cases "op \<noteq> 1 \<and> op \<noteq> 2 \<or> wc_frag_opcode c \<noteq> None \<or> fin \<and> op = 1 \<and> \<not> utf8_is_valid payload")
  case True
  then show ?thesis
    by (auto simp: handle_ws_data_frame_def Let_def intro!: data_outcome_closed close_with_closed)
next
  case False
  have "buf_ok c" using assms(1) by (simp add: ws_ok_def)
  with False assms show ?thesis
    by (auto simp: handle_ws_data_frame_def Let_def data_outcome_ok_def frag_fields frame_ok_def)
qed

lemma recv_turn_cases:
  assumes "ws_ok c"
  shows "case ws_recv_turn send_ok c of
      (None, c') \<Rightarrow> ws_ok c' \<and> length (ws_stream c') < length (ws_stream c)
    | (Some None, c') \<Rightarrow> wc_closed c'
    | (Some (Some frame), c') \<Rightarrow> frame_ok frame \<and> ws_ok c'"
proof -
  have buf: "buf_ok c" using assms by (simp add: ws_ok_def)
  show ?thesis
  proof (cases "\<exists>hdr s c1. read_ws_frame_header send_ok c = (Some hdr, c1) \<and> ws_reads c s c1 \<and> s \<noteq> []")
    case False
    with read_header_cases [OF buf, of send_ok] show ?thesis by (auto simp: ws_recv_turn_def)
  next
    case True
    then obtain hdr s c1 where h: "read_ws_frame_header send_ok c = (Some hdr, c1)" "ws_reads c s c1" "s \<noteq> []" by blast
    note r1 = readsD [OF h(2)]
    from read_payload_cases [OF r1(1), of send_ok hdr] show ?thesis
    proof
      assume "\<exists>c'. read_ws_payload send_ok hdr c1 = (None, c') \<and> wc_closed c'"
      with h show ?thesis by (auto simp: ws_recv_turn_def)
    next
      assume "\<exists>p t c2. read_ws_payload send_ok hdr c1 = (Some p, c2) \<and> ws_reads c1 t c2 \<and> length p = fh_payload_len hdr \<and>
        length p \<le> kMaxMessageSize \<and> (fh_opcode hdr AND 0x08 = 0 \<longrightarrow> length (wc_frag_payload c1) + length p \<le> kMaxMessageSize)"
      then obtain p t c2 where p: "read_ws_payload send_ok hdr c1 = (Some p, c2)" "ws_reads c1 t c2"
        "length p = fh_payload_len hdr" "length p \<le> kMaxMessageSize"
        "fh_opcode hdr AND 0x08 = 0 \<longrightarrow> length (wc_frag_payload c1) + length p \<le> kMaxMessageSize" by auto
      note r2 = readsD [OF p(2)]
      have ok2: "ws_ok c2" using assms r1(6) r2(1,6) by (simp add: ws_ok_def)
      have less: "length (ws_stream c2) < length (ws_stream c)" using r1(2) r2(2) h(3) by (simp add: length_greater_0_conv)
      show ?thesis
      proof (cases "fh_opcode hdr AND 0x08 = 0")
        case False
        with h p less ok2 control_frame_cases [OF p(3), of send_ok c2] show ?thesis
          by (cases "handle_ws_control_frame send_ok hdr p c2") (auto simp: ws_recv_turn_def)
      next
        case True
        define f where "f = (if fh_opcode hdr = 0 then handle_ws_continuation_frame send_ok (fh_fin hdr) p
          else handle_ws_data_frame send_ok (fh_fin hdr) (fh_opcode hdr) p)"
        have turn: "ws_recv_turn send_ok c =
            (case f c2 of (frame, c) \<Rightarrow> (if frame = None \<and> \<not> wc_closed c then None else Some frame, c))"
          using True h p by (simp add: ws_recv_turn_def f_def)
        have "data_outcome_ok c2 (f c2)"
          using True p(4,5) r2(6) ok2 by (auto simp: f_def intro: continuation_frame_cases data_frame_cases)
        with less show ?thesis unfolding turn by (cases "f c2") (auto simp: data_outcome_ok_def split: option.splits)
      qed
    qed
  qed
qed

text \<open>
  C34: On every input \<open>recv\<close> comes to an end: however the peer fragments, interleaves, truncates or
  corrupts its frames, the loop returns once the stream is used up at the latest.  It returns
  without a frame only on a closed connection; a frame it returns is no larger than 16 MiB, and a
  text frame is valid UTF-8.
\<close>

theorem ws_recv_returns:
  assumes "ws_ok c"
  shows "\<exists>r c'. ws_recv send_ok c = Some (r, c') \<and>
    (case r of None \<Rightarrow> wc_closed c' | Some frame \<Rightarrow> frame_ok frame \<and> ws_ok c')"
  using assms
proof (induction c rule: measure_induct_rule [of "\<lambda>c. length (ws_stream c)"])
  case (less c)
  note turn = recv_turn_cases [OF less.prems, of send_ok]
  obtain o' c' where t: "ws_recv_turn send_ok c = (o', c')" by (cases "ws_recv_turn send_ok c")
  show ?case
  proof (cases o')
    case None
    with turn t have "ws_ok c'" "length (ws_stream c') < length (ws_stream c)" by auto
    from less.IH [OF this(2,1)] None t show ?thesis by (simp add: ws_recv.simps [of send_ok c])
  next
    case (Some r)
    with turn t show ?thesis by (auto simp: ws_recv.simps [of send_ok c] split: option.splits)
  qed
qed

theorem ws_recv_returns_witness:
  "\<exists>r c'. ws_recv (\<lambda>_. True) (ws_conn_new [] None [[of_byte 0x81, of_byte 0x05]]) = Some (r, c') \<and>
    (case r of None \<Rightarrow> wc_closed c' | Some frame \<Rightarrow> frame_ok frame \<and> ws_ok c')"
  by (rule ws_recv_returns) (simp add: ws_ok_def buf_ok_def ws_conn_new_def)

section \<open>A message comes through\<close>

text \<open>What a client sends: masked frames, a message in fragments, pings and pongs in between.\<close>

definition client_frame :: "bool \<Rightarrow> nat \<Rightarrow> nat list \<Rightarrow> string \<Rightarrow> string" where
  "client_frame fin opcode m payload =
     of_byte ((if fin then 0x80 else 0) + opcode) # ws_length_bytes 0x80 (length payload)
       @ map of_byte m @ unmask_ws_payload payload m"

definition mask_ok :: "nat list \<Rightarrow> bool" where
  "mask_ok m \<longleftrightarrow> length m = 4 \<and> list_all (\<lambda>b. b < 256) m"

lemma xor_byte: "a < 256 \<Longrightarrow> b < 256 \<Longrightarrow> (a :: nat) XOR b < 256"
proof -
  assume "a < 256" "b < 256"
  then have "take_bit 8 (a XOR b) = a XOR b" by (simp add: take_bit_xor take_bit_nat_eq_self)
  then show ?thesis using take_bit_nat_less_exp [of 8 "a XOR b"] by simp
qed

lemma unmask_twice:
  assumes "mask_ok m"
  shows "unmask_ws_payload (unmask_ws_payload p m) m = p"
proof (rule nth_equalityI)
  fix i
  assume "i < length (unmask_ws_payload (unmask_ws_payload p m) m)"
  then have i: "i < length p" by simp
  have "m ! (i AND 3) < 256" using assms by (auto simp: mask_ok_def list_all_iff and_masks intro!: nth_mem)
  then have "byte (p ! i) XOR m ! (i AND 3) < 256" by (rule xor_byte [OF byte_less_256])
  then show "unmask_ws_payload (unmask_ws_payload p m) m ! i = p ! i"
    using i by (simp add: unmask_ws_payload_def nth_enumerate_eq xor.assoc)
qed simp

lemma length_be_bytes [simp]: "length (be_bytes n v) = n"
  by (induction n) simp_all

lemma be_value_be_bytes: "v < 256 ^ n \<Longrightarrow> be_value (be_bytes n v) = v"
proof -
  have "foldl (\<lambda>v c. v * 256 + byte c) a (be_bytes n v) = a * 256 ^ n + v mod 256 ^ n" for a
  proof (induction n arbitrary: a)
    case (Suc n)
    have "v mod 256 ^ Suc n = (v div 256 ^ n mod 256) * 256 ^ n + v mod 256 ^ n"
      using mod_mult2_eq [of v "256 ^ n" 256] by (simp add: mult.commute)
    with Suc show ?case by (simp add: algebra_simps)
  qed simp
  then show "v < 256 ^ n \<Longrightarrow> ?thesis" by (simp add: be_value_def)
qed

definition len7 :: "nat \<Rightarrow> nat" where
  "len7 n = (if n < 126 then n else if n \<le> 0xFFFF then 126 else 127)"

definition client_header :: "bool \<Rightarrow> nat \<Rightarrow> nat list \<Rightarrow> nat \<Rightarrow> string" where
  "client_header fin opcode m n =
     of_byte ((if fin then 0x80 else 0) + opcode) # ws_length_bytes 0x80 n @ map of_byte m"

definition opcode_ok :: "bool \<Rightarrow> nat \<Rightarrow> nat \<Rightarrow> bool" where
  "opcode_ok fin opcode n \<longleftrightarrow> opcode \<in> {0, 1, 2} \<or> opcode \<in> {8, 9, 10} \<and> fin \<and> n \<le> 125"

lemma client_frame_header: "client_frame fin op m p = client_header fin op m (length p) @ unmask_ws_payload p m"
  by (simp add: client_frame_def client_header_def)

lemma ws_length_bytes_eq:
  "ws_length_bytes b n = of_byte (b + len7 n) # (if n < 126 then [] else be_bytes (ext_size (len7 n)) n)"
  by (simp add: ws_length_bytes_def len7_def ext_size_def)

lemma length_client_header: "mask_ok m \<Longrightarrow> length (client_header fin op m n) = 2 + ext_size (len7 n) + 4"
  by (auto simp: client_header_def ws_length_bytes_eq mask_ok_def len7_def ext_size_def)

definition lead_byte :: "bool \<Rightarrow> nat \<Rightarrow> nat" where
  "lead_byte fin opcode = (if fin then 0x80 else 0) + opcode"

lemma lead_byte_tests:
  assumes "op \<in> {0, 1, 2, 8, 9, 10}"
  shows "lead_byte fin op AND 0x80 \<noteq> 0 \<longleftrightarrow> fin" "lead_byte fin op AND 0x0F = op" "lead_byte fin op AND 0x70 = 0"
    "op AND 0x08 \<noteq> 0 \<longleftrightarrow> 8 \<le> op" "lead_byte fin op < 256"
  using assms by (cases fin; auto simp: lead_byte_def)+

definition len_byte :: "nat \<Rightarrow> nat" where
  "len_byte n = 0x80 + len7 n"

lemma length_byte_tests: "len_byte n AND 0x80 \<noteq> 0" "len_byte n AND 0x7F = len7 n" "len_byte n < 256"
proof -
  have l: "len7 n < 128" by (simp add: len7_def)
  then show b: "len_byte n < 256" by (simp add: len_byte_def)
  show "len_byte n AND 0x80 \<noteq> 0" using byte_tests(5) [OF b] by (simp add: len_byte_def)
  show "len_byte n AND 0x7F = len7 n" using l mod_offset [of "len7 n" 128 1] by (simp add: and_masks len_byte_def)
qed

lemma client_header_bytes:
  "client_header fin op m n = of_byte (lead_byte fin op) # of_byte (len_byte n)
     # (if n < 126 then [] else be_bytes (ext_size (len7 n)) n) @ map of_byte m"
  by (simp add: client_header_def ws_length_bytes_eq lead_byte_def len_byte_def)

lemma parse_client_prefix:
  assumes "opcode_ok fin op n"
  shows "parse_frame_header (take 2 (client_header fin op m n @ s)) = Frame_incomplete"
proof -
  have op: "op \<in> {0, 1, 2, 8, 9, 10}" using assms by (auto simp: opcode_ok_def)
  note b0 = lead_byte_tests [OF op] and b1 = length_byte_tests
  have t: "take 2 (client_header fin op m n @ s) = [of_byte (lead_byte fin op), of_byte (len_byte n)]"
    by (simp add: client_header_bytes numeral_2_eq_2)
  have "\<not> (8 \<le> op \<and> (\<not> fin \<or> len7 n > 125))" using assms by (auto simp: opcode_ok_def len7_def)
  moreover have "\<not> (op \<ge> 3 \<and> op \<le> 7 \<or> op \<ge> 0xB)" using op by auto
  ultimately show ?thesis
    unfolding t parse_frame_header_def using b0 b1 by (auto simp: Let_def parse_ext_len_def split: ext_len.splits)
qed

lemma parse_client_header:
  assumes "opcode_ok fin op n" and "mask_ok m" and "n < 2 ^ 64"
  shows "parse_frame_header (client_header fin op m n) =
    Frame_ok \<lparr>fh_opcode = op, fh_fin = fin, fh_masked = True, fh_payload_len = n, fh_mask = m,
      fh_header_size = length (client_header fin op m n)\<rparr>"
proof -
  have op: "op \<in> {0, 1, 2, 8, 9, 10}" using assms by (auto simp: opcode_ok_def)
  note b0 = lead_byte_tests [OF op] and b1 = length_byte_tests
  let ?h = "client_header fin op m n"
  define off where "off = 2 + ext_size (len7 n)"
  have len: "length ?h = off + 4" by (simp only: off_def length_client_header [OF assms(2)])
  have h01: "?h ! 0 = of_byte (lead_byte fin op)" "?h ! 1 = of_byte (len_byte n)"
    by (simp_all add: client_header_bytes)
  have drop2: "drop 2 ?h = (if n < 126 then [] else be_bytes (ext_size (len7 n)) n) @ map of_byte m"
    by (simp add: client_header_bytes numeral_2_eq_2)
  have be: "be_value (be_bytes 2 n) = n" if "n \<le> 0xFFFF" using that by (intro be_value_be_bytes) simp
  have be8: "be_value (be_bytes 8 n) = n" using assms(3) by (intro be_value_be_bytes) simp
  have ext: "parse_ext_len ?h (len7 n) = Ext n off"
    using be be8 by (auto simp: parse_ext_len_def len off_def len7_def ext_size_def drop2 Let_def)
  have "drop off ?h = drop (ext_size (len7 n)) (drop 2 ?h)"
    by (simp only: drop_drop add.commute off_def)
  also have "\<dots> = map of_byte m" unfolding drop2 by (simp add: ext_size_def len7_def)
  finally have mask: "map byte (drop off ?h) = m"
    using assms(2) by (simp add: mask_ok_def list_all_iff map_idI)
  have "\<not> (8 \<le> op \<and> (\<not> fin \<or> len7 n > 125))" using assms by (auto simp: opcode_ok_def len7_def)
  moreover have "\<not> (op \<ge> 3 \<and> op \<le> 7 \<or> op \<ge> 0xB)" using op by auto
  ultimately show ?thesis
    unfolding parse_frame_header_def h01 using b0 b1 by (simp add: Let_def ext len mask)
qed

text \<open>A turn of the loop on a frame of the client reads exactly that frame and handles it.\<close>

definition handle_frame :: "(nat \<Rightarrow> bool) \<Rightarrow> bool \<Rightarrow> nat \<Rightarrow> string \<Rightarrow> ws_conn \<Rightarrow> ws_frame option option \<times> ws_conn" where
  "handle_frame send_ok fin op p c =
     (case (if op = 0 then handle_ws_continuation_frame send_ok fin p c else handle_ws_data_frame send_ok fin op p c) of
        (frame, c) \<Rightarrow> (if frame = None \<and> \<not> wc_closed c then None else Some frame, c))"

definition ready :: "ws_conn \<Rightarrow> bool" where
  "ready c \<longleftrightarrow> buf_ok c \<and> [] \<notin> set (wc_in c)"

lemma ready_reads: "ready c \<Longrightarrow> ws_reads c s c' \<Longrightarrow> ready c'"
  using readsD [of c s c'] by (auto simp: ready_def)

lemma read_client_header:
  assumes "ready c" and "ws_stream c = client_header fin op m n @ rest" and "opcode_ok fin op n" and "mask_ok m"
    and "n < 2 ^ 64"
  shows "\<exists>c'. read_ws_frame_header send_ok c =
      (Some \<lparr>fh_opcode = op, fh_fin = fin, fh_masked = True, fh_payload_len = n, fh_mask = m,
        fh_header_size = length (client_header fin op m n)\<rparr>, c')
    \<and> ws_reads c (client_header fin op m n) c'"
proof -
  let ?h = "client_header fin op m n"
  define N where "N = 2 + ext_size (len7 n) + 4"
  have ok: "buf_ok c" "[] \<notin> set (wc_in c)" using assms(1) by (simp_all add: ready_def)
  have len: "length ?h = N" by (simp only: N_def length_client_header [OF assms(4)])
  then have "2 \<le> length (ws_stream c)" by (simp add: assms(2) N_def)
  from fill_consume_reads [OF ok(1) this ok(2)] obtain c1 where c1: "ws_fill 2 c = (True, c1)" "ws_reads c [] c1"
    "2 \<le> length (buffered c1)" "take 2 (buffered c1) = take 2 (ws_stream c)" by blast
  have pre: "parse_frame_header (take 2 (buffered c1)) = Frame_incomplete"
    unfolding c1(4) assms(2) by (rule parse_client_prefix [OF assms(3)])
  have "buffered c1 ! 1 = take 2 (buffered c1) ! 1" by simp
  also have "\<dots> = of_byte (len_byte n)" unfolding c1(4) assms(2) by (simp add: client_header_bytes)
  finally have b1: "byte (wc_buf c1 ! (wc_buf_pos c1 + 1)) AND 0x7F = len7 n"
    using buffered_nth [of 1 c1] c1(3) length_byte_tests by simp
  have ok1: "ready c1" and s1: "ws_stream c1 = ?h @ rest"
    using ready_reads [OF assms(1) c1(2)] readsD(2) [OF c1(2)] assms(2) by simp_all
  have "N \<le> length (ws_stream c1)" using len by (simp add: s1)
  from fill_consume_reads [OF _ this] ok1 obtain c2 where c2: "ws_fill N c1 = (True, c2)"
    "take N (buffered c2) = take N (ws_stream c1)" "ws_reads c1 (take N (ws_stream c1)) (ws_consume N c2)"
    by (auto simp: ready_def)
  have t: "take N (ws_stream c1) = ?h" unfolding s1 len [symmetric] by simp
  have "read_ws_frame_header send_ok c = read_full_header send_ok N c1"
    using c1(1) pre b1 by (simp add: read_ws_frame_header_def N_def)
  also have "\<dots> = (Some \<lparr>fh_opcode = op, fh_fin = fin, fh_masked = True, fh_payload_len = n, fh_mask = m,
      fh_header_size = length ?h\<rparr>, ws_consume N c2)"
    unfolding read_full_header_def using c2(1) parse_client_header [OF assms(3,4,5)] by (simp add: c2(2) t len)
  finally show ?thesis using reads_trans [OF c1(2) c2(3)] unfolding t by auto
qed

lemma read_client_payload:
  assumes "ready c" and "ws_stream c = unmask_ws_payload p m @ rest" and "mask_ok m" and "length p \<le> kMaxMessageSize"
    and "fh_payload_len hdr = length p" and "fh_mask hdr = m"
    and "fh_opcode hdr AND 0x08 = 0 \<Longrightarrow> length (wc_frag_payload c) + length p \<le> kMaxMessageSize"
  shows "\<exists>c'. read_ws_payload send_ok hdr c = (Some p, c') \<and> ws_reads c (unmask_ws_payload p m) c'"
proof -
  have "length p \<le> length (ws_stream c)" by (simp add: assms(2))
  from fill_consume_reads [OF _ this] assms(1) obtain c1 where c1: "ws_fill (length p) c = (True, c1)"
    "take (length p) (buffered c1) = take (length p) (ws_stream c)"
    "ws_reads c (take (length p) (ws_stream c)) (ws_consume (length p) c1)"
    by (auto simp: ready_def)
  have t: "take (length p) (ws_stream c) = unmask_ws_payload p m" by (simp add: assms(2))
  from c1 assms(4-7) show ?thesis
    unfolding t by (auto simp: read_ws_payload_def Let_def t unmask_twice [OF assms(3)])
qed

lemma recv_turn_frame:
  assumes "ready c" and "ws_stream c = client_frame fin op m p @ rest" and "opcode_ok fin op (length p)" and "mask_ok m"
    and "length p \<le> kMaxMessageSize" and "op \<in> {0, 1, 2} \<Longrightarrow> length (wc_frag_payload c) + length p \<le> kMaxMessageSize"
  shows "\<exists>c' hdr. ws_reads c (client_frame fin op m p) c' \<and> fh_opcode hdr = op \<and> fh_payload_len hdr = length p \<and>
    ws_recv_turn send_ok c =
      (if 8 \<le> op
       then case handle_ws_control_frame send_ok hdr p c' of (go_on, c) \<Rightarrow> (if go_on then None else Some None, c)
       else handle_frame send_ok fin op p c')"
proof -
  have op: "op \<in> {0, 1, 2, 8, 9, 10}" using assms(3) by (auto simp: opcode_ok_def)
  have s: "ws_stream c = client_header fin op m (length p) @ (unmask_ws_payload p m @ rest)"
    using assms(2) by (simp add: client_frame_header)
  have n: "length p < 2 ^ 64" using assms(5) by (simp add: kMaxMessageSize_def)
  let ?hdr = "\<lparr>fh_opcode = op, fh_fin = fin, fh_masked = True, fh_payload_len = length p, fh_mask = m,
    fh_header_size = length (client_header fin op m (length p))\<rparr>"
  from read_client_header [OF assms(1) s assms(3,4) n] obtain c1 where
    h: "read_ws_frame_header send_ok c = (Some ?hdr, c1)" "ws_reads c (client_header fin op m (length p)) c1" by blast
  have r1: "ready c1" "ws_stream c1 = unmask_ws_payload p m @ rest" "wc_frag_payload c1 = wc_frag_payload c"
    using ready_reads [OF assms(1) h(2)] readsD [OF h(2)] s by simp_all
  have "\<exists>c2. read_ws_payload send_ok ?hdr c1 = (Some p, c2) \<and> ws_reads c1 (unmask_ws_payload p m) c2"
    using op assms(5,6) lead_byte_tests(4) [OF op] r1(3)
    by (intro read_client_payload [OF r1(1,2) assms(4)]) auto
  then obtain c2 where p: "read_ws_payload send_ok ?hdr c1 = (Some p, c2)" "ws_reads c1 (unmask_ws_payload p m) c2" by blast
  have "ws_reads c (client_frame fin op m p) c2"
    using reads_trans [OF h(2) p(2)] by (simp add: client_frame_header)
  moreover have "ws_recv_turn send_ok c =
      (if 8 \<le> op
       then case handle_ws_control_frame send_ok ?hdr p c2 of (go_on, c) \<Rightarrow> (if go_on then None else Some None, c)
       else handle_frame send_ok fin op p c2)"
    using h(1) p(1) lead_byte_tests(4) [OF op] by (simp add: ws_recv_turn_def handle_frame_def)
  ultimately show ?thesis by (intro exI [of _ c2] exI [of _ ?hdr]) simp
qed

text \<open>Control frames between the fragments: each with a flag for ping, a mask and a payload.\<close>

type_synonym ws_control = "bool \<times> nat list \<times> string"

definition control_frame :: "ws_control \<Rightarrow> string" where
  "control_frame x = (case x of (ping, m, p) \<Rightarrow> client_frame True (if ping then 9 else 10) m p)"

definition control_ok :: "ws_control \<Rightarrow> bool" where
  "control_ok x = (case x of (ping, m, p) \<Rightarrow> mask_ok m \<and> length p \<le> 125)"

definition pongs :: "ws_control list \<Rightarrow> string list" where
  "pongs xs = map (\<lambda>(ping, m, p). ws_build_frame 10 p) (filter fst xs)"

text \<open>What matters of a connection besides its input.\<close>

definition ws_view :: "ws_conn \<Rightarrow> bool \<times> ws_opcode option \<times> string \<times> string list" where
  "ws_view c = (wc_closed c, wc_frag_opcode c, wc_frag_payload c, wc_out c)"

lemma ws_view_reads: "ws_reads c s c' \<Longrightarrow> ws_view c' = ws_view c"
  using readsD [of c s c'] by (simp add: ws_view_def)

lemma recv_again: "ws_recv_turn send_ok c = (None, c') \<Longrightarrow> ws_recv send_ok c = ws_recv send_ok c'"
  by (simp add: ws_recv.simps [of send_ok c])

lemma recv_control:
  assumes "ready c" and "ws_stream c = control_frame x @ rest" and "control_ok x" and "\<forall>i. send_ok i"
  shows "\<exists>c'. ws_recv send_ok c = ws_recv send_ok c' \<and> ready c' \<and> ws_stream c' = rest \<and>
    ws_view c' = (wc_closed c, wc_frag_opcode c, wc_frag_payload c, wc_out c @ pongs [x])"
proof -
  obtain ping m p where x: "x = (ping, m, p)" by (cases x)
  let ?op = "if ping then 9 else 10 :: nat"
  have s: "ws_stream c = client_frame True ?op m p @ rest" using assms(2) by (simp add: x control_frame_def)
  have "\<exists>c1 hdr. ws_reads c (client_frame True ?op m p) c1 \<and> fh_opcode hdr = ?op \<and> fh_payload_len hdr = length p \<and>
      ws_recv_turn send_ok c =
        (if 8 \<le> ?op
         then case handle_ws_control_frame send_ok hdr p c1 of (go_on, c) \<Rightarrow> (if go_on then None else Some None, c)
         else handle_frame send_ok True ?op p c1)"
    using assms(3) by (intro recv_turn_frame [OF assms(1) s]) (auto simp: x control_ok_def opcode_ok_def kMaxMessageSize_def split: if_splits)
  then obtain c1 hdr where c1: "ws_reads c (client_frame True ?op m p) c1" "fh_opcode hdr = ?op"
    and turn: "ws_recv_turn send_ok c =
      (case handle_ws_control_frame send_ok hdr p c1 of (go_on, c) \<Rightarrow> (if go_on then None else Some None, c))" by auto
  note r = readsD [OF c1(1)] and rd = ready_reads [OF assms(1) c1(1)]
  define c2 where "c2 = (if ping then c1\<lparr>wc_out := wc_out c1 @ [ws_build_frame 10 p]\<rparr> else c1)"
  have "handle_ws_control_frame send_ok hdr p c1 = (True, c2)"
    using c1(2) assms(4) by (simp add: handle_ws_control_frame_def send_data_frame_def do_send_frame_def c2_def)
  with turn have "ws_recv send_ok c = ws_recv send_ok c2" by (intro recv_again) simp
  moreover have "ready c2" "ws_stream c2 = rest"
    using rd r(2) s by (auto simp: c2_def ready_def buf_ok_def ws_stream_def buffered_def)
  moreover have "ws_view c2 = (wc_closed c, wc_frag_opcode c, wc_frag_payload c, wc_out c @ pongs [x])"
    using r by (auto simp: c2_def ws_view_def pongs_def x)
  ultimately show ?thesis by blast
qed

lemma pongs_Cons: "pongs (x # xs) = pongs [x] @ pongs xs"
  by (simp add: pongs_def)

lemma recv_controls:
  assumes "ready c" and "ws_stream c = concat (map control_frame xs) @ rest" and "list_all control_ok xs" and "\<forall>i. send_ok i"
  shows "\<exists>c'. ws_recv send_ok c = ws_recv send_ok c' \<and> ready c' \<and> ws_stream c' = rest \<and>
    ws_view c' = (wc_closed c, wc_frag_opcode c, wc_frag_payload c, wc_out c @ pongs xs)"
  using assms(1-3)
proof (induction xs arbitrary: c)
  case Nil
  then show ?case by (intro exI [of _ c]) (simp add: pongs_def ws_view_def)
next
  case (Cons x xs)
  have "ws_stream c = control_frame x @ (concat (map control_frame xs) @ rest)" using Cons.prems by simp
  from recv_control [OF Cons.prems(1) this _ assms(4)] Cons.prems(3) obtain c1 where
    c1: "ws_recv send_ok c = ws_recv send_ok c1" "ready c1" "ws_stream c1 = concat (map control_frame xs) @ rest"
    "ws_view c1 = (wc_closed c, wc_frag_opcode c, wc_frag_payload c, wc_out c @ pongs [x])" by auto
  from Cons.IH [OF c1(2,3)] Cons.prems(3) obtain c2 where c2: "ws_recv send_ok c1 = ws_recv send_ok c2" "ready c2"
    "ws_stream c2 = rest" "ws_view c2 = (wc_closed c1, wc_frag_opcode c1, wc_frag_payload c1, wc_out c1 @ pongs xs)" by auto
  from c1 c2 show ?case by (intro exI [of _ c2]) (simp add: ws_view_def pongs_Cons [of x xs])
qed

text \<open>
  A message is a list of fragments, each preceded by control frames: the first frame has the opcode of the
  message, the others that of a continuation, and the last one is final.
\<close>

type_synonym ws_fragment = "ws_control list \<times> nat list \<times> string"

fun message_bytes :: "nat \<Rightarrow> ws_fragment list \<Rightarrow> string" where
  "message_bytes op [] = []"
| "message_bytes op ((ctl, m, p) # fs) =
     concat (map control_frame ctl) @ client_frame (fs = []) op m p @ message_bytes 0 fs"

definition fragment_ok :: "ws_fragment \<Rightarrow> bool" where
  "fragment_ok f = (case f of (ctl, m, p) \<Rightarrow> list_all control_ok ctl \<and> mask_ok m)"

definition message_payload :: "ws_fragment list \<Rightarrow> string" where
  "message_payload fs = concat (map (\<lambda>(ctl, m, p). p) fs)"

definition message_pongs :: "ws_fragment list \<Rightarrow> string list" where
  "message_pongs fs = concat (map (\<lambda>(ctl, m, p). pongs ctl) fs)"

text \<open>The next data frame has opcode \<open>op\<close> and belongs to a message of type \<open>o'\<close>.\<close>

definition awaits :: "ws_opcode \<Rightarrow> nat \<Rightarrow> ws_conn \<Rightarrow> bool" where
  "awaits o' op c \<longleftrightarrow> \<not> wc_closed c \<and>
     (op = 0 \<and> wc_frag_opcode c = Some o' \<or>
      op = (if o' = Op_text then 1 else 2) \<and> wc_frag_opcode c = None \<and> wc_frag_payload c = [])"

lemma handle_frame_more:
  assumes "awaits o' op c"
  shows "handle_frame send_ok False op p c =
    (None, c\<lparr>wc_frag_opcode := Some o', wc_frag_payload := wc_frag_payload c @ p\<rparr>)"
proof -
  have same: "wc_frag_opcode c = Some o' \<Longrightarrow> c\<lparr>wc_frag_payload := q\<rparr> = c\<lparr>wc_frag_opcode := Some o', wc_frag_payload := q\<rparr>" for q
    by (cases c) simp
  from assms same [of "wc_frag_payload c @ p"] show ?thesis
    by (cases o'; cases "op = 0") (simp_all add: awaits_def handle_frame_def handle_ws_continuation_frame_def handle_ws_data_frame_def)
qed

lemma handle_frame_last:
  assumes "awaits o' op c" and "o' = Op_text \<Longrightarrow> utf8_is_valid (wc_frag_payload c @ p)"
  shows "handle_frame send_ok True op p c =
    (Some (Some \<lparr>wf_opcode = o', wf_payload = wc_frag_payload c @ p\<rparr>), c\<lparr>wc_frag_opcode := None, wc_frag_payload := []\<rparr>)"
proof -
  have same: "wc_frag_opcode c = None \<Longrightarrow> wc_frag_payload c = [] \<Longrightarrow> c\<lparr>wc_frag_opcode := None, wc_frag_payload := []\<rparr> = c"
    by (cases c) simp
  from assms same show ?thesis
    by (cases o'; cases "op = 0") (simp_all add: awaits_def handle_frame_def handle_ws_continuation_frame_def handle_ws_data_frame_def)
qed

lemma awaits_view: "ws_view c' = (wc_closed c, wc_frag_opcode c, wc_frag_payload c, out) \<Longrightarrow> awaits o' op c' = awaits o' op c"
  by (simp add: ws_view_def awaits_def)

lemma frag_update_input:
  "ready (c\<lparr>wc_frag_opcode := a, wc_frag_payload := b\<rparr>) = ready c"
  "ws_stream (c\<lparr>wc_frag_opcode := a, wc_frag_payload := b\<rparr>) = ws_stream c"
  by (simp_all add: ready_def buf_ok_def ws_stream_def buffered_def)

text \<open>One fragment with the control frames before it, up to what is done with its payload.\<close>

lemma recv_fragment:
  assumes "ready c" and "ws_stream c = concat (map control_frame ctl) @ client_frame fin op m p @ rest"
    and "fragment_ok (ctl, m, p)" and "\<forall>i. send_ok i" and "awaits o' op c"
    and "length (wc_frag_payload c) + length p \<le> kMaxMessageSize"
  shows "\<exists>d. ready d \<and> ws_stream d = rest \<and> awaits o' op d \<and> wc_frag_payload d = wc_frag_payload c \<and>
    wc_out d = wc_out c @ pongs ctl \<and>
    ws_recv send_ok c = (case handle_frame send_ok fin op p d of (Some r, e) \<Rightarrow> Some (r, e) | (None, e) \<Rightarrow> ws_recv send_ok e)"
proof -
  from assms(3) have ok: "list_all control_ok ctl" "mask_ok m" by (auto simp: fragment_ok_def)
  from recv_controls [OF assms(1,2) ok(1) assms(4)] obtain b where b: "ws_recv send_ok c = ws_recv send_ok b" "ready b"
    "ws_stream b = client_frame fin op m p @ rest"
    "ws_view b = (wc_closed c, wc_frag_opcode c, wc_frag_payload c, wc_out c @ pongs ctl)" by blast
  have op: "op \<in> {0, 1, 2}" using assms(5) by (auto simp: awaits_def split: if_splits)
  then have "opcode_ok fin op (length p)" "\<not> 8 \<le> op" by (auto simp: opcode_ok_def)
  moreover have "length (wc_frag_payload b) + length p \<le> kMaxMessageSize" using b(4) assms(6) by (simp add: ws_view_def)
  ultimately obtain d where d: "ws_reads b (client_frame fin op m p) d"
    and turn: "ws_recv_turn send_ok b = handle_frame send_ok fin op p d"
    using recv_turn_frame [OF b(2,3) _ ok(2), of send_ok] by auto
  have v: "ws_view d = (wc_closed c, wc_frag_opcode c, wc_frag_payload c, wc_out c @ pongs ctl)"
    using ws_view_reads [OF d] b(4) by simp
  have "ws_stream d = rest" using readsD(2) [OF d] b(3) by simp
  with ready_reads [OF b(2) d] v awaits_view [OF v, of o' op] assms(5) b(1) turn show ?thesis
    by (intro exI [of _ d]) (simp add: ws_view_def ws_recv.simps [of send_ok b])
qed

lemma recv_fragments:
  assumes "fs \<noteq> []" and "ready c" and "ws_stream c = message_bytes op fs @ rest" and "list_all fragment_ok fs"
    and "\<forall>i. send_ok i" and "awaits o' op c"
    and "length (wc_frag_payload c) + length (message_payload fs) \<le> kMaxMessageSize"
    and "o' = Op_text \<Longrightarrow> utf8_is_valid (wc_frag_payload c @ message_payload fs)"
  shows "\<exists>c'. ws_recv send_ok c = Some (Some \<lparr>wf_opcode = o', wf_payload = wc_frag_payload c @ message_payload fs\<rparr>, c') \<and>
    ready c' \<and> ws_stream c' = rest \<and> ws_view c' = (False, None, [], wc_out c @ message_pongs fs)"
  using assms(1-4) assms(6-)
proof (induction fs arbitrary: op c)
  case Nil
  then show ?case by simp
next
  case (Cons f fs)
  obtain ctl m p where f: "f = (ctl, m, p)" by (cases f)
  have s: "ws_stream c = concat (map control_frame ctl) @ client_frame (fs = []) op m p @ (message_bytes 0 fs @ rest)"
    using Cons.prems(3) by (simp add: f)
  have pl: "message_payload (f # fs) = p @ message_payload fs" and pg: "message_pongs (f # fs) = pongs ctl @ message_pongs fs"
    by (simp_all add: f message_payload_def message_pongs_def)
  have "fragment_ok (ctl, m, p)" using Cons.prems(4) f by simp
  moreover have "length (wc_frag_payload c) + length p \<le> kMaxMessageSize" using Cons.prems(6) pl by simp
  ultimately obtain d where d: "ready d" "ws_stream d = message_bytes 0 fs @ rest" "awaits o' op d"
    "wc_frag_payload d = wc_frag_payload c" "wc_out d = wc_out c @ pongs ctl"
    and r: "ws_recv send_ok c = (case handle_frame send_ok (fs = []) op p d of (Some r, e) \<Rightarrow> Some (r, e) | (None, e) \<Rightarrow> ws_recv send_ok e)"
    using recv_fragment [OF Cons.prems(2) s _ assms(5) Cons.prems(5)] by blast
  show ?case
  proof (cases "fs = []")
    case True
    then have "handle_frame send_ok True op p d =
      (Some (Some \<lparr>wf_opcode = o', wf_payload = wc_frag_payload d @ p\<rparr>), d\<lparr>wc_frag_opcode := None, wc_frag_payload := []\<rparr>)"
      using Cons.prems(7) d(4) pl by (intro handle_frame_last [OF d(3)]) (simp add: message_payload_def)
    with r True d pl pg show ?thesis
      by (simp add: frag_update_input ws_view_def message_payload_def message_pongs_def) (simp add: awaits_def)
  next
    case False
    let ?e = "d\<lparr>wc_frag_opcode := Some o', wc_frag_payload := wc_frag_payload d @ p\<rparr>"
    have re: "ws_recv send_ok c = ws_recv send_ok ?e" using r False handle_frame_more [OF d(3), of send_ok p] by simp
    have "\<exists>c'. ws_recv send_ok ?e = Some (Some \<lparr>wf_opcode = o', wf_payload = wc_frag_payload ?e @ message_payload fs\<rparr>, c') \<and>
      ready c' \<and> ws_stream c' = rest \<and> ws_view c' = (False, None, [], wc_out ?e @ message_pongs fs)"
      using False d Cons.prems(4,6,7) pl by (intro Cons.IH [of ?e 0]) (auto simp: frag_update_input awaits_def)
    with re d pl pg show ?thesis by simp
  qed
qed

text \<open>
  C33: A WebSocket message survives its transport: whatever the fragmentation of the message into masked
  client frames, whatever pings and pongs stand between the fragments, and however the bytes arrive in
  chunks, \<open>recv\<close> returns exactly one frame with the type and the payload of the message, has answered
  every ping with a pong of the same payload in order, and leaves the bytes after the message to be read.
  The payload may have up to 16 MiB and has to be UTF-8 in a text message.
\<close>

theorem ws_message_received:
  assumes "fs \<noteq> []" and "list_all fragment_ok fs" and "length (message_payload fs) \<le> kMaxMessageSize"
    and "o' = Op_text \<longrightarrow> utf8_is_valid (message_payload fs)" and "\<forall>i. send_ok i"
    and "[] \<notin> set chunks"
    and "initial @ concat chunks = message_bytes (if o' = Op_text then 1 else 2) fs @ rest"
  shows "\<exists>c'. ws_recv send_ok (ws_conn_new initial pressure chunks) = Some (Some \<lparr>wf_opcode = o', wf_payload = message_payload fs\<rparr>, c') \<and>
    ws_stream c' = rest \<and> wc_out c' = message_pongs fs \<and> \<not> wc_closed c'"
proof -
  let ?c = "ws_conn_new initial pressure chunks"
  have "\<exists>c'. ws_recv send_ok ?c = Some (Some \<lparr>wf_opcode = o', wf_payload = wc_frag_payload ?c @ message_payload fs\<rparr>, c') \<and>
    ready c' \<and> ws_stream c' = rest \<and> ws_view c' = (False, None, [], wc_out ?c @ message_pongs fs)"
    using assms by (intro recv_fragments [where op = "if o' = Op_text then 1 else 2"])
      (auto simp: ws_conn_new_def ready_def buf_ok_def ws_stream_def buffered_def awaits_def)
  then show ?thesis by (auto simp: ws_conn_new_def ws_view_def)
qed

theorem ws_message_received_witness:
  "\<exists>c'. ws_recv (\<lambda>_. True) (ws_conn_new [] None
      [message_bytes 1 [([], [1, 2, 3, 4], ''he''), ([(True, [5, 6, 7, 8], ''p'')], [9, 10, 11, 12], ''llo'')]]) =
      Some (Some \<lparr>wf_opcode = Op_text, wf_payload = ''hello''\<rparr>, c') \<and>
    ws_stream c' = [] \<and> wc_out c' = [ws_build_frame 10 ''p''] \<and> \<not> wc_closed c'"
proof -
  let ?fs = "[([], [1, 2, 3, 4], ''he''), ([(True, [5, 6, 7, 8], ''p'')], [9, 10, 11, 12], ''llo'')] :: ws_fragment list"
  have p: "message_payload ?fs = ''hello''" and g: "message_pongs ?fs = [ws_build_frame 10 ''p'']"
    by (simp_all add: message_payload_def message_pongs_def pongs_def)
  have ok: "list_all fragment_ok ?fs" by (simp add: fragment_ok_def control_ok_def mask_ok_def)
  have u: "utf8_is_valid ''hello''" by code_simp
  have "message_bytes 1 ?fs \<noteq> []" by (simp add: client_frame_def)
  with ws_message_received [of ?fs Op_text "\<lambda>_. True" "[message_bytes 1 ?fs]" "[]" "[]" None] ok u show ?thesis
    by (simp add: p g kMaxMessageSize_def del: message_bytes.simps One_nat_def)
qed

end
