(* ===== verification/Slot_Pool.thy ===== *)
theory Slot_Pool
  imports Prelude
begin

text \<open>
  The pool of direct descriptor slots, \<open>net/direct_slot_pool.cxx\<close>: the states of the slots, the stack of
  free slots with the position of each slot in it, and the lease that returns an unused slot.  A failed
  assertion, and a position past the end of the stack, is the result \<open>None\<close>.
\<close>

section \<open>The pool\<close>

datatype direct_slot_state = Free_slot | Leased_empty | Populated | Closing | Poisoned

datatype direct_slot_error = Not_registered | Exhausted | Out_of_range | Bad_state | Install_failed

record direct_slot_pool =
  sp_capacity :: nat
  sp_poisoned_count :: nat
  sp_state :: "direct_slot_state list"
  sp_free_stack :: "nat list"
  sp_free_pos :: "nat list"

definition kNoPos :: nat where
  "kNoPos = 0xFFFFFFFF"

definition direct_slot_pool_new :: "nat \<Rightarrow> direct_slot_pool" where
  "direct_slot_pool_new capacity =
     \<lparr>sp_capacity = capacity, sp_poisoned_count = 0, sp_state = replicate capacity Free_slot,
      sp_free_stack = [0..<capacity], sp_free_pos = [0..<capacity]\<rparr>"

definition slot_state :: "direct_slot_pool \<Rightarrow> nat \<Rightarrow> direct_slot_state" where
  "slot_state p slot = sp_state p ! slot"

definition set_state :: "nat \<Rightarrow> direct_slot_state \<Rightarrow> direct_slot_pool \<Rightarrow> direct_slot_pool" where
  "set_state slot s p = p\<lparr>sp_state := (sp_state p)[slot := s]\<rparr>"

text \<open>The last free slot takes the place of the slot.\<close>

definition remove_from_free :: "nat \<Rightarrow> direct_slot_pool \<Rightarrow> direct_slot_pool option" where
  "remove_from_free slot p =
     (let pos = sp_free_pos p ! slot
      in if pos = kNoPos then None
         else if pos \<ge> length (sp_free_stack p) \<or> sp_free_stack p ! pos \<noteq> slot then None
         else
           let final = last (sp_free_stack p);
               p = (if final \<noteq> slot
                    then p\<lparr>sp_free_stack := (sp_free_stack p)[pos := final], sp_free_pos := (sp_free_pos p)[final := pos]\<rparr>
                    else p)
           in Some (p\<lparr>sp_free_stack := butlast (sp_free_stack p), sp_free_pos := (sp_free_pos p)[slot := kNoPos]\<rparr>))"

definition push_to_free :: "nat \<Rightarrow> direct_slot_pool \<Rightarrow> direct_slot_pool option" where
  "push_to_free slot p =
     (if sp_free_pos p ! slot \<noteq> kNoPos then None
      else Some (p\<lparr>sp_free_pos := (sp_free_pos p)[slot := length (sp_free_stack p) mod 2 ^ 32],
                   sp_free_stack := sp_free_stack p @ [slot]\<rparr>))"

type_synonym 'a slot_result = "((direct_slot_error + 'a) \<times> direct_slot_pool) option"

definition acquire :: "direct_slot_pool \<Rightarrow> nat slot_result" where
  "acquire p =
     (if sp_free_stack p = [] then Some (Inl Exhausted, p)
      else
        let slot = last (sp_free_stack p)
        in Option.bind (remove_from_free slot p) (\<lambda>p. Some (Inr slot, set_state slot Leased_empty p)))"

definition in_state :: "direct_slot_state \<Rightarrow> nat \<Rightarrow> (direct_slot_pool \<Rightarrow> unit slot_result) \<Rightarrow> direct_slot_pool \<Rightarrow> unit slot_result" where
  "in_state s slot f p =
     (if slot \<ge> sp_capacity p then Some (Inl Out_of_range, p)
      else if slot_state p slot \<noteq> s then Some (Inl Bad_state, p)
      else f p)"

definition release_empty :: "nat \<Rightarrow> direct_slot_pool \<Rightarrow> unit slot_result" where
  "release_empty slot = in_state Leased_empty slot (\<lambda>p.
     Option.bind (push_to_free slot (set_state slot Free_slot p)) (\<lambda>p. Some (Inr (), p)))"

definition install_os_fd :: "nat \<Rightarrow> direct_slot_pool \<Rightarrow> unit slot_result" where
  "install_os_fd slot = in_state Free_slot slot (\<lambda>p.
     Option.bind (remove_from_free slot p) (\<lambda>p. Some (Inr (), set_state slot Populated p)))"

definition adopt_kernel_allocated :: "nat \<Rightarrow> direct_slot_pool \<Rightarrow> unit slot_result" where
  "adopt_kernel_allocated slot = in_state Free_slot slot (\<lambda>p.
     Option.bind (remove_from_free slot p) (\<lambda>p. Some (Inr (), set_state slot Populated p)))"

definition mark_closing :: "nat \<Rightarrow> direct_slot_pool \<Rightarrow> unit slot_result" where
  "mark_closing slot = in_state Populated slot (\<lambda>p. Some (Inr (), set_state slot Closing p))"

definition release_closed :: "nat \<Rightarrow> direct_slot_pool \<Rightarrow> unit slot_result" where
  "release_closed slot = in_state Closing slot (\<lambda>p.
     Option.bind (push_to_free slot p) (\<lambda>p. Some (Inr (), set_state slot Free_slot p)))"

text \<open>The messages on the error stream are left out.\<close>

definition poison :: "nat \<Rightarrow> direct_slot_pool \<Rightarrow> direct_slot_pool option" where
  "poison slot p =
     (if slot \<ge> sp_capacity p then Some p
      else if slot_state p slot = Free_slot then Some p
      else if sp_free_pos p ! slot \<noteq> kNoPos then None
      else if slot_state p slot \<noteq> Poisoned
      then Some ((set_state slot Poisoned p)\<lparr>sp_poisoned_count := (sp_poisoned_count p + 1) mod 2 ^ 32\<rparr>)
      else Some p)"

definition free_count :: "direct_slot_pool \<Rightarrow> nat" where
  "free_count p = length (sp_free_stack p) mod 2 ^ 32"

section \<open>Leases\<close>

text \<open>
  A lease holds the pool until it is detached or moved away; the assignment is the one from another lease,
  an assignment to itself does nothing.
\<close>

record direct_slot_lease =
  sl_held :: bool
  sl_slot :: nat

definition lease_new :: "nat \<Rightarrow> direct_slot_lease" where
  "lease_new slot = \<lparr>sl_held = True, sl_slot = slot\<rparr>"

definition lease_destroy :: "direct_slot_lease \<Rightarrow> direct_slot_pool \<Rightarrow> direct_slot_pool option" where
  "lease_destroy l p = (if sl_held l then map_option snd (release_empty (sl_slot l) p) else Some p)"

definition lease_detach :: "direct_slot_lease \<Rightarrow> direct_slot_lease" where
  "lease_detach l = l\<lparr>sl_held := False\<rparr>"

definition lease_move :: "direct_slot_lease \<Rightarrow> direct_slot_lease \<times> direct_slot_lease" where
  "lease_move other = (other, other\<lparr>sl_held := False\<rparr>)"

definition lease_assign ::
    "direct_slot_lease \<Rightarrow> direct_slot_lease \<Rightarrow> direct_slot_pool \<Rightarrow> ((direct_slot_lease \<times> direct_slot_lease) \<times> direct_slot_pool) option" where
  "lease_assign l other p = Option.bind (lease_destroy l p) (\<lambda>p. Some (lease_move other, p))"

section \<open>Sequences of operations\<close>

datatype slot_command =
    Cmd_acquire | Cmd_release_empty nat | Cmd_install nat | Cmd_adopt nat | Cmd_mark_closing nat | Cmd_release_closed nat
  | Cmd_poison nat | Cmd_drop direct_slot_lease | Cmd_assign direct_slot_lease direct_slot_lease

fun slot_exec :: "slot_command \<Rightarrow> direct_slot_pool \<Rightarrow> direct_slot_pool option" where
  "slot_exec Cmd_acquire p = map_option snd (acquire p)"
| "slot_exec (Cmd_release_empty slot) p = map_option snd (release_empty slot p)"
| "slot_exec (Cmd_install slot) p = map_option snd (install_os_fd slot p)"
| "slot_exec (Cmd_adopt slot) p = map_option snd (adopt_kernel_allocated slot p)"
| "slot_exec (Cmd_mark_closing slot) p = map_option snd (mark_closing slot p)"
| "slot_exec (Cmd_release_closed slot) p = map_option snd (release_closed slot p)"
| "slot_exec (Cmd_poison slot) p = poison slot p"
| "slot_exec (Cmd_drop l) p = lease_destroy l p"
| "slot_exec (Cmd_assign l other) p = map_option snd (lease_assign l other p)"

definition slot_run :: "slot_command list \<Rightarrow> direct_slot_pool \<Rightarrow> direct_slot_pool option" where
  "slot_run cs p = run_commands (\<lambda>c s. Option.bind s (slot_exec c)) cs (Some p)"

text \<open>
  The stack lists the slots of a set, each once, and each knows its position in it; the other slots know
  that they are not there.
\<close>

definition free_ok :: "direct_slot_pool \<Rightarrow> nat set \<Rightarrow> bool" where
  "free_ok p F \<longleftrightarrow>
     length (sp_free_pos p) = sp_capacity p \<and> sp_capacity p \<le> kNoPos \<and>
     distinct (sp_free_stack p) \<and> set (sp_free_stack p) = F \<and> F \<subseteq> {..<sp_capacity p} \<and>
     (\<forall>i<length (sp_free_stack p). sp_free_pos p ! (sp_free_stack p ! i) = i) \<and>
     (\<forall>slot \<in> {..<sp_capacity p} - F. sp_free_pos p ! slot = kNoPos)"

definition free_slots :: "direct_slot_pool \<Rightarrow> nat set" where
  "free_slots p = {slot. slot < sp_capacity p \<and> slot_state p slot = Free_slot}"

definition pool_ok :: "direct_slot_pool \<Rightarrow> bool" where
  "pool_ok p \<longleftrightarrow>
     length (sp_state p) = sp_capacity p \<and> free_ok p (free_slots p) \<and> sp_poisoned_count p = count_list (sp_state p) Poisoned"

section \<open>The invariant\<close>

lemma free_ok_small:
  assumes "free_ok p F"
  shows "length (sp_free_stack p) \<le> sp_capacity p"
proof -
  have "card F \<le> card {..<sp_capacity p}" using assms by (intro card_mono) (auto simp: free_ok_def)
  then show ?thesis using assms distinct_card [of "sp_free_stack p"] by (auto simp: free_ok_def)
qed

lemma remove_from_free_ok:
  assumes p: "free_ok p F" and slot: "slot \<in> F"
  shows "\<exists>q. remove_from_free slot p = Some q \<and> free_ok q (F - {slot}) \<and> sp_state q = sp_state p \<and>
    sp_capacity q = sp_capacity p \<and> sp_poisoned_count q = sp_poisoned_count p"
proof -
  note ok = p [unfolded free_ok_def]
  have "sp_free_stack p \<noteq> []" using ok slot by auto
  then obtain ys z where yz: "sp_free_stack p = ys @ [z]" by (metis append_butlast_last_id)
  obtain k where k: "k < length (ys @ [z])" "(ys @ [z]) ! k = slot" using ok slot yz by (metis in_set_conv_nth)
  have pos: "sp_free_pos p ! slot = k" using ok k yz by force
  have "k \<noteq> kNoPos" using k(1) free_ok_small [OF p] ok yz by simp
  then have r: "remove_from_free slot p = Some (if z \<noteq> slot
      then p\<lparr>sp_free_stack := ys[k := z], sp_free_pos := (sp_free_pos p)[z := k, slot := kNoPos]\<rparr>
      else p\<lparr>sp_free_stack := ys, sp_free_pos := (sp_free_pos p)[slot := kNoPos]\<rparr>)"
    using k yz pos by (auto simp: remove_from_free_def Let_def list_update_append nth_append split: if_splits)
  have slots: "slot < sp_capacity p" "z < sp_capacity p" "F = insert z (set ys)" "z \<notin> set ys" "distinct ys" using ok slot yz by auto
  have old: "sp_free_pos p ! (ys ! i) = i" if i: "i < length ys" for i
  proof -
    have "sp_free_pos p ! (sp_free_stack p ! i) = i" using ok yz i by auto
    then show ?thesis using yz i by (simp add: nth_append)
  qed
  show ?thesis
  proof (cases "z = slot")
    case True
    then have "ys ! i \<noteq> slot" if "i < length ys" for i using slots(4) that nth_mem by blast
    then show ?thesis using r ok yz slots True old by (auto simp: free_ok_def nth_list_update)
  next
    case False
    then have ky: "k < length ys" "ys ! k = slot" using k by (auto simp: nth_append split: if_splits)
    have set: "set (ys[k := z]) = F - {slot}" using set_update_distinct [OF slots(5) ky(1), of z] slots(3,4) False ky(2) by auto
    have "distinct (ys[k := z])" using slots(4,5) by (simp add: distinct_list_update)
    moreover have "(sp_free_pos p)[z := k, slot := kNoPos] ! (ys[k := z] ! i) = i" if i: "i < length ys" for i
    proof (cases "i = k")
      case True
      then show ?thesis using i False slots(1,2) ok by (simp add: nth_list_update)
    next
      case i': False
      have "ys ! i \<noteq> z" "ys ! i \<noteq> slot" using i i' ky slots(4,5) nth_mem [OF i] by (auto simp: nth_eq_iff_index_eq)
      then show ?thesis using i' old [OF i] by simp
    qed
    moreover have "(sp_free_pos p)[z := k, slot := kNoPos] ! s = kNoPos" if "s < sp_capacity p" "s \<notin> F - {slot}" for s
      using that ok slots False by (cases "s = slot") auto
    ultimately show ?thesis using r ok set False by (auto simp: free_ok_def)
  qed
qed

lemma push_to_free_ok:
  assumes p: "free_ok p F" and slot: "slot < sp_capacity p" "slot \<notin> F"
  shows "\<exists>q. push_to_free slot p = Some q \<and> free_ok q (insert slot F) \<and> sp_state q = sp_state p \<and>
    sp_capacity q = sp_capacity p \<and> sp_poisoned_count q = sp_poisoned_count p"
proof -
  note ok = p [unfolded free_ok_def]
  have "length (sp_free_stack p) < 2 ^ 32" using free_ok_small [OF p] ok by (simp add: kNoPos_def)
  moreover have "sp_free_pos p ! slot = kNoPos" using ok slot by auto
  moreover have "sp_free_stack p ! i \<noteq> slot" if "i < length (sp_free_stack p)" for i using ok slot(2) that nth_mem by blast
  ultimately show ?thesis using ok slot by (auto simp: push_to_free_def free_ok_def nth_append less_Suc_eq nth_list_update)
qed

lemma count_list_update:
  "i < length xs \<Longrightarrow> count_list (xs[i := y]) x + of_bool (xs ! i = x) = count_list xs x + of_bool (y = x)"
proof (induction xs arbitrary: i)
  case (Cons a xs)
  then show ?case by (cases i) auto
qed simp

lemma set_state_fields [simp]:
  "sp_capacity (set_state slot s p) = sp_capacity p" "sp_poisoned_count (set_state slot s p) = sp_poisoned_count p"
  "sp_state (set_state slot s p) = (sp_state p)[slot := s]" "free_ok (set_state slot s p) F = free_ok p F"
  by (simp_all add: set_state_def free_ok_def)

lemma free_slots_update:
  assumes "slot < sp_capacity p" "length (sp_state p) = sp_capacity p" "sp_state q = (sp_state p)[slot := s]" "sp_capacity q = sp_capacity p"
  shows "free_slots q = (if s = Free_slot then insert slot (free_slots p) else free_slots p - {slot})"
  using assms by (auto simp: free_slots_def slot_state_def nth_list_update split: if_splits)

text \<open>A slot changes its state and the stack follows.\<close>

lemma pool_ok_update:
  assumes "pool_ok p" "slot < sp_capacity p" "sp_state q = (sp_state p)[slot := s]" "sp_capacity q = sp_capacity p"
    and "free_ok q (if s = Free_slot then insert slot (free_slots p) else free_slots p - {slot})"
    and "sp_poisoned_count q + of_bool (slot_state p slot = Poisoned) = sp_poisoned_count p + of_bool (s = Poisoned)"
  shows "pool_ok q"
  using assms count_list_update [of slot "sp_state p" s Poisoned] free_slots_update [OF assms(2) _ assms(3,4)]
  by (auto simp: pool_ok_def slot_state_def)

lemma in_state_ok:
  assumes "pool_ok p" "\<And>p. pool_ok p \<Longrightarrow> slot < sp_capacity p \<Longrightarrow> slot_state p slot = s \<Longrightarrow> \<exists>r q. f p = Some (r, q) \<and> pool_ok q"
  shows "\<exists>r q. in_state s slot f p = Some (r, q) \<and> pool_ok q"
  using assms by (auto simp: in_state_def)

lemma take_free_ok:
  assumes "pool_ok p" "slot \<in> free_slots p" "s \<noteq> Free_slot" "s \<noteq> Poisoned"
  shows "\<exists>q. remove_from_free slot p = Some q \<and> pool_ok (set_state slot s q) \<and> sp_state q = sp_state p \<and> sp_capacity q = sp_capacity p"
proof -
  obtain q where q: "remove_from_free slot p = Some q" "free_ok q (free_slots p - {slot})" "sp_state q = sp_state p"
      "sp_capacity q = sp_capacity p" "sp_poisoned_count q = sp_poisoned_count p"
    using remove_from_free_ok [of p "free_slots p" slot] assms(1,2) by (auto simp: pool_ok_def)
  then have "pool_ok (set_state slot s q)"
    using assms by (intro pool_ok_update [OF assms(1), of slot _ s]) (auto simp: free_slots_def)
  with q show ?thesis by blast
qed

lemma give_back_ok:
  assumes "pool_ok p" "slot < sp_capacity p" "slot_state p slot \<noteq> Free_slot" "slot_state p slot \<noteq> Poisoned"
  shows "\<exists>q. push_to_free slot p = Some q \<and> pool_ok (set_state slot Free_slot q)"
    and "\<exists>q. push_to_free slot (set_state slot Free_slot p) = Some q \<and> pool_ok q"
proof -
  have F: "free_ok p (free_slots p)" "slot \<notin> free_slots p" using assms by (auto simp: pool_ok_def free_slots_def)
  obtain q where q: "push_to_free slot p = Some q" "free_ok q (insert slot (free_slots p))" "sp_state q = sp_state p"
      "sp_capacity q = sp_capacity p" "sp_poisoned_count q = sp_poisoned_count p"
    using push_to_free_ok [OF F(1) assms(2) F(2)] by blast
  then have "pool_ok (set_state slot Free_slot q)"
    using assms by (intro pool_ok_update [OF assms(1,2), of _ Free_slot]) auto
  with q(1) show "\<exists>q. push_to_free slot p = Some q \<and> pool_ok (set_state slot Free_slot q)" by blast
  obtain r where r: "push_to_free slot (set_state slot Free_slot p) = Some r" "free_ok r (insert slot (free_slots p))"
      "sp_state r = (sp_state p)[slot := Free_slot]" "sp_capacity r = sp_capacity p" "sp_poisoned_count r = sp_poisoned_count p"
    using push_to_free_ok [of "set_state slot Free_slot p" "free_slots p" slot] F assms(2) by auto
  then have "pool_ok r" using assms by (intro pool_ok_update [OF assms(1,2), of _ Free_slot]) auto
  with r(1) show "\<exists>q. push_to_free slot (set_state slot Free_slot p) = Some q \<and> pool_ok q" by blast
qed

lemma acquire_ok:
  assumes "pool_ok p"
  shows "sp_free_stack p = [] \<and> free_slots p = {} \<and> acquire p = Some (Inl Exhausted, p) \<or>
    (\<exists>slot q. acquire p = Some (Inr slot, q) \<and> slot \<in> free_slots p \<and> pool_ok q \<and> sp_state q = (sp_state p)[slot := Leased_empty])"
proof (cases "sp_free_stack p = []")
  case True
  then show ?thesis using assms by (auto simp: acquire_def pool_ok_def free_ok_def)
next
  case False
  let ?slot = "last (sp_free_stack p)"
  have slot: "?slot \<in> free_slots p" using False assms by (auto simp: pool_ok_def free_ok_def)
  obtain q where "remove_from_free ?slot p = Some q" "pool_ok (set_state ?slot Leased_empty q)" "sp_state q = sp_state p"
    using take_free_ok [OF assms slot, of Leased_empty] by auto
  then show ?thesis using False slot by (simp add: acquire_def Let_def)
qed

lemma release_empty_ok: "pool_ok p \<Longrightarrow> \<exists>r q. release_empty slot p = Some (r, q) \<and> pool_ok q"
  unfolding release_empty_def by (rule in_state_ok, assumption) (frule give_back_ok(2) [of _ slot]; auto)

lemma lease_destroy_ok: "pool_ok p \<Longrightarrow> \<exists>q. lease_destroy l p = Some q \<and> pool_ok q"
  using release_empty_ok [of p "sl_slot l"] by (auto simp: lease_destroy_def)

text \<open>The count of poisoned slots does not wrap.\<close>

lemma poisoned_fits:
  assumes "pool_ok p" "slot < sp_capacity p" "slot_state p slot \<noteq> Poisoned"
  shows "(sp_poisoned_count p + 1) mod 2 ^ 32 = sp_poisoned_count p + 1"
proof -
  have "sp_poisoned_count p + 1 = count_list ((sp_state p)[slot := Poisoned]) Poisoned"
    using assms count_list_update [of slot "sp_state p" Poisoned Poisoned] by (simp add: pool_ok_def slot_state_def)
  also have "\<dots> \<le> sp_capacity p"
    using assms(1) count_le_length [of "(sp_state p)[slot := Poisoned]" Poisoned] by (simp add: pool_ok_def)
  finally show ?thesis using assms(1) by (simp add: pool_ok_def free_ok_def kNoPos_def)
qed

lemma slot_exec_ok: "pool_ok p \<Longrightarrow> \<exists>q. slot_exec c p = Some q \<and> pool_ok q"
proof (cases c)
  case Cmd_acquire
  assume "pool_ok p"
  then show ?thesis using acquire_ok [of p] Cmd_acquire by auto
next
  case (Cmd_release_empty slot)
  assume "pool_ok p"
  then show ?thesis using release_empty_ok [of p slot] Cmd_release_empty by auto
next
  case (Cmd_install slot)
  assume p: "pool_ok p"
  have "\<exists>r q. install_os_fd slot p = Some (r, q) \<and> pool_ok q"
    unfolding install_os_fd_def using take_free_ok [of _ slot Populated] by (intro in_state_ok [OF p]) (fastforce simp: free_slots_def)
  then show ?thesis using Cmd_install by auto
next
  case (Cmd_adopt slot)
  assume p: "pool_ok p"
  have "\<exists>r q. adopt_kernel_allocated slot p = Some (r, q) \<and> pool_ok q"
    unfolding adopt_kernel_allocated_def using take_free_ok [of _ slot Populated] by (intro in_state_ok [OF p]) (fastforce simp: free_slots_def)
  then show ?thesis using Cmd_adopt by auto
next
  case (Cmd_mark_closing slot)
  assume p: "pool_ok p"
  have "\<exists>r q. mark_closing slot p = Some (r, q) \<and> pool_ok q"
    unfolding mark_closing_def
  proof (rule in_state_ok [OF p])
    fix p assume p: "pool_ok p" "slot < sp_capacity p" "slot_state p slot = Populated"
    have "pool_ok (set_state slot Closing p)"
      using p by (intro pool_ok_update [OF p(1,2), of _ Closing]) (auto simp: pool_ok_def free_slots_def)
    then show "\<exists>r q. Some (Inr (), set_state slot Closing p) = Some (r, q) \<and> pool_ok q" by blast
  qed
  then show ?thesis using Cmd_mark_closing by auto
next
  case (Cmd_release_closed slot)
  assume p: "pool_ok p"
  have "\<exists>r q. release_closed slot p = Some (r, q) \<and> pool_ok q"
    unfolding release_closed_def using give_back_ok(1) [of _ slot] by (intro in_state_ok [OF p]) fastforce
  then show ?thesis using Cmd_release_closed by auto
next
  case (Cmd_poison slot)
  assume p: "pool_ok p"
  have "pool_ok ((set_state slot Poisoned p)\<lparr>sp_poisoned_count := (sp_poisoned_count p + 1) mod 2 ^ 32\<rparr>)"
    if "slot < sp_capacity p" "slot_state p slot \<noteq> Free_slot" "slot_state p slot \<noteq> Poisoned"
    unfolding poisoned_fits [OF p that(1,3)]
    using p that by (intro pool_ok_update [OF p that(1), of _ Poisoned]) (auto simp: pool_ok_def free_slots_def free_ok_def set_state_def)
  moreover have "sp_free_pos p ! slot = kNoPos" if "slot < sp_capacity p" "slot_state p slot \<noteq> Free_slot"
    using p that by (auto simp: pool_ok_def free_ok_def free_slots_def)
  ultimately show ?thesis using p Cmd_poison by (auto simp: poison_def)
next
  case (Cmd_drop l)
  assume "pool_ok p"
  then show ?thesis using lease_destroy_ok [of p l] Cmd_drop by simp
next
  case (Cmd_assign l other)
  assume "pool_ok p"
  then show ?thesis using lease_destroy_ok [of p l] Cmd_assign by (auto simp: lease_assign_def)
qed

interpretation slot_machine: invariant_machine "\<lambda>c s. Option.bind s (slot_exec c)" "\<lambda>s. \<exists>p. s = Some p \<and> pool_ok p"
  by unfold_locales (use slot_exec_ok in force)

lemma pool_new_ok: "capacity < 2 ^ 32 \<Longrightarrow> pool_ok (direct_slot_pool_new capacity)"
  by (auto simp: pool_ok_def free_ok_def direct_slot_pool_new_def free_slots_def slot_state_def kNoPos_def)

lemma slot_run_ok: "capacity < 2 ^ 32 \<Longrightarrow> \<exists>p. slot_run cs (direct_slot_pool_new capacity) = Some p \<and> pool_ok p"
  unfolding slot_run_def by (rule slot_machine.inv_run) (simp add: pool_new_ok)

lemma free_count_ok:
  assumes "pool_ok p"
  shows "free_count p = card (free_slots p)"
proof -
  have F: "free_ok p (free_slots p)" using assms by (simp add: pool_ok_def)
  then have "length (sp_free_stack p) = card (free_slots p)" using distinct_card [of "sp_free_stack p"] by (auto simp: free_ok_def)
  moreover have "length (sp_free_stack p) < 2 ^ 32" using free_ok_small [OF F] F by (simp add: free_ok_def kNoPos_def)
  ultimately show ?thesis by (simp add: free_count_def)
qed

section \<open>The property\<close>

text \<open>
  C40: whatever sequence of operations is made on a new pool, with slot numbers in or out of range and in any
  order, no assertion of the pool fails; the free count is the number of free slots and the poisoned count
  that of the poisoned ones.  A slot is then acquired exactly when one is free: the slot given was free,
  is leased afterwards, and every other slot keeps its state; with no free slot the pool is left as it was.
\<close>

theorem slot_pool_never_corrupt:
  assumes "capacity < 2 ^ 32"
  shows "\<exists>p. slot_run cs (direct_slot_pool_new capacity) = Some p \<and>
    free_count p = card (free_slots p) \<and> sp_poisoned_count p = count_list (sp_state p) Poisoned \<and>
    (case acquire p of
       None \<Rightarrow> False
     | Some (Inl e, q) \<Rightarrow> e = Exhausted \<and> q = p \<and> free_slots p = {}
     | Some (Inr slot, q) \<Rightarrow> slot \<in> free_slots p \<and> sp_state q = (sp_state p)[slot := Leased_empty])"
proof -
  obtain p where p: "slot_run cs (direct_slot_pool_new capacity) = Some p" "pool_ok p" using slot_run_ok [OF assms] by blast
  then have "sp_poisoned_count p = count_list (sp_state p) Poisoned" by (simp add: pool_ok_def)
  with p free_count_ok [OF p(2)] acquire_ok [OF p(2)] show ?thesis by auto
qed

theorem slot_pool_never_corrupt_witness:
  "\<exists>p. slot_run [Cmd_install 1, Cmd_acquire, Cmd_mark_closing 1, Cmd_release_closed 1, Cmd_poison 2, Cmd_poison 7] (direct_slot_pool_new 3) = Some p \<and>
    sp_free_stack p = [0, 1] \<and> sp_poisoned_count p = 1 \<and> free_count p = card (free_slots p)"
proof -
  let ?cs = "[Cmd_install 1, Cmd_acquire, Cmd_mark_closing 1, Cmd_release_closed 1, Cmd_poison 2, Cmd_poison 7]"
  have "map_option (\<lambda>p. (sp_free_stack p, sp_poisoned_count p)) (slot_run ?cs (direct_slot_pool_new 3)) = Some ([0, 1], 1)"
    by code_simp
  then show ?thesis using slot_pool_never_corrupt [of 3 ?cs] by auto
qed

end
