(* ===== verification/Json_Document.thy ===== *)
theory Json_Document
  imports Json_Escape
begin

text \<open>
  The storage of a parsed JSON document (\<open>json_api.cxx\<close>, \<open>json_storage.cxx\<close>, \<open>json_number.cxx\<close>):
  an array of nodes, the text of strings and numbers either in the input or in an arena, the
  children of arrays and the members of objects in two further arrays, numbers classified when
  they are read, and members looked up linearly or through a hash table.

  What the platform supplies is a record of functions: the conversion of a decimal number to a
  double, whose bits are a word, the random seed of a hash table and whether its allocation
  succeeds, the last two given by the index of the node the table is for.  Offsets, lengths and
  indices are 32-bit values and are cut as the casts of the code cut them.  Of an error the code, the
  position and the message are kept.  A name in the pointer
  cache of a table is the name the pointer showed when the table was built.
\<close>

unbundle bit_operations_syntax

section \<open>Errors and options\<close>

datatype json_issue_code =
    Syntax_error | Unexpected_eof | Trailing_garbage | Invalid_utf8 | Invalid_unicode_escape | Invalid_pointer
  | Duplicate_member | Missing_member | Wrong_kind | Index_out_of_range | Invalid_number | Number_out_of_range
  | Sign_mismatch | Invalid_value | Constraint_violation | Nesting_too_deep | Input_too_large | String_too_large
  | Output_too_large | Resource_exhausted | Invalid_patch | Patch_op_missing | Patch_op_unknown
  | Patch_path_missing | Patch_path_invalid | Patch_from_missing | Patch_from_invalid | Patch_test_failed
  | Patch_target_missing | Patch_parent_missing | Patch_array_index_invalid | Patch_array_index_out_of_range
  | Patch_move_into_child | Patch_remove_document_root | Patch_too_many_operations | Patch_pointer_too_deep

record json_source_location =
  sl_offset :: nat
  sl_line :: nat
  sl_column :: nat

record json_error =
  je_code :: json_issue_code
  je_source :: "json_source_location option"
  je_message :: string

datatype limit_option = Limit_default | Limit_unlimited | Limit_bound nat

fun exceeds :: "limit_option \<Rightarrow> nat \<Rightarrow> nat \<Rightarrow> bool" where
  "exceeds Limit_unlimited n default_cap = False"
| "exceeds Limit_default n default_cap = (n > default_cap)"
| "exceeds (Limit_bound v) n default_cap = (n > v)"

datatype parse_mode = Strict | Json5

datatype duplicate_key_policy = Dup_reject | Dup_last_wins | Dup_first_wins

record json_parse_options =
  po_max_depth :: limit_option
  po_max_input_size :: limit_option
  po_max_string_size :: limit_option
  po_duplicate_key :: duplicate_key_policy
  po_warm_threshold :: "nat option"
  po_mode :: parse_mode

definition json_parse_options_default :: json_parse_options where
  "json_parse_options_default =
     \<lparr>po_max_depth = Limit_default, po_max_input_size = Limit_default, po_max_string_size = Limit_default,
      po_duplicate_key = Dup_reject, po_warm_threshold = None, po_mode = Strict\<rparr>"

definition kMaxNumberLexemeLen :: nat where [simp]: "kMaxNumberLexemeLen = 1024"
definition kSlowFloatLexemeCopyLimit :: nat where [simp]: "kSlowFloatLexemeCopyLimit = 4096"
definition kDefaultMaxDepth :: nat where [simp]: "kDefaultMaxDepth = 128"
definition kDefaultMaxInput :: nat where [simp]: "kDefaultMaxInput = 134217728"
definition kDefaultMaxString :: nat where [simp]: "kDefaultMaxString = 67108864"

section \<open>Nodes\<close>

definition kStorageInputView :: nat where [simp]: "kStorageInputView = 0x01"
definition kRawJsonSlice :: nat where [simp]: "kRawJsonSlice = 0x02"
definition kValKindDeferred :: nat where [simp]: "kValKindDeferred = 0x04"
definition kLexIntForm :: nat where [simp]: "kLexIntForm = 0x08"
definition kValKindInt :: nat where [simp]: "kValKindInt = 0x10"
definition kValKindUint :: nat where [simp]: "kValKindUint = 0x20"
definition kValKindF64 :: nat where [simp]: "kValKindF64 = 0x40"
definition kValueExternalView :: nat where [simp]: "kValueExternalView = 0x80"
definition kMemberExternalView :: nat where [simp]: "kMemberExternalView = 0x04"

definition u32_of :: "nat \<Rightarrow> nat" where
  "u32_of n = n mod 2 ^ 32"

lemma u32_of_small [simp]: "n < 2 ^ 32 \<Longrightarrow> u32_of n = n"
  by (simp add: u32_of_def)

record obj_hash_table =
  ht_capacity :: nat
  ht_member_count :: nat
  ht_hash_seed :: u64
  ht_slots :: "(nat \<times> 32 word) option list"
  ht_ptr_cache :: "string list"

datatype hash_index = Hash_null | Hash_build_failed | Hash_table obj_hash_table

datatype node_kind = K_null | K_boolean | K_number | K_string | K_array | K_object

datatype node_payload = P_raw | P_bool bool | P_int int | P_uint nat | P_f64 u64 | P_hash hash_index

record json_node =
  nd_kind :: node_kind
  nd_flags :: nat
  nd_off :: nat
  nd_len :: nat
  nd_payload :: node_payload

record member_entry =
  me_name_off :: nat
  me_name_len :: nat
  me_val_node :: nat
  me_name_flags :: nat

definition make_null :: json_node where
  "make_null = \<lparr>nd_kind = K_null, nd_flags = 0, nd_off = 0, nd_len = 0, nd_payload = P_raw\<rparr>"

definition make_bool :: "bool \<Rightarrow> json_node" where
  "make_bool v = \<lparr>nd_kind = K_boolean, nd_flags = 0, nd_off = 0, nd_len = 0, nd_payload = P_bool v\<rparr>"

definition make_string :: "nat \<Rightarrow> nat \<Rightarrow> nat \<Rightarrow> json_node" where
  "make_string off len flags = \<lparr>nd_kind = K_string, nd_flags = flags, nd_off = off, nd_len = len, nd_payload = P_raw\<rparr>"

definition node_array :: "nat \<Rightarrow> nat \<Rightarrow> json_node" where
  "node_array off len = \<lparr>nd_kind = K_array, nd_flags = 0, nd_off = off, nd_len = len, nd_payload = P_raw\<rparr>"

definition node_object :: "nat \<Rightarrow> nat \<Rightarrow> json_node" where
  "node_object off len =
     \<lparr>nd_kind = K_object, nd_flags = 0, nd_off = off, nd_len = len, nd_payload = P_hash Hash_null\<rparr>"

definition make_number_int :: "nat \<Rightarrow> nat \<Rightarrow> nat \<Rightarrow> int \<Rightarrow> json_node" where
  "make_number_int off len storage_flags v =
     \<lparr>nd_kind = K_number, nd_flags = storage_flags OR kLexIntForm OR kValKindInt, nd_off = off, nd_len = len,
      nd_payload = P_int v\<rparr>"

definition make_number_uint :: "nat \<Rightarrow> nat \<Rightarrow> nat \<Rightarrow> nat \<Rightarrow> json_node" where
  "make_number_uint off len storage_flags v =
     \<lparr>nd_kind = K_number, nd_flags = storage_flags OR kLexIntForm OR kValKindUint, nd_off = off, nd_len = len,
      nd_payload = P_uint v\<rparr>"

definition make_number_f64 :: "nat \<Rightarrow> nat \<Rightarrow> nat \<Rightarrow> u64 \<Rightarrow> bool \<Rightarrow> json_node" where
  "make_number_f64 off len storage_flags v int_form =
     \<lparr>nd_kind = K_number, nd_flags = storage_flags OR (if int_form then kLexIntForm else 0) OR kValKindF64,
      nd_off = off, nd_len = len, nd_payload = P_f64 v\<rparr>"

definition make_number_overflow :: "nat \<Rightarrow> nat \<Rightarrow> nat \<Rightarrow> bool \<Rightarrow> json_node" where
  "make_number_overflow off len storage_flags int_form =
     \<lparr>nd_kind = K_number, nd_flags = storage_flags OR (if int_form then kLexIntForm else 0), nd_off = off,
      nd_len = len, nd_payload = P_raw\<rparr>"

definition make_number_deferred :: "nat \<Rightarrow> nat \<Rightarrow> nat \<Rightarrow> json_node" where
  "make_number_deferred off len storage_flags =
     \<lparr>nd_kind = K_number, nd_flags = storage_flags OR kValKindDeferred, nd_off = off, nd_len = len,
      nd_payload = P_raw\<rparr>"

section \<open>The storage\<close>

record parse_stats =
  ps_input_bytes :: nat
  ps_duplicate_hash_promotions :: nat
  ps_duplicate_hash_inserts :: nat
  ps_duplicate_member_hits :: nat
  ps_first_wins_rollbacks :: nat
  ps_last_wins_updates :: nat

definition parse_stats_zero :: parse_stats where
  "parse_stats_zero =
     \<lparr>ps_input_bytes = 0, ps_duplicate_hash_promotions = 0, ps_duplicate_hash_inserts = 0,
      ps_duplicate_member_hits = 0, ps_first_wins_rollbacks = 0, ps_last_wins_updates = 0\<rparr>"

record document_storage =
  ds_nodes :: "json_node list"
  ds_arena :: string
  ds_children :: "nat list"
  ds_members :: "member_entry list"
  ds_external :: "string list"
  ds_input :: string
  ds_root :: nat
  ds_bom :: nat
  ds_stats :: parse_stats

definition document_storage_new :: document_storage where
  "document_storage_new =
     \<lparr>ds_nodes = [], ds_arena = [], ds_children = [], ds_members = [], ds_external = [], ds_input = [],
      ds_root = 0, ds_bom = 0, ds_stats = parse_stats_zero\<rparr>"

definition str_at :: "'a document_storage_scheme \<Rightarrow> nat \<Rightarrow> nat \<Rightarrow> string" where
  "str_at st off len = substr (ds_arena st) off len"

definition bytes_at :: "'a document_storage_scheme \<Rightarrow> nat \<Rightarrow> nat \<Rightarrow> nat \<Rightarrow> string" where
  "bytes_at st off len flags =
     (if flags AND kValueExternalView \<noteq> 0 then take len (ds_external st ! off)
      else if flags AND kStorageInputView \<noteq> 0 then substr (ds_input st) off len
      else str_at st off len)"

definition member_name :: "'a document_storage_scheme \<Rightarrow> member_entry \<Rightarrow> string" where
  "member_name st m =
     (if me_name_flags m AND kMemberExternalView \<noteq> 0 then take (me_name_len m) (ds_external st ! me_name_off m)
      else bytes_at st (me_name_off m) (me_name_len m) (me_name_flags m))"

section \<open>Numbers\<close>

text \<open>What \<open>std::from_chars\<close> for a double says of a whole text.\<close>

datatype f64_result = F64_finite u64 | F64_infinite | F64_out_of_range | F64_rejected

record json_env =
  ev_from_chars_f64 :: "string \<Rightarrow> f64_result"
  ev_hash_seed :: "nat \<Rightarrow> u64"
  ev_alloc_ok :: "nat \<Rightarrow> bool"

definition whole_signed :: "string \<Rightarrow> int option" where
  "whole_signed s =
     (case from_chars_signed (2 ^ 63) s of FC_ok v n \<Rightarrow> if n = length s then Some v else None | _ \<Rightarrow> None)"

definition build_number_node_from_lexeme ::
    "json_env \<Rightarrow> nat \<Rightarrow> nat \<Rightarrow> nat \<Rightarrow> string \<Rightarrow> bool option \<Rightarrow> json_error + json_node" where
  "build_number_node_from_lexeme env off len storage_flags lexeme int_form_hint =
     (let int_form = (case int_form_hint of Some b \<Rightarrow> b | None \<Rightarrow> sv_find_first_of lexeme ''.eE'' = None);
          neg = (lexeme \<noteq> [] \<and> hd lexeme = CHR ''-'');
          from_f64 =
            (case ev_from_chars_f64 env lexeme of
               F64_finite dv \<Rightarrow> Inr (make_number_f64 off len storage_flags dv int_form)
             | F64_infinite \<Rightarrow> Inr (make_number_overflow off len storage_flags int_form)
             | F64_out_of_range \<Rightarrow>
                 if length lexeme > kSlowFloatLexemeCopyLimit then Inr (make_number_overflow off len storage_flags int_form)
                 else Inr (make_number_deferred off len storage_flags)
             | F64_rejected \<Rightarrow>
                 Inl \<lparr>je_code = Invalid_number, je_source = None, je_message = ''number rejected by std::from_chars: '' @ lexeme\<rparr>)
      in if int_form then
           (case whole_signed lexeme of
              Some iv \<Rightarrow> Inr (make_number_int off len storage_flags iv)
            | None \<Rightarrow>
                if neg then from_f64
                else
                  case parse_whole_unsigned (2 ^ 64) lexeme of
                    Some uv \<Rightarrow> Inr (make_number_uint off len storage_flags uv)
                  | None \<Rightarrow> from_f64)
         else from_f64)"

record json_number_view =
  nv_lexeme :: string
  nv_flags :: nat
  nv_payload :: node_payload

definition lookup_error :: "json_issue_code \<Rightarrow> string \<Rightarrow> json_error" where
  "lookup_error code msg = \<lparr>je_code = code, je_source = None, je_message = msg\<rparr>"

text \<open>The payload is read through the member of the union the flags select.\<close>

definition payload_int :: "node_payload \<Rightarrow> int" where
  "payload_int p = (case p of P_int v \<Rightarrow> v | _ \<Rightarrow> 0)"

definition payload_uint :: "node_payload \<Rightarrow> nat" where
  "payload_uint p = (case p of P_uint v \<Rightarrow> v | _ \<Rightarrow> 0)"

definition to_i64 :: "json_number_view \<Rightarrow> json_error + int" where
  "to_i64 v =
     (if nv_flags v AND kLexIntForm = 0 then Inl (lookup_error Invalid_number ''to_i64 requires integer-form number'')
      else if nv_flags v AND kValKindInt \<noteq> 0 then Inr (payload_int (nv_payload v))
      else Inl (lookup_error Number_out_of_range (''value out of std::int64_t range: '' @ nv_lexeme v)))"

definition to_u64 :: "json_number_view \<Rightarrow> json_error + nat" where
  "to_u64 v =
     (let out_of_range = Inl (lookup_error Number_out_of_range (''value out of std::uint64_t range: '' @ nv_lexeme v))
      in if nv_flags v AND kLexIntForm = 0 then Inl (lookup_error Invalid_number ''to_u64 requires integer-form number'')
         else if nv_lexeme v \<noteq> [] \<and> hd (nv_lexeme v) = CHR ''-''
         then Inl (lookup_error Sign_mismatch (''negative integer passed to to_u64: '' @ nv_lexeme v))
         else if nv_flags v AND kValKindUint \<noteq> 0 then Inr (payload_uint (nv_payload v))
         else if nv_flags v AND kValKindInt \<noteq> 0 then
           (if payload_int (nv_payload v) \<ge> 0 then Inr (nat (payload_int (nv_payload v))) else out_of_range)
         else out_of_range)"

definition as_number :: "'a document_storage_scheme \<Rightarrow> nat \<Rightarrow> json_error + json_number_view" where
  "as_number st idx =
     (let n = ds_nodes st ! idx
      in if nd_kind n \<noteq> K_number then Inl (lookup_error Wrong_kind ''std::expected number'')
         else Inr \<lparr>nv_lexeme = bytes_at st (nd_off n) (nd_len n) (nd_flags n), nv_flags = nd_flags n,
                   nv_payload = nd_payload n\<rparr>)"

definition skip_digits :: "string \<Rightarrow> nat \<Rightarrow> nat" where
  "skip_digits s i = i + length (takeWhile is_digit (drop i s))"

definition validate_fraction :: "string \<Rightarrow> nat \<Rightarrow> nat option" where
  "validate_fraction lexeme i =
     (if i < length lexeme \<and> lexeme ! i = CHR ''.'' then
        (if Suc i \<ge> length lexeme \<or> \<not> is_digit (lexeme ! Suc i) then None else Some (skip_digits lexeme (Suc i)))
      else Some i)"

definition validate_exponent :: "string \<Rightarrow> nat \<Rightarrow> nat option" where
  "validate_exponent lexeme i =
     (if i < length lexeme \<and> (lexeme ! i = CHR ''e'' \<or> lexeme ! i = CHR ''E'') then
        (let i = Suc i; i = (if i < length lexeme \<and> (lexeme ! i = CHR ''+'' \<or> lexeme ! i = CHR ''-'') then Suc i else i)
         in if i \<ge> length lexeme \<or> \<not> is_digit (lexeme ! i) then None else Some (skip_digits lexeme i))
      else Some i)"

definition validate_integer :: "string \<Rightarrow> nat option" where
  "validate_integer lexeme =
     (if lexeme = [] then None
      else
        let i = (if lexeme ! 0 = CHR ''-'' then 1 else 0)
        in if i \<ge> length lexeme then None
           else if lexeme ! i = CHR ''0'' then Some (Suc i)
           else if is_digit (lexeme ! i) then Some (skip_digits lexeme i)
           else None)"

definition validate_number_lexeme :: "string \<Rightarrow> bool" where
  "validate_number_lexeme lexeme =
     (case Option.bind (Option.bind (validate_integer lexeme) (validate_fraction lexeme)) (validate_exponent lexeme) of
        None \<Rightarrow> False
      | Some i \<Rightarrow> i = length lexeme)"

end
