(* ===== verification/Json_Tokenizer.thy ===== *)
theory Json_Tokenizer
  imports Json_Document Utf8
begin

text \<open>
  The tokenizer of the JSON parser (\<open>Tokenizer\<close> of \<open>json_parse.cxx\<close>): white space and JSON5 comments,
  strings with their escapes, unquoted keys and number lexemes, with source coordinates.  The state of
  the parser is the storage it fills, the position and the staging areas of the tree builder.

  A string without escapes is a slice of the input; from the first escape on its bytes are decoded into
  the arena.  The scan over plain bytes is the portable one, which tests eight bytes at a time.
  Capacities of buffers are not modelled.
\<close>

unbundle bit_operations_syntax

section \<open>State and errors\<close>

record json_parser = document_storage +
  tk_pos :: nat
  tk_line :: nat
  tk_col :: nat
  tk_unterminated :: "(nat \<times> nat \<times> nat) option"
  tb_staging :: "nat list"
  tb_staging_members :: "member_entry list"

abbreviation src_size :: "json_parser \<Rightarrow> nat" where
  "src_size s \<equiv> length (ds_input s)"

abbreviation src_at :: "json_parser \<Rightarrow> nat \<Rightarrow> char" where
  "src_at s i \<equiv> ds_input s ! i"

definition mk_err :: "json_issue_code \<Rightarrow> string \<Rightarrow> json_parser \<Rightarrow> json_error" where
  "mk_err code msg s =
     \<lparr>je_code = code,
      je_source = Some \<lparr>sl_offset = tk_pos s + ds_bom s, sl_line = tk_line s, sl_column = tk_col s\<rparr>,
      je_message = msg\<rparr>"

definition whitespace_error :: "json_parser \<Rightarrow> json_error" where
  "whitespace_error s =
     (case tk_unterminated s of
        Some (pos, line, col) \<Rightarrow>
          \<lparr>je_code = Unexpected_eof,
           je_source = Some \<lparr>sl_offset = pos + ds_bom s, sl_line = line, sl_column = col\<rparr>,
           je_message = ''unterminated block comment''\<rparr>
      | None \<Rightarrow>
          \<lparr>je_code = Unexpected_eof, je_source = Some \<lparr>sl_offset = ds_bom s, sl_line = 1, sl_column = 1\<rparr>,
           je_message = ''unterminated block comment''\<rparr>)"

definition adv :: "nat \<Rightarrow> json_parser \<Rightarrow> json_parser" where
  "adv n s = s\<lparr>tk_pos := tk_pos s + n, tk_col := tk_col s + n\<rparr>"

definition newline :: "json_parser \<Rightarrow> json_parser" where
  "newline s = s\<lparr>tk_pos := tk_pos s + 1, tk_line := tk_line s + 1, tk_col := 1\<rparr>"

lemma adv_fields [simp]:
  "tk_pos (adv n s) = tk_pos s + n" "ds_input (adv n s) = ds_input s" "ds_arena (adv n s) = ds_arena s"
  "tk_pos (newline s) = tk_pos s + 1" "ds_input (newline s) = ds_input s" "ds_arena (newline s) = ds_arena s"
  by (simp_all add: adv_def newline_def)

section \<open>White space\<close>

function skip_blank :: "json_parser \<Rightarrow> json_parser" where
  "skip_blank s =
     (if tk_pos s < src_size s then
        (let c = src_at s (tk_pos s)
         in if c = CHR 0x0A then skip_blank (newline s)
            else if c = CHR '' '' \<or> c = CHR 0x09 \<or> c = CHR 0x0D then skip_blank (adv 1 s)
            else s)
      else s)"
  by pat_completeness auto
termination by (relation "measure (\<lambda>s. src_size s - tk_pos s)") auto

declare skip_blank.simps [simp del]

function skip_line_comment :: "json_parser \<Rightarrow> json_parser" where
  "skip_line_comment s =
     (if tk_pos s < src_size s \<and> src_at s (tk_pos s) \<noteq> CHR 0x0A then skip_line_comment (adv 1 s) else s)"
  by pat_completeness auto
termination by (relation "measure (\<lambda>s. src_size s - tk_pos s)") auto

declare skip_line_comment.simps [simp del]

text \<open>The result is whether the comment was closed.\<close>

function skip_block_comment :: "json_parser \<Rightarrow> bool \<times> json_parser" where
  "skip_block_comment s =
     (if tk_pos s + 1 < src_size s then
        (if src_at s (tk_pos s) = CHR ''*'' \<and> src_at s (tk_pos s + 1) = CHR ''/'' then (True, adv 2 s)
         else if src_at s (tk_pos s) = CHR 0x0A then skip_block_comment (newline s)
         else skip_block_comment (adv 1 s))
      else (False, s))"
  by pat_completeness auto
termination by (relation "measure (\<lambda>s. src_size s - tk_pos s)") auto

declare skip_block_comment.simps [simp del]

lemma skip_blank_moves: "tk_pos s \<le> tk_pos (skip_blank s) \<and> ds_input (skip_blank s) = ds_input s"
proof (induction s rule: skip_blank.induct)
  case (1 s)
  show ?case by (subst (1 2) skip_blank.simps) (use 1 in \<open>auto simp: Let_def\<close>)
qed

lemma skip_line_comment_moves: "tk_pos s \<le> tk_pos (skip_line_comment s) \<and> ds_input (skip_line_comment s) = ds_input s"
proof (induction s rule: skip_line_comment.induct)
  case (1 s)
  show ?case by (subst (1 2) skip_line_comment.simps) (use 1 in auto)
qed

lemma skip_block_comment_moves:
  "tk_pos s \<le> tk_pos (snd (skip_block_comment s)) \<and> ds_input (snd (skip_block_comment s)) = ds_input s"
proof (induction s rule: skip_block_comment.induct)
  case (1 s)
  show ?case by (subst (1 2) skip_block_comment.simps) (use 1 in auto)
qed

function skip_ws_loop :: "parse_mode \<Rightarrow> json_parser \<Rightarrow> json_parser" where
  "skip_ws_loop mode s =
     (let s = skip_blank s
      in if mode \<noteq> Json5 then s
         else if tk_pos s + 1 \<ge> src_size s \<or> src_at s (tk_pos s) \<noteq> CHR ''/'' then s
         else if src_at s (tk_pos s + 1) = CHR ''/'' then skip_ws_loop mode (skip_line_comment (adv 2 s))
         else if src_at s (tk_pos s + 1) = CHR ''*'' then
           (let r = skip_block_comment (adv 2 s)
            in if fst r then skip_ws_loop mode (snd r)
               else (snd r)\<lparr>tk_pos := src_size s, tk_unterminated := Some (tk_pos s, tk_line s, tk_col s)\<rparr>)
         else s)"
  by pat_completeness auto
termination
proof (relation "measure (\<lambda>(mode, s). src_size s - tk_pos s)", goal_cases)
  case (2 mode s s')
  then show ?case using skip_blank_moves [of s] skip_line_comment_moves [of "adv 2 s'"] by auto
next
  case (3 mode s s' r)
  then show ?case using skip_blank_moves [of s] skip_block_comment_moves [of "adv 2 s'"] by auto
qed simp

declare skip_ws_loop.simps [simp del]

definition skip_ws :: "parse_mode \<Rightarrow> json_parser \<Rightarrow> json_parser" where
  "skip_ws mode s = (if tk_unterminated s \<noteq> None then s else skip_ws_loop mode s)"

section \<open>Escapes and UTF-8\<close>

definition utf8_seq_len :: "nat \<Rightarrow> nat" where
  "utf8_seq_len lead =
     (if lead < 0x80 then 1 else if lead < 0xC2 then 0 else if lead < 0xE0 then 2
      else if lead < 0xF0 then 3 else if lead < 0xF5 then 4 else 0)"

definition is_cont :: "nat \<Rightarrow> bool" where
  "is_cont c \<longleftrightarrow> c AND 0xC0 = 0x80"

definition append_utf8 :: "nat \<Rightarrow> string \<Rightarrow> string" where
  "append_utf8 cp out =
     (if cp < 0x80 then out @ [of_byte cp]
      else if cp < 0x800 then out @ [of_byte (0xC0 OR drop_bit 6 cp), of_byte (0x80 OR (cp AND 0x3F))]
      else if cp < 0x10000
      then out @ [of_byte (0xE0 OR drop_bit 12 cp), of_byte (0x80 OR (drop_bit 6 cp AND 0x3F)), of_byte (0x80 OR (cp AND 0x3F))]
      else out @ [of_byte (0xF0 OR drop_bit 18 cp), of_byte (0x80 OR (drop_bit 12 cp AND 0x3F)),
                  of_byte (0x80 OR (drop_bit 6 cp AND 0x3F)), of_byte (0x80 OR (cp AND 0x3F))])"

definition utf8_encoded_len :: "nat \<Rightarrow> nat" where
  "utf8_encoded_len cp = (if cp < 0x80 then 1 else if cp < 0x800 then 2 else if cp < 0x10000 then 3 else 4)"

definition json_hex_digit :: "char \<Rightarrow> nat option" where
  "json_hex_digit c =
     (if char_between CHR ''0'' CHR ''9'' c then Some (byte c - 48)
      else if char_between CHR ''a'' CHR ''f'' c then Some (byte c - 97 + 10)
      else if char_between CHR ''A'' CHR ''F'' c then Some (byte c - 65 + 10)
      else None)"

definition json_hex_value :: "string \<Rightarrow> nat option" where
  "json_hex_value ds =
     foldl (\<lambda>acc c. case (acc, json_hex_digit c) of (Some v, Some d) \<Rightarrow> Some (push_bit 4 v OR d) | _ \<Rightarrow> None) (Some 0) ds"

definition hex4 :: "json_parser \<Rightarrow> nat option \<times> json_parser" where
  "hex4 s =
     (if tk_pos s + 4 > src_size s then (None, s)
      else case json_hex_value (substr (ds_input s) (tk_pos s) 4) of None \<Rightarrow> (None, s) | Some v \<Rightarrow> (Some v, adv 4 s))"

text \<open>What an escape stands for: one byte, or a code point to be encoded.\<close>

datatype json_escape = Esc_char char | Esc_cp nat

definition read_u_escape :: "json_parser \<Rightarrow> (json_error + json_escape) \<times> json_parser" where
  "read_u_escape s =
     (case hex4 s of
        (None, s) \<Rightarrow> (Inl (mk_err Invalid_unicode_escape (''invalid '' @ CHR 0x5C # ''uXXXX'') s), s)
      | (Some cp, s) \<Rightarrow>
          if cp \<ge> 0xD800 \<and> cp \<le> 0xDBFF then
            (if tk_pos s + 6 > src_size s \<or> src_at s (tk_pos s) \<noteq> CHR 0x5C \<or> src_at s (tk_pos s + 1) \<noteq> CHR ''u''
             then (Inl (mk_err Invalid_unicode_escape ''unpaired high surrogate'' s), s)
             else
               case hex4 (adv 2 s) of
                 (None, s) \<Rightarrow> (Inl (mk_err Invalid_unicode_escape ''invalid low surrogate'' s), s)
               | (Some lo, s) \<Rightarrow>
                   if lo < 0xDC00 \<or> lo > 0xDFFF
                   then (Inl (mk_err Invalid_unicode_escape ''invalid low surrogate'' s), s)
                   else (Inr (Esc_cp (0x10000 + push_bit 10 (cp - 0xD800) + (lo - 0xDC00))), s))
          else if cp \<ge> 0xDC00 \<and> cp \<le> 0xDFFF
          then (Inl (mk_err Invalid_unicode_escape ''lone low surrogate'' s), s)
          else (Inr (Esc_cp cp), s))"

definition simple_escape :: "char \<Rightarrow> char \<Rightarrow> char option" where
  "simple_escape quote c =
     (if c = CHR 0x27 \<and> quote = CHR 0x27 then Some (CHR 0x27)
      else if c = CHR 0x22 \<or> c = CHR 0x5C \<or> c = CHR ''/'' then Some c
      else if c = CHR ''b'' then Some (CHR 0x08)
      else if c = CHR ''f'' then Some (CHR 0x0C)
      else if c = CHR ''n'' then Some (CHR 0x0A)
      else if c = CHR ''r'' then Some (CHR 0x0D)
      else if c = CHR ''t'' then Some (CHR 0x09)
      else None)"

text \<open>The backslash has been consumed.\<close>

definition read_escape :: "char \<Rightarrow> json_parser \<Rightarrow> (json_error + json_escape) \<times> json_parser" where
  "read_escape quote s =
     (if tk_pos s \<ge> src_size s then (Inl (mk_err Unexpected_eof ''EOF in escape'' s), s)
      else
        let c = src_at s (tk_pos s)
        in case simple_escape quote c of
             Some d \<Rightarrow> (Inr (Esc_char d), adv 1 s)
           | None \<Rightarrow>
               if c = CHR ''u'' then read_u_escape (adv 1 s)
               else (Inl (mk_err Syntax_error ''invalid escape'' s), s))"

text \<open>The length of the UTF-8 sequence at the position, which is only checked for its shape.\<close>

definition utf8_unit :: "json_parser \<Rightarrow> json_error + nat" where
  "utf8_unit s =
     (let seq = utf8_seq_len (byte (src_at s (tk_pos s)))
      in if seq = 0 then Inl (mk_err Invalid_utf8 ''invalid UTF-8 std::byte'' s)
         else if tk_pos s + seq > src_size s then Inl (mk_err Invalid_utf8 ''truncated UTF-8'' s)
         else if \<not> list_all (\<lambda>k. is_cont (byte (src_at s (tk_pos s + k)))) [1..<seq]
         then Inl (mk_err Invalid_utf8 ''invalid UTF-8 continuation'' s)
         else Inr seq)"

definition next_unit :: "nat \<Rightarrow> json_parser \<Rightarrow> json_parser" where
  "next_unit seq s = s\<lparr>tk_pos := tk_pos s + seq, tk_col := tk_col s + 1\<rparr>"

lemma next_unit_fields [simp]:
  "tk_pos (next_unit n s) = tk_pos s + n" "ds_input (next_unit n s) = ds_input s" "ds_arena (next_unit n s) = ds_arena s"
  by (simp_all add: next_unit_def)

lemma hex4_moves: "tk_pos s \<le> tk_pos (snd (hex4 s)) \<and> ds_input (snd (hex4 s)) = ds_input s"
  by (auto simp: hex4_def split: option.splits)

lemma read_u_escape_moves: "tk_pos s \<le> tk_pos (snd (read_u_escape s)) \<and> ds_input (snd (read_u_escape s)) = ds_input s"
  using hex4_moves [of s] hex4_moves [of "adv 2 (snd (hex4 s))"]
  by (auto simp: read_u_escape_def split: prod.splits option.splits)

lemma read_escape_moves: "tk_pos s \<le> tk_pos (snd (read_escape q s)) \<and> ds_input (snd (read_escape q s)) = ds_input s"
  using read_u_escape_moves [of "adv 1 s"] by (auto simp: read_escape_def Let_def split: option.splits)

lemma utf8_unit_pos: "utf8_unit s = Inr n \<Longrightarrow> 0 < n"
  by (auto simp: utf8_unit_def Let_def split: if_splits)

section \<open>Strings\<close>

record parsed_str =
  pt_off :: nat
  pt_len :: nat
  pt_flags :: nat

definition escape_bytes :: "json_escape \<Rightarrow> string \<Rightarrow> string" where
  "escape_bytes e out = (case e of Esc_char c \<Rightarrow> out @ [c] | Esc_cp cp \<Rightarrow> append_utf8 cp out)"

definition escape_len :: "json_escape \<Rightarrow> nat" where
  "escape_len e = (case e of Esc_char c \<Rightarrow> 1 | Esc_cp cp \<Rightarrow> utf8_encoded_len cp)"

function decode_str :: "char \<Rightarrow> nat \<Rightarrow> json_parser \<Rightarrow> (json_error + parsed_str) \<times> json_parser" where
  "decode_str quote arena_off s =
     (if tk_pos s < src_size s then
        (let c = src_at s (tk_pos s)
         in if c = quote then
              (Inr \<lparr>pt_off = u32_of arena_off, pt_len = u32_of (length (ds_arena s) - arena_off), pt_flags = 0\<rparr>, adv 1 s)
            else if byte c < 0x20 then (Inl (mk_err Syntax_error ''unescaped control character'' s), s)
            else if c = CHR 0x5C then
              (let r = read_escape quote (adv 1 s)
               in case fst r of
                    Inl e \<Rightarrow> (Inl e, snd r)
                  | Inr esc \<Rightarrow> decode_str quote arena_off ((snd r)\<lparr>ds_arena := escape_bytes esc (ds_arena (snd r))\<rparr>))
            else
              case utf8_unit s of
                Inl e \<Rightarrow> (Inl e, s)
              | Inr seq \<Rightarrow>
                  decode_str quote arena_off
                    (next_unit seq (s\<lparr>ds_arena := ds_arena s @ substr (ds_input s) (tk_pos s) seq\<rparr>)))
      else (Inl (mk_err Unexpected_eof ''EOF in string'' s), s))"
  by pat_completeness auto
termination
proof (relation "measure (\<lambda>(quote, arena_off, s). src_size s - tk_pos s)", goal_cases)
  case (2 quote arena_off s c r esc)
  then show ?case using read_escape_moves [of "adv 1 s" quote] by auto
next
  case (3 quote arena_off s c seq)
  then show ?case using utf8_unit_pos [of s seq] by auto
qed simp

declare decode_str.simps [simp del]

definition parse_str_decode_tail :: "nat \<Rightarrow> json_parser \<Rightarrow> (json_error + parsed_str) \<times> json_parser" where
  "parse_str_decode_tail arena_off s = decode_str (CHR 0x22) arena_off s"

definition parse_str_body_sq :: "json_parser \<Rightarrow> (json_error + parsed_str) \<times> json_parser" where
  "parse_str_body_sq s = decode_str (CHR 0x27) (length (ds_arena s)) s"

text \<open>The scan over plain bytes.\<close>

definition json_special :: "char \<Rightarrow> bool" where
  "json_special c \<longleftrightarrow> c = CHR 0x22 \<or> c = CHR 0x5C \<or> byte c < 0x20 \<or> byte c \<ge> 0x80"

definition special_bad :: "u64 \<Rightarrow> u64" where
  "special_bad w =
     (let zero_byte_mask = (\<lambda>x. (x - kOnes) AND NOT x AND kMsb);
          quote_or_backslash = zero_byte_mask (w XOR kQuote) OR zero_byte_mask (w XOR kBackslash);
          control = (w - kSpace) AND NOT w AND kMsb;
          high_ascii = w AND kMsb
      in quote_or_backslash OR control OR high_ascii)"

function special_tail :: "string \<Rightarrow> nat \<Rightarrow> nat" where
  "special_tail p i =
     (if i < length p then (if json_special (p ! i) then i else special_tail p (i + 1)) else i)"
  by pat_completeness auto
termination by (relation "measure (\<lambda>(p, i). length p - i)") auto

declare special_tail.simps [simp del]

function special_scan :: "string \<Rightarrow> nat \<Rightarrow> nat" where
  "special_scan p i =
     (if i + 8 \<le> length p then
        (let bad = special_bad (le_word (substr p i 8))
         in if bad \<noteq> 0 then i + drop_bit 3 (countr_zero bad) else special_scan p (i + 8))
      else special_tail p i)"
  by pat_completeness auto
termination by (relation "measure (\<lambda>(p, i). length p - i)") auto

declare special_scan.simps [simp del]

definition scan_str_until_special :: "string \<Rightarrow> nat" where
  "scan_str_until_special p = special_scan p 0"

lemma special_bad_eq: "special_bad w = swar_bad w OR (w AND kMsb)"
  by (simp add: special_bad_def swar_bad_def Let_def or.assoc)

lemma json_special_eq: "json_special c \<longleftrightarrow> json_needs_escape c \<or> 128 \<le> byte c"
  by (auto simp: json_special_def json_needs_escape_def)

interpretation str_scan: word_scan special_bad json_special
proof
  fix n c w
  show "bit (special_bad (of_nat (byte c) + 256 * w)) n \<longleftrightarrow> n = 7 \<and> json_special c" if "n < 8"
    using swar_low [OF that, of c w] that
    by (auto simp: special_bad_eq json_special_eq bit_or_iff bit_and_iff bit_kMsb bit_low_byte bit_7)
  show "bit (special_bad (of_nat (byte c) + 256 * w)) n \<longleftrightarrow> bit (special_bad w) (n - 8)"
    if "8 \<le> n" "n < 64" "\<not> json_special c"
    using swar_high [OF that(1,2), of c w] that
    by (auto simp: special_bad_eq json_special_eq bit_or_iff bit_and_iff bit_kMsb bit_low_byte le_mod_geq)
qed

lemma special_tail_eq: "i \<le> length p \<Longrightarrow> special_tail p i = i + run_of json_special (drop i p)"
proof (induction p i rule: special_tail.induct)
  case (1 p i)
  then show ?case by (subst special_tail.simps) (auto simp: Cons_nth_drop_Suc [symmetric])
qed

lemma scan_str_until_special_eq: "scan_str_until_special p = run_of json_special p"
  using str_scan.scan_eq [OF special_scan.simps special_tail_eq, of p 0] by (simp add: scan_str_until_special_def)

function str_body_loop :: "nat \<Rightarrow> json_parser \<Rightarrow> (json_error + parsed_str) \<times> json_parser" where
  "str_body_loop start_pos s =
     (if tk_pos s < src_size s then
        (let s = adv (scan_str_until_special (drop (tk_pos s) (ds_input s))) s
         in if tk_pos s \<ge> src_size s then (Inl (mk_err Unexpected_eof ''EOF in string'' s), s)
            else
              let c = src_at s (tk_pos s)
              in if c = CHR 0x22 then
                   (Inr \<lparr>pt_off = u32_of start_pos, pt_len = u32_of (tk_pos s - start_pos),
                         pt_flags = kStorageInputView OR kRawJsonSlice\<rparr>, adv 1 s)
                 else if byte c < 0x20 then (Inl (mk_err Syntax_error ''unescaped control character'' s), s)
                 else if c = CHR 0x5C then
                   parse_str_decode_tail (length (ds_arena s))
                     (s\<lparr>ds_arena := ds_arena s @ substr (ds_input s) start_pos (tk_pos s - start_pos)\<rparr>)
                 else
                   case utf8_unit s of
                     Inl e \<Rightarrow> (Inl e, s)
                   | Inr seq \<Rightarrow> str_body_loop start_pos (next_unit seq s))
      else (Inl (mk_err Unexpected_eof ''EOF in string'' s), s))"
  by pat_completeness auto
termination
proof (relation "measure (\<lambda>(start_pos, s). src_size s - tk_pos s)", goal_cases)
  case (2 start_pos s s' c seq)
  then show ?case using utf8_unit_pos [of s' seq] by auto
qed simp

declare str_body_loop.simps [simp del]

definition parse_str_body :: "json_parser \<Rightarrow> (json_error + parsed_str) \<times> json_parser" where
  "parse_str_body s = str_body_loop (tk_pos s) s"

function skip_str_loop :: "char \<Rightarrow> nat \<Rightarrow> json_parser \<Rightarrow> (json_error + nat) \<times> json_parser" where
  "skip_str_loop quote decoded_len s =
     (if tk_pos s < src_size s then
        (let c = src_at s (tk_pos s)
         in if c = quote then (Inr (u32_of decoded_len), adv 1 s)
            else if byte c < 0x20 then (Inl (mk_err Syntax_error ''unescaped control character'' s), s)
            else if c = CHR 0x5C then
              (let r = read_escape quote (adv 1 s)
               in case fst r of
                    Inl e \<Rightarrow> (Inl e, snd r)
                  | Inr esc \<Rightarrow> skip_str_loop quote (decoded_len + escape_len esc) (snd r))
            else
              case utf8_unit s of
                Inl e \<Rightarrow> (Inl e, s)
              | Inr seq \<Rightarrow> skip_str_loop quote (decoded_len + seq) (next_unit seq s))
      else (Inl (mk_err Unexpected_eof ''EOF in string'' s), s))"
  by pat_completeness auto
termination
proof (relation "measure (\<lambda>(quote, n, s). src_size s - tk_pos s)", goal_cases)
  case (2 quote n s c r esc)
  then show ?case using read_escape_moves [of "adv 1 s" quote] by auto
next
  case (3 quote n s c seq)
  then show ?case using utf8_unit_pos [of s seq] by auto
qed simp

declare skip_str_loop.simps [simp del]

definition skip_str_body_no_store :: "char \<Rightarrow> json_parser \<Rightarrow> (json_error + nat) \<times> json_parser" where
  "skip_str_body_no_store quote s = skip_str_loop quote 0 s"

section \<open>Keys and numbers\<close>

definition key_start :: "char \<Rightarrow> bool" where
  "key_start c \<longleftrightarrow>
     char_between CHR ''A'' CHR ''Z'' c \<or> char_between CHR ''a'' CHR ''z'' c \<or> c = CHR ''_'' \<or> c = CHR ''$''"

definition key_part :: "char \<Rightarrow> bool" where
  "key_part c \<longleftrightarrow> key_start c \<or> char_between CHR ''0'' CHR ''9'' c"

definition parse_unquoted_key :: "json_parser \<Rightarrow> (json_error + parsed_str) \<times> json_parser" where
  "parse_unquoted_key s =
     (if \<not> key_start (src_at s (tk_pos s))
      then (Inl (mk_err Syntax_error ''std::expected string key or identifier'' s), s)
      else
        let n = 1 + length (takeWhile key_part (drop (tk_pos s + 1) (ds_input s)))
        in (Inr \<lparr>pt_off = u32_of (tk_pos s), pt_len = u32_of n, pt_flags = kStorageInputView OR kRawJsonSlice\<rparr>, adv n s))"

definition at_digit :: "json_parser \<Rightarrow> bool" where
  "at_digit s \<longleftrightarrow> tk_pos s < src_size s \<and> is_digit (src_at s (tk_pos s))"

definition at_char :: "char list \<Rightarrow> json_parser \<Rightarrow> bool" where
  "at_char cs s \<longleftrightarrow> tk_pos s < src_size s \<and> src_at s (tk_pos s) \<in> set cs"

definition adv_digits :: "json_parser \<Rightarrow> json_parser" where
  "adv_digits s = adv (length (takeWhile is_digit (drop (tk_pos s) (ds_input s)))) s"

definition number_integer :: "json_parser \<Rightarrow> (json_error + unit) \<times> json_parser" where
  "number_integer s =
     (let s = (if src_at s (tk_pos s) = CHR ''-'' then adv 1 s else s)
      in if \<not> at_digit s then (Inl (mk_err Syntax_error ''digit required after sign'' s), s)
         else
           let starts_zero = (src_at s (tk_pos s) = CHR ''0''); s = adv 1 s
           in if starts_zero \<and> at_digit s then (Inl (mk_err Syntax_error ''leading zeros forbidden'' s), s)
              else (Inr (), adv_digits s))"

text \<open>The two optional parts; the flag says whether the part was there.\<close>

definition number_fraction :: "json_parser \<Rightarrow> (json_error + bool) \<times> json_parser" where
  "number_fraction s =
     (if at_char ''.'' s then
        (let s = adv 1 s
         in if \<not> at_digit s then (Inl (mk_err Syntax_error (''digit required after '' @ [CHR 0x27, CHR ''.'', CHR 0x27]) s), s)
            else (Inr True, adv_digits s))
      else (Inr False, s))"

definition number_exponent :: "json_parser \<Rightarrow> (json_error + bool) \<times> json_parser" where
  "number_exponent s =
     (if at_char ''eE'' s then
        (let s = adv 1 s; s = (if at_char ''+-'' s then adv 1 s else s)
         in if \<not> at_digit s then (Inl (mk_err Syntax_error ''digit required in exponent'' s), s)
            else (Inr True, adv_digits s))
      else (Inr False, s))"

text \<open>The lexeme and whether it has integer form.\<close>

definition parse_number_lexeme :: "json_parser \<Rightarrow> (json_error + string \<times> bool) \<times> json_parser" where
  "parse_number_lexeme s0 =
     (case number_integer s0 of
        (Inl e, s) \<Rightarrow> (Inl e, s)
      | (Inr _, s) \<Rightarrow>
          (case number_fraction s of
             (Inl e, s) \<Rightarrow> (Inl e, s)
           | (Inr frac, s) \<Rightarrow>
               (case number_exponent s of
                  (Inl e, s) \<Rightarrow> (Inl e, s)
                | (Inr expo, s) \<Rightarrow>
                    if tk_pos s - tk_pos s0 > kMaxNumberLexemeLen
                    then (Inl (mk_err Invalid_number ''number lexeme exceeds maximum length'' s), s)
                    else (Inr (substr (ds_input s) (tk_pos s0) (tk_pos s - tk_pos s0), \<not> frac \<and> \<not> expo), s))))"

section \<open>The position only moves forward\<close>

definition fwd :: "json_parser \<Rightarrow> json_parser \<Rightarrow> bool" where
  "fwd s s' \<longleftrightarrow> ds_input s' = ds_input s \<and> tk_pos s \<le> tk_pos s'"

lemma fwd_refl [simp]: "fwd s s"
  by (simp add: fwd_def)

lemma fwd_trans: "fwd s s' \<Longrightarrow> fwd s' s'' \<Longrightarrow> fwd s s''"
  by (simp add: fwd_def)

lemma fwd_adv [simp]: "fwd s (adv n s)" "fwd s (newline s)" "fwd s (next_unit n s)" "fwd s (s\<lparr>ds_arena := a\<rparr>)"
  by (simp_all add: fwd_def)

lemma fwd_adv_digits [simp]: "fwd s (adv_digits s)"
  by (simp add: adv_digits_def)

lemma fwd_skip_ws_loop: "fwd s (skip_ws_loop mode s)"
proof (induction mode s rule: skip_ws_loop.induct)
  case (1 mode s)
  let ?s = "skip_blank s"
  have b: "fwd s ?s" using skip_blank_moves [of s] by (simp add: fwd_def)
  have l: "fwd ?s (skip_line_comment (adv 2 ?s))" using skip_line_comment_moves [of "adv 2 ?s"] by (simp add: fwd_def)
  have k: "fwd ?s (snd (skip_block_comment (adv 2 ?s)))" using skip_block_comment_moves [of "adv 2 ?s"] by (simp add: fwd_def)
  have u: "tk_pos ?s + 1 < src_size ?s \<Longrightarrow> fwd s ((snd (skip_block_comment (adv 2 ?s)))\<lparr>tk_pos := src_size ?s, tk_unterminated := x\<rparr>)" for x
    using b k by (auto simp: fwd_def)
  let ?stop = "src_size ?s \<le> tk_pos ?s + 1 \<or> src_at ?s (tk_pos ?s) \<noteq> CHR ''/''"
  have IH1: "fwd s (skip_ws_loop mode (skip_line_comment (adv 2 ?s)))"
    if "\<not> mode \<noteq> Json5" "\<not> ?stop" "src_at ?s (tk_pos ?s + 1) = CHR ''/''"
    using fwd_trans [OF fwd_trans [OF b l] "1.IH"(1) [OF refl that]] .
  have IH2: "fwd s (skip_ws_loop mode (snd (skip_block_comment (adv 2 ?s))))"
    if "\<not> mode \<noteq> Json5" "\<not> ?stop" "src_at ?s (tk_pos ?s + 1) \<noteq> CHR ''/''" "src_at ?s (tk_pos ?s + 1) = CHR ''*''"
      "fst (skip_block_comment (adv 2 ?s))"
    using fwd_trans [OF fwd_trans [OF b k] "1.IH"(2) [OF refl that(1-4) refl that(5)]] .
  show ?case
    by (subst skip_ws_loop.simps) (use b u IH1 IH2 in \<open>auto simp: Let_def\<close>)
qed

lemma fwd_skip_ws: "fwd s (skip_ws mode s)"
  by (simp add: skip_ws_def fwd_skip_ws_loop)

lemma fwd_read_escape: "fwd s (snd (read_escape q s))"
  using read_escape_moves [of s q] by (simp add: fwd_def)

lemma fwd_decode_str: "fwd s (snd (decode_str q a s))"
proof (induction q a s rule: decode_str.induct)
  case (1 q a s)
  let ?r = "read_escape q (adv 1 s)"
  have r: "fwd s (snd ?r)" using fwd_read_escape [of "adv 1 s" q] by (rule fwd_trans [OF fwd_adv(1)])
  have IH1: "fwd s (snd (decode_str q a ((snd ?r)\<lparr>ds_arena := escape_bytes esc (ds_arena (snd ?r))\<rparr>)))"
    if "tk_pos s < src_size s" "src_at s (tk_pos s) \<noteq> q" "\<not> byte (src_at s (tk_pos s)) < 32"
      "src_at s (tk_pos s) = CHR 0x5C" "fst ?r = Inr esc" for esc
    using fwd_trans [OF fwd_trans [OF r fwd_adv(4)] "1.IH"(1) [OF that(1) refl that(2-4) refl that(5)]] .
  have IH2: "fwd s (snd (decode_str q a (next_unit seq (s\<lparr>ds_arena := ds_arena s @ substr (ds_input s) (tk_pos s) seq\<rparr>))))"
    if "tk_pos s < src_size s" "src_at s (tk_pos s) \<noteq> q" "\<not> byte (src_at s (tk_pos s)) < 32"
      "src_at s (tk_pos s) \<noteq> CHR 0x5C" "utf8_unit s = Inr seq" for seq
    using fwd_trans [OF fwd_trans [OF fwd_adv(4) fwd_adv(3)] "1.IH"(2) [OF that(1) refl that(2-5)]] .
  show ?case
    by (subst decode_str.simps) (use r IH1 IH2 in \<open>auto simp: Let_def split: sum.splits\<close>)
qed

lemma fwd_skip_str_loop: "fwd s (snd (skip_str_loop q n s))"
proof (induction q n s rule: skip_str_loop.induct)
  case (1 q n s)
  let ?r = "read_escape q (adv 1 s)"
  have r: "fwd s (snd ?r)" using fwd_read_escape [of "adv 1 s" q] by (rule fwd_trans [OF fwd_adv(1)])
  have IH1: "fwd s (snd (skip_str_loop q (n + escape_len esc) (snd ?r)))"
    if "tk_pos s < src_size s" "src_at s (tk_pos s) \<noteq> q" "\<not> byte (src_at s (tk_pos s)) < 32"
      "src_at s (tk_pos s) = CHR 0x5C" "fst ?r = Inr esc" for esc
    using fwd_trans [OF r "1.IH"(1) [OF that(1) refl that(2-4) refl that(5)]] .
  have IH2: "fwd s (snd (skip_str_loop q (n + seq) (next_unit seq s)))"
    if "tk_pos s < src_size s" "src_at s (tk_pos s) \<noteq> q" "\<not> byte (src_at s (tk_pos s)) < 32"
      "src_at s (tk_pos s) \<noteq> CHR 0x5C" "utf8_unit s = Inr seq" for seq
    using fwd_trans [OF fwd_adv(3) "1.IH"(2) [OF that(1) refl that(2-5)]] .
  show ?case
    by (subst skip_str_loop.simps) (use r IH1 IH2 in \<open>auto simp: Let_def split: sum.splits\<close>)
qed

lemma fwd_str_body_loop: "fwd s (snd (str_body_loop p s))"
proof (induction p s rule: str_body_loop.induct)
  case (1 p s)
  let ?s = "adv (scan_str_until_special (drop (tk_pos s) (ds_input s))) s"
  have IH: "fwd s (snd (str_body_loop p (next_unit seq ?s)))"
    if "tk_pos s < src_size s" "\<not> src_size ?s \<le> tk_pos ?s" "src_at ?s (tk_pos ?s) \<noteq> CHR 0x22"
      "\<not> byte (src_at ?s (tk_pos ?s)) < 32" "src_at ?s (tk_pos ?s) \<noteq> CHR 0x5C" "utf8_unit ?s = Inr seq" for seq
    using fwd_trans [OF fwd_trans [OF fwd_adv(1) fwd_adv(3)] "1.IH" [OF that(1) refl that(2) refl that(3-6)]] .
  have d: "fwd s (snd (decode_str q a (?s\<lparr>ds_arena := x\<rparr>)))" for q a x
    by (rule fwd_trans [OF fwd_trans [OF fwd_adv(1) fwd_adv(4)] fwd_decode_str])
  show ?case
    by (subst str_body_loop.simps) (use IH d in \<open>auto simp: Let_def parse_str_decode_tail_def fwd_def split: sum.splits\<close>)
qed

lemma fwd_strings:
  "fwd s (snd (parse_str_body s))" "fwd s (snd (parse_str_body_sq s))" "fwd s (snd (skip_str_body_no_store q s))"
  "fwd s (snd (parse_unquoted_key s))"
  by (simp_all add: parse_str_body_def fwd_str_body_loop parse_str_body_sq_def fwd_decode_str
      skip_str_body_no_store_def fwd_skip_str_loop parse_unquoted_key_def Let_def)

lemma fwd_number: "fwd s (snd (parse_number_lexeme s))"
proof -
  have i: "fwd s (snd (number_integer s))" for s
    by (auto simp: number_integer_def Let_def fwd_def adv_digits_def)
  have f: "fwd s (snd (number_fraction s))" "fwd s (snd (number_exponent s))" for s
    by (auto simp: number_fraction_def number_exponent_def Let_def fwd_def adv_digits_def)
  show ?thesis
    using i [of s] f(1) [of "snd (number_integer s)"] f(2) [of "snd (number_fraction (snd (number_integer s)))"]
    by (auto simp: parse_number_lexeme_def fwd_def split: prod.splits sum.splits)
qed

text \<open>A number takes at least one character.\<close>

lemma number_progress:
  assumes "parse_number_lexeme s = (Inr x, s')"
  shows "tk_pos s < tk_pos s'"
proof -
  have i: "tk_pos s < tk_pos t" if "number_integer s = (Inr u, t)" for u t
    using that by (auto simp: number_integer_def Let_def adv_digits_def split: if_splits)
  have f: "fwd s (snd (number_fraction s))" "fwd s (snd (number_exponent s))" for s
    by (auto simp: number_fraction_def number_exponent_def Let_def fwd_def adv_digits_def)
  obtain u t where t: "number_integer s = (Inr u, t)"
    using assms by (auto simp: parse_number_lexeme_def split: prod.splits sum.splits)
  obtain v t' where t': "number_fraction t = (Inr v, t')"
    using assms t by (auto simp: parse_number_lexeme_def split: prod.splits sum.splits)
  have "s' = snd (number_exponent t')"
    using assms t t' by (auto simp: parse_number_lexeme_def split: prod.splits sum.splits if_splits)
  with i [OF t] f(1) [of t] f(2) [of t'] t' show ?thesis by (simp add: fwd_def)
qed

end
