(* ===== verification/Simd.thy ===== *)
theory Simd
  imports Json_Tokenizer Web_Socket
begin

text \<open>
  The vector variants of the byte scans and byte maps, and the choice between them:
  \<open>json_simd_intrinsics.cxx\<close>, \<open>json_simd_stdx.cxx\<close>, \<open>json_simd_std26.cxx\<close>, \<open>json_simd_ifunc.cxx\<close>,
  \<open>simd_stdx.cxx\<close>, \<open>simd_std26.cxx\<close>, and the branches on the build in \<open>json_api.cxx\<close> and \<open>json_dump.cxx\<close>.
  A vector register is the list of its lanes; the number of lanes of the portable vectors, which the
  target decides, is an argument. All variants are shown to compute what the byte loops compute.
\<close>

unbundle bit_operations_syntax

section \<open>Vectors\<close>

type_synonym lane = "8 word"

definition load :: "string \<Rightarrow> lane list" where
  "load p = map (\<lambda>c. of_nat (byte c)) p"

definition set1_epi8 :: "nat \<Rightarrow> lane \<Rightarrow> lane list" where
  "set1_epi8 n x = replicate n x"

definition lane_mask :: "bool \<Rightarrow> lane" where
  "lane_mask b = (if b then -1 else 0)"

definition cmpeq_epi8 :: "lane list \<Rightarrow> lane list \<Rightarrow> lane list" where
  "cmpeq_epi8 a b = map2 (\<lambda>x y. lane_mask (x = y)) a b"

definition cmpgt_epi8 :: "lane list \<Rightarrow> lane list \<Rightarrow> lane list" where
  "cmpgt_epi8 a b = map2 (\<lambda>x y. lane_mask (sint y < sint x)) a b"

definition cmplt_epi8 :: "lane list \<Rightarrow> lane list \<Rightarrow> lane list" where
  "cmplt_epi8 a b = map2 (\<lambda>x y. lane_mask (sint x < sint y)) a b"

definition min_epu8 :: "lane list \<Rightarrow> lane list \<Rightarrow> lane list" where
  "min_epu8 a b = map2 (\<lambda>x y. if y < x then y else x) a b"

definition or_si :: "lane list \<Rightarrow> lane list \<Rightarrow> lane list" where
  "or_si a b = map2 (\<lambda>x y. x OR y) a b"

definition movemask_epi8 :: "lane list \<Rightarrow> nat" where
  "movemask_epi8 v = horner_sum of_bool 2 (map (\<lambda>x. bit x 7) v)"

fun builtin_ctz :: "nat \<Rightarrow> nat" where
  "builtin_ctz n = (if n = 0 \<or> odd n then 0 else Suc (builtin_ctz (n div 2)))"

declare builtin_ctz.simps [simp del]

definition mask_first :: "lane list \<Rightarrow> nat option" where
  "mask_first mix = (let mask = movemask_epi8 mix in if mask \<noteq> 0 then Some (builtin_ctz mask) else None)"

text \<open>The masks of the portable vectors.\<close>

definition any_first :: "bool list \<Rightarrow> nat option" where
  "any_first m = (if list_ex id m then Some (length (takeWhile Not m)) else None)"

text \<open>A loop over whole vectors that ends at the first hit, and the loop over the bytes that are left.\<close>

function vector_scan :: "nat \<Rightarrow> (string \<Rightarrow> nat option) \<Rightarrow> (string \<Rightarrow> nat \<Rightarrow> nat) \<Rightarrow> string \<Rightarrow> nat \<Rightarrow> nat" where
  "vector_scan w first tail p i =
     (if 0 < w \<and> i + w \<le> length p then
        (case first (substr p i w) of Some k \<Rightarrow> i + k | None \<Rightarrow> vector_scan w first tail p (i + w))
      else tail p i)"
  by pat_completeness auto
termination by (relation "measure (\<lambda>(w, first, tail, p, i). length p - i)") auto

declare vector_scan.simps [simp del]

definition vector_once :: "nat \<Rightarrow> (string \<Rightarrow> nat option) \<Rightarrow> (string \<Rightarrow> nat \<Rightarrow> nat) \<Rightarrow> string \<Rightarrow> nat \<Rightarrow> nat" where
  "vector_once w first tail p i =
     (if i + w \<le> length p then (case first (substr p i w) of Some k \<Rightarrow> i + k | None \<Rightarrow> tail p (i + w)) else tail p i)"

section \<open>Scans of JSON strings\<close>

definition dump_special :: "bool \<Rightarrow> char \<Rightarrow> bool" where
  "dump_special ascii_only c \<longleftrightarrow> c = CHR 0x22 \<or> c = CHR 0x5C \<or> byte c < 0x20 \<or> ascii_only \<and> byte c \<ge> 0x80"

function dump_tail :: "bool \<Rightarrow> string \<Rightarrow> nat \<Rightarrow> nat" where
  "dump_tail ascii_only p i =
     (if i < length p then (if dump_special ascii_only (p ! i) then i else dump_tail ascii_only p (i + 1)) else i)"
  by pat_completeness auto
termination by (relation "measure (\<lambda>(ascii_only, p, i). length p - i)") auto

declare dump_tail.simps [simp del]

text \<open>The scan by words from an offset on.\<close>

definition swar_rest :: "string \<Rightarrow> nat \<Rightarrow> nat" where
  "swar_rest p i = i + scan_str_until_special (drop i p)"

text \<open>One register of the intrinsics.\<close>

definition sse2_str_first :: "string \<Rightarrow> nat option" where
  "sse2_str_first p =
     (let v = load p;
          eq_q = cmpeq_epi8 v (set1_epi8 (length p) 0x22);
          eq_b = cmpeq_epi8 v (set1_epi8 (length p) 0x5C);
          lt_lim = cmplt_epi8 v (set1_epi8 (length p) 0x20)
      in mask_first (or_si (or_si eq_q eq_b) lt_lim))"

definition avx2_str_first :: "string \<Rightarrow> nat option" where
  "avx2_str_first p =
     (let v = load p;
          eq_q = cmpeq_epi8 v (set1_epi8 (length p) 0x22);
          eq_b = cmpeq_epi8 v (set1_epi8 (length p) 0x5C);
          lt_l = cmpgt_epi8 (set1_epi8 (length p) 0x20) v
      in mask_first (or_si (or_si eq_q eq_b) lt_l))"

definition sse2_dump_first :: "bool \<Rightarrow> string \<Rightarrow> nat option" where
  "sse2_dump_first ascii_only p =
     (let v = load p;
          eq_q = cmpeq_epi8 v (set1_epi8 (length p) 0x22);
          eq_b = cmpeq_epi8 v (set1_epi8 (length p) 0x5C);
          mix = or_si eq_q eq_b
      in if ascii_only then mask_first (or_si mix (cmplt_epi8 v (set1_epi8 (length p) 0x20)))
         else mask_first (or_si mix (cmpeq_epi8 (min_epu8 v (set1_epi8 (length p) 0x1F)) v)))"

definition avx2_dump_first :: "bool \<Rightarrow> string \<Rightarrow> nat option" where
  "avx2_dump_first ascii_only p =
     (let v = load p;
          eq_q = cmpeq_epi8 v (set1_epi8 (length p) 0x22);
          eq_b = cmpeq_epi8 v (set1_epi8 (length p) 0x5C);
          mix = or_si eq_q eq_b
      in if ascii_only then mask_first (or_si mix (cmpgt_epi8 (set1_epi8 (length p) 0x20) v))
         else mask_first (or_si mix (cmpeq_epi8 (min_epu8 v (set1_epi8 (length p) 0x1F)) v)))"

definition scan_str_until_special_intrin :: "bool \<Rightarrow> string \<Rightarrow> nat" where
  "scan_str_until_special_intrin avx2 p =
     (let sse2 = vector_scan 16 sse2_str_first special_tail
      in if avx2 then vector_scan 32 avx2_str_first sse2 p 0 else sse2 p 0)"

definition scan_dump_safe_run_intrin :: "bool \<Rightarrow> string \<Rightarrow> bool \<Rightarrow> nat" where
  "scan_dump_safe_run_intrin avx2 p ascii_only =
     (let sse2 = vector_scan 16 (sse2_dump_first ascii_only) (dump_tail ascii_only)
      in if avx2 then vector_scan 32 (avx2_dump_first ascii_only) sse2 p 0 else sse2 p 0)"

text \<open>One portable vector of signed characters.\<close>

definition std_str_first :: "string \<Rightarrow> nat option" where
  "std_str_first p = any_first (map (\<lambda>v. v = 0x22 \<or> v = 0x5C \<or> sint v < 0x20) (load p))"

definition std_dump_first :: "bool \<Rightarrow> string \<Rightarrow> nat option" where
  "std_dump_first ascii_only p =
     any_first (map (\<lambda>v. v = 0x22 \<or> v = 0x5C \<or> (if ascii_only then sint v < 0x20 else sint v \<ge> 0 \<and> sint v < 0x20)) (load p))"

definition scan_str_until_special_stdsimd :: "nat \<Rightarrow> string \<Rightarrow> nat" where
  "scan_str_until_special_stdsimd w p = vector_scan w std_str_first special_tail p 0"

definition scan_dump_safe_run_stdsimd :: "nat \<Rightarrow> string \<Rightarrow> bool \<Rightarrow> nat" where
  "scan_dump_safe_run_stdsimd w p ascii_only = vector_scan w (std_dump_first ascii_only) (dump_tail ascii_only) p 0"

definition scan_str_until_special_std26 :: "nat \<Rightarrow> string \<Rightarrow> nat" where
  "scan_str_until_special_std26 w p = vector_scan w std_str_first special_tail p 0"

definition scan_dump_safe_run_std26 :: "nat \<Rightarrow> string \<Rightarrow> bool \<Rightarrow> nat" where
  "scan_dump_safe_run_std26 w p ascii_only =
     (let impl = (\<lambda>AsciiOnly. vector_scan w (std_dump_first AsciiOnly) (dump_tail AsciiOnly) p 0)
      in if ascii_only then impl True else impl False)"

definition scan_str_until_special_scalar :: "string \<Rightarrow> nat" where
  "scan_str_until_special_scalar p = special_tail p 0"

definition scan_dump_safe_run_scalar :: "string \<Rightarrow> bool \<Rightarrow> nat" where
  "scan_dump_safe_run_scalar p ascii_only = dump_tail ascii_only p 0"

text \<open>What the resolver of the indirect functions returns, from the variable of the environment and the processor.\<close>

datatype simd_target = Target_avx2 | Target_sse2 | Target_scalar

definition resolve_target :: "string option \<Rightarrow> bool \<Rightarrow> bool \<Rightarrow> bool \<Rightarrow> simd_target" where
  "resolve_target forced cpu_avx2 x86_64 cpu_sse2 =
     (if forced = Some ''avx2'' then Target_avx2
      else if forced = Some ''sse2'' then Target_sse2
      else if forced = Some ''scalar'' then Target_scalar
      else if cpu_avx2 then Target_avx2
      else if x86_64 then Target_sse2
      else if cpu_sse2 then Target_sse2
      else Target_scalar)"

definition resolve_scan_str :: "simd_target \<Rightarrow> string \<Rightarrow> nat" where
  "resolve_scan_str t =
     (case t of Target_avx2 \<Rightarrow> scan_str_until_special_stdsimd 32
      | Target_sse2 \<Rightarrow> scan_str_until_special_stdsimd 16
      | Target_scalar \<Rightarrow> scan_str_until_special_scalar)"

definition resolve_scan_dump :: "simd_target \<Rightarrow> string \<Rightarrow> bool \<Rightarrow> nat" where
  "resolve_scan_dump t =
     (case t of Target_avx2 \<Rightarrow> scan_dump_safe_run_stdsimd 32
      | Target_sse2 \<Rightarrow> scan_dump_safe_run_stdsimd 16
      | Target_scalar \<Rightarrow> scan_dump_safe_run_scalar)"

text \<open>
  The builds: portable vectors of some width, linked directly, or used when the processor has AVX2, or
  chosen by the resolver; the intrinsics; none.
\<close>

datatype simd_build =
    Build_direct nat | Build_runtime nat bool | Build_ifunc simd_target | Build_avx2 | Build_sse2 | Build_none

definition scan_str_until_special_of :: "simd_build \<Rightarrow> string \<Rightarrow> nat" where
  "scan_str_until_special_of build p =
     (case build of
        Build_direct w \<Rightarrow> if length p \<ge> 96 then scan_str_until_special_stdsimd w p else swar_rest p 0
      | Build_ifunc t \<Rightarrow> if length p \<ge> 96 then resolve_scan_str t p else swar_rest p 0
      | Build_runtime w avx2 \<Rightarrow>
          if length p \<ge> 96 \<and> avx2 then scan_str_until_special_stdsimd w p else swar_rest p 0
      | Build_avx2 \<Rightarrow> vector_scan 32 avx2_str_first (vector_once 16 sse2_str_first swar_rest) p 0
      | Build_sse2 \<Rightarrow> vector_scan 16 sse2_str_first swar_rest p 0
      | Build_none \<Rightarrow> swar_rest p 0)"

definition scan_dump_safe_run :: "simd_build \<Rightarrow> string \<Rightarrow> bool \<Rightarrow> nat" where
  "scan_dump_safe_run build p ascii_only =
     (case build of
        Build_direct w \<Rightarrow> if length p \<ge> 32 then scan_dump_safe_run_stdsimd w p ascii_only else dump_tail ascii_only p 0
      | Build_ifunc t \<Rightarrow> if length p \<ge> 32 then resolve_scan_dump t p ascii_only else dump_tail ascii_only p 0
      | Build_runtime w avx2 \<Rightarrow>
          if length p \<ge> 32 \<and> avx2 then scan_dump_safe_run_stdsimd w p ascii_only else dump_tail ascii_only p 0
      | Build_avx2 \<Rightarrow>
          vector_scan 32 (avx2_dump_first ascii_only) (vector_once 16 (sse2_dump_first ascii_only) (dump_tail ascii_only)) p 0
      | Build_sse2 \<Rightarrow> vector_scan 16 (sse2_dump_first ascii_only) (dump_tail ascii_only) p 0
      | Build_none \<Rightarrow> dump_tail ascii_only p 0)"

section \<open>Bytes in place\<close>

function vector_update :: "nat \<Rightarrow> (string \<Rightarrow> string) \<Rightarrow> (nat \<Rightarrow> char \<Rightarrow> char) \<Rightarrow> nat \<Rightarrow> string \<Rightarrow> nat \<Rightarrow> string" where
  "vector_update w block one n p i =
     (if 0 < w \<and> i + w \<le> n
      then vector_update w block one n (take i p @ block (substr p i w) @ drop (i + w) p) (i + w)
      else take i p @ map (\<lambda>k. one k (p ! k)) [i..<n])"
  by pat_completeness auto
termination by (relation "measure (\<lambda>(w, block, one, n, p, i). n - i)") auto

declare vector_update.simps [simp del]

definition lower_lane :: "lane \<Rightarrow> lane" where
  "lower_lane v = (if 0x41 \<le> v \<and> v \<le> 0x5A then v OR 0x20 else v)"

definition store :: "lane list \<Rightarrow> string" where
  "store v = map (\<lambda>x. of_byte (unat x)) v"

definition ascii_lower_inplace_stdsimd :: "nat \<Rightarrow> string \<Rightarrow> string" where
  "ascii_lower_inplace_stdsimd w p =
     vector_update w (\<lambda>u. store (map lower_lane (load u))) (\<lambda>i c. if char_between CHR ''A'' CHR ''Z'' c then of_byte (byte c OR 0x20) else c) (length p) p 0"

definition ascii_lower_inplace_of :: "simd_build \<Rightarrow> string \<Rightarrow> string" where
  "ascii_lower_inplace_of build s =
     (case build of
        Build_direct w \<Rightarrow> if length s \<ge> 32 then ascii_lower_inplace_stdsimd w s else ascii_lower s
      | Build_runtime w avx2 \<Rightarrow> if length s \<ge> 32 \<and> avx2 then ascii_lower_inplace_stdsimd w s else ascii_lower s
      | _ \<Rightarrow> ascii_lower s)"

text \<open>The mask repeated over one vector.\<close>

definition ws_unmask_stdsimd :: "nat \<Rightarrow> string \<Rightarrow> nat list \<Rightarrow> string" where
  "ws_unmask_stdsimd w payload mask4 =
     (let repeated = map (\<lambda>i. mask4 ! (i AND 3)) [0..<w]
      in vector_update w (\<lambda>u. map2 (\<lambda>c m. of_byte (byte c XOR m)) u repeated) (\<lambda>i c. of_byte (byte c XOR mask4 ! (i AND 3))) (length payload) payload 0)"

definition unmask_ws_payload_of :: "simd_build \<Rightarrow> string \<Rightarrow> nat list \<Rightarrow> string" where
  "unmask_ws_payload_of build payload mask_key =
     (case build of
        Build_direct w \<Rightarrow> if length payload \<ge> 32 then ws_unmask_stdsimd w payload mask_key else unmask_ws_payload payload mask_key
      | Build_runtime w avx2 \<Rightarrow>
          if length payload \<ge> 32 \<and> avx2 then ws_unmask_stdsimd w payload mask_key else unmask_ws_payload payload mask_key
      | _ \<Rightarrow> unmask_ws_payload payload mask_key)"

section \<open>Comparison and URL scan\<close>

function eq_lanes :: "nat \<Rightarrow> u8 list \<Rightarrow> u8 list \<Rightarrow> nat \<Rightarrow> u8 list \<Rightarrow> u8 list \<times> nat" where
  "eq_lanes w a b i acc =
     (if 0 < w \<and> i + w \<le> length a
      then eq_lanes w a b (i + w) (map (\<lambda>k. acc ! k OR (a ! (i + k) XOR b ! (i + k))) [0..<w])
      else (acc, i))"
  by pat_completeness auto
termination by (relation "measure (\<lambda>(w, a, b, i, acc). length a - i)") auto

declare eq_lanes.simps [simp del]

definition eq_tail :: "u8 list \<Rightarrow> u8 list \<Rightarrow> nat \<Rightarrow> u8" where
  "eq_tail a b i = foldl (\<lambda>t k. t OR (a ! k XOR b ! k)) 0 [i..<length a]"

definition constant_time_eq_stdx :: "nat \<Rightarrow> u8 list \<Rightarrow> u8 list \<Rightarrow> bool" where
  "constant_time_eq_stdx w a b =
     (case eq_lanes w a b 0 (replicate w 0) of (acc, i) \<Rightarrow> list_all (\<lambda>x. x = 0) acc \<and> eq_tail a b i = 0)"

definition constant_time_eq_std26 :: "nat \<Rightarrow> u8 list \<Rightarrow> u8 list \<Rightarrow> bool" where
  "constant_time_eq_std26 w a b =
     (case eq_lanes w a b 0 (replicate w 0) of (acc, i) \<Rightarrow> foldl (OR) 0 acc OR eq_tail a b i = 0)"

definition url_special :: "bool \<Rightarrow> char \<Rightarrow> bool" where
  "url_special plus_is_special c \<longleftrightarrow> c = CHR ''%'' \<or> plus_is_special \<and> c = CHR ''+''"

function url_tail :: "bool \<Rightarrow> string \<Rightarrow> nat \<Rightarrow> nat" where
  "url_tail plus_is_special p i =
     (if i < length p then (if url_special plus_is_special (p ! i) then i else url_tail plus_is_special p (i + 1)) else i)"
  by pat_completeness auto
termination by (relation "measure (\<lambda>(plus, p, i). length p - i)") auto

declare url_tail.simps [simp del]

definition url_first :: "bool \<Rightarrow> string \<Rightarrow> nat option" where
  "url_first plus_is_special p = any_first (map (\<lambda>v. v = 0x25 \<or> plus_is_special \<and> v = 0x2B) (load p))"

definition url_scan_plain_run_stdsimd :: "nat \<Rightarrow> string \<Rightarrow> bool \<Rightarrow> nat" where
  "url_scan_plain_run_stdsimd w p plus_is_special = vector_scan w (url_first plus_is_special) (url_tail plus_is_special) p 0"

definition scan_url_plain_run_of :: "simd_build \<Rightarrow> string \<Rightarrow> bool \<Rightarrow> nat" where
  "scan_url_plain_run_of build p plus_is_special =
     (case build of
        Build_direct w \<Rightarrow>
          if length p \<ge> 24 then url_scan_plain_run_stdsimd w p plus_is_special else scan_url_plain_run p plus_is_special
      | Build_runtime w avx2 \<Rightarrow>
          if length p \<ge> 24 \<and> avx2 then url_scan_plain_run_stdsimd w p plus_is_special else scan_url_plain_run p plus_is_special
      | _ \<Rightarrow> scan_url_plain_run p plus_is_special)"

definition constant_time_eq_of :: "simd_build \<Rightarrow> bool \<Rightarrow> u8 list \<Rightarrow> u8 list \<Rightarrow> bool" where
  "constant_time_eq_of build std26 a b =
     (let simd = (\<lambda>w. if std26 then constant_time_eq_std26 w a b else constant_time_eq_stdx w a b)
      in if length a \<noteq> length b then False
         else
           case build of
             Build_direct w \<Rightarrow> if length a \<ge> 64 then simd w else constant_time_eq a b
           | Build_runtime w avx2 \<Rightarrow> if length a \<ge> 64 \<and> avx2 then simd w else constant_time_eq a b
           | _ \<Rightarrow> constant_time_eq a b)"

section \<open>Scans\<close>

text \<open>A test of a whole vector that finds the first special byte.\<close>

locale block_scan =
  fixes first :: "string \<Rightarrow> nat option" and special :: "char \<Rightarrow> bool"
  assumes first_eq: "first b = (if list_ex special b then Some (run_of special b) else None)"
begin

lemma hit:
  assumes "i + w \<le> length p"
  shows "i + run_of special (drop i p) =
    (case first (substr p i w) of Some k \<Rightarrow> i + k | None \<Rightarrow> (i + w) + run_of special (drop (i + w) p))"
proof -
  have "drop i p = substr p i w @ drop (i + w) p" by (simp add: substr_def add.commute) (metis append_take_drop_id drop_drop add.commute)
  then have "run_of special (drop i p) = run_of special (substr p i w @ drop (i + w) p)" by simp
  moreover have "run_of special b = length b \<longleftrightarrow> \<not> list_ex special b" for b by (induction b) auto
  from this [of "substr p i w"] have "run_of special (substr p i w) = w \<longleftrightarrow> \<not> list_ex special (substr p i w)" "length (substr p i w) = w"
    using assms by (simp_all add: substr_def)
  ultimately show ?thesis by (simp add: first_eq run_of_append)
qed

lemma scan_eq:
  assumes "\<And>i. i \<le> length p \<Longrightarrow> tail p i = i + run_of special (drop i p)" "i \<le> length p"
  shows "vector_scan w first tail p i = i + run_of special (drop i p)"
  using assms(2)
proof (induction "length p - i" arbitrary: i rule: less_induct)
  case less
  show ?case
  proof (cases "0 < w \<and> i + w \<le> length p")
    case True
    then show ?thesis using less.hyps [of "i + w"] hit [of i w p]
      by (subst vector_scan.simps) (auto split: option.splits)
  next
    case False
    then show ?thesis using assms(1) [OF less.prems] by (subst vector_scan.simps) auto
  qed
qed

lemma once_eq:
  assumes "\<And>i. i \<le> length p \<Longrightarrow> tail p i = i + run_of special (drop i p)" "i \<le> length p"
  shows "vector_once w first tail p i = i + run_of special (drop i p)"
  using assms hit [of i w p] by (auto simp: vector_once_def split: option.splits)

end

lemma ctz_mask: "movemask_epi8 v \<noteq> 0 \<longleftrightarrow> list_ex (\<lambda>x. bit x 7) v"
  "list_ex (\<lambda>x. bit x 7) v \<Longrightarrow> builtin_ctz (movemask_epi8 v) = length (takeWhile (\<lambda>x. \<not> bit x 7) v)"
proof (induction v)
  case (Cons x v)
  case 1
  show ?case using Cons.IH(1) by (simp add: movemask_epi8_def)
  case 2
  show ?case using Cons.IH 2 by (subst builtin_ctz.simps) (auto simp: movemask_epi8_def)
qed (simp_all add: movemask_epi8_def)

lemma mask_first_eq:
  assumes "\<And>c. bit (f (of_nat (byte c) :: lane)) 7 \<longleftrightarrow> special c"
  shows "mask_first (map f (load p)) = (if list_ex special p then Some (run_of special p) else None)"
proof -
  have "list_ex (\<lambda>x. bit x 7) (map f (load p)) = list_ex special p" by (simp add: load_def list_ex_iff assms)
  moreover have "length (takeWhile (\<lambda>x. \<not> bit x 7) (map f (load p))) = run_of special p"
    by (simp add: load_def run_of_def takeWhile_map comp_def assms)
  ultimately show ?thesis using ctz_mask [of "map f (load p)"] by (simp add: mask_first_def Let_def)
qed

lemma any_first_eq:
  assumes "\<And>c. f (of_nat (byte c) :: lane) \<longleftrightarrow> special c"
  shows "any_first (map f (load p)) = (if list_ex special p then Some (run_of special p) else None)"
  by (simp add: any_first_def load_def run_of_def takeWhile_map comp_def assms list_ex_iff)

lemma lanes_map:
  "length v = n \<Longrightarrow> map2 f v (replicate n a) = map (\<lambda>x. f x a) v" "length v = n \<Longrightarrow> map2 f (replicate n a) v = map (\<lambda>x. f a x) v"
  "map2 f (map g v) (map h v) = map (\<lambda>x. f (g x) (h x)) v" "map2 f v (map h v) = map (\<lambda>x. f x (h x)) v" "map2 f (map g v) v = map (\<lambda>x. f (g x) x) v"
  by (auto simp: list_eq_iff_nth_eq)

lemmas lane_ops = cmpeq_epi8_def cmpgt_epi8_def cmplt_epi8_def min_epu8_def or_si_def set1_epi8_def lanes_map

lemma lane_tests:
  fixes c :: char
  defines "x \<equiv> of_nat (byte c) :: lane"
  shows "x = 0x22 \<longleftrightarrow> c = CHR 0x22" "x = 0x5C \<longleftrightarrow> c = CHR 0x5C" "x = 0x25 \<longleftrightarrow> c = CHR ''%''" "x = 0x2B \<longleftrightarrow> c = CHR ''+''"
    "sint x < 0x20 \<longleftrightarrow> byte c < 0x20 \<or> 0x80 \<le> byte c" "0 \<le> sint x \<longleftrightarrow> byte c < 0x80"
    "(if 0x1F < x then 0x1F else x) = x \<longleftrightarrow> byte c < 0x20" "unat x = byte c"
proof -
  have b: "byte c < 256" by simp
  show u: "unat x = byte c" using b by (simp add: x_def unat_of_nat)
  have eq: "x = of_nat (byte d) \<longleftrightarrow> c = d" for d
  proof
    assume "x = of_nat (byte d)"
    then have "unat x = unat (of_nat (byte d) :: lane)" by simp
    then show "c = d" using u by (simp add: unat_of_nat)
  qed (simp add: x_def)
  show "x = 0x22 \<longleftrightarrow> c = CHR 0x22" "x = 0x5C \<longleftrightarrow> c = CHR 0x5C" "x = 0x25 \<longleftrightarrow> c = CHR ''%''" "x = 0x2B \<longleftrightarrow> c = CHR ''+''"
    using eq [of "CHR 0x22"] eq [of "CHR 0x5C"] eq [of "CHR ''%''"] eq [of "CHR ''+''"] by simp_all
  have s: "sint x = (if byte c < 0x80 then int (byte c) else int (byte c) - 256)"
  proof -
    have "uint x = int (byte c)" using u by (metis uint_nat)
    then have "sint x = (int (byte c) + 128) mod 256 - 128"
      by (simp add: sint_uint signed_take_bit_eq_take_bit_shift take_bit_eq_mod)
    moreover have "(int (byte c) + 128) mod 256 = (if byte c < 0x80 then int (byte c) + 128 else int (byte c) - 128)"
    proof (cases "byte c < 0x80")
      case False
      have "(int (byte c) + 128) mod 256 = (int (byte c) - 128) mod 256" using mod_add_self2 [of "int (byte c) - 128" 256] by (simp add: add.commute)
      also have "\<dots> = int (byte c) - 128" using False b by (intro mod_pos_pos_trivial) linarith+
      finally show ?thesis using False by simp
    qed simp
    ultimately show ?thesis by simp
  qed
  show "sint x < 0x20 \<longleftrightarrow> byte c < 0x20 \<or> 0x80 \<le> byte c" "0 \<le> sint x \<longleftrightarrow> byte c < 0x80" using s b by (auto simp del: byte_less_256)
  show "(if 0x1F < x then 0x1F else x) = x \<longleftrightarrow> byte c < 0x20" using u by (auto simp: word_less_nat_alt)
qed

lemma bit_lane_mask [simp]: "bit (lane_mask b) 7 \<longleftrightarrow> b"
  by (simp add: lane_mask_def)

lemma length_load [simp]: "length (load p) = length p"
  by (simp add: load_def)

interpretation sse2_str: block_scan sse2_str_first json_special
  by (unfold_locales, simp add: sse2_str_first_def lane_ops Let_def split del: if_split, subst mask_first_eq [where special = json_special])
    (auto simp: bit_or_iff lane_tests json_special_def split: if_splits)

interpretation avx2_str: block_scan avx2_str_first json_special
  by (unfold_locales, simp add: avx2_str_first_def lane_ops Let_def split del: if_split, subst mask_first_eq [where special = json_special])
    (auto simp: bit_or_iff lane_tests json_special_def split: if_splits)

interpretation sse2_dump: block_scan "sse2_dump_first ascii_only" "dump_special ascii_only" for ascii_only
proof
  fix p
  let ?lane = "\<lambda>x. (lane_mask (x = 0x22) OR lane_mask (x = 0x5C)) OR
    lane_mask (if ascii_only then sint x < 0x20 else (if 0x1F < x then 0x1F else x) = x)"
  have "sse2_dump_first ascii_only p = mask_first (map ?lane (load p))"
    by (cases ascii_only) (simp_all add: sse2_dump_first_def lane_ops Let_def)
  then show "sse2_dump_first ascii_only p = (if list_ex (dump_special ascii_only) p then Some (run_of (dump_special ascii_only) p) else None)"
    using mask_first_eq [of ?lane "dump_special ascii_only" p] by (simp add: bit_or_iff lane_tests dump_special_def disj_assoc)
qed

interpretation avx2_dump: block_scan "avx2_dump_first ascii_only" "dump_special ascii_only" for ascii_only
proof
  fix p
  let ?lane = "\<lambda>x. (lane_mask (x = 0x22) OR lane_mask (x = 0x5C)) OR
    lane_mask (if ascii_only then sint x < 0x20 else (if 0x1F < x then 0x1F else x) = x)"
  have "avx2_dump_first ascii_only p = mask_first (map ?lane (load p))"
    by (cases ascii_only) (simp_all add: avx2_dump_first_def lane_ops Let_def)
  then show "avx2_dump_first ascii_only p = (if list_ex (dump_special ascii_only) p then Some (run_of (dump_special ascii_only) p) else None)"
    using mask_first_eq [of ?lane "dump_special ascii_only" p] by (simp add: bit_or_iff lane_tests dump_special_def disj_assoc)
qed

interpretation std_str: block_scan std_str_first json_special
  by (unfold_locales, simp add: std_str_first_def lane_ops Let_def split del: if_split, subst any_first_eq [where special = json_special])
    (auto simp: bit_or_iff lane_tests json_special_def split: if_splits)

interpretation std_dump: block_scan "std_dump_first ascii_only" "dump_special ascii_only" for ascii_only
  by (unfold_locales, simp add: std_dump_first_def lane_ops Let_def split del: if_split, subst any_first_eq [where special = "dump_special ascii_only"])
    (auto simp: bit_or_iff lane_tests dump_special_def split: if_splits)

interpretation url_block: block_scan "url_first plus_is_special" "url_special plus_is_special" for plus_is_special
  by (unfold_locales, simp add: url_first_def lane_ops Let_def split del: if_split, subst any_first_eq [where special = "url_special plus_is_special"])
    (auto simp: bit_or_iff lane_tests url_special_def split: if_splits)

lemma dump_tail_eq: "i \<le> length p \<Longrightarrow> dump_tail ascii_only p i = i + run_of (dump_special ascii_only) (drop i p)"
proof (induction ascii_only p i rule: dump_tail.induct)
  case (1 ascii_only p i)
  then show ?case by (subst dump_tail.simps) (auto simp: Cons_nth_drop_Suc [symmetric])
qed

lemma url_tail_eq: "i \<le> length p \<Longrightarrow> url_tail special_plus p i = i + run_of (url_special special_plus) (drop i p)"
proof (induction special_plus p i rule: url_tail.induct)
  case (1 special_plus p i)
  then show ?case by (subst url_tail.simps) (auto simp: Cons_nth_drop_Suc [symmetric])
qed

lemma swar_rest_eq: "swar_rest p i = i + run_of json_special (drop i p)"
  by (simp add: swar_rest_def scan_str_until_special_eq)

lemmas tails = special_tail_eq dump_tail_eq url_tail_eq swar_rest_eq

lemmas str_scans = sse2_str.scan_eq sse2_str.once_eq avx2_str.scan_eq std_str.scan_eq

lemmas dump_scans = sse2_dump.scan_eq sse2_dump.once_eq avx2_dump.scan_eq std_dump.scan_eq

lemma scan_str_stdsimd: "scan_str_until_special_stdsimd w p = run_of json_special p"
  using std_str.scan_eq [of p special_tail 0 w] by (simp add: scan_str_until_special_stdsimd_def tails)

lemma scan_dump_stdsimd: "scan_dump_safe_run_stdsimd w p ascii_only = run_of (dump_special ascii_only) p"
  using std_dump.scan_eq [of p "dump_tail ascii_only" ascii_only 0 w] by (simp add: scan_dump_safe_run_stdsimd_def tails)

lemma resolved_scans:
  "resolve_scan_str t p = run_of json_special p" "resolve_scan_dump t p ascii_only = run_of (dump_special ascii_only) p"
  by (cases t; simp add: resolve_scan_str_def resolve_scan_dump_def scan_str_stdsimd scan_dump_stdsimd
      scan_str_until_special_scalar_def scan_dump_safe_run_scalar_def tails)+

lemma scan_str_until_special_of_eq: "scan_str_until_special_of build p = run_of json_special p"
proof (cases build)
  case Build_avx2
  have "vector_once 16 sse2_str_first swar_rest p i = i + run_of json_special (drop i p)" if "i \<le> length p" for i
    by (rule sse2_str.once_eq) (use that in \<open>simp_all add: tails\<close>)
  then show ?thesis using avx2_str.scan_eq [of p "vector_once 16 sse2_str_first swar_rest" 0 32] Build_avx2
    by (simp add: scan_str_until_special_of_def)
next
  case Build_sse2
  then show ?thesis using sse2_str.scan_eq [of p swar_rest 0 16] by (simp add: scan_str_until_special_of_def tails)
qed (simp_all add: scan_str_until_special_of_def scan_str_stdsimd resolved_scans tails)

lemma scan_dump_safe_run_eq: "scan_dump_safe_run build p ascii_only = run_of (dump_special ascii_only) p"
proof (cases build)
  case Build_avx2
  let ?once = "vector_once 16 (sse2_dump_first ascii_only) (dump_tail ascii_only)"
  have "?once p i = i + run_of (dump_special ascii_only) (drop i p)" if "i \<le> length p" for i
    by (rule sse2_dump.once_eq) (use that in \<open>simp_all add: tails\<close>)
  then show ?thesis using avx2_dump.scan_eq [of p ?once ascii_only 0 32] Build_avx2 by (simp add: scan_dump_safe_run_def)
next
  case Build_sse2
  then show ?thesis using sse2_dump.scan_eq [of p "dump_tail ascii_only" ascii_only 0 16] by (simp add: scan_dump_safe_run_def tails)
qed (simp_all add: scan_dump_safe_run_def scan_dump_stdsimd resolved_scans tails)

lemma intrin_scans:
  "scan_str_until_special_intrin avx2 p = run_of json_special p"
  "scan_dump_safe_run_intrin avx2 p ascii_only = run_of (dump_special ascii_only) p"
proof -
  have str: "vector_scan 16 sse2_str_first special_tail p i = i + run_of json_special (drop i p)" if "i \<le> length p" for i
    by (rule sse2_str.scan_eq) (use that in \<open>simp_all add: tails\<close>)
  have dump: "vector_scan 16 (sse2_dump_first ascii_only) (dump_tail ascii_only) p i = i + run_of (dump_special ascii_only) (drop i p)"
    if "i \<le> length p" for i by (rule sse2_dump.scan_eq) (use that in \<open>simp_all add: tails\<close>)
  show "scan_str_until_special_intrin avx2 p = run_of json_special p"
    using avx2_str.scan_eq [of p "vector_scan 16 sse2_str_first special_tail" 0 32] str str [of 0]
    by (simp add: scan_str_until_special_intrin_def Let_def)
  show "scan_dump_safe_run_intrin avx2 p ascii_only = run_of (dump_special ascii_only) p"
    using avx2_dump.scan_eq [of p "vector_scan 16 (sse2_dump_first ascii_only) (dump_tail ascii_only)" ascii_only 0 32] dump dump [of 0]
    by (simp add: scan_dump_safe_run_intrin_def Let_def)
qed

lemma scan_url_plain_run_of_eq: "scan_url_plain_run_of build p plus_is_special = scan_url_plain_run p plus_is_special"
proof -
  have "url_scan_plain_run_stdsimd w p plus_is_special = run_of (url_special plus_is_special) p" for w
    using url_block.scan_eq [of p "url_tail plus_is_special" plus_is_special 0 w] by (simp add: url_scan_plain_run_stdsimd_def tails)
  moreover have "scan_url_plain_run p plus_is_special = run_of (url_special plus_is_special) p"
    by (induction p) (auto simp: scan_url_plain_run_def url_special_def split: option.splits)
  ultimately show ?thesis by (simp add: scan_url_plain_run_of_def split: simd_build.split)
qed

section \<open>Maps and comparisons\<close>

text \<open>A map of whole vectors that agrees with the map of the bytes.\<close>

locale block_map =
  fixes w :: nat and block :: "string \<Rightarrow> string" and one :: "nat \<Rightarrow> char \<Rightarrow> char"
  assumes block_eq: "length u = w \<Longrightarrow> w dvd i \<Longrightarrow> block u = map (\<lambda>k. one (i + k) (u ! k)) [0..<w]"
begin

lemma update_eq:
  assumes "w dvd i" "i \<le> n" "length p = n"
  shows "vector_update w block one n p i = take i p @ map (\<lambda>k. one k (p ! k)) [i..<n]"
  using assms
proof (induction "n - i" arbitrary: i p rule: less_induct)
  case less
  show ?case
  proof (cases "0 < w \<and> i + w \<le> n")
    case True
    let ?q = "take i p @ block (substr p i w) @ drop (i + w) p"
    have "block (substr p i w) = map (\<lambda>k. one (i + k) (substr p i w ! k)) [0..<w]"
      by (rule block_eq) (use True less.prems in \<open>auto simp: substr_def\<close>)
    also have "\<dots> = map (\<lambda>k. one k (p ! k)) [i..<i + w]"
      using True less.prems by (auto simp: substr_def list_eq_iff_nth_eq)
    finally have b: "block (substr p i w) = map (\<lambda>k. one k (p ! k)) [i..<i + w]" .
    have q: "length ?q = n" "take (i + w) ?q = take i p @ map (\<lambda>k. one k (p ! k)) [i..<i + w]"
      "\<And>k. i + w \<le> k \<Longrightarrow> k < n \<Longrightarrow> ?q ! k = p ! k" using b True less.prems by (auto simp: nth_append)
    have "n - (i + w) < n - i" using True by arith
    then have "vector_update w block one n ?q (i + w) = take (i + w) ?q @ map (\<lambda>k. one k (?q ! k)) [i + w..<n]"
      by (rule less.hyps) (use True less.prems q(1) in simp_all)
    also have "map (\<lambda>k. one k (?q ! k)) [i + w..<n] = map (\<lambda>k. one k (p ! k)) [i + w..<n]" using q(3) by simp
    also have "take (i + w) ?q @ \<dots> = take i p @ map (\<lambda>k. one k (p ! k)) [i..<n]"
      unfolding q(2) using True upt_add_eq_append [of i "i + w" "n - (i + w)"] by simp
    finally show ?thesis using True by (subst vector_update.simps) simp
  next
    case False
    then show ?thesis by (subst vector_update.simps) auto
  qed
qed

end

lemma lower_lane_eq: "of_byte (unat (lower_lane (of_nat (byte c)))) = lower_char c"
proof -
  have "unat (of_nat (byte c) :: lane) = byte c" by (rule lane_tests(8))
  then show ?thesis
    by (simp add: lower_lane_def lower_char_def char_between_def word_le_nat_alt unsigned_or_eq)
qed

interpretation lower_block: block_map w "\<lambda>u. store (map lower_lane (load u))"
  "\<lambda>i c. if char_between CHR ''A'' CHR ''Z'' c then of_byte (byte c OR 0x20) else c" for w
proof
  fix u :: string and i assume "length u = w"
  then show "store (map lower_lane (load u)) = map (\<lambda>k. if char_between CHR ''A'' CHR ''Z'' (u ! k) then of_byte (byte (u ! k) OR 0x20) else u ! k) [0..<w]"
    by (intro nth_equalityI) (simp_all add: store_def load_def lower_lane_eq lower_char_def)
qed

lemma ascii_lower_inplace_of_eq: "ascii_lower_inplace_of build s = ascii_lower s"
proof -
  have "ascii_lower_inplace_stdsimd w s = ascii_lower s" for w
    using lower_block.update_eq [of w 0 "length s" s]
    unfolding ascii_lower_inplace_stdsimd_def by (intro nth_equalityI) (simp_all add: ascii_lower_def lower_char_def)
  then show ?thesis by (simp add: ascii_lower_inplace_of_def split: simd_build.split)
qed

lemma ws_unmask_stdsimd_eq:
  assumes "4 dvd w"
  shows "ws_unmask_stdsimd w payload mask4 = unmask_ws_payload payload mask4"
proof -
  have m: "(i + k) AND 3 = k AND 3" if "w dvd i" for i k :: nat
  proof -
    have "4 dvd i" using assms that by (rule dvd_trans)
    then show ?thesis by (auto simp: and_masks(6) elim!: dvdE)
  qed
  have "block_map w (\<lambda>u. map2 (\<lambda>c m. of_byte (byte c XOR m)) u (map (\<lambda>i. mask4 ! (i AND 3)) [0..<w]))
      (\<lambda>i c. of_byte (byte c XOR mask4 ! (i AND 3)))"
    by (unfold_locales, intro nth_equalityI) (simp_all add: m)
  from block_map.update_eq [OF this, of 0 "length payload" payload] show ?thesis
    unfolding ws_unmask_stdsimd_def unmask_ws_payload_def Let_def by (intro nth_equalityI) (simp_all add: nth_enumerate_eq)
qed

lemma eq_lanes_inv:
  assumes "length acc = w" "list_all (\<lambda>x. x = 0) acc \<longleftrightarrow> (\<forall>k<i. a ! k = b ! k)" "i \<le> length a" "eq_lanes w a b i acc = (acc', i')"
  shows "(list_all (\<lambda>x. x = 0) acc' \<longleftrightarrow> (\<forall>k<i'. a ! k = b ! k)) \<and> i' \<le> length a"
  using assms
proof (induction "length a - i" arbitrary: i acc rule: less_induct)
  case less
  show ?case
  proof (cases "0 < w \<and> i + w \<le> length a")
    case True
    let ?acc = "map (\<lambda>k. acc ! k OR (a ! (i + k) XOR b ! (i + k))) [0..<w]"
    have "list_all (\<lambda>x. x = 0) ?acc \<longleftrightarrow> list_all (\<lambda>x. x = 0) acc \<and> (\<forall>k<w. a ! (i + k) = b ! (i + k))"
      using less.prems(1) by (auto simp: list_all_length or_eq_0_iff xor_eq_0_iff_eq)
    also have "\<dots> \<longleftrightarrow> (\<forall>k<i + w. a ! k = b ! k)"
      unfolding less.prems(2) by (auto simp: less_diff_conv) (metis add_diff_inverse_nat nat_add_left_cancel_less)
    finally have acc: "list_all (\<lambda>x. x = 0) ?acc \<longleftrightarrow> (\<forall>k<i + w. a ! k = b ! k)" .
    have "length a - (i + w) < length a - i" using True by arith
    moreover have "eq_lanes w a b (i + w) ?acc = (acc', i')" using True less.prems(4) by (simp add: eq_lanes.simps [of w a b i acc])
    ultimately show ?thesis using less.hyps [of "i + w" ?acc] acc True by simp
  next
    case False
    then show ?thesis using less.prems by (simp add: eq_lanes.simps [of w a b i acc]) auto
  qed
qed

lemma constant_time_eq_of_eq: "constant_time_eq_of build std26 a b = constant_time_eq a b"
proof -
  have "constant_time_eq_stdx w a b \<longleftrightarrow> a = b" "constant_time_eq_std26 w a b \<longleftrightarrow> a = b" if len: "length a = length b" for w
  proof -
    obtain acc i where l: "eq_lanes w a b 0 (replicate w 0) = (acc, i)" by force
    from eq_lanes_inv [OF _ _ _ l] have inv: "list_all (\<lambda>x. x = 0) acc \<longleftrightarrow> (\<forall>k<i. a ! k = b ! k)" "i \<le> length a"
      by (simp_all add: list_all_length)
    have tail: "eq_tail a b i = 0 \<longleftrightarrow> (\<forall>k. i \<le> k \<and> k < length a \<longrightarrow> a ! k = b ! k)" by (auto simp: eq_tail_def foldl_or_zero xor_eq_0_iff_eq)
    have all: "(\<forall>k<i. a ! k = b ! k) \<and> (\<forall>k. i \<le> k \<and> k < length a \<longrightarrow> a ! k = b ! k) \<longleftrightarrow> a = b"
      using len nth_equalityI [of a b] not_le by blast
    show "constant_time_eq_stdx w a b \<longleftrightarrow> a = b" using l inv tail all by (simp add: constant_time_eq_stdx_def)
    show "constant_time_eq_std26 w a b \<longleftrightarrow> a = b"
      using l inv tail all foldl_or_zero [of "\<lambda>x. x" 0 acc] by (simp add: constant_time_eq_std26_def or_eq_0_iff list_all_iff)
  qed
  then show ?thesis by (auto simp: constant_time_eq_of_def constant_time_eq_iff Let_def split: simd_build.split)
qed

section \<open>All builds agree\<close>

text \<open>The key of a WebSocket frame has four bytes, so a vector holds it a whole number of times.\<close>

definition whole_keys :: "simd_build \<Rightarrow> bool" where
  "whole_keys build \<longleftrightarrow> (case build of Build_direct w \<Rightarrow> 4 dvd w | Build_runtime w _ \<Rightarrow> 4 dvd w | _ \<Rightarrow> True)"

text \<open>
  C39: The vector variants change nothing: for every build and every width of the vectors, whatever the
  processor has, the scan of JSON strings, the scan of the writer, the scan of URLs, the folding of
  upper case, the comparison in constant time and the removal of the mask of a WebSocket frame return
  what the byte loops return. For the mask the width has to be a multiple of four.
\<close>

theorem simd_builds_agree:
  assumes "whole_keys build"
  shows "scan_str_until_special_of build p = scan_str_until_special p \<and>
    scan_dump_safe_run build p ascii_only = scan_dump_safe_run Build_none p ascii_only \<and>
    scan_url_plain_run_of build p plus_is_special = scan_url_plain_run p plus_is_special \<and>
    ascii_lower_inplace_of build p = ascii_lower p \<and>
    constant_time_eq_of build std26 a b = constant_time_eq a b \<and>
    unmask_ws_payload_of build p mask_key = unmask_ws_payload p mask_key"
  using assms
  by (auto simp: scan_str_until_special_of_eq scan_str_until_special_eq scan_dump_safe_run_eq scan_url_plain_run_of_eq
      ascii_lower_inplace_of_eq constant_time_eq_of_eq unmask_ws_payload_of_def whole_keys_def ws_unmask_stdsimd_eq
      split: simd_build.splits)

theorem simd_builds_agree_witness:
  "whole_keys (Build_direct 16) \<and>
   unmask_ws_payload_of (Build_direct 16) (replicate 33 CHR ''a'') [1, 2, 3, 4] = unmask_ws_payload (replicate 33 CHR ''a'') [1, 2, 3, 4] \<and>
   unmask_ws_payload_of (Build_direct 16) (replicate 33 CHR ''a'') [1, 2, 3, 4] \<noteq> replicate 33 CHR ''a''"
proof -
  have w: "whole_keys (Build_direct 16)" by (simp add: whole_keys_def)
  have "unmask_ws_payload (replicate 33 CHR ''a'') [1, 2, 3, 4] \<noteq> replicate 33 CHR ''a''" by code_simp
  with w simd_builds_agree [OF w, of "replicate 33 CHR ''a''" _ _ _ _ _ "[1, 2, 3, 4]"] show ?thesis by simp
qed

end
