(* ===== verification/Json_Lookup.thy ===== *)
theory Json_Lookup
  imports Json_Document
begin

text \<open>
  Looking up a member of a JSON object (\<open>json_api.cxx\<close>, \<open>json_dom.cxx\<close>): a linear scan for small
  objects, an open-addressing hash table built on first use for large ones.  The hash is the
  built-in one; the seed and the outcome of the allocation come from the environment.  A lookup may
  publish the table it has built, or the mark that building failed, in the node.
\<close>

unbundle bit_operations_syntax

definition kHashThreshold :: nat where [simp]: "kHashThreshold = 32"
definition kProbeChainMax :: nat where [simp]: "kProbeChainMax = 64"
definition kMaxHashTableCapacity :: nat where [simp]: "kMaxHashTableCapacity = 1073741824"
definition kMaxHashIndexBytes :: nat where [simp]: "kMaxHashIndexBytes = 268435456"

definition hash_name :: "string \<Rightarrow> u64 \<Rightarrow> 32 word" where
  "hash_name name seed =
     (let h = foldl (\<lambda>h c. (h XOR of_nat (byte c)) * 1099511628211) (1469598103934665603 XOR seed) name;
          h = h XOR drop_bit 33 h;
          h = h * 0xff51afd7ed558ccd;
          h = h XOR drop_bit 33 h
      in ucast h)"

text \<open>The header of a table has 24 bytes, a slot 8 and a pointer 8.\<close>

definition allocation_bytes :: "nat \<Rightarrow> nat \<Rightarrow> nat" where
  "allocation_bytes capacity member_count = 24 + 8 * capacity + 8 * member_count"

definition kEffectiveMax :: nat where
  "kEffectiveMax = min kMaxHashTableCapacity (kMaxHashIndexBytes div 8)"

text \<open>The capacity is doubled from 1, so it is given by its exponent.\<close>

function grow_capacity :: "nat \<Rightarrow> nat \<Rightarrow> nat" where
  "grow_capacity target k = (if 2 ^ k < target \<and> 2 ^ k < kEffectiveMax then grow_capacity target (k + 1) else 2 ^ k)"
  by pat_completeness auto
termination
  by (relation "measure (\<lambda>(target, k). target - 2 ^ k)") (auto intro!: diff_less_mono2)

declare grow_capacity.simps [simp del]

function shrink_capacity :: "nat \<Rightarrow> nat \<Rightarrow> nat" where
  "shrink_capacity count cap =
     (if cap > count \<and> allocation_bytes cap count > kMaxHashIndexBytes then shrink_capacity count (cap div 2) else cap)"
  by pat_completeness auto
termination
  by (relation "measure snd") auto

declare shrink_capacity.simps [simp del]

definition clamped_capacity :: "nat \<Rightarrow> nat" where
  "clamped_capacity count =
     (let target = (if count \<le> kEffectiveMax div 2 then count * 2 else kEffectiveMax);
          cap = grow_capacity target 0
      in if cap < count then 0
         else
           let cap = shrink_capacity count cap
           in if allocation_bytes cap count > kMaxHashIndexBytes then 0 else cap)"

definition slot_members :: "'a document_storage_scheme \<Rightarrow> nat \<Rightarrow> nat \<Rightarrow> member_entry list" where
  "slot_members st mem_start mem_count = take mem_count (drop mem_start (ds_members st))"

fun scan_members :: "'a document_storage_scheme \<Rightarrow> string \<Rightarrow> member_entry list \<Rightarrow> nat option" where
  "scan_members st name [] = None"
| "scan_members st name (m # ms) =
     (if me_name_len m = u32_of (length name) \<and> member_name st m = name then Some (me_val_node m)
      else scan_members st name ms)"

definition lookup_linear :: "'a document_storage_scheme \<Rightarrow> nat \<Rightarrow> nat \<Rightarrow> string \<Rightarrow> nat option" where
  "lookup_linear st mem_start mem_count name = scan_members st name (slot_members st mem_start mem_count)"

text \<open>The probe loop: \<open>n\<close> probes are left.\<close>

fun probe_lookup ::
    "obj_hash_table \<Rightarrow> 'a document_storage_scheme \<Rightarrow> nat \<Rightarrow> nat \<Rightarrow> string \<Rightarrow> 32 word \<Rightarrow> nat \<Rightarrow> nat \<Rightarrow> nat option" where
  "probe_lookup ht st mem_start mem_count name h 0 slot = lookup_linear st mem_start mem_count name"
| "probe_lookup ht st mem_start mem_count name h (Suc n) slot =
     (case ht_slots ht ! slot of
        None \<Rightarrow> None
      | Some (i, name_hash) \<Rightarrow>
          let m = ds_members st ! (mem_start + i)
          in if name_hash = h \<and> take (me_name_len m) (ht_ptr_cache ht ! i) = name then Some (me_val_node m)
             else probe_lookup ht st mem_start mem_count name h n ((slot + 1) AND (ht_capacity ht - 1)))"

definition lookup_in ::
    "obj_hash_table \<Rightarrow> 'a document_storage_scheme \<Rightarrow> nat \<Rightarrow> nat \<Rightarrow> string \<Rightarrow> nat option" where
  "lookup_in ht st mem_start mem_count name =
     (let h = hash_name name (ht_hash_seed ht)
      in probe_lookup ht st mem_start mem_count name h kProbeChainMax (unat h AND (ht_capacity ht - 1)))"

fun probe_insert :: "nat \<Rightarrow> (nat \<times> 32 word) option list \<Rightarrow> nat \<times> 32 word \<Rightarrow> nat \<Rightarrow> nat \<Rightarrow> (nat \<times> 32 word) option list option" where
  "probe_insert capacity slots e 0 slot = None"
| "probe_insert capacity slots e (Suc n) slot =
     (if slots ! slot = None then Some (slots[slot := Some e])
      else probe_insert capacity slots e n ((slot + 1) AND (capacity - 1)))"

fun build_slots :: "obj_hash_table \<Rightarrow> nat \<Rightarrow> string list \<Rightarrow> obj_hash_table option" where
  "build_slots ht i [] = Some ht"
| "build_slots ht i (name # names) =
     (let h = hash_name name (ht_hash_seed ht)
      in case probe_insert (ht_capacity ht) (ht_slots ht) (i, h) kProbeChainMax (unat h AND (ht_capacity ht - 1)) of
           None \<Rightarrow> None
         | Some slots \<Rightarrow>
             build_slots (ht\<lparr>ht_slots := slots, ht_ptr_cache := ht_ptr_cache ht @ [name]\<rparr>) (i + 1) names)"

definition hash_table_create :: "nat \<Rightarrow> nat \<Rightarrow> u64 \<Rightarrow> obj_hash_table" where
  "hash_table_create capacity member_count seed =
     \<lparr>ht_capacity = capacity, ht_member_count = member_count, ht_hash_seed = seed,
      ht_slots = replicate capacity None, ht_ptr_cache = []\<rparr>"

definition build_table ::
    "obj_hash_table \<Rightarrow> 'a document_storage_scheme \<Rightarrow> nat \<Rightarrow> nat \<Rightarrow> obj_hash_table option" where
  "build_table ht st mem_start mem_count = build_slots ht 0 (map (member_name st) (slot_members st mem_start mem_count))"

text \<open>Building the table of an object: \<open>None\<close> when it is too large, out of memory or a chain too long.\<close>

definition make_index :: "json_env \<Rightarrow> 'a document_storage_scheme \<Rightarrow> nat \<Rightarrow> nat \<Rightarrow> nat \<Rightarrow> obj_hash_table option" where
  "make_index env st idx mem_start mem_count =
     (let cap = clamped_capacity mem_count
      in if cap > 0 \<and> ev_alloc_ok env idx
         then build_table (hash_table_create cap mem_count (ev_hash_seed env idx)) st mem_start mem_count else None)"

definition set_hash_index :: "nat \<Rightarrow> hash_index \<Rightarrow> 'a document_storage_scheme \<Rightarrow> 'a document_storage_scheme" where
  "set_hash_index idx h st = st\<lparr>ds_nodes := (ds_nodes st)[idx := (ds_nodes st ! idx)\<lparr>nd_payload := P_hash h\<rparr>]\<rparr>"

definition find_member ::
    "json_env \<Rightarrow> nat \<Rightarrow> string \<Rightarrow> 'a document_storage_scheme \<Rightarrow> nat option \<times> 'a document_storage_scheme" where
  "find_member env idx name st =
     (let n = ds_nodes st ! idx; start = nd_off n; count = nd_len n
      in if count < kHashThreshold then (lookup_linear st start count name, st)
         else
           case nd_payload n of
             P_hash (Hash_table ht) \<Rightarrow> (lookup_in ht st start count name, st)
           | P_hash Hash_null \<Rightarrow>
               (case make_index env st idx start count of
                  Some ht \<Rightarrow> (lookup_in ht st start count name, set_hash_index idx (Hash_table ht) st)
                | None \<Rightarrow> (lookup_linear st start count name, set_hash_index idx Hash_build_failed st))
           | _ \<Rightarrow> (lookup_linear st start count name, st))"

section \<open>The table finds what the scan finds\<close>

lemma and_capacity: "x AND (2 ^ k - 1) = x mod (2 ^ k :: nat)"
  by (simp add: take_bit_eq_mod [symmetric] take_bit_eq_mask mask_eq_exp_minus_1)

lemma and_capacity_Suc: "x AND (2 ^ k - Suc 0) = x mod (2 ^ k :: nat)"
  using and_capacity [of x k] by simp

lemma index_of_first:
  "j < length xs \<Longrightarrow> P (xs ! j) \<Longrightarrow> (\<And>i. i < j \<Longrightarrow> \<not> P (xs ! i)) \<Longrightarrow> index_of P xs = Some j"
proof (induction xs arbitrary: j)
  case (Cons x xs)
  show ?case
  proof (cases j)
    case (Suc j')
    have "\<not> P (xs ! i)" if "i < j'" for i using Cons.prems(3) [of "Suc i"] Suc that by simp
    then have "index_of P xs = Some j'" using Cons.prems(1,2) Suc by (intro Cons.IH) auto
    with Cons.prems(3) [of 0] Suc show ?thesis by simp
  qed (use Cons.prems in auto)
qed simp

lemma grow_capacity_power: "\<exists>k'. grow_capacity target k = 2 ^ k'"
proof (induction target k rule: grow_capacity.induct)
  case (1 target k)
  then show ?case by (subst grow_capacity.simps) auto
qed

lemma shrink_capacity_power: "\<exists>k. shrink_capacity count (2 ^ k') = 2 ^ k"
proof (induction k')
  case 0
  then show ?case by (subst shrink_capacity.simps) (auto simp: allocation_bytes_def intro: exI [of _ 0])
next
  case (Suc k')
  have "(2::nat) ^ Suc k' div 2 = 2 ^ k'" by simp
  with Suc show ?case by (subst shrink_capacity.simps) (metis (no_types, lifting))
qed

lemma clamped_capacity_power:
  assumes "clamped_capacity count > 0"
  shows "\<exists>k. clamped_capacity count = 2 ^ k"
proof -
  obtain target where "clamped_capacity count = shrink_capacity count (grow_capacity target 0)"
    using assms by (auto simp: clamped_capacity_def Let_def split: if_splits)
  with grow_capacity_power [of target 0] shrink_capacity_power [of count] show ?thesis by metis
qed

text \<open>
  The state of a table with the first \<open>i\<close> members in it: a used slot holds one of them with its hash,
  and each is found from its home slot within the probe limit, behind members with smaller indices.
\<close>

definition table_ok :: "(nat \<times> 32 word) option list \<Rightarrow> 32 word list \<Rightarrow> nat \<Rightarrow> bool" where
  "table_ok slots hs i \<longleftrightarrow>
     (\<forall>s j x. s < length slots \<longrightarrow> slots ! s = Some (j, x) \<longrightarrow> j < i \<and> x = hs ! j) \<and>
     (\<forall>j<i. \<exists>p<kProbeChainMax. slots ! ((unat (hs ! j) + p) mod length slots) = Some (j, hs ! j) \<and>
        (\<forall>q<p. \<exists>j'<j. \<exists>x. slots ! ((unat (hs ! j) + q) mod length slots) = Some (j', x)))"

lemma probe_insertD:
  "probe_insert (2 ^ k) slots e n (a mod 2 ^ k) = Some slots' \<Longrightarrow>
     \<exists>p<n. slots ! ((a + p) mod 2 ^ k) = None \<and> slots' = slots[(a + p) mod 2 ^ k := Some e] \<and>
       (\<forall>q<p. slots ! ((a + q) mod 2 ^ k) \<noteq> None)"
proof (induction n arbitrary: a)
  case (Suc n)
  show ?case
  proof (cases "slots ! (a mod 2 ^ k) = None")
    case True
    with Suc.prems show ?thesis by (intro exI [of _ 0]) auto
  next
    case False
    with Suc.prems have "probe_insert (2 ^ k) slots e n (Suc a mod 2 ^ k) = Some slots'"
      by (simp add: and_capacity_Suc mod_Suc_eq)
    from Suc.IH [OF this] obtain p where p: "p < n" "slots ! ((Suc a + p) mod 2 ^ k) = None"
      "slots' = slots[(Suc a + p) mod 2 ^ k := Some e]" "\<forall>q<p. slots ! ((Suc a + q) mod 2 ^ k) \<noteq> None" by blast
    have "slots ! ((a + q) mod 2 ^ k) \<noteq> None" if "q < Suc p" for q
      using p(4) that False by (cases q) auto
    with p show ?thesis by (intro exI [of _ "Suc p"]) auto
  qed
qed simp

lemma table_ok_insert:
  assumes ok: "table_ok slots hs i" and len: "length slots = 2 ^ k" and h: "hs ! i = h"
    and ins: "probe_insert (2 ^ k) slots (i, h) kProbeChainMax (unat h mod 2 ^ k) = Some slots'"
  shows "table_ok slots' hs (Suc i)"
proof -
  from probe_insertD [OF ins] obtain p where p: "p < kProbeChainMax" "slots ! ((unat h + p) mod 2 ^ k) = None"
    "slots' = slots[(unat h + p) mod 2 ^ k := Some (i, h)]" "\<forall>q<p. slots ! ((unat h + q) mod 2 ^ k) \<noteq> None" by blast
  let ?s = "(unat h + p) mod 2 ^ k"
  have s: "?s < length slots" by (simp add: len)
  have keep: "slots' ! t = slots ! t" if "slots ! t \<noteq> None" for t
    using that p(2) p(3) by (cases "t = ?s") auto
  have used: "j < i \<and> x = hs ! j" if "t < length slots" "slots ! t = Some (j, x)" for t j x
    using ok that by (auto simp: table_ok_def)
  have "j < Suc i \<and> x = hs ! j" if "t < length slots'" "slots' ! t = Some (j, x)" for t j x
    using that used [of t j x] h p(3) s by (cases "t = ?s") auto
  moreover have "\<exists>p<kProbeChainMax. slots' ! ((unat (hs ! j) + p) mod length slots') = Some (j, hs ! j) \<and>
      (\<forall>q<p. \<exists>j'<j. \<exists>x. slots' ! ((unat (hs ! j) + q) mod length slots') = Some (j', x))" if "j < Suc i" for j
  proof (cases "j < i")
    case True
    then obtain r where r: "r < kProbeChainMax" "slots ! ((unat (hs ! j) + r) mod length slots) = Some (j, hs ! j)"
      "\<forall>q<r. \<exists>j'<j. \<exists>x. slots ! ((unat (hs ! j) + q) mod length slots) = Some (j', x)"
      using ok by (auto simp: table_ok_def)
    have "length slots' = length slots" using p(3) by simp
    with r keep show ?thesis by (intro exI [of _ r]) (metis option.distinct(1))
  next
    case False
    with that have j: "j = i" by simp
    have "\<exists>j'<i. \<exists>x. slots' ! ((unat h + q) mod 2 ^ k) = Some (j', x)" if "q < p" for q
    proof -
      from p(4) that obtain j' x where e: "slots ! ((unat h + q) mod 2 ^ k) = Some (j', x)" by (auto simp: not_None_eq)
      with used [of "(unat h + q) mod 2 ^ k" j' x] keep [of "(unat h + q) mod 2 ^ k"] len show ?thesis by auto
    qed
    with p s j h len show ?thesis by (intro exI [of _ p]) auto
  qed
  ultimately show ?thesis by (auto simp: table_ok_def)
qed

lemma build_slots_ok:
  assumes "build_slots ht i names = Some ht'" and "ht_capacity ht = 2 ^ k" and "length (ht_slots ht) = 2 ^ k"
    and "length (ht_ptr_cache ht) = i" and "table_ok (ht_slots ht) hs i"
    and "drop i hs = map (\<lambda>name. hash_name name (ht_hash_seed ht)) names"
  shows "ht_capacity ht' = 2 ^ k \<and> length (ht_slots ht') = 2 ^ k \<and> ht_hash_seed ht' = ht_hash_seed ht \<and>
    ht_ptr_cache ht' = ht_ptr_cache ht @ names \<and> table_ok (ht_slots ht') hs (i + length names)"
  using assms
proof (induction names arbitrary: ht i)
  case (Cons name names)
  let ?h = "hash_name name (ht_hash_seed ht)"
  from Cons.prems(6) have hi: "hs ! i = ?h" "drop (Suc i) hs = map (\<lambda>name. hash_name name (ht_hash_seed ht)) names"
    by (metis hd_drop_conv_nth list.discI list.sel(1) list.simps(9) drop_eq_Nil not_le, metis drop_Suc list.sel(3) list.simps(9) tl_drop)
  obtain slots where ins: "probe_insert (2 ^ k) (ht_slots ht) (i, ?h) kProbeChainMax (unat ?h mod 2 ^ k) = Some slots"
    and rest: "build_slots (ht\<lparr>ht_slots := slots, ht_ptr_cache := ht_ptr_cache ht @ [name]\<rparr>) (i + 1) names = Some ht'"
    using Cons.prems(1,2) by (auto simp: Let_def and_capacity_Suc simp del: probe_insert.simps split: option.splits)
  have "length slots = 2 ^ k" using probe_insertD [OF ins] Cons.prems(3) by auto
  with Cons.IH [OF rest] table_ok_insert [OF Cons.prems(5,3) hi(1) ins] Cons.prems hi(2) show ?case by simp
qed simp

text \<open>Lookups in a table with all members.\<close>

lemma probe_lookup_eq:
  assumes ok: "table_ok (ht_slots ht) hs (length ms)" and len: "length (ht_slots ht) = 2 ^ k" "ht_capacity ht = 2 ^ k"
    and hs: "hs = map (\<lambda>m. hash_name (member_name st m) (ht_hash_seed ht)) ms"
    and pc: "ht_ptr_cache ht = map (member_name st) ms"
    and ms: "slot_members st start count = ms" "length ms = count" "\<forall>m\<in>set ms. length (member_name st m) = me_name_len m"
    and n: "n \<le> kProbeChainMax" and h: "h = hash_name name (ht_hash_seed ht)"
    and miss: "\<And>q. q < kProbeChainMax - n \<Longrightarrow>
      \<exists>j x. ht_slots ht ! ((unat h + q) mod 2 ^ k) = Some (j, x) \<and> j < count \<and> member_name st (ms ! j) \<noteq> name"
  shows "probe_lookup ht st start count name h n ((unat h + (kProbeChainMax - n)) mod 2 ^ k) =
    map_option (\<lambda>j. me_val_node (ms ! j)) (index_of ((=) name) (map (member_name st) ms)) \<or>
    probe_lookup ht st start count name h n ((unat h + (kProbeChainMax - n)) mod 2 ^ k) = lookup_linear st start count name"
  using n miss
proof (induction n)
  case (Suc n)
  let ?t = "kProbeChainMax - Suc n" and ?names = "map (member_name st) ms"
  let ?s = "(unat h + ?t) mod 2 ^ k"
  have t: "kProbeChainMax - n = Suc ?t" using Suc.prems(1) by simp
  have home: "\<exists>p<kProbeChainMax. ht_slots ht ! ((unat h + p) mod 2 ^ k) = Some (j, h) \<and>
      (\<forall>q<p. \<exists>j'<j. \<exists>x. ht_slots ht ! ((unat h + q) mod 2 ^ k) = Some (j', x))"
    if "j < count" "member_name st (ms ! j) = name" for j
  proof -
    have "hs ! j = h" using that ms(2) hs h by simp
    with ok that(1) ms(2) len(1) show ?thesis by (auto simp: table_ok_def)
  qed
  have later: "?t \<le> p" if "j < count" "member_name st (ms ! j) = name" "ht_slots ht ! ((unat h + p) mod 2 ^ k) = Some (j, x)" for j p x
    using Suc.prems(2) [of p] that by (metis not_le option.inject prod.inject)
  show ?case
  proof (cases "ht_slots ht ! ?s")
    case None
    have "index_of ((=) name) ?names = None"
    proof (rule ccontr)
      assume "index_of ((=) name) ?names \<noteq> None"
      then obtain j where j: "j < count" "member_name st (ms ! j) = name"
        using index_of_SomeD [of "(=) name" ?names] ms(2) by fastforce
      from home [OF this] obtain p where p: "ht_slots ht ! ((unat h + p) mod 2 ^ k) = Some (j, h)"
        "\<forall>q<p. \<exists>j'<j. \<exists>x. ht_slots ht ! ((unat h + q) mod 2 ^ k) = Some (j', x)" by blast
      from later [OF j p(1)] p None show False by (metis le_neq_implies_less option.distinct(1))
    qed
    with None show ?thesis by simp
  next
    case (Some e)
    obtain j x where e: "e = (j, x)" by (cases e)
    have "?s < length (ht_slots ht)" using len(1) by simp
    with ok Some e ms(2) have jx: "j < count" "x = hs ! j" unfolding table_ok_def by blast+
    then have m: "ds_members st ! (start + j) = ms ! j" using ms(1,2) by (auto simp: slot_members_def)
    have nm: "take (me_name_len (ms ! j)) (ht_ptr_cache ht ! j) = member_name st (ms ! j)"
      using jx ms(2,3) pc nth_mem [of j ms] by simp
    show ?thesis
    proof (cases "member_name st (ms ! j) = name")
      case True
      have "x = h" using True jx ms(2) hs h by simp
      have "index_of ((=) name) ?names = Some j"
      proof (rule index_of_first)
        show "j < length ?names" "name = ?names ! j" using True jx ms(2) by auto
        fix i assume i: "i < j"
        show "name \<noteq> ?names ! i"
        proof
          assume "name = ?names ! i"
          with i jx ms(2) have n: "i < count" "member_name st (ms ! i) = name" by auto
          from home [OF this] obtain p where p: "ht_slots ht ! ((unat h + p) mod 2 ^ k) = Some (i, h)"
            "\<forall>q<p. \<exists>j'<i. \<exists>x. ht_slots ht ! ((unat h + q) mod 2 ^ k) = Some (j', x)" by blast
          from later [OF n p(1)] p Some e i show False
            by (metis le_neq_implies_less not_less_iff_gr_or_eq option.inject prod.inject)
        qed
      qed
      with True Some e \<open>x = h\<close> m nm jx ms(2) show ?thesis by (simp add: Let_def)
    next
      case False
      have step: "probe_lookup ht st start count name h (Suc n) ?s =
          probe_lookup ht st start count name h n ((unat h + (kProbeChainMax - n)) mod 2 ^ k)"
        unfolding t using Some e False m nm by (simp add: Let_def len and_capacity_Suc mod_Suc_eq)
      have "\<exists>j x. ht_slots ht ! ((unat h + q) mod 2 ^ k) = Some (j, x) \<and> j < count \<and> member_name st (ms ! j) \<noteq> name"
        if "q < kProbeChainMax - n" for q
        using that t Suc.prems(2) [of q] Some e False jx(1) by (cases "q = ?t") auto
      with Suc.IH Suc.prems(1) step show ?thesis by simp
    qed
  qed
qed simp

definition members_ok :: "'a document_storage_scheme \<Rightarrow> bool" where
  "members_ok st \<longleftrightarrow> (\<forall>m\<in>set (ds_members st). length (member_name st m) = me_name_len m \<and> me_name_len m < 2 ^ 32)"

lemma scan_members_index:
  "\<forall>m\<in>set ms. length (member_name st m) = me_name_len m \<and> me_name_len m < 2 ^ 32 \<Longrightarrow>
     scan_members st name ms = map_option (\<lambda>j. me_val_node (ms ! j)) (index_of ((=) name) (map (member_name st) ms))"
  by (induction ms) (auto simp: option.map_comp comp_def)

lemma slot_members_subset: "set (slot_members st start count) \<subseteq> set (ds_members st)"
  by (auto simp: slot_members_def dest: in_set_takeD in_set_dropD)

lemma lookup_in_eq:
  assumes built: "build_table (hash_table_create (clamped_capacity count) count seed) st start count = Some ht"
    and cap: "clamped_capacity count > 0" and ok: "members_ok st" and range: "start + count \<le> length (ds_members st)"
  shows "lookup_in ht st start count name = lookup_linear st start count name"
proof -
  let ?ms = "slot_members st start count" and ?h0 = "hash_table_create (clamped_capacity count) count seed"
  let ?hs = "map (\<lambda>m. hash_name (member_name st m) seed) ?ms"
  have len: "length ?ms = count" using range by (simp add: slot_members_def)
  have names: "\<forall>m\<in>set ?ms. length (member_name st m) = me_name_len m \<and> me_name_len m < 2 ^ 32"
    using ok slot_members_subset [of st start count] by (auto simp: members_ok_def)
  obtain k where k: "clamped_capacity count = 2 ^ k" using clamped_capacity_power [OF cap] by blast
  have "ht_capacity ht = 2 ^ k \<and> length (ht_slots ht) = 2 ^ k \<and> ht_hash_seed ht = ht_hash_seed ?h0 \<and>
      ht_ptr_cache ht = ht_ptr_cache ?h0 @ map (member_name st) ?ms \<and>
      table_ok (ht_slots ht) ?hs (0 + length (map (member_name st) ?ms))"
    by (rule build_slots_ok [OF built [unfolded build_table_def]])
      (simp_all add: hash_table_create_def k table_ok_def)
  then have b: "ht_capacity ht = 2 ^ k" "length (ht_slots ht) = 2 ^ k" "ht_hash_seed ht = seed"
    "ht_ptr_cache ht = map (member_name st) ?ms" "table_ok (ht_slots ht) ?hs (length ?ms)"
    by (simp_all add: hash_table_create_def)
  have lin: "lookup_linear st start count name =
      map_option (\<lambda>j. me_val_node (?ms ! j)) (index_of ((=) name) (map (member_name st) ?ms))"
    using scan_members_index [OF names] by (simp add: lookup_linear_def)
  let ?h = "hash_name name (ht_hash_seed ht)"
  have "lookup_in ht st start count name = probe_lookup ht st start count name ?h kProbeChainMax ((unat ?h + (kProbeChainMax - kProbeChainMax)) mod 2 ^ k)"
    by (simp add: lookup_in_def Let_def b(1) and_capacity_Suc del: probe_lookup.simps)
  with probe_lookup_eq [OF b(5,2,1) _ b(4) refl len _ _ refl, of kProbeChainMax name] names lin b(3) show ?thesis
    by (auto simp del: probe_lookup.simps)
qed

text \<open>A table in a node has been built for that node.\<close>

definition index_built :: "'a document_storage_scheme \<Rightarrow> json_node \<Rightarrow> bool" where
  "index_built st n \<longleftrightarrow>
     (\<forall>ht. nd_payload n = P_hash (Hash_table ht) \<longrightarrow>
        clamped_capacity (nd_len n) > 0 \<and>
        (\<exists>seed. build_table (hash_table_create (clamped_capacity (nd_len n)) (nd_len n) seed) st (nd_off n) (nd_len n) = Some ht))"

definition object_nodes_ok :: "'a document_storage_scheme \<Rightarrow> bool" where
  "object_nodes_ok st \<longleftrightarrow> members_ok st \<and>
     (\<forall>n\<in>set (ds_nodes st). nd_kind n = K_object \<longrightarrow> nd_off n + nd_len n \<le> length (ds_members st) \<and> index_built st n)"

fun run_lookups :: "json_env \<Rightarrow> (nat \<times> string) list \<Rightarrow> 'a document_storage_scheme \<Rightarrow> nat option list" where
  "run_lookups env [] st = []"
| "run_lookups env ((idx, name) # qs) st = (case find_member env idx name st of (r, st') \<Rightarrow> r # run_lookups env qs st')"

definition object_lookup :: "'a document_storage_scheme \<Rightarrow> nat \<times> string \<Rightarrow> nat option" where
  "object_lookup st q = (case q of (idx, name) \<Rightarrow> lookup_linear st (nd_off (ds_nodes st ! idx)) (nd_len (ds_nodes st ! idx)) name)"

definition object_node :: "'a document_storage_scheme \<Rightarrow> nat \<Rightarrow> bool" where
  "object_node st idx \<longleftrightarrow> idx < length (ds_nodes st) \<and> nd_kind (ds_nodes st ! idx) = K_object"

lemma make_index_SomeD:
  assumes "make_index env st idx start count = Some ht"
  shows "clamped_capacity count > 0 \<and> build_table (hash_table_create (clamped_capacity count) count (ev_hash_seed env idx)) st start count = Some ht"
  using assms by (simp add: make_index_def Let_def split: if_splits)

lemma member_name_set_hash: "member_name (set_hash_index idx h st) = member_name st"
  by (simp add: fun_eq_iff set_hash_index_def member_name_def bytes_at_def str_at_def)

lemma slot_members_set_hash: "slot_members (set_hash_index idx h st) = slot_members st"
  by (simp add: fun_eq_iff slot_members_def set_hash_index_def)

lemma build_table_set_hash: "build_table ht (set_hash_index idx h st) = build_table ht st"
  by (simp add: fun_eq_iff build_table_def slot_members_set_hash member_name_set_hash)

lemma scan_members_cong: "member_name st' = member_name st \<Longrightarrow> scan_members st' name ms = scan_members st name ms"
  by (induction ms) auto

lemma lookup_linear_set_hash: "lookup_linear (set_hash_index idx h st) = lookup_linear st"
  by (simp add: fun_eq_iff lookup_linear_def slot_members_set_hash scan_members_cong [OF member_name_set_hash])

lemma set_hash_nodes:
  "idx < length (ds_nodes st) \<Longrightarrow> ds_nodes (set_hash_index idx h st) ! i =
     (if i = idx then (ds_nodes st ! i)\<lparr>nd_payload := P_hash h\<rparr> else ds_nodes st ! i)"
  by (simp add: set_hash_index_def)

lemma object_nodes_ok_set_hash:
  assumes ok: "object_nodes_ok st" and "object_node st idx"
    and h: "\<And>ht. h = Hash_table ht \<Longrightarrow> index_built st ((ds_nodes st ! idx)\<lparr>nd_payload := P_hash (Hash_table ht)\<rparr>)"
  shows "object_nodes_ok (set_hash_index idx h st)"
proof -
  let ?n = "(ds_nodes st ! idx)\<lparr>nd_payload := P_hash h\<rparr>"
  have "ds_nodes st ! idx \<in> set (ds_nodes st)" "nd_kind (ds_nodes st ! idx) = K_object" using assms(2) by (auto simp: object_node_def)
  with ok have range: "nd_off ?n + nd_len ?n \<le> length (ds_members st)" by (auto simp: object_nodes_ok_def)
  have built: "index_built (set_hash_index idx h st) n = index_built st n" for n
    by (simp add: index_built_def build_table_set_hash)
  have new: "index_built st ?n" using h by (cases h) (auto simp: index_built_def)
  have nodes: "set (ds_nodes (set_hash_index idx h st)) \<subseteq> insert ?n (set (ds_nodes st))"
    using set_update_subset_insert [of "ds_nodes st" idx ?n] by (simp add: set_hash_index_def)
  have "ds_members (set_hash_index idx h st) = ds_members st" by (simp add: set_hash_index_def)
  then show ?thesis using ok range new nodes unfolding object_nodes_ok_def members_ok_def member_name_set_hash built by auto
qed

lemma find_member_step:
  assumes "object_nodes_ok st" and "object_node st idx"
  shows "fst (find_member env idx name st) = object_lookup st (idx, name)" (is ?res)
    and "object_nodes_ok (snd (find_member env idx name st))" (is ?ok)
    and "object_lookup (snd (find_member env idx name st)) = object_lookup st" (is ?same)
    and "object_node (snd (find_member env idx name st)) = object_node st" (is ?nodes)
proof -
  let ?n = "ds_nodes st ! idx"
  have n: "?n \<in> set (ds_nodes st)" "nd_kind ?n = K_object" "idx < length (ds_nodes st)" using assms(2) by (auto simp: object_node_def)
  with assms(1) have range: "nd_off ?n + nd_len ?n \<le> length (ds_members st)" and built: "index_built st ?n" and mem: "members_ok st"
    by (auto simp: object_nodes_ok_def)
  have same: "object_lookup (set_hash_index idx h st) = object_lookup st" "object_node (set_hash_index idx h st) = object_node st" for h
    using n(3) by (auto simp: fun_eq_iff object_lookup_def object_node_def lookup_linear_set_hash set_hash_nodes)
      (simp_all add: set_hash_index_def)
  have found: "lookup_in ht st (nd_off ?n) (nd_len ?n) name = object_lookup st (idx, name)"
    if "index_built st (?n\<lparr>nd_payload := P_hash (Hash_table ht)\<rparr>)" for ht
    using that lookup_in_eq [OF _ _ mem range] by (auto simp: index_built_def object_lookup_def)
  have new: "index_built st (?n\<lparr>nd_payload := P_hash (Hash_table ht)\<rparr>)"
    if "make_index env st idx (nd_off ?n) (nd_len ?n) = Some ht" for ht
    using make_index_SomeD [OF that] by (auto simp: index_built_def)
  have "?res \<and> ?ok \<and> ?same \<and> ?nodes"
  proof (cases "nd_len ?n < kHashThreshold")
    case True
    with assms(1) show ?thesis by (simp add: find_member_def Let_def object_lookup_def)
  next
    case False
    have old: "index_built st (?n\<lparr>nd_payload := P_hash (Hash_table ht)\<rparr>)" if "nd_payload ?n = P_hash (Hash_table ht)" for ht
      using built that by (simp add: index_built_def)
    note upd = object_nodes_ok_set_hash [OF assms]
    show ?thesis
    proof (cases "nd_payload ?n")
      case (P_hash hi)
      show ?thesis
      proof (cases hi)
        case Hash_null
        show ?thesis
        proof (cases "make_index env st idx (nd_off ?n) (nd_len ?n)")
          case None
          with False P_hash Hash_null upd [of Hash_build_failed] same show ?thesis by (simp add: find_member_def Let_def object_lookup_def)
        next
          case (Some ht)
          with False P_hash Hash_null upd [of "Hash_table ht"] same new found show ?thesis by (simp add: find_member_def Let_def)
        qed
      next
        case (Hash_table ht)
        with False P_hash old found assms(1) show ?thesis by (simp add: find_member_def Let_def)
      qed (use False P_hash assms(1) in \<open>simp add: find_member_def Let_def object_lookup_def\<close>)
    qed (use False assms(1) in \<open>simp_all add: find_member_def Let_def object_lookup_def\<close>)
  qed
  then show ?res ?ok ?same ?nodes by simp_all
qed



end
