(* ===== verification/Json_Parse.thy ===== *)
theory Json_Parse
  imports Json_Lookup Json_Tokenizer
begin

text \<open>
  The JSON parser (\<open>TreeBuilder\<close> of \<open>json_parse.cxx\<close>) and its entry points
  (\<open>json_parse_entries.cxx\<close>).  The recursive descent returns a result or an error and changes the
  state; it is written with a bind that passes errors on.  Recursive calls carry fuel.  Running out of
  it is a separate outcome, and the entry points give enough of it for that never to happen.

  The index of member names of a large object is a list of names with the positions of their members.
\<close>

unbundle bit_operations_syntax

section \<open>Results with errors\<close>

datatype 'a jres = J_ok 'a | J_fail json_error | J_fuel

type_synonym 'a jp = "json_parser \<Rightarrow> 'a jres \<times> json_parser"

definition jret :: "'a \<Rightarrow> 'a jp" where
  "jret x s = (J_ok x, s)"

definition jbind :: "'a jp \<Rightarrow> ('a \<Rightarrow> 'b jp) \<Rightarrow> 'b jp" where
  "jbind m f s =
     (case m s of (J_ok x, s) \<Rightarrow> f x s | (J_fail e, s) \<Rightarrow> (J_fail e, s) | (J_fuel, s) \<Rightarrow> (J_fuel, s))"

definition jfail :: "json_issue_code \<Rightarrow> string \<Rightarrow> 'a jp" where
  "jfail code msg s = (J_fail (mk_err code msg s), s)"

definition jfuel :: "'a jp" where
  "jfuel s = (J_fuel, s)"

definition jlift :: "(json_parser \<Rightarrow> (json_error + 'a) \<times> json_parser) \<Rightarrow> 'a jp" where
  "jlift f s = (case f s of (Inl e, s) \<Rightarrow> (J_fail e, s) | (Inr x, s) \<Rightarrow> (J_ok x, s))"

definition jmove :: "(json_parser \<Rightarrow> json_parser) \<Rightarrow> unit jp" where
  "jmove f s = (J_ok (), f s)"

definition jdrop :: "'a jp \<Rightarrow> unit jp" where
  "jdrop m = jbind m (\<lambda>_. jret ())"

text \<open>On an error the staged members of the object are dropped.\<close>

definition on_error_resize :: "nat \<Rightarrow> 'a jp \<Rightarrow> 'a jp" where
  "on_error_resize members_start m s =
     (case m s of
        (J_fail e, s) \<Rightarrow> (J_fail e, s\<lparr>tb_staging_members := take members_start (tb_staging_members s)\<rparr>)
      | r \<Rightarrow> r)"

section \<open>Leaves\<close>

definition kRecursiveDepthCeiling :: nat where [simp]: "kRecursiveDepthCeiling = 256"

definition skip_ws_checked :: "json_parse_options \<Rightarrow> unit jp" where
  "skip_ws_checked opts s =
     (let s = skip_ws (po_mode opts) s
      in if tk_unterminated s \<noteq> None then (J_fail (whitespace_error s), s) else (J_ok (), s))"

definition at_end :: "json_parser \<Rightarrow> bool" where
  "at_end s \<longleftrightarrow> tk_pos s \<ge> src_size s"

definition too_deep :: "json_parse_options \<Rightarrow> nat \<Rightarrow> bool" where
  "too_deep opts depth \<longleftrightarrow> depth > kRecursiveDepthCeiling \<or> exceeds (po_max_depth opts) depth kDefaultMaxDepth"

definition push_node :: "json_node \<Rightarrow> nat jp" where
  "push_node n s = (J_ok (length (ds_nodes s)), s\<lparr>ds_nodes := ds_nodes s @ [n]\<rparr>)"

definition check_string_size :: "json_parse_options \<Rightarrow> nat \<Rightarrow> unit jp" where
  "check_string_size opts n =
     (if exceeds (po_max_string_size opts) n kDefaultMaxString
      then jfail String_too_large ''std::string exceeds max_string_size'' else jret ())"

definition parse_str_node :: "json_parse_options \<Rightarrow> nat jp" where
  "parse_str_node opts =
     jbind (jlift parse_str_body) (\<lambda>p.
     jbind (check_string_size opts (pt_len p)) (\<lambda>_.
     push_node (make_string (pt_off p) (pt_len p) (pt_flags p))))"

definition parse_str_node_sq :: "json_parse_options \<Rightarrow> nat jp" where
  "parse_str_node_sq opts =
     jbind (jlift parse_str_body_sq) (\<lambda>p.
     jbind (check_string_size opts (pt_len p)) (\<lambda>_.
     push_node (make_string (pt_off p) (pt_len p) (pt_flags p))))"

definition skip_str :: "json_parse_options \<Rightarrow> char \<Rightarrow> unit jp" where
  "skip_str opts quote = jbind (jlift (skip_str_body_no_store quote)) (check_string_size opts)"

definition expect_word :: "string \<Rightarrow> unit jp" where
  "expect_word w s =
     (if substr (ds_input s) (tk_pos s) (length w) \<noteq> w then jfail Syntax_error ''invalid token'' s
      else (J_ok (), adv (length w) s))"

definition parse_number :: "json_env \<Rightarrow> nat jp" where
  "parse_number env s0 =
     jbind (jlift parse_number_lexeme) (\<lambda>(lexeme, int_form).
       case build_number_node_from_lexeme env (u32_of (tk_pos s0)) (u32_of (length lexeme))
              (kStorageInputView OR kRawJsonSlice) lexeme (Some int_form) of
         Inl e \<Rightarrow> (\<lambda>s. (J_fail e, s))
       | Inr node \<Rightarrow> push_node node) s0"

definition unexpected_character :: "'a jp" where
  "unexpected_character s =
     jfail Syntax_error (''std::unexpected character '' @ [CHR 0x27, src_at s (tk_pos s), CHR 0x27]) s"

section \<open>Skipping a value\<close>

definition close_bracket :: "json_parse_options \<Rightarrow> char \<Rightarrow> string \<Rightarrow> string \<Rightarrow> bool jp" where
  "close_bracket opts close eof_msg sep_msg =
     jbind (skip_ws_checked opts) (\<lambda>_ s.
       if at_end s then jfail Unexpected_eof eof_msg s
       else if src_at s (tk_pos s) = close then (J_ok True, adv 1 s)
       else if src_at s (tk_pos s) \<noteq> CHR '','' then jfail Syntax_error sep_msg s
       else
         jbind (jmove (adv 1)) (\<lambda>_.
           if po_mode opts = Json5 then
             jbind (skip_ws_checked opts) (\<lambda>_ s.
               if \<not> at_end s \<and> src_at s (tk_pos s) = close then (J_ok True, adv 1 s) else (J_ok False, s))
           else jret False) s)"

text \<open>After an opening bracket: whether the container is empty.\<close>

definition open_bracket :: "json_parse_options \<Rightarrow> char \<Rightarrow> bool jp" where
  "open_bracket opts close =
     jbind (jmove (adv 1)) (\<lambda>_. jbind (skip_ws_checked opts) (\<lambda>_ s.
       if \<not> at_end s \<and> src_at s (tk_pos s) = close then (J_ok True, adv 1 s) else (J_ok False, s)))"

definition skip_key :: "json_parse_options \<Rightarrow> unit jp" where
  "skip_key opts s =
     (let c = src_at s (tk_pos s)
      in if c = CHR 0x22 then jdrop (jlift (skip_str_body_no_store c)) (adv 1 s)
         else if po_mode opts = Json5 then
           (if c = CHR 0x27 then jdrop (jlift (skip_str_body_no_store c)) (adv 1 s)
            else jdrop (jlift parse_unquoted_key) s)
         else jfail Syntax_error ''std::expected string key'' s)"

definition expect_colon :: "json_parse_options \<Rightarrow> unit jp" where
  "expect_colon opts =
     jbind (skip_ws_checked opts) (\<lambda>_ s.
       if at_end s \<or> src_at s (tk_pos s) \<noteq> CHR '':'' then jfail Syntax_error (''std::expected '' @ [CHR 0x27, CHR '':'', CHR 0x27]) s
       else (J_ok (), adv 1 s))"

definition array_sep_msg :: string where
  "array_sep_msg = ''std::expected '' @ [CHR 0x27, CHR '','', CHR 0x27] @ '' or '' @ [CHR 0x27, CHR '']'', CHR 0x27]"

definition object_sep_msg :: string where
  "object_sep_msg = ''std::expected '' @ [CHR 0x27, CHR '','', CHR 0x27] @ '' or '' @ [CHR 0x27, CHR ''}'', CHR 0x27]"

text \<open>What is common to reading and skipping a value: white space, the end of the input and the depth.\<close>

definition value_start :: "json_parse_options \<Rightarrow> nat \<Rightarrow> char jp" where
  "value_start opts depth =
     jbind (skip_ws_checked opts) (\<lambda>_ s.
       if at_end s then jfail Unexpected_eof ''std::unexpected end of input'' s
       else if too_deep opts depth then jfail Nesting_too_deep ''nesting depth limit exceeded'' s
       else (J_ok (src_at s (tk_pos s)), s))"

fun skip_value :: "json_parse_options \<Rightarrow> nat \<Rightarrow> nat \<Rightarrow> unit jp"
and skip_array_loop :: "json_parse_options \<Rightarrow> nat \<Rightarrow> nat \<Rightarrow> unit jp"
and skip_object_loop :: "json_parse_options \<Rightarrow> nat \<Rightarrow> nat \<Rightarrow> unit jp" where
  "skip_value opts 0 depth = jfuel"
| "skip_value opts (Suc n) depth =
     jbind (value_start opts depth) (\<lambda>c.
       if c = CHR 0x22 then jbind (jmove (adv 1)) (\<lambda>_. skip_str opts c)
       else if po_mode opts = Json5 \<and> c = CHR 0x27 then jbind (jmove (adv 1)) (\<lambda>_. skip_str opts c)
       else if c = CHR ''['' then
         jbind (open_bracket opts (CHR '']'')) (\<lambda>closed. if closed then jret () else skip_array_loop opts n depth)
       else if c = CHR ''{'' then
         jbind (open_bracket opts (CHR ''}'')) (\<lambda>closed. if closed then jret () else skip_object_loop opts n depth)
       else if c = CHR ''t'' then expect_word ''true''
       else if c = CHR ''f'' then expect_word ''false''
       else if c = CHR ''n'' then expect_word ''null''
       else if c = CHR ''-'' \<or> is_digit c then jdrop (jlift parse_number_lexeme)
       else unexpected_character)"
| "skip_array_loop opts 0 depth = jfuel"
| "skip_array_loop opts (Suc n) depth =
     jbind (skip_value opts n (depth + 1)) (\<lambda>_.
     jbind (close_bracket opts (CHR '']'') ''EOF in array'' array_sep_msg) (\<lambda>closed.
       if closed then jret () else skip_array_loop opts n depth))"
| "skip_object_loop opts 0 depth = jfuel"
| "skip_object_loop opts (Suc n) depth =
     jbind (skip_ws_checked opts) (\<lambda>_ s.
       if at_end s then jfail Unexpected_eof ''EOF in object'' s
       else
         jbind (skip_key opts) (\<lambda>_.
         jbind (expect_colon opts) (\<lambda>_.
         jbind (skip_value opts n (depth + 1)) (\<lambda>_.
         jbind (close_bracket opts (CHR ''}'') ''EOF in object'' object_sep_msg) (\<lambda>closed.
           if closed then jret () else skip_object_loop opts n depth)))) s)"

section \<open>Building the tree\<close>

definition finish_array :: "nat \<Rightarrow> nat jp" where
  "finish_array children_start s =
     push_node (node_array (u32_of (length (ds_children s))) (u32_of (length (tb_staging s) - children_start)))
       (s\<lparr>ds_children := ds_children s @ drop children_start (tb_staging s),
          tb_staging := take children_start (tb_staging s)\<rparr>)"

text \<open>The separator after an array element; a wrong one drops the staged children.\<close>

definition array_separator :: "json_parse_options \<Rightarrow> nat \<Rightarrow> bool jp" where
  "array_separator opts children_start =
     jbind (skip_ws_checked opts) (\<lambda>_ s.
       if at_end s then jfail Unexpected_eof ''EOF in array'' s
       else if src_at s (tk_pos s) = CHR '']'' then (J_ok True, adv 1 s)
       else if src_at s (tk_pos s) \<noteq> CHR '','' then
         jfail Syntax_error array_sep_msg (s\<lparr>tb_staging := take children_start (tb_staging s)\<rparr>)
       else
         jbind (jmove (adv 1)) (\<lambda>_.
           if po_mode opts = Json5 then
             jbind (skip_ws_checked opts) (\<lambda>_ s.
               if \<not> at_end s \<and> src_at s (tk_pos s) = CHR '']'' then (J_ok True, adv 1 s) else (J_ok False, s))
           else jret False) s)"

definition push_child :: "nat \<Rightarrow> unit jp" where
  "push_child idx = jmove (\<lambda>s. s\<lparr>tb_staging := tb_staging s @ [u32_of idx]\<rparr>)"

definition kDedupLinearMax :: nat where [simp]: "kDedupLinearMax = 8"

type_synonym name_index = "(string \<times> nat) list"

definition emplace_name :: "string \<Rightarrow> nat \<Rightarrow> name_index \<Rightarrow> name_index" where
  "emplace_name name i index = (if map_of index name = None then (name, i) # index else index)"

definition staged_name :: "json_parser \<Rightarrow> nat \<Rightarrow> string" where
  "staged_name s i =
     (let m = tb_staging_members s ! i in bytes_at s (me_name_off m) (me_name_len m) (me_name_flags m))"

definition dedup_member_index :: "nat \<Rightarrow> string \<Rightarrow> name_index option \<Rightarrow> json_parser \<Rightarrow> nat option" where
  "dedup_member_index members_start name seen s =
     (case seen of
        Some index \<Rightarrow> map_of index name
      | None \<Rightarrow> find (\<lambda>i. staged_name s i = name) [members_start..<length (tb_staging_members s)])"

definition finish_object :: "json_env \<Rightarrow> json_parse_options \<Rightarrow> nat \<Rightarrow> nat jp" where
  "finish_object env opts members_start s =
     (let len = length (tb_staging_members s) - members_start; ms = length (ds_members s);
          idx = length (ds_nodes s);
          s = s\<lparr>ds_members := ds_members s @ drop members_start (tb_staging_members s),
                tb_staging_members := take members_start (tb_staging_members s),
                ds_nodes := ds_nodes s @ [node_object (u32_of ms) (u32_of len)]\<rparr>;
          warm = (case po_warm_threshold opts of None \<Rightarrow> False | Some w \<Rightarrow> len \<ge> w \<and> len \<ge> kHashThreshold);
          cap = clamped_capacity (u32_of len)
      in if warm \<and> cap > 0 \<and> ev_alloc_ok env idx then
           (case build_table (hash_table_create cap (u32_of len) (ev_hash_seed env idx)) s ms len of
              Some ht \<Rightarrow> (J_ok idx, set_hash_index idx (Hash_table ht) s)
            | None \<Rightarrow> (J_ok idx, set_hash_index idx Hash_build_failed s))
         else (J_ok idx, s))"

definition parse_object_member_name :: "json_parse_options \<Rightarrow> parsed_str jp" where
  "parse_object_member_name opts s =
     (let c = src_at s (tk_pos s)
      in if c = CHR 0x22 then jlift parse_str_body (adv 1 s)
         else if po_mode opts = Json5 then
           (if c = CHR 0x27 then jlift parse_str_body_sq (adv 1 s) else jlift parse_unquoted_key s)
         else jfail Syntax_error ''std::expected string key'' s)"

definition count_stat :: "(parse_stats \<Rightarrow> parse_stats) \<Rightarrow> json_parser \<Rightarrow> json_parser" where
  "count_stat f s = s\<lparr>ds_stats := f (ds_stats s)\<rparr>"

text \<open>A new member is staged and entered in the index, which is created when there are many members.\<close>

definition stage_member :: "nat \<Rightarrow> parsed_str \<Rightarrow> string \<Rightarrow> nat \<Rightarrow> name_index option \<Rightarrow> name_index option jp" where
  "stage_member members_start p name val seen s =
     (let i = length (tb_staging_members s);
          s = s\<lparr>tb_staging_members := tb_staging_members s @
                  [\<lparr>me_name_off = pt_off p, me_name_len = pt_len p, me_val_node = u32_of val, me_name_flags = pt_flags p\<rparr>]\<rparr>;
          cur_count = i + 1 - members_start
      in case seen of
           Some index \<Rightarrow>
             (J_ok (Some (emplace_name name i index)),
              count_stat (\<lambda>t. t\<lparr>ps_duplicate_hash_inserts := ps_duplicate_hash_inserts t + 1\<rparr>) s)
         | None \<Rightarrow>
             if cur_count > kDedupLinearMax then
               (J_ok (Some (foldl (\<lambda>index j. emplace_name (staged_name s j) j index) [] [members_start..<i + 1])),
                count_stat (\<lambda>t. t\<lparr>ps_duplicate_hash_promotions := ps_duplicate_hash_promotions t + 1,
                                  ps_duplicate_hash_inserts := ps_duplicate_hash_inserts t + cur_count\<rparr>) s)
             else (J_ok None, s))"

definition replace_member :: "nat \<Rightarrow> nat \<Rightarrow> unit jp" where
  "replace_member i val = jmove (\<lambda>s. count_stat (\<lambda>t. t\<lparr>ps_last_wins_updates := ps_last_wins_updates t + 1\<rparr>)
     (s\<lparr>tb_staging_members := (tb_staging_members s)[i := (tb_staging_members s ! i)\<lparr>me_val_node := u32_of val\<rparr>]\<rparr>))"

text \<open>
  One member.  The value is read or skipped by the argument that does it, after the colon; the result
  is the index of names.
\<close>

definition member_value ::
    "json_parse_options \<Rightarrow> nat jp \<Rightarrow> unit jp \<Rightarrow> nat \<Rightarrow> name_index option \<Rightarrow> parsed_str \<Rightarrow> string \<Rightarrow> nat option \<Rightarrow> name_index option jp" where
  "member_value opts parse_val skip_val members_start seen p name dup_index =
     jbind (expect_colon opts) (\<lambda>_.
       case dup_index of
         Some i \<Rightarrow>
           if po_duplicate_key opts = Dup_first_wins then
             jbind skip_val (\<lambda>_.
             jbind (jmove (count_stat (\<lambda>t. t\<lparr>ps_first_wins_rollbacks := ps_first_wins_rollbacks t + 1\<rparr>)))
               (\<lambda>_. jret seen))
           else jbind parse_val (\<lambda>val. jbind (replace_member i val) (\<lambda>_. jret seen))
       | None \<Rightarrow> jbind parse_val (\<lambda>val. stage_member members_start p name val seen))"

definition named_member ::
    "json_parse_options \<Rightarrow> nat jp \<Rightarrow> unit jp \<Rightarrow> nat \<Rightarrow> name_index option \<Rightarrow> parsed_str \<Rightarrow> name_index option jp" where
  "named_member opts parse_val skip_val members_start seen p s =
     (let name = bytes_at s (pt_off p) (pt_len p) (pt_flags p);
          dup_index = dedup_member_index members_start name seen s;
          s = (if dup_index \<noteq> None
               then count_stat (\<lambda>t. t\<lparr>ps_duplicate_member_hits := ps_duplicate_member_hits t + 1\<rparr>) s else s)
      in if dup_index \<noteq> None \<and> po_duplicate_key opts = Dup_reject
         then jfail Duplicate_member (''duplicate member: '' @ name) s
         else member_value opts parse_val skip_val members_start seen p name dup_index s)"

definition parse_object_member ::
    "json_parse_options \<Rightarrow> nat jp \<Rightarrow> unit jp \<Rightarrow> nat \<Rightarrow> name_index option \<Rightarrow> name_index option jp" where
  "parse_object_member opts parse_val skip_val members_start seen =
     on_error_resize members_start (
       jbind (skip_ws_checked opts) (\<lambda>_ s.
       if at_end s then jfail Unexpected_eof ''EOF in object'' s
       else
         jbind (parse_object_member_name opts) (\<lambda>p.
         jbind (check_string_size opts (pt_len p)) (\<lambda>_.
         named_member opts parse_val skip_val members_start seen p)) s))"

definition parse_object_member_separator :: "json_parse_options \<Rightarrow> nat \<Rightarrow> bool jp" where
  "parse_object_member_separator opts members_start =
     on_error_resize members_start (close_bracket opts (CHR ''}'') ''EOF in object'' object_sep_msg)"

fun parse_value :: "json_env \<Rightarrow> json_parse_options \<Rightarrow> nat \<Rightarrow> nat \<Rightarrow> nat jp"
and parse_array_loop :: "json_env \<Rightarrow> json_parse_options \<Rightarrow> nat \<Rightarrow> nat \<Rightarrow> nat \<Rightarrow> nat jp"
and parse_object_loop :: "json_env \<Rightarrow> json_parse_options \<Rightarrow> nat \<Rightarrow> nat \<Rightarrow> nat \<Rightarrow> name_index option \<Rightarrow> nat jp" where
  "parse_value env opts 0 depth = jfuel"
| "parse_value env opts (Suc n) depth =
     jbind (value_start opts depth) (\<lambda>c.
       if c = CHR 0x22 then jbind (jmove (adv 1)) (\<lambda>_. parse_str_node opts)
       else if po_mode opts = Json5 \<and> c = CHR 0x27 then jbind (jmove (adv 1)) (\<lambda>_. parse_str_node_sq opts)
       else if c = CHR ''['' then
         jbind (open_bracket opts (CHR '']'')) (\<lambda>closed s.
           if closed then finish_array (length (tb_staging s)) s
           else parse_array_loop env opts n depth (length (tb_staging s)) s)
       else if c = CHR ''{'' then
         jbind (open_bracket opts (CHR ''}'')) (\<lambda>closed s.
           if closed then push_node (node_object (u32_of (length (ds_members s))) 0) s
           else parse_object_loop env opts n depth (length (tb_staging_members s)) None s)
       else if c = CHR ''t'' then jbind (expect_word ''true'') (\<lambda>_. push_node (make_bool True))
       else if c = CHR ''f'' then jbind (expect_word ''false'') (\<lambda>_. push_node (make_bool False))
       else if c = CHR ''n'' then jbind (expect_word ''null'') (\<lambda>_. push_node make_null)
       else if c = CHR ''-'' \<or> is_digit c then parse_number env
       else unexpected_character)"
| "parse_array_loop env opts 0 depth children_start = jfuel"
| "parse_array_loop env opts (Suc n) depth children_start =
     jbind (parse_value env opts n (depth + 1)) (\<lambda>child.
     jbind (push_child child) (\<lambda>_.
     jbind (array_separator opts children_start) (\<lambda>closed.
       if closed then finish_array children_start else parse_array_loop env opts n depth children_start)))"
| "parse_object_loop env opts 0 depth members_start seen = jfuel"
| "parse_object_loop env opts (Suc n) depth members_start seen =
     jbind (parse_object_member opts (parse_value env opts n (depth + 1)) (skip_value opts n (depth + 1)) members_start seen) (\<lambda>seen.
     jbind (parse_object_member_separator opts members_start) (\<lambda>closed.
       if closed then finish_object env opts members_start
       else parse_object_loop env opts n depth members_start seen))"

section \<open>Entry points\<close>

definition parse_fuel :: "string \<Rightarrow> nat" where
  "parse_fuel input = 2 * length input + 2"

definition tree_builder :: "document_storage \<Rightarrow> json_parser" where
  "tree_builder st =
     document_storage.extend (st\<lparr>ds_stats := parse_stats_zero\<lparr>ps_input_bytes := length (ds_input st)\<rparr>\<rparr>)
       \<lparr>tk_pos = 0, tk_line = 1, tk_col = 1, tk_unterminated = None, tb_staging = [], tb_staging_members = []\<rparr>"

definition plain_error :: "json_issue_code \<Rightarrow> string \<Rightarrow> 'a jp" where
  "plain_error code msg s = (J_fail \<lparr>je_code = code, je_source = None, je_message = msg\<rparr>, s)"

definition parse_root :: "json_env \<Rightarrow> json_parse_options \<Rightarrow> unit jp" where
  "parse_root env opts s =
     jbind (skip_ws_checked opts) (\<lambda>_ s.
     if at_end s then plain_error Unexpected_eof ''empty input'' s
     else
       jbind (parse_value env opts (parse_fuel (ds_input s)) 0) (\<lambda>root.
       jbind (jmove (\<lambda>s. s\<lparr>ds_root := u32_of root\<rparr>)) (\<lambda>_.
       jbind (skip_ws_checked opts) (\<lambda>_ s.
         if \<not> at_end s then jfail Trailing_garbage ''trailing content after value'' s else (J_ok (), s)))) s) s"

definition parse_inplace :: "json_env \<Rightarrow> json_parse_options \<Rightarrow> document_storage \<Rightarrow> unit jres \<times> document_storage" where
  "parse_inplace env opts st =
     (case parse_root env opts (tree_builder st) of (r, s) \<Rightarrow> (r, document_storage.truncate s))"

definition check_input_limits :: "nat \<Rightarrow> json_parse_options \<Rightarrow> json_error option" where
  "check_input_limits input_size opts =
     (if input_size \<ge> 2 ^ 32 - 1
      then Some \<lparr>je_code = Input_too_large, je_source = None, je_message = ''input exceeds 4 GiB hard ceiling''\<rparr>
      else if exceeds (po_max_input_size opts) input_size kDefaultMaxInput
      then Some \<lparr>je_code = Input_too_large, je_source = None, je_message = ''input exceeds max_input_size''\<rparr>
      else None)"

definition kBOM :: string where
  "kBOM = [of_byte 0xEF, of_byte 0xBB, of_byte 0xBF]"

definition set_storage_input_view :: "string \<Rightarrow> document_storage \<Rightarrow> document_storage" where
  "set_storage_input_view src st =
     (if prefix kBOM src then st\<lparr>ds_bom := length kBOM, ds_input := drop (length kBOM) src\<rparr> else st\<lparr>ds_input := src\<rparr>)"

definition parse_document_storage :: "json_env \<Rightarrow> string \<Rightarrow> document_storage \<Rightarrow> json_parse_options \<Rightarrow> document_storage jres" where
  "parse_document_storage env input st opts =
     (case check_input_limits (length input) opts of
        Some e \<Rightarrow> J_fail e
      | None \<Rightarrow>
          (case parse_inplace env opts (set_storage_input_view input st) of
             (J_ok _, st) \<Rightarrow> J_ok st
           | (J_fail e, _) \<Rightarrow> J_fail e
           | (J_fuel, _) \<Rightarrow> J_fuel))"

definition json_parse :: "json_env \<Rightarrow> string \<Rightarrow> json_parse_options \<Rightarrow> document_storage jres" where
  "json_parse env input opts = parse_document_storage env input document_storage_new opts"

record json_arena =
  ja_storage :: document_storage
  ja_generation :: "32 word"

definition storage_reset :: "document_storage \<Rightarrow> document_storage" where
  "storage_reset st =
     st\<lparr>ds_nodes := [], ds_arena := [], ds_children := [], ds_members := [], ds_external := [], ds_input := [],
        ds_root := 0, ds_bom := 0, ds_stats := parse_stats_zero\<rparr>"

definition reset_storage_for_reuse :: "json_arena \<Rightarrow> json_arena" where
  "reset_storage_for_reuse a =
     a\<lparr>ja_generation := ja_generation a + 1, ja_storage := storage_reset (ja_storage a)\<rparr>"

text \<open>The result is the generation the document belongs to.\<close>

definition parse_into :: "json_env \<Rightarrow> string \<Rightarrow> json_parse_options \<Rightarrow> json_arena \<Rightarrow> 32 word jres \<times> json_arena" where
  "parse_into env input opts a =
     (case check_input_limits (length input) opts of
        Some e \<Rightarrow> (J_fail e, a)
      | None \<Rightarrow>
          let a = reset_storage_for_reuse a
          in case parse_inplace env opts (set_storage_input_view input (ja_storage a)) of
               (J_ok _, st) \<Rightarrow> (J_ok (ja_generation a), a\<lparr>ja_storage := st\<rparr>)
             | (J_fail e, st) \<Rightarrow> (J_fail e, a\<lparr>ja_storage := st\<rparr>)
             | (J_fuel, st) \<Rightarrow> (J_fuel, a\<lparr>ja_storage := st\<rparr>))"

definition arena_reset :: "json_arena \<Rightarrow> json_arena" where
  "arena_reset a = a\<lparr>ja_generation := ja_generation a + 1, ja_storage := document_storage_new\<rparr>"

section \<open>Reasoning about the parser\<close>

text \<open>
  What holds of the result and the state when a step succeeds; \<open>fuel\<close> says whether running out of
  fuel is allowed.
\<close>

definition jpost :: "bool \<Rightarrow> 'a jp \<Rightarrow> json_parser \<Rightarrow> ('a \<Rightarrow> json_parser \<Rightarrow> bool) \<Rightarrow> bool" where
  "jpost fuel m s Q = (case m s of (J_ok x, s') \<Rightarrow> Q x s' | (J_fail e, s') \<Rightarrow> True | (J_fuel, s') \<Rightarrow> fuel)"

named_theorems jposts \<open>what a step of the JSON parser has to establish\<close>

lemma jpost_bind [jposts]: "jpost F (jbind m f) s Q \<longleftrightarrow> jpost F m s (\<lambda>x s'. jpost F (f x) s' Q)"
  by (auto simp: jpost_def jbind_def split: prod.splits jres.splits)

lemma jpost_ret [jposts]: "jpost F (jret x) s Q \<longleftrightarrow> Q x s"
  by (simp add: jpost_def jret_def)

lemma jpost_move [jposts]: "jpost F (jmove f) s Q \<longleftrightarrow> Q () (f s)"
  by (simp add: jpost_def jmove_def)

lemma jpost_fails [jposts]:
  "jpost F (jfail c m) s Q" "jpost F jfuel s Q \<longleftrightarrow> F" "jpost F (plain_error c m) s Q" "jpost F unexpected_character s Q"
  by (simp_all add: jpost_def jfail_def jfuel_def plain_error_def unexpected_character_def)

lemma jpost_if [jposts]: "jpost F (if b then m else m') s Q \<longleftrightarrow> (if b then jpost F m s Q else jpost F m' s Q)"
  by simp

lemma jpost_drop [jposts]: "jpost F (jdrop m) s Q \<longleftrightarrow> jpost F m s (\<lambda>_ s'. Q () s')"
  by (simp add: jdrop_def jposts)

lemma jpost_mono: "jpost F m s P \<Longrightarrow> (\<And>x s'. P x s' \<Longrightarrow> Q x s') \<Longrightarrow> jpost F m s Q"
  by (auto simp: jpost_def split: prod.splits jres.splits)

lemma jpost_conj: "jpost F m s P \<Longrightarrow> jpost F m s Q \<Longrightarrow> jpost F m s (\<lambda>x s'. P x s' \<and> Q x s')"
  by (auto simp: jpost_def split: prod.splits jres.splits)

lemma jpost_lift: "(\<And>x s'. f s = (Inr x, s') \<Longrightarrow> Q x s') \<Longrightarrow> jpost F (jlift f) s Q"
  by (auto simp: jpost_def jlift_def split: prod.splits sum.splits)

lemma jpost_on_error [jposts]: "jpost F (on_error_resize k m) s Q \<longleftrightarrow> jpost F m s Q"
  by (auto simp: jpost_def on_error_resize_def split: prod.splits jres.splits)

lemma jpost_okD: "jpost F m s Q \<Longrightarrow> m s = (J_ok x, s') \<Longrightarrow> Q x s'"
  by (simp add: jpost_def)

text \<open>Steps written with the state as an argument.\<close>

lemma jpost_fun_if [jposts]:
  "jpost F (\<lambda>s. if b s then m s else m' s) s Q \<longleftrightarrow> (if b s then jpost F m s Q else jpost F m' s Q)"
  by (simp add: jpost_def)

lemma jpost_fun_ok [jposts]: "jpost F (\<lambda>s. (J_ok (x s), f s)) s Q \<longleftrightarrow> Q (x s) (f s)"
  by (simp add: jpost_def)

lemma jpost_fun_fail [jposts]: "jpost F (\<lambda>s. (J_fail (y s), f s)) s Q" "jpost F (\<lambda>s. jfail c (h s) (f s)) s Q"
  by (simp_all add: jpost_def jfail_def)

lemma jpost_cong: "m s = m' s \<Longrightarrow> jpost F m s Q = jpost F m' s Q"
  by (simp add: jpost_def)

section \<open>Enough fuel\<close>

lemma fwd_upd [simp]:
  "fwd s (s'\<lparr>ds_nodes := a\<rparr>) = fwd s s'" "fwd s (s'\<lparr>tb_staging := b\<rparr>) = fwd s s'"
  "fwd s (s'\<lparr>tb_staging_members := c\<rparr>) = fwd s s'" "fwd s (s'\<lparr>ds_children := b\<rparr>) = fwd s s'"
  "fwd s (s'\<lparr>ds_members := c\<rparr>) = fwd s s'" "fwd s (s'\<lparr>ds_stats := t\<rparr>) = fwd s s'"
  "fwd s (set_hash_index i h s') = fwd s s'" "fwd s (count_stat g s') = fwd s s'"
  by (simp_all add: fwd_def set_hash_index_def count_stat_def)

lemma fwd_lift: "(\<And>s. fwd s (snd (f s))) \<Longrightarrow> jpost F (jlift f) s (\<lambda>_. fwd s)"
  by (rule jpost_lift) (metis snd_conv)

lemma fwd_skip_ws_checked: "jpost F (skip_ws_checked opts) s (\<lambda>_. fwd s)"
  using fwd_skip_ws [of s "po_mode opts"] by (simp add: jpost_def skip_ws_checked_def Let_def)

lemma fwd_push_node [jposts]: "jpost F (push_node n) s Q = Q (length (ds_nodes s)) (s\<lparr>ds_nodes := ds_nodes s @ [n]\<rparr>)"
  by (simp add: jpost_def push_node_def)

lemma fwd_check_string_size [jposts]:
  "jpost F (check_string_size opts n) s Q \<longleftrightarrow> (exceeds (po_max_string_size opts) n kDefaultMaxString \<or> Q () s)"
  by (simp add: check_string_size_def jposts)

section \<open>Parsing ends\<close>

lemma jpost_weaken: "jpost F m s (\<lambda>_. fwd s) \<Longrightarrow> (\<And>x s'. fwd s s' \<Longrightarrow> Q x s') \<Longrightarrow> jpost F m s Q"
  by (erule jpost_mono)

lemmas skip_ws_checkedI = jpost_weaken [OF fwd_skip_ws_checked]

lemma string_nodes_fwd:
  "jpost F (parse_str_node opts) s (\<lambda>_. fwd s)" "jpost F (parse_str_node_sq opts) s (\<lambda>_. fwd s)"
  "jpost F (skip_str opts q) s (\<lambda>_. fwd s)" "jpost F (parse_number env) s (\<lambda>_. fwd s)"
proof -
  show "jpost F (parse_str_node opts) s (\<lambda>_. fwd s)" "jpost F (parse_str_node_sq opts) s (\<lambda>_. fwd s)"
    "jpost F (skip_str opts q) s (\<lambda>_. fwd s)"
    unfolding parse_str_node_def parse_str_node_sq_def skip_str_def
    by (auto simp: jposts intro!: jpost_weaken [OF fwd_lift] fwd_strings)
  show "jpost F (parse_number env) s (\<lambda>_. fwd s)"
  proof -
    have "jpost F (jbind (jlift parse_number_lexeme) (\<lambda>(lexeme, int_form).
       case build_number_node_from_lexeme env (u32_of (tk_pos s)) (u32_of (length lexeme))
              (kStorageInputView OR kRawJsonSlice) lexeme (Some int_form) of
         Inl e \<Rightarrow> (\<lambda>s. (J_fail e, s)) | Inr node \<Rightarrow> push_node node)) s (\<lambda>_. fwd s)"
      by (auto simp: jposts split: sum.split prod.split intro!: jpost_weaken [OF fwd_lift] fwd_number)
    then show ?thesis by (simp add: jpost_def parse_number_def)
  qed
qed

lemma value_startI:
  assumes "\<And>s'. fwd s s' \<Longrightarrow> tk_pos s' < src_size s' \<Longrightarrow> Q (src_at s' (tk_pos s')) s'"
  shows "jpost F (value_start opts depth) s Q"
  using assms by (auto simp: value_start_def at_end_def jposts intro!: skip_ws_checkedI)

lemma open_bracketI:
  assumes "\<And>b s'. fwd (adv 1 s) s' \<Longrightarrow> Q b s'"
  shows "jpost F (open_bracket opts c) s Q"
  using assms by (auto simp: open_bracket_def jposts fwd_def intro!: skip_ws_checkedI)

lemma bracket_fwd:
  "jpost F (close_bracket opts c m1 m2) s (\<lambda>_ s'. fwd s s' \<and> tk_pos s < tk_pos s')"
  "jpost F (array_separator opts k) s (\<lambda>_ s'. fwd s s' \<and> tk_pos s < tk_pos s')"
  "jpost F (expect_colon opts) s (\<lambda>_ s'. fwd s s' \<and> tk_pos s < tk_pos s')"
  by (auto simp: close_bracket_def array_separator_def expect_colon_def jposts fwd_def intro!: skip_ws_checkedI)

lemma key_fwd:
  "jpost F (skip_key opts) s (\<lambda>_. fwd s)" "jpost F (parse_object_member_name opts) s (\<lambda>_. fwd s)"
proof -
  have "fwd (adv n s) s' \<Longrightarrow> fwd s s'" for n s' by (rule fwd_trans [OF fwd_adv(1)])
  then have adv: "jpost F (jlift f) (adv n s) (\<lambda>_. fwd s)" if "\<And>s. fwd s (snd (f s))" for f :: "json_parser \<Rightarrow> (json_error + 'x) \<times> json_parser" and n
    by (rule jpost_mono [OF fwd_lift [OF that]])
  have "jpost F (jlift (skip_str_body_no_store c)) (adv 1 s) (\<lambda>_. fwd s)" for c by (rule adv [OF fwd_strings(3)])
  then have "jpost F (jdrop (jlift (skip_str_body_no_store c))) (adv 1 s) (\<lambda>_. fwd s)"
    "jpost F (jdrop (jlift parse_unquoted_key)) s (\<lambda>_. fwd s)" for c
    using fwd_lift [OF fwd_strings(4), of F s] by (simp_all add: jposts)
  then show "jpost F (skip_key opts) s (\<lambda>_. fwd s)"
    by (simp add: jpost_def skip_key_def jfail_def Let_def)
  show "jpost F (parse_object_member_name opts) s (\<lambda>_. fwd s)"
    using adv [OF fwd_strings(1), of 1] adv [OF fwd_strings(2), of 1] fwd_lift [OF fwd_strings(4), of F s]
    by (simp add: jpost_def parse_object_member_name_def jfail_def Let_def)
qed

lemma finish_fwd:
  "jpost F (finish_array k) s (\<lambda>_. fwd s)" "jpost F (finish_object env opts k) s (\<lambda>_. fwd s)"
  "jpost F (push_child i) s (\<lambda>_. fwd s)" "jpost F (replace_member i v) s (\<lambda>_. fwd s)"
  "jpost F (stage_member k p nm v seen) s (\<lambda>_. fwd s)"
  by (auto simp: finish_array_def finish_object_def push_child_def replace_member_def stage_member_def jpost_def
      jmove_def push_node_def Let_def fwd_def count_stat_def set_hash_index_def split: option.splits)

lemma expect_wordI:
  "(\<And>s'. fwd s s' \<Longrightarrow> tk_pos s' = tk_pos s + length w \<Longrightarrow> Q () s') \<Longrightarrow> jpost F (expect_word w) s Q"
  by (simp add: jpost_def expect_word_def jfail_def fwd_def)

lemma number_fwd1:
  "jpost F (jlift parse_number_lexeme) s (\<lambda>_ s'. fwd s s' \<and> tk_pos s < tk_pos s')"
  by (rule jpost_lift) (metis fwd_number number_progress snd_conv)

text \<open>Every value consumes at least one byte, so twice the rest of the input is enough fuel.\<close>

abbreviation room :: "json_parser \<Rightarrow> nat" where
  "room s \<equiv> src_size s - tk_pos s"

definition needs :: "nat \<Rightarrow> nat \<Rightarrow> json_parser \<Rightarrow> bool" where
  "needs n k s \<longleftrightarrow> 2 * room s + k \<le> n"

lemma needs_fwd: "needs (Suc n) 1 s \<Longrightarrow> fwd s t \<Longrightarrow> tk_pos s < tk_pos t \<Longrightarrow> tk_pos s < src_size s \<Longrightarrow> needs n 2 t"
  "needs (Suc n) 2 s \<Longrightarrow> fwd s t \<Longrightarrow> needs n 1 t"
  "needs (Suc n) 2 s \<Longrightarrow> fwd s t \<Longrightarrow> tk_pos s < tk_pos t \<Longrightarrow> tk_pos s < src_size s \<Longrightarrow> needs n 2 t"
  by (auto simp: needs_def fwd_def)

lemma skip_value_fuel:
  assumes "needs (Suc n) 1 s"
    and "\<And>t. needs n 2 t \<Longrightarrow> jpost False (skip_array_loop opts n d) t (\<lambda>_. fwd t)"
    and "\<And>t. needs n 2 t \<Longrightarrow> jpost False (skip_object_loop opts n d) t (\<lambda>_. fwd t)"
  shows "jpost False (skip_value opts (Suc n) d) s (\<lambda>_ s'. fwd s s' \<and> tk_pos s < tk_pos s' \<and> tk_pos s < src_size s)"
proof -
  have loops: "jpost False (skip_array_loop opts n d) t Q" "jpost False (skip_object_loop opts n d) t Q"
    if "ds_input t = ds_input s" "tk_pos s < tk_pos t" "tk_pos s < src_size s" "\<And>t'. fwd t t' \<Longrightarrow> Q () t'" for t Q
    using needs_fwd(1) [OF assms(1), of t] that assms(2,3) by (auto simp: fwd_def intro: jpost_weaken)
  show ?thesis
    by (auto simp: jposts intro!: value_startI jpost_weaken [OF string_nodes_fwd(3)] open_bracketI loops expect_wordI
        jpost_mono [OF number_fwd1] simp: fwd_def)
qed

lemma skip_fuel:
  "(\<forall>d s. needs n 1 s \<longrightarrow> jpost False (skip_value opts n d) s (\<lambda>_ s'. fwd s s' \<and> tk_pos s < tk_pos s' \<and> tk_pos s < src_size s)) \<and>
   (\<forall>d s. needs n 2 s \<longrightarrow> jpost False (skip_array_loop opts n d) s (\<lambda>_. fwd s)) \<and>
   (\<forall>d s. needs n 2 s \<longrightarrow> jpost False (skip_object_loop opts n d) s (\<lambda>_. fwd s))"
proof (induction n)
  case (Suc n)
  have vals: "jpost False (skip_value opts n d) t Q"
    if "needs (Suc n) 2 s" "fwd s t" "\<And>t'. fwd t t' \<Longrightarrow> tk_pos t < tk_pos t' \<Longrightarrow> tk_pos t < src_size t \<Longrightarrow> Q () t'" for d s t Q
  proof -
    have "jpost False (skip_value opts n d) t (\<lambda>_ s'. fwd t s' \<and> tk_pos t < tk_pos s' \<and> tk_pos t < src_size t)"
      using Suc needs_fwd(2) [OF that(1,2)] by blast
    then show ?thesis by (rule jpost_mono) (use that(3) in auto)
  qed
  have loops: "jpost False (skip_array_loop opts n d) t Q" "jpost False (skip_object_loop opts n d) t Q"
    if "needs (Suc n) 2 s" "fwd s t" "tk_pos s < tk_pos t" "tk_pos s < src_size s" "\<And>t'. fwd t t' \<Longrightarrow> Q () t'" for d s t Q
    using Suc needs_fwd(3) [OF that(1-4)] that(5) by (auto intro: jpost_weaken)
  have "jpost False (skip_array_loop opts (Suc n) d) s (\<lambda>_. fwd s)" if "needs (Suc n) 2 s" for d s
    by (auto simp: jposts intro!: vals [OF that] jpost_mono [OF bracket_fwd(1)] loops(1) [OF that]) (auto simp: fwd_def)
  moreover have "jpost False (skip_object_loop opts (Suc n) d) s (\<lambda>_. fwd s)" if "needs (Suc n) 2 s" for d s
    by (auto simp: jposts intro!: skip_ws_checkedI jpost_weaken [OF key_fwd(1)] jpost_mono [OF bracket_fwd(3)]
        vals [OF that] jpost_mono [OF bracket_fwd(1)] loops(2) [OF that]) (auto simp: fwd_def)
  ultimately show ?case using Suc skip_value_fuel [of n _ opts] by blast
qed (simp add: jposts needs_def)

lemma member_fuel:
  assumes val: "\<And>t Q. fwd s t \<Longrightarrow> tk_pos s < tk_pos t \<Longrightarrow> (\<And>x t'. fwd t t' \<Longrightarrow> tk_pos t < src_size t \<Longrightarrow> Q x t') \<Longrightarrow> jpost False pv t Q"
    and skip: "\<And>t Q. fwd s t \<Longrightarrow> tk_pos s < tk_pos t \<Longrightarrow> (\<And>t'. fwd t t' \<Longrightarrow> tk_pos t < src_size t \<Longrightarrow> Q () t') \<Longrightarrow> jpost False sv t Q"
  shows "jpost False (parse_object_member opts pv sv k seen) s (\<lambda>_ s'. fwd s s' \<and> tk_pos s < tk_pos s' \<and> tk_pos s < src_size s)"
proof -
  have tail: "jpost False (member_value opts pv sv k seen p name dup) t (\<lambda>_ s'. fwd s s' \<and> tk_pos s < tk_pos s')"
    if "fwd s t" for t p name dup
    unfolding member_value_def
    by (auto simp: jposts fwd_def split: option.split intro!: jpost_mono [OF bracket_fwd(3)] val skip
        jpost_weaken [OF finish_fwd(4)] jpost_weaken [OF finish_fwd(5)]) (use that in \<open>auto simp: fwd_def count_stat_def\<close>)
  have "jpost False (named_member opts pv sv k seen p) t (\<lambda>_ s'. fwd s s' \<and> tk_pos s < tk_pos s')"
    if "fwd s t" for t p
    using tail [of t p] tail [of "count_stat (\<lambda>t. t\<lparr>ps_duplicate_member_hits := ps_duplicate_member_hits t + 1\<rparr>) t" p] that
    by (simp add: jpost_def named_member_def jfail_def Let_def)
  then show ?thesis
    unfolding parse_object_member_def jposts
    by (auto simp: jposts at_end_def fwd_def intro!: skip_ws_checkedI jpost_weaken [OF key_fwd(2)])
qed

lemma parse_value_fuel:
  assumes "needs (Suc n) 1 s"
    and "\<And>t k. needs n 2 t \<Longrightarrow> jpost False (parse_array_loop env opts n d k) t (\<lambda>_. fwd t)"
    and "\<And>t k seen. needs n 2 t \<Longrightarrow> jpost False (parse_object_loop env opts n d k seen) t (\<lambda>_. fwd t)"
  shows "jpost False (parse_value env opts (Suc n) d) s (\<lambda>_ s'. fwd s s' \<and> tk_pos s < tk_pos s' \<and> tk_pos s < src_size s)"
proof -
  have loops: "jpost False (parse_array_loop env opts n d k) t Q" "jpost False (parse_object_loop env opts n d k seen) t Q"
    if "ds_input t = ds_input s" "tk_pos s < tk_pos t" "tk_pos s < src_size s" "\<And>i t'. fwd t t' \<Longrightarrow> Q i t'" for t Q k seen
    using needs_fwd(1) [OF assms(1), of t] that assms(2,3) by (auto simp: fwd_def intro: jpost_weaken)
  have a: "jpost False (\<lambda>s. if b then finish_array (length (tb_staging s)) s
      else parse_array_loop env opts n d (length (tb_staging s)) s) t Q"
    if "ds_input t = ds_input s" "tk_pos s < tk_pos t" "tk_pos s < src_size s" "\<And>i t'. fwd t t' \<Longrightarrow> Q i t'" for t Q b
    using loops(1) [OF that] jpost_weaken [OF finish_fwd(1), of t Q] that(4) by (simp add: jpost_def)
  have o: "jpost False (\<lambda>s. if b then push_node (node_object (u32_of (length (ds_members s))) 0) s
      else parse_object_loop env opts n d (length (tb_staging_members s)) None s) t Q"
    if "ds_input t = ds_input s" "tk_pos s < tk_pos t" "tk_pos s < src_size s" "\<And>i t'. fwd t t' \<Longrightarrow> Q i t'" for t Q b
    using loops(2) [OF that] that(4) by (simp add: jpost_def push_node_def)
  have num: "jpost False (parse_number env) t (\<lambda>_ s'. fwd t s' \<and> tk_pos t < tk_pos s')" for t
  proof -
    have "jpost False (jbind (jlift parse_number_lexeme) (\<lambda>(lexeme, int_form).
       case build_number_node_from_lexeme env (u32_of (tk_pos t)) (u32_of (length lexeme))
              (kStorageInputView OR kRawJsonSlice) lexeme (Some int_form) of
         Inl e \<Rightarrow> (\<lambda>s. (J_fail e, s)) | Inr node \<Rightarrow> push_node node)) t (\<lambda>_ s'. fwd t s' \<and> tk_pos t < tk_pos s')"
      by (auto simp: jposts split: sum.split prod.split intro!: jpost_mono [OF number_fwd1])
    then show ?thesis by (simp add: jpost_def parse_number_def)
  qed
  show ?thesis
    by (auto simp: jposts simp del: jpost_fun_if intro!: value_startI jpost_weaken [OF string_nodes_fwd(1)]
        jpost_weaken [OF string_nodes_fwd(2)] open_bracketI a o expect_wordI jpost_mono [OF num] simp: fwd_def)
qed

lemma parse_fuel:
  "(\<forall>d s. needs n 1 s \<longrightarrow> jpost False (parse_value env opts n d) s (\<lambda>_ s'. fwd s s' \<and> tk_pos s < tk_pos s' \<and> tk_pos s < src_size s)) \<and>
   (\<forall>d k s. needs n 2 s \<longrightarrow> jpost False (parse_array_loop env opts n d k) s (\<lambda>_. fwd s)) \<and>
   (\<forall>d k seen s. needs n 2 s \<longrightarrow> jpost False (parse_object_loop env opts n d k seen) s (\<lambda>_. fwd s))"
proof (induction n)
  case (Suc n)
  have vals: "jpost False (parse_value env opts n d) t Q"
    if "needs (Suc n) 2 s" "fwd s t" "\<And>i t'. fwd t t' \<Longrightarrow> tk_pos t < tk_pos t' \<Longrightarrow> tk_pos t < src_size t \<Longrightarrow> Q i t'" for d s t Q
  proof -
    have "jpost False (parse_value env opts n d) t (\<lambda>_ s'. fwd t s' \<and> tk_pos t < tk_pos s' \<and> tk_pos t < src_size t)"
      using Suc needs_fwd(2) [OF that(1,2)] by blast
    then show ?thesis by (rule jpost_mono) (use that(3) in auto)
  qed
  have skips: "jpost False (skip_value opts n d) t Q"
    if "needs (Suc n) 2 s" "fwd s t" "\<And>t'. fwd t t' \<Longrightarrow> tk_pos t < src_size t \<Longrightarrow> Q () t'" for d s t Q
  proof -
    have "jpost False (skip_value opts n d) t (\<lambda>_ s'. fwd t s' \<and> tk_pos t < tk_pos s' \<and> tk_pos t < src_size t)"
      using skip_fuel needs_fwd(2) [OF that(1,2)] by blast
    then show ?thesis by (rule jpost_mono) (use that(3) in auto)
  qed
  have loops: "jpost False (parse_array_loop env opts n d k) t Q" "jpost False (parse_object_loop env opts n d k seen) t Q"
    if "needs (Suc n) 2 s" "fwd s t" "tk_pos s < tk_pos t" "tk_pos s < src_size s" "\<And>i t'. fwd t t' \<Longrightarrow> Q i t'" for d k seen s t Q
    using Suc needs_fwd(3) [OF that(1-4)] that(5) by (auto intro: jpost_weaken)
  have "jpost False (parse_array_loop env opts (Suc n) d k) s (\<lambda>_. fwd s)" if "needs (Suc n) 2 s" for d k s
    by (auto simp: jposts intro!: vals [OF that] jpost_weaken [OF finish_fwd(3)] jpost_mono [OF bracket_fwd(2)]
        jpost_weaken [OF finish_fwd(1)] loops(1) [OF that]) (auto simp: fwd_def)
  moreover have "jpost False (parse_object_loop env opts (Suc n) d k seen) s (\<lambda>_. fwd s)" if "needs (Suc n) 2 s" for d k seen s
  proof -
    have "jpost False (parse_object_member opts (parse_value env opts n (d + 1)) (skip_value opts n (d + 1)) k seen) s
        (\<lambda>_ s'. fwd s s' \<and> tk_pos s < tk_pos s' \<and> tk_pos s < src_size s)"
      by (rule member_fuel) (blast intro: vals [OF that] skips [OF that])+
    then show ?thesis
      by (auto simp: jposts parse_object_member_separator_def elim!: jpost_mono intro!: jpost_mono [OF bracket_fwd(1)]
          jpost_weaken [OF finish_fwd(2)] loops(2) [OF that]) (auto simp: fwd_def)
  qed
  moreover have "jpost False (parse_value env opts (Suc n) d) s (\<lambda>_ s'. fwd s s' \<and> tk_pos s < tk_pos s' \<and> tk_pos s < src_size s)"
    if "needs (Suc n) 1 s" for d s
    using that by (rule parse_value_fuel) (use Suc in blast)+
  ultimately show ?case by blast
qed (simp add: jposts needs_def)

lemma parse_root_fuel: "jpost False (parse_root env opts) s (\<lambda>_ _. True)"
proof -
  have v: "jpost False (\<lambda>s. jbind (parse_value env opts (parse_fuel (ds_input s)) 0) f s) t Q"
    if "\<And>i t'. fwd t t' \<Longrightarrow> jpost False (f i) t' Q" for f :: "nat \<Rightarrow> unit jp" and t Q
  proof -
    have "needs (parse_fuel (ds_input t)) 1 t" by (simp add: needs_def parse_fuel_def)
    then have "jpost False (parse_value env opts (parse_fuel (ds_input t)) 0) t
        (\<lambda>_ s'. fwd t s' \<and> tk_pos t < tk_pos s' \<and> tk_pos t < src_size t)" using parse_fuel by blast
    then have "jpost False (jbind (parse_value env opts (parse_fuel (ds_input t)) 0) f) t Q"
      unfolding jposts by (rule jpost_mono) (use that in auto)
    then show ?thesis by (simp add: jpost_def)
  qed
  have "jpost False (jbind (skip_ws_checked opts) (\<lambda>_ s.
     if at_end s then plain_error Unexpected_eof ''empty input'' s
     else
       jbind (parse_value env opts (parse_fuel (ds_input s)) 0) (\<lambda>root.
       jbind (jmove (\<lambda>s. s\<lparr>ds_root := u32_of root\<rparr>)) (\<lambda>_.
       jbind (skip_ws_checked opts) (\<lambda>_ s.
         if \<not> at_end s then jfail Trailing_garbage ''trailing content after value'' s else (J_ok (), s)))) s)) s (\<lambda>_ _. True)"
    unfolding jpost_bind jpost_fun_if
    by (auto simp: jpost_fails jpost_bind [symmetric] intro!: skip_ws_checkedI v)
       (auto simp: jposts intro!: skip_ws_checkedI)
  then show ?thesis by (simp add: jpost_def parse_root_def)
qed

text \<open>
  C37: Parsing a JSON text always returns, a document or an error, with every option, strict and
  JSON5: the recursion of the parser, which skips the values of repeated members as well as it reads
  values, never runs out of the fuel that the length of the input gives it.
\<close>

theorem json_parse_returns: "json_parse env input opts \<noteq> J_fuel"
proof -
  have "fst (parse_root env opts s) \<noteq> J_fuel" for s
    using parse_root_fuel [of env opts s] by (auto simp: jpost_def)
  then show ?thesis
    by (auto simp: json_parse_def parse_document_storage_def parse_inplace_def split: option.splits prod.splits jres.splits)
      (metis fst_conv)
qed

end
