(* ===== verification/Json_Grammar.thy ===== *)
theory Json_Grammar
  imports Json_Parse
begin

text \<open>
  The grammar of JSON texts (RFC 8259) with the value each text stands for, and what the tokenizer
  of the strict parser consumes: white space, string bodies and number lexemes of that grammar.

  The bytes of a string that are not escapes are grouped as the code groups them, by the lead byte and
  its continuation bytes.
\<close>

unbundle bit_operations_syntax

section \<open>Values and texts\<close>

datatype json_value =
    JV_null | JV_bool bool | JV_number string | JV_string string
  | JV_array "json_value list" | JV_object "(string \<times> json_value) list"

definition json_blank :: "char \<Rightarrow> bool" where
  "json_blank c \<longleftrightarrow> c = CHR 0x0A \<or> c = CHR '' '' \<or> c = CHR 0x09 \<or> c = CHR 0x0D"

abbreviation blanks :: "string \<Rightarrow> bool" where
  "blanks ws \<equiv> list_all json_blank ws"

text \<open>The bytes of one character that is written as it is.\<close>

definition json_unit :: "string \<Rightarrow> bool" where
  "json_unit u \<longleftrightarrow>
     (case u of
        [] \<Rightarrow> False
      | c # cs \<Rightarrow>
          0x20 \<le> byte c \<and> c \<noteq> CHR 0x22 \<and> c \<noteq> CHR 0x5C \<and> utf8_seq_len (byte c) = length u \<and>
          list_all (\<lambda>c. is_cont (byte c)) cs)"

text \<open>An escape after its backslash, with the bytes it stands for.\<close>

inductive json_escape_text :: "string \<Rightarrow> string \<Rightarrow> bool" where
  simple: "simple_escape (CHR 0x22) c = Some d \<Longrightarrow> json_escape_text [c] [d]"
| basic: "length h = 4 \<Longrightarrow> json_hex_value h = Some cp \<Longrightarrow> scalar_value cp \<Longrightarrow>
    json_escape_text (CHR ''u'' # h) (utf8_encode cp)"
| paired: "length h = 4 \<Longrightarrow> json_hex_value h = Some hi \<Longrightarrow> 0xD800 \<le> hi \<Longrightarrow> hi \<le> 0xDBFF \<Longrightarrow>
    length l = 4 \<Longrightarrow> json_hex_value l = Some lo \<Longrightarrow> 0xDC00 \<le> lo \<Longrightarrow> lo \<le> 0xDFFF \<Longrightarrow>
    json_escape_text (CHR ''u'' # h @ CHR 0x5C # CHR ''u'' # l)
      (utf8_encode (0x10000 + (hi - 0xD800) * 0x400 + (lo - 0xDC00)))"

inductive json_string_body :: "string \<Rightarrow> string \<Rightarrow> bool" where
  closed: "json_string_body [] []"
| plain: "json_unit u \<Longrightarrow> json_string_body t b \<Longrightarrow> json_string_body (u @ t) (u @ b)"
| escape: "json_escape_text e d \<Longrightarrow> json_string_body t b \<Longrightarrow> json_string_body (CHR 0x5C # e @ t) (d @ b)"

definition json_quoted :: "string \<Rightarrow> string \<Rightarrow> bool" where
  "json_quoted w b \<longleftrightarrow> (\<exists>t. w = CHR 0x22 # t @ [CHR 0x22] \<and> json_string_body t b)"

definition json_digits :: "string \<Rightarrow> bool" where
  "json_digits ds \<longleftrightarrow> ds \<noteq> [] \<and> list_all is_digit ds"

text \<open>A number: a sign, an integer part without leading zeros, a fraction, an exponent.\<close>

definition json_integer_part :: "string \<Rightarrow> bool" where
  "json_integer_part ds \<longleftrightarrow> json_digits ds \<and> (hd ds = CHR ''0'' \<longrightarrow> ds = ''0'')"

definition json_fraction_part :: "string \<Rightarrow> bool" where
  "json_fraction_part f \<longleftrightarrow> f = [] \<or> (\<exists>ds. f = CHR ''.'' # ds \<and> json_digits ds)"

definition json_exponent_part :: "string \<Rightarrow> bool" where
  "json_exponent_part x \<longleftrightarrow>
     x = [] \<or> (\<exists>e sign ds. x = e # sign @ ds \<and> e \<in> {CHR ''e'', CHR ''E''} \<and> sign \<in> {[], ''+'', ''-''} \<and> json_digits ds)"

definition json_number :: "string \<Rightarrow> bool" where
  "json_number w \<longleftrightarrow>
     (\<exists>sign i f x. w = sign @ i @ f @ x \<and> sign \<in> {[], ''-''} \<and> json_integer_part i \<and> json_fraction_part f \<and> json_exponent_part x)"

text \<open>What becomes of repeated names.\<close>

definition add_member ::
    "duplicate_key_policy \<Rightarrow> (string \<times> 'v) list \<Rightarrow> string \<times> 'v \<Rightarrow> (string \<times> 'v) list option" where
  "add_member pol ms m =
     (if fst m \<notin> fst ` set ms then Some (ms @ [m])
      else
        case pol of
          Dup_reject \<Rightarrow> None
        | Dup_first_wins \<Rightarrow> Some ms
        | Dup_last_wins \<Rightarrow> Some (map (\<lambda>n. if fst n = fst m then m else n) ms))"

fun add_members ::
    "duplicate_key_policy \<Rightarrow> (string \<times> 'v) list \<Rightarrow> (string \<times> 'v) list \<Rightarrow> (string \<times> 'v) list option" where
  "add_members pol acc [] = Some acc"
| "add_members pol acc (m # ms) = Option.bind (add_member pol acc m) (\<lambda>acc. add_members pol acc ms)"

inductive json_value_text :: "duplicate_key_policy \<Rightarrow> json_value \<Rightarrow> string \<Rightarrow> bool"
  and json_elements_text :: "duplicate_key_policy \<Rightarrow> json_value list \<Rightarrow> string \<Rightarrow> bool"
  and json_members_text :: "duplicate_key_policy \<Rightarrow> (string \<times> json_value) list \<Rightarrow> string \<Rightarrow> bool"
  for pol where
  null: "json_value_text pol JV_null ''null''"
| true: "json_value_text pol (JV_bool True) ''true''"
| false: "json_value_text pol (JV_bool False) ''false''"
| number: "json_number w \<Longrightarrow> json_value_text pol (JV_number w) w"
| str: "json_quoted w b \<Longrightarrow> json_value_text pol (JV_string b) w"
| empty_array: "blanks ws \<Longrightarrow> json_value_text pol (JV_array []) (CHR ''['' # ws @ '']'')"
| array: "json_elements_text pol vs w \<Longrightarrow> json_value_text pol (JV_array vs) (CHR ''['' # w @ '']'')"
| empty_object: "blanks ws \<Longrightarrow> json_value_text pol (JV_object []) (CHR ''{'' # ws @ ''}'')"
| object: "json_members_text pol raw w \<Longrightarrow> add_members pol [] raw = Some ms \<Longrightarrow>
    json_value_text pol (JV_object ms) (CHR ''{'' # w @ ''}'')"
| last_element: "blanks ws1 \<Longrightarrow> json_value_text pol v w \<Longrightarrow> blanks ws2 \<Longrightarrow> json_elements_text pol [v] (ws1 @ w @ ws2)"
| element: "blanks ws1 \<Longrightarrow> json_value_text pol v w \<Longrightarrow> blanks ws2 \<Longrightarrow> json_elements_text pol vs w' \<Longrightarrow>
    json_elements_text pol (v # vs) (ws1 @ w @ ws2 @ CHR '','' # w')"
| last_member: "blanks ws1 \<Longrightarrow> json_quoted n k \<Longrightarrow> blanks ws2 \<Longrightarrow> blanks ws3 \<Longrightarrow> json_value_text pol v w \<Longrightarrow> blanks ws4 \<Longrightarrow>
    json_members_text pol [(k, v)] (ws1 @ n @ ws2 @ CHR '':'' # ws3 @ w @ ws4)"
| member: "blanks ws1 \<Longrightarrow> json_quoted n k \<Longrightarrow> blanks ws2 \<Longrightarrow> blanks ws3 \<Longrightarrow> json_value_text pol v w \<Longrightarrow> blanks ws4 \<Longrightarrow>
    json_members_text pol ms w' \<Longrightarrow>
    json_members_text pol ((k, v) # ms) (ws1 @ n @ ws2 @ CHR '':'' # ws3 @ w @ ws4 @ CHR '','' # w')"

definition json_text :: "duplicate_key_policy \<Rightarrow> json_value \<Rightarrow> string \<Rightarrow> bool" where
  "json_text pol v input \<longleftrightarrow>
     (\<exists>ws1 w ws2. input = ws1 @ w @ ws2 \<and> blanks ws1 \<and> json_value_text pol v w \<and> blanks ws2)"

section \<open>Text that a step consumes\<close>

definition rest :: "json_parser \<Rightarrow> string" where
  "rest s = drop (tk_pos s) (ds_input s)"

text \<open>The step moves over the text and may add to the arena, by no more than it consumes.\<close>

definition same_tree :: "json_parser \<Rightarrow> json_parser \<Rightarrow> bool" where
  "same_tree s s' \<longleftrightarrow>
     s' = s\<lparr>tk_pos := tk_pos s', tk_line := tk_line s', tk_col := tk_col s', ds_arena := ds_arena s'\<rparr>"

definition lexed :: "json_parser \<Rightarrow> string \<Rightarrow> json_parser \<Rightarrow> bool" where
  "lexed s t s' \<longleftrightarrow>
     same_tree s s' \<and> rest s = t @ rest s' \<and> tk_pos s' = tk_pos s + length t \<and>
     (\<exists>b. ds_arena s' = ds_arena s @ b \<and> length b \<le> length t)"

lemma same_treeD:
  assumes "same_tree s s'"
  shows "ds_input s' = ds_input s" "ds_nodes s' = ds_nodes s" "ds_children s' = ds_children s" "ds_members s' = ds_members s"
    "ds_external s' = ds_external s" "ds_bom s' = ds_bom s" "tk_unterminated s' = tk_unterminated s"
    "tb_staging s' = tb_staging s" "tb_staging_members s' = tb_staging_members s" "ds_root s' = ds_root s"
  by (subst assms [unfolded same_tree_def], simp)+

lemma same_tree_trans: "same_tree s s' \<Longrightarrow> same_tree s' s'' \<Longrightarrow> same_tree s s''"
  by (cases s; cases s'; cases s'') (simp add: same_tree_def)

lemma same_tree_steps [simp]:
  "same_tree s s" "same_tree s (adv n s)" "same_tree s (newline s)" "same_tree s (next_unit n s)" "same_tree s (s\<lparr>ds_arena := a\<rparr>)"
  by (cases s, simp add: same_tree_def adv_def newline_def next_unit_def)+

lemma lexed_refl [simp]: "lexed s [] s"
  by (simp add: lexed_def)

lemma lexed_trans: "lexed s t s' \<Longrightarrow> lexed s' t' s'' \<Longrightarrow> lexed s (t @ t') s''"
  by (auto simp: lexed_def intro: same_tree_trans)

lemma lexedD:
  assumes "lexed s t s'"
  shows "rest s = t @ rest s'" "tk_pos s' = tk_pos s + length t" "same_tree s s'"
    "\<exists>b. ds_arena s' = ds_arena s @ b \<and> length b \<le> length t"
  using assms by (auto simp: lexed_def)

lemma rest_adv [simp]: "rest (adv n s) = drop n (rest s)" "rest (newline s) = drop 1 (rest s)" "rest (next_unit n s) = drop n (rest s)"
  by (simp_all add: rest_def add.commute)

lemma rest_nth: "i < length (rest s) \<Longrightarrow> rest s ! i = ds_input s ! (tk_pos s + i)"
  by (simp add: rest_def)

lemma at_rest: "tk_pos s < src_size s \<longleftrightarrow> rest s \<noteq> []" "tk_pos s < src_size s \<Longrightarrow> src_at s (tk_pos s) = hd (rest s)"
  by (auto simp: rest_def hd_drop_conv_nth)

lemma rest_Cons: "rest s = c # r \<longleftrightarrow> tk_pos s < src_size s \<and> src_at s (tk_pos s) = c \<and> rest (adv 1 s) = r"
  using at_rest [of s] by (cases "rest s") auto

lemma lexed_adv: "rest s = t @ r \<Longrightarrow> length t = n \<Longrightarrow> lexed s t (adv n s)"
  by (auto simp: lexed_def)

lemma lexed_newline: "rest s = c # r \<Longrightarrow> lexed s [c] (newline s)"
  by (simp add: lexed_def)

lemma lexed_unit: "rest s = t @ r \<Longrightarrow> length t = n \<Longrightarrow> lexed s t (next_unit n s)"
  by (auto simp: lexed_def)

section \<open>White space\<close>

lemma skip_blank_lexed:
  "lexed s (takeWhile json_blank (rest s)) (skip_blank s)"
proof (induction s rule: skip_blank.induct)
  case (1 s)
  show ?case
  proof (cases "rest s")
    case Nil
    then show ?thesis using at_rest [of s] by (subst skip_blank.simps) simp
  next
    case (Cons c r)
    then have c: "tk_pos s < src_size s" "src_at s (tk_pos s) = c" by (simp_all add: rest_Cons)
    have n: "lexed s [c] (newline s)" "lexed s [c] (adv 1 s)" using Cons by (auto intro: lexed_newline lexed_adv)
    have r: "rest (newline s) = r" "rest (adv 1 s) = r" using Cons by simp_all
    have b: "json_blank c" if "c = CHR 0x0A \<or> c = CHR '' '' \<or> c = CHR 0x09 \<or> c = CHR 0x0D" for c
      using that by (auto simp: json_blank_def)
    have "lexed s (takeWhile json_blank (rest s)) (skip_blank (newline s))" if "c = CHR 0x0A"
      using lexed_trans [OF n(1) "1.IH"(1) [OF c(1) refl]] c Cons that r b [of c] by simp
    moreover have "lexed s (takeWhile json_blank (rest s)) (skip_blank (adv 1 s))"
      if "c \<noteq> CHR 0x0A" "c = CHR '' '' \<or> c = CHR 0x09 \<or> c = CHR 0x0D"
      using lexed_trans [OF n(2) "1.IH"(2) [OF c(1) refl]] c Cons that r b [of c] by auto
    ultimately show ?thesis using c Cons by (subst skip_blank.simps) (auto simp: Let_def json_blank_def)
  qed
qed

lemma skip_ws_strict: "tk_unterminated s = None \<Longrightarrow> skip_ws Strict s = skip_blank s"
  unfolding skip_ws_def by (subst skip_ws_loop.simps) simp

section \<open>Escapes\<close>

lemma or_field:
  assumes "y < 2 ^ n"
  shows "push_bit n x OR y = x * 2 ^ n + (y :: nat)"
proof -
  from assms have y: "take_bit n y = y" by (simp add: take_bit_eq_mod)
  have "\<not> bit (push_bit n x) k \<or> \<not> bit y k" for k
    using y by (metis bit_push_bit_iff bit_take_bit_iff linorder_not_less)
  then have "push_bit n x + y = push_bit n x OR y" by (rule disjunctive_add)
  then show ?thesis by (simp add: push_bit_eq_mult)
qed

lemma append_utf8_encode: "cp \<le> 0x10FFFF \<Longrightarrow> append_utf8 cp out = out @ utf8_encode cp"
proof -
  assume "cp \<le> 0x10FFFF"
  have top: "y < 64 \<Longrightarrow> 0x80 OR y = 0x80 + y" "y < 32 \<Longrightarrow> 0xC0 OR y = 0xC0 + y" "y < 16 \<Longrightarrow> 0xE0 OR y = 0xE0 + y"
    "y < 8 \<Longrightarrow> 0xF0 OR y = 0xF0 + y" for y :: nat
    using or_field [of y 6 2] or_field [of y 5 6] or_field [of y 4 14] or_field [of y 3 30] by simp_all
  have m: "x AND 0x3F = x mod 64" for x :: nat
    using take_bit_eq_mask [of 6 x] by (simp add: take_bit_eq_mod mask_eq_exp_minus_1)
  show ?thesis using \<open>cp \<le> 0x10FFFF\<close>
    by (simp add: append_utf8_def utf8_encode_def m drop_bit_eq_div top)
qed

lemma hex_digit_bound: "json_hex_digit c = Some d \<Longrightarrow> d < 16"
  by (auto simp: json_hex_digit_def char_between_def split: if_splits)

lemma hex_value_bound: "json_hex_value h = Some v \<Longrightarrow> v < 16 ^ length h"
proof (induction h arbitrary: v rule: rev_induct)
  case (snoc c h)
  then obtain u d where u: "json_hex_value h = Some u" "json_hex_digit c = Some d" "v = push_bit 4 u OR d"
    by (auto simp: json_hex_value_def split: option.splits)
  then have "u < 16 ^ length h" "d < 16" using snoc.IH hex_digit_bound by blast+
  then show ?case using u(3) or_field [of d 4 u] by simp
qed (simp add: json_hex_value_def)

lemma hex4_reads:
  assumes "hex4 s = (Some v, s')"
  obtains h where "length h = 4" "json_hex_value h = Some v" "lexed s h s'" "ds_arena s' = ds_arena s" "v < 0x10000"
proof
  let ?h = "take 4 (rest s)"
  have e: "json_hex_value ?h = Some v" "s' = adv 4 s" "4 \<le> length (rest s)"
    using assms by (auto simp: hex4_def rest_def substr_def split: if_splits option.splits)
  then show "length ?h = 4" "json_hex_value ?h = Some v" "ds_arena s' = ds_arena s" by simp_all
  show "lexed s ?h s'" using e(2,3) lexed_adv [of s ?h "drop 4 (rest s)" 4] by simp
  show "v < 0x10000" using hex_value_bound [OF e(1)] e(3) by simp
qed

lemma read_u_escape_reads:
  assumes "read_u_escape s = (Inr e, s')"
  shows "\<exists>t d. lexed s t s' \<and> json_escape_text (CHR ''u'' # t) d \<and> (\<forall>out. escape_bytes e out = out @ d) \<and>
    ds_arena s' = ds_arena s \<and> length d \<le> length t"
proof -
  obtain cp t where h: "hex4 s = (Some cp, t)" using assms by (auto simp: read_u_escape_def split: prod.splits option.splits)
  obtain w where w: "length w = 4" "json_hex_value w = Some cp" "lexed s w t" "ds_arena t = ds_arena s" "cp < 0x10000"
    using hex4_reads [OF h] .
  show ?thesis
  proof (cases "cp \<ge> 0xD800 \<and> cp \<le> 0xDBFF")
    case True
    have sz: "\<not> (tk_pos t + 6 > src_size t \<or> src_at t (tk_pos t) \<noteq> CHR 0x5C \<or> src_at t (tk_pos t + 1) \<noteq> CHR ''u'')"
      using assms True by (auto simp: read_u_escape_def h split: if_splits)
    obtain lo where l: "hex4 (adv 2 t) = (Some lo, s')" "0xDC00 \<le> lo" "lo \<le> 0xDFFF"
      "e = Esc_cp (0x10000 + push_bit 10 (cp - 0xD800) + (lo - 0xDC00))"
      using assms True sz by (auto simp: read_u_escape_def h split: prod.splits option.splits if_splits)
    obtain x where x: "length x = 4" "json_hex_value x = Some lo" "lexed (adv 2 t) x s'" "ds_arena s' = ds_arena (adv 2 t)"
      using hex4_reads [OF l(1)] by blast
    have "rest t = CHR 0x5C # rest (adv 1 t)" "rest (adv 1 t) = CHR ''u'' # rest (adv 2 t)"
      using sz rest_Cons [of t "CHR 0x5C" "rest (adv 1 t)"] rest_Cons [of "adv 1 t" "CHR ''u''" "rest (adv 2 t)"]
      by (simp_all add: numeral_2_eq_2)
    then have "lexed t [CHR 0x5C, CHR ''u''] (adv 2 t)" by (intro lexed_adv) auto
    from lexed_trans [OF w(3) lexed_trans [OF this x(3)]]
    have "lexed s (w @ CHR 0x5C # CHR ''u'' # x) s'" by simp
    moreover have "json_escape_text (CHR ''u'' # w @ CHR 0x5C # CHR ''u'' # x) (utf8_encode (0x10000 + (cp - 0xD800) * 0x400 + (lo - 0xDC00)))"
      using w x l True by (intro json_escape_text.paired) auto
    moreover have "escape_bytes e out = out @ utf8_encode (0x10000 + (cp - 0xD800) * 0x400 + (lo - 0xDC00))" for out
    proof -
      let ?cp = "0x10000 + (cp - 0xD800) * 0x400 + (lo - 0xDC00)"
      have "cp - 0xD800 \<le> 0x3FF" "lo - 0xDC00 \<le> 0x3FF" using True l(2,3) by linarith+
      then have "?cp \<le> 0x10FFFF" by linarith
      from append_utf8_encode [OF this] show ?thesis using l(4) by (simp add: escape_bytes_def push_bit_eq_mult)
    qed
    moreover have "length (utf8_encode c) \<le> length (w @ CHR 0x5C # CHR ''u'' # x)" for c
      using w(1) x(1) by (simp add: utf8_encode_def)
    ultimately show ?thesis using w(4) x(4) by (intro exI [of _ "w @ CHR 0x5C # CHR ''u'' # x"] exI [of _ "utf8_encode (0x10000 + (cp - 0xD800) * 0x400 + (lo - 0xDC00))"]) simp
  next
    case False
    then have e: "e = Esc_cp cp \<and> s' = t \<and> \<not> (cp \<ge> 0xDC00 \<and> cp \<le> 0xDFFF)"
      using assms unfolding read_u_escape_def h by (simp split: if_splits)
    then have "scalar_value cp" "cp \<le> 0x10FFFF" using False w(5) by (auto simp: scalar_value_def)
    then have "json_escape_text (CHR ''u'' # w) (utf8_encode cp)" "\<forall>out. escape_bytes e out = out @ utf8_encode cp"
      using w(1,2) e by (auto intro!: json_escape_text.basic simp: escape_bytes_def append_utf8_encode)
    moreover have "length (utf8_encode cp) \<le> length w" using w(1) by (simp add: utf8_encode_def)
    ultimately show ?thesis using w(3,4) e by blast
  qed
qed

lemma read_escape_reads:
  assumes "read_escape (CHR 0x22) s = (Inr e, s')"
  shows "\<exists>t d. lexed s t s' \<and> json_escape_text t d \<and> (\<forall>out. escape_bytes e out = out @ d) \<and>
    ds_arena s' = ds_arena s \<and> length d \<le> length t"
proof -
  have p: "tk_pos s < src_size s" using assms by (auto simp: read_escape_def split: if_splits)
  let ?c = "src_at s (tk_pos s)"
  have r: "rest s = ?c # rest (adv 1 s)" using p by (simp add: rest_Cons)
  then have l: "lexed s [?c] (adv 1 s)" by (intro lexed_adv) auto
  show ?thesis
  proof (cases "simple_escape (CHR 0x22) ?c")
    case (Some d)
    then have "e = Esc_char d" "s' = adv 1 s" using assms p by (auto simp: read_escape_def)
    then show ?thesis using l Some by (intro exI [of _ "[?c]"] exI [of _ "[d]"]) (auto simp: escape_bytes_def intro: json_escape_text.simple)
  next
    case None
    then have u: "?c = CHR ''u''" "read_u_escape (adv 1 s) = (Inr e, s')"
      using assms p by (auto simp: read_escape_def Let_def split: if_splits)
    obtain t d where t: "lexed (adv 1 s) t s'" "json_escape_text (CHR ''u'' # t) d" "\<forall>out. escape_bytes e out = out @ d"
      "ds_arena s' = ds_arena (adv 1 s)" "length d \<le> length t"
      using read_u_escape_reads [OF u(2)] by blast
    then show ?thesis using lexed_trans [OF l t(1)] u(1) by (intro exI [of _ "CHR ''u'' # t"] exI [of _ d]) simp
  qed
qed

lemma utf8_unit_reads:
  assumes "utf8_unit s = Inr n" "rest s = c # r" "0x20 \<le> byte c" "c \<noteq> CHR 0x22" "c \<noteq> CHR 0x5C"
  shows "json_unit (take n (rest s))" "length (take n (rest s)) = n" "rest s = take n (rest s) @ rest (next_unit n s)"
    "substr (ds_input s) (tk_pos s) n = take n (rest s)"
proof -
  have c: "tk_pos s < src_size s" "src_at s (tk_pos s) = c" using assms(2) by (simp_all add: rest_Cons)
  have n: "utf8_seq_len (byte c) = n" "n \<noteq> 0" "n \<le> length (rest s)"
    "list_all (\<lambda>k. is_cont (byte (src_at s (tk_pos s + k)))) [1..<n]"
    using assms(1) c by (auto simp: utf8_unit_def Let_def rest_def split: if_splits)
  have k: "is_cont (byte (rest s ! k))" if "1 \<le> k" "k < n" for k
    using n(3,4) that rest_nth [of k s] by (auto simp: list_all_iff)
  have "list_all (\<lambda>c. is_cont (byte c)) (take (n - 1) r)"
    using k assms(2) n(3) by (force simp: list_all_length nth_Cons')
  then show "json_unit (take n (rest s))" using assms(2-5) n by (cases n) (auto simp: json_unit_def)
  show "length (take n (rest s)) = n" using n(3) by simp
  show "rest s = take n (rest s) @ rest (next_unit n s)" by simp
  show "substr (ds_input s) (tk_pos s) n = take n (rest s)" by (simp add: substr_def rest_def)
qed

section \<open>Strings\<close>

lemma json_unit_plain: "0x20 \<le> byte c \<Longrightarrow> byte c < 0x80 \<Longrightarrow> c \<noteq> CHR 0x22 \<Longrightarrow> c \<noteq> CHR 0x5C \<Longrightarrow> json_unit [c]"
  by (simp add: json_unit_def utf8_seq_len_def)

lemma json_string_body_append:
  "json_string_body t b \<Longrightarrow> json_string_body t' b' \<Longrightarrow> json_string_body (t @ t') (b @ b')"
  by (induction rule: json_string_body.induct) (auto intro: json_string_body.intros)

lemma lexed_arena: "lexed s t s' \<Longrightarrow> ds_arena s' = ds_arena s \<Longrightarrow> length b \<le> length t \<Longrightarrow> lexed s t (s'\<lparr>ds_arena := ds_arena s @ b\<rparr>)"
  using same_tree_trans [of s s' "s'\<lparr>ds_arena := ds_arena s @ b\<rparr>"] by (auto simp: lexed_def rest_def)

lemma decode_str_reads:
  "decode_str (CHR 0x22) a s = (Inr p, s') \<Longrightarrow>
   \<exists>t b. lexed s (t @ [CHR 0x22]) s' \<and> json_string_body t b \<and> ds_arena s' = ds_arena s @ b \<and>
     p = \<lparr>pt_off = u32_of a, pt_len = u32_of (length (ds_arena s') - a), pt_flags = 0\<rparr>"
proof (induction "CHR 0x22" a s rule: decode_str.induct)
  case (1 a s)
  note prem = "1.prems" [unfolded decode_str.simps [of "CHR 0x22" a s]]
  have pos: "tk_pos s < src_size s" using prem by (simp split: if_splits)
  define c where "c = src_at s (tk_pos s)"
  have r: "rest s = c # rest (adv 1 s)" using pos by (simp add: rest_Cons c_def)
  have l1: "lexed s [c] (adv 1 s)" using r by (intro lexed_adv [of _ _ "rest (adv 1 s)"]) auto
  obtain x u where xu: "read_escape (CHR 0x22) (adv 1 s) = (x, u)" by fastforce
  consider (quote) "c = CHR 0x22" | (esc) e r where "c \<noteq> CHR 0x22" "c = CHR 0x5C" "read_escape (CHR 0x22) (adv 1 s) = (Inr e, r)"
      "decode_str (CHR 0x22) a (r\<lparr>ds_arena := escape_bytes e (ds_arena r)\<rparr>) = (Inr p, s')"
    | (unit) n where "c \<noteq> CHR 0x22" "0x20 \<le> byte c" "c \<noteq> CHR 0x5C" "utf8_unit s = Inr n"
      "decode_str (CHR 0x22) a (next_unit n (s\<lparr>ds_arena := ds_arena s @ substr (ds_input s) (tk_pos s) n\<rparr>)) = (Inr p, s')"
    using prem pos
      by (auto simp: Let_def c_def [symmetric] not_less xu [simplified] split: if_splits sum.splits prod.splits)
  then show ?case
  proof cases
    case quote
    then have "p = \<lparr>pt_off = u32_of a, pt_len = u32_of (length (ds_arena s) - a), pt_flags = 0\<rparr>" "s' = adv 1 s"
      using prem pos by (simp_all add: c_def)
    with l1 quote show ?thesis by (intro exI [of _ "[]"]) (auto intro: json_string_body.closed)
  next
    case (esc e u)
    obtain t d where t: "lexed (adv 1 s) t u" "json_escape_text t d" "\<forall>out. escape_bytes e out = out @ d"
      "ds_arena u = ds_arena (adv 1 s)" "length d \<le> length t"
      using read_escape_reads [OF esc(3)] by blast
    let ?u = "u\<lparr>ds_arena := escape_bytes e (ds_arena u)\<rparr>"
    obtain t' b where t': "lexed ?u (t' @ [CHR 0x22]) s'" "json_string_body t' b" "ds_arena s' = ds_arena ?u @ b"
      "p = \<lparr>pt_off = u32_of a, pt_len = u32_of (length (ds_arena s') - a), pt_flags = 0\<rparr>"
      using "1.hyps"(1) [of c "read_escape (CHR 0x22) (adv 1 s)" e] esc pos by (auto simp: c_def)
    have "lexed s (c # t) ?u"
      using lexed_arena [OF lexed_trans [OF l1 t(1)], of d] t(3-5) by simp
    from lexed_trans [OF this t'(1)] have "lexed s ((CHR 0x5C # t @ t') @ [CHR 0x22]) s'" using esc(2) by simp
    moreover have "json_string_body (CHR 0x5C # t @ t') (d @ b)" using t(2) t'(2) by (rule json_string_body.escape)
    moreover have "ds_arena s' = ds_arena s @ d @ b" using t(3,4) t'(3) by simp
    ultimately show ?thesis using t'(4) by blast
  next
    case (unit n)
    let ?w = "take n (rest s)" and ?s = "s\<lparr>ds_arena := ds_arena s @ substr (ds_input s) (tk_pos s) n\<rparr>"
    note u = utf8_unit_reads [OF unit(4) r unit(2,1,3)]
    obtain t b where t: "lexed (next_unit n ?s) (t @ [CHR 0x22]) s'" "json_string_body t b"
      "ds_arena s' = ds_arena (next_unit n ?s) @ b" "p = \<lparr>pt_off = u32_of a, pt_len = u32_of (length (ds_arena s') - a), pt_flags = 0\<rparr>"
      using "1.hyps"(2) [of c n] unit pos by (auto simp: c_def)
    have "next_unit n ?s = (next_unit n s)\<lparr>ds_arena := ds_arena s @ ?w\<rparr>"
      using u(4) by (simp add: next_unit_def)
    then have "lexed s ?w (next_unit n ?s)"
      using lexed_arena [OF lexed_unit [OF u(3,2)], of ?w] by simp
    from lexed_trans [OF this t(1)] have "lexed s ((?w @ t) @ [CHR 0x22]) s'" by simp
    moreover have "json_string_body (?w @ t) (?w @ b)" using u(1) t(2) by (rule json_string_body.plain)
    ultimately show ?thesis using t(3,4) u(4)
      by (intro exI [of _ "?w @ t"] exI [of _ "?w @ b"]) simp
  qed
qed

lemma plain_run_body: "list_all (\<lambda>c. \<not> json_special c) u \<Longrightarrow> json_string_body u u"
proof (induction u)
  case (Cons c u)
  then have "json_unit [c]" by (auto simp: json_special_def intro!: json_unit_plain)
  with Cons json_string_body.plain [of "[c]" u u] show ?case by simp
qed (rule json_string_body.closed)

lemma run_of_split:
  obtains u v where "r = u @ v" "length u = run_of special r" "list_all (\<lambda>c. \<not> special c) u" "v \<noteq> [] \<Longrightarrow> special (hd v)"
proof
  show "r = takeWhile (\<lambda>c. \<not> special c) r @ dropWhile (\<lambda>c. \<not> special c) r" by simp
  show "dropWhile (\<lambda>c. \<not> special c) r \<noteq> [] \<Longrightarrow> special (hd (dropWhile (\<lambda>c. \<not> special c) r))"
    using hd_dropWhile [of "\<lambda>c. \<not> special c" r] by blast
qed (auto simp: run_of_def list_all_iff dest: set_takeWhileD)

text \<open>
  The bytes of a parsed string: a slice of the input that is its own meaning, or the new end of the
  arena.
\<close>

definition string_parsed :: "json_parser \<Rightarrow> string \<Rightarrow> string \<Rightarrow> parsed_str \<Rightarrow> json_parser \<Rightarrow> bool" where
  "string_parsed s t b p s' \<longleftrightarrow>
     lexed s (t @ [CHR 0x22]) s' \<and> json_string_body t b \<and>
     (p = \<lparr>pt_off = u32_of (tk_pos s), pt_len = u32_of (length b), pt_flags = kStorageInputView OR kRawJsonSlice\<rparr> \<and> b = t
      \<or> p = \<lparr>pt_off = u32_of (length (ds_arena s)), pt_len = u32_of (length b), pt_flags = 0\<rparr> \<and> ds_arena s' = ds_arena s @ b)"

lemma str_body_loop_reads:
  "str_body_loop p s = (Inr q, s') \<Longrightarrow> lexed s0 t0 s \<Longrightarrow> json_string_body t0 t0 \<Longrightarrow> ds_arena s = ds_arena s0 \<Longrightarrow> p = tk_pos s0 \<Longrightarrow>
   \<exists>t b. string_parsed s0 t b q s'"
proof (induction p s arbitrary: t0 rule: str_body_loop.induct)
  case (1 p s)
  define s1 where "s1 = adv (scan_str_until_special (drop (tk_pos s) (ds_input s))) s"
  obtain u v where u: "rest s = u @ v" "length u = run_of json_special (rest s)" "list_all (\<lambda>c. \<not> json_special c) u"
    "v \<noteq> [] \<Longrightarrow> json_special (hd v)" using run_of_split by blast
  have n: "scan_str_until_special (drop (tk_pos s) (ds_input s)) = length u"
    using u(2) by (simp add: scan_str_until_special_eq rest_def)
  note prem = "1.prems"(1) [unfolded str_body_loop.simps [of p s], folded s1_def]
  have pos: "tk_pos s < src_size s" "\<not> src_size s1 \<le> tk_pos s1" using prem by (simp_all add: Let_def split: if_splits)
  have s1: "ds_input s1 = ds_input s" "ds_arena s1 = ds_arena s" by (simp_all add: s1_def)
  define c where "c = src_at s1 (tk_pos s1)"
  have l0: "lexed s0 (t0 @ u) s1" using lexed_trans [OF "1.prems"(2) lexed_adv [OF u(1) refl]] n by (simp add: s1_def)
  have b0: "json_string_body (t0 @ u) (t0 @ u)" using json_string_body_append "1.prems"(3) plain_run_body [OF u(3)] by blast
  have r: "rest s1 = c # rest (adv 1 s1)" using pos(2) by (subst rest_Cons) (simp add: c_def)
  have sub: "substr (ds_input s1) p (tk_pos s1 - p) = t0 @ u" "tk_pos s1 - p = length (t0 @ u)"
    using lexedD [OF l0] same_treeD(1) [OF lexedD(3) [OF l0]] "1.prems"(5) by (simp_all add: substr_def rest_def)
  consider (quote) "c = CHR 0x22" "s' = adv 1 s1"
      "q = \<lparr>pt_off = u32_of p, pt_len = u32_of (tk_pos s1 - p), pt_flags = kStorageInputView OR kRawJsonSlice\<rparr>"
    | (esc) "decode_str (CHR 0x22) (length (ds_arena s)) (s1\<lparr>ds_arena := ds_arena s @ t0 @ u\<rparr>) = (Inr q, s')"
    | (unit) n where "c \<noteq> CHR 0x22" "0x20 \<le> byte c" "c \<noteq> CHR 0x5C" "utf8_unit s1 = Inr n" "str_body_loop p (next_unit n s1) = (Inr q, s')"
    using prem pos sub(1) s1(2)
    by (auto simp: Let_def c_def [symmetric] not_less parse_str_decode_tail_def split: if_splits sum.splits)
  then show ?case
  proof cases
    case quote
    have "lexed s1 [c] (adv 1 s1)" using r by (intro lexed_adv [of _ _ "rest (adv 1 s1)"]) auto
    from lexed_trans [OF l0 this] have "lexed s0 ((t0 @ u) @ [CHR 0x22]) s'" using quote(1,2) by simp
    with quote b0 sub(2) "1.prems"(5) show ?thesis unfolding string_parsed_def
      by (intro exI [of _ "t0 @ u"]) simp
  next
    case esc
    obtain t b where t: "lexed (s1\<lparr>ds_arena := ds_arena s @ t0 @ u\<rparr>) (t @ [CHR 0x22]) s'" "json_string_body t b"
      "ds_arena s' = (ds_arena s @ t0 @ u) @ b"
      "q = \<lparr>pt_off = u32_of (length (ds_arena s)), pt_len = u32_of (length (ds_arena s') - length (ds_arena s)), pt_flags = 0\<rparr>"
      using decode_str_reads [OF esc] by auto
    have "lexed s0 (t0 @ u) (s1\<lparr>ds_arena := ds_arena s @ t0 @ u\<rparr>)"
      using lexed_arena [OF l0, of "t0 @ u"] "1.prems"(4) s1(2) by simp
    from lexed_trans [OF this t(1)] have "lexed s0 (((t0 @ u) @ t) @ [CHR 0x22]) s'" by simp
    moreover have "json_string_body ((t0 @ u) @ t) ((t0 @ u) @ b)" using json_string_body_append [OF b0 t(2)] .
    ultimately show ?thesis using t(3,4) "1.prems"(4) unfolding string_parsed_def
      by (intro exI [of _ "(t0 @ u) @ t"] exI [of _ "(t0 @ u) @ b"]) simp
  next
    case (unit n)
    note w = utf8_unit_reads [OF unit(4) r unit(2,1,3)]
    have "lexed s0 ((t0 @ u) @ take n (rest s1)) (next_unit n s1)"
      using lexed_trans [OF l0 lexed_unit [OF w(3,2)]] .
    moreover have "json_string_body ((t0 @ u) @ take n (rest s1)) ((t0 @ u) @ take n (rest s1))"
      using json_string_body_append [OF b0 json_string_body.plain [OF w(1) json_string_body.closed]] by simp
    ultimately show ?thesis
      using "1.IH" [OF pos(1) s1_def pos(2) c_def unit(1) _ unit(3,4,5)] unit(2) "1.prems"(4,5) s1(2) by simp
  qed
qed

lemma parse_str_body_reads: "parse_str_body s = (Inr p, s') \<Longrightarrow> \<exists>t b. string_parsed s t b p s'"
  using str_body_loop_reads [of "tk_pos s" s p s' s "[]"] by (simp add: parse_str_body_def json_string_body.closed)

section \<open>Numbers\<close>

lemma lexed_one: "tk_pos s < src_size s \<Longrightarrow> lexed s [src_at s (tk_pos s)] (adv 1 s)"
  using rest_Cons [of s "src_at s (tk_pos s)" "rest (adv 1 s)"] by (intro lexed_adv [of _ _ "rest (adv 1 s)"]) auto

lemma adv_digits_reads: "lexed s (takeWhile is_digit (rest s)) (adv_digits s)" "ds_arena (adv_digits s) = ds_arena s"
  by (auto simp: adv_digits_def rest_def [symmetric] intro: lexed_adv [of _ _ "dropWhile is_digit (rest s)"])

lemma at_digit_reads:
  assumes "at_digit s"
  obtains ds where "lexed s ds (adv_digits s)" "json_digits ds" "hd ds = src_at s (tk_pos s)"
proof
  have p: "tk_pos s < src_size s" "is_digit (src_at s (tk_pos s))" using assms by (simp_all add: at_digit_def)
  then obtain r where r: "rest s = src_at s (tk_pos s) # r" using rest_Cons by blast
  show "lexed s (takeWhile is_digit (rest s)) (adv_digits s)" by (rule adv_digits_reads)
  show "json_digits (takeWhile is_digit (rest s))" "hd (takeWhile is_digit (rest s)) = src_at s (tk_pos s)"
    using r p(2) by (auto simp: json_digits_def list_all_iff dest: set_takeWhileD)
qed

lemma number_integer_reads:
  assumes "number_integer s = (Inr u, t)"
  shows "\<exists>sign ds. lexed s (sign @ ds) t \<and> sign \<in> {[], ''-''} \<and> json_integer_part ds \<and> ds_arena t = ds_arena s"
proof -
  let ?m = "src_at s (tk_pos s) = CHR ''-''" 
  define s1 where "s1 = (if ?m then adv 1 s else s)"
  have d: "at_digit s1" "\<not> (src_at s1 (tk_pos s1) = CHR ''0'' \<and> at_digit (adv 1 s1))" "t = adv_digits (adv 1 s1)"
    using assms by (auto simp: number_integer_def Let_def s1_def [symmetric] split: if_splits)
  have p: "tk_pos s1 < src_size s1" "is_digit (src_at s1 (tk_pos s1))" using d(1) by (simp_all add: at_digit_def)
  have "tk_pos s < src_size s" using p(1) by (auto simp: s1_def split: if_splits)
  then have l: "lexed s (if ?m then ''-'' else []) s1" using lexed_one [of s] by (auto simp: s1_def)
  let ?ds = "src_at s1 (tk_pos s1) # takeWhile is_digit (rest (adv 1 s1))"
  have "lexed s1 ?ds t" using lexed_trans [OF lexed_one [OF p(1)] adv_digits_reads(1)] d(3) by simp
  from lexed_trans [OF l this] have "lexed s ((if ?m then ''-'' else []) @ ?ds) t" .
  moreover have "json_integer_part ?ds"
  proof -
    have "takeWhile is_digit (rest (adv 1 s1)) = []" if "\<not> at_digit (adv 1 s1)"
      using that at_rest [of "adv 1 s1"] by (cases "rest (adv 1 s1)") (auto simp: at_digit_def)
    then show ?thesis using p(2) d(2) by (auto simp: json_integer_part_def json_digits_def list_all_iff dest: set_takeWhileD)
  qed
  moreover have "ds_arena t = ds_arena s" using d(3) adv_digits_reads(2) by (simp add: s1_def)
  ultimately show ?thesis by (intro exI [of _ "if ?m then ''-'' else []"] exI [of _ ?ds]) simp
qed

lemma number_fraction_reads:
  assumes "number_fraction s = (Inr b, t)"
  shows "\<exists>f. lexed s f t \<and> json_fraction_part f \<and> ds_arena t = ds_arena s \<and> (b \<longleftrightarrow> f \<noteq> [])"
proof (cases "at_char ''.'' s")
  case True
  then have p: "tk_pos s < src_size s" "src_at s (tk_pos s) = CHR ''.''" by (simp_all add: at_char_def)
  have d: "at_digit (adv 1 s)" "t = adv_digits (adv 1 s)" "b"
    using assms True by (auto simp: number_fraction_def Let_def split: if_splits)
  obtain ds where ds: "lexed (adv 1 s) ds t" "json_digits ds" using at_digit_reads [OF d(1)] d(2) by metis
  from lexed_trans [OF lexed_one [OF p(1)] ds(1)] p(2) ds(2) d(3) show ?thesis
    using adv_digits_reads(2) d(2) by (intro exI [of _ "CHR ''.'' # ds"]) (simp add: json_fraction_part_def)
qed (use assms in \<open>auto simp: number_fraction_def json_fraction_part_def intro!: exI [of _ "[]"]\<close>)

lemma number_exponent_reads:
  assumes "number_exponent s = (Inr b, t)"
  shows "\<exists>x. lexed s x t \<and> json_exponent_part x \<and> ds_arena t = ds_arena s \<and> (b \<longleftrightarrow> x \<noteq> [])"
proof (cases "at_char ''eE'' s")
  case True
  then have p: "tk_pos s < src_size s" "src_at s (tk_pos s) \<in> {CHR ''e'', CHR ''E''}" by (auto simp: at_char_def)
  define s1 where "s1 = (if at_char ''+-'' (adv 1 s) then adv 1 (adv 1 s) else adv 1 s)"
  have d: "at_digit s1" "t = adv_digits s1" "b"
    using assms True by (auto simp: number_exponent_def Let_def s1_def split: if_splits)
  obtain ds where ds: "lexed s1 ds t" "json_digits ds" using at_digit_reads [OF d(1)] d(2) by metis
  obtain sign where sg: "lexed (adv 1 s) sign s1" "sign \<in> {[], ''+'', ''-''}"
  proof (cases "at_char ''+-'' (adv 1 s)")
    case True
    then show ?thesis using lexed_one [of "adv 1 s"] that [of "[src_at s (tk_pos s + 1)]"] by (auto simp: s1_def at_char_def)
  qed (use that [of "[]"] in \<open>simp add: s1_def\<close>)
  have a: "ds_arena t = ds_arena s" using d(2) adv_digits_reads(2) by (simp add: s1_def)
  from lexed_trans [OF lexed_one [OF p(1)] lexed_trans [OF sg(1) ds(1)]] p(2) ds(2) sg(2) d(3) a show ?thesis
    by (intro exI [of _ "src_at s (tk_pos s) # sign @ ds"]) (auto simp: json_exponent_part_def)
qed (use assms in \<open>auto simp: number_exponent_def json_exponent_part_def intro!: exI [of _ "[]"]\<close>)

lemma number_lexeme_reads:
  assumes "parse_number_lexeme s = (Inr (lexeme, int_form), s')"
  shows "lexed s lexeme s'" "json_number lexeme" "ds_arena s' = ds_arena s" "length lexeme \<le> kMaxNumberLexemeLen"
proof -
  obtain u t where t: "number_integer s = (Inr u, t)"
    using assms by (auto simp: parse_number_lexeme_def split: prod.splits sum.splits)
  obtain v t' where t': "number_fraction t = (Inr v, t')"
    using assms t by (auto simp: parse_number_lexeme_def split: prod.splits sum.splits)
  obtain x t'' where t'': "number_exponent t' = (Inr x, t'')"
    using assms t t' by (auto simp: parse_number_lexeme_def split: prod.splits sum.splits)
  have e: "s' = t''" "lexeme = substr (ds_input s') (tk_pos s) (tk_pos s' - tk_pos s)" "tk_pos s' - tk_pos s \<le> kMaxNumberLexemeLen"
    using assms t t' t'' by (auto simp: parse_number_lexeme_def split: if_splits)
  obtain sg i f y where p: "lexed s (sg @ i) t" "sg \<in> {[], ''-''}" "json_integer_part i" "ds_arena t = ds_arena s"
    "lexed t f t'" "json_fraction_part f" "ds_arena t' = ds_arena t" "lexed t' y s'" "json_exponent_part y" "ds_arena s' = ds_arena t'"
    using number_integer_reads [OF t] number_fraction_reads [OF t'] number_exponent_reads [OF t''] e(1) by blast
  have l: "lexed s (sg @ i @ f @ y) s'" using lexed_trans [OF p(1) lexed_trans [OF p(5,8)]] by simp
  have lx: "lexeme = sg @ i @ f @ y"
    using lexedD(1,2) [OF l] same_treeD(1) [OF lexedD(3) [OF l]] e(2) by (simp add: substr_def rest_def)
  show "lexed s lexeme s'" using l lx by simp
  show "json_number lexeme" unfolding json_number_def lx using p by blast
  show "ds_arena s' = ds_arena s" using p by simp
  show "length lexeme \<le> kMaxNumberLexemeLen" using e(3) lexedD(2) [OF l] lx by simp
qed

end
