(* ===== verification/Json_Tree.thy ===== *)
theory Json_Tree
  imports Json_Grammar
begin

text \<open>
  The value that a stored document holds (\<open>document_holds\<close>, over the storage of \<open>json_storage.cxx\<close>), which
  further parsing only extends, the bound on the sizes of the storage that keeps every offset and index
  within 32 bits, and what the smallest steps of the tree builder read in strict mode.
\<close>

unbundle bit_operations_syntax

section \<open>What a document holds\<close>

definition text_at :: "'a document_storage_scheme \<Rightarrow> nat \<Rightarrow> nat \<Rightarrow> nat \<Rightarrow> string \<Rightarrow> bool" where
  "text_at st off len flags b \<longleftrightarrow> len = length b \<and> bytes_at st off len flags = b"

text \<open>A slice of raw JSON is the text of its own bytes.\<close>

definition string_at :: "'a document_storage_scheme \<Rightarrow> nat \<Rightarrow> nat \<Rightarrow> nat \<Rightarrow> string \<Rightarrow> bool" where
  "string_at st off len flags b \<longleftrightarrow> text_at st off len flags b \<and> (flags AND kRawJsonSlice \<noteq> 0 \<longrightarrow> json_string_body b b)"

text \<open>The value that the tree below a node stands for.\<close>

fun document_holds :: "'a document_storage_scheme \<Rightarrow> nat \<Rightarrow> json_value \<Rightarrow> bool" where
  "document_holds st i JV_null \<longleftrightarrow> i < length (ds_nodes st) \<and> nd_kind (ds_nodes st ! i) = K_null"
| "document_holds st i (JV_bool b) \<longleftrightarrow>
     i < length (ds_nodes st) \<and> nd_kind (ds_nodes st ! i) = K_boolean \<and> nd_payload (ds_nodes st ! i) = P_bool b"
| "document_holds st i (JV_number w) \<longleftrightarrow>
     i < length (ds_nodes st) \<and>
     (let n = ds_nodes st ! i in nd_kind n = K_number \<and> text_at st (nd_off n) (nd_len n) (nd_flags n) w)"
| "document_holds st i (JV_string b) \<longleftrightarrow>
     i < length (ds_nodes st) \<and>
     (let n = ds_nodes st ! i in nd_kind n = K_string \<and> string_at st (nd_off n) (nd_len n) (nd_flags n) b)"
| "document_holds st i (JV_array vs) \<longleftrightarrow>
     i < length (ds_nodes st) \<and>
     (let n = ds_nodes st ! i
      in nd_kind n = K_array \<and> nd_len n = length vs \<and>
         list_all2 (document_holds st) (take (nd_len n) (drop (nd_off n) (ds_children st))) vs)"
| "document_holds st i (JV_object ms) \<longleftrightarrow>
     i < length (ds_nodes st) \<and>
     (let n = ds_nodes st ! i
      in nd_kind n = K_object \<and> nd_len n = length ms \<and>
         list_all2 (\<lambda>m (k, v). string_at st (me_name_off m) (me_name_len m) (me_name_flags m) k \<and>
             me_name_flags m AND kMemberExternalView = 0 \<and> document_holds st (me_val_node m) v)
           (slot_members st (nd_off n) (nd_len n)) ms)"

definition member_holds :: "'a document_storage_scheme \<Rightarrow> member_entry \<Rightarrow> string \<times> json_value \<Rightarrow> bool" where
  "member_holds st m kv \<longleftrightarrow>
     string_at st (me_name_off m) (me_name_len m) (me_name_flags m) (fst kv) \<and>
     me_name_flags m AND kMemberExternalView = 0 \<and> document_holds st (me_val_node m) (snd kv)"

lemma document_holds_object:
  "document_holds st i (JV_object ms) \<longleftrightarrow>
     i < length (ds_nodes st) \<and> nd_kind (ds_nodes st ! i) = K_object \<and> nd_len (ds_nodes st ! i) = length ms \<and>
     list_all2 (member_holds st) (slot_members st (nd_off (ds_nodes st ! i)) (length ms)) ms"
proof -
  have e: "(\<lambda>m (k, v). string_at st (me_name_off m) (me_name_len m) (me_name_flags m) k \<and>
     me_name_flags m AND kMemberExternalView = 0 \<and> document_holds st (me_val_node m) v) = member_holds st"
    by (auto simp: member_holds_def fun_eq_iff)
  show ?thesis by (auto simp only: document_holds.simps Let_def e)
qed

declare document_holds.simps(6) [simp del]

text \<open>Parsing only adds to the storage, at most one node and one byte of the arena per byte of input.\<close>

definition extends :: "json_parser \<Rightarrow> json_parser \<Rightarrow> bool" where
  "extends s s' \<longleftrightarrow>
     ds_input s' = ds_input s \<and> ds_external s' = ds_external s \<and> ds_bom s' = ds_bom s \<and>
     prefix (ds_nodes s) (ds_nodes s') \<and> prefix (ds_arena s) (ds_arena s') \<and>
     prefix (ds_children s) (ds_children s') \<and> prefix (ds_members s) (ds_members s')"

text \<open>The number says how many more nodes the bytes read could pay for.\<close>

definition grows :: "nat \<Rightarrow> json_parser \<Rightarrow> json_parser \<Rightarrow> bool" where
  "grows k s s' \<longleftrightarrow>
     extends s s' \<and> length (ds_nodes s') + k + tk_pos s \<le> length (ds_nodes s) + tk_pos s' \<and>
     length (ds_arena s') + tk_pos s \<le> length (ds_arena s) + tk_pos s'"

lemma extends_refl [simp]: "extends s s"
  by (simp add: extends_def)

lemma extends_trans: "extends s s' \<Longrightarrow> extends s' s'' \<Longrightarrow> extends s s''"
  by (auto simp: extends_def intro: prefix_order.trans)

lemma grows_refl [simp]: "grows 0 s s"
  by (simp add: grows_def)

lemma grows_trans: "grows j s s' \<Longrightarrow> grows k s' s'' \<Longrightarrow> grows (j + k) s s''"
  by (auto simp: grows_def intro: extends_trans)

lemma grows_weaken: "grows k s s' \<Longrightarrow> j \<le> k \<Longrightarrow> grows j s s'"
  by (auto simp: grows_def)

lemma grows_extends: "grows k s s' \<Longrightarrow> extends s s'"
  by (simp add: grows_def)

text \<open>The counts fit into 32 bits; \<open>k\<close> nodes are not yet in a container.\<close>

definition fits :: "nat \<Rightarrow> json_parser \<Rightarrow> bool" where
  "fits k s \<longleftrightarrow>
     tk_unterminated s = None \<and> tk_pos s \<le> src_size s \<and> src_size s < 2 ^ 32 \<and>
     length (ds_arena s) \<le> tk_pos s \<and> length (ds_nodes s) \<le> tk_pos s \<and>
     length (ds_children s) + length (tb_staging s) + k \<le> length (ds_nodes s) \<and>
     length (ds_members s) + length (tb_staging_members s) + k \<le> length (ds_nodes s)"

lemma fits_weaken: "fits k s \<Longrightarrow> j \<le> k \<Longrightarrow> fits j s"
  by (auto simp: fits_def)

lemma lexed_grows:
  assumes "lexed s t s'"
  shows "grows (length t) s s'" "fits k s \<Longrightarrow> fits k s'" "tb_staging s' = tb_staging s" "tb_staging_members s' = tb_staging_members s"
proof -
  note l = lexedD [OF assms] and t = same_treeD [OF lexedD(3) [OF assms]]
  obtain b where b: "ds_arena s' = ds_arena s @ b" "length b \<le> length t" using l(4) by blast
  show "grows (length t) s s'" using l(2) t b by (auto simp: grows_def extends_def)
  have "length (rest s) = length t + length (rest s')" using l(1) by simp
  then have "tk_pos s' \<le> src_size s'" if "tk_pos s \<le> src_size s"
    using that t(1) l(2) by (simp add: rest_def)
  then show "fits k s'" if "fits k s" using that l(2) t b by (auto simp: fits_def)
qed (rule same_treeD(8,9) [OF lexedD(3) [OF assms]])+

lemma prefix_nth: "prefix xs ys \<Longrightarrow> i < length xs \<Longrightarrow> ys ! i = xs ! i"
  by (auto simp: prefix_def nth_append)

lemma prefix_slice:
  assumes "prefix xs ys" "length (take n (drop k xs)) = n"
  shows "take n (drop k ys) = take n (drop k xs)"
proof (cases "n = 0")
  case False
  then have "k + n \<le> length xs" using assms(2) by (cases "k \<le> length xs") auto
  then show ?thesis using assms(1) by (auto simp: prefix_def)
qed simp

lemma text_at_extends:
  assumes "text_at s off len flags b" "extends s s'"
  shows "text_at s' off len flags b"
proof -
  have "take len (drop off (ds_arena s')) = b" if "take len (drop off (ds_arena s)) = b" "len = length b"
  proof -
    have "length (take len (drop off (ds_arena s))) = len" using that by metis
    then show ?thesis using prefix_slice [of "ds_arena s" "ds_arena s'" len off] that assms(2) by (simp add: extends_def)
  qed
  then show ?thesis using assms
    by (auto simp: text_at_def bytes_at_def str_at_def substr_def extends_def split: if_splits)
qed

lemma string_at_extends: "string_at s off len flags b \<Longrightarrow> extends s s' \<Longrightarrow> string_at s' off len flags b"
  by (auto simp: string_at_def intro: text_at_extends)

lemma document_holds_extends: "document_holds s i v \<Longrightarrow> extends s s' \<Longrightarrow> document_holds s' i v"
proof (induction v arbitrary: i)
  case (JV_array vs)
  note g = JV_array.prems(2) [unfolded extends_def]
  have n: "ds_nodes s' ! i = ds_nodes s ! i" "i < length (ds_nodes s')"
    using JV_array.prems g prefix_nth [of "ds_nodes s" "ds_nodes s'" i] prefix_length_le [of "ds_nodes s" "ds_nodes s'"]
    by (auto simp: Let_def)
  have h: "list_all2 (document_holds s) (take (length vs) (drop (nd_off (ds_nodes s ! i)) (ds_children s))) vs"
    using JV_array.prems by (auto simp: Let_def)
  then have "take (length vs) (drop (nd_off (ds_nodes s ! i)) (ds_children s')) = take (length vs) (drop (nd_off (ds_nodes s ! i)) (ds_children s))"
    using prefix_slice g list_all2_lengthD by blast
  moreover have "list_all2 (document_holds s') (take (length vs) (drop (nd_off (ds_nodes s ! i)) (ds_children s))) vs"
    by (rule list.rel_mono_strong [OF h]) (use JV_array in auto)
  ultimately show ?case using JV_array.prems n by (auto simp: Let_def)
next
  case (JV_object ms)
  note g = JV_object.prems(2) [unfolded extends_def]
  have n: "ds_nodes s' ! i = ds_nodes s ! i" "i < length (ds_nodes s')"
    using JV_object.prems g prefix_nth [of "ds_nodes s" "ds_nodes s'" i] prefix_length_le [of "ds_nodes s" "ds_nodes s'"]
    by (auto simp: document_holds_object)
  have h: "list_all2 (member_holds s) (slot_members s (nd_off (ds_nodes s ! i)) (length ms)) ms"
    using JV_object.prems by (auto simp: Let_def document_holds_object)
  then have "slot_members s' (nd_off (ds_nodes s ! i)) (length ms) = slot_members s (nd_off (ds_nodes s ! i)) (length ms)"
    unfolding slot_members_def using prefix_slice g list_all2_lengthD by blast
  moreover have "list_all2 (member_holds s') (slot_members s (nd_off (ds_nodes s ! i)) (length ms)) ms"
    by (rule list.rel_mono_strong [OF h])
      (use JV_object in \<open>auto simp: member_holds_def intro: string_at_extends\<close>)
  ultimately show ?case using JV_object.prems n by (auto simp: Let_def document_holds_object)
qed (auto simp: Let_def extends_def [of s s'] prefix_nth dest: prefix_length_le intro: text_at_extends string_at_extends)

lemma member_holds_extends: "member_holds s m kv \<Longrightarrow> extends s s' \<Longrightarrow> member_holds s' m kv"
  by (auto simp: member_holds_def intro: string_at_extends document_holds_extends)

section \<open>Leaves\<close>

definition reads_value :: "duplicate_key_policy \<Rightarrow> json_parser \<Rightarrow> nat \<Rightarrow> json_parser \<Rightarrow> bool" where
  "reads_value pol s i s' \<longleftrightarrow>
     grows 0 s s' \<and> fits 1 s' \<and> tb_staging s' = tb_staging s \<and> tb_staging_members s' = tb_staging_members s \<and>
     (\<exists>ws w v. rest s = ws @ w @ rest s' \<and> blanks ws \<and> json_value_text pol v w \<and> document_holds s' i v)"

text \<open>A skipped value: the text is one, and nothing is stored.\<close>

definition skips_value :: "json_parser \<Rightarrow> unit \<Rightarrow> json_parser \<Rightarrow> bool" where
  "skips_value s u s' \<longleftrightarrow> (\<exists>ws w v. lexed s (ws @ w) s' \<and> blanks ws \<and> json_value_text Dup_first_wins v w)"

lemma skip_ws_reads:
  assumes "po_mode opts = Strict" "tk_unterminated s = None" "\<And>ws s'. lexed s ws s' \<Longrightarrow> blanks ws \<Longrightarrow> Q () s'"
  shows "jpost F (skip_ws_checked opts) s Q"
proof -
  let ?s = "skip_blank s"
  have l: "lexed s (takeWhile json_blank (rest s)) ?s" by (rule skip_blank_lexed)
  have "tk_unterminated ?s = None" using same_treeD(7) [OF lexedD(3) [OF l]] assms(2) by simp
  moreover have "blanks (takeWhile json_blank (rest s))" by (auto simp: list_all_iff dest: set_takeWhileD)
  ultimately show ?thesis using assms(3) [OF l] assms(1,2) by (simp add: jpost_def skip_ws_checked_def skip_ws_strict)
qed

lemma lexed_clean: "lexed s t s' \<Longrightarrow> tk_unterminated s = None \<Longrightarrow> tk_unterminated s' = None"
  using same_treeD(7) lexedD(3) by metis

text \<open>A punctuation character after white space.\<close>

lemma value_start_reads:
  assumes "po_mode opts = Strict" "tk_unterminated s = None"
    "\<And>ws s'. lexed s ws s' \<Longrightarrow> blanks ws \<Longrightarrow> tk_pos s' < src_size s' \<Longrightarrow> Q (src_at s' (tk_pos s')) s'"
  shows "jpost F (value_start opts d) s Q"
  using assms by (auto simp: value_start_def at_end_def jposts not_le intro!: skip_ws_reads)

lemma lexed_char:
  "lexed s ws t \<Longrightarrow> tk_pos t < src_size t \<Longrightarrow> src_at t (tk_pos t) = c \<Longrightarrow> lexed s (ws @ [c]) (adv (Suc 0) t)"
  using lexed_trans lexed_one [of t] by (metis One_nat_def)

lemma separator_reads:
  assumes "po_mode opts = Strict" "tk_unterminated s = None"
    and "\<And>ws s'. lexed s (ws @ [c]) s' \<Longrightarrow> blanks ws \<Longrightarrow> Q True s'" "\<And>ws s'. lexed s (ws @ '','') s' \<Longrightarrow> blanks ws \<Longrightarrow> Q False s'"
  shows "jpost F (close_bracket opts c m1 m2) s Q" "c = CHR '']'' \<Longrightarrow> jpost F (array_separator opts k) s Q"
  unfolding close_bracket_def array_separator_def using assms(1,2)
  by (auto simp: jposts at_end_def not_le intro!: skip_ws_reads intro: assms(3,4) lexed_char)

lemma colon_reads:
  assumes "po_mode opts = Strict" "tk_unterminated s = None" "\<And>ws s'. lexed s (ws @ '':'') s' \<Longrightarrow> blanks ws \<Longrightarrow> Q () s'"
  shows "jpost F (expect_colon opts) s Q"
  unfolding expect_colon_def using assms(1,2)
  by (auto simp: jposts at_end_def not_le intro!: skip_ws_reads intro: assms(3) lexed_char)

lemma open_bracket_reads:
  assumes "po_mode opts = Strict" "tk_unterminated s = None" "tk_pos s < src_size s"
    and closed: "\<And>ws s'. lexed s (src_at s (tk_pos s) # ws @ [c]) s' \<Longrightarrow> blanks ws \<Longrightarrow> Q True s'"
    and opened: "\<And>ws s'. lexed s (src_at s (tk_pos s) # ws) s' \<Longrightarrow> blanks ws \<Longrightarrow> Q False s'"
  shows "jpost F (open_bracket opts c) s Q"
proof -
  have l: "lexed s [src_at s (tk_pos s)] (adv (Suc 0) s)" using lexed_one [OF assms(3)] by simp
  have c: "tk_unterminated (adv (Suc 0) s) = None" using lexed_clean [OF l assms(2)] .
  have one: "lexed s (src_at s (tk_pos s) # ws @ [c]) (adv (Suc 0) t)"
    if "lexed (adv (Suc 0) s) ws t" "tk_pos t < src_size t" "src_at t (tk_pos t) = c" for ws t
    using lexed_trans [OF l lexed_char [OF that]] by simp
  have zero: "lexed s (src_at s (tk_pos s) # ws) t" if "lexed (adv (Suc 0) s) ws t" for ws t
    using lexed_trans [OF l that] by simp
  have "jpost F (skip_ws_checked opts) (adv (Suc 0) s) (\<lambda>_ s'.
      (\<not> at_end s' \<and> src_at s' (tk_pos s') = c \<longrightarrow> Q True (adv (Suc 0) s')) \<and>
      (at_end s' \<or> src_at s' (tk_pos s') \<noteq> c \<longrightarrow> Q False s'))"
  proof (rule skip_ws_reads [OF assms(1) c], intro conjI impI)
    fix ws t assume t: "lexed (adv (Suc 0) s) ws t" "blanks ws"
    show "Q True (adv (Suc 0) t)" if "\<not> at_end t \<and> src_at t (tk_pos t) = c"
      using closed [OF one [OF t(1)] t(2)] that by (simp add: at_end_def)
    show "Q False t" by (rule opened [OF zero [OF t(1)] t(2)])
  qed
  then show ?thesis unfolding open_bracket_def by (auto simp: jposts elim!: jpost_mono)
qed

lemma expect_word_reads:
  assumes "\<And>s'. lexed s w s' \<Longrightarrow> Q () s'"
  shows "jpost F (expect_word w) s Q"
proof -
  have "lexed s w (adv (length w) s)" if "substr (ds_input s) (tk_pos s) (length w) = w"
  proof -
    have "rest s = w @ drop (length w) (rest s)"
      using that by (metis rest_def substr_def append_take_drop_id)
    then show ?thesis by (rule lexed_adv) simp
  qed
  then show ?thesis using assms by (auto simp: jpost_def expect_word_def jfail_def)
qed

lemma string_parsed_text:
  assumes "string_parsed s t b p s'" "fits k s"
  shows "string_at s' (pt_off p) (pt_len p) (pt_flags p) b" "pt_flags p AND kMemberExternalView = 0"
proof -
  have l: "lexed s (t @ [CHR 0x22]) s'" using assms(1) by (simp add: string_parsed_def)
  note d = lexedD [OF l] and g = lexed_grows(1,2) [OF l]
  have i: "ds_input s' = ds_input s" using same_treeD(1) [OF d(3)] .
  have f: "tk_pos s < 2 ^ 32" "length (ds_arena s') < 2 ^ 32" "tk_pos s' < 2 ^ 32" using g(2) [OF assms(2)] assms(2) by (auto simp: fits_def)
  have t: "length t < 2 ^ 32" "substr (ds_input s) (tk_pos s) (length t) = t" using f(3) d(1,2) by (simp_all add: substr_def rest_def)
  from assms(1) consider "p = \<lparr>pt_off = u32_of (tk_pos s), pt_len = u32_of (length b), pt_flags = 3\<rparr>" "b = t" "json_string_body b b"
    | "p = \<lparr>pt_off = u32_of (length (ds_arena s)), pt_len = u32_of (length b), pt_flags = 0\<rparr>" "ds_arena s' = ds_arena s @ b"
    by (auto simp: string_parsed_def)
  then show "string_at s' (pt_off p) (pt_len p) (pt_flags p) b" "pt_flags p AND kMemberExternalView = 0"
    using f t i by (cases; simp add: string_at_def text_at_def bytes_at_def str_at_def substr_def)+
qed

lemma number_node_fields:
  assumes "build_number_node_from_lexeme env off len (kStorageInputView OR kRawJsonSlice) lexeme hint = Inr n"
  shows "nd_kind n = K_number" "nd_off n = off" "nd_len n = len" "nd_flags n AND kValueExternalView = 0"
    "nd_flags n AND kStorageInputView \<noteq> 0"
  using assms
  by (auto simp: build_number_node_from_lexeme_def Let_def make_number_int_def make_number_uint_def make_number_f64_def
      make_number_overflow_def make_number_deferred_def split: option.splits if_splits f64_result.splits)

lemma push_node_reads:
  assumes "lexed s (ws @ w) t" "w \<noteq> []" "fits 0 s" "blanks ws" "json_value_text pol v w"
    "document_holds (t\<lparr>ds_nodes := ds_nodes t @ [n]\<rparr>) (length (ds_nodes t)) v"
  shows "jpost F (push_node n) t (reads_value pol s)"
proof -
  let ?t = "t\<lparr>ds_nodes := ds_nodes t @ [n]\<rparr>"
  note d = lexedD [OF assms(1)] and e = same_treeD [OF lexedD(3) [OF assms(1)]] and g = lexed_grows [OF assms(1)]
  obtain x where x: "ds_arena t = ds_arena s @ x" "length x \<le> length (ws @ w)" using d(4) by blast
  obtain c w' where w: "w = c # w'" using assms(2) by (cases w) auto
  have "grows 0 s ?t" using e x d(2) w by (simp add: grows_def extends_def)
  moreover have "fits 1 ?t" using g(2) [OF assms(3)] assms(3) e d(2) w by (auto simp: fits_def)
  moreover have "rest s = ws @ w @ rest ?t" using d(1) by (simp add: rest_def)
  ultimately show ?thesis using assms(4-6) e(8,9) by (auto simp: jpost_def push_node_def reads_value_def)
qed

end
