(* ===== verification/Json_Sound.thy ===== *)
theory Json_Sound
  imports Json_Tree
begin

text \<open>
  The strict parser accepts only JSON: a text it accepts is a text of the grammar, and the document
  holds the value of that text, with repeated member names treated by the chosen policy.  The values
  that the first-wins policy skips are checked to be JSON as well.
\<close>

unbundle bit_operations_syntax

section \<open>Nodes without children\<close>

lemma string_at_upd [simp]:
  "string_at (st\<lparr>ds_nodes := x\<rparr>) = string_at st" "string_at (st\<lparr>ds_children := y\<rparr>) = string_at st" "string_at (st\<lparr>ds_members := z\<rparr>) = string_at st"
  by (simp_all add: string_at_def text_at_def bytes_at_def str_at_def fun_eq_iff)

lemma string_node_reads:
  assumes "lexed s ws s1" "blanks ws" "fits 0 s" "tk_pos s1 < src_size s1" "src_at s1 (tk_pos s1) = CHR 0x22"
  shows "jpost F (parse_str_node opts) (adv (Suc 0) s1) (reads_value pol s)"
proof -
  have q: "lexed s (ws @ [CHR 0x22]) (adv (Suc 0) s1)" using lexed_char [OF assms(1,4,5)] .
  have "jpost F (push_node (make_string (pt_off p) (pt_len p) (pt_flags p))) s2 (reads_value pol s)"
    if p: "string_parsed (adv (Suc 0) s1) t b p s2" for t b p s2
  proof (rule push_node_reads [where ws = ws and w = "CHR 0x22 # t @ [CHR 0x22]" and v = "JV_string b"])
    have l: "lexed (adv (Suc 0) s1) (t @ [CHR 0x22]) s2" using p by (simp add: string_parsed_def)
    from lexed_trans [OF q l] show "lexed s (ws @ CHR 0x22 # t @ [CHR 0x22]) s2" by simp
    show "json_value_text pol (JV_string b) (CHR 0x22 # t @ [CHR 0x22])"
      using p by (auto simp: string_parsed_def json_quoted_def intro!: json_value_text_json_elements_text_json_members_text.str)
    have "string_at s2 (pt_off p) (pt_len p) (pt_flags p) b"
      using string_parsed_text(1) [OF p] lexed_grows(2) [OF q assms(3)] by simp
    then show "document_holds (s2\<lparr>ds_nodes := ds_nodes s2 @ [make_string (pt_off p) (pt_len p) (pt_flags p)]\<rparr>) (length (ds_nodes s2)) (JV_string b)"
      by (simp add: make_string_def)
  qed (use assms in simp_all)
  then show ?thesis
    by (auto simp: parse_str_node_def check_string_size_def jposts intro!: jpost_lift dest!: parse_str_body_reads)
qed

lemma number_node_reads:
  assumes "lexed s ws s1" "blanks ws" "fits 0 s"
  shows "jpost F (parse_number env) s1 (reads_value pol s)"
proof -
  have "jpost F (push_node n) s2 (reads_value pol s)"
    if p: "parse_number_lexeme s1 = (Inr (lexeme, int_form), s2)"
      and n: "build_number_node_from_lexeme env (u32_of (tk_pos s1)) (u32_of (length lexeme)) (kStorageInputView OR kRawJsonSlice) lexeme (Some int_form) = Inr n"
    for lexeme int_form s2 n
  proof (rule push_node_reads [where ws = ws and w = lexeme and v = "JV_number lexeme"])
    note l = number_lexeme_reads [OF p]
    show "lexed s (ws @ lexeme) s2" using lexed_trans [OF assms(1) l(1)] .
    show "lexeme \<noteq> []" using l(2) by (auto simp: json_number_def json_integer_part_def json_digits_def)
    show "json_value_text pol (JV_number lexeme) lexeme"
      using l(2) by (rule json_value_text_json_elements_text_json_members_text.number)
    have "fits 0 s1" using lexed_grows(2) [OF assms(1,3)] .
    then have "tk_pos s1 < 2 ^ 32" by (simp add: fits_def)
    moreover have "substr (ds_input s2) (tk_pos s1) (length lexeme) = lexeme" "ds_input s2 = ds_input s1"
      using lexedD(1) [OF l(1)] same_treeD(1) [OF lexedD(3) [OF l(1)]] by (simp_all add: substr_def rest_def)
    moreover have "length lexeme < 2 ^ 32" using l(4) by simp
    ultimately show "document_holds (s2\<lparr>ds_nodes := ds_nodes s2 @ [n]\<rparr>) (length (ds_nodes s2)) (JV_number lexeme)"
      using number_node_fields [OF n] by (simp add: text_at_def bytes_at_def Let_def)
  qed (use assms in simp_all)
  then have "jpost F (jbind (jlift parse_number_lexeme) (\<lambda>(lexeme, int_form).
       case build_number_node_from_lexeme env (u32_of (tk_pos s1)) (u32_of (length lexeme))
              (kStorageInputView OR kRawJsonSlice) lexeme (Some int_form) of
         Inl e \<Rightarrow> (\<lambda>s. (J_fail e, s)) | Inr node \<Rightarrow> push_node node)) s1 (reads_value pol s)"
    by (auto simp: jpost_bind jpost_fun_fail split: sum.split prod.split intro!: jpost_lift)
  then show ?thesis by (simp add: jpost_def parse_number_def)
qed

lemma word_reads:
  assumes "lexed s ws s1" "blanks ws" "fits 0 s" "json_value_text pol v w" "w \<noteq> []"
    and "\<And>st :: json_parser. document_holds (st\<lparr>ds_nodes := ds_nodes st @ [n]\<rparr>) (length (ds_nodes st)) v"
  shows "jpost F (jbind (expect_word w) (\<lambda>_. push_node n)) s1 (reads_value pol s)"
  unfolding jpost_bind
  by (rule expect_word_reads, rule push_node_reads [where ws = ws and w = w and v = v])
    (use assms in \<open>auto intro: lexed_trans\<close>)

section \<open>Skipped values\<close>

lemma skip_str_reads:
  "skip_str_loop (CHR 0x22) a s = (Inr p, s') \<Longrightarrow> \<exists>t b. lexed s (t @ [CHR 0x22]) s' \<and> json_string_body t b"
proof (induction "CHR 0x22" a s rule: skip_str_loop.induct)
  case (1 a s)
  note prem = "1.prems" [unfolded skip_str_loop.simps [of "CHR 0x22" a s]]
  have pos: "tk_pos s < src_size s" using prem by (simp split: if_splits)
  define c where "c = src_at s (tk_pos s)"
  have l1: "lexed s [c] (adv 1 s)" using lexed_one [OF pos] by (simp add: c_def)
  have r: "rest s = c # rest (adv 1 s)" using lexedD(1) [OF l1] by simp
  obtain x u where xu: "read_escape (CHR 0x22) (adv 1 s) = (x, u)" by fastforce
  consider (quote) "c = CHR 0x22" "s' = adv 1 s"
    | (esc) e u where "c \<noteq> CHR 0x22" "c = CHR 0x5C" "read_escape (CHR 0x22) (adv 1 s) = (Inr e, u)"
      "skip_str_loop (CHR 0x22) (a + escape_len e) u = (Inr p, s')"
    | (unit) n where "c \<noteq> CHR 0x22" "0x20 \<le> byte c" "c \<noteq> CHR 0x5C" "utf8_unit s = Inr n"
      "skip_str_loop (CHR 0x22) (a + n) (next_unit n s) = (Inr p, s')"
    using prem pos
      by (auto simp: Let_def c_def [symmetric] not_less xu [simplified] split: if_splits sum.splits prod.splits)
  then show ?case
  proof cases
    case quote
    with l1 show ?thesis by (intro exI [of _ "[]"]) (auto intro: json_string_body.closed)
  next
    case (esc e u)
    obtain t d where t: "lexed (adv 1 s) t u" "json_escape_text t d" using read_escape_reads [OF esc(3)] by blast
    obtain t' b where t': "lexed u (t' @ [CHR 0x22]) s'" "json_string_body t' b"
      using "1.hyps"(1) [of c "read_escape (CHR 0x22) (adv 1 s)" e] esc pos by (auto simp: c_def)
    from lexed_trans [OF l1 lexed_trans [OF t(1) t'(1)]] esc(2) have "lexed s ((CHR 0x5C # t @ t') @ [CHR 0x22]) s'" by simp
    with json_string_body.escape [OF t(2) t'(2)] show ?thesis by blast
  next
    case (unit n)
    note u = utf8_unit_reads [OF unit(4) r unit(2,1,3)]
    obtain t b where t: "lexed (next_unit n s) (t @ [CHR 0x22]) s'" "json_string_body t b"
      using "1.hyps"(2) [of c n] unit pos by (auto simp: c_def)
    from lexed_trans [OF lexed_unit [OF u(3,2)] t(1)] have "lexed s ((take n (rest s) @ t) @ [CHR 0x22]) s'" by simp
    with json_string_body.plain [OF u(1) t(2)] show ?thesis by blast
  qed
qed

lemmas json_texts = json_value_text_json_elements_text_json_members_text.intros

text \<open>A quoted string whose opening quote is at the position.\<close>

lemma quoted_skip_reads:
  assumes "tk_pos s < src_size s" "src_at s (tk_pos s) = CHR 0x22"
    "\<And>n k s' l. lexed s n s' \<Longrightarrow> json_quoted n k \<Longrightarrow> Q l s'"
  shows "jpost F (jlift (skip_str_body_no_store (CHR 0x22))) (adv (Suc 0) s) Q"
proof (rule jpost_lift)
  fix x t assume "skip_str_body_no_store (CHR 0x22) (adv (Suc 0) s) = (Inr x, t)"
  then obtain w b where w: "lexed (adv (Suc 0) s) (w @ [CHR 0x22]) t" "json_string_body w b"
    using skip_str_reads [of 0 "adv (Suc 0) s" x t] by (auto simp: skip_str_body_no_store_def)
  have "lexed s [CHR 0x22] (adv (Suc 0) s)" using lexed_one [OF assms(1)] assms(2) by simp
  from lexed_trans [OF this w(1)] show "Q x t" using w(2) by (intro assms(3)) (auto simp: json_quoted_def)
qed

lemma skip_leaf_reads:
  assumes "lexed s ws s1" "blanks ws" "lexed s1 w s2" "json_value_text Dup_first_wins v w"
  shows "skips_value s u s2"
  using lexed_trans [OF assms(1,3)] assms(2,4) by (auto simp: skips_value_def)

definition skips_elements :: "json_parser \<Rightarrow> unit \<Rightarrow> json_parser \<Rightarrow> bool" where
  "skips_elements s u s' \<longleftrightarrow> (\<exists>vs w. lexed s (w @ '']'') s' \<and> json_elements_text Dup_first_wins vs w)"

definition skips_members :: "json_parser \<Rightarrow> unit \<Rightarrow> json_parser \<Rightarrow> bool" where
  "skips_members s u s' \<longleftrightarrow> (\<exists>ms w. lexed s (w @ ''}'') s' \<and> json_members_text Dup_first_wins ms w)"

lemma skips_I:
  "lexed s x s' \<Longrightarrow> x = w @ '']'' \<Longrightarrow> json_elements_text Dup_first_wins vs w \<Longrightarrow> skips_elements s u s'"
  "lexed s x s' \<Longrightarrow> x = w @ ''}'' \<Longrightarrow> json_members_text Dup_first_wins ms w \<Longrightarrow> skips_members s u s'"
  by (auto simp: skips_elements_def skips_members_def)

lemma blanks_elements:
  assumes "blanks ws" "json_elements_text pol vs w"
  shows "json_elements_text pol vs (ws @ w)"
  using assms(2)
proof cases
  case (last_element ws1 v w ws2)
  then show ?thesis using json_texts(10) [of "ws @ ws1" pol v w ws2] assms(1) by simp
next
  case (element ws1 v w ws2 vs w')
  then show ?thesis using json_texts(11) [of "ws @ ws1" pol v w ws2 vs w'] assms(1) by simp
qed

lemma blanks_members:
  assumes "blanks ws" "json_members_text pol ms w"
  shows "json_members_text pol ms (ws @ w)"
  using assms(2)
proof cases
  case (last_member ws1 n k ws2 ws3 v w ws4)
  then show ?thesis using json_texts(12) [of "ws @ ws1" n k ws2 ws3 pol v w ws4] assms(1) by simp
next
  case (member ws1 n k ws2 ws3 v w ws4 ms w')
  then show ?thesis using json_texts(13) [of "ws @ ws1" n k ws2 ws3 pol v w ws4 ms w'] assms(1) by simp
qed

lemma first_wins_total: "\<exists>ms. add_members Dup_first_wins acc raw = Some ms"
  by (induction raw arbitrary: acc) (auto simp: add_member_def)

lemma skip_array_container:
  assumes "po_mode opts = Strict" "tk_unterminated s1 = None" "tk_pos s1 < src_size s1" "src_at s1 (tk_pos s1) = CHR ''[''"
    and loop: "\<And>t. tk_unterminated t = None \<Longrightarrow> jpost True (skip_array_loop opts n d) t (skips_elements t)"
    and leaf: "\<And>w t v. lexed s1 w t \<Longrightarrow> json_value_text Dup_first_wins v w \<Longrightarrow> Q () t"
  shows "jpost True (jbind (open_bracket opts (CHR '']'')) (\<lambda>closed. if closed then jret () else skip_array_loop opts n d)) s1 Q"
  unfolding jpost_bind
proof (rule open_bracket_reads [OF assms(1-3)], unfold assms(4))
  show "jpost True (if True then jret () else skip_array_loop opts n d) t Q" if "lexed s1 (CHR ''['' # w @ '']'') t" "blanks w" for w t
    using leaf [OF that(1) json_texts(6) [OF that(2)]] by (simp add: jposts)
  show "jpost True (if False then jret () else skip_array_loop opts n d) t Q" if t: "lexed s1 (CHR ''['' # w) t" "blanks w" for w t
  proof -
    have "Q () t'" if e: "skips_elements t () t'" for t'
    proof -
      obtain vs x where x: "lexed t (x @ '']'') t'" "json_elements_text Dup_first_wins vs x" using e by (auto simp: skips_elements_def)
      have "lexed s1 (CHR ''['' # (w @ x) @ '']'') t'" using lexed_trans [OF t(1) x(1)] by simp
      then show ?thesis using json_texts(7) [OF blanks_elements [OF t(2) x(2)]] by (rule leaf)
    qed
    then show ?thesis using loop [OF lexed_clean [OF t(1) assms(2)]] by (auto elim!: jpost_mono)
  qed
qed

lemma skip_object_container:
  assumes "po_mode opts = Strict" "tk_unterminated s1 = None" "tk_pos s1 < src_size s1" "src_at s1 (tk_pos s1) = CHR ''{''"
    and loop: "\<And>t. tk_unterminated t = None \<Longrightarrow> jpost True (skip_object_loop opts n d) t (skips_members t)"
    and leaf: "\<And>w t v. lexed s1 w t \<Longrightarrow> json_value_text Dup_first_wins v w \<Longrightarrow> Q () t"
  shows "jpost True (jbind (open_bracket opts (CHR ''}'')) (\<lambda>closed. if closed then jret () else skip_object_loop opts n d)) s1 Q"
  unfolding jpost_bind
proof (rule open_bracket_reads [OF assms(1-3)], unfold assms(4))
  show "jpost True (if True then jret () else skip_object_loop opts n d) t Q" if "lexed s1 (CHR ''{'' # w @ ''}'') t" "blanks w" for w t
    using leaf [OF that(1) json_texts(8) [OF that(2)]] by (simp add: jposts)
  show "jpost True (if False then jret () else skip_object_loop opts n d) t Q" if t: "lexed s1 (CHR ''{'' # w) t" "blanks w" for w t
  proof -
    have "Q () t'" if e: "skips_members t () t'" for t'
    proof -
      obtain ms x where x: "lexed t (x @ ''}'') t'" "json_members_text Dup_first_wins ms x" using e by (auto simp: skips_members_def)
      obtain r where "add_members Dup_first_wins [] ms = Some r" using first_wins_total by blast
      moreover have "lexed s1 (CHR ''{'' # (w @ x) @ ''}'') t'" using lexed_trans [OF t(1) x(1)] by simp
      ultimately show ?thesis using json_texts(9) [OF blanks_members [OF t(2) x(2)]] by (intro leaf) auto
    qed
    then show ?thesis using loop [OF lexed_clean [OF t(1) assms(2)]] by (auto elim!: jpost_mono)
  qed
qed

lemma skip_value_step:
  assumes strict: "po_mode opts = Strict" and clean: "tk_unterminated s = None"
    and arr: "\<And>t. tk_unterminated t = None \<Longrightarrow> jpost True (skip_array_loop opts n d) t (skips_elements t)"
    and obj: "\<And>t. tk_unterminated t = None \<Longrightarrow> jpost True (skip_object_loop opts n d) t (skips_members t)"
  shows "jpost True (skip_value opts (Suc n) d) s (skips_value s)"
  unfolding skip_value.simps jpost_bind
proof (rule value_start_reads [OF strict clean])
  fix ws s1 assume s1: "lexed s ws s1" "blanks ws" "tk_pos s1 < src_size s1"
  let ?c = "src_at s1 (tk_pos s1)"
  have c1: "tk_unterminated s1 = None" using lexed_clean [OF s1(1) clean] .
  note leaf = skip_leaf_reads [OF s1(1,2)]
  have str: "jpost True (skip_str opts (CHR 0x22)) (adv (Suc 0) s1) (skips_value s)" if "?c = CHR 0x22"
    unfolding skip_str_def jpost_bind
    by (rule quoted_skip_reads [OF s1(3) that]) (auto simp: check_string_size_def jposts intro: leaf json_texts(5))
  have num: "jpost True (jdrop (jlift parse_number_lexeme)) s1 (skips_value s)"
    by (auto simp: jpost_drop intro!: jpost_lift leaf json_texts(4) dest: number_lexeme_reads)
  have arr': "jpost True (jbind (open_bracket opts (CHR '']'')) (\<lambda>closed. if closed then jret () else skip_array_loop opts n d)) s1 (skips_value s)"
    if "?c = CHR ''[''" by (rule skip_array_container [OF strict c1 s1(3) that arr]) (auto intro: leaf)
  have obj': "jpost True (jbind (open_bracket opts (CHR ''}'')) (\<lambda>closed. if closed then jret () else skip_object_loop opts n d)) s1 (skips_value s)"
    if "?c = CHR ''{''" by (rule skip_object_container [OF strict c1 s1(3) that obj]) (auto intro: leaf)
  show "jpost True (if ?c = CHR 0x22 then jbind (jmove (adv 1)) (\<lambda>_. skip_str opts ?c)
       else if po_mode opts = Json5 \<and> ?c = CHR 0x27 then jbind (jmove (adv 1)) (\<lambda>_. skip_str opts ?c)
       else if ?c = CHR ''['' then
         jbind (open_bracket opts (CHR '']'')) (\<lambda>closed. if closed then jret () else skip_array_loop opts n d)
       else if ?c = CHR ''{'' then
         jbind (open_bracket opts (CHR ''}'')) (\<lambda>closed. if closed then jret () else skip_object_loop opts n d)
       else if ?c = CHR ''t'' then expect_word ''true''
       else if ?c = CHR ''f'' then expect_word ''false''
       else if ?c = CHR ''n'' then expect_word ''null''
       else if ?c = CHR ''-'' \<or> is_digit ?c then jdrop (jlift parse_number_lexeme)
       else unexpected_character) s1 (skips_value s)"
    using str arr' obj' num strict
    by (auto simp: jpost_bind jpost_move jpost_fails intro!: expect_word_reads leaf json_texts(1,2,3))
qed

lemma skip_key_reads:
  assumes "po_mode opts = Strict" "tk_pos s < src_size s" "\<And>n k s'. lexed s n s' \<Longrightarrow> json_quoted n k \<Longrightarrow> Q () s'"
  shows "jpost F (skip_key opts) s Q"
proof -
  have "jpost F (jdrop (jlift (skip_str_body_no_store (CHR 0x22)))) (adv (Suc 0) s) Q" if "src_at s (tk_pos s) = CHR 0x22"
    unfolding jpost_drop by (rule quoted_skip_reads [OF assms(2) that]) (rule assms(3))
  then show ?thesis using assms(1) by (auto simp: jpost_def skip_key_def Let_def jfail_def)
qed

text \<open>One round of a loop, given the loop for the other elements.\<close>

lemma skip_array_round:
  assumes strict: "po_mode opts = Strict" and clean: "tk_unterminated s = None"
    and val: "\<And>t. tk_unterminated t = None \<Longrightarrow> jpost True (skip_value opts n (d + 1)) t (skips_value t)"
    and loop: "\<And>t. tk_unterminated t = None \<Longrightarrow> jpost True (skip_array_loop opts n d) t (skips_elements t)"
  shows "jpost True (skip_array_loop opts (Suc n) d) s (skips_elements s)"
  unfolding skip_array_loop.simps jpost_bind
proof (rule jpost_mono [OF val [OF clean]], unfold skips_value_def, elim exE conjE, rule separator_reads(1) [OF strict])
  fix t ws w v assume t: "lexed s (ws @ w) t" "blanks ws" "json_value_text Dup_first_wins v w"
  show ct: "tk_unterminated t = None" using lexed_clean [OF t(1) clean] .
  show "jpost True (if True then jret () else skip_array_loop opts n d) u (skips_elements s)" if "lexed t (ws2 @ '']'') u" "blanks ws2" for ws2 u
    using skips_I(1) [OF lexed_trans [OF t(1) that(1)] _ json_texts(10) [OF t(2,3) that(2)]] by (simp add: jposts)
  show "jpost True (if False then jret () else skip_array_loop opts n d) u (skips_elements s)" if u: "lexed t (ws2 @ '','') u" "blanks ws2" for ws2 u
  proof -
    have "skips_elements s x u'" if e: "skips_elements u x u'" for x u'
    proof -
      obtain vs y where y: "lexed u (y @ '']'') u'" "json_elements_text Dup_first_wins vs y" using e by (auto simp: skips_elements_def)
      show ?thesis
        by (rule skips_I(1) [OF lexed_trans [OF lexed_trans [OF t(1) u(1)] y(1)] _ json_texts(11) [OF t(2,3) u(2) y(2)]]) simp
    qed
    then show ?thesis using loop [OF lexed_clean [OF u(1) ct]] by (auto elim!: jpost_mono)
  qed
qed

lemma skip_object_round:
  assumes strict: "po_mode opts = Strict" and clean: "tk_unterminated s = None"
    and val: "\<And>t. tk_unterminated t = None \<Longrightarrow> jpost True (skip_value opts n (d + 1)) t (skips_value t)"
    and loop: "\<And>t. tk_unterminated t = None \<Longrightarrow> jpost True (skip_object_loop opts n d) t (skips_members t)"
  shows "jpost True (skip_object_loop opts (Suc n) d) s (skips_members s)"
proof -
  have round: "jpost True (close_bracket opts (CHR ''}'') ''EOF in object'' object_sep_msg) t
      (\<lambda>closed u. jpost True (if closed then jret () else skip_object_loop opts n d) u (skips_members s))"
    if t: "lexed s (ws1 @ m @ ws2 @ '':'' @ ws3 @ w) t" "blanks ws1" "json_quoted m k" "blanks ws2" "blanks ws3"
      "json_value_text Dup_first_wins v w" for ws1 m k ws2 ws3 w v t
  proof (rule separator_reads(1) [OF strict])
    show ct: "tk_unterminated t = None" using lexed_clean [OF t(1) clean] .
    show "jpost True (if True then jret () else skip_object_loop opts n d) u (skips_members s)" if "lexed t (ws4 @ ''}'') u" "blanks ws4" for ws4 u
      using skips_I(2) [OF lexed_trans [OF t(1) that(1)] _ json_texts(12) [OF t(2-6) that(2)]] by (simp add: jposts)
    show "jpost True (if False then jret () else skip_object_loop opts n d) u (skips_members s)" if u: "lexed t (ws4 @ '','') u" "blanks ws4" for ws4 u
    proof -
      have "skips_members s x u'" if e: "skips_members u x u'" for x u'
      proof -
        obtain ms y where y: "lexed u (y @ ''}'') u'" "json_members_text Dup_first_wins ms y" using e by (auto simp: skips_members_def)
        show ?thesis
          by (rule skips_I(2) [OF lexed_trans [OF lexed_trans [OF t(1) u(1)] y(1)] _ json_texts(13) [OF t(2-6) u(2) y(2)]]) simp
      qed
      then show ?thesis using loop [OF lexed_clean [OF u(1) ct]] by (auto elim!: jpost_mono)
    qed
  qed
  have after_key: "jpost True (expect_colon opts) t (\<lambda>_ u. jpost True (skip_value opts n (d + 1)) u (\<lambda>_ t'.
      jpost True (close_bracket opts (CHR ''}'') ''EOF in object'' object_sep_msg) t'
      (\<lambda>closed u. jpost True (if closed then jret () else skip_object_loop opts n d) u (skips_members s))))"
    if t: "lexed s (ws1 @ m) t" "blanks ws1" "json_quoted m k" for ws1 m k t
  proof (rule colon_reads [OF strict lexed_clean [OF t(1) clean]])
    fix ws2 u assume u: "lexed t (ws2 @ '':'') u" "blanks ws2"
    have cu: "tk_unterminated u = None" using lexed_clean [OF u(1) lexed_clean [OF t(1) clean]] .
    show "jpost True (skip_value opts n (d + 1)) u (\<lambda>_ t'. jpost True (close_bracket opts (CHR ''}'') ''EOF in object'' object_sep_msg) t'
      (\<lambda>closed u. jpost True (if closed then jret () else skip_object_loop opts n d) u (skips_members s)))"
    proof (rule jpost_mono [OF val [OF cu]], unfold skips_value_def, elim exE conjE)
      fix t' ws3 w v assume t': "lexed u (ws3 @ w) t'" "blanks ws3" "json_value_text Dup_first_wins v w"
      have "lexed s (ws1 @ m @ ws2 @ '':'' @ ws3 @ w) t'" using lexed_trans [OF lexed_trans [OF t(1) u(1)] t'(1)] by simp
      from round [OF this t(2,3) u(2) t'(2,3)] show "jpost True (close_bracket opts (CHR ''}'') ''EOF in object'' object_sep_msg) t'
        (\<lambda>closed u. jpost True (if closed then jret () else skip_object_loop opts n d) u (skips_members s))" .
    qed
  qed
  show ?thesis
    unfolding skip_object_loop.simps
    by (auto simp: jpost_bind jpost_fun_if jpost_fails at_end_def not_le intro!: skip_ws_reads strict clean skip_key_reads after_key [simplified] intro: lexed_trans)
qed

lemma skip_reads:
  assumes strict: "po_mode opts = Strict"
  shows "(\<forall>d s. tk_unterminated s = None \<longrightarrow> jpost True (skip_value opts n d) s (skips_value s)) \<and>
    (\<forall>d s. tk_unterminated s = None \<longrightarrow> jpost True (skip_array_loop opts n d) s (skips_elements s)) \<and>
    (\<forall>d s. tk_unterminated s = None \<longrightarrow> jpost True (skip_object_loop opts n d) s (skips_members s))"
proof (induction n)
  case (Suc n)
  then show ?case
    using skip_value_step [OF strict, of _ n] skip_array_round [OF strict, of _ n] skip_object_round [OF strict, of _ n] by blast
qed (simp add: jposts)

section \<open>Arrays\<close>

lemma extends_upd [simp]:
  "extends s (t\<lparr>tb_staging := x\<rparr>) = extends s t" "extends s (t\<lparr>tb_staging_members := y\<rparr>) = extends s t"
  "extends s (t\<lparr>ds_stats := z\<rparr>) = extends s t"
  by (simp_all add: extends_def)

lemma grows_upd [simp]:
  "grows k s (t\<lparr>tb_staging := x\<rparr>) = grows k s t" "grows k s (t\<lparr>tb_staging_members := y\<rparr>) = grows k s t"
  "grows k s (t\<lparr>ds_stats := z\<rparr>) = grows k s t"
  by (simp_all add: grows_def)

lemma rest_upd [simp]:
  "rest (t\<lparr>tb_staging := x\<rparr>) = rest t" "rest (t\<lparr>tb_staging_members := y\<rparr>) = rest t" "rest (t\<lparr>ds_stats := z\<rparr>) = rest t"
  by (simp_all add: rest_def)

lemma list_all2_holds_extends:
  "list_all2 (document_holds s) is vs \<Longrightarrow> extends s t \<Longrightarrow> list_all2 (document_holds t) is vs"
  by (erule list.rel_mono_strong) (rule document_holds_extends)

lemma finish_array_reads:
  assumes s: "fits 0 s" and g: "grows 1 s t" and f: "fits 0 t" and k: "k \<le> length (tb_staging t)"
    and h: "list_all2 (document_holds t) (drop k (tb_staging t)) vs"
  shows "jpost F (finish_array k) t (\<lambda>i t'. grows 0 s t' \<and> fits 1 t' \<and> tb_staging t' = take k (tb_staging t) \<and>
    tb_staging_members t' = tb_staging_members t \<and> rest t' = rest t \<and> document_holds t' i (JV_array vs))"
proof -
  define t' where "t' = t\<lparr>ds_children := ds_children t @ drop k (tb_staging t), tb_staging := take k (tb_staging t),
    ds_nodes := ds_nodes t @ [node_array (u32_of (length (ds_children t))) (u32_of (length (tb_staging t) - k))]\<rparr>"
  have e: "extends t t'" by (simp add: extends_def t'_def)
  have c: "length (ds_children t) + length (tb_staging t) < 2 ^ 32" using f by (simp add: fits_def)
  have l: "length vs = length (tb_staging t) - k" using list_all2_lengthD [OF h] by simp
  have "document_holds t' (length (ds_nodes t)) (JV_array vs)"
    using list_all2_holds_extends [OF h e] c l k by (simp add: t'_def node_array_def)
  moreover have "grows 0 s t'" using g extends_trans [OF grows_extends [OF g] e] by (simp add: grows_def t'_def)
  moreover have "fits 1 t'" using f g k s by (simp add: fits_def grows_def t'_def)
  moreover have "finish_array k t = (J_ok (length (ds_nodes t)), t')"
    by (simp add: finish_array_def push_node_def t'_def)
  ultimately show ?thesis by (simp add: jpost_def t'_def rest_def)
qed

definition reads_elements :: "duplicate_key_policy \<Rightarrow> nat \<Rightarrow> json_value list \<Rightarrow> json_parser \<Rightarrow> nat \<Rightarrow> json_parser \<Rightarrow> bool" where
  "reads_elements pol k vs0 s i s' \<longleftrightarrow>
     grows 0 s s' \<and> fits 1 s' \<and> tb_staging s' = take k (tb_staging s) \<and> tb_staging_members s' = tb_staging_members s \<and>
     (\<exists>vs w. rest s = w @ CHR '']'' # rest s' \<and> json_elements_text pol vs w \<and> document_holds s' i (JV_array (vs0 @ vs)))"

text \<open>Between the elements of an array: those read so far are staged.\<close>

definition in_array :: "nat \<Rightarrow> json_value list \<Rightarrow> json_parser \<Rightarrow> bool" where
  "in_array k vs s \<longleftrightarrow> fits 0 s \<and> k \<le> length (tb_staging s) \<and> list_all2 (document_holds s) (drop k (tb_staging s)) vs"

lemma in_array_lexed: "in_array k vs s \<Longrightarrow> lexed s t s' \<Longrightarrow> in_array k vs s'"
  using lexed_grows [of s t s'] list_all2_holds_extends grows_extends by (fastforce simp: in_array_def)

lemma holds_index: "document_holds s i v \<Longrightarrow> fits k s \<Longrightarrow> i < length (ds_nodes s) \<and> u32_of i = i"
  by (cases v) (auto simp: document_holds_object fits_def)

lemma in_array_push:
  assumes "in_array k vs s" "grows 0 s t" "fits 1 t" "tb_staging t = tb_staging s" "document_holds t i v"
  shows "in_array k (vs @ [v]) (t\<lparr>tb_staging := tb_staging t @ [u32_of i]\<rparr>)"
proof -
  let ?t = "t\<lparr>tb_staging := tb_staging t @ [u32_of i]\<rparr>"
  have u: "u32_of i = i" using holds_index [OF assms(5,3)] by simp
  have "list_all2 (document_holds t) (drop k (tb_staging t) @ [i]) (vs @ [v])"
    using assms list_all2_holds_extends [of s _ vs t] grows_extends [OF assms(2)]
    by (auto simp: in_array_def intro!: list_all2_appendI)
  then have "list_all2 (document_holds ?t) (drop k (tb_staging t) @ [i]) (vs @ [v])"
    by (rule list_all2_holds_extends) simp
  then show ?thesis using assms(1,3,4) u by (simp add: in_array_def fits_def)
qed

lemma array_closes:
  assumes "fits 0 s" "in_array k vs t" "grows 0 s t" "tb_staging_members t = tb_staging_members s" "take k (tb_staging t) = take k (tb_staging s)"
    "lexed t (ws @ '']'') u" "vs = vs0 @ vs1" "rest s = w @ rest t" "json_elements_text pol vs1 (w @ ws)"
  shows "jpost True (finish_array k) u (reads_elements pol k vs0 s)"
proof -
  have "grows 1 s u" using grows_weaken [OF grows_trans [OF assms(3) lexed_grows(1) [OF assms(6)]], of 1] by simp
  moreover have "in_array k vs u" using in_array_lexed [OF assms(2,6)] .
  ultimately have "jpost True (finish_array k) u (\<lambda>i t'. grows 0 s t' \<and> fits 1 t' \<and> tb_staging t' = take k (tb_staging u) \<and>
    tb_staging_members t' = tb_staging_members u \<and> rest t' = rest u \<and> document_holds t' i (JV_array vs))"
    using assms(1) by (intro finish_array_reads) (auto simp: in_array_def)
  moreover have "rest s = (w @ ws) @ CHR '']'' # rest u" using assms(8) lexedD(1) [OF assms(6)] by simp
  ultimately show ?thesis using assms(4,5,7,9) lexed_grows(3,4) [OF assms(6)]
    by (auto simp: reads_elements_def elim!: jpost_mono)
qed

lemma array_continues:
  assumes "reads_elements pol k (vs0 @ [v]) u i u'" "grows 0 s u" "tb_staging_members u = tb_staging_members s"
    "take k (tb_staging u) = take k (tb_staging s)" "rest s = ws1 @ w @ ws2 @ CHR '','' # rest u"
    "blanks ws1" "json_value_text pol v w" "blanks ws2"
  shows "reads_elements pol k vs0 s i u'"
proof -
  obtain vs x where x: "rest u = x @ CHR '']'' # rest u'" "json_elements_text pol vs x" "document_holds u' i (JV_array (vs0 @ v # vs))"
    using assms(1) by (auto simp: reads_elements_def)
  have "rest s = (ws1 @ w @ ws2 @ CHR '','' # x) @ CHR '']'' # rest u'" using assms(5) x(1) by simp
  moreover have "grows 0 s u'" using grows_trans [OF assms(2), of 0 u'] assms(1) by (simp add: reads_elements_def)
  ultimately show ?thesis using assms(1,3,4) x(3) json_texts(11) [OF assms(6-8) x(2)]
    unfolding reads_elements_def by metis
qed

lemma array_round:
  assumes strict: "po_mode opts = Strict" and s: "in_array k vs0 s"
    and val: "jpost True (parse_value env opts n (d + 1)) s (reads_value pol s)"
    and loop: "\<And>t vs. in_array k vs t \<Longrightarrow> jpost True (parse_array_loop env opts n d k) t (reads_elements pol k vs t)"
  shows "jpost True (parse_array_loop env opts (Suc n) d k) s (reads_elements pol k vs0 s)"
  unfolding parse_array_loop.simps jpost_bind push_child_def jpost_move
proof (rule jpost_mono [OF val])
  fix i t assume r: "reads_value pol s i t"
  obtain ws w v where t: "grows 0 s t" "fits 1 t" "tb_staging t = tb_staging s" "tb_staging_members t = tb_staging_members s"
    "rest s = ws @ w @ rest t" "blanks ws" "json_value_text pol v w" "document_holds t i v"
    using r by (auto simp: reads_value_def)
  let ?t = "t\<lparr>tb_staging := tb_staging t @ [u32_of i]\<rparr>"
  have it: "in_array k (vs0 @ [v]) ?t" using in_array_push [OF s t(1-3,8)] .
  have k: "take k (tb_staging ?t) = take k (tb_staging s)" using s t(3) by (simp add: in_array_def)
  show "jpost True (array_separator opts k) ?t
      (\<lambda>closed u. jpost True (if closed then finish_array k else parse_array_loop env opts n d k) u (reads_elements pol k vs0 s))"
  proof (rule separator_reads(2) [OF strict])
    show "tk_unterminated ?t = None" using t(2) by (simp add: fits_def)
    show "jpost True (if True then finish_array k else parse_array_loop env opts n d k) u (reads_elements pol k vs0 s)"
      if "lexed ?t (ws2 @ '']'') u" "blanks ws2" for ws2 u
      using array_closes [of s k "vs0 @ [v]" ?t ws2 u vs0 "[v]" "ws @ w" pol] json_texts(10) [OF t(6,7) that(2)] s it t that(1) k
      by (simp add: in_array_def [of k vs0])
    show "jpost True (if False then finish_array k else parse_array_loop env opts n d k) u (reads_elements pol k vs0 s)"
      if u: "lexed ?t (ws2 @ '','') u" "blanks ws2" for ws2 u
    proof -
      have "grows 0 s u" using grows_weaken [OF grows_trans [OF _ lexed_grows(1) [OF u(1)], of 0 s], of 0] t(1) by simp
      then have "reads_elements pol k vs0 s j u'" if "reads_elements pol k (vs0 @ [v]) u j u'" for j u'
        using array_continues [OF that, of s ws w ws2] t u lexed_grows(3,4) [OF u(1)] lexedD(1) [OF u(1)] k by simp
      then show ?thesis using loop [OF in_array_lexed [OF it u(1)]] by (auto elim!: jpost_mono)
    qed
  qed simp
qed

section \<open>Objects\<close>

text \<open>Where a name is among the members read so far, the first of which is staged at \<open>k\<close>.\<close>

definition name_position :: "nat \<Rightarrow> (string \<times> 'v) list \<Rightarrow> string \<Rightarrow> nat option" where
  "name_position k acc name = find (\<lambda>i. fst (acc ! (i - k)) = name) [k..<k + length acc]"

definition in_object :: "nat \<Rightarrow> (string \<times> json_value) list \<Rightarrow> name_index option \<Rightarrow> json_parser \<Rightarrow> bool" where
  "in_object k acc seen s \<longleftrightarrow>
     fits 0 s \<and> k \<le> length (tb_staging_members s) \<and> list_all2 (member_holds s) (drop k (tb_staging_members s)) acc \<and>
     distinct (map fst acc) \<and> (\<forall>index. seen = Some index \<longrightarrow> map_of index = name_position k acc)"

lemma name_position_None: "name_position k acc name = None \<longleftrightarrow> name \<notin> fst ` set acc"
proof -
  have "fst ` set acc = {fst (acc ! (i - k)) |i. k \<le> i \<and> i < k + length acc}"
  proof (intro set_eqI iffI)
    fix x assume "x \<in> fst ` set acc"
    then obtain j where "j < length acc" "fst (acc ! j) = x" by (auto simp: in_set_conv_nth)
    then show "x \<in> {fst (acc ! (i - k)) |i. k \<le> i \<and> i < k + length acc}" by (intro CollectI exI [of _ "k + j"]) auto
  qed auto
  then show ?thesis by (auto simp: name_position_def find_None_iff)
qed

lemma name_position_Some:
  "name_position k acc name = Some i \<Longrightarrow> k \<le> i \<and> i - k < length acc \<and> fst (acc ! (i - k)) = name"
  by (auto simp: name_position_def find_Some_iff simp del: upt_Suc)

lemma find_append: "find P (xs @ ys) = (case find P xs of None \<Rightarrow> find P ys | Some x \<Rightarrow> Some x)"
  by (induction xs) auto

lemma find_cong_set: "(\<And>x. x \<in> set xs \<Longrightarrow> P x = Q x) \<Longrightarrow> find P xs = find Q xs"
  by (induction xs) auto

lemma name_position_snoc:
  "name_position k (acc @ [m]) name =
     (case name_position k acc name of None \<Rightarrow> if fst m = name then Some (k + length acc) else None | Some i \<Rightarrow> Some i)"
proof -
  have "find (\<lambda>i. fst ((acc @ [m]) ! (i - k)) = name) [k..<k + length acc] = find (\<lambda>i. fst (acc ! (i - k)) = name) [k..<k + length acc]"
    by (rule find_cong_set) (auto simp: nth_append)
  then show ?thesis by (simp add: name_position_def find_append split: option.split)
qed

lemma name_position_cong: "map fst acc = map fst acc' \<Longrightarrow> name_position k acc = name_position k acc'"
proof
  fix name assume e: "map fst acc = map fst acc'"
  then have "length acc = length acc'" by (metis length_map)
  moreover have "fst (acc ! j) = fst (acc' ! j)" if "j < length acc" for j
    using e that calculation by (metis nth_map)
  ultimately show "name_position k acc name = name_position k acc' name"
    unfolding name_position_def by (auto intro!: find_cong_set)
qed

lemma list_all2_member_extends:
  "list_all2 (member_holds s) ms acc \<Longrightarrow> extends s t \<Longrightarrow> list_all2 (member_holds t) ms acc"
  by (erule list.rel_mono_strong) (rule member_holds_extends)

lemma in_object_lexed: "in_object k acc seen s \<Longrightarrow> lexed s t s' \<Longrightarrow> in_object k acc seen s'"
  using lexed_grows [of s t s'] list_all2_member_extends grows_extends by (fastforce simp: in_object_def)

lemma in_object_grows:
  "in_object k acc seen s \<Longrightarrow> grows j s t \<Longrightarrow> fits 0 t \<Longrightarrow> tb_staging_members t = tb_staging_members s \<Longrightarrow> in_object k acc seen t"
  using list_all2_member_extends grows_extends by (fastforce simp: in_object_def)

lemma staged_name_eq:
  assumes "list_all2 (member_holds s) (drop k (tb_staging_members s)) acc" "k \<le> i" "i - k < length acc"
  shows "staged_name s i = fst (acc ! (i - k))"
proof -
  have "member_holds s (drop k (tb_staging_members s) ! (i - k)) (acc ! (i - k))"
    using list_all2_nthD2 [OF assms(1,3)] .
  then show ?thesis using assms list_all2_lengthD [OF assms(1)]
    by (auto simp: staged_name_def member_holds_def string_at_def text_at_def Let_def)
qed

lemma dedup_position: "in_object k acc seen s \<Longrightarrow> dedup_member_index k name seen s = name_position k acc name"
proof (cases seen)
  case None
  assume o: "in_object k acc seen s"
  then have l: "length (tb_staging_members s) = k + length acc"
    using list_all2_lengthD by (fastforce simp: in_object_def)
  show ?thesis using o None unfolding name_position_def dedup_member_index_def
    by (auto simp: l in_object_def staged_name_eq intro!: find_cong_set)
qed (auto simp: in_object_def dedup_member_index_def)

lemma emplace_lookup: "map_of (emplace_name n i ix) name = (case map_of ix name of None \<Rightarrow> if n = name then Some i else None | Some j \<Rightarrow> Some j)"
  by (auto simp: emplace_name_def split: option.split)

lemma foldl_emplace:
  "map_of (foldl (\<lambda>ix j. emplace_name (f j) j ix) [] js) name = find (\<lambda>j. f j = name) js"
  by (induction js rule: rev_induct) (auto simp: emplace_lookup find_append split: option.splits)

lemma count_stat_upd [simp]:
  "grows k s (count_stat g t) = grows k s t" "extends s (count_stat g t) = extends s t" "rest (count_stat g t) = rest t"
  "tb_staging (count_stat g t) = tb_staging t" "tb_staging_members (count_stat g t) = tb_staging_members t"
  "grows k (count_stat g s) t = grows k s t" "fits k (count_stat g t) = fits k t" "string_at (count_stat g t) = string_at t"
  by (simp_all add: count_stat_def fits_def string_at_def text_at_def bytes_at_def str_at_def fun_eq_iff grows_def extends_def)

lemma in_object_count [simp]: "in_object k acc seen (count_stat g t) = in_object k acc seen t"
proof -
  have "extends t (count_stat g t)" "extends (count_stat g t) t" by (simp_all add: extends_def count_stat_def)
  then show ?thesis unfolding in_object_def using list_all2_member_extends by auto
qed

lemma stage_member_reads:
  assumes o: "in_object k acc seen t" and new: "name_position k acc name = None" and f: "fits 1 t"
    and p: "string_at t (pt_off p) (pt_len p) (pt_flags p) name" "pt_flags p AND kMemberExternalView = 0"
    and v: "document_holds t val v"
  shows "jpost F (stage_member k p name val seen) t (\<lambda>seen' u. in_object k (acc @ [(name, v)]) seen' u \<and> grows 0 t u \<and>
    rest u = rest t \<and> tb_staging u = tb_staging t \<and> take k (tb_staging_members u) = take k (tb_staging_members t))"
proof -
  let ?m = "\<lparr>me_name_off = pt_off p, me_name_len = pt_len p, me_val_node = u32_of val, me_name_flags = pt_flags p\<rparr>"
  define u where "u = t\<lparr>tb_staging_members := tb_staging_members t @ [?m]\<rparr>"
  note ob = o [unfolded in_object_def]
  have l: "length (tb_staging_members t) = k + length acc" "k \<le> length (tb_staging_members t)"
    using ob list_all2_lengthD by fastforce+
  have e: "extends t u" by (simp add: u_def)
  have "member_holds u ?m (name, v)"
    using p v holds_index [OF v f] string_at_extends [OF p(1) e] document_holds_extends [OF v e] by (simp add: member_holds_def)
  then have h: "list_all2 (member_holds u) (drop k (tb_staging_members u)) (acc @ [(name, v)])"
    using ob l(2) list_all2_member_extends [of t _ acc u] e by (simp add: u_def list_all2_appendI)
  have d: "distinct (map fst (acc @ [(name, v)]))" using ob new by (auto simp: name_position_None)
  have fu: "fits 0 u" using f by (simp add: fits_def u_def)
  have o': "in_object k (acc @ [(name, v)]) seen' u" if "\<And>index. seen' = Some index \<Longrightarrow> map_of index = name_position k (acc @ [(name, v)])" for seen'
    using h d fu that l by (auto simp: in_object_def u_def)
  have ix: "map_of (emplace_name name (k + length acc) index) = name_position k (acc @ [(name, v)])" if "seen = Some index" for index
    using ob that by (auto simp: emplace_lookup name_position_snoc fun_eq_iff)
  have fresh: "map_of (foldl (\<lambda>ix j. emplace_name (staged_name u j) j ix) [] [k..<k + length acc + 1]) = name_position k (acc @ [(name, v)])"
    unfolding foldl_emplace fun_eq_iff name_position_def
    using staged_name_eq [OF h] by (auto intro!: find_cong_set simp del: upt_Suc)
  have s: "\<exists>seen' g. (stage_member k p name val seen t = (J_ok seen', count_stat g u) \<or> stage_member k p name val seen t = (J_ok seen', u)) \<and>
      (\<forall>index. seen' = Some index \<longrightarrow> map_of index = name_position k (acc @ [(name, v)]))"
  proof (cases seen)
    case None
    show ?thesis
    proof (cases "Suc (length acc) > kDedupLinearMax")
      case True
      then show ?thesis using None fresh l(1)
        by (intro exI conjI disjI1) (auto simp: stage_member_def Let_def u_def simp del: upt_Suc kDedupLinearMax_def)
    qed (use None l(1) in \<open>auto simp: stage_member_def Let_def u_def\<close>)
  next
    case (Some index)
    then show ?thesis using ix [OF Some] l(1) by (intro exI conjI disjI1) (auto simp: stage_member_def Let_def u_def)
  qed
  have "grows 0 t u" "rest u = rest t" "tb_staging u = tb_staging t" "take k (tb_staging_members u) = take k (tb_staging_members t)"
    using l by (simp_all add: u_def)
  with s o' show ?thesis by (force simp: jpost_def)
qed

lemma replace_member_reads:
  assumes o: "in_object k acc seen t" and i: "name_position k acc name = Some i" and f: "fits 1 t" and v: "document_holds t val v"
  shows "jpost F (replace_member i val) t (\<lambda>_ u. in_object k (map (\<lambda>n. if fst n = name then (name, v) else n) acc) seen u \<and> grows 0 t u \<and>
    rest u = rest t \<and> tb_staging u = tb_staging t \<and> take k (tb_staging_members u) = take k (tb_staging_members t))"
proof -
  note ob = o [unfolded in_object_def] and ip = name_position_Some [OF i]
  let ?m = "(tb_staging_members t ! i)\<lparr>me_val_node := u32_of val\<rparr>" and ?acc = "map (\<lambda>n. if fst n = name then (name, v) else n) acc"
  define u where "u = t\<lparr>tb_staging_members := (tb_staging_members t)[i := ?m]\<rparr>"
  have e: "extends t u" by (simp add: u_def)
  have l: "length (tb_staging_members t) = k + length acc" using ob list_all2_lengthD by fastforce
  have upd: "?acc = acc[i - k := (name, v)]"
  proof (rule nth_equalityI)
    fix j assume "j < length ?acc"
    then show "?acc ! j = acc[i - k := (name, v)] ! j"
      using ip ob nth_eq_iff_index_eq [of "map fst acc" j "i - k"] by (auto simp: nth_list_update)
  qed simp
  have "member_holds t (drop k (tb_staging_members t) ! (i - k)) (acc ! (i - k))" using list_all2_nthD2 [of _ _ acc "i - k"] ob ip by blast
  then have "member_holds u ?m (name, v)"
    using ip l v holds_index [OF v f] by (auto simp: member_holds_def intro: string_at_extends [OF _ e] document_holds_extends [OF _ e])
  then have "list_all2 (member_holds u) ((drop k (tb_staging_members t))[i - k := ?m]) ?acc"
    unfolding upd using ob list_all2_member_extends [OF _ e] by (intro list_all2_update_cong) auto
  then have h: "list_all2 (member_holds u) (drop k (tb_staging_members u)) ?acc" using ip by (simp add: u_def drop_update_swap)
  have n: "map fst ?acc = map fst acc" by (induction acc) auto
  have "distinct (map fst ?acc)" "\<forall>index. seen = Some index \<longrightarrow> map_of index = name_position k ?acc"
    using ob unfolding n name_position_cong [OF n] by blast+
  moreover have "fits 0 u" "k \<le> length (tb_staging_members u)" using f ob by (simp_all add: fits_def u_def)
  ultimately have "in_object k ?acc seen u" using h unfolding in_object_def by blast
  then show ?thesis using ip by (simp add: jpost_def replace_member_def jmove_def u_def)
qed

lemma finish_object_reads:
  assumes s: "fits 0 s" and g: "grows 1 s t" and o: "in_object k ms seen t"
  shows "jpost F (finish_object env opts k) t (\<lambda>i t'. grows 0 s t' \<and> fits 1 t' \<and> tb_staging t' = tb_staging t \<and>
    tb_staging_members t' = take k (tb_staging_members t) \<and> rest t' = rest t \<and> document_holds t' i (JV_object ms))"
proof -
  note ob = o [unfolded in_object_def]
  let ?node = "node_object (u32_of (length (ds_members t))) (u32_of (length (tb_staging_members t) - k))"
  have "\<exists>h. finish_object env opts k t = (J_ok (length (ds_nodes t)), t\<lparr>ds_members := ds_members t @ drop k (tb_staging_members t),
      tb_staging_members := take k (tb_staging_members t), ds_nodes := ds_nodes t @ [?node\<lparr>nd_payload := P_hash h\<rparr>]\<rparr>)"
  proof -
    have "?node\<lparr>nd_payload := P_hash Hash_null\<rparr> = ?node" by (simp add: node_object_def)
    then show ?thesis unfolding finish_object_def Let_def set_hash_index_def by (auto split: option.split) metis+
  qed
  then obtain h t' where t': "t' = t\<lparr>ds_members := ds_members t @ drop k (tb_staging_members t),
      tb_staging_members := take k (tb_staging_members t), ds_nodes := ds_nodes t @ [?node\<lparr>nd_payload := P_hash h\<rparr>]\<rparr>"
      "finish_object env opts k t = (J_ok (length (ds_nodes t)), t')" by blast
  have e: "extends t t'" by (simp add: extends_def t'(1))
  have c: "length (ds_members t) + length (tb_staging_members t) < 2 ^ 32" using ob by (simp add: fits_def)
  have l: "length ms = length (tb_staging_members t) - k" using ob list_all2_lengthD by fastforce
  have "document_holds t' (length (ds_nodes t)) (JV_object ms)"
    using ob list_all2_member_extends [OF _ e] c l by (auto simp: t'(1) node_object_def document_holds_object slot_members_def)
  moreover have "grows 0 s t'" using g extends_trans [OF grows_extends [OF g] e] by (simp add: grows_def t'(1))
  moreover have "fits 1 t'" using ob g s by (simp add: fits_def grows_def t'(1))
  ultimately show ?thesis using t' by (simp add: jpost_def rest_def)
qed

text \<open>A member after its name: the colon and the value.\<close>

definition reads_rest_of_member ::
    "duplicate_key_policy \<Rightarrow> nat \<Rightarrow> (string \<times> json_value) list \<Rightarrow> string \<Rightarrow> json_parser \<Rightarrow> name_index option \<Rightarrow> json_parser \<Rightarrow> bool" where
  "reads_rest_of_member pol k acc name s seen' s' \<longleftrightarrow>
     grows 0 s s' \<and> tb_staging s' = tb_staging s \<and> take k (tb_staging_members s') = take k (tb_staging_members s) \<and>
     (\<exists>ws1 ws2 w v acc'. rest s = ws1 @ CHR '':'' # ws2 @ w @ rest s' \<and> blanks ws1 \<and> blanks ws2 \<and> json_value_text pol v w \<and>
        add_member pol acc (name, v) = Some acc' \<and> in_object k acc' seen' s')"

lemma rest_of_memberI:
  assumes "lexed s (ws1 @ '':'') t" "blanks ws1" "rest t = ws2 @ w @ rest u" "blanks ws2" "json_value_text pol v w" "grows 0 t u"
    "tb_staging u = tb_staging t" "take k (tb_staging_members u) = take k (tb_staging_members t)"
    "add_member pol acc (name, v) = Some acc'" "in_object k acc' seen' u"
  shows "reads_rest_of_member pol k acc name s seen' u"
proof -
  have "rest s = ws1 @ CHR '':'' # ws2 @ w @ rest u" using lexedD(1) [OF assms(1)] assms(3) by simp
  moreover have "grows 0 s u" using grows_weaken [OF grows_trans [OF lexed_grows(1) [OF assms(1)] assms(6)]] by simp
  ultimately show ?thesis using assms lexed_grows(3,4) [OF assms(1)] unfolding reads_rest_of_member_def by metis
qed

lemma staged_value_reads:
  assumes o: "in_object k acc seen t" and p: "string_at t (pt_off p) (pt_len p) (pt_flags p) name" "pt_flags p AND kMemberExternalView = 0"
    and new: "name_position k acc name = None" and t: "lexed s (ws1 @ '':'') t" "blanks ws1" and r: "reads_value pol t i u"
  shows "jpost F (stage_member k p name i seen) u (reads_rest_of_member pol k acc name s)"
proof -
  obtain ws w v where u: "grows 0 t u" "fits 1 u" "tb_staging u = tb_staging t" "tb_staging_members u = tb_staging_members t"
    "rest t = ws @ w @ rest u" "blanks ws" "json_value_text pol v w" "document_holds u i v"
    using r by (auto simp: reads_value_def)
  have "in_object k acc seen u" using in_object_grows [OF o u(1) fits_weaken [OF u(2)] u(4)] by simp
  from stage_member_reads [OF this new u(2) string_at_extends [OF p(1) grows_extends [OF u(1)]] p(2) u(8)] show ?thesis
  proof (rule jpost_mono, elim conjE)
    fix seen' x assume x: "in_object k (acc @ [(name, v)]) seen' x" "grows 0 u x" "rest x = rest u" "tb_staging x = tb_staging u"
      "take k (tb_staging_members x) = take k (tb_staging_members u)"
    show "reads_rest_of_member pol k acc name s seen' x"
      by (rule rest_of_memberI [OF t _ u(6,7) _ _ _ _ x(1)])
        (use u x new grows_trans [OF u(1) x(2)] in \<open>simp_all add: add_member_def name_position_None\<close>)
  qed
qed

lemma replaced_value_reads:
  assumes o: "in_object k acc seen t" and i: "name_position k acc name = Some i"
    and t: "lexed s (ws1 @ '':'') t" "blanks ws1" and r: "reads_value Dup_last_wins t j u"
  shows "jpost F (replace_member i j) u (\<lambda>_. reads_rest_of_member Dup_last_wins k acc name s seen)"
proof -
  obtain ws w v where u: "grows 0 t u" "fits 1 u" "tb_staging u = tb_staging t" "tb_staging_members u = tb_staging_members t"
    "rest t = ws @ w @ rest u" "blanks ws" "json_value_text Dup_last_wins v w" "document_holds u j v"
    using r by (auto simp: reads_value_def)
  have old: "name \<in> fst ` set acc" using i name_position_None [of k acc name] by auto
  have "in_object k acc seen u" using in_object_grows [OF o u(1) fits_weaken [OF u(2)] u(4)] by simp
  from replace_member_reads [OF this i u(2,8)] show ?thesis
  proof (rule jpost_mono, elim conjE)
    fix y x assume x: "in_object k (map (\<lambda>n. if fst n = name then (name, v) else n) acc) seen x" "grows 0 u x" "rest x = rest u"
      "tb_staging x = tb_staging u" "take k (tb_staging_members x) = take k (tb_staging_members u)"
    show "reads_rest_of_member Dup_last_wins k acc name s seen x"
      by (rule rest_of_memberI [OF t _ u(6,7) _ _ _ _ x(1)])
        (use u x old grows_trans [OF u(1) x(2)] in \<open>simp_all add: add_member_def\<close>)
  qed
qed

lemma skipped_value_reads:
  assumes o: "in_object k acc seen t" and i: "name_position k acc name = Some i"
    and t: "lexed s (ws1 @ '':'') t" "blanks ws1" and r: "skips_value t x u"
  shows "reads_rest_of_member Dup_first_wins k acc name s seen (count_stat g u)"
proof -
  obtain ws w v where u: "lexed t (ws @ w) u" "blanks ws" "json_value_text Dup_first_wins v w" using r by (auto simp: skips_value_def)
  have old: "name \<in> fst ` set acc" using i name_position_None [of k acc name] by auto
  show ?thesis
    by (rule rest_of_memberI [OF t _ u(2,3), where acc' = acc])
      (use lexedD(1) [OF u(1)] grows_weaken [OF lexed_grows(1) [OF u(1)]] lexed_grows(3,4) [OF u(1)] old in_object_lexed [OF o u(1)]
       in \<open>simp_all add: add_member_def\<close>)
qed

lemma member_value_reads:
  assumes strict: "po_mode opts = Strict" and pol: "po_duplicate_key opts = pol" and o: "in_object k acc seen s"
    and p: "string_at s (pt_off p) (pt_len p) (pt_flags p) name" "pt_flags p AND kMemberExternalView = 0"
    and dup: "dup = name_position k acc name" "dup = None \<or> pol \<noteq> Dup_reject"
    and val: "\<And>t. fits 0 t \<Longrightarrow> jpost True pv t (reads_value pol t)"
    and skip: "\<And>t. fits 0 t \<Longrightarrow> jpost True sv t (skips_value t)"
  shows "jpost True (member_value opts pv sv k seen p name dup) s (reads_rest_of_member pol k acc name s)"
  unfolding member_value_def jpost_bind
proof (rule colon_reads [OF strict])
  show "tk_unterminated s = None" using o by (simp add: in_object_def fits_def)
  fix ws1 t assume t: "lexed s (ws1 @ '':'') t" "blanks ws1"
  have ot: "in_object k acc seen t" "fits 0 t" using in_object_lexed [OF o t(1)] by (simp_all add: in_object_def)
  have pt: "string_at t (pt_off p) (pt_len p) (pt_flags p) name" using string_at_extends [OF p(1) grows_extends [OF lexed_grows(1) [OF t(1)]]] .
  show "jpost True (case dup of
         Some i \<Rightarrow>
           if po_duplicate_key opts = Dup_first_wins then
             jbind sv (\<lambda>_.
             jbind (jmove (count_stat (\<lambda>t. t\<lparr>ps_first_wins_rollbacks := ps_first_wins_rollbacks t + 1\<rparr>))) (\<lambda>_. jret seen))
           else jbind pv (\<lambda>val. jbind (replace_member i val) (\<lambda>_. jret seen))
       | None \<Rightarrow> jbind pv (\<lambda>val. stage_member k p name val seen)) t (reads_rest_of_member pol k acc name s)"
  proof (cases dup)
    case None
    then show ?thesis using staged_value_reads [OF ot(1) pt p(2) _ t] dup(1) by (auto simp: jpost_bind intro!: jpost_mono [OF val [OF ot(2)]])
  next
    case (Some i)
    then consider "pol = Dup_first_wins" | "pol = Dup_last_wins" using dup(2) by (cases pol) auto
    then show ?thesis
    proof cases
      case 1
      with Some skipped_value_reads [OF ot(1) _ t] dup(1) pol show ?thesis
        by (auto simp: jpost_bind jpost_move jpost_ret intro!: jpost_mono [OF skip [OF ot(2)]])
    next
      case 2
      with Some replaced_value_reads [OF ot(1) _ t] dup(1) pol show ?thesis
        by (auto simp: jpost_bind jpost_ret intro!: jpost_mono [OF val [OF ot(2)]])
    qed
  qed
qed

text \<open>A whole member.\<close>

definition reads_member ::
    "duplicate_key_policy \<Rightarrow> nat \<Rightarrow> (string \<times> json_value) list \<Rightarrow> json_parser \<Rightarrow> name_index option \<Rightarrow> json_parser \<Rightarrow> bool" where
  "reads_member pol k acc s seen' s' \<longleftrightarrow>
     grows 0 s s' \<and> tb_staging s' = tb_staging s \<and> take k (tb_staging_members s') = take k (tb_staging_members s) \<and>
     (\<exists>ws1 n name ws2 ws3 w v acc'. rest s = ws1 @ n @ ws2 @ CHR '':'' # ws3 @ w @ rest s' \<and> blanks ws1 \<and> json_quoted n name \<and>
        blanks ws2 \<and> blanks ws3 \<and> json_value_text pol v w \<and> add_member pol acc (name, v) = Some acc' \<and> in_object k acc' seen' s')"

lemma member_name_reads:
  assumes strict: "po_mode opts = Strict" and s: "tk_pos s < src_size s"
    and q: "\<And>t b p s'. src_at s (tk_pos s) = CHR 0x22 \<Longrightarrow> string_parsed (adv (Suc 0) s) t b p s' \<Longrightarrow> Q p s'"
  shows "jpost F (parse_object_member_name opts) s Q"
proof -
  have "jpost F (jlift parse_str_body) (adv (Suc 0) s) Q" if "src_at s (tk_pos s) = CHR 0x22"
    by (rule jpost_lift) (use parse_str_body_reads q [OF that] in blast)
  then show ?thesis using strict by (auto simp: jpost_def parse_object_member_name_def Let_def jfail_def)
qed

lemma reads_rest_count: "reads_rest_of_member pol k acc name (count_stat g s) = reads_rest_of_member pol k acc name s"
  by (simp add: fun_eq_iff reads_rest_of_member_def)

lemma named_member_reads:
  assumes strict: "po_mode opts = Strict" and pol: "po_duplicate_key opts = pol" and o: "in_object k acc seen s"
    and p: "string_at s (pt_off p) (pt_len p) (pt_flags p) name" "pt_flags p AND kMemberExternalView = 0"
    and val: "\<And>t. fits 0 t \<Longrightarrow> jpost True pv t (reads_value pol t)"
    and skip: "\<And>t. fits 0 t \<Longrightarrow> jpost True sv t (skips_value t)"
  shows "jpost True (named_member opts pv sv k seen p) s (reads_rest_of_member pol k acc name s)"
proof -
  have n: "bytes_at s (pt_off p) (pt_len p) (pt_flags p) = name" using p(1) unfolding string_at_def text_at_def by blast
  note d = dedup_position [OF o]
  have m: "jpost True (member_value opts pv sv k seen p name (name_position k acc name)) (count_stat g s) (reads_rest_of_member pol k acc name s)"
    if "name_position k acc name = None \<or> pol \<noteq> Dup_reject" for g
    using member_value_reads [OF strict pol _ _ p(2) refl that val skip, of seen "count_stat g s"] o p(1)
    by (simp add: reads_rest_count)
  have "jpost True (member_value opts pv sv k seen p name (name_position k acc name)) s (reads_rest_of_member pol k acc name s)"
    if "name_position k acc name = None \<or> pol \<noteq> Dup_reject"
    using member_value_reads [OF strict pol o p refl that val skip] .
  with m show ?thesis using pol by (auto simp: jpost_def named_member_def Let_def n d jfail_def)
qed

lemma object_member_reads:
  assumes strict: "po_mode opts = Strict" and pol: "po_duplicate_key opts = pol" and o: "in_object k acc seen s"
    and val: "\<And>t. fits 0 t \<Longrightarrow> jpost True pv t (reads_value pol t)"
    and skip: "\<And>t. fits 0 t \<Longrightarrow> jpost True sv t (skips_value t)"
  shows "jpost True (parse_object_member opts pv sv k seen) s (reads_member pol k acc s)"
proof -
  have "jpost True (named_member opts pv sv k seen p) u (reads_member pol k acc s)"
    if s1: "lexed s ws s1" "blanks ws" "tk_pos s1 < src_size s1" "src_at s1 (tk_pos s1) = CHR 0x22"
      and p: "string_parsed (adv (Suc 0) s1) t b p u" for ws s1 t b p u
  proof -
    have q: "lexed s (ws @ [CHR 0x22]) (adv (Suc 0) s1)" using lexed_char [OF s1(1,3,4)] .
    have l: "lexed s (ws @ CHR 0x22 # t @ [CHR 0x22]) u" "json_quoted (CHR 0x22 # t @ [CHR 0x22]) b"
      using lexed_trans [OF q] p by (auto simp: string_parsed_def json_quoted_def)
    have "fits 0 (adv (Suc 0) s1)" using lexed_grows(2) [OF q] o by (simp add: in_object_def)
    from named_member_reads [OF strict pol in_object_lexed [OF o l(1)] string_parsed_text [OF p this] val skip] show ?thesis
    proof (rule jpost_mono)
      fix seen' x assume "reads_rest_of_member pol k acc b u seen' x"
      then show "reads_member pol k acc s seen' x"
        using grows_weaken [OF grows_trans [OF lexed_grows(1) [OF l(1)]], of 0 x 0] lexed_grows(3,4) [OF l(1)] lexedD(1) [OF l(1)] l(2) s1(2)
        unfolding reads_rest_of_member_def reads_member_def by (metis append.assoc le0)
    qed
  qed
  then show ?thesis unfolding parse_object_member_def jpost_on_error jpost_bind
    using strict o by (auto simp: jpost_bind jpost_fun_if jpost_fails at_end_def not_le check_string_size_def jpost_ret in_object_def fits_def
        intro!: skip_ws_reads member_name_reads)
qed

definition reads_members ::
    "duplicate_key_policy \<Rightarrow> nat \<Rightarrow> (string \<times> json_value) list \<Rightarrow> json_parser \<Rightarrow> nat \<Rightarrow> json_parser \<Rightarrow> bool" where
  "reads_members pol k acc s i s' \<longleftrightarrow>
     grows 0 s s' \<and> fits 1 s' \<and> tb_staging s' = tb_staging s \<and> tb_staging_members s' = take k (tb_staging_members s) \<and>
     (\<exists>raw w ms. rest s = w @ CHR ''}'' # rest s' \<and> json_members_text pol raw w \<and> add_members pol acc raw = Some ms \<and>
        document_holds s' i (JV_object ms))"

lemma object_round:
  assumes strict: "po_mode opts = Strict" and pol: "po_duplicate_key opts = pol" and o: "in_object k acc seen s"
    and val: "\<And>t. fits 0 t \<Longrightarrow> jpost True (parse_value env opts n (d + 1)) t (reads_value pol t)"
    and skip: "\<And>t. fits 0 t \<Longrightarrow> jpost True (skip_value opts n (d + 1)) t (skips_value t)"
    and loop: "\<And>t acc seen. in_object k acc seen t \<Longrightarrow> jpost True (parse_object_loop env opts n d k seen) t (reads_members pol k acc t)"
  shows "jpost True (parse_object_loop env opts (Suc n) d k seen) s (reads_members pol k acc s)"
  unfolding parse_object_loop.simps jpost_bind parse_object_member_separator_def jpost_on_error
proof (rule jpost_mono [OF object_member_reads [OF strict pol o val skip]])
  fix seen' t assume r: "reads_member pol k acc s seen' t"
  obtain ws1 m name ws2 ws3 w v acc' where t: "rest s = ws1 @ m @ ws2 @ CHR '':'' # ws3 @ w @ rest t" "blanks ws1" "json_quoted m name"
    "blanks ws2" "blanks ws3" "json_value_text pol v w" "add_member pol acc (name, v) = Some acc'" "in_object k acc' seen' t"
    and g: "grows 0 s t" "tb_staging t = tb_staging s" "take k (tb_staging_members t) = take k (tb_staging_members s)"
    using r unfolding reads_member_def by blast
  show "jpost True (close_bracket opts (CHR ''}'') ''EOF in object'' object_sep_msg) t
      (\<lambda>closed u. jpost True (if closed then finish_object env opts k else parse_object_loop env opts n d k seen') u (reads_members pol k acc s))"
  proof (rule separator_reads(1) [OF strict])
    show "tk_unterminated t = None" using t(8) by (simp add: in_object_def fits_def)
    show "jpost True (if True then finish_object env opts k else parse_object_loop env opts n d k seen') u (reads_members pol k acc s)"
      if u: "lexed t (ws4 @ ''}'') u" "blanks ws4" for ws4 u
    proof -
      have "grows 1 s u" using grows_weaken [OF grows_trans [OF g(1) lexed_grows(1) [OF u(1)]], of 1] by simp
      from finish_object_reads [OF _ this in_object_lexed [OF t(8) u(1)], of True env opts] o
      have "jpost True (finish_object env opts k) u (\<lambda>i t'. grows 0 s t' \<and> fits 1 t' \<and> tb_staging t' = tb_staging u \<and>
          tb_staging_members t' = take k (tb_staging_members u) \<and> rest t' = rest u \<and> document_holds t' i (JV_object acc'))"
        by (simp add: in_object_def)
      moreover have "rest s = (ws1 @ m @ ws2 @ CHR '':'' # ws3 @ w @ ws4) @ CHR ''}'' # rest u" using t(1) lexedD(1) [OF u(1)] by simp
      moreover have "add_members pol acc [(name, v)] = Some acc'" using t(7) by simp
      ultimately show ?thesis
        using json_texts(12) [OF t(2-6) u(2)] g(2,3) lexed_grows(3,4) [OF u(1)]
        unfolding reads_members_def if_True by (elim jpost_mono) metis
    qed
    show "jpost True (if False then finish_object env opts k else parse_object_loop env opts n d k seen') u (reads_members pol k acc s)"
      if u: "lexed t (ws4 @ '','') u" "blanks ws4" for ws4 u
    proof -
      have "reads_members pol k acc s i x" if "reads_members pol k acc' u i x" for i x
      proof -
        obtain raw y ms where y: "rest u = y @ CHR ''}'' # rest x" "json_members_text pol raw y" "add_members pol acc' raw = Some ms"
          "document_holds x i (JV_object ms)" using \<open>reads_members pol k acc' u i x\<close> unfolding reads_members_def by blast
        have "rest s = (ws1 @ m @ ws2 @ CHR '':'' # ws3 @ w @ ws4 @ CHR '','' # y) @ CHR ''}'' # rest x"
          using t(1) lexedD(1) [OF u(1)] y(1) by simp
        moreover have "grows 0 s x" using grows_weaken [OF grows_trans [OF g(1) grows_trans [OF lexed_grows(1) [OF u(1)]]], of 0 x 0]
            \<open>reads_members pol k acc' u i x\<close> unfolding reads_members_def by blast
        moreover have "add_members pol acc ((name, v) # raw) = Some ms" using t(7) y(3) by simp
        ultimately show ?thesis using json_texts(13) [OF t(2-6) u(2) y(2)] y(4) g(2,3) lexed_grows(3,4) [OF u(1)]
            \<open>reads_members pol k acc' u i x\<close> unfolding reads_members_def by metis
      qed
      then show ?thesis using loop [OF in_object_lexed [OF t(8) u(1)]] by (auto elim!: jpost_mono)
    qed
  qed
qed

section \<open>Values\<close>

lemma reads_value_after:
  assumes "lexed s ws t" "blanks ws" "grows 0 t u" "fits 1 u" "tb_staging u = tb_staging t" "tb_staging_members u = tb_staging_members t"
    "rest t = w @ rest u" "json_value_text pol v w" "document_holds u i v"
  shows "reads_value pol s i u"
  using assms(4-9) lexedD(1) [OF assms(1)] grows_weaken [OF grows_trans [OF lexed_grows(1) [OF assms(1)] assms(3)]] lexed_grows(3,4) [OF assms(1)] assms(2)
  unfolding reads_value_def by (metis le0)

lemma array_value_reads:
  assumes strict: "po_mode opts = Strict" and s: "fits 0 s" and s1: "lexed s ws s1" "blanks ws" "tk_pos s1 < src_size s1" "src_at s1 (tk_pos s1) = CHR ''[''"
    and loop: "\<And>k t vs. in_array k vs t \<Longrightarrow> jpost True (parse_array_loop env opts n d k) t (reads_elements pol k vs t)"
  shows "jpost True (jbind (open_bracket opts (CHR '']'')) (\<lambda>closed s.
           if closed then finish_array (length (tb_staging s)) s
           else parse_array_loop env opts n d (length (tb_staging s)) s)) s1 (reads_value pol s)"
  unfolding jpost_bind
proof (rule open_bracket_reads [OF strict _ s1(3)], unfold s1(4))
  have f1: "fits 0 s1" using lexed_grows(2) [OF s1(1) s] .
  then show "tk_unterminated s1 = None" by (simp add: fits_def)
  show "jpost True (\<lambda>s. if True then finish_array (length (tb_staging s)) s else parse_array_loop env opts n d (length (tb_staging s)) s) t (reads_value pol s)"
    if t: "lexed s1 (CHR ''['' # w @ '']'') t" "blanks w" for w t
  proof -
    have "jpost True (finish_array (length (tb_staging t))) t (\<lambda>i t'. grows 0 s1 t' \<and> fits 1 t' \<and>
        tb_staging t' = take (length (tb_staging t)) (tb_staging t) \<and> tb_staging_members t' = tb_staging_members t \<and>
        rest t' = rest t \<and> document_holds t' i (JV_array []))"
      using grows_weaken [OF lexed_grows(1) [OF t(1)], of 1] lexed_grows(2) [OF t(1) f1] f1 by (intro finish_array_reads) auto
    then have "jpost True (finish_array (length (tb_staging t))) t (reads_value pol s)"
      by (rule jpost_mono) (use reads_value_after [OF s1(1,2), of _ "CHR ''['' # w @ '']''" pol] lexedD(1) [OF t(1)] lexed_grows(3,4) [OF t(1)]
        json_texts(6) [OF t(2), of pol] in auto)
    then show ?thesis by (simp add: jpost_def)
  qed
  show "jpost True (\<lambda>s. if False then finish_array (length (tb_staging s)) s else parse_array_loop env opts n d (length (tb_staging s)) s) t (reads_value pol s)"
    if t: "lexed s1 (CHR ''['' # w) t" "blanks w" for w t
  proof -
    have "in_array (length (tb_staging t)) [] t" using lexed_grows(2) [OF t(1) f1] by (simp add: in_array_def)
    from loop [OF this] have "jpost True (parse_array_loop env opts n d (length (tb_staging t))) t (reads_value pol s)"
    proof (rule jpost_mono)
      fix i u assume u: "reads_elements pol (length (tb_staging t)) [] t i u"
      then obtain vs x where x: "rest t = x @ CHR '']'' # rest u" "json_elements_text pol vs x" "document_holds u i (JV_array vs)"
        by (auto simp: reads_elements_def)
      have "grows 0 s1 u" using u grows_weaken [OF grows_trans [OF lexed_grows(1) [OF t(1)]], of 0 u 0] by (simp add: reads_elements_def)
      moreover have "rest s1 = (CHR ''['' # (w @ x) @ '']'') @ rest u" using lexedD(1) [OF t(1)] x(1) by simp
      ultimately show "reads_value pol s i u"
        using reads_value_after [OF s1(1,2)] json_texts(7) [OF blanks_elements [OF t(2) x(2)]] x(3) lexed_grows(3,4) [OF t(1)] u
        by (simp add: reads_elements_def)
    qed
    then show ?thesis by (simp add: jpost_def)
  qed
qed

lemma object_value_reads:
  assumes strict: "po_mode opts = Strict" and s: "fits 0 s" and s1: "lexed s ws s1" "blanks ws" "tk_pos s1 < src_size s1" "src_at s1 (tk_pos s1) = CHR ''{''"
    and loop: "\<And>k t acc seen. in_object k acc seen t \<Longrightarrow> jpost True (parse_object_loop env opts n d k seen) t (reads_members pol k acc t)"
  shows "jpost True (jbind (open_bracket opts (CHR ''}'')) (\<lambda>closed s.
           if closed then push_node (node_object (u32_of (length (ds_members s))) 0) s
           else parse_object_loop env opts n d (length (tb_staging_members s)) None s)) s1 (reads_value pol s)"
  unfolding jpost_bind
proof (rule open_bracket_reads [OF strict _ s1(3)], unfold s1(4))
  have f1: "fits 0 s1" using lexed_grows(2) [OF s1(1) s] .
  then show "tk_unterminated s1 = None" by (simp add: fits_def)
  show "jpost True (\<lambda>s. if True then push_node (node_object (u32_of (length (ds_members s))) 0) s else parse_object_loop env opts n d (length (tb_staging_members s)) None s) t (reads_value pol s)"
    if t: "lexed s1 (CHR ''{'' # w @ ''}'') t" "blanks w" for w t
  proof -
    have "jpost True (push_node (node_object (u32_of (length (ds_members t))) 0)) t (reads_value pol s)"
      by (rule push_node_reads [OF lexed_trans [OF s1(1) t(1)] _ s s1(2) json_texts(8) [OF t(2)]])
        (simp_all add: document_holds_object node_object_def slot_members_def)
    then show ?thesis by (simp add: jpost_def)
  qed
  show "jpost True (\<lambda>s. if False then push_node (node_object (u32_of (length (ds_members s))) 0) s else parse_object_loop env opts n d (length (tb_staging_members s)) None s) t (reads_value pol s)"
    if t: "lexed s1 (CHR ''{'' # w) t" "blanks w" for w t
  proof -
    have "in_object (length (tb_staging_members t)) [] None t" using lexed_grows(2) [OF t(1) f1] by (simp add: in_object_def)
    from loop [OF this] have "jpost True (parse_object_loop env opts n d (length (tb_staging_members t)) None) t (reads_value pol s)"
    proof (rule jpost_mono)
      fix i u assume u: "reads_members pol (length (tb_staging_members t)) [] t i u"
      then obtain raw x ms where x: "rest t = x @ CHR ''}'' # rest u" "json_members_text pol raw x" "add_members pol [] raw = Some ms"
        "document_holds u i (JV_object ms)" by (auto simp: reads_members_def)
      have "grows 0 s1 u" using u grows_weaken [OF grows_trans [OF lexed_grows(1) [OF t(1)]], of 0 u 0] by (simp add: reads_members_def)
      moreover have "rest s1 = (CHR ''{'' # (w @ x) @ ''}'') @ rest u" using lexedD(1) [OF t(1)] x(1) by simp
      ultimately show "reads_value pol s i u"
        using reads_value_after [OF s1(1,2)] json_texts(9) [OF blanks_members [OF t(2) x(2)] x(3)] x(4) lexed_grows(3,4) [OF t(1)] u
        by (simp add: reads_members_def)
    qed
    then show ?thesis by (simp add: jpost_def)
  qed
qed

lemma value_step:
  assumes strict: "po_mode opts = Strict" and s: "fits 0 s"
    and arr: "\<And>k t vs. in_array k vs t \<Longrightarrow> jpost True (parse_array_loop env opts n d k) t (reads_elements pol k vs t)"
    and obj: "\<And>k t acc seen. in_object k acc seen t \<Longrightarrow> jpost True (parse_object_loop env opts n d k seen) t (reads_members pol k acc t)"
  shows "jpost True (parse_value env opts (Suc n) d) s (reads_value pol s)"
  unfolding parse_value.simps jpost_bind [of _ "value_start opts d"]
proof (rule value_start_reads [OF strict])
  show "tk_unterminated s = None" using s by (simp add: fits_def)
  fix ws s1 assume s1: "lexed s ws s1" "blanks ws" "tk_pos s1 < src_size s1"
  let ?c = "src_at s1 (tk_pos s1)"
  note leaf = word_reads [OF s1(1,2) s]
  have words: "jpost True (jbind (expect_word ''true'') (\<lambda>_. push_node (make_bool True))) s1 (reads_value pol s)"
    "jpost True (jbind (expect_word ''false'') (\<lambda>_. push_node (make_bool False))) s1 (reads_value pol s)"
    "jpost True (jbind (expect_word ''null'') (\<lambda>_. push_node make_null)) s1 (reads_value pol s)"
    by (auto intro!: leaf [OF json_texts(1)] leaf [OF json_texts(2)] leaf [OF json_texts(3)] simp: make_bool_def make_null_def)
  have "jpost True (jbind (jmove (adv 1)) (\<lambda>_. parse_str_node opts)) s1 (reads_value pol s)" if "?c = CHR 0x22"
    using string_node_reads [OF s1(1,2) s s1(3) that] by (simp add: jpost_bind jpost_move)
  moreover note array_value_reads [OF strict s s1 _ arr] object_value_reads [OF strict s s1 _ obj] number_node_reads [OF s1(1,2) s]
  ultimately show "jpost True (
       if ?c = CHR 0x22 then jbind (jmove (adv 1)) (\<lambda>_. parse_str_node opts)
       else if po_mode opts = Json5 \<and> ?c = CHR 0x27 then jbind (jmove (adv 1)) (\<lambda>_. parse_str_node_sq opts)
       else if ?c = CHR ''['' then
         jbind (open_bracket opts (CHR '']'')) (\<lambda>closed s.
           if closed then finish_array (length (tb_staging s)) s
           else parse_array_loop env opts n d (length (tb_staging s)) s)
       else if ?c = CHR ''{'' then
         jbind (open_bracket opts (CHR ''}'')) (\<lambda>closed s.
           if closed then push_node (node_object (u32_of (length (ds_members s))) 0) s
           else parse_object_loop env opts n d (length (tb_staging_members s)) None s)
       else if ?c = CHR ''t'' then jbind (expect_word ''true'') (\<lambda>_. push_node (make_bool True))
       else if ?c = CHR ''f'' then jbind (expect_word ''false'') (\<lambda>_. push_node (make_bool False))
       else if ?c = CHR ''n'' then jbind (expect_word ''null'') (\<lambda>_. push_node make_null)
       else if ?c = CHR ''-'' \<or> is_digit ?c then parse_number env
       else unexpected_character) s1 (reads_value pol s)"
    using words strict by (simp add: jpost_fails(4))
qed

lemma parse_reads:
  assumes strict: "po_mode opts = Strict" and pol: "po_duplicate_key opts = pol"
  shows "(\<forall>d s. fits 0 s \<longrightarrow> jpost True (parse_value env opts n d) s (reads_value pol s)) \<and>
    (\<forall>d k vs s. in_array k vs s \<longrightarrow> jpost True (parse_array_loop env opts n d k) s (reads_elements pol k vs s)) \<and>
    (\<forall>d k acc seen s. in_object k acc seen s \<longrightarrow> jpost True (parse_object_loop env opts n d k seen) s (reads_members pol k acc s))"
proof (induction n)
  case (Suc n)
  have skip: "jpost True (skip_value opts n d) t (skips_value t)" if "fits 0 t" for d t
    using skip_reads [OF strict] that by (simp add: fits_def)
  have "jpost True (parse_value env opts (Suc n) d) s (reads_value pol s)" if "fits 0 s" for d s
    by (rule value_step [OF strict that]) (use Suc in blast)+
  moreover have "jpost True (parse_array_loop env opts (Suc n) d k) s (reads_elements pol k vs s)" if "in_array k vs s" for d k vs s
    by (rule array_round [OF strict that]) (use Suc that in \<open>auto simp: in_array_def [of k vs s]\<close>)
  moreover have "jpost True (parse_object_loop env opts (Suc n) d k seen) s (reads_members pol k acc s)" if "in_object k acc seen s" for d k acc seen s
    by (rule object_round [OF strict pol that]) (use Suc skip in blast)+
  ultimately show ?case by blast
qed (simp add: jposts)

section \<open>Documents\<close>

lemma document_holds_truncate: "document_holds (document_storage.truncate s) i v = document_holds s i v"
proof (induction v arbitrary: i)
  case (JV_array vs)
  have "list_all2 (document_holds (document_storage.truncate s)) xs vs = list_all2 (document_holds s) xs vs" for xs
    using JV_array by (intro list.rel_cong) auto
  then show ?case by (simp add: document_storage.defs Let_def)
next
  case (JV_object ms)
  have "list_all2 (member_holds (document_storage.truncate s)) xs ms = list_all2 (member_holds s) xs ms" for xs
    using JV_object by (intro list.rel_cong) (auto simp: member_holds_def string_at_def text_at_def bytes_at_def str_at_def document_storage.defs)
  then show ?case by (simp add: document_holds_object document_storage.defs slot_members_def)
qed (auto simp: document_storage.defs Let_def string_at_def text_at_def bytes_at_def str_at_def)

lemma parse_root_reads:
  assumes strict: "po_mode opts = Strict" and s: "fits 0 s" "tk_pos s = 0"
  shows "jpost True (parse_root env opts) s (\<lambda>_ s'. \<exists>v. json_text (po_duplicate_key opts) v (ds_input s) \<and> document_holds s' (ds_root s') v)"
proof -
  let ?pol = "po_duplicate_key opts"
  let ?R = "\<lambda>_ s'. \<exists>v. json_text ?pol v (ds_input s) \<and> document_holds s' (ds_root s') v"
  have last: "jpost True (skip_ws_checked opts) (t\<lparr>ds_root := u32_of i\<rparr>) (\<lambda>_ s'. at_end s' \<longrightarrow> ?R () s')"
    if s1: "lexed s ws s1" "blanks ws" and r: "reads_value ?pol s1 i t" for ws s1 i t
  proof (rule skip_ws_reads [OF strict], goal_cases)
    case 1
    then show ?case using r by (simp add: reads_value_def fits_def)
  next
    case (2 ws2 u)
    let ?t = "t\<lparr>ds_root := u32_of i\<rparr>"
    obtain ws1 w v where v: "rest s1 = ws1 @ w @ rest t" "blanks ws1" "json_value_text ?pol v w" "document_holds t i v" "fits 1 t"
      using r by (auto simp: reads_value_def)
    have "extends t ?t" by (simp add: extends_def)
    then have "document_holds u i v" using document_holds_extends [OF document_holds_extends [OF v(4)]] grows_extends [OF lexed_grows(1) [OF 2(1)]] by blast
    moreover have "ds_root u = i" using same_treeD(10) [OF lexedD(3) [OF 2(1)]] holds_index [OF v(4,5)] by simp
    moreover have "ds_input s = (ws @ ws1) @ w @ ws2" if "at_end u"
      using lexedD(1) [OF s1(1)] v(1) lexedD(1) [OF 2(1)] that s(2) by (simp add: rest_def at_end_def)
    ultimately show ?case using s1(2) v(2,3) 2(2) unfolding json_text_def by (metis list_all_append)
  qed
  have "jpost True (parse_value env opts m 0) s1 (\<lambda>i t. jpost True (skip_ws_checked opts) (t\<lparr>ds_root := u32_of i\<rparr>) (\<lambda>_ s'. at_end s' \<longrightarrow> ?R () s'))"
    if "lexed s ws s1" "blanks ws" for ws s1 m
  proof -
    have "jpost True (parse_value env opts m 0) s1 (reads_value ?pol s1)"
      using parse_reads [OF strict refl] lexed_grows(2) [OF that(1) s(1)] by blast
    then show ?thesis by (rule jpost_mono) (rule last [OF that])
  qed
  then have v: "jpost True (\<lambda>s. jbind (parse_value env opts (parse_fuel (ds_input s)) 0) (\<lambda>root.
       jbind (jmove (\<lambda>s. s\<lparr>ds_root := u32_of root\<rparr>)) (\<lambda>_.
       jbind (skip_ws_checked opts) (\<lambda>_ s.
         if \<not> at_end s then jfail Trailing_garbage ''trailing content after value'' s else (J_ok (), s)))) s) s1 ?R"
    if "lexed s ws s1" "blanks ws" for ws s1
    using that by (subst jpost_cong [where m' = "jbind (parse_value env opts (parse_fuel (ds_input s1)) 0) (\<lambda>root.
       jbind (jmove (\<lambda>s. s\<lparr>ds_root := u32_of root\<rparr>)) (\<lambda>_.
       jbind (skip_ws_checked opts) (\<lambda>_ s.
         if \<not> at_end s then jfail Trailing_garbage ''trailing content after value'' s else (J_ok (), s))))"])
      (simp_all add: jposts)
  have "jpost True (jbind (skip_ws_checked opts) (\<lambda>_ s.
     if at_end s then plain_error Unexpected_eof ''empty input'' s
     else
       jbind (parse_value env opts (parse_fuel (ds_input s)) 0) (\<lambda>root.
       jbind (jmove (\<lambda>s. s\<lparr>ds_root := u32_of root\<rparr>)) (\<lambda>_.
       jbind (skip_ws_checked opts) (\<lambda>_ s.
         if \<not> at_end s then jfail Trailing_garbage ''trailing content after value'' s else (J_ok (), s)))) s)) s ?R"
    unfolding jpost_bind [of _ "skip_ws_checked opts"] jpost_fun_if
    by (rule skip_ws_reads [OF strict]) (use s(1) v in \<open>auto simp: jpost_fails fits_def\<close>)
  then show ?thesis by (simp add: jpost_def parse_root_def)
qed

definition json_demo_env :: json_env where
  "json_demo_env = \<lparr>ev_from_chars_f64 = \<lambda>w. F64_finite 0, ev_hash_seed = \<lambda>n. 0, ev_alloc_ok = \<lambda>n. True\<rparr>"

lemma json_parse_reads:
  assumes "json_parse env input opts = J_ok st" "po_mode opts = Strict"
  shows "\<exists>v. json_text (po_duplicate_key opts) v (if prefix kBOM input then drop (length kBOM) input else input) \<and>
    document_holds st (ds_root st) v"
proof -
  let ?st = "set_storage_input_view input document_storage_new" and ?text = "if prefix kBOM input then drop (length kBOM) input else input"
  have i: "ds_input ?st = ?text" "ds_nodes ?st = []" "ds_arena ?st = []" "ds_children ?st = []" "ds_members ?st = []"
    by (simp_all add: set_storage_input_view_def document_storage_new_def)
  obtain u s where s: "length input < 2 ^ 32" "parse_root env opts (tree_builder ?st) = (J_ok u, s)" "st = document_storage.truncate s"
    using assms(1) by (auto simp: json_parse_def parse_document_storage_def parse_inplace_def check_input_limits_def
        split: option.splits prod.splits jres.splits if_splits)
  have "ds_input (tree_builder ?st) = ?text" "fits 0 (tree_builder ?st)" "tk_pos (tree_builder ?st) = 0"
    using s(1) i by (auto simp: tree_builder_def document_storage.defs fits_def)
  then obtain v where "json_text (po_duplicate_key opts) v ?text" "document_holds s (ds_root s) v"
    using jpost_okD [OF parse_root_reads [OF assms(2)] s(2)] by auto
  moreover have "ds_root st = ds_root s" using s(3) by (simp add: document_storage.defs)
  ultimately show ?thesis using document_holds_truncate [of s] s(3) by auto
qed



end
