(* ===== verification/Json_Runs.thy ===== *)
theory Json_Runs
  imports Json_Sound
begin

unbundle bit_operations_syntax

text \<open>
  The strict JSON parser on texts of the grammar, step by step: strings, escapes and UTF-8 sequences
  are decoded, number lexemes are read to their end, white space, separators and the words are passed.
  \<^term>\<open>jruns m s Q\<close> says that step \<^term>\<open>m\<close> raises no error in state \<^term>\<open>s\<close> and ends in a state with
  \<^term>\<open>Q\<close>, or exhausts the fuel; that the parser's fuel is never exhausted is shown in \<^verbatim>\<open>Json_Parse\<close>.
  \<^verbatim>\<open>json_within\<close> states the limits of the options on a value: depth, sizes of strings and of number
  lexemes, and that the platform reads the number.
\<close>

section \<open>Strings\<close>

lemma rest_arena [simp]: "rest (s\<lparr>ds_arena := a\<rparr>) = rest s"
  by (simp add: rest_def)

lemma hex4_runs:
  assumes "rest s = h @ r" "length h = 4" "json_hex_value h = Some v"
  shows "hex4 s = (Some v, adv 4 s)"
proof -
  have "length (rest s) \<ge> 4" using assms(1,2) by simp
  moreover have "substr (ds_input s) (tk_pos s) 4 = h" using assms(1,2) by (simp add: substr_def rest_def)
  ultimately show ?thesis using assms(3) by (auto simp: hex4_def rest_def)
qed

lemma read_escape_runs:
  assumes "json_escape_text e d" "rest s = e @ r"
  shows "\<exists>x s'. read_escape (CHR 0x22) s = (Inr x, s') \<and> rest s' = r \<and> ds_arena s' = ds_arena s \<and> (\<forall>out. escape_bytes x out = out @ d)"
  using assms(1)
proof cases
  case (simple c b)
  then have "rest s = c # r" using assms(2) by simp
  then show ?thesis using simple by (auto simp: rest_Cons read_escape_def escape_bytes_def)
next
  case (basic h cp)
  then have r: "rest s = CHR ''u'' # h @ r" using assms(2) by simp
  then have c: "tk_pos s < src_size s" "src_at s (tk_pos s) = CHR ''u''" "rest (adv 1 s) = h @ r" by (simp_all add: rest_Cons)
  have "\<not> (cp \<ge> 0xD800 \<and> cp \<le> 0xDBFF)" "\<not> (cp \<ge> 0xDC00 \<and> cp \<le> 0xDFFF)" "cp \<le> 0x10FFFF"
    using basic(5) by (auto simp: scalar_value_def)
  then have "read_escape (CHR 0x22) s = (Inr (Esc_cp cp), adv 4 (adv 1 s))"
    using c hex4_runs [OF c(3) basic(3,4)] by (auto simp: read_escape_def simple_escape_def read_u_escape_def Let_def)
  moreover have "escape_bytes (Esc_cp cp) out = out @ utf8_encode cp" for out
    using \<open>cp \<le> 0x10FFFF\<close> by (simp add: escape_bytes_def append_utf8_encode)
  ultimately show ?thesis using r basic by (intro exI [of _ "Esc_cp cp"] exI [of _ "adv 4 (adv 1 s)"]) simp
next
  case (paired h hi l lo)
  then have r: "rest s = CHR ''u'' # h @ CHR 0x5C # CHR ''u'' # l @ r" using assms(2) by simp
  define s2 where "s2 = adv 4 (adv 1 s)"
  let ?cp = "0x10000 + push_bit 10 (hi - 0xD800) + (lo - 0xDC00)"
  have c: "tk_pos s < src_size s" "src_at s (tk_pos s) = CHR ''u''" "rest (adv 1 s) = h @ CHR 0x5C # CHR ''u'' # l @ r"
    using r by (simp_all add: rest_Cons)
  have r2: "rest s2 = CHR 0x5C # CHR ''u'' # l @ r" "ds_arena s2 = ds_arena s" using c(3) paired(3) by (simp_all add: s2_def)
  then have len: "length (rest s2) = 6 + length r" using paired(7) by simp
  have c2: "src_at s2 (tk_pos s2) = CHR 0x5C" "src_at s2 (tk_pos s2 + 1) = CHR ''u''" "rest (adv 2 s2) = l @ r"
    using rest_nth [of 1 s2] rest_nth [of 0 s2] r2 by simp_all
  have c3: "tk_pos s2 + 6 \<le> src_size s2" using len by (simp add: rest_def)
  have "hex4 (adv 1 s) = (Some hi, s2)" using hex4_runs [OF c(3) paired(3,4)] by (simp add: s2_def)
  then have "read_escape (CHR 0x22) s = (Inr (Esc_cp ?cp), adv 4 (adv 2 s2))"
    using c c2 c3 hex4_runs [OF c2(3) paired(7,8)] paired(5,6,9,10)
    by (simp add: read_escape_def simple_escape_def read_u_escape_def Let_def)
  moreover have "escape_bytes (Esc_cp ?cp) out = out @ d" for out
  proof -
    have "hi - 0xD800 \<le> 0x3FF" "lo - 0xDC00 \<le> 0x3FF" using paired(5,6,9,10) by linarith+
    then have "?cp \<le> 0x10FFFF" by (simp add: push_bit_eq_mult)
    then show ?thesis using append_utf8_encode [of ?cp out] paired(2) by (simp add: escape_bytes_def push_bit_eq_mult)
  qed
  ultimately show ?thesis using c2(3) r2(2) paired(7) by (intro exI [of _ "Esc_cp ?cp"] exI [of _ "adv 4 (adv 2 s2)"]) simp
qed

lemma utf8_unit_runs:
  assumes "json_unit u" "rest s = u @ r"
  shows "utf8_unit s = Inr (length u)" "u \<noteq> []" "0x20 \<le> byte (hd u)" "hd u \<noteq> CHR 0x22" "hd u \<noteq> CHR 0x5C" "rest s = hd u # tl u @ r"
proof -
  obtain c cs where u: "u = c # cs" "0x20 \<le> byte c" "c \<noteq> CHR 0x22" "c \<noteq> CHR 0x5C" "utf8_seq_len (byte c) = length u"
    "list_all (\<lambda>c. is_cont (byte c)) cs" using assms(1) by (auto simp: json_unit_def split: list.splits)
  then show "u \<noteq> []" "0x20 \<le> byte (hd u)" "hd u \<noteq> CHR 0x22" "hd u \<noteq> CHR 0x5C" "rest s = hd u # tl u @ r" using assms(2) by simp_all
  have c: "tk_pos s < src_size s" "src_at s (tk_pos s) = c" using assms(2) u(1) by (simp_all add: rest_Cons)
  have n: "src_at s (tk_pos s + k) = u ! k" if "k < length u" for k
    using rest_nth [of k s] assms(2) that by (simp add: nth_append)
  have "is_cont (byte (src_at s (tk_pos s + k)))" if "1 \<le> k" "k < length u" for k
    using n [OF that(2)] u(1,6) that by (cases k) (auto simp: list_all_length)
  moreover have "tk_pos s + length u \<le> src_size s" using arg_cong [OF assms(2), of length] c(1) by (simp add: rest_def)
  ultimately show "utf8_unit s = Inr (length u)"
    using c(2) u(5) \<open>u \<noteq> []\<close> by (auto simp: utf8_unit_def Let_def list_all_iff)
qed

lemma decode_str_runs:
  "json_string_body t b \<Longrightarrow> rest s = t @ CHR 0x22 # r \<Longrightarrow>
   \<exists>p s'. decode_str (CHR 0x22) a s = (Inr p, s') \<and> rest s' = r \<and> ds_arena s' = ds_arena s @ b"
proof (induction arbitrary: s rule: json_string_body.induct)
  case closed
  then have "tk_pos s < src_size s" "src_at s (tk_pos s) = CHR 0x22" "rest (adv 1 s) = r" by (simp_all add: rest_Cons)
  then show ?case by (subst decode_str.simps) simp
next
  case (plain u t b)
  note u = utf8_unit_runs [OF plain(1), of s "t @ CHR 0x22 # r"]
  have r: "rest s = u @ t @ CHR 0x22 # r" using plain(4) by simp
  have c: "tk_pos s < src_size s" "src_at s (tk_pos s) = hd u" using u(6) [OF r] rest_Cons by blast+
  let ?s = "next_unit (length u) (s\<lparr>ds_arena := ds_arena s @ u\<rparr>)"
  have "rest ?s = t @ CHR 0x22 # r" using r by simp
  from plain(3) [OF this] obtain p s' where p: "decode_str (CHR 0x22) a ?s = (Inr p, s')" "rest s' = r" "ds_arena s' = ds_arena s @ u @ b"
    by auto
  have "substr (ds_input s) (tk_pos s) (length u) = u" using r by (simp add: substr_def rest_def)
  then have "decode_str (CHR 0x22) a s = decode_str (CHR 0x22) a ?s"
    using c u [OF r] by (subst decode_str.simps) (simp add: Let_def)
  with p show ?case by auto
next
  case (escape e d t b)
  have r: "rest s = CHR 0x5C # e @ t @ CHR 0x22 # r" using escape(4) by simp
  then have c: "tk_pos s < src_size s" "src_at s (tk_pos s) = CHR 0x5C" "rest (adv 1 s) = e @ t @ CHR 0x22 # r" by (simp_all add: rest_Cons)
  obtain x s1 where x: "read_escape (CHR 0x22) (adv 1 s) = (Inr x, s1)" "rest s1 = t @ CHR 0x22 # r" "ds_arena s1 = ds_arena (adv 1 s)"
    "\<forall>out. escape_bytes x out = out @ d" using read_escape_runs [OF escape(1) c(3)] by blast
  let ?s = "s1\<lparr>ds_arena := escape_bytes x (ds_arena s1)\<rparr>"
  have "rest ?s = t @ CHR 0x22 # r" using x(2) by (simp add: rest_def)
  from escape(3) [OF this] obtain p s' where p: "decode_str (CHR 0x22) a ?s = (Inr p, s')" "rest s' = r" "ds_arena s' = ds_arena s @ d @ b"
    using x(3,4) by auto
  have "decode_str (CHR 0x22) a s = decode_str (CHR 0x22) a ?s"
    using c x(1) by (subst decode_str.simps) (simp add: Let_def)
  with p show ?case by auto
qed

text \<open>The bytes of a string are determined by its text.\<close>

lemma json_string_body_unique:
  assumes "json_string_body t b" "json_string_body t b'"
  shows "b = b'"
proof -
  define s where "s = tree_builder (document_storage_new\<lparr>ds_input := t @ [CHR 0x22]\<rparr>)"
  have "rest s = t @ CHR 0x22 # []" by (simp add: s_def rest_def tree_builder_def document_storage.defs)
  from decode_str_runs [OF assms(1) this, of 0] decode_str_runs [OF assms(2) this, of 0] show ?thesis by auto
qed

lemma body_after_plain: "json_string_body (c # x) b \<Longrightarrow> \<not> json_special c \<Longrightarrow> \<exists>b'. json_string_body x b'"
proof (induction "c # x" b rule: json_string_body.induct)
  case (plain u t b)
  obtain cs where u: "u = c # cs" "utf8_seq_len (byte c) = length u" using plain by (auto simp: json_unit_def split: list.splits)
  have "cs = []" using u plain(5) by (auto simp: utf8_seq_len_def json_special_def split: if_splits)
  with plain u show ?case by auto
qed (auto simp: json_special_def)

lemma body_after_run:
  "json_string_body t b \<Longrightarrow> t @ CHR 0x22 # r = u @ v \<Longrightarrow> list_all (\<lambda>c. \<not> json_special c) u \<Longrightarrow>
   \<exists>t' b'. t = u @ t' \<and> v = t' @ CHR 0x22 # r \<and> json_string_body t' b'"
proof (induction u arbitrary: t b)
  case (Cons c u)
  then obtain x where x: "t = c # x" by (cases t) (auto simp: json_special_def)
  obtain b' where "json_string_body x b'" using body_after_plain [of c x b] Cons.prems x by auto
  with Cons.IH [of x b'] Cons.prems x show ?case by auto
qed auto

lemma str_body_loop_runs:
  "json_string_body t b \<Longrightarrow> rest s = t @ CHR 0x22 # r \<Longrightarrow> \<exists>q s'. str_body_loop p s = (Inr q, s') \<and> rest s' = r"
proof (induction p s arbitrary: t b rule: str_body_loop.induct)
  case (1 p s)
  define s1 where "s1 = adv (scan_str_until_special (drop (tk_pos s) (ds_input s))) s"
  obtain u v where u: "rest s = u @ v" "length u = run_of json_special (rest s)" "list_all (\<lambda>c. \<not> json_special c) u"
    "v \<noteq> [] \<Longrightarrow> json_special (hd v)" using run_of_split by blast
  have n: "scan_str_until_special (drop (tk_pos s) (ds_input s)) = length u"
    using u(2) by (simp add: scan_str_until_special_eq rest_def)
  obtain t' b' where t': "t = u @ t'" "v = t' @ CHR 0x22 # r" "json_string_body t' b'"
    using body_after_run [OF "1.prems"(1) _ u(3)] "1.prems"(2) u(1) by metis
  have pos: "tk_pos s < src_size s" using "1.prems"(2) at_rest(1) [of s] by auto
  have r1: "rest s1 = t' @ CHR 0x22 # r" using u(1) t'(2) n by (simp add: s1_def)
  have pos1: "\<not> src_size s1 \<le> tk_pos s1" using r1 at_rest(1) [of s1] by auto
  note step = str_body_loop.simps [of p s, folded s1_def]
  from t'(3) show ?case
  proof cases
    case closed
    then have "src_at s1 (tk_pos s1) = CHR 0x22" "rest (adv 1 s1) = r" using r1 rest_Cons [of s1 "CHR 0x22" r] by simp_all
    then show ?thesis using pos pos1 by (simp add: step Let_def)
  next
    case (plain w x d)
    then have rw: "rest s1 = w @ x @ CHR 0x22 # r" using r1 by simp
    note w = utf8_unit_runs [OF plain(3) rw]
    have c: "src_at s1 (tk_pos s1) = hd w" using w(6) rest_Cons by blast
    have "rest (next_unit (length w) s1) = x @ CHR 0x22 # r" using rw by simp
    then have "\<exists>q s'. str_body_loop p (next_unit (length w) s1) = (Inr q, s') \<and> rest s' = r"
      using w(2-5) c by (intro "1.IH" [OF pos s1_def pos1 refl _ _ _ w(1) plain(4)]) auto
    then show ?thesis using pos pos1 c w by (simp add: step Let_def not_less [symmetric])
  next
    case (escape e d x y)
    have c: "src_at s1 (tk_pos s1) = CHR 0x5C" using r1 escape(1) rest_Cons by fastforce
    let ?s = "s1\<lparr>ds_arena := ds_arena s1 @ substr (ds_input s1) p (tk_pos s1 - p)\<rparr>"
    have "rest ?s = t' @ CHR 0x22 # r" using r1 by (simp add: rest_def)
    from decode_str_runs [OF t'(3) this, of "length (ds_arena s1)"] c show ?thesis
      using pos pos1 by (auto simp: step Let_def parse_str_decode_tail_def)
  qed
qed

lemma parse_str_body_runs:
  assumes "json_string_body t b" "rest s = t @ CHR 0x22 # r"
  shows "\<exists>p s'. parse_str_body s = (Inr p, s') \<and> rest s' = r \<and> string_parsed s t b p s'"
proof -
  obtain p s' where p: "parse_str_body s = (Inr p, s')" "rest s' = r"
    using str_body_loop_runs [OF assms, of "tk_pos s"] by (auto simp: parse_str_body_def)
  obtain t' b' where t': "string_parsed s t' b' p s'" using parse_str_body_reads [OF p(1)] by blast
  then have "t' = t" using assms(2) p(2) lexedD(1) [of s "t' @ [CHR 0x22]" s'] by (simp add: string_parsed_def)
  moreover have "b' = b" using t' calculation json_string_body_unique [OF assms(1)] by (auto simp: string_parsed_def)
  ultimately show ?thesis using p t' by blast
qed

section \<open>Numbers\<close>

text \<open>What can follow a value.\<close>

definition json_follow :: "string \<Rightarrow> bool" where
  "json_follow r \<longleftrightarrow> r = [] \<or> json_blank (hd r) \<or> hd r \<in> {CHR '','', CHR '']'', CHR ''}''}"

definition starts_with :: "(char \<Rightarrow> bool) \<Rightarrow> string \<Rightarrow> bool" where
  "starts_with P s \<longleftrightarrow> s \<noteq> [] \<and> P (hd s)"

lemma starts_with_simps [simp]: "\<not> starts_with P []" "starts_with P (c # s) = P c"
  by (simp_all add: starts_with_def)

lemma at_digit_rest: "at_digit s \<longleftrightarrow> starts_with is_digit (rest s)"
  using at_rest [of s] by (auto simp: at_digit_def starts_with_def)

lemma at_char_rest: "at_char cs s \<longleftrightarrow> starts_with (\<lambda>c. c \<in> set cs) (rest s)"
  using at_rest [of s] by (auto simp: at_char_def starts_with_def)

lemma rest_adv_digits: "rest (adv_digits s) = dropWhile is_digit (rest s)"
  using lexedD(1) [OF adv_digits_reads(1), of s] takeWhile_dropWhile_id [of is_digit "rest s"] by (metis same_append_eq)

lemma dropWhile_digits: "list_all is_digit ds \<Longrightarrow> \<not> starts_with is_digit r \<Longrightarrow> dropWhile is_digit (ds @ r) = r"
  by (cases r) (auto simp: dropWhile_append list_all_iff)

lemma follow_starts:
  assumes "json_follow r"
  shows "\<not> starts_with is_digit r" "\<not> starts_with (\<lambda>c. c \<in> set ''.'') r" "\<not> starts_with (\<lambda>c. c \<in> set ''eE'') r"
  using assms by (auto simp: json_follow_def starts_with_def json_blank_def is_digit_def char_between_def)

lemma exponent_starts:
  assumes "json_exponent_part x" "json_follow r"
  shows "\<not> starts_with is_digit (x @ r)" "\<not> starts_with (\<lambda>c. c \<in> set ''.'') (x @ r)"
  using assms follow_starts [OF assms(2)] by (auto simp: json_exponent_part_def is_digit_def char_between_def)

lemma fraction_starts:
  assumes "json_fraction_part f" "json_exponent_part x" "json_follow r"
  shows "\<not> starts_with is_digit (f @ x @ r)"
  using assms exponent_starts [OF assms(2,3)] by (auto simp: json_fraction_part_def is_digit_def char_between_def)

lemma number_integer_runs:
  assumes "rest s = sign @ i @ r" "sign \<in> {[], ''-''}" "json_integer_part i" "\<not> starts_with is_digit r"
  shows "\<exists>s'. number_integer s = (Inr (), s') \<and> rest s' = r"
proof -
  obtain c ds where i: "i = c # ds" "is_digit c" "list_all is_digit ds" "c = CHR ''0'' \<longrightarrow> ds = []"
    using assms(3) by (cases i) (auto simp: json_integer_part_def json_digits_def)
  define s1 where "s1 = (if src_at s (tk_pos s) = CHR ''-'' then adv 1 s else s)"
  have "c \<noteq> CHR ''-''" using i(2) by (auto simp: is_digit_def char_between_def)
  then have r1: "rest s1 = c # ds @ r"
    using assms(1,2) i(1) rest_Cons [of s "CHR ''-''" "c # ds @ r"] rest_Cons [of s c "ds @ r"] by (auto simp: s1_def)
  then have c1: "src_at s1 (tk_pos s1) = c" "rest (adv 1 s1) = ds @ r" by (simp_all add: rest_Cons)
  have "number_integer s = (Inr (), adv_digits (adv 1 s1))"
    using r1 c1 i(2,4) assms(4) by (auto simp: number_integer_def Let_def s1_def [symmetric] at_digit_rest)
  moreover have "rest (adv_digits (adv 1 s1)) = r" using c1(2) dropWhile_digits [OF i(3) assms(4)] by (simp add: rest_adv_digits)
  ultimately show ?thesis by blast
qed

lemma number_fraction_runs:
  assumes "rest s = f @ r" "json_fraction_part f" "\<not> starts_with is_digit r" "\<not> starts_with (\<lambda>c. c \<in> set ''.'') r"
  shows "\<exists>b s'. number_fraction s = (Inr b, s') \<and> rest s' = r"
proof (cases "f = []")
  case True
  then show ?thesis using assms(1,4) by (auto simp: number_fraction_def at_char_rest)
next
  case False
  then obtain ds where f: "f = CHR ''.'' # ds" "ds \<noteq> []" "list_all is_digit ds" using assms(2) by (auto simp: json_fraction_part_def json_digits_def)
  have r1: "rest (adv (Suc 0) s) = ds @ r" using assms(1) f(1) by simp
  then have "at_digit (adv (Suc 0) s)" using f(2,3) by (cases ds) (auto simp: at_digit_rest)
  moreover have "rest (adv_digits (adv (Suc 0) s)) = r" using r1 dropWhile_digits [OF f(3) assms(3)] by (simp add: rest_adv_digits)
  ultimately show ?thesis using assms(1) f(1) by (auto simp: number_fraction_def at_char_rest)
qed

lemma number_exponent_runs:
  assumes "rest s = x @ r" "json_exponent_part x" "json_follow r"
  shows "\<exists>b s'. number_exponent s = (Inr b, s') \<and> rest s' = r"
proof (cases "x = []")
  case True
  then show ?thesis using assms(1) follow_starts [OF assms(3)] by (auto simp: number_exponent_def at_char_rest)
next
  case False
  then obtain e sign ds where x: "x = e # sign @ ds" "e \<in> {CHR ''e'', CHR ''E''}" "sign \<in> {[], ''+'', ''-''}" "ds \<noteq> []" "list_all is_digit ds"
    using assms(2) by (auto simp: json_exponent_part_def json_digits_def)
  have r1: "rest (adv (Suc 0) s) = sign @ ds @ r" using assms(1) x(1) by simp
  obtain d ds' where d: "ds = d # ds'" "is_digit d" using x(4,5) by (cases ds) auto
  define s1 where "s1 = (if at_char ''+-'' (adv (Suc 0) s) then adv (Suc 0) (adv (Suc 0) s) else adv (Suc 0) s)"
  have "d \<noteq> CHR ''+''" "d \<noteq> CHR ''-''" using d(2) by (auto simp: is_digit_def char_between_def)
  then have r2: "rest s1 = ds @ r" using r1 x(3) d(1) by (auto simp: s1_def at_char_rest)
  then have "at_digit s1" "rest (adv_digits s1) = r"
    using d dropWhile_digits [OF x(5) follow_starts(1) [OF assms(3)]] by (simp_all add: at_digit_rest rest_adv_digits)
  moreover have "at_char ''eE'' s" using assms(1) x(1,2) by (simp add: at_char_rest)
  ultimately show ?thesis by (auto simp: number_exponent_def Let_def s1_def)
qed

lemma number_lexeme_runs:
  assumes "rest s = w @ r" "json_number w" "json_follow r" "length w \<le> kMaxNumberLexemeLen"
  shows "\<exists>int_form s'. parse_number_lexeme s = (Inr (w, int_form), s') \<and> rest s' = r"
proof -
  obtain sign i f x where w: "w = sign @ i @ f @ x" "sign \<in> {[], ''-''}" "json_integer_part i" "json_fraction_part f" "json_exponent_part x"
    using assms(2) by (auto simp: json_number_def)
  obtain s1 where s1: "number_integer s = (Inr (), s1)" "rest s1 = f @ x @ r"
    using number_integer_runs [OF _ w(2,3) fraction_starts [OF w(4,5) assms(3)], of s] assms(1) w(1) by auto
  obtain b s2 where s2: "number_fraction s1 = (Inr b, s2)" "rest s2 = x @ r"
    using number_fraction_runs [OF s1(2) w(4) exponent_starts [OF w(5) assms(3)]] by blast
  obtain b' s3 where s3: "number_exponent s2 = (Inr b', s3)" "rest s3 = r"
    using number_exponent_runs [OF s2(2) w(5) assms(3)] by blast
  obtain t u v where "lexed s t s1" "lexed s1 u s2" "lexed s2 v s3"
    using number_integer_reads [OF s1(1)] number_fraction_reads [OF s2(1)] number_exponent_reads [OF s3(1)] by blast
  then have l: "lexed s (t @ u @ v) s3" using lexed_trans by blast
  then have e: "t @ u @ v = w" using lexedD(1) [OF l] assms(1) s3(2) by simp
  then have "tk_pos s3 = tk_pos s + length w" using lexedD(2) [OF l] by simp
  moreover have "substr (ds_input s3) (tk_pos s) (length w) = w"
    using assms(1) same_treeD(1) [OF lexedD(3) [OF l]] by (simp add: substr_def rest_def)
  ultimately show ?thesis using s1 s2 s3 assms(4) by (auto simp: parse_number_lexeme_def)
qed

section \<open>Steps that succeed\<close>

definition jruns :: "'a jp \<Rightarrow> json_parser \<Rightarrow> ('a \<Rightarrow> json_parser \<Rightarrow> bool) \<Rightarrow> bool" where
  "jruns m s Q = (case m s of (J_ok x, s') \<Rightarrow> Q x s' | (J_fail e, s') \<Rightarrow> False | (J_fuel, s') \<Rightarrow> True)"

lemma jruns_bind: "jruns (jbind m f) s Q \<longleftrightarrow> jruns m s (\<lambda>x s'. jruns (f x) s' Q)"
  by (auto simp: jruns_def jbind_def split: prod.splits jres.splits)

lemma jruns_leaf [simp]:
  "jruns (jret x) s Q \<longleftrightarrow> Q x s" "jruns jfuel s Q" "jruns (jmove f) s R \<longleftrightarrow> R () (f s)"
  by (simp_all add: jruns_def jret_def jfuel_def jmove_def)

lemma jruns_ok [simp]: "jruns (\<lambda>s. (J_ok (x s), f s)) s Q \<longleftrightarrow> Q (x s) (f s)"
  by (simp add: jruns_def)

lemma jruns_fun_if: "jruns (\<lambda>s. if b s then m s else m' s) s Q \<longleftrightarrow> (if b s then jruns m s Q else jruns m' s Q)"
  by (simp add: jruns_def)

lemma jruns_mono: "jruns m s P \<Longrightarrow> (\<And>x s'. P x s' \<Longrightarrow> Q x s') \<Longrightarrow> jruns m s Q"
  by (auto simp: jruns_def split: prod.splits jres.splits)

lemma jruns_lift: "f s = (Inr x, s') \<Longrightarrow> Q x s' \<Longrightarrow> jruns (jlift f) s Q"
  by (simp add: jruns_def jlift_def)

lemma jruns_on_error [simp]: "jruns (on_error_resize k m) s Q \<longleftrightarrow> jruns m s Q"
  by (auto simp: jruns_def on_error_resize_def split: prod.splits jres.splits)

text \<open>What is known of every successful run holds of a run that succeeds.\<close>

lemma jruns_post: "jruns m s Q \<Longrightarrow> jpost True m s P \<Longrightarrow> jruns m s (\<lambda>x s'. Q x s' \<and> P x s')"
  by (auto simp: jruns_def jpost_def split: prod.splits jres.splits)

lemma jruns_total: "jpost True m s P \<Longrightarrow> m s = (J_ok x, s') \<Longrightarrow> jruns m s P"
  by (simp add: jruns_def jpost_def)

lemma skip_ws_runs:
  assumes "po_mode opts = Strict" "tk_unterminated s = None" "rest s = ws @ r" "blanks ws" "\<not> starts_with json_blank r"
    and "\<And>s'. lexed s ws s' \<Longrightarrow> rest s' = r \<Longrightarrow> Q () s'"
  shows "jruns (skip_ws_checked opts) s Q"
proof -
  have "takeWhile json_blank (ws @ r) = ws" using assms(4,5) by (cases r) (auto simp: takeWhile_append list_all_iff)
  then have l: "lexed s ws (skip_blank s)" using skip_blank_lexed [of s] assms(3) by simp
  then have "rest (skip_blank s) = r" using lexedD(1) [OF l] assms(3) by simp
  then show ?thesis using assms(6) [OF l] assms(1,2) lexed_clean [OF l assms(2)]
    by (simp add: jruns_def skip_ws_checked_def skip_ws_strict)
qed

lemma rest_at: "rest s = c # r \<Longrightarrow> \<not> at_end s \<and> src_at s (tk_pos s) = c \<and> tk_pos s < src_size s"
  using rest_Cons [of s c r] by (simp add: at_end_def)

text \<open>Characters that are not blank.\<close>

lemma not_blank [simp]:
  "\<not> json_blank (CHR '','')" "\<not> json_blank (CHR '']'')" "\<not> json_blank (CHR ''}'')" "\<not> json_blank (CHR '':'')" "\<not> json_blank (CHR ''['')"
  "\<not> json_blank (CHR ''{'')" "\<not> json_blank (CHR 0x22)" "\<not> json_blank (CHR ''t'')" "\<not> json_blank (CHR ''f'')" "\<not> json_blank (CHR ''n'')"
  by (simp_all add: json_blank_def)

lemma value_start_runs:
  assumes "po_mode opts = Strict" "tk_unterminated s = None" "rest s = ws @ c # r" "blanks ws" "\<not> json_blank c" "\<not> too_deep opts d"
    and "\<And>s'. lexed s ws s' \<Longrightarrow> rest s' = c # r \<Longrightarrow> Q c s'"
  shows "jruns (value_start opts d) s Q"
  unfolding value_start_def jruns_bind
  by (rule skip_ws_runs [OF assms(1-4)]) (use assms(5-7) rest_at in \<open>auto simp: jruns_fun_if\<close>)

lemma separator_runs:
  assumes "po_mode opts = Strict" "tk_unterminated s = None" "rest s = ws @ c # r" "blanks ws" "\<not> json_blank c"
  shows "c \<noteq> CHR '','' \<Longrightarrow> (\<And>s'. lexed s (ws @ [c]) s' \<Longrightarrow> rest s' = r \<Longrightarrow> Q True s') \<Longrightarrow> jruns (close_bracket opts c m1 m2) s Q"
    and "c = CHR '']'' \<Longrightarrow> (\<And>s'. lexed s (ws @ [c]) s' \<Longrightarrow> rest s' = r \<Longrightarrow> Q True s') \<Longrightarrow> jruns (array_separator opts k) s Q"
    and "c = CHR '','' \<Longrightarrow> b \<noteq> CHR '','' \<Longrightarrow> (\<And>s'. lexed s (ws @ [c]) s' \<Longrightarrow> rest s' = r \<Longrightarrow> Q False s') \<Longrightarrow> jruns (close_bracket opts b m1 m2) s Q"
    and "c = CHR '','' \<Longrightarrow> (\<And>s'. lexed s (ws @ [c]) s' \<Longrightarrow> rest s' = r \<Longrightarrow> Q False s') \<Longrightarrow> jruns (array_separator opts k) s Q"
    and "c = CHR '':'' \<Longrightarrow> (\<And>s'. lexed s (ws @ [c]) s' \<Longrightarrow> rest s' = r \<Longrightarrow> R () s') \<Longrightarrow> jruns (expect_colon opts) s R"
proof -
  have nxt: "lexed s (ws @ [c]) (adv (Suc 0) t)" "rest (adv (Suc 0) t) = r" if "lexed s ws t" "rest t = c # r" for t
    using lexed_char [OF that(1)] rest_at [OF that(2)] that(2) by auto
  note run = skip_ws_runs [OF assms(1-4)]
  show "jruns (close_bracket opts c m1 m2) s Q" if "c \<noteq> CHR '',''" "\<And>s'. lexed s (ws @ [c]) s' \<Longrightarrow> rest s' = r \<Longrightarrow> Q True s'"
    unfolding close_bracket_def jruns_bind by (rule run) (use assms(5) rest_at that nxt in \<open>auto simp: jruns_fun_if\<close>)
  show "jruns (array_separator opts k) s Q" if "c = CHR '']''" "\<And>s'. lexed s (ws @ [c]) s' \<Longrightarrow> rest s' = r \<Longrightarrow> Q True s'"
    unfolding array_separator_def jruns_bind by (rule run) (use assms(5) rest_at that nxt in \<open>auto simp: jruns_fun_if\<close>)
  show "jruns (close_bracket opts b m1 m2) s Q" if "c = CHR '',''" "b \<noteq> CHR '',''" "\<And>s'. lexed s (ws @ [c]) s' \<Longrightarrow> rest s' = r \<Longrightarrow> Q False s'"
    unfolding close_bracket_def jruns_bind by (rule run) (use assms(1,5) rest_at that nxt in \<open>auto simp: jruns_fun_if jruns_bind\<close>)
  show "jruns (array_separator opts k) s Q" if "c = CHR '',''" "\<And>s'. lexed s (ws @ [c]) s' \<Longrightarrow> rest s' = r \<Longrightarrow> Q False s'"
    unfolding array_separator_def jruns_bind by (rule run) (use assms(1,5) rest_at that nxt in \<open>auto simp: jruns_fun_if jruns_bind\<close>)
  show "jruns (expect_colon opts) s R" if "c = CHR '':''" "\<And>s'. lexed s (ws @ [c]) s' \<Longrightarrow> rest s' = r \<Longrightarrow> R () s'"
    unfolding expect_colon_def jruns_bind by (rule run) (use assms(5) rest_at that nxt in \<open>auto simp: jruns_fun_if\<close>)
qed

lemma open_bracket_runs:
  assumes "po_mode opts = Strict" "tk_unterminated s = None" "rest s = c0 # ws @ c # r" "blanks ws" "\<not> json_blank c"
    and "\<And>s'. c = b \<Longrightarrow> lexed s (c0 # ws @ [c]) s' \<Longrightarrow> rest s' = r \<Longrightarrow> Q True s'"
    and "\<And>s'. c \<noteq> b \<Longrightarrow> lexed s (c0 # ws) s' \<Longrightarrow> rest s' = c # r \<Longrightarrow> Q False s'"
  shows "jruns (open_bracket opts b) s Q"
proof -
  have l: "lexed s [c0] (adv (Suc 0) s)" "rest (adv (Suc 0) s) = ws @ c # r"
    using lexed_one [of s] rest_at [OF assms(3)] assms(3) by auto
  have nxt: "lexed s (c0 # ws @ [c]) (adv (Suc 0) t)" "rest (adv (Suc 0) t) = r" "lexed s (c0 # ws) t"
    if "lexed (adv (Suc 0) s) ws t" "rest t = c # r" for t
    using lexed_trans [OF l(1) lexed_char [OF that(1)]] lexed_trans [OF l(1) that(1)] rest_at [OF that(2)] that(2) by auto
  show ?thesis unfolding open_bracket_def jruns_bind jruns_leaf One_nat_def
    by (rule skip_ws_runs [OF assms(1) lexed_clean [OF l(1) assms(2)] l(2) assms(4)])
      (use assms(5-7) rest_at nxt in \<open>auto simp: jruns_fun_if\<close>)
qed

lemma expect_word_runs:
  assumes "rest s = w @ r" "\<And>s'. lexed s w s' \<Longrightarrow> rest s' = r \<Longrightarrow> Q () s'"
  shows "jruns (expect_word w) s Q"
proof -
  have "substr (ds_input s) (tk_pos s) (length w) = w" using assms(1) by (simp add: substr_def rest_def)
  then show ?thesis using assms(2) [OF lexed_adv [OF assms(1) refl]] assms(1) by (simp add: jruns_def expect_word_def)
qed

section \<open>Values within the limits\<close>

text \<open>The limits of the parser on a value at a depth.\<close>

fun json_within :: "json_env \<Rightarrow> json_parse_options \<Rightarrow> nat \<Rightarrow> json_value \<Rightarrow> bool" where
  "json_within env opts d JV_null \<longleftrightarrow> \<not> too_deep opts d"
| "json_within env opts d (JV_bool b) \<longleftrightarrow> \<not> too_deep opts d"
| "json_within env opts d (JV_number w) \<longleftrightarrow>
     \<not> too_deep opts d \<and> length w \<le> kMaxNumberLexemeLen \<and> ev_from_chars_f64 env w \<noteq> F64_rejected"
| "json_within env opts d (JV_string b) \<longleftrightarrow>
     \<not> too_deep opts d \<and> \<not> exceeds (po_max_string_size opts) (length b) kDefaultMaxString"
| "json_within env opts d (JV_array vs) \<longleftrightarrow> \<not> too_deep opts d \<and> list_all (json_within env opts (d + 1)) vs"
| "json_within env opts d (JV_object ms) \<longleftrightarrow>
     \<not> too_deep opts d \<and>
     list_all (\<lambda>(k, v). \<not> exceeds (po_max_string_size opts) (length k) kDefaultMaxString \<and> json_within env opts (d + 1) v) ms"

definition member_within :: "json_env \<Rightarrow> json_parse_options \<Rightarrow> nat \<Rightarrow> string \<times> json_value \<Rightarrow> bool" where
  "member_within env opts d m \<longleftrightarrow>
     \<not> exceeds (po_max_string_size opts) (length (fst m)) kDefaultMaxString \<and> json_within env opts d (snd m)"

lemma within_object:
  "json_within env opts d (JV_object ms) \<longleftrightarrow> \<not> too_deep opts d \<and> list_all (member_within env opts (d + 1)) ms"
  by (simp add: member_within_def case_prod_beta list_all_iff)

lemma within_depth: "json_within env opts d v \<Longrightarrow> \<not> too_deep opts d"
  by (cases v) auto

section \<open>Nodes\<close>

lemma string_size_runs:
  assumes "string_parsed s t b p s'" "fits k s" "\<not> exceeds (po_max_string_size opts) (length b) kDefaultMaxString" "Q () s'"
  shows "jruns (check_string_size opts (pt_len p)) s' Q"
  using string_parsed_text(1) [OF assms(1,2)] assms(3,4) by (simp add: check_string_size_def string_at_def text_at_def)

lemma string_value_runs:
  assumes "fits 0 s" "rest s = CHR 0x22 # t @ CHR 0x22 # r" "json_string_body t b" "json_within env opts d (JV_string b)"
  shows "jruns (jbind (jmove (adv 1)) (\<lambda>_. parse_str_node opts)) s (\<lambda>i s'. rest s' = r \<and> document_holds s' i (JV_string b))"
proof -
  have l: "lexed s [CHR 0x22] (adv (Suc 0) s)" using lexed_one [of s] rest_at [OF assms(2)] by simp
  have f: "fits 0 (adv (Suc 0) s)" using lexed_grows(2) [OF l assms(1)] .
  obtain p u where p: "parse_str_body (adv (Suc 0) s) = (Inr p, u)" "rest u = r" "string_parsed (adv (Suc 0) s) t b p u"
    using parse_str_body_runs [OF assms(3), of "adv (Suc 0) s" r] assms(2) by auto
  have "document_holds (u\<lparr>ds_nodes := ds_nodes u @ [make_string (pt_off p) (pt_len p) (pt_flags p)]\<rparr>) (length (ds_nodes u)) (JV_string b)"
    using string_parsed_text(1) [OF p(3) f] by (simp add: make_string_def)
  then have "jruns (push_node (make_string (pt_off p) (pt_len p) (pt_flags p))) u (\<lambda>i s'. rest s' = r \<and> document_holds s' i (JV_string b))"
    using p(2) by (simp add: push_node_def [abs_def] rest_def)
  then show ?thesis unfolding parse_str_node_def jruns_bind jruns_leaf One_nat_def
    using assms(4) by (intro jruns_lift [where f = parse_str_body, OF p(1)] string_size_runs [OF p(3) f]) auto
qed

lemma number_node_built:
  assumes "ev_from_chars_f64 env w \<noteq> F64_rejected"
  shows "\<exists>n. build_number_node_from_lexeme env off len fl w hint = Inr n"
proof -
  define int_form where "int_form = (case hint of Some b \<Rightarrow> b | None \<Rightarrow> sv_find_first_of w ''.eE'' = None)"
  define from_f64 where "from_f64 = (case ev_from_chars_f64 env w of
               F64_finite dv \<Rightarrow> Inr (make_number_f64 off len fl dv int_form)
             | F64_infinite \<Rightarrow> Inr (make_number_overflow off len fl int_form)
             | F64_out_of_range \<Rightarrow>
                 if length w > kSlowFloatLexemeCopyLimit then Inr (make_number_overflow off len fl int_form)
                 else Inr (make_number_deferred off len fl)
             | F64_rejected \<Rightarrow>
                 Inl \<lparr>je_code = Invalid_number, je_source = None, je_message = ''number rejected by std::from_chars: '' @ w\<rparr>)"
  have "\<exists>n. from_f64 = Inr n" using assms by (cases "ev_from_chars_f64 env w") (simp_all add: from_f64_def)
  then show ?thesis
    unfolding build_number_node_from_lexeme_def Let_def int_form_def [symmetric] from_f64_def [symmetric]
    by (cases int_form; cases "whole_signed w"; cases "parse_whole_unsigned (2 ^ 64) w") simp_all
qed

lemma number_value_runs:
  assumes "fits 0 s" "rest s = w @ r" "json_number w" "json_follow r" "json_within env opts d (JV_number w)"
  shows "jruns (parse_number env) s (\<lambda>i s'. rest s' = r \<and> document_holds s' i (JV_number w))"
proof -
  obtain int_form u where u: "parse_number_lexeme s = (Inr (w, int_form), u)" "rest u = r"
    using number_lexeme_runs [OF assms(2-4)] assms(5) by auto
  obtain n where n: "build_number_node_from_lexeme env (u32_of (tk_pos s)) (u32_of (length w)) (kStorageInputView OR kRawJsonSlice) w (Some int_form) = Inr n"
    using number_node_built assms(5) by fastforce
  note l = number_lexeme_reads [OF u(1)]
  have "tk_pos s < 2 ^ 32" using assms(1) by (simp add: fits_def)
  moreover have "substr (ds_input u) (tk_pos s) (length w) = w"
    using lexedD(1) [OF l(1)] same_treeD(1) [OF lexedD(3) [OF l(1)]] by (simp add: substr_def rest_def)
  moreover have "length w < 2 ^ 32" using l(4) by simp
  ultimately have "document_holds (u\<lparr>ds_nodes := ds_nodes u @ [n]\<rparr>) (length (ds_nodes u)) (JV_number w)"
    using number_node_fields [OF n] by (simp add: text_at_def bytes_at_def Let_def)
  then show ?thesis using u n by (simp add: jruns_def parse_number_def jbind_def jlift_def push_node_def rest_def)
qed

lemma word_value_runs:
  assumes "rest s = w @ r" "\<And>st :: json_parser. document_holds (st\<lparr>ds_nodes := ds_nodes st @ [n]\<rparr>) (length (ds_nodes st)) v"
  shows "jruns (jbind (expect_word w) (\<lambda>_. push_node n)) s (\<lambda>i s'. rest s' = r \<and> document_holds s' i v)"
  unfolding jruns_bind by (rule expect_word_runs [OF assms(1)]) (use assms(2) in \<open>auto simp: jruns_def push_node_def rest_def\<close>)

section \<open>Arrays\<close>

lemma finish_array_runs:
  assumes "in_array k vs t" "lexed t (ws @ '']'') u" "rest u = r"
  shows "jruns (finish_array k) u (\<lambda>i s'. rest s' = r \<and> document_holds s' i (JV_array vs))"
proof -
  have "in_array k vs u" using in_array_lexed [OF assms(1,2)] .
  then have "jpost True (finish_array k) u (\<lambda>i t'. grows 0 t t' \<and> fits 1 t' \<and> tb_staging t' = take k (tb_staging u) \<and>
    tb_staging_members t' = tb_staging_members u \<and> rest t' = rest u \<and> document_holds t' i (JV_array vs))"
    using grows_weaken [OF lexed_grows(1) [OF assms(2)], of 1] assms(1) by (intro finish_array_reads) (auto simp: in_array_def)
  moreover have "\<exists>x s'. finish_array k u = (J_ok x, s')" by (simp add: finish_array_def push_node_def)
  ultimately show ?thesis using jruns_total assms(3) by (fastforce elim: jruns_mono)
qed

definition value_runs :: "json_env \<Rightarrow> json_parse_options \<Rightarrow> json_value \<Rightarrow> string \<Rightarrow> bool" where
  "value_runs env opts v w \<longleftrightarrow>
     (\<forall>n d s ws r. rest s = ws @ w @ r \<longrightarrow> blanks ws \<longrightarrow> json_follow r \<longrightarrow> fits 0 s \<longrightarrow> json_within env opts d v \<longrightarrow>
        jruns (parse_value env opts n d) s (\<lambda>i s'. rest s' = r \<and> document_holds s' i v))"

definition elements_run :: "json_env \<Rightarrow> json_parse_options \<Rightarrow> json_value list \<Rightarrow> string \<Rightarrow> bool" where
  "elements_run env opts vs w \<longleftrightarrow>
     (\<forall>n d k vs0 s r. in_array k vs0 s \<longrightarrow> rest s = w @ CHR '']'' # r \<longrightarrow> list_all (json_within env opts (d + 1)) vs \<longrightarrow>
        jruns (parse_array_loop env opts n d k) s (\<lambda>i s'. rest s' = r \<and> document_holds s' i (JV_array (vs0 @ vs))))"

lemma follow_blanks: "blanks ws \<Longrightarrow> c \<in> {CHR '','', CHR '']'', CHR ''}''} \<Longrightarrow> json_follow (ws @ c # r)"
  by (cases ws) (auto simp: json_follow_def)

text \<open>An element, and the state in which its separator is read.\<close>

lemma element_runs:
  assumes strict: "po_mode opts = Strict" and pol: "po_duplicate_key opts = Dup_reject" and v: "value_runs env opts v w"
    and s: "in_array k vs0 s" "rest s = ws1 @ w @ ws2 @ c # r" "blanks ws1" "blanks ws2" "c \<in> {CHR '','', CHR '']'', CHR ''}''}"
      "json_within env opts (d + 1) v"
    and nxt: "\<And>t. in_array k (vs0 @ [v]) t \<Longrightarrow> rest t = ws2 @ c # r \<Longrightarrow> jruns m t Q"
  shows "jruns (jbind (parse_value env opts n (d + 1)) (\<lambda>child. jbind (push_child child) (\<lambda>_. m))) s Q"
proof -
  have f: "fits 0 s" using s(1) by (simp add: in_array_def)
  have "jruns (parse_value env opts n (d + 1)) s (\<lambda>i s'. rest s' = ws2 @ c # r \<and> document_holds s' i v)"
    using v s(2,3,6) follow_blanks [OF s(4,5)] f unfolding value_runs_def by blast
  moreover have "jpost True (parse_value env opts n (d + 1)) s (reads_value Dup_reject s)"
    using parse_reads [OF strict pol] f by blast
  ultimately have "jruns (parse_value env opts n (d + 1)) s (\<lambda>i s'. (rest s' = ws2 @ c # r \<and> document_holds s' i v) \<and> reads_value Dup_reject s i s')"
    by (rule jruns_post)
  then show ?thesis unfolding jruns_bind push_child_def jruns_leaf
  proof (rule jruns_mono, elim conjE)
    fix i t assume t: "rest t = ws2 @ c # r" "document_holds t i v" "reads_value Dup_reject s i t"
    then have "in_array k (vs0 @ [v]) (t\<lparr>tb_staging := tb_staging t @ [u32_of i]\<rparr>)"
      by (intro in_array_push [OF s(1)]) (auto simp: reads_value_def)
    then show "jruns m (t\<lparr>tb_staging := tb_staging t @ [u32_of i]\<rparr>) Q" using t(1) by (intro nxt) simp_all
  qed
qed

end
