(* ===== verification/Json_Complete.thy ===== *)
theory Json_Complete
  imports Json_Runs
begin

unbundle bit_operations_syntax

text \<open>
  Arrays, objects and whole documents: the strict JSON parser accepts every text of the grammar whose
  value is within the limits of the options, and builds the value of the text. The proof is by
  induction on the derivation of the text, with one lemma for each rule of the grammar.
\<close>

section \<open>Elements and members\<close>

declare document_holds.simps [simp del] json_within.simps [simp del]

lemma in_array_clean: "in_array k vs s \<Longrightarrow> tk_unterminated s = None"
  by (simp add: in_array_def fits_def)

lemma last_element_runs:
  assumes strict: "po_mode opts = Strict" and pol: "po_duplicate_key opts = Dup_reject"
    and "value_runs env opts v w" "blanks ws1" "blanks ws2"
  shows "elements_run env opts [v] (ws1 @ w @ ws2)"
  unfolding elements_run_def
proof (intro allI impI)
  fix n d k vs0 s r
  assume s: "in_array k vs0 s" "rest s = (ws1 @ w @ ws2) @ CHR '']'' # r" "list_all (json_within env opts (d + 1)) [v]"
  show "jruns (parse_array_loop env opts n d k) s (\<lambda>i s'. rest s' = r \<and> document_holds s' i (JV_array (vs0 @ [v])))"
  proof (cases n)
    case (Suc m)
    show ?thesis unfolding Suc parse_array_loop.simps
      by (rule element_runs [OF strict pol assms(3) s(1) _ assms(4,5), of "CHR '']''" r])
        (use s in \<open>auto simp: jruns_bind intro!: separator_runs(2) [OF strict in_array_clean _ assms(5)] finish_array_runs\<close>)
  qed simp
qed

lemma more_elements_run:
  assumes strict: "po_mode opts = Strict" and pol: "po_duplicate_key opts = Dup_reject"
    and "value_runs env opts v w" "blanks ws1" "blanks ws2" and vs: "elements_run env opts vs w'"
  shows "elements_run env opts (v # vs) (ws1 @ w @ ws2 @ CHR '','' # w')"
  unfolding elements_run_def
proof (intro allI impI)
  fix n d k vs0 s r
  assume s: "in_array k vs0 s" "rest s = (ws1 @ w @ ws2 @ CHR '','' # w') @ CHR '']'' # r" "list_all (json_within env opts (d + 1)) (v # vs)"
  have more: "jruns (parse_array_loop env opts m d k) u (\<lambda>i s'. rest s' = r \<and> document_holds s' i (JV_array (vs0 @ v # vs)))"
    if "in_array k (vs0 @ [v]) t" "lexed t x u" "rest u = w' @ CHR '']'' # r" for m t u x
  proof -
    have "jruns (parse_array_loop env opts m d k) u (\<lambda>i s'. rest s' = r \<and> document_holds s' i (JV_array ((vs0 @ [v]) @ vs)))"
      using vs in_array_lexed [OF that(1,2)] that(3) s(3) [unfolded list.pred_inject] unfolding elements_run_def by blast
    then show ?thesis by simp
  qed
  show "jruns (parse_array_loop env opts n d k) s (\<lambda>i s'. rest s' = r \<and> document_holds s' i (JV_array (vs0 @ v # vs)))"
  proof (cases n)
    case (Suc m)
    show ?thesis unfolding Suc parse_array_loop.simps
      by (rule element_runs [OF strict pol assms(3) s(1) _ assms(4,5), of "CHR '',''" "w' @ CHR '']'' # r"])
        (use s in \<open>auto simp: jruns_bind intro!: separator_runs(4) [OF strict in_array_clean _ assms(5)] more\<close>)
  qed simp
qed

section \<open>Objects\<close>

definition members_run :: "json_env \<Rightarrow> json_parse_options \<Rightarrow> (string \<times> json_value) list \<Rightarrow> string \<Rightarrow> bool" where
  "members_run env opts raw w \<longleftrightarrow>
     (\<forall>n d k acc seen s r ms. in_object k acc seen s \<longrightarrow> rest s = w @ CHR ''}'' # r \<longrightarrow> add_members Dup_reject acc raw = Some ms \<longrightarrow>
        list_all (member_within env opts (d + 1)) raw \<longrightarrow>
        jruns (parse_object_loop env opts n d k seen) s (\<lambda>i s'. rest s' = r \<and> document_holds s' i (JV_object ms)))"

lemma in_object_clean: "in_object k acc seen s \<Longrightarrow> tk_unterminated s = None"
  by (simp add: in_object_def fits_def)

lemma reject_adds:
  "add_member Dup_reject acc m = Some acc' \<Longrightarrow> acc' = acc @ [m] \<and> name_position k acc (fst m) = None"
  by (auto simp: add_member_def name_position_None split: if_splits)

lemma finish_object_runs:
  assumes "in_object k ms seen t" "lexed t (ws @ ''}'') u" "rest u = r"
  shows "jruns (finish_object env opts k) u (\<lambda>i s'. rest s' = r \<and> document_holds s' i (JV_object ms))"
proof -
  have "fits 0 t" using assms(1) by (simp add: in_object_def)
  from finish_object_reads [OF this _ in_object_lexed [OF assms(1,2)], of True env opts] grows_weaken [OF lexed_grows(1) [OF assms(2)], of 1]
  have "jpost True (finish_object env opts k) u (\<lambda>i t'. grows 0 t t' \<and> fits 1 t' \<and> tb_staging t' = tb_staging u \<and>
    tb_staging_members t' = take k (tb_staging_members u) \<and> rest t' = rest u \<and> document_holds t' i (JV_object ms))" by simp
  moreover have "\<exists>x s'. finish_object env opts k u = (J_ok x, s')" by (auto simp: finish_object_def Let_def split: option.split)
  ultimately show ?thesis using jruns_total assms(3) by (fastforce elim: jruns_mono)
qed

lemma stage_member_total: "\<exists>x s'. stage_member k p name val seen s = (J_ok x, s')"
  by (auto simp: stage_member_def Let_def split: option.split)

lemma member_value_runs:
  assumes strict: "po_mode opts = Strict" and pol: "po_duplicate_key opts = Dup_reject" and v: "value_runs env opts v w"
    and o: "in_object k acc seen s" and new: "name_position k acc name = None"
    and p: "string_at s (pt_off p) (pt_len p) (pt_flags p) name" "pt_flags p AND kMemberExternalView = 0"
    and r: "rest s = ws2 @ CHR '':'' # ws3 @ w @ r" "blanks ws2" "blanks ws3" "json_follow r" "json_within env opts (d + 1) v"
  shows "jruns (member_value opts (parse_value env opts n (d + 1)) sv k seen p name None) s
    (\<lambda>seen' s'. rest s' = r \<and> in_object k (acc @ [(name, v)]) seen' s')"
  unfolding member_value_def jruns_bind
proof (rule separator_runs(5) [OF strict in_object_clean [OF o] r(1,2) not_blank(4) refl], unfold option.case jruns_bind)
  fix t assume t: "lexed s (ws2 @ '':'') t" "rest t = ws3 @ w @ r"
  have ot: "in_object k acc seen t" "fits 0 t" using in_object_lexed [OF o t(1)] by (simp_all add: in_object_def)
  have pt: "string_at t (pt_off p) (pt_len p) (pt_flags p) name" using string_at_extends [OF p(1) grows_extends [OF lexed_grows(1) [OF t(1)]]] .
  have "jruns (parse_value env opts n (d + 1)) t (\<lambda>i s'. rest s' = r \<and> document_holds s' i v)"
    using v t(2) r(3-5) ot(2) unfolding value_runs_def by blast
  moreover have "jpost True (parse_value env opts n (d + 1)) t (reads_value Dup_reject t)"
    using parse_reads [OF strict pol] ot(2) by blast
  ultimately have "jruns (parse_value env opts n (d + 1)) t (\<lambda>i s'. (rest s' = r \<and> document_holds s' i v) \<and> reads_value Dup_reject t i s')"
    by (rule jruns_post)
  then show "jruns (parse_value env opts n (d + 1)) t (\<lambda>x s'. jruns (stage_member k p name x seen) s'
    (\<lambda>seen' s'. rest s' = r \<and> in_object k (acc @ [(name, v)]) seen' s'))"
  proof (rule jruns_mono, elim conjE)
    fix i u assume u: "rest u = r" "document_holds u i v" "reads_value Dup_reject t i u"
    then have g: "grows 0 t u" "fits 1 u" "tb_staging_members u = tb_staging_members t" by (auto simp: reads_value_def)
    have "in_object k acc seen u" using in_object_grows [OF ot(1) g(1) fits_weaken [OF g(2)] g(3)] by simp
    note st = stage_member_reads [OF this new g(2) string_at_extends [OF pt grows_extends [OF g(1)]] p(2) u(2), of True]
    obtain x s' where "stage_member k p name i seen u = (J_ok x, s')" using stage_member_total by blast
    from jruns_total [OF st this] show "jruns (stage_member k p name i seen) u (\<lambda>seen' s'. rest s' = r \<and> in_object k (acc @ [(name, v)]) seen' s')"
      by (rule jruns_mono) (use u(1) in simp)
  qed
qed

lemma member_runs:
  assumes strict: "po_mode opts = Strict" and pol: "po_duplicate_key opts = Dup_reject" and v: "value_runs env opts v w"
    and o: "in_object k acc seen s" and new: "name_position k acc name = None" and q: "json_quoted m name"
    and r: "rest s = ws1 @ m @ ws2 @ CHR '':'' # ws3 @ w @ r" "blanks ws1" "blanks ws2" "blanks ws3" "json_follow r"
      "member_within env opts (d + 1) (name, v)"
  shows "jruns (parse_object_member opts (parse_value env opts n (d + 1)) sv k seen) s (\<lambda>seen' s'. rest s' = r \<and> in_object k (acc @ [(name, v)]) seen' s')"
proof -
  obtain t where m: "m = CHR 0x22 # t @ [CHR 0x22]" "json_string_body t name" using q by (auto simp: json_quoted_def)
  let ?r = "ws2 @ CHR '':'' # ws3 @ w @ r"
  have "jruns (parse_object_member_name opts) s1 (\<lambda>p s'. jruns (check_string_size opts (pt_len p)) s' (\<lambda>_ s'.
      jruns (named_member opts (parse_value env opts n (d + 1)) sv k seen p) s' (\<lambda>seen' s'. rest s' = r \<and> in_object k (acc @ [(name, v)]) seen' s')))"
    if s1: "lexed s ws1 s1" "rest s1 = CHR 0x22 # t @ CHR 0x22 # ?r" for s1
  proof -
    have l: "lexed s (ws1 @ [CHR 0x22]) (adv (Suc 0) s1)" using lexed_char [OF s1(1)] rest_at [OF s1(2)] by simp
    have f: "fits 0 (adv (Suc 0) s1)" using lexed_grows(2) [OF l] o by (simp add: in_object_def)
    obtain p u where p: "parse_str_body (adv (Suc 0) s1) = (Inr p, u)" "rest u = ?r" "string_parsed (adv (Suc 0) s1) t name p u"
      using parse_str_body_runs [OF m(2), of "adv (Suc 0) s1" ?r] s1(2) by auto
    have ou: "in_object k acc seen u" using in_object_lexed [OF o lexed_trans [OF l]] p(3) by (auto simp: string_parsed_def)
    note pt = string_parsed_text [OF p(3) f]
    have n: "bytes_at u (pt_off p) (pt_len p) (pt_flags p) = name" using pt(1) unfolding string_at_def text_at_def by blast
    have "named_member opts (parse_value env opts n (d + 1)) sv k seen p u = member_value opts (parse_value env opts n (d + 1)) sv k seen p name None u"
      using dedup_position [OF ou] new n by (simp add: named_member_def Let_def)
    then have "jruns (named_member opts (parse_value env opts n (d + 1)) sv k seen p) u (\<lambda>seen' s'. rest s' = r \<and> in_object k (acc @ [(name, v)]) seen' s')"
      using member_value_runs [OF strict pol v ou new pt p(2) r(3-5), of d] r(6) by (simp add: jruns_def member_within_def)
    then have "jruns (check_string_size opts (pt_len p)) u (\<lambda>_ s'.
      jruns (named_member opts (parse_value env opts n (d + 1)) sv k seen p) s' (\<lambda>seen' s'. rest s' = r \<and> in_object k (acc @ [(name, v)]) seen' s'))"
      using string_size_runs [OF p(3) f] r(6) by (simp add: member_within_def)
    then show ?thesis using p(1) rest_at [OF s1(2)] by (simp add: jruns_def [of "parse_object_member_name opts"] parse_object_member_name_def Let_def jlift_def)
  qed
  then show ?thesis unfolding parse_object_member_def jruns_on_error jruns_bind
    by (intro skip_ws_runs [OF strict in_object_clean [OF o] _ r(2), of "CHR 0x22 # t @ CHR 0x22 # ?r"])
      (use r(1) m(1) rest_at in \<open>auto simp: jruns_fun_if jruns_bind\<close>)
qed

lemma last_member_runs:
  assumes strict: "po_mode opts = Strict" and pol: "po_duplicate_key opts = Dup_reject"
    and v: "value_runs env opts v w" and q: "json_quoted m name" and ws: "blanks ws1" "blanks ws2" "blanks ws3" "blanks ws4"
  shows "members_run env opts [(name, v)] (ws1 @ m @ ws2 @ CHR '':'' # ws3 @ w @ ws4)"
  unfolding members_run_def
proof (intro allI impI)
  fix n d k acc seen s r ms
  assume s: "in_object k acc seen s" "rest s = (ws1 @ m @ ws2 @ CHR '':'' # ws3 @ w @ ws4) @ CHR ''}'' # r"
    "add_members Dup_reject acc [(name, v)] = Some ms" "list_all (member_within env opts (d + 1)) [(name, v)]"
  have a: "ms = acc @ [(name, v)]" "name_position k acc name = None"
    using s(3) reject_adds [of acc "(name, v)" _ k] by (auto split: Option.bind_splits)
  have close: "jruns (parse_object_member_separator opts k) t
      (\<lambda>closed u. jruns (if closed then finish_object env opts k else parse_object_loop env opts x d k seen') u (\<lambda>i s'. rest s' = r \<and> document_holds s' i (JV_object ms)))"
    if "in_object k ms seen' t" "rest t = ws4 @ CHR ''}'' # r" for seen' t x
    unfolding parse_object_member_separator_def jruns_on_error
    by (rule separator_runs(1) [OF strict in_object_clean [OF that(1)] that(2) ws(4)]) (auto intro: finish_object_runs [OF that(1)])
  show "jruns (parse_object_loop env opts n d k seen) s (\<lambda>i s'. rest s' = r \<and> document_holds s' i (JV_object ms))"
  proof (cases n)
    case (Suc x)
    have "jruns (parse_object_member opts (parse_value env opts x (d + 1)) (skip_value opts x (d + 1)) k seen) s
        (\<lambda>seen' s'. rest s' = ws4 @ CHR ''}'' # r \<and> in_object k (acc @ [(name, v)]) seen' s')"
      using s(2,4) follow_blanks [OF ws(4)] by (intro member_runs [OF strict pol v s(1) a(2) q _ ws(1-3)]) auto
    then show ?thesis unfolding Suc parse_object_loop.simps jruns_bind by (rule jruns_mono) (use close a(1) in auto)
  qed simp
qed

lemma more_members_run:
  assumes strict: "po_mode opts = Strict" and pol: "po_duplicate_key opts = Dup_reject"
    and v: "value_runs env opts v w" and q: "json_quoted m name" and ws: "blanks ws1" "blanks ws2" "blanks ws3" "blanks ws4"
    and more: "members_run env opts raw w'"
  shows "members_run env opts ((name, v) # raw) (ws1 @ m @ ws2 @ CHR '':'' # ws3 @ w @ ws4 @ CHR '','' # w')"
  unfolding members_run_def
proof (intro allI impI)
  fix n d k acc seen s r ms
  assume s: "in_object k acc seen s" "rest s = (ws1 @ m @ ws2 @ CHR '':'' # ws3 @ w @ ws4 @ CHR '','' # w') @ CHR ''}'' # r"
    "add_members Dup_reject acc ((name, v) # raw) = Some ms" "list_all (member_within env opts (d + 1)) ((name, v) # raw)"
  have a: "add_members Dup_reject (acc @ [(name, v)]) raw = Some ms" "name_position k acc name = None"
    using s(3) reject_adds [of acc "(name, v)" _ k] by (auto split: Option.bind_splits)
  have go: "jruns (parse_object_member_separator opts k) t
      (\<lambda>closed u. jruns (if closed then finish_object env opts k else parse_object_loop env opts x d k seen') u (\<lambda>i s'. rest s' = r \<and> document_holds s' i (JV_object ms)))"
    if t: "in_object k (acc @ [(name, v)]) seen' t" "rest t = ws4 @ CHR '','' # w' @ CHR ''}'' # r" for seen' t x
    unfolding parse_object_member_separator_def jruns_on_error
  proof (rule separator_runs(3) [OF strict in_object_clean [OF t(1)] t(2) ws(4)])
    fix u assume u: "lexed t (ws4 @ '','') u" "rest u = w' @ CHR ''}'' # r"
    have "jruns (parse_object_loop env opts x d k seen') u (\<lambda>i s'. rest s' = r \<and> document_holds s' i (JV_object ms))"
      using more in_object_lexed [OF t(1) u(1)] u(2) a(1) s(4) [unfolded list.pred_inject] unfolding members_run_def by blast
    then show "jruns (if False then finish_object env opts k else parse_object_loop env opts x d k seen') u
        (\<lambda>i s'. rest s' = r \<and> document_holds s' i (JV_object ms))" by simp
  qed auto
  show "jruns (parse_object_loop env opts n d k seen) s (\<lambda>i s'. rest s' = r \<and> document_holds s' i (JV_object ms))"
  proof (cases n)
    case (Suc x)
    have "jruns (parse_object_member opts (parse_value env opts x (d + 1)) (skip_value opts x (d + 1)) k seen) s
        (\<lambda>seen' s'. rest s' = ws4 @ CHR '','' # w' @ CHR ''}'' # r \<and> in_object k (acc @ [(name, v)]) seen' s')"
      using s(2,4) follow_blanks [OF ws(4)] by (intro member_runs [OF strict pol v s(1) a(2) q _ ws(1-3)]) auto
    then show ?thesis unfolding Suc parse_object_loop.simps jruns_bind by (rule jruns_mono) (use go in auto)
  qed simp
qed

section \<open>All values\<close>

definition value_case :: "json_env \<Rightarrow> json_parse_options \<Rightarrow> nat \<Rightarrow> nat \<Rightarrow> char \<Rightarrow> nat jp" where
  "value_case env opts n depth c =
      (if c = CHR 0x22 then jbind (jmove (adv 1)) (\<lambda>_. parse_str_node opts)
       else if po_mode opts = Json5 \<and> c = CHR 0x27 then jbind (jmove (adv 1)) (\<lambda>_. parse_str_node_sq opts)
       else if c = CHR ''['' then
         jbind (open_bracket opts (CHR '']'')) (\<lambda>closed s.
           if closed then finish_array (length (tb_staging s)) s
           else parse_array_loop env opts n depth (length (tb_staging s)) s)
       else if c = CHR ''{'' then
         jbind (open_bracket opts (CHR ''}'')) (\<lambda>closed s.
           if closed then push_node (node_object (u32_of (length (ds_members s))) 0) s
           else parse_object_loop env opts n depth (length (tb_staging_members s)) None s)
       else if c = CHR ''t'' then jbind (expect_word ''true'') (\<lambda>_. push_node (make_bool True))
       else if c = CHR ''f'' then jbind (expect_word ''false'') (\<lambda>_. push_node (make_bool False))
       else if c = CHR ''n'' then jbind (expect_word ''null'') (\<lambda>_. push_node make_null)
       else if c = CHR ''-'' \<or> is_digit c then parse_number env
       else unexpected_character)"

lemma value_runsI:
  assumes strict: "po_mode opts = Strict" and c: "\<not> json_blank c"
    and run: "\<And>n d s r. rest s = (c # w) @ r \<Longrightarrow> json_follow r \<Longrightarrow> fits 0 s \<Longrightarrow> json_within env opts d v \<Longrightarrow>
      jruns (value_case env opts n d c) s (\<lambda>i s'. rest s' = r \<and> document_holds s' i v)"
  shows "value_runs env opts v (c # w)"
  unfolding value_runs_def
proof (intro allI impI)
  fix n d s ws r
  assume s: "rest s = ws @ (c # w) @ r" "blanks ws" "json_follow r" "fits 0 s" "json_within env opts d v"
  show "jruns (parse_value env opts n d) s (\<lambda>i s'. rest s' = r \<and> document_holds s' i v)"
  proof (cases n)
    case (Suc m)
    have "jruns (value_start opts d) s (\<lambda>c s'. jruns (value_case env opts m d c) s' (\<lambda>i s'. rest s' = r \<and> document_holds s' i v))"
    proof (rule value_start_runs [OF strict _ _ s(2) c within_depth [OF s(5)]])
      show "tk_unterminated s = None" using s(4) by (simp add: fits_def)
      show "rest s = ws @ c # w @ r" using s(1) by simp
      fix t assume t: "lexed s ws t" "rest t = c # w @ r"
      show "jruns (value_case env opts m d c) t (\<lambda>i s'. rest s' = r \<and> document_holds s' i v)"
        using run [OF _ s(3) lexed_grows(2) [OF t(1) s(4)] s(5)] t(2) by simp
    qed
    then show ?thesis unfolding Suc parse_value.simps jruns_bind [of "value_start opts d"] value_case_def .
  qed simp
qed

lemma word_values_run:
  assumes strict: "po_mode opts = Strict"
  shows "value_runs env opts JV_null ''null''" "value_runs env opts (JV_bool True) ''true''" "value_runs env opts (JV_bool False) ''false''"
proof -
  have holds: "document_holds (st\<lparr>ds_nodes := ds_nodes st @ [make_null]\<rparr>) (length (ds_nodes st)) JV_null"
    "document_holds (st\<lparr>ds_nodes := ds_nodes st @ [make_bool b]\<rparr>) (length (ds_nodes st)) (JV_bool b)" for st :: json_parser and b
    by (simp_all add: document_holds.simps make_null_def make_bool_def)
  show "value_runs env opts JV_null ''null''"
    by (rule value_runsI [OF strict]) (use strict in \<open>auto simp: value_case_def intro!: word_value_runs holds\<close>)
  show "value_runs env opts (JV_bool True) ''true''"
    by (rule value_runsI [OF strict]) (use strict in \<open>auto simp: value_case_def intro!: word_value_runs holds\<close>)
  show "value_runs env opts (JV_bool False) ''false''"
    by (rule value_runsI [OF strict]) (use strict in \<open>auto simp: value_case_def intro!: word_value_runs holds\<close>)
qed

lemma string_values_run:
  assumes strict: "po_mode opts = Strict" and q: "json_quoted w b"
  shows "value_runs env opts (JV_string b) w"
proof -
  obtain t where w: "w = CHR 0x22 # t @ [CHR 0x22]" "json_string_body t b" using q by (auto simp: json_quoted_def)
  have "value_runs env opts (JV_string b) (CHR 0x22 # t @ [CHR 0x22])"
    by (rule value_runsI [OF strict]) (use w(2) in \<open>auto simp: value_case_def simp del: One_nat_def intro!: string_value_runs\<close>)
  with w(1) show ?thesis by simp
qed

lemma number_start: "json_number w \<Longrightarrow> \<exists>c x. w = c # x \<and> (c = CHR ''-'' \<or> is_digit c)"
  by (auto simp: json_number_def json_integer_part_def json_digits_def neq_Nil_conv)

lemma number_values_run:
  assumes strict: "po_mode opts = Strict" and n: "json_number w"
  shows "value_runs env opts (JV_number w) w"
proof -
  obtain c x where w: "w = c # x" "c = CHR ''-'' \<or> is_digit c" using number_start [OF n] by blast
  have c: "\<not> json_blank c" "c \<noteq> CHR 0x22" "c \<noteq> CHR ''[''" "c \<noteq> CHR ''{''" "c \<noteq> CHR ''t''" "c \<noteq> CHR ''f''" "c \<noteq> CHR ''n''"
    using w(2) by (auto simp: is_digit_def char_between_def json_blank_def)
  have "value_runs env opts (JV_number w) (c # x)"
  proof (rule value_runsI [OF strict c(1)])
    fix k d s r assume s: "rest s = (c # x) @ r" "json_follow r" "fits 0 s" "json_within env opts d (JV_number w)"
    have "value_case env opts k d c = parse_number env" using c w(2) strict by (simp add: value_case_def)
    then show "jruns (value_case env opts k d c) s (\<lambda>i s'. rest s' = r \<and> document_holds s' i (JV_number w))"
      using number_value_runs [OF s(3) _ n s(2,4)] s(1) w(1) by simp
  qed
  with w(1) show ?thesis by simp
qed

lemma value_text_start:
  assumes "json_value_text pol v w"
  shows "\<exists>c x. w = c # x \<and> \<not> json_blank c \<and> c \<noteq> CHR '']''"
proof (cases "json_number w")
  case True
  obtain c x where w: "w = c # x" "c = CHR ''-'' \<or> is_digit c" using number_start [OF True] by blast
  have "\<not> json_blank c" "c \<noteq> CHR '']''" using w(2) by (auto simp: is_digit_def char_between_def json_blank_def)
  with w(1) show ?thesis by blast
next
  case False
  with assms show ?thesis by cases (auto simp: json_quoted_def json_blank_def)
qed

text \<open>The white space before the first element or member has already been read when the loop starts.\<close>

definition elements_text_runs :: "json_env \<Rightarrow> json_parse_options \<Rightarrow> json_value list \<Rightarrow> string \<Rightarrow> bool" where
  "elements_text_runs env opts vs w \<longleftrightarrow>
     elements_run env opts vs w \<and>
     (\<exists>ws c x. w = ws @ c # x \<and> blanks ws \<and> \<not> json_blank c \<and> c \<noteq> CHR '']'' \<and> elements_run env opts vs (c # x))"

lemma elements_runD:
  assumes "elements_run env opts vs w" "in_array k vs0 s" "rest s = w @ CHR '']'' # r" "list_all (json_within env opts (d + 1)) vs"
  shows "jruns (parse_array_loop env opts n d k) s (\<lambda>i s'. rest s' = r \<and> document_holds s' i (JV_array (vs0 @ vs)))"
  using assms unfolding elements_run_def by blast

lemma members_runD:
  assumes "members_run env opts raw w" "in_object k acc seen s" "rest s = w @ CHR ''}'' # r" "add_members Dup_reject acc raw = Some ms"
    "list_all (member_within env opts (d + 1)) raw"
  shows "jruns (parse_object_loop env opts n d k seen) s (\<lambda>i s'. rest s' = r \<and> document_holds s' i (JV_object ms))"
  using assms unfolding members_run_def by blast

definition members_text_runs :: "json_env \<Rightarrow> json_parse_options \<Rightarrow> (string \<times> json_value) list \<Rightarrow> string \<Rightarrow> bool" where
  "members_text_runs env opts ms w \<longleftrightarrow>
     members_run env opts ms w \<and> (\<exists>ws x. w = ws @ CHR 0x22 # x \<and> blanks ws \<and> members_run env opts ms (CHR 0x22 # x))"

lemma elements_text_runsI:
  assumes "\<And>ws. blanks ws \<Longrightarrow> elements_run env opts vs (ws @ w @ x)" "blanks ws" "json_value_text pol v w"
  shows "elements_text_runs env opts vs (ws @ w @ x)"
proof -
  obtain c y where w: "w = c # y" "\<not> json_blank c" "c \<noteq> CHR '']''" using value_text_start [OF assms(3)] by blast
  have "elements_run env opts vs (c # y @ x)" using assms(1) [of "[]"] w(1) by simp
  then show ?thesis using assms(1) [OF assms(2)] assms(2) w unfolding elements_text_runs_def by force
qed

lemma members_text_runsI:
  assumes "\<And>ws. blanks ws \<Longrightarrow> members_run env opts ms (ws @ w @ x)" "blanks ws" "json_quoted w k"
  shows "members_text_runs env opts ms (ws @ w @ x)"
proof -
  obtain y where w: "w = CHR 0x22 # y" using assms(3) by (auto simp: json_quoted_def)
  have "members_run env opts ms (CHR 0x22 # y @ x)" using assms(1) [of "[]"] w by simp
  then show ?thesis using assms(1) [OF assms(2)] assms(2) w unfolding members_text_runs_def by force
qed

lemma empty_array_runs:
  assumes strict: "po_mode opts = Strict" and ws: "blanks ws"
  shows "value_runs env opts (JV_array []) (CHR ''['' # ws @ '']'')"
proof (rule value_runsI [OF strict])
  fix n d s r assume s: "rest s = (CHR ''['' # ws @ '']'') @ r" "fits 0 s"
  have "jruns (open_bracket opts (CHR '']'')) s (\<lambda>closed u. jruns (\<lambda>s. if closed then finish_array (length (tb_staging s)) s
       else parse_array_loop env opts n d (length (tb_staging s)) s) u (\<lambda>i s'. rest s' = r \<and> document_holds s' i (JV_array [])))"
  proof (rule open_bracket_runs [OF strict _ _ ws not_blank(2)])
    show "tk_unterminated s = None" using s(2) by (simp add: fits_def)
    show "rest s = CHR ''['' # ws @ CHR '']'' # r" using s(1) by simp
    fix u assume u: "lexed s (CHR ''['' # ws @ '']'') u" "rest u = r"
    have "in_array (length (tb_staging u)) [] s" using s(2) lexed_grows(3) [OF u(1)] by (simp add: in_array_def)
    from finish_array_runs [OF this _ u(2), of "CHR ''['' # ws"] u(1)
    show "jruns (\<lambda>s. if True then finish_array (length (tb_staging s)) s else parse_array_loop env opts n d (length (tb_staging s)) s) u
        (\<lambda>i s'. rest s' = r \<and> document_holds s' i (JV_array []))" by (simp add: jruns_def)
  qed simp
  then show "jruns (value_case env opts n d (CHR ''['')) s (\<lambda>i s'. rest s' = r \<and> document_holds s' i (JV_array []))"
    by (simp add: value_case_def jruns_bind)
qed simp

lemma array_runs:
  assumes strict: "po_mode opts = Strict" and vs: "elements_text_runs env opts vs w"
  shows "value_runs env opts (JV_array vs) (CHR ''['' # w @ '']'')"
proof (rule value_runsI [OF strict])
  fix n d s r assume s: "rest s = (CHR ''['' # w @ '']'') @ r" "fits 0 s" "json_within env opts d (JV_array vs)"
  obtain ws c x where w: "w = ws @ c # x" "blanks ws" "\<not> json_blank c" "c \<noteq> CHR '']''" "elements_run env opts vs (c # x)"
    using vs by (auto simp: elements_text_runs_def)
  have "jruns (open_bracket opts (CHR '']'')) s (\<lambda>closed u. jruns (\<lambda>s. if closed then finish_array (length (tb_staging s)) s
       else parse_array_loop env opts n d (length (tb_staging s)) s) u (\<lambda>i s'. rest s' = r \<and> document_holds s' i (JV_array vs)))"
  proof (rule open_bracket_runs [OF strict _ _ w(2,3)])
    show "tk_unterminated s = None" using s(2) by (simp add: fits_def)
    show "rest s = CHR ''['' # ws @ c # x @ CHR '']'' # r" using s(1) w(1) by simp
    fix u assume u: "lexed s (CHR ''['' # ws) u" "rest u = c # x @ CHR '']'' # r"
    have k: "in_array (length (tb_staging u)) [] u" using lexed_grows(2) [OF u(1) s(2)] by (simp add: in_array_def)
    have d: "list_all (json_within env opts (d + 1)) vs" using s(3) by (simp add: json_within.simps)
    show "jruns (\<lambda>s. if False then finish_array (length (tb_staging s)) s else parse_array_loop env opts n d (length (tb_staging s)) s) u
        (\<lambda>i s'. rest s' = r \<and> document_holds s' i (JV_array vs))"
      using elements_runD [OF w(5) k _ d, of r n] u(2) by (simp add: jruns_def)
  qed (use w(4) in simp)
  then show "jruns (value_case env opts n d (CHR ''['')) s (\<lambda>i s'. rest s' = r \<and> document_holds s' i (JV_array vs))"
    by (simp add: value_case_def jruns_bind)
qed simp

lemma empty_object_runs:
  assumes strict: "po_mode opts = Strict" and ws: "blanks ws"
  shows "value_runs env opts (JV_object []) (CHR ''{'' # ws @ ''}'')"
proof (rule value_runsI [OF strict])
  fix n d s r assume s: "rest s = (CHR ''{'' # ws @ ''}'') @ r" "fits 0 s"
  have "jruns (open_bracket opts (CHR ''}'')) s (\<lambda>closed u. jruns (\<lambda>s. if closed then push_node (node_object (u32_of (length (ds_members s))) 0) s
       else parse_object_loop env opts n d (length (tb_staging_members s)) None s) u (\<lambda>i s'. rest s' = r \<and> document_holds s' i (JV_object [])))"
  proof (rule open_bracket_runs [OF strict _ _ ws not_blank(3)])
    show "tk_unterminated s = None" using s(2) by (simp add: fits_def)
    show "rest s = CHR ''{'' # ws @ CHR ''}'' # r" using s(1) by simp
    fix u assume u: "rest u = r"
    then show "jruns (\<lambda>s. if True then push_node (node_object (u32_of (length (ds_members s))) 0) s else parse_object_loop env opts n d (length (tb_staging_members s)) None s) u
        (\<lambda>i s'. rest s' = r \<and> document_holds s' i (JV_object []))"
      by (simp add: jruns_def push_node_def rest_def document_holds_object node_object_def slot_members_def)
  qed simp
  then show "jruns (value_case env opts n d (CHR ''{'')) s (\<lambda>i s'. rest s' = r \<and> document_holds s' i (JV_object []))"
    by (simp add: value_case_def jruns_bind)
qed simp

lemma reject_all: "add_members Dup_reject acc raw = Some ms \<Longrightarrow> ms = acc @ raw"
proof (induction raw arbitrary: acc)
  case (Cons m raw)
  then show ?case using reject_adds [of acc m] by (auto split: Option.bind_splits) (metis append.assoc append_Cons append_Nil)
qed simp

lemma object_runs:
  assumes strict: "po_mode opts = Strict" and ms: "members_text_runs env opts raw w" "add_members Dup_reject [] raw = Some ms"
  shows "value_runs env opts (JV_object ms) (CHR ''{'' # w @ ''}'')"
proof (rule value_runsI [OF strict])
  fix n d s r assume s: "rest s = (CHR ''{'' # w @ ''}'') @ r" "fits 0 s" "json_within env opts d (JV_object ms)"
  obtain ws x where w: "w = ws @ CHR 0x22 # x" "blanks ws" "members_run env opts raw (CHR 0x22 # x)"
    using ms(1) by (auto simp: members_text_runs_def)
  have "jruns (open_bracket opts (CHR ''}'')) s (\<lambda>closed u. jruns (\<lambda>s. if closed then push_node (node_object (u32_of (length (ds_members s))) 0) s
       else parse_object_loop env opts n d (length (tb_staging_members s)) None s) u (\<lambda>i s'. rest s' = r \<and> document_holds s' i (JV_object ms)))"
  proof (rule open_bracket_runs [OF strict _ _ w(2) not_blank(7)])
    show "tk_unterminated s = None" using s(2) by (simp add: fits_def)
    show "rest s = CHR ''{'' # ws @ CHR 0x22 # x @ CHR ''}'' # r" using s(1) w(1) by simp
    fix u assume u: "lexed s (CHR ''{'' # ws) u" "rest u = CHR 0x22 # x @ CHR ''}'' # r"
    have k: "in_object (length (tb_staging_members u)) [] None u" using lexed_grows(2) [OF u(1) s(2)] by (simp add: in_object_def)
    have d: "list_all (member_within env opts (d + 1)) raw" using s(3) reject_all [OF ms(2)] by (simp add: within_object)
    show "jruns (\<lambda>s. if False then push_node (node_object (u32_of (length (ds_members s))) 0) s else parse_object_loop env opts n d (length (tb_staging_members s)) None s) u
        (\<lambda>i s'. rest s' = r \<and> document_holds s' i (JV_object ms))"
      using members_runD [OF w(3) k _ ms(2) d, of r n] u(2) by (simp add: jruns_def)
  qed simp
  then show "jruns (value_case env opts n d (CHR ''{'')) s (\<lambda>i s'. rest s' = r \<and> document_holds s' i (JV_object ms))"
    by (simp add: value_case_def jruns_bind)
qed simp

lemma texts_run:
  assumes strict: "po_mode opts = Strict" and pol: "po_duplicate_key opts = Dup_reject"
  shows "json_value_text Dup_reject v w \<Longrightarrow> value_runs env opts v w"
    and "json_elements_text Dup_reject vs w \<Longrightarrow> elements_text_runs env opts vs w"
    and "json_members_text Dup_reject ms w \<Longrightarrow> members_text_runs env opts ms w"
proof (induction rule: json_value_text_json_elements_text_json_members_text.inducts)
  case (last_element ws1 v w ws2)
  show ?case
    by (rule elements_text_runsI [OF last_element_runs [OF strict pol \<open>value_runs env opts v w\<close> _ \<open>blanks ws2\<close>] \<open>blanks ws1\<close> \<open>json_value_text Dup_reject v w\<close>])
next
  case (element ws1 v w ws2 vs w')
  then have "elements_run env opts vs w'" by (simp add: elements_text_runs_def)
  from elements_text_runsI [OF more_elements_run [OF strict pol \<open>value_runs env opts v w\<close> _ \<open>blanks ws2\<close> this] \<open>blanks ws1\<close> \<open>json_value_text Dup_reject v w\<close>]
  show ?case .
next
  case (last_member ws1 n k ws2 ws3 v w ws4)
  from members_text_runsI [OF last_member_runs [OF strict pol \<open>value_runs env opts v w\<close> \<open>json_quoted n k\<close> _ \<open>blanks ws2\<close> \<open>blanks ws3\<close> \<open>blanks ws4\<close>] \<open>blanks ws1\<close> \<open>json_quoted n k\<close>]
  show ?case .
next
  case (member ws1 n k ws2 ws3 v w ws4 ms w')
  then have "members_run env opts ms w'" by (simp add: members_text_runs_def)
  from members_text_runsI [OF more_members_run [OF strict pol \<open>value_runs env opts v w\<close> \<open>json_quoted n k\<close> _ \<open>blanks ws2\<close> \<open>blanks ws3\<close> \<open>blanks ws4\<close> this] \<open>blanks ws1\<close> \<open>json_quoted n k\<close>]
  show ?case .
next
  case (object raw w ms)
  show ?case by (rule object_runs [OF strict \<open>members_text_runs env opts raw w\<close> \<open>add_members Dup_reject [] raw = Some ms\<close>])
next
  case (array vs w)
  show ?case by (rule array_runs [OF strict \<open>elements_text_runs env opts vs w\<close>])
qed (simp_all only: word_values_run [OF strict] string_values_run [OF strict] number_values_run [OF strict] empty_array_runs [OF strict]
    empty_object_runs [OF strict])

lemma jruns_cong: "m s = m' s \<Longrightarrow> jruns m s Q \<longleftrightarrow> jruns m' s Q"
  by (simp add: jruns_def)

lemma json_textI: "blanks ws1 \<Longrightarrow> json_value_text pol v w \<Longrightarrow> blanks ws2 \<Longrightarrow> json_text pol v (ws1 @ w @ ws2)"
  unfolding json_text_def by blast

lemma value_runsD:
  assumes "value_runs env opts v w" "rest s = ws @ w @ r" "blanks ws" "json_follow r" "fits 0 s" "json_within env opts d v"
  shows "jruns (parse_value env opts n d) s (\<lambda>i s'. rest s' = r \<and> document_holds s' i v)"
  using assms unfolding value_runs_def by blast

lemma parse_root_runs:
  assumes strict: "po_mode opts = Strict" and pol: "po_duplicate_key opts = Dup_reject"
    and s: "fits 0 s" "rest s = ws1 @ w @ ws2" "blanks ws1" "json_value_text Dup_reject v w" "blanks ws2" "json_within env opts 0 v"
  shows "jruns (parse_root env opts) s (\<lambda>_ s'. document_holds s' (ds_root s') v)"
proof -
  let ?R = "\<lambda>_ s'. document_holds s' (ds_root s') v"
  let ?trailer = "jbind (skip_ws_checked opts) (\<lambda>_ s.
         if \<not> at_end s then jfail Trailing_garbage ''trailing content after value'' s else (J_ok (), s))"
  obtain c x where c: "w = c # x" "\<not> json_blank c" using value_text_start [OF s(4)] by blast
  have fin: "jruns ?trailer (t\<lparr>ds_root := u32_of i\<rparr>) ?R" if t: "rest t = ws2" "document_holds t i v" "fits 1 t" for t i
    unfolding jruns_bind
  proof (rule skip_ws_runs [OF strict _ _ s(5)])
    show "rest (t\<lparr>ds_root := u32_of i\<rparr>) = ws2 @ []" using t(1) by (simp add: rest_def)
    show "tk_unterminated (t\<lparr>ds_root := u32_of i\<rparr>) = None" using t(3) by (simp add: fits_def)
    fix u assume u: "lexed (t\<lparr>ds_root := u32_of i\<rparr>) ws2 u" "rest u = []"
    have "extends t (t\<lparr>ds_root := u32_of i\<rparr>)" by (simp add: extends_def)
    then have "document_holds u i v"
      using document_holds_extends [OF document_holds_extends [OF t(2)]] grows_extends [OF lexed_grows(1) [OF u(1)]] by blast
    moreover have "ds_root u = i" using same_treeD(10) [OF lexedD(3) [OF u(1)]] holds_index [OF t(2,3)] by simp
    moreover have "at_end u" using u(2) by (simp add: rest_def at_end_def)
    ultimately show "jruns (\<lambda>s. if \<not> at_end s then jfail Trailing_garbage ''trailing content after value'' s else (J_ok (), s)) u ?R"
      by (simp add: jruns_def)
  qed simp
  have "jruns (skip_ws_checked opts) s (\<lambda>_ t. jruns (\<lambda>s. if at_end s then plain_error Unexpected_eof ''empty input'' s
       else jbind (parse_value env opts (parse_fuel (ds_input s)) 0) (\<lambda>root. jbind (jmove (\<lambda>s. s\<lparr>ds_root := u32_of root\<rparr>)) (\<lambda>_. ?trailer)) s) t ?R)"
  proof (rule skip_ws_runs [OF strict _ s(2,3)])
    show "tk_unterminated s = None" using s(1) by (simp add: fits_def)
    show "\<not> starts_with json_blank (w @ ws2)" using c by simp
    fix t assume t: "lexed s ws1 t" "rest t = w @ ws2"
    have fits: "fits 0 t" using lexed_grows(2) [OF t(1) s(1)] .
    have follow: "json_follow ws2" using s(5) by (cases ws2) (auto simp: json_follow_def)
    have "jruns (parse_value env opts (parse_fuel (ds_input t)) 0) t (\<lambda>i u. rest u = ws2 \<and> document_holds u i v)"
      by (rule value_runsD [OF texts_run(1) [OF strict pol s(4)] _ _ follow fits s(6), of "[]"]) (use t(2) in simp_all)
    moreover have "jpost True (parse_value env opts (parse_fuel (ds_input t)) 0) t (reads_value Dup_reject t)"
      using parse_reads [OF strict pol] fits by blast
    ultimately have "jruns (parse_value env opts (parse_fuel (ds_input t)) 0) t (\<lambda>i u. jruns ?trailer (u\<lparr>ds_root := u32_of i\<rparr>) ?R)"
      by (rule jruns_mono [OF jruns_post]) (auto intro: fin simp: reads_value_def)
    moreover have "\<not> at_end t" using t(2) c(1) at_rest(1) [of t] by (simp add: at_end_def)
    ultimately show "jruns (\<lambda>s. if at_end s then plain_error Unexpected_eof ''empty input'' s
       else jbind (parse_value env opts (parse_fuel (ds_input s)) 0) (\<lambda>root. jbind (jmove (\<lambda>s. s\<lparr>ds_root := u32_of root\<rparr>)) (\<lambda>_. ?trailer)) s) t ?R"
      by (subst jruns_cong [where m' = "jbind (parse_value env opts (parse_fuel (ds_input t)) 0) (\<lambda>root. jbind (jmove (\<lambda>s. s\<lparr>ds_root := u32_of root\<rparr>)) (\<lambda>_. ?trailer))"])
        (simp_all add: jruns_bind [of "parse_value env opts (parse_fuel (ds_input t)) 0"] jruns_bind [of "jmove f" for f])
  qed
  then show ?thesis by (subst (asm) jruns_bind [symmetric]) (simp add: jruns_def parse_root_def)
qed

section \<open>Whole documents\<close>

lemma json_parse_accepts:
  assumes "po_mode opts = Strict" "po_duplicate_key opts = Dup_reject" "check_input_limits (length input) opts = None"
    and "json_text Dup_reject v (if prefix kBOM input then drop (length kBOM) input else input)" "json_within env opts 0 v"
  shows "\<exists>st. json_parse env input opts = J_ok st \<and> document_holds st (ds_root st) v"
proof -
  let ?st = "set_storage_input_view input document_storage_new" and ?text = "if prefix kBOM input then drop (length kBOM) input else input"
  have i: "ds_input ?st = ?text" "ds_nodes ?st = []" "ds_arena ?st = []" "ds_children ?st = []" "ds_members ?st = []"
    by (simp_all add: set_storage_input_view_def document_storage_new_def)
  have "length input < 2 ^ 32" using assms(3) by (auto simp: check_input_limits_def split: if_splits)
  then have t: "rest (tree_builder ?st) = ?text" "fits 0 (tree_builder ?st)"
    using i by (auto simp: tree_builder_def document_storage.defs fits_def rest_def)
  obtain ws1 w ws2 where w: "?text = ws1 @ w @ ws2" "blanks ws1" "json_value_text Dup_reject v w" "blanks ws2"
    using assms(4) unfolding json_text_def by blast
  have "jruns (parse_root env opts) (tree_builder ?st) (\<lambda>_ s'. document_holds s' (ds_root s') v)"
    by (rule parse_root_runs [OF assms(1,2) t(2) _ w(2-4) assms(5)]) (simp only: t(1) w(1))
  then obtain s where s: "parse_root env opts (tree_builder ?st) = (J_ok (), s)" "document_holds s (ds_root s) v"
    using parse_root_fuel [of env opts "tree_builder ?st"] by (auto simp: jruns_def jpost_def split: prod.splits jres.splits)
  have "json_parse env input opts = J_ok (document_storage.truncate s)"
    using s(1) assms(3) by (simp add: json_parse_def parse_document_storage_def parse_inplace_def)
  moreover have "ds_root (document_storage.truncate s) = ds_root s" by (simp add: document_storage.defs)
  ultimately show ?thesis using document_holds_truncate [of s] s(2) by auto
qed



end
