(* ===== verification/Json_Dump.thy ===== *)
theory Json_Dump
  imports Simd Json_Complete "HOL-Library.List_Lexorder" "HOL-Library.Char_ord"
begin

text \<open>
  Writing JSON, \<open>json_dump.cxx\<close>: strings with their escapes, and the tree of a document, compact or
  indented, with the members in the order of the document or sorted by name. The strings that were
  parsed without an escape are slices of the input and are written back as they are.

  The recursion over the tree has fuel, one step for each node of the document: no node is below
  itself in a document that holds a value, so no path is longer.
\<close>

unbundle bit_operations_syntax

section \<open>Strings\<close>

record json_dump_options =
  du_pretty :: bool
  du_indent :: nat
  du_sort_object_keys :: bool
  du_ascii_only :: bool
  du_indent_char :: char
  du_truncate_depth :: "nat option"

definition json_dump_options_default :: json_dump_options where
  "json_dump_options_default =
     \<lparr>du_pretty = False, du_indent = 2, du_sort_object_keys = False, du_ascii_only = False, du_indent_char = CHR '' '',
      du_truncate_depth = None\<rparr>"

definition dump_str_raw :: "string \<Rightarrow> string \<Rightarrow> string" where
  "dump_str_raw sv out = out @ [CHR 0x22] @ sv @ [CHR 0x22]"

definition append_u_escape :: "string \<Rightarrow> nat \<Rightarrow> string" where
  "append_u_escape out cp =
     out @ [CHR 0x5C, CHR ''u''] @
     [hex_lower ! (drop_bit 12 cp AND 0x0F), hex_lower ! (drop_bit 8 cp AND 0x0F),
      hex_lower ! (drop_bit 4 cp AND 0x0F), hex_lower ! (cp AND 0x0F)]"

text \<open>The code point of the sequence at an index, of which the end may be missing, and its length.\<close>

definition dump_sequence :: "string \<Rightarrow> nat \<Rightarrow> nat \<times> nat" where
  "dump_sequence sv i =
     (let cc = byte (sv ! i);
          (cp, seq) = (if cc < 0xE0 then (cc AND 0x1F, 2) else if cc < 0xF0 then (cc AND 0x0F, 3) else (cc AND 0x07, 4))
      in (foldl (\<lambda>cp k. push_bit 6 cp OR (byte (sv ! (i + k)) AND 0x3F)) cp (filter (\<lambda>k. i + k < length sv) [1..<seq]), seq))"

definition dump_escape :: "bool \<Rightarrow> string \<Rightarrow> nat \<Rightarrow> string \<Rightarrow> string \<times> nat" where
  "dump_escape ascii_only sv i out =
     (let cc = byte (sv ! i)
      in if cc = 0x22 then (out @ [CHR 0x5C, CHR 0x22], i + 1)
         else if cc = 0x5C then (out @ [CHR 0x5C, CHR 0x5C], i + 1)
         else if cc = 8 then (out @ [CHR 0x5C, CHR ''b''], i + 1)
         else if cc = 12 then (out @ [CHR 0x5C, CHR ''f''], i + 1)
         else if cc = 10 then (out @ [CHR 0x5C, CHR ''n''], i + 1)
         else if cc = 13 then (out @ [CHR 0x5C, CHR ''r''], i + 1)
         else if cc = 9 then (out @ [CHR 0x5C, CHR ''t''], i + 1)
         else if cc < 0x20 then (append_u_escape out cc, i + 1)
         else if ascii_only \<and> cc \<ge> 0x80 then
           (let (cp, seq) = dump_sequence sv i
            in if cp < 0x10000 then (append_u_escape out cp, i + seq)
               else
                 let cp = cp - 0x10000
                 in (append_u_escape (append_u_escape out (0xD800 OR drop_bit 10 cp)) (0xDC00 OR (cp AND 0x3FF)), i + seq))
         else (out @ [sv ! i], i + 1))"

lemma dump_escape_moves: "i < snd (dump_escape ascii_only sv i out)"
  by (auto simp: dump_escape_def dump_sequence_def Let_def split: prod.splits if_splits)

function dump_str_loop :: "simd_build \<Rightarrow> bool \<Rightarrow> string \<Rightarrow> nat \<Rightarrow> string \<Rightarrow> string" where
  "dump_str_loop build ascii_only sv i out =
     (if i < length sv then
        (let needs_escape = dump_special ascii_only (sv ! i);
             run = (if needs_escape then 0 else scan_dump_safe_run build (drop i sv) ascii_only);
             out = out @ substr sv i run; i = i + run
         in if \<not> needs_escape \<and> i \<ge> length sv then out
            else let r = dump_escape ascii_only sv i out in dump_str_loop build ascii_only sv (snd r) (fst r))
      else out)"
  by pat_completeness auto
termination
proof (relation "measure (\<lambda>(build, ascii_only, sv, i, out). length sv - i)", goal_cases)
  case (2 build ascii_only sv i out needs_escape run out' i' r)
  then show ?case using dump_escape_moves [of i' ascii_only sv out'] by auto
qed simp

declare dump_str_loop.simps [simp del]

definition dump_str :: "simd_build \<Rightarrow> string \<Rightarrow> string \<Rightarrow> bool \<Rightarrow> string" where
  "dump_str build sv out ascii_only = dump_str_loop build ascii_only sv 0 (out @ [CHR 0x22]) @ [CHR 0x22]"

section \<open>Documents\<close>

definition dump_indent :: "json_dump_options \<Rightarrow> nat \<Rightarrow> string \<Rightarrow> string" where
  "dump_indent opts d out =
     (if \<not> du_pretty opts then out else out @ [CHR 0x0A] @ replicate (d * du_indent opts) (du_indent_char opts))"

definition dump_text :: "simd_build \<Rightarrow> json_dump_options \<Rightarrow> nat \<Rightarrow> string \<Rightarrow> string \<Rightarrow> string" where
  "dump_text build opts flags bytes out =
     (if flags AND kRawJsonSlice \<noteq> 0 \<and> \<not> du_ascii_only opts then dump_str_raw bytes out
      else dump_str build bytes out (du_ascii_only opts))"

text \<open>The items of an array or an object, each on a line of its own when indented.\<close>

fun dump_items :: "('x \<Rightarrow> string \<Rightarrow> string option) \<Rightarrow> json_dump_options \<Rightarrow> nat \<Rightarrow> bool \<Rightarrow> 'x list \<Rightarrow> string \<Rightarrow> string option" where
  "dump_items item opts d comma [] out = Some out"
| "dump_items item opts d comma (x # xs) out =
     Option.bind (item x (dump_indent opts d (if comma then out @ '','' else out))) (dump_items item opts d True xs)"

text \<open>Sorted by the bytes of the names; the names of the members of a parsed object are distinct.\<close>

definition dump_order :: "json_dump_options \<Rightarrow> document_storage \<Rightarrow> member_entry list \<Rightarrow> member_entry list" where
  "dump_order opts st ms = (if du_sort_object_keys opts then sort_key (member_name st) ms else ms)"

fun dump_node :: "simd_build \<Rightarrow> nat \<Rightarrow> document_storage \<Rightarrow> nat \<Rightarrow> json_dump_options \<Rightarrow> nat \<Rightarrow> string \<Rightarrow> string option" where
  "dump_node build 0 st node_idx opts depth out = None"
| "dump_node build (Suc fuel) st node_idx opts depth out =
     (if (case du_truncate_depth opts of None \<Rightarrow> False | Some t \<Rightarrow> depth > t) then Some (out @ ''null'')
      else
        let n = ds_nodes st ! node_idx; deeper = u32_of (depth + 1)
        in case nd_kind n of
             K_null \<Rightarrow> Some (out @ ''null'')
           | K_boolean \<Rightarrow> Some (out @ (if nd_payload n = P_bool True then ''true'' else ''false''))
           | K_string \<Rightarrow> Some (dump_text build opts (nd_flags n) (bytes_at st (nd_off n) (nd_len n) (nd_flags n)) out)
           | K_number \<Rightarrow> Some (out @ bytes_at st (nd_off n) (nd_len n) (nd_flags n))
           | K_array \<Rightarrow>
               if nd_len n = 0 then Some (out @ ''['' @ '']'')
               else
                 Option.bind
                   (dump_items (\<lambda>child. dump_node build fuel st child opts deeper) opts deeper False
                     (take (nd_len n) (drop (nd_off n) (ds_children st))) (out @ ''[''))
                   (\<lambda>out. Some (dump_indent opts depth out @ '']''))
           | K_object \<Rightarrow>
               if nd_len n = 0 then Some (out @ ''{'' @ ''}'')
               else
                 Option.bind
                   (dump_items
                     (\<lambda>m out. dump_node build fuel st (me_val_node m) opts deeper
                        (dump_text build opts (me_name_flags m) (member_name st m) out @ (if du_pretty opts then '': '' else '':'')))
                     opts deeper False (dump_order opts st (slot_members st (nd_off n) (nd_len n))) (out @ ''{''))
                   (\<lambda>out. Some (dump_indent opts depth out @ ''}'')))"

declare dump_node.simps(2) [simp del]

definition node_dump :: "simd_build \<Rightarrow> json_dump_options \<Rightarrow> document_storage \<Rightarrow> nat \<Rightarrow> string option" where
  "node_dump build opts st idx = dump_node build (Suc (length (ds_nodes st))) st idx opts 0 []"

definition json_dump :: "simd_build \<Rightarrow> json_dump_options \<Rightarrow> document_storage \<Rightarrow> string option" where
  "json_dump build opts st = node_dump build opts st (ds_root st)"

text \<open>A document of an arena is dumped as long as the arena is in the generation of the document.\<close>

definition arena_dump :: "simd_build \<Rightarrow> json_dump_options \<Rightarrow> json_arena \<Rightarrow> 32 word \<Rightarrow> string option" where
  "arena_dump build opts a generation =
     (if ja_generation a \<noteq> generation then None else json_dump build opts (ja_storage a))"

section \<open>The text of a string\<close>

text \<open>One byte as the writer puts it, when it is not part of a sequence that it decodes.\<close>

definition dump_char :: "char \<Rightarrow> string" where
  "dump_char c = (if dump_special False c then fst (dump_escape False [c] 0 []) else [c])"

lemma append_u_escape_out: "append_u_escape out cp = out @ append_u_escape [] cp"
  by (simp add: append_u_escape_def)

lemma dump_escape_char:
  assumes "dump_special False (sv ! i)"
  shows "dump_escape ascii_only sv i out = (out @ dump_char (sv ! i), i + 1)"
proof -
  have "byte (sv ! i) < 0x20 \<or> byte (sv ! i) = 0x22 \<or> byte (sv ! i) = 0x5C" using assms by (auto simp: dump_special_def)
  then show ?thesis using assms append_u_escape_out [of out "byte (sv ! i)"]
    by (auto simp: dump_char_def dump_escape_def Let_def)
qed

lemma plain_chars: "list_all (\<lambda>c. \<not> dump_special ascii_only c) s \<Longrightarrow> concat (map dump_char s) = s"
  by (induction s) (auto simp: dump_char_def dump_special_def)

lemma dump_special_mono: "dump_special False c \<Longrightarrow> dump_special ascii_only c"
  by (auto simp: dump_special_def)

text \<open>A run of plain bytes, then a byte that is written otherwise.\<close>

lemma dump_str_loop_step:
  "drop i sv = u @ c # r \<Longrightarrow> list_all (\<lambda>c. \<not> dump_special ascii_only c) u \<Longrightarrow> dump_special ascii_only c \<Longrightarrow>
   dump_str_loop build ascii_only sv i out =
     (let r = dump_escape ascii_only sv (i + length u) (out @ u) in dump_str_loop build ascii_only sv (snd r) (fst r))"
  "drop i sv = u \<Longrightarrow> list_all (\<lambda>c. \<not> dump_special ascii_only c) u \<Longrightarrow> dump_str_loop build ascii_only sv i out = out @ u"
proof -
  assume u: "drop i sv = u @ c # r" "list_all (\<lambda>c. \<not> dump_special ascii_only c) u" "dump_special ascii_only c"
  then have i: "i < length sv" "i + length u < length sv" by (metis append_is_Nil_conv drop_eq_Nil list.distinct(1) not_le, metis (no_types) add.commute append_Nil2 append_eq_append_conv_if drop_drop drop_eq_Nil append_eq_conv_conj list.distinct(1) not_le)
  have n: "sv ! i = hd (u @ c # r)" using u(1) i(1) by (metis hd_drop_conv_nth)
  have run: "run_of (dump_special ascii_only) (u @ c # r) = length u" using u(2,3) by (induction u) auto
  show "dump_str_loop build ascii_only sv i out =
     (let r = dump_escape ascii_only sv (i + length u) (out @ u) in dump_str_loop build ascii_only sv (snd r) (fst r))"
  proof (cases u)
    case Nil
    then show ?thesis using u i n by (subst dump_str_loop.simps) (simp add: substr_def)
  next
    case (Cons d v)
    then show ?thesis using u i n run by (subst dump_str_loop.simps) (simp add: substr_def scan_dump_safe_run_eq Let_def)
  qed
next
  assume u: "drop i sv = u" "list_all (\<lambda>c. \<not> dump_special ascii_only c) u"
  show "dump_str_loop build ascii_only sv i out = out @ u"
  proof (cases u)
    case Nil
    then show ?thesis using u by (subst dump_str_loop.simps) auto
  next
    case (Cons c v)
    then have i: "i < length sv" "sv ! i = c" using u(1) by (metis drop_eq_Nil list.distinct(1) not_le, metis hd_drop_conv_nth drop_eq_Nil list.distinct(1) list.sel(1) not_le)
    have "run_of (dump_special ascii_only) u = length u" using u(2) by (induction u) auto
    moreover have "length sv = i + length u" using u(1) i(1) by auto
    ultimately show ?thesis using u i Cons by (subst dump_str_loop.simps) (auto simp: substr_def scan_dump_safe_run_eq Let_def)
  qed
qed

lemma dump_str_loop_plain: "dump_str_loop build False sv i out = out @ concat (map dump_char (drop i sv))"
proof (induction "length sv - i" arbitrary: i out rule: less_induct)
  case less
  obtain u v where u: "drop i sv = u @ v" "list_all (\<lambda>c. \<not> dump_special False c) u" "v \<noteq> [] \<Longrightarrow> dump_special False (hd v)"
    using run_of_split [of "drop i sv" "dump_special False"] by metis
  show ?case
  proof (cases v)
    case Nil
    then show ?thesis using u dump_str_loop_step(2) [of i sv u] plain_chars [OF u(2)] by simp
  next
    case (Cons c r)
    have l: "i + length u < length sv" using u(1) Cons by (metis add.commute append_eq_conv_conj drop_drop drop_eq_Nil list.distinct(1) not_le)
    have d: "drop (i + length u) sv = c # r" using u(1) Cons by (metis add.commute append_eq_conv_conj drop_drop)
    then have c: "sv ! (i + length u) = c" "drop (Suc (i + length u)) sv = r" using l by (metis nth_via_drop, metis drop_Suc drop_tl list.sel(3) tl_drop)
    have "dump_str_loop build False sv i out = dump_str_loop build False sv (Suc (i + length u)) ((out @ u) @ dump_char c)"
      using dump_str_loop_step(1) [of i sv u c r False build out] u Cons dump_escape_char [of sv "i + length u" False "out @ u"] c
      by simp
    also have "\<dots> = ((out @ u) @ dump_char c) @ concat (map dump_char (drop (Suc (i + length u)) sv))"
      by (rule less) (use l in simp)
    finally show ?thesis using u(1) Cons c(2) plain_chars [OF u(2)] by simp
  qed
qed

lemma hex_digit_lower:
  assumes "d < 16"
  shows "json_hex_digit (hex_lower ! d) = Some d"
proof -
  have "list_all (\<lambda>d. json_hex_digit (hex_lower ! d) = Some d) [0..<16]" by code_simp
  then show ?thesis using assms by (simp only: list_all_iff set_upt) simp
qed

lemma shift_or: "(d :: nat) < 2 ^ n \<Longrightarrow> push_bit n v OR d = v * 2 ^ n + d"
proof -
  assume d: "d < 2 ^ n"
  then have t: "take_bit n d = d" by (simp add: take_bit_nat_eq_self)
  have "\<not> bit d m" if "n \<le> m" for m using that by (subst t [symmetric]) (simp add: bit_take_bit_iff)
  then have "push_bit n v AND d = 0" by (auto simp: bit_eq_iff bit_simps)
  then have "push_bit n v OR d = push_bit n v + d" by (simp add: disjunctive_add_eq_or)
  then show ?thesis by (simp add: push_bit_eq_mult)
qed

lemma u_escape_value:
  assumes "cp < 0x10000"
  shows "json_hex_value [hex_lower ! (drop_bit 12 cp AND 0x0F), hex_lower ! (drop_bit 8 cp AND 0x0F),
      hex_lower ! (drop_bit 4 cp AND 0x0F), hex_lower ! (cp AND 0x0F)] = Some cp"
proof -
  have "cp div 4096 * 16 + cp div 256 mod 16 = cp div 256" "cp div 256 * 16 + cp div 16 mod 16 = cp div 16"
    using div_mult_mod_eq [of "cp div 256" 16] div_mult_mod_eq [of "cp div 16" 16] by (simp_all add: div_mult2_eq [symmetric])
  then have "((cp div 4096 * 16 + cp div 256 mod 16) * 16 + cp div 16 mod 16) * 16 + cp mod 16 = cp" by simp
  moreover have "cp div 4096 mod 16 = cp div 4096" "cp div 4096 < 16" using assms by auto
  ultimately show ?thesis
    by (simp add: json_hex_value_def hex_digit_lower and_masks drop_bit_eq_div shift_or [of _ 4, simplified])
qed

lemma u_escape_text:
  assumes "scalar_value cp" "cp < 0x10000"
  shows "\<exists>e. append_u_escape [] cp = CHR 0x5C # e \<and> json_escape_text e (utf8_encode cp)"
  using json_escape_text.basic [OF _ u_escape_value [OF assms(2)] assms(1)] by (simp add: append_u_escape_def)

lemma dump_char_text:
  assumes "dump_special False c"
  shows "\<exists>e. dump_char c = CHR 0x5C # e \<and> json_escape_text e [c]"
proof (cases "byte c \<in> {0x22, 0x5C, 8, 12, 10, 13, 9}")
  case True
  then have "c \<in> {CHR 0x22, CHR 0x5C, CHR 8, CHR 12, CHR 10, CHR 13, CHR 9}" by (auto simp: byte_eq_iff [symmetric])
  then show ?thesis
    by (auto simp: dump_char_def dump_escape_def dump_special_def simple_escape_def intro!: json_escape_text.simple)
next
  case False
  then have b: "byte c < 0x20" using assms by (auto simp: dump_special_def)
  then have "dump_char c = append_u_escape [] (byte c)" using assms False by (simp add: dump_char_def dump_escape_def Let_def)
  moreover have "utf8_encode (byte c) = [c]" using b by (simp add: utf8_encode_def)
  ultimately show ?thesis using u_escape_text [of "byte c"] b by (simp add: scalar_value_def)
qed

lemma unit_plain: "json_unit u \<Longrightarrow> list_all (\<lambda>c. \<not> dump_special False c) u"
  by (auto simp: json_unit_def dump_special_def list_all_iff is_cont_def byte_tests split: list.splits)

lemma unit_encode:
  assumes "scalar_value cp" "0x80 \<le> cp"
  shows "json_unit (utf8_encode cp)"
proof -
  have "cp \<le> 0x10FFFF" using assms by (auto simp: scalar_value_def)
  then have "cp div 262144 < 5" "cp < 0x10000 \<Longrightarrow> cp div 4096 < 16" "cp < 0x800 \<Longrightarrow> cp div 64 < 32" by auto
  moreover have "2 \<le> cp div 64" using assms(2) div_le_mono [of 128 cp 64] by simp
  ultimately show ?thesis using assms(2)
    by (auto simp: utf8_encode_def json_unit_def utf8_seq_len_def is_cont_def byte_tests dest: arg_cong [where f = byte])
qed

lemma single_body: "byte c < 0x80 \<Longrightarrow> json_string_body t b \<Longrightarrow> json_string_body (dump_char c @ t) (c # b)"
proof (cases "dump_special False c")
  case True
  assume "json_string_body t b"
  moreover obtain e where "dump_char c = CHR 0x5C # e" "json_escape_text e [c]" using dump_char_text [OF True] by blast
  ultimately show ?thesis using json_string_body.escape [of e "[c]" t b] by simp
next
  case False
  assume c: "byte c < 0x80" "json_string_body t b"
  then have "json_unit [c]" using False by (simp add: json_unit_def utf8_seq_len_def dump_special_def not_less)
  then show ?thesis using json_string_body.plain [of "[c]" t b] c(2) False by (simp add: dump_char_def)
qed

lemma unit_body: "json_unit u \<Longrightarrow> json_string_body t b \<Longrightarrow> json_string_body (concat (map dump_char u) @ t) (u @ b)"
  using plain_chars [OF unit_plain [of u]] json_string_body.plain by simp

lemma encoded_body:
  "scalar_value cp \<Longrightarrow> json_string_body t b \<Longrightarrow> json_string_body (concat (map dump_char (utf8_encode cp)) @ t) (utf8_encode cp @ b)"
  using unit_body [OF unit_encode] single_body [of "of_byte cp"] by (cases "cp < 0x80") (auto simp: utf8_encode_def)

lemma dump_chars_body: "json_string_body t b \<Longrightarrow> json_string_body (concat (map dump_char b)) b"
proof (induction rule: json_string_body.induct)
  case (plain u t b)
  then show ?case using unit_body by simp
next
  case (escape e d t b)
  from escape(1) show ?case
  proof cases
    case (simple c d')
    then have "byte d' < 0x80" by (auto simp: simple_escape_def split: if_splits)
    then show ?thesis using single_body [OF _ escape.IH] simple by simp
  next
    case (basic h cp)
    then show ?thesis using encoded_body [OF _ escape.IH] by simp
  next
    case (paired h hi l lo)
    then have "scalar_value (0x10000 + (hi - 0xD800) * 0x400 + (lo - 0xDC00))" by (auto simp: scalar_value_def)
    then show ?thesis using encoded_body [OF _ escape.IH] paired by simp
  qed
qed (simp add: json_string_body.closed)

text \<open>One character as the writer puts it when only ASCII is allowed.\<close>

definition dump_pair :: "nat \<Rightarrow> string" where
  "dump_pair cp = append_u_escape (append_u_escape [] (0xD800 OR drop_bit 10 (cp - 0x10000))) (0xDC00 OR ((cp - 0x10000) AND 0x3FF))"

definition dump_ascii :: "nat \<Rightarrow> string" where
  "dump_ascii cp =
     (if cp < 0x80 then dump_char (of_byte cp) else if cp < 0x10000 then append_u_escape [] cp else dump_pair cp)"

lemma dump_sequence_encode:
  assumes "scalar_value cp" "0x80 \<le> cp" "drop i sv = utf8_encode cp @ r"
  shows "dump_sequence sv i = (cp, length (utf8_encode cp))"
proof -
  have "length (utf8_encode cp) \<le> length (drop i sv)" using assms(3) by simp
  then have len: "i + k < length sv" if "k < length (utf8_encode cp)" for k using that by simp
  have nth: "sv ! (i + k) = utf8_encode cp ! k" if "k < length (utf8_encode cp)" for k
    using that assms(3) nth_drop [of i sv k] len [OF that] by (simp add: nth_append)
  have big: "cp div 262144 < 8" using assms(1) by (auto simp: scalar_value_def)
  have upt: "[1..<2] = [1]" "[1..<3] = [1, 2]" "[1..<4] = [1, 2, 3 :: nat]" by code_simp+
  have parts: "cp div 4096 * 64 + cp div 64 mod 64 = cp div 64" "cp div 64 * 64 + cp mod 64 = cp"
    "cp div 262144 * 64 + cp div 4096 mod 64 = cp div 4096"
    using div_mult_mod_eq [of "cp div 64" 64] div_mult_mod_eq [of "cp div 4096" 64] by (simp_all add: div_mult2_eq [symmetric])
  note defs = dump_sequence_def utf8_encode_def and_masks shift_or [of _ 6, simplified] Let_def
  consider "cp < 0x800" | "0x800 \<le> cp" "cp < 0x10000" | "0x10000 \<le> cp" by linarith
  then show ?thesis
  proof cases
    case 1
    define q where "q = cp div 64"
    have "q < 32" "q * 64 + cp mod 64 = cp" using 1 parts(2) by (auto simp: q_def)
    then show ?thesis using nth [of 0] nth [of 1] len [of 1] 1 assms(2) mod_offset [of q 32 6] mod_offset [of "cp mod 64" 64 2]
      by (simp add: defs upt q_def [symmetric] del: One_nat_def)
  next
    case 2
    define p x y where "p = cp div 4096" and "x = cp div 64 mod 64" and "y = cp mod 64"
    have "p < 16" "x < 64" "y < 64" "(p * 64 + x) * 64 + y = cp" using 2 parts by (auto simp: p_def x_def y_def)
    then show ?thesis using nth [of 0] nth [of 1] nth [of 2] len [of 1] len [of 2] 2 mod_offset [of p 16 14] mod_offset [of x 64 2] mod_offset [of y 64 2]
      by (simp add: defs upt p_def [symmetric] x_def [symmetric] y_def [symmetric] del: One_nat_def add_2_eq_Suc' add_2_eq_Suc)
  next
    case 3
    define p w x y where "p = cp div 262144" and "w = cp div 4096 mod 64" and "x = cp div 64 mod 64" and "y = cp mod 64"
    have "p < 8" "w < 64" "x < 64" "y < 64" "((p * 64 + w) * 64 + x) * 64 + y = cp" using 3 parts big by (auto simp: p_def w_def x_def y_def)
    then show ?thesis using nth [of 0] nth [of 1] nth [of 2] nth [of 3] len [of 1] len [of 2] len [of 3] 3
        mod_offset [of p 8 30] mod_offset [of w 64 2] mod_offset [of x 64 2] mod_offset [of y 64 2]
      by (simp add: defs upt p_def [symmetric] w_def [symmetric] x_def [symmetric] y_def [symmetric] del: One_nat_def add_2_eq_Suc' add_2_eq_Suc)
  qed
qed

lemma ascii_text:
  assumes "scalar_value cp" "json_string_body t b"
  shows "json_string_body (dump_ascii cp @ t) (utf8_encode cp @ b)"
proof -
  consider "cp < 0x80" | "0x80 \<le> cp" "cp < 0x10000" | "0x10000 \<le> cp" by linarith
  then show ?thesis
  proof cases
    case 1
    then show ?thesis using single_body [of "of_byte cp", OF _ assms(2)] by (simp add: dump_ascii_def utf8_encode_def)
  next
    case 2
    obtain e where "append_u_escape [] cp = CHR 0x5C # e" "json_escape_text e (utf8_encode cp)" using u_escape_text [OF assms(1) 2(2)] by blast
    then show ?thesis using json_string_body.escape [OF _ assms(2), of e] 2 by (simp add: dump_ascii_def)
  next
    case 3
    let ?v = "cp - 0x10000"
    have v: "?v div 1024 < 1024" "?v mod 1024 < 1024" using assms(1) 3 by (auto simp: scalar_value_def)
    have hi: "0xD800 OR drop_bit 10 ?v = 0xD800 + ?v div 1024" using shift_or [of "?v div 1024" 10 54] v by (simp add: drop_bit_eq_div push_bit_eq_mult)
    have "?v AND 0x3FF = ?v mod 1024" using and_field [of ?v 0 10] by (simp add: mask_eq_exp_minus_1)
    then have lo: "0xDC00 OR (?v AND 0x3FF) = 0xDC00 + ?v mod 1024" using shift_or [of "?v mod 1024" 10 55] v by (simp add: push_bit_eq_mult)
    have cp: "0x10000 + (0xD800 + ?v div 1024 - 0xD800) * 0x400 + (0xDC00 + ?v mod 1024 - 0xDC00) = cp" using 3 by simp
    have b: "0xD800 + ?v div 1024 < 0x10000" "0xDC00 + ?v mod 1024 < 0x10000" using v by simp_all
    note e = json_escape_text.paired [OF _ u_escape_value [OF b(1)] _ _ _ u_escape_value [OF b(2)], unfolded cp]
    show ?thesis using json_string_body.escape [OF e assms(2)] v 3
      by (simp add: dump_ascii_def dump_pair_def hi lo append_u_escape_def)
  qed
qed

lemma ascii_texts: "list_all scalar_value cps \<Longrightarrow> json_string_body (concat (map dump_ascii cps)) (concat (map utf8_encode cps))"
  by (induction cps) (simp_all add: json_string_body.closed ascii_text)

lemma encode_lead:
  assumes "scalar_value cp" "0x80 \<le> cp" "utf8_encode cp = c # r"
  shows "0x80 \<le> byte c"
proof -
  have "2 \<le> length (utf8_encode cp)" using assms(2) by (simp add: utf8_encode_def)
  then have "utf8_seq_len (byte c) \<noteq> 1" using unit_encode [OF assms(1,2)] assms(3) by (auto simp: json_unit_def)
  then show ?thesis by (auto simp: utf8_seq_len_def split: if_splits)
qed

lemma dump_escape_ascii:
  assumes "scalar_value cp" "drop i sv = utf8_encode cp @ r" "\<not> (cp < 0x80 \<and> \<not> dump_special True (of_byte cp))"
  shows "dump_escape True sv i out = (out @ dump_ascii cp, i + length (utf8_encode cp))"
proof -
  have i: "sv ! i = hd (utf8_encode cp)"
    using assms(2) nth_via_drop [of i sv "hd (utf8_encode cp)" "tl (utf8_encode cp) @ r"] by (simp add: utf8_encode_def split: if_splits)
  show ?thesis
  proof (cases "cp < 0x80")
    case True
    then have "dump_special False (sv ! i)" using assms(3) i by (auto simp: utf8_encode_def dump_special_def)
    from dump_escape_char [OF this] show ?thesis using i True by (simp add: dump_ascii_def utf8_encode_def)
  next
    case False
    then have "0x80 \<le> byte (sv ! i)"
      using i encode_lead [OF assms(1), of "sv ! i" "tl (utf8_encode cp)"] by (simp add: utf8_encode_def split: if_splits)
    moreover have "dump_sequence sv i = (cp, length (utf8_encode cp))" using dump_sequence_encode [OF assms(1) _ assms(2)] False by simp
    ultimately show ?thesis using False append_u_escape_out [of out] append_u_escape_out [of "out @ x" for x] append_u_escape_out [of "append_u_escape [] x" for x]
      by (simp add: dump_escape_def Let_def dump_ascii_def dump_pair_def)
  qed
qed

lemma dump_str_loop_ascii:
  assumes "list_all scalar_value cps" "drop i sv = concat (map utf8_encode cps)"
  shows "dump_str_loop build True sv i out = out @ concat (map dump_ascii cps)"
  using assms
proof (induction "length cps" arbitrary: cps i out rule: less_induct)
  case less
  let ?plain = "\<lambda>cp. cp < 0x80 \<and> \<not> dump_special True (of_byte cp)"
  define us where "us = takeWhile ?plain cps"
  define vs where "vs = dropWhile ?plain cps"
  have cps: "cps = us @ vs" by (simp add: us_def vs_def)
  have us: "concat (map utf8_encode us) = map of_byte us" "concat (map dump_ascii us) = map of_byte us"
    "list_all (\<lambda>c. \<not> dump_special True c) (map of_byte us)"
    using set_takeWhileD [of _ ?plain cps] unfolding us_def [symmetric]
    by (induction us) (auto simp: utf8_encode_def dump_ascii_def dump_char_def dest: dump_special_mono)
  show ?case
  proof (cases vs)
    case Nil
    then show ?thesis using dump_str_loop_step(2) [of i sv "map of_byte us"] us cps less.prems(2) by simp
  next
    case (Cons cp rest)
    let ?j = "i + length us"
    have cp: "scalar_value cp" "list_all scalar_value rest" using less.prems(1) cps Cons by simp_all
    have "\<not> ?plain cp" using Cons hd_dropWhile [of ?plain cps] by (simp add: vs_def)
    obtain c r where c: "utf8_encode cp = c # r" by (cases "utf8_encode cp") (auto simp: utf8_encode_def split: if_splits)
    have special: "dump_special True c"
      using \<open>\<not> ?plain cp\<close> c encode_lead [OF cp(1) _ c] by (cases "cp < 0x80") (auto simp: utf8_encode_def dump_special_def)
    have d: "drop i sv = map of_byte us @ c # r @ concat (map utf8_encode rest)" using less.prems(2) cps Cons us(1) c by simp
    have j: "drop ?j sv = utf8_encode cp @ concat (map utf8_encode rest)"
      using d c by (metis add.commute append_eq_conv_conj append_Cons drop_drop length_map)
    have esc: "dump_escape True sv ?j (out @ map of_byte us) = (out @ map of_byte us @ dump_ascii cp, ?j + length (utf8_encode cp))"
      using dump_escape_ascii [OF cp(1) j \<open>\<not> ?plain cp\<close>, of "out @ map of_byte us"] by simp
    have "drop (?j + length (utf8_encode cp)) sv = concat (map utf8_encode rest)" using j by (metis add.commute append_eq_conv_conj drop_drop)
    then have "dump_str_loop build True sv (?j + length (utf8_encode cp)) (out @ map of_byte us @ dump_ascii cp) =
        (out @ map of_byte us @ dump_ascii cp) @ concat (map dump_ascii rest)"
      using less.hyps [of rest] cp(2) cps Cons by simp
    then show ?thesis using dump_str_loop_step(1) [OF d us(3) special] esc us(2) cps Cons by (simp add: Let_def)
  qed
qed

lemma dump_text_quoted:
  assumes "flags AND kRawJsonSlice \<noteq> 0 \<Longrightarrow> json_string_body b b" "json_string_body t b"
    and "du_ascii_only opts \<Longrightarrow> \<exists>cps. list_all scalar_value cps \<and> b = concat (map utf8_encode cps)"
  obtains w where "dump_text build opts flags b out = out @ w" "json_quoted w b"
proof -
  have "\<exists>x. dump_text build opts flags b out = out @ CHR 0x22 # x @ [CHR 0x22] \<and> json_string_body x b"
  proof (cases "du_ascii_only opts")
    case True
    then obtain cps where cps: "list_all scalar_value cps" "b = concat (map utf8_encode cps)" using assms(3) by blast
    then show ?thesis using True dump_str_loop_ascii [OF cps(1), of 0 b] ascii_texts [OF cps(1)]
      by (intro exI [of _ "concat (map dump_ascii cps)"]) (simp add: dump_text_def dump_str_def)
  next
    case False
    then show ?thesis using assms(1) dump_chars_body [OF assms(2)]
      by (auto simp: dump_text_def dump_str_raw_def dump_str_def dump_str_loop_plain)
  qed
  then obtain x where "dump_text build opts flags b out = out @ CHR 0x22 # x @ [CHR 0x22]" "json_string_body x b" by blast
  then show ?thesis by (intro that [of "CHR 0x22 # x @ [CHR 0x22]"]) (auto simp: json_quoted_def)
qed

end
