(* ===== verification/Json_Roundtrip.thy ===== *)
theory Json_Roundtrip
  imports Json_Dump
begin

text \<open>
  Writing a document and parsing it again: the text that is written for a document is a JSON text of
  the value the document holds, with the members sorted when the options ask for it, so that the parser
  accepts it and builds a document with that value. The fuel of the writer is enough for every
  document that holds a value.
\<close>

unbundle bit_operations_syntax

lemmas holds_simps = document_holds.simps(1-5) document_holds_object Let_def

section \<open>Values that documents hold\<close>

fun json_well_formed :: "json_value \<Rightarrow> bool" where
  "json_well_formed JV_null \<longleftrightarrow> True"
| "json_well_formed (JV_bool b) \<longleftrightarrow> True"
| "json_well_formed (JV_number w) \<longleftrightarrow> json_number w"
| "json_well_formed (JV_string b) \<longleftrightarrow> (\<exists>t. json_string_body t b)"
| "json_well_formed (JV_array vs) \<longleftrightarrow> list_all json_well_formed vs"
| "json_well_formed (JV_object ms) \<longleftrightarrow>
     distinct (map fst ms) \<and> list_all (\<lambda>(k, v). (\<exists>t. json_string_body t k) \<and> json_well_formed v) ms"

text \<open>All strings and names of a value.\<close>

fun json_strings :: "json_value \<Rightarrow> string list" where
  "json_strings (JV_string b) = [b]"
| "json_strings (JV_array vs) = concat (map json_strings vs)"
| "json_strings (JV_object ms) = concat (map (\<lambda>(k, v). k # json_strings v) ms)"
| "json_strings v = []"

text \<open>The value that is written.\<close>

fun dumped_value :: "bool \<Rightarrow> json_value \<Rightarrow> json_value" where
  "dumped_value by_name (JV_array vs) = JV_array (map (dumped_value by_name) vs)"
| "dumped_value by_name (JV_object ms) =
     JV_object (let ms = map (\<lambda>(k, v). (k, dumped_value by_name v)) ms in if by_name then sort_key fst ms else ms)"
| "dumped_value by_name v = v"

lemma add_member_keeps:
  assumes "add_member pol acc m = Some acc'" "distinct (map fst acc)" "list_all P acc" "P m"
  shows "distinct (map fst acc') \<and> list_all P acc'"
proof -
  have "map (fst \<circ> (\<lambda>n. if fst n = fst m then m else n)) acc = map fst acc" by (induction acc) auto
  then have "distinct (map (fst \<circ> (\<lambda>n. if fst n = fst m then m else n)) acc)" using assms(2) by (simp only:)
  then show ?thesis using assms
    by (auto simp: add_member_def list_all_iff split: if_splits duplicate_key_policy.splits)
qed

lemma add_members_keeps:
  "add_members pol acc raw = Some ms \<Longrightarrow> distinct (map fst acc) \<Longrightarrow> list_all P acc \<Longrightarrow> list_all P raw \<Longrightarrow>
   distinct (map fst ms) \<and> list_all P ms"
proof (induction raw arbitrary: acc)
  case (Cons m raw)
  then obtain acc' where a: "add_member pol acc m = Some acc'" "add_members pol acc' raw = Some ms" by (auto split: Option.bind_splits)
  have "distinct (map fst acc')" "list_all P acc'" using add_member_keeps [OF a(1) Cons.prems(2,3)] Cons.prems(4) by simp_all
  with Cons.IH [OF a(2)] Cons.prems(4) show ?case by simp
qed simp

lemma quoted_body: "json_quoted w k \<Longrightarrow> \<exists>t. json_string_body t k"
  by (auto simp: json_quoted_def)

lemma text_well_formed:
  shows "json_value_text pol v w \<Longrightarrow> json_well_formed v"
    and "json_elements_text pol vs w \<Longrightarrow> list_all json_well_formed vs"
    and "json_members_text pol ms w \<Longrightarrow> list_all (\<lambda>(k, v). (\<exists>t. json_string_body t k) \<and> json_well_formed v) ms"
proof (induction rule: json_value_text_json_elements_text_json_members_text.inducts)
  case (object raw w ms)
  then show ?case using add_members_keeps [OF \<open>add_members pol [] raw = Some ms\<close>] by simp
qed (auto dest: quoted_body)

lemma distinct_all_added: "distinct (map fst (acc @ raw)) \<Longrightarrow> add_members pol acc raw = Some (acc @ raw)"
proof (induction raw arbitrary: acc)
  case (Cons m raw)
  then have "add_member pol acc m = Some (acc @ [m])" by (auto simp: add_member_def)
  with Cons show ?case by simp
qed simp

section \<open>Enough fuel\<close>

fun json_height :: "json_value \<Rightarrow> nat" where
  "json_height (JV_array vs) = foldr (\<lambda>v. max (Suc (json_height v))) vs 0"
| "json_height (JV_object ms) = foldr (\<lambda>(k, v). max (Suc (json_height v))) ms 0"
| "json_height v = 0"

lemma text_at_unique: "text_at st off len flags b \<Longrightarrow> text_at st off len flags b' \<Longrightarrow> b' = b"
  unfolding text_at_def by metis

lemma holds_unique: "document_holds st i v \<Longrightarrow> document_holds st i v' \<Longrightarrow> v' = v"
proof (induction v arbitrary: i v')
  case (JV_array vs)
  then obtain vs' where v': "v' = JV_array vs'" by (cases v') (auto simp: holds_simps)
  define ks where "ks = take (nd_len (ds_nodes st ! i)) (drop (nd_off (ds_nodes st ! i)) (ds_children st))"
  have h: "list_all2 (document_holds st) ks vs" "list_all2 (document_holds st) ks vs'"
    using JV_array.prems v' by (auto simp: holds_simps ks_def)
  have "vs' ! k = vs ! k" if "k < length vs" for k
    using that JV_array.IH [of "vs ! k" "ks ! k" "vs' ! k"] h by (auto simp: list_all2_conv_all_nth)
  moreover have "length vs' = length vs" using h [THEN list_all2_lengthD] by simp
  ultimately show ?case using nth_equalityI [of vs' vs] v' by simp
next
  case (JV_object ms)
  then obtain ms' where v': "v' = JV_object ms'" by (cases v') (auto simp: holds_simps)
  let ?is = "slot_members st (nd_off (ds_nodes st ! i)) (nd_len (ds_nodes st ! i))"
  have h: "list_all2 (member_holds st) ?is ms" "list_all2 (member_holds st) ?is ms'"
    using JV_object.prems v' by (auto simp: document_holds_object)
  have "ms' ! k = ms ! k" if k: "k < length ms" for k
  proof -
    have m: "member_holds st (?is ! k) (ms ! k)" "member_holds st (?is ! k) (ms' ! k)" using h k by (auto simp: list_all2_conv_all_nth)
    have "snd (ms ! k) \<in> Basic_BNFs.snds (ms ! k)" by (cases "ms ! k") simp
    from JV_object.IH [OF nth_mem [OF k] this] m have "snd (ms' ! k) = snd (ms ! k)" unfolding member_holds_def by blast
    moreover have "fst (ms' ! k) = fst (ms ! k)" using m unfolding member_holds_def string_at_def by (blast dest: text_at_unique)
    ultimately show ?thesis by (simp add: prod_eq_iff)
  qed
  moreover have "length ms' = length ms" using h [THEN list_all2_lengthD] by simp
  ultimately show ?case using nth_equalityI [of ms' ms] v' by simp
next
  case (JV_number w)
  then obtain w' where v': "v' = JV_number w'" by (cases v') (auto simp: holds_simps)
  let ?n = "ds_nodes st ! i"
  have "text_at st (nd_off ?n) (nd_len ?n) (nd_flags ?n) w" "text_at st (nd_off ?n) (nd_len ?n) (nd_flags ?n) w'"
    using JV_number v' by (simp_all add: holds_simps)
  then show ?case using text_at_unique v' by blast
next
  case (JV_string b)
  then obtain b' where v': "v' = JV_string b'" by (cases v') (auto simp: holds_simps)
  let ?n = "ds_nodes st ! i"
  have "text_at st (nd_off ?n) (nd_len ?n) (nd_flags ?n) b" "text_at st (nd_off ?n) (nd_len ?n) (nd_flags ?n) b'"
    using JV_string v' by (simp_all add: holds_simps string_at_def)
  then show ?case using text_at_unique v' by blast
next
  case JV_null
  then show ?case by (cases v') (simp_all add: holds_simps)
next
  case (JV_bool b)
  then show ?case by (cases v') (simp_all add: holds_simps)
qed

lemma foldr_max: "foldr (\<lambda>x. max (f x)) xs 0 = Suc h \<Longrightarrow> \<exists>x\<in>set xs. f x = Suc h"
  by (induction xs) (auto simp: max_def split: if_splits)

lemma related_left: "list_all2 P xs ys \<Longrightarrow> y \<in> set ys \<Longrightarrow> \<exists>x\<in>set xs. P x y"
  by (induction rule: list_all2_induct) auto

lemma holds_child:
  assumes "document_holds st i v" "json_height v = Suc h"
  shows "\<exists>j u. document_holds st j u \<and> size u < size v \<and> json_height u = h"
proof (cases v)
  case (JV_array vs)
  have h: "list_all2 (document_holds st) (take (length vs) (drop (nd_off (ds_nodes st ! i)) (ds_children st))) vs"
    using assms(1) JV_array by (auto simp: holds_simps)
  obtain u where u: "u \<in> set vs" "json_height u = h" using foldr_max [of "\<lambda>v. Suc (json_height v)" vs h] assms(2) JV_array by auto
  moreover obtain j where "document_holds st j u" using related_left [OF h u(1)] by blast
  moreover have "size u < size v" using JV_array size_list_estimation' [OF u(1), of "size u" size] by simp
  ultimately show ?thesis by blast
next
  case (JV_object ms)
  have h: "list_all2 (member_holds st) (slot_members st (nd_off (ds_nodes st ! i)) (length ms)) ms"
    using assms(1) JV_object by (auto simp: holds_simps)
  obtain m where m: "m \<in> set ms" "json_height (snd m) = h"
    using foldr_max [of "\<lambda>(k, v). Suc (json_height v)" ms h] assms(2) JV_object by (auto simp: case_prod_beta')
  moreover obtain j where "document_holds st j (snd m)" using related_left [OF h m(1)] by (auto simp: member_holds_def)
  moreover have "size (snd m) < size v"
    using JV_object size_list_estimation' [OF m(1), of "size (snd m)" "size_prod (\<lambda>_. 0) size"] by (cases m) simp
  ultimately show ?thesis by blast
qed (use assms(2) in simp_all)

definition held_below :: "document_storage \<Rightarrow> nat \<Rightarrow> nat set" where
  "held_below st n = {j. j < length (ds_nodes st) \<and> (\<exists>u. document_holds st j u \<and> size u \<le> n)}"

lemma holds_node: "document_holds st i v \<Longrightarrow> i < length (ds_nodes st)"
  by (cases v) (simp_all add: holds_simps)

text \<open>The nodes on a path to a leaf are different ones.\<close>

lemma height_held: "document_holds st i v \<Longrightarrow> json_height v < card (held_below st (size v))"
proof (induction "json_height v" arbitrary: i v)
  case 0
  then have "i \<in> held_below st (size v)" using holds_node by (auto simp: held_below_def)
  moreover have "finite (held_below st (size v))" by (simp add: held_below_def)
  ultimately show ?case using 0 by (auto simp: card_gt_0_iff)
next
  case (Suc h)
  obtain j u where u: "document_holds st j u" "size u < size v" "json_height u = h" using holds_child [OF Suc.prems] Suc.hyps(2) by metis
  have "i \<notin> held_below st (size u)" using holds_unique [OF Suc.prems] u(2) by (auto simp: held_below_def)
  moreover have "insert i (held_below st (size u)) \<subseteq> held_below st (size v)"
    using Suc.prems holds_node [OF Suc.prems] u(2) by (fastforce simp: held_below_def)
  moreover have "finite (held_below st n)" for n by (simp add: held_below_def)
  ultimately have "Suc (card (held_below st (size u))) \<le> card (held_below st (size v))" using card_mono by (metis card_insert_disjoint)
  then show ?case using Suc.hyps(1) [of u j] u Suc.hyps(2) by simp
qed

lemma height_nodes: "document_holds (st :: document_storage) i v \<Longrightarrow> json_height v < length (ds_nodes st)"
proof -
  assume "document_holds st i v"
  moreover have "card (held_below st (size v)) \<le> card {..<length (ds_nodes st)}" by (rule card_mono) (auto simp: held_below_def)
  ultimately show ?thesis using height_held [of st i v] by simp
qed

section \<open>The text of a document\<close>

lemma insort_related:
  assumes "list_all2 R xs ys" "R x y" "\<And>x y. R x y \<Longrightarrow> f x = g y"
  shows "list_all2 R (insort_key f x xs) (insort_key g y ys)"
  using assms(1) by (induction rule: list_all2_induct) (use assms(2,3) in auto)

lemma sort_related:
  assumes "list_all2 R xs ys" "\<And>x y. R x y \<Longrightarrow> f x = g y"
  shows "list_all2 R (sort_key f xs) (sort_key g ys)"
  using assms(1) by (induction rule: list_all2_induct) (auto intro: insort_related assms(2) simp: sort_key_def)

lemma member_name_held:
  assumes "member_holds st m kv"
  shows "member_name st m = fst kv"
proof -
  have b: "bytes_at st (me_name_off m) (me_name_len m) (me_name_flags m) = fst kv" and "me_name_flags m AND kMemberExternalView = 0"
    using assms unfolding member_holds_def string_at_def text_at_def by blast+
  then show ?thesis unfolding member_name_def by (simp only: b not_True_eq_False simp_thms if_False)
qed

text \<open>The space that ends the last line belongs to the elements.\<close>

lemma trailing_blanks:
  shows "json_value_text pol v w \<Longrightarrow> True"
    and "json_elements_text pol vs w \<Longrightarrow> blanks ws \<Longrightarrow> json_elements_text pol vs (w @ ws)"
    and "json_members_text pol ms w \<Longrightarrow> blanks ws \<Longrightarrow> json_members_text pol ms (w @ ws)"
proof (induction rule: json_value_text_json_elements_text_json_members_text.inducts)
  case (last_element ws1 v w ws2)
  then show ?case using json_value_text_json_elements_text_json_members_text.last_element [of ws1 pol v w "ws2 @ ws"] by simp
next
  case (element ws1 v w ws2 vs w')
  then show ?case using json_value_text_json_elements_text_json_members_text.element [of ws1 pol v w ws2 vs "w' @ ws"] by simp
next
  case (last_member ws1 n k ws2 ws3 v w ws4)
  then show ?case using json_value_text_json_elements_text_json_members_text.last_member [of ws1 n k ws2 ws3 pol v w "ws4 @ ws"] by simp
next
  case (member ws1 n k ws2 ws3 v w ws4 ms w')
  then show ?case using json_value_text_json_elements_text_json_members_text.member [of ws1 n k ws2 ws3 pol v w ws4 ms "w' @ ws"] by simp
qed simp_all

definition indent_text :: "json_dump_options \<Rightarrow> nat \<Rightarrow> string" where
  "indent_text opts d = dump_indent opts d []"

lemma dump_indent_eq: "dump_indent opts d out = out @ indent_text opts d"
  by (simp add: indent_text_def dump_indent_def)

lemma indent_blank: "json_blank (du_indent_char opts) \<Longrightarrow> blanks (indent_text opts d)"
  by (simp add: indent_text_def dump_indent_def list_all_iff json_blank_def)

lemma dump_elements:
  assumes "list_all2 (\<lambda>x v. \<forall>out. \<exists>w. item x out = Some (out @ w) \<and> json_value_text pol v w) xs vs"
    and "xs \<noteq> []" "json_blank (du_indent_char opts)"
  shows "\<exists>w. dump_items item opts d comma xs out = Some (out @ (if comma then '','' else []) @ w) \<and> json_elements_text pol vs w"
  using assms(1,2)
proof (induction arbitrary: comma out rule: list_all2_induct)
  case (Cons x xs v vs)
  let ?out = "dump_indent opts d (if comma then out @ '','' else out)" and ?i = "indent_text opts d"
  obtain w where w: "item x ?out = Some (?out @ w)" "json_value_text pol v w" using Cons.hyps(1) by blast
  show ?case
  proof (cases "xs = []")
    case True
    then have "vs = []" using Cons.hyps(2) by simp
    then show ?thesis using True w last_element [of ?i pol v w "[]"] indent_blank [OF assms(3), of d]
      by (intro exI [of _ "?i @ w"]) (simp add: dump_indent_eq)
  next
    case False
    then obtain w' where w': "dump_items item opts d True xs (?out @ w) = Some ((?out @ w) @ '','' @ w')" "json_elements_text pol vs w'"
      using Cons.IH [of True "?out @ w"] by auto
    then show ?thesis using w element [of ?i pol v w "[]" vs w'] indent_blank [OF assms(3), of d]
      by (intro exI [of _ "?i @ w @ '','' @ w'"]) (simp add: dump_indent_eq)
  qed
qed simp

definition colon :: "json_dump_options \<Rightarrow> string" where
  "colon opts = (if du_pretty opts then '' '' else [])"

lemma dump_members:
  assumes "list_all2 (\<lambda>x (k, v). \<forall>out. \<exists>n w. item x out = Some (out @ n @ CHR '':'' # colon opts @ w) \<and> json_quoted n k \<and> json_value_text pol v w) xs ms"
    and "xs \<noteq> []" "json_blank (du_indent_char opts)"
  shows "\<exists>w. dump_items item opts d comma xs out = Some (out @ (if comma then '','' else []) @ w) \<and> json_members_text pol ms w"
  using assms(1,2)
proof (induction arbitrary: comma out rule: list_all2_induct)
  case (Cons x xs kv ms)
  obtain k v where kv: "kv = (k, v)" by force
  let ?out = "dump_indent opts d (if comma then out @ '','' else out)" and ?i = "indent_text opts d" and ?c = "colon opts"
  obtain n w where w: "item x ?out = Some (?out @ n @ CHR '':'' # ?c @ w)" "json_quoted n k" "json_value_text pol v w"
    using Cons.hyps(1) unfolding kv by blast
  have blank: "blanks ?i" "blanks ?c" using indent_blank [OF assms(3)] by (simp_all add: colon_def json_blank_def)
  show ?case
  proof (cases "xs = []")
    case True
    then have "ms = []" using Cons.hyps(2) by simp
    then show ?thesis using True w last_member [of ?i n k "[]" ?c pol v w "[]"] blank kv
      by (intro exI [of _ "?i @ n @ CHR '':'' # ?c @ w"]) (simp add: dump_indent_eq)
  next
    case False
    let ?out' = "?out @ n @ CHR '':'' # ?c @ w"
    obtain w' where w': "dump_items item opts d True xs ?out' = Some (?out' @ '','' @ w')" "json_members_text pol ms w'"
      using False Cons.IH [of True ?out'] by auto
    then show ?thesis using w member [of ?i n k "[]" ?c pol v w "[]" ms w'] blank kv
      by (intro exI [of _ "?i @ n @ CHR '':'' # ?c @ w @ '','' @ w'"]) (simp add: dump_indent_eq)
  qed
qed simp

lemma foldr_max_le: "x \<in> set xs \<Longrightarrow> f x \<le> foldr (\<lambda>x. max (f x)) xs (0 :: nat)"
  by (induction xs) auto

text \<open>What the writer has to do for a value.\<close>

definition dumps :: "simd_build \<Rightarrow> json_dump_options \<Rightarrow> document_storage \<Rightarrow> json_value \<Rightarrow> bool" where
  "dumps build opts st v \<longleftrightarrow>
     (\<forall>i fuel depth out. document_holds st i v \<longrightarrow> json_height v < fuel \<longrightarrow>
        (\<exists>w. dump_node build fuel st i opts depth out = Some (out @ w) \<and>
             json_value_text Dup_reject (dumped_value (du_sort_object_keys opts) v) w))"

lemma dump_node_Suc:
  "du_truncate_depth opts = None \<Longrightarrow> dump_node build (Suc fuel) st i opts depth out =
     (let n = ds_nodes st ! i; deeper = u32_of (depth + 1)
      in case nd_kind n of
           K_null \<Rightarrow> Some (out @ ''null'')
         | K_boolean \<Rightarrow> Some (out @ (if nd_payload n = P_bool True then ''true'' else ''false''))
         | K_string \<Rightarrow> Some (dump_text build opts (nd_flags n) (bytes_at st (nd_off n) (nd_len n) (nd_flags n)) out)
         | K_number \<Rightarrow> Some (out @ bytes_at st (nd_off n) (nd_len n) (nd_flags n))
         | K_array \<Rightarrow>
             if nd_len n = 0 then Some (out @ ''['' @ '']'')
             else
               Option.bind
                 (dump_items (\<lambda>child. dump_node build fuel st child opts deeper) opts deeper False
                   (take (nd_len n) (drop (nd_off n) (ds_children st))) (out @ ''[''))
                 (\<lambda>out. Some (dump_indent opts depth out @ '']''))
         | K_object \<Rightarrow>
             if nd_len n = 0 then Some (out @ ''{'' @ ''}'')
             else
               Option.bind
                 (dump_items
                   (\<lambda>m out. dump_node build fuel st (me_val_node m) opts deeper
                      (dump_text build opts (me_name_flags m) (member_name st m) out @ (if du_pretty opts then '': '' else '':'')))
                   opts deeper False (dump_order opts st (slot_members st (nd_off n) (nd_len n))) (out @ ''{''))
                 (\<lambda>out. Some (dump_indent opts depth out @ ''}'')))"
  by (simp add: dump_node.simps)

lemma dumps_array:
  assumes o: "du_truncate_depth opts = None" "json_blank (du_indent_char opts)" and vs: "\<And>v. v \<in> set vs \<Longrightarrow> dumps build opts st v"
  shows "dumps build opts st (JV_array vs)"
  unfolding dumps_def
proof (intro allI impI)
  fix i fuel depth out
  assume h: "document_holds st i (JV_array vs)" "json_height (JV_array vs) < fuel"
  obtain f where f: "fuel = Suc f" using h(2) by (cases fuel) auto
  define n where "n = ds_nodes st ! i"
  have n: "nd_kind n = K_array" "nd_len n = length vs" "list_all2 (document_holds st) (take (nd_len n) (drop (nd_off n) (ds_children st))) vs"
    using h(1) unfolding n_def holds_simps by blast+
  let ?d = "u32_of (depth + 1)" and ?ks = "take (nd_len n) (drop (nd_off n) (ds_children st))"
  let ?vs = "map (dumped_value (du_sort_object_keys opts)) vs"
  show "\<exists>w. dump_node build fuel st i opts depth out = Some (out @ w) \<and>
             json_value_text Dup_reject (dumped_value (du_sort_object_keys opts) (JV_array vs)) w"
  proof (cases "vs = []")
    case True
    then show ?thesis using n f o(1) empty_array [of "[]" Dup_reject] by (simp add: dump_node_Suc n_def [symmetric])
  next
    case False
    have "list_all2 (\<lambda>k v. \<forall>out. \<exists>w. dump_node build f st k opts ?d out = Some (out @ w) \<and> json_value_text Dup_reject v w) ?ks ?vs"
      unfolding list.rel_map
    proof (rule list.rel_mono_strong [OF n(3)])
      fix k v assume kv: "v \<in> set vs" "document_holds st k v"
      have "json_height v < f" using foldr_max_le [OF kv(1), of "\<lambda>v. Suc (json_height v)"] h(2) f by simp
      then show "\<forall>out. \<exists>w. dump_node build f st k opts ?d out = Some (out @ w) \<and>
          json_value_text Dup_reject (dumped_value (du_sort_object_keys opts) v) w"
        using vs [OF kv(1)] kv(2) unfolding dumps_def by blast
    qed
    moreover have "?ks \<noteq> []" using False n(2) list_all2_lengthD [OF n(3)] by auto
    ultimately obtain w where w: "dump_items (\<lambda>child. dump_node build f st child opts ?d) opts ?d False ?ks (out @ ''['') = Some ((out @ ''['') @ w)"
        "json_elements_text Dup_reject ?vs w"
      using dump_elements [of "\<lambda>child. dump_node build f st child opts ?d" Dup_reject ?ks ?vs opts ?d False "out @ ''[''"] o(2) by auto
    have "json_elements_text Dup_reject ?vs (w @ indent_text opts depth)" using trailing_blanks(2) [OF w(2) indent_blank [OF o(2)]] .
    then show ?thesis using f n False w o(1) array [of Dup_reject ?vs "w @ indent_text opts depth"]
      by (intro exI [of _ "CHR ''['' # (w @ indent_text opts depth) @ '']''"]) (simp add: dump_node_Suc n_def [symmetric] dump_indent_eq)
  qed
qed

lemma dump_order_held:
  assumes "list_all2 (member_holds st) entries ms"
  shows "list_all2 (member_holds st) (dump_order opts st entries) (if du_sort_object_keys opts then sort_key fst ms else ms)"
  using assms sort_related [OF assms, of "member_name st" fst] member_name_held by (auto simp: dump_order_def)

lemma sort_key_map_snd: "sort_key fst (map (\<lambda>(k, v). (k, f v)) ms) = map (\<lambda>(k, v). (k, f v)) (sort_key fst ms)"
proof -
  have ins: "insort_key fst (k, f v) (map (\<lambda>(k, v). (k, f v)) xs) = map (\<lambda>(k, v). (k, f v)) (insort_key fst (k, v) xs)" for k v xs
    by (induction xs) auto
  show ?thesis by (induction ms) (auto simp: sort_key_def ins)
qed

lemma dumps_object:
  assumes o: "du_truncate_depth opts = None" "json_blank (du_indent_char opts)" and distinct: "distinct (map fst ms)"
    and ms: "\<And>k v. (k, v) \<in> set ms \<Longrightarrow> dumps build opts st v"
      "\<And>k v. (k, v) \<in> set ms \<Longrightarrow> \<exists>t. json_string_body t k"
      "\<And>k v. (k, v) \<in> set ms \<Longrightarrow> du_ascii_only opts \<Longrightarrow> utf8_is_valid k"
  shows "dumps build opts st (JV_object ms)"
  unfolding dumps_def
proof (intro allI impI)
  fix i fuel depth out
  assume h: "document_holds st i (JV_object ms)" "json_height (JV_object ms) < fuel"
  obtain f where f: "fuel = Suc f" using h(2) by (cases fuel) auto
  define n where "n = ds_nodes st ! i"
  define by_name where "by_name = du_sort_object_keys opts"
  define order where "order = (if by_name then sort_key fst ms else ms)"
  define entries where "entries = dump_order opts st (slot_members st (nd_off n) (nd_len n))"
  have n: "nd_kind n = K_object" "nd_len n = length ms" "list_all2 (member_holds st) entries order"
    using h(1) dump_order_held [of st "slot_members st (nd_off n) (nd_len n)" ms opts]
    by (auto simp: document_holds_object n_def by_name_def order_def entries_def)
  let ?d = "u32_of (depth + 1)" and ?ms = "map (\<lambda>(k, v). (k, dumped_value by_name v)) order"
  let ?item = "\<lambda>m out. dump_node build f st (me_val_node m) opts ?d
                 (dump_text build opts (me_name_flags m) (member_name st m) out @ (if du_pretty opts then '': '' else '':''))"
  have v: "dumped_value by_name (JV_object ms) = JV_object ?ms" "set order = set ms" "distinct (map fst ?ms)"
  proof -
    show "dumped_value by_name (JV_object ms) = JV_object ?ms" by (simp add: order_def sort_key_map_snd)
    show "set order = set ms" by (simp add: order_def)
    have "map fst ?ms = map fst order" by (auto simp: case_prod_beta')
    moreover have "distinct (map fst order)" using distinct by (simp add: order_def distinct_map inj_on_def)
    ultimately show "distinct (map fst ?ms)" by (simp only:)
  qed
  have item: "\<forall>out. \<exists>x w. ?item m out = Some (out @ x @ CHR '':'' # colon opts @ w) \<and> json_quoted x k \<and>
      json_value_text Dup_reject (dumped_value by_name v) w" if kv: "(k, v) \<in> set ms" "member_holds st m (k, v)" for m k v
  proof (intro allI)
    fix out
    have m: "string_at st (me_name_off m) (me_name_len m) (me_name_flags m) k" "document_holds st (me_val_node m) v"
      using kv(2) by (simp_all add: member_holds_def)
    obtain t where t: "json_string_body t k" using ms(2) [OF kv(1)] by blast
    obtain x where x: "dump_text build opts (me_name_flags m) k out = out @ x" "json_quoted x k"
      using dump_text_quoted [OF _ t, of "me_name_flags m" opts build out] m(1) ms(3) [OF kv(1)] by (auto simp: string_at_def utf8_valid_encoded)
    have "json_height v < f" using foldr_max_le [OF kv(1), of "\<lambda>(k, v). Suc (json_height v)"] h(2) f by (simp add: case_prod_beta')
    then have "\<exists>w. dump_node build f st (me_val_node m) opts ?d (out @ x @ CHR '':'' # colon opts) = Some ((out @ x @ CHR '':'' # colon opts) @ w) \<and>
        json_value_text Dup_reject (dumped_value by_name v) w"
      using ms(1) [OF kv(1)] m(2) unfolding dumps_def by_name_def by blast
    then show "\<exists>x w. ?item m out = Some (out @ x @ CHR '':'' # colon opts @ w) \<and> json_quoted x k \<and>
      json_value_text Dup_reject (dumped_value by_name v) w"
      using x member_name_held [OF kv(2)] by (cases "du_pretty opts") (auto simp: colon_def)
  qed
  show "\<exists>w. dump_node build fuel st i opts depth out = Some (out @ w) \<and>
             json_value_text Dup_reject (dumped_value (du_sort_object_keys opts) (JV_object ms)) w"
  proof (cases "ms = []")
    case True
    then show ?thesis using n f o(1) empty_object [of "[]" Dup_reject] by (simp add: dump_node_Suc n_def [symmetric])
  next
    case False
    have "list_all2 (\<lambda>m (k, v). \<forall>out. \<exists>x w. ?item m out = Some (out @ x @ CHR '':'' # colon opts @ w) \<and> json_quoted x k \<and>
        json_value_text Dup_reject v w) entries ?ms"
      unfolding list.rel_map by (rule list.rel_mono_strong [OF n(3)]) (use item v(2) in auto)
    moreover have "entries \<noteq> []" using False n(3) v(2) by auto
    ultimately obtain w where w: "dump_items ?item opts ?d False entries (out @ ''{'') = Some ((out @ ''{'') @ w)" "json_members_text Dup_reject ?ms w"
      using dump_members [of ?item opts Dup_reject entries ?ms ?d False "out @ ''{''"] o(2) by auto
    have "json_members_text Dup_reject ?ms (w @ indent_text opts depth)" using trailing_blanks(3) [OF w(2) indent_blank [OF o(2)]] .
    moreover have "add_members Dup_reject [] ?ms = Some ?ms" using distinct_all_added [of "[]" ?ms Dup_reject] v(3) by simp
    ultimately have "json_value_text Dup_reject (JV_object ?ms) (CHR ''{'' # (w @ indent_text opts depth) @ ''}'')" by (rule object)
    then show ?thesis using f n(1,2) False w(1) o(1) v(1)
      by (intro exI [of _ "CHR ''{'' # (w @ indent_text opts depth) @ ''}''"])
        (simp add: dump_node_Suc n_def [symmetric] entries_def by_name_def dump_indent_eq)
  qed
qed

lemma dumps_string:
  assumes o: "du_truncate_depth opts = None" and b: "\<exists>t. json_string_body t b" "du_ascii_only opts \<Longrightarrow> utf8_is_valid b"
  shows "dumps build opts st (JV_string b)"
  unfolding dumps_def
proof (intro allI impI)
  fix i fuel depth out
  assume h: "document_holds st i (JV_string b)" "json_height (JV_string b) < fuel"
  obtain f where f: "fuel = Suc f" using h(2) by (cases fuel) auto
  define n where "n = ds_nodes st ! i"
  have n: "nd_kind n = K_string" "string_at st (nd_off n) (nd_len n) (nd_flags n) b" using h(1) by (simp_all add: holds_simps n_def)
  obtain t where t: "json_string_body t b" using b(1) by blast
  have raw: "nd_flags n AND kRawJsonSlice \<noteq> 0 \<Longrightarrow> json_string_body b b" and bytes: "bytes_at st (nd_off n) (nd_len n) (nd_flags n) = b"
    using n(2) unfolding string_at_def text_at_def by blast+
  obtain w where "dump_text build opts (nd_flags n) b out = out @ w" "json_quoted w b"
    using dump_text_quoted [OF raw t, where opts = opts and build = build and out = out] b(2) by (auto simp: utf8_valid_encoded)
  then show "\<exists>w. dump_node build fuel st i opts depth out = Some (out @ w) \<and>
      json_value_text Dup_reject (dumped_value (du_sort_object_keys opts) (JV_string b)) w"
    using f n(1) o bytes by (auto simp: dump_node_Suc n_def [symmetric] intro: str)
qed

lemma dumps_number:
  assumes o: "du_truncate_depth opts = None" and w: "json_number w"
  shows "dumps build opts st (JV_number w)"
  unfolding dumps_def
proof (intro allI impI)
  fix i fuel depth out
  assume h: "document_holds st i (JV_number w)" "json_height (JV_number w) < fuel"
  obtain f where f: "fuel = Suc f" using h(2) by (cases fuel) auto
  define n where "n = ds_nodes st ! i"
  have n: "nd_kind n = K_number" "text_at st (nd_off n) (nd_len n) (nd_flags n) w" using h(1) by (simp_all add: holds_simps n_def)
  have "bytes_at st (nd_off n) (nd_len n) (nd_flags n) = w" using n(2) unfolding text_at_def by blast
  then show "\<exists>x. dump_node build fuel st i opts depth out = Some (out @ x) \<and>
      json_value_text Dup_reject (dumped_value (du_sort_object_keys opts) (JV_number w)) x"
    using f n(1) o number [OF w] by (auto simp: dump_node_Suc n_def [symmetric])
qed

lemma dumps_words:
  assumes "du_truncate_depth opts = None"
  shows "dumps build opts st JV_null" "dumps build opts st (JV_bool b)"
  unfolding dumps_def
proof (intro allI impI)
  fix i fuel depth out
  assume "document_holds st i JV_null" "json_height JV_null < fuel"
  then show "\<exists>w. dump_node build fuel st i opts depth out = Some (out @ w) \<and> json_value_text Dup_reject (dumped_value (du_sort_object_keys opts) JV_null) w"
    using assms null [of Dup_reject] by (cases fuel) (auto simp: holds_simps dump_node_Suc)
next
  show "\<forall>i fuel depth out. document_holds st i (JV_bool b) \<longrightarrow> json_height (JV_bool b) < fuel \<longrightarrow>
      (\<exists>w. dump_node build fuel st i opts depth out = Some (out @ w) \<and>
           json_value_text Dup_reject (dumped_value (du_sort_object_keys opts) (JV_bool b)) w)"
  proof (intro allI impI)
    fix i fuel depth out
    assume "document_holds st i (JV_bool b)" "json_height (JV_bool b) < fuel"
    then show "\<exists>w. dump_node build fuel st i opts depth out = Some (out @ w) \<and> json_value_text Dup_reject (dumped_value (du_sort_object_keys opts) (JV_bool b)) w"
      using assms true [of Dup_reject] false [of Dup_reject] by (cases fuel; cases b) (auto simp: holds_simps dump_node_Suc)
  qed
qed

lemma values_dumped:
  assumes o: "du_truncate_depth opts = None" "json_blank (du_indent_char opts)"
    and v: "json_well_formed v" "du_ascii_only opts \<Longrightarrow> list_all utf8_is_valid (json_strings v)"
  shows "dumps build opts st v"
  using v
proof (induction v)
  case (JV_array vs)
  show ?case by (rule dumps_array [OF o]) (use JV_array in \<open>auto simp: list_all_iff\<close>)
next
  case (JV_object ms)
  show ?case
  proof (rule dumps_object [OF o])
    fix k v assume kv: "(k, v) \<in> set ms"
    show "dumps build opts st v" by (rule JV_object.IH [OF kv]) (use JV_object.prems kv in \<open>auto simp: list_all_iff snds.simps\<close>)
  qed (use JV_object.prems in \<open>auto simp: list_all_iff\<close>)
qed (use o(1) in \<open>auto intro: dumps_string dumps_number dumps_words\<close>)

section \<open>Parsed again\<close>

lemma dumped_within: "json_within env opts d (dumped_value by_name v) \<longleftrightarrow> json_within env opts d v"
proof (induction v arbitrary: d)
  case (JV_array vs)
  then show ?case by (simp add: json_within.simps list_all_iff)
next
  case (JV_object ms)
  then have "json_within env opts d (dumped_value by_name v) \<longleftrightarrow> json_within env opts d v" if "(k, v) \<in> set ms" for k v d
    using that by fastforce
  then show ?case by (auto simp: json_within.simps list_all_iff Let_def)
qed simp_all

lemma value_no_bom:
  assumes "json_value_text pol v w"
  shows "\<not> prefix kBOM w"
proof -
  have "\<exists>c x. w = c # x \<and> byte c < 0x80"
  proof (cases "json_number w")
    case True
    obtain c x where w: "w = c # x" "c = CHR ''-'' \<or> is_digit c" using number_start [OF True] by blast
    have "byte c < 0x80" using w(2) by (auto simp: is_digit_def char_between_def)
    with w(1) show ?thesis by blast
  next
    case False
    with assms have "\<exists>c x. w = c # x \<and> c \<in> {CHR 0x22, CHR ''['', CHR ''{'', CHR ''t'', CHR ''f'', CHR ''n''}"
      by cases (auto simp: json_quoted_def)
    moreover have "byte c < 0x80" if "c \<in> {CHR 0x22, CHR ''['', CHR ''{'', CHR ''t'', CHR ''f'', CHR ''n''}" for c using that by auto
    ultimately show ?thesis by blast
  qed
  then show ?thesis by (auto simp: kBOM_def)
qed

lemma holds_well_formed:
  assumes "json_parse env input opts = J_ok st" "po_mode opts = Strict" "document_holds st (ds_root st) v"
  shows "json_well_formed v"
proof -
  obtain u where u: "json_text (po_duplicate_key opts) u (if prefix kBOM input then drop (length kBOM) input else input)"
      "document_holds st (ds_root st) u" using json_parse_reads [OF assms(1,2)] by blast
  then have "u = v" using holds_unique [OF assms(3)] by blast
  with u(1) show ?thesis unfolding json_text_def using text_well_formed(1) by blast
qed

text \<open>
  C3: Writing and parsing are inverse: for a document that the strict parser returned, with any policy
  on repeated names, the writer ends with a text, in every build, and the strict parser reads that text
  back to a document that holds the same value, with the members of every object sorted by name when
  the options ask for it. The options may indent with any white space; with escapes for all characters
  that are not ASCII the strings of the document have to be valid UTF-8. The depth is not cut and the
  text is within the limits of the parser.
\<close>

theorem json_dump_reparsed:
  assumes "json_parse env input opts = J_ok st" "po_mode opts = Strict" "document_holds st (ds_root st) v"
    and "du_truncate_depth dopts = None" "json_blank (du_indent_char dopts)"
      "du_ascii_only dopts \<Longrightarrow> list_all utf8_is_valid (json_strings v)"
    and "po_mode opts' = Strict" "po_duplicate_key opts' = Dup_reject" "json_within env opts' 0 v"
  shows "\<exists>out. json_dump build dopts st = Some out \<and>
    (check_input_limits (length out) opts' = None \<longrightarrow>
      (\<exists>st'. json_parse env out opts' = J_ok st' \<and>
        document_holds st' (ds_root st') (dumped_value (du_sort_object_keys dopts) v)))"
proof -
  let ?v = "dumped_value (du_sort_object_keys dopts) v"
  have "dumps build dopts st v" using values_dumped [OF assms(4,5) holds_well_formed [OF assms(1-3)] assms(6)] .
  moreover have "json_height v < Suc (length (ds_nodes st))" using height_nodes [OF assms(3)] by simp
  ultimately obtain w where w: "json_dump build dopts st = Some w" "json_value_text Dup_reject ?v w"
    using assms(3) unfolding dumps_def json_dump_def node_dump_def by (metis append_Nil)
  have "json_text Dup_reject ?v w" using json_textI [of "[]" Dup_reject ?v w "[]"] w(2) by simp
  then have "\<exists>st'. json_parse env w opts' = J_ok st' \<and> document_holds st' (ds_root st') ?v"
    if "check_input_limits (length w) opts' = None" using json_parse_accepts [OF assms(7,8) that, of ?v env] value_no_bom [OF w(2)] assms(9) by (simp add: dumped_within)
  with w(1) show ?thesis by (intro exI [of _ w]) blast
qed

theorem json_dump_reparsed_witness:
  "\<exists>st st' out. json_parse json_demo_env (''[null, '' @ [CHR 0x22, CHR ''a'', CHR 0x22] @ '' ]'') json_parse_options_default = J_ok st \<and>
     json_dump Build_none json_dump_options_default st = Some out \<and> out = ''[null,'' @ [CHR 0x22, CHR ''a'', CHR 0x22] @ '']'' \<and>
     json_parse json_demo_env out json_parse_options_default = J_ok st' \<and> document_holds st' (ds_root st') (JV_array [JV_null, JV_string ''a''])"
proof -
  let ?text = "''[null, '' @ [CHR 0x22, CHR ''a'', CHR 0x22] @ '' ]''" and ?out = "''[null,'' @ [CHR 0x22, CHR ''a'', CHR 0x22] @ '']''"
  let ?v = "JV_array [JV_null, JV_string ''a'']" and ?opts = json_parse_options_default and ?dopts = json_dump_options_default
  have "json_unit ''a''" by code_simp
  then have "json_string_body ''a'' ''a''" using json_string_body.plain [OF _ json_string_body.closed, of "''a''"] by simp
  then have quoted: "json_quoted [CHR 0x22, CHR ''a'', CHR 0x22] ''a''" by (auto simp: json_quoted_def)
  have "json_elements_text Dup_reject [JV_null, JV_string ''a''] ([] @ ''null'' @ [] @ CHR '','' # ('' '' @ [CHR 0x22, CHR ''a'', CHR 0x22] @ '' ''))"
    by (rule element [OF _ null _ last_element [OF _ str [OF quoted]]]) code_simp+
  from array [OF this] have "json_value_text Dup_reject ?v ?text" by simp
  then have whole: "json_text Dup_reject ?v ?text" using json_textI [of "[]" Dup_reject ?v ?text "[]"] by simp
  have within: "json_within json_demo_env ?opts 0 ?v" and bom: "\<not> prefix kBOM ?text" by code_simp+
  have opts: "po_mode ?opts = Strict" "po_duplicate_key ?opts = Dup_reject" "check_input_limits (length ?text) ?opts = None"
    "check_input_limits (length ?out) ?opts = None" by code_simp+
  have dopts: "du_truncate_depth ?dopts = None" "json_blank (du_indent_char ?dopts)" "\<not> du_ascii_only ?dopts" "\<not> du_sort_object_keys ?dopts"
    by code_simp+
  obtain st where st: "json_parse json_demo_env ?text ?opts = J_ok st" "document_holds st (ds_root st) ?v"
    using json_parse_accepts [OF opts(1-3) _ within] whole bom by (simp only: if_False) blast
  have "case json_parse json_demo_env ?text ?opts of J_ok st \<Rightarrow> json_dump Build_none ?dopts st = Some ?out | _ \<Rightarrow> False" by code_simp
  then have out: "json_dump Build_none ?dopts st = Some ?out" using st(1) by simp
  from json_dump_reparsed [OF st(1) opts(1) st(2) dopts(1,2) _ opts(1,2) within, of Build_none] out opts(4) dopts(3,4)
  obtain st' where "json_parse json_demo_env ?out ?opts = J_ok st'" "document_holds st' (ds_root st') ?v" by (auto simp del: append.simps)
  with st(1) out show ?thesis by blast
qed

end
