(* ===== verification/Spec2Isabelle.thy ===== *)
theory Spec2Isabelle
  imports Http1_Parser Server_Helpers Response_Cache Rate_Limit Static_Core Sse_Channel Web_Socket Slot_Pool Json_Roundtrip
begin

text \<open>
  A verification development for conflux, a C++ framework for HTTP services (sources under
  \<open>src/src\<close>).  A connection handler reads bytes, the HTTP/1 parser turns them into a request, the
  router matches the path, runs the middlewares around the handler and returns a response, and the
  server helpers write the response back.  Beside this path stand the realtime protocols, the caches
  and the utilities they share.

  \<^bold>\<open>Conventions\<close> (theory \<open>Prelude\<close>).  A string is a list of bytes, \<open>npos\<close> is \<open>None\<close>, machine
  words are words where arithmetic can wrap, errors are values.  An operation under a mutex is one
  step.  A component with state is a record with one function per operation; a sequence of calls is
  a list of commands.  The interfaces \<open>codec\<close>, \<open>invariant_machine\<close> and \<open>refinement_machine\<close> carry
  the facts about inverse functions, invariants and refinement, and are interpreted on the
  components.  What lies outside the sources (clocks, random bytes, the address conversions of the
  C library, \<open>std::hash\<close>, the transport) is an argument.

  \<^bold>\<open>Utilities.\<close>
  \<^item> \<open>Utils\<close> (\<open>utils.cxx\<close>): hex and URL coding with their inverses, CIDR blocks, the generator.
  \<^item> \<open>Support\<close> (\<open>types_api.cxx\<close>): the string LRU map, refined to a list in order of use.
  \<^item> \<open>Crypto\<close> (\<open>crypto.cxx\<close>): base64, SHA-1, SHA-256 and HMAC.  Hashing in pieces is hashing the
    whole, and HMAC is its definition in RFC 2104.  The round constants are computed by the rule
    of the standard.
  \<^item> \<open>Json_Escape\<close> (\<open>utils.cxx\<close>, \<open>net/http_json_string.cxx\<close>): escaping with a scan over eight bytes
    at a time, equal to the scan byte by byte (interface \<open>word_scan\<close>).
  \<^item> \<open>Utf8\<close> (\<open>net/realtime.cxx\<close>): the validator accepts exactly the encodings of scalar values.

  \<^bold>\<open>HTTP.\<close>
  \<^item> \<open>Http_Types\<close> (\<open>net/http_types.cxx\<close>): field maps (interface \<open>header_store\<close>), header tokens,
    authorities and URLs, which are read back from their text.
  \<^item> \<open>Http_Parse\<close> (\<open>net/http_parse_helpers.cxx\<close>): lengths, forms and the incremental chunked
    decoder, whose result does not depend on how the input is cut.
  \<^item> \<open>Http1_Parser\<close> (\<open>net/http1_parser.cxx\<close>): accepted requests are well formed, rendered requests
    are read back, limits hold.
  \<^item> \<open>Upload_Body\<close>, \<open>Server_Types\<close> (\<open>net/server_types.cxx\<close>): the upload queue with its flow and
    liveness, typed fields, the zero-copy send machine.
  \<^item> \<open>Http_Response\<close> (\<open>net/response.cxx\<close>): the response and its body, deferred responses as a
    mailbox.
  \<^item> \<open>Server_Helpers\<close> (\<open>net/http_server_helpers.cxx\<close>): no header can split a response, multipart
    forms are read back.

  \<^bold>\<open>Routing and middlewares.\<close>
  \<^item> \<open>Route_Match\<close> (\<open>net/router_match.cxx\<close>), \<open>Router\<close> (\<open>net/router.cxx\<close>, \<open>net/router_impl.cxx\<close>,
    \<open>net/router_dispatch.cxx\<close>): matching equals its reference, dispatch takes the first registered
    route that matches, the chain of middlewares runs each at most once.  The nesting of the chain is
    bounded by its length, which is the fuel used.
  \<^item> \<open>Middleware\<close> (CORS, CSRF, security headers, redirects, cache control, trailing slashes, forwarded
    headers, IP filter, entity tags, request ids, signed cookies): what each lets through.
  \<^item> \<open>Response_Cache\<close> (\<open>net/response_cache.cxx\<close>), \<open>Rate_Limit\<close> (\<open>net/rate_limit.cxx\<close>,
    \<open>net/rate_limit_impl.cxx\<close>), \<open>Static_Core\<close> (\<open>net/static_core.cxx\<close>): budgets are kept, hits were
    stored, requests per window are bounded, paths stay inside the root.

  \<^bold>\<open>Realtime\<close> (\<open>net/realtime.cxx\<close>).
  \<^item> \<open>Sse_Channel\<close>: the event queue with its overflow policies and the bound that holds for them.
  \<^item> \<open>Web_Socket\<close>: frames, fragmentation and closing.  Receiving returns on every finite input, and a
    message is received as it was sent, however it was fragmented and cut.

  \<^bold>\<open>Descriptors\<close> (\<open>net/direct_slot_pool.cxx\<close>).
  \<^item> \<open>Slot_Pool\<close>: the pool of direct descriptor slots and its leases.  No sequence of operations fails
    an assertion, and the counts and the stack of free slots agree with the states of the slots.

  \<^bold>\<open>JSON.\<close>
  \<^item> \<open>Json_Document\<close> (\<open>json_api.cxx\<close>, \<open>json_storage.cxx\<close>, \<open>json_number.cxx\<close>): nodes, members and texts of
    a document in its storage, options and errors, numbers.  The conversion of \<open>std::from_chars\<close>
    for doubles, the seeds of the hash tables and whether memory is there are an argument.
  \<^item> \<open>Json_Lookup\<close> (\<open>json_lookup.cxx\<close>, \<open>json_dom.cxx\<close>): members are found as by a search from the
    first, with and without a hash table.  The tables keep indices; the pointers that the code caches
    beside them are not modelled.
  \<^item> \<open>Json_Tokenizer\<close>, \<open>Json_Parse\<close> (\<open>json_parse.cxx\<close>, \<open>json_parse_entries.cxx\<close>,
    \<open>json_reader_strings.cxx\<close>): the strict and the JSON5 parser in a state monad with errors.  The
    fuel is twice the length of the input and two; each recursive call consumes a byte, and parsing
    is shown never to run out of it.
  \<^item> \<open>Json_Grammar\<close>, \<open>Json_Tree\<close>, \<open>Json_Sound\<close>: the grammar of RFC 8259 with the value of each text, the
    value a document holds, and that the strict parser accepts only texts of the grammar and builds
    their values.
  \<^item> \<open>Json_Runs\<close>, \<open>Json_Complete\<close>: it accepts all of them within its limits.
  \<^item> \<open>Json_Dump\<close>, \<open>Json_Roundtrip\<close> (\<open>json_dump.cxx\<close>): writing, and that the text written for a document
    is parsed back to its value.  The fuel of the writer is the number of nodes and one, and no path
    in a document that holds a value is longer.
  \<^item> \<open>Simd\<close> (\<open>json_simd_intrinsics.cxx\<close>, \<open>json_simd_stdx.cxx\<close>, \<open>json_simd_std26.cxx\<close>,
    \<open>json_simd_ifunc.cxx\<close>, \<open>simd_stdx.cxx\<close>, \<open>simd_std26.cxx\<close>): the vector variants of the byte loops, in
    every build equal to the loops (interfaces \<open>block_scan\<close> and \<open>block_map\<close>).

  \<^bold>\<open>Not modelled.\<close>  The event loop, sockets, files, subprocesses and the io_uring layer are system
  calls and their completions.  TLS, QUIC and HTTP/2 framing, PostgreSQL and compression are driven
  through libraries that are not part of the sources.  The work runtime schedules coroutines over
  threads and the application layer is template code over handler signatures; neither has a
  sequential meaning of its own.  Of JSON, the pull reader and the streams, which read the same
  grammar again for decoders, the builder, the patches and the reflection over user types are left
  out.  Floating-point quality values and calendar dates are left out
  where they occur.  Templates, the HTTP client with its request builder, the DNS
  resolver, mail, and password and token authentication are not covered.
\<close>

end
